(* ===== verification/Prelude.thy ===== *)
theory Prelude
  imports Main "HOL-Library.Word"
begin

text \<open>
  Types, machine arithmetic and generic lemmas shared by the component theories.

  \<^item> \<open>u8\<close>, \<open>u16\<close>, \<open>u32\<close>, \<open>u64\<close> are the C types \<open>uint8_t\<close> \<dots> \<open>uint64_t\<close>.
  \<^item> \<open>szadd\<close>, \<open>szsub\<close> and \<open>szmul\<close> are \<open>size_t\<close> arithmetic (\<open>size_t\<close> has 64 bits on
    x86-64) on natural numbers, with the wrap-around written out.  Where the result does
    not wrap they are the operations of \<open>nat\<close>; the collection \<open>size_arith\<close> holds the
    facts that say so.
\<close>

unbundle bit_operations_syntax

type_synonym u8 = "8 word"
type_synonym u16 = "16 word"
type_synonym u32 = "32 word"
type_synonym u64 = "64 word"

named_theorems size_arith \<open>size_t arithmetic that does not wrap\<close>

definition szadd :: "nat \<Rightarrow> nat \<Rightarrow> nat" where
  "szadd a b = (a + b) mod 2 ^ 64"

definition szsub :: "nat \<Rightarrow> nat \<Rightarrow> nat" where
  "szsub a b = (a + 2 ^ 64 - b) mod 2 ^ 64"

definition szmul :: "nat \<Rightarrow> nat \<Rightarrow> nat" where
  "szmul a b = (a * b) mod 2 ^ 64"

lemma mod_sub_exact: "b \<le> a \<Longrightarrow> a < m \<Longrightarrow> (a + m - b) mod m = a - b" for a b m :: nat
proof -
  assume ba: "b \<le> a" and am: "a < m"
  have eq: "a + m - b = (a - b) + m" using ba by arith
  have "(a - b) mod m = a - b" by (rule mod_less) (use am in arith)
  then show ?thesis by (simp only: eq mod_add_self2)
qed

lemma szadd_exact [size_arith]: "a + b < 2 ^ 64 \<Longrightarrow> szadd a b = a + b"
  unfolding szadd_def by (rule mod_less)

lemma szsub_exact [size_arith]: "b \<le> a \<Longrightarrow> a < 2 ^ 64 \<Longrightarrow> szsub a b = a - b"
  unfolding szsub_def by (rule mod_sub_exact)

lemma szmul_exact [size_arith]: "a * b < 2 ^ 64 \<Longrightarrow> szmul a b = a * b"
  unfolding szmul_def by (rule mod_less)

lemma szadd_bound: "szadd a b < 2 ^ 64"
  unfolding szadd_def by (rule mod_less_divisor) simp

lemma szsub_bound: "szsub a b < 2 ^ 64"
  unfolding szsub_def by (rule mod_less_divisor) simp

subsection \<open>Little-endian integers\<close>

text \<open>
  x86-64 is little-endian: \<open>le_nat\<close> reads an unsigned integer from its bytes, \<open>to_le k n\<close>
  stores the low \<open>k\<close> bytes of \<open>n\<close>, and \<open>rd m a k\<close> reads \<open>k\<close> bytes at address \<open>a\<close>.
\<close>

fun le_nat :: "u8 list \<Rightarrow> nat" where
  "le_nat [] = 0"
| "le_nat (b # bs) = unat b + 256 * le_nat bs"

fun to_le :: "nat \<Rightarrow> nat \<Rightarrow> u8 list" where
  "to_le 0 n = []"
| "to_le (Suc k) n = word_of_nat (n mod 256) # to_le k (n div 256)"

definition rd :: "(nat \<Rightarrow> u8) \<Rightarrow> nat \<Rightarrow> nat \<Rightarrow> nat" where
  "rd m a k = le_nat (map m [a..<a + k])"

lemma length_to_le [simp]: "length (to_le k n) = k"
  by (induction k arbitrary: n) auto

lemma unat_u8_bound [simp]: "unat (b :: u8) < 256"
  using unsigned_less [of b] by simp

lemma unat_u8_of_nat: "n < 256 \<Longrightarrow> unat (word_of_nat n :: u8) = n"
  by (simp add: unat_of_nat)

lemma le_nat_bound: "le_nat bs < 256 ^ length bs"
proof (induction bs)
  case (Cons b bs)
  define N :: nat where "N = 256 ^ length bs"
  have "unat b < 256" by (rule unat_u8_bound)
  moreover have "le_nat bs < N" using Cons by (simp add: N_def)
  ultimately have "unat b + 256 * le_nat bs < 256 * N" by arith
  then show ?case by (simp add: N_def)
qed simp

lemma le_nat_to_le: "le_nat (to_le k n) = n mod 256 ^ k"
proof (induction k arbitrary: n)
  case (Suc k)
  have "n mod 256 ^ Suc k = n mod 256 + 256 * (n div 256 mod 256 ^ k)"
    using mod_mult2_eq [of n 256 "256 ^ k"] by (simp add: ac_simps)
  then show ?case using Suc by (simp add: unat_u8_of_nat)
qed simp

lemma to_le_le_nat: "to_le (length bs) (le_nat bs) = bs"
proof (induction bs)
  case (Cons b bs)
  have "(unat b + 256 * le_nat bs) mod 256 = unat b" "(unat b + 256 * le_nat bs) div 256 = le_nat bs"
    using unat_u8_bound [of b] by auto
  then show ?case using Cons by simp
qed simp

lemma rd_bound: "rd m a k < 256 ^ k"
  using le_nat_bound [of "map m [a..<a + k]"] by (simp add: rd_def)

subsection \<open>Bytes in memory\<close>

definition bytes_at :: "(nat \<Rightarrow> u8) \<Rightarrow> nat \<Rightarrow> u8 list \<Rightarrow> bool" where
  "bytes_at m a bs \<longleftrightarrow> map m [a..<a + length bs] = bs"

lemma bytes_at_append [simp]:
  "bytes_at m a (xs @ ys) \<longleftrightarrow> bytes_at m a xs \<and> bytes_at m (a + length xs) ys"
proof -
  have "[a..<a + length (xs @ ys)] = [a..<a + length xs] @ [a + length xs..<a + length xs + length ys]"
    using upt_add_eq_append [of a "a + length xs" "length ys"] by (simp only: length_append add.assoc le_add1)
  then show ?thesis by (simp add: bytes_at_def append_eq_append_conv)
qed

lemma bytes_at_Nil [simp]: "bytes_at m a []"
  by (simp add: bytes_at_def)

lemma bytes_at_nth: "bytes_at m a bs \<Longrightarrow> i < length bs \<Longrightarrow> m (a + i) = bs ! i"
proof -
  assume b: "bytes_at m a bs" and i: "i < length bs"
  have "map m [a..<a + length bs] ! i = m (a + i)" using i by simp
  then show ?thesis using b by (simp add: bytes_at_def)
qed

lemma bytes_at_slice:
  "bytes_at m a bs \<Longrightarrow> i + n \<le> length bs \<Longrightarrow> map m [a + i..<a + i + n] = take n (drop i bs)"
  by (rule nth_equalityI) (auto simp: bytes_at_nth add.assoc)

lemma rd_bytes_at: "bytes_at m a (to_le k n) \<Longrightarrow> n < 256 ^ k \<Longrightarrow> rd m a k = n"
  by (simp add: bytes_at_def rd_def le_nat_to_le)

lemma bytes_at_image: "bytes_at (\<lambda>a. bs ! (a - k)) k bs"
  unfolding bytes_at_def by (rule nth_equalityI) auto

text \<open>The bytes of a string literal, without the terminating NUL.\<close>

definition bytes_of :: "string \<Rightarrow> u8 list" where
  "bytes_of s = map (\<lambda>c. word_of_nat (of_char c)) s"

end
