(* ===== verification/Pmm.thy ===== *)
theory Pmm
  imports Prelude
begin

text \<open>
  The physical memory manager, \<^verbatim>\<open>src/kernel/mm/pmm.c\<close>: \<open>pmm_init\<close> picks the largest usable
  region of the Multiboot2 memory map as a frame pool; \<open>pmm_alloc_frame\<close> takes frames from a
  stack of freed frames and then from the pool; \<open>pmm_free_frame\<close> pushes on the stack.
  Addresses are \<open>uintptr_t\<close> values.
\<close>

subsection \<open>The C data\<close>

definition PAGE_SIZE :: nat where
  "PAGE_SIZE = 4096"

definition PMM_FREE_STACK_MAX :: nat where
  "PMM_FREE_STACK_MAX = 65536"

record mmap_entry =
  me_addr :: nat
  me_len :: nat
  me_type :: nat

record boot_module =
  bm_start :: nat
  bm_end :: nat
  bm_cmdline :: nat

text \<open>What \<open>pmm_init\<close> reads of \<open>struct boot_info\<close>; \<open>pb_mmap\<close> is \<open>None\<close> for a null \<open>mmap\<close> pointer.\<close>

record pmm_boot =
  pb_mmap :: "mmap_entry list option"
  pb_rootfs :: boot_module
  pb_install :: boot_module
  pb_mem_lower_kib :: nat
  pb_mem_upper_kib :: nat

record pmm_state =
  total_bytes :: nat
  usable_bytes :: nat
  allocated_frames :: nat
  free_frames_estimate :: nat
  frame_cursor :: nat
  frame_limit :: nat
  free_stack :: "nat list"

text \<open>\<open>align_up\<close> is only called with \<open>PAGE_SIZE\<close>, a power of two.\<close>

definition align_up :: "nat \<Rightarrow> nat \<Rightarrow> nat" where
  "align_up val al = szsub (szadd val al) 1 div al * al"

subsection \<open>Choosing the frame pool\<close>

text \<open>The accumulators of the loop over the memory map.\<close>

record mmap_scan =
  sc_highest :: nat
  sc_usable :: nat
  sc_best_start :: nat
  sc_best_len :: nat

definition scan_entry :: "mmap_entry \<Rightarrow> mmap_scan \<Rightarrow> mmap_scan" where
  "scan_entry m a =
     (if me_type m = 1 then
        let start0 = me_addr m;
            limit = szadd (me_addr m) (me_len m);
            a1 = (if limit > sc_highest a then a\<lparr>sc_highest := limit\<rparr> else a)
        in if limit > 0x100000 then
             let start = (if start0 < 0x100000 then 0x100000 else start0);
                 a2 = a1\<lparr>sc_usable := szadd (sc_usable a1) (szsub limit start)\<rparr>
             in if szsub limit start > sc_best_len a2
                then a2\<lparr>sc_best_start := start, sc_best_len := szsub limit start\<rparr>
                else a2
           else a1
      else a)"

definition mmap_scan_all :: "mmap_entry list \<Rightarrow> mmap_scan" where
  "mmap_scan_all es =
     fold scan_entry es \<lparr>sc_highest = 0, sc_usable = 0, sc_best_start = 0, sc_best_len = 0\<rparr>"

definition reserved_end :: "nat \<Rightarrow> pmm_boot \<Rightarrow> nat" where
  "reserved_end kernel_end boot =
     (let r0 = align_up kernel_end PAGE_SIZE;
          r1 = (if bm_end (pb_rootfs boot) \<noteq> 0 \<and> bm_end (pb_rootfs boot) > r0
                then align_up (bm_end (pb_rootfs boot)) PAGE_SIZE else r0);
          r2 = (if bm_end (pb_install boot) \<noteq> 0 \<and> bm_end (pb_install boot) > r1
                then align_up (bm_end (pb_install boot)) PAGE_SIZE else r1)
      in r2)"

text \<open>The pool from the chosen region: the end of \<open>pmm_init\<close>.\<close>

definition pmm_pool :: "nat \<Rightarrow> nat \<Rightarrow> nat \<Rightarrow> nat \<times> nat" where
  "pmm_pool best_start best_len res_end =
     (let c0 = align_up best_start PAGE_SIZE;
          c1 = (if c0 < res_end \<and> res_end < szadd best_start best_len then res_end else c0);
          l0 = align_up (szadd best_start best_len) PAGE_SIZE;
          l1 = (if l0 < c1 then c1 else l0)
      in (c1, l1))"

definition pmm_init :: "nat \<Rightarrow> pmm_boot \<Rightarrow> pmm_state" where
  "pmm_init kernel_end boot =
     (let (total, usable, best_start, best_len) =
            (case pb_mmap boot of
               Some es \<Rightarrow>
                 let a = mmap_scan_all es
                 in (sc_highest a, sc_usable a, sc_best_start a, sc_best_len a)
             | None \<Rightarrow>
                 let usable = szmul (pb_mem_upper_kib boot) 1024
                 in (szmul (szadd (pb_mem_lower_kib boot) (pb_mem_upper_kib boot)) 1024, usable,
                     0x200000, if usable > 0x200000 then usable - 0x200000 else 0));
          (cursor, limit) = pmm_pool best_start best_len (reserved_end kernel_end boot)
      in \<lparr>total_bytes = total, usable_bytes = usable, allocated_frames = 0,
          free_frames_estimate = (limit - cursor) div PAGE_SIZE,
          frame_cursor = cursor, frame_limit = limit, free_stack = []\<rparr>)"

subsection \<open>Frames\<close>

text \<open>The free stack is a list with its top last; its length is \<open>free_stack_count\<close>.\<close>

definition count_alloc :: "pmm_state \<Rightarrow> pmm_state" where
  "count_alloc s =
     s\<lparr>allocated_frames := szadd (allocated_frames s) 1,
       free_frames_estimate := (if free_frames_estimate s \<noteq> 0 then free_frames_estimate s - 1
                                else free_frames_estimate s)\<rparr>"

definition pmm_alloc_frame :: "pmm_state \<Rightarrow> nat \<times> pmm_state" where
  "pmm_alloc_frame s =
     (if free_stack s \<noteq> [] then
        (last (free_stack s), count_alloc (s\<lparr>free_stack := butlast (free_stack s)\<rparr>))
      else if szadd (frame_cursor s) PAGE_SIZE > frame_limit s then (0, s)
      else (frame_cursor s, count_alloc (s\<lparr>frame_cursor := szadd (frame_cursor s) PAGE_SIZE\<rparr>)))"

definition pmm_free_frame :: "pmm_state \<Rightarrow> nat \<Rightarrow> pmm_state" where
  "pmm_free_frame s frame =
     (if frame = 0 \<or> frame mod PAGE_SIZE \<noteq> 0 then s
      else if length (free_stack s) \<ge> PMM_FREE_STACK_MAX then s
      else s\<lparr>free_stack := free_stack s @ [frame],
             allocated_frames := (if allocated_frames s \<noteq> 0 then allocated_frames s - 1
                                  else allocated_frames s),
             free_frames_estimate := szadd (free_frames_estimate s) 1\<rparr>)"

subsection \<open>The frame pool\<close>

lemma align_up_exact:
  "val + 4095 < 2 ^ 64 \<Longrightarrow> align_up val PAGE_SIZE = (val + 4095) div 4096 * 4096"
proof -
  assume v: "val + 4095 < 2 ^ 64"
  have "szsub (szadd val 4096) 1 = val + 4095"
  proof (cases "val + 4096 < 2 ^ 64")
    case True
    then have "szadd val 4096 = val + 4096" by (rule szadd_exact)
    then show ?thesis using szsub_exact [of 1 "val + 4096"] True by simp
  next
    case False
    then have "val + 4096 = 2 ^ 64" using v by simp
    then have "szadd val 4096 = 0" by (simp only: szadd_def) simp
    then show ?thesis using \<open>val + 4096 = 2 ^ 64\<close> by (simp add: szsub_def)
  qed
  then show ?thesis by (simp add: align_up_def PAGE_SIZE_def)
qed

lemma align_up_mod [simp]: "align_up val PAGE_SIZE mod PAGE_SIZE = 0"
  by (simp add: align_up_def PAGE_SIZE_def)

lemma reserved_end_mod [simp]: "reserved_end k b mod PAGE_SIZE = 0"
  by (simp add: reserved_end_def Let_def)

lemma pmm_pool_aligned:
  assumes "pmm_pool bs bl r = (c, l)" and "r mod PAGE_SIZE = 0"
  shows "c mod PAGE_SIZE = 0" "l mod PAGE_SIZE = 0" "c \<le> l"
  using assms by (auto simp: pmm_pool_def Let_def split: if_splits)

lemma pmm_init_pool:
  "\<exists>bs bl. pmm_pool bs bl (reserved_end k b) = (frame_cursor (pmm_init k b), frame_limit (pmm_init k b))"
  by (auto simp: pmm_init_def Let_def split: prod.splits option.splits)

lemma pmm_init_fields:
  "free_stack (pmm_init k b) = []" "allocated_frames (pmm_init k b) = 0"
  "free_frames_estimate (pmm_init k b) =
     (frame_limit (pmm_init k b) - frame_cursor (pmm_init k b)) div PAGE_SIZE"
  by (simp_all add: pmm_init_def Let_def split: prod.splits option.splits)

lemma pmm_init_aligned:
  "frame_cursor (pmm_init k b) mod PAGE_SIZE = 0" "frame_limit (pmm_init k b) mod PAGE_SIZE = 0"
  "frame_cursor (pmm_init k b) \<le> frame_limit (pmm_init k b)"
  using pmm_init_pool [of k b] pmm_pool_aligned [of _ _ "reserved_end k b"] by auto

subsection \<open>Frames that are handed out\<close>

text \<open>
  A run of the manager from its initial state, with the set of frames that callers hold.
  A frame freed while the free stack is full stays among them: the code drops it.
\<close>

inductive pmm_run :: "pmm_state \<Rightarrow> pmm_state \<Rightarrow> nat set \<Rightarrow> bool" for s0 where
  start: "pmm_run s0 s0 {}"
| alloc: "pmm_run s0 s A \<Longrightarrow> pmm_alloc_frame s = (f, s') \<Longrightarrow> f \<noteq> 0 \<Longrightarrow> pmm_run s0 s' (insert f A)"
| free: "pmm_run s0 s A \<Longrightarrow> f \<in> A \<Longrightarrow> length (free_stack s) < PMM_FREE_STACK_MAX \<Longrightarrow>
     pmm_run s0 (pmm_free_frame s f) (A - {f})"
| drop: "pmm_run s0 s A \<Longrightarrow> f \<in> A \<Longrightarrow> \<not> length (free_stack s) < PMM_FREE_STACK_MAX \<Longrightarrow>
     pmm_run s0 (pmm_free_frame s f) A"

text \<open>The frames of a pool between two addresses.\<close>

definition frames :: "nat \<Rightarrow> nat \<Rightarrow> nat set" where
  "frames lo hi = {f. lo \<le> f \<and> f < hi \<and> f mod PAGE_SIZE = 0}"

definition pmm_start :: "pmm_state \<Rightarrow> bool" where
  "pmm_start s \<longleftrightarrow> 0 < frame_cursor s \<and> frame_cursor s mod PAGE_SIZE = 0 \<and>
     frame_limit s mod PAGE_SIZE = 0 \<and> frame_cursor s \<le> frame_limit s \<and> frame_limit s < 2 ^ 63 \<and>
     free_stack s = [] \<and> allocated_frames s = 0 \<and>
     free_frames_estimate s = (frame_limit s - frame_cursor s) div PAGE_SIZE"

definition pmm_inv :: "pmm_state \<Rightarrow> pmm_state \<Rightarrow> nat set \<Rightarrow> bool" where
  "pmm_inv s0 s A \<longleftrightarrow>
     frame_limit s = frame_limit s0 \<and> frame_cursor s mod PAGE_SIZE = 0 \<and>
     frame_cursor s0 \<le> frame_cursor s \<and> frame_cursor s \<le> frame_limit s \<and>
     distinct (free_stack s) \<and> A \<inter> set (free_stack s) = {} \<and>
     A \<union> set (free_stack s) = frames (frame_cursor s0) (frame_cursor s) \<and>
     allocated_frames s = card A \<and>
     free_frames_estimate s = length (free_stack s) + (frame_limit s - frame_cursor s) div PAGE_SIZE"

lemma frames_finite [simp]: "finite (frames lo hi)"
  by (rule finite_subset [of _ "{..<hi}"]) (auto simp: frames_def)

lemma frames_card_le: "card (frames lo hi) \<le> hi"
proof -
  have "card (frames lo hi) \<le> card {..<hi}" by (rule card_mono) (auto simp: frames_def)
  then show ?thesis by simp
qed

lemma page_room:
  assumes "c mod PAGE_SIZE = 0" "l mod PAGE_SIZE = 0" "c < l"
  shows "c + PAGE_SIZE \<le> l"
proof -
  obtain i j where c: "c = PAGE_SIZE * i" and l: "l = PAGE_SIZE * j"
    using assms(1,2) by (metis dvd_def mod_eq_0_iff_dvd)
  then have "Suc i \<le> j" using assms(3) by simp
  then have "PAGE_SIZE * Suc i \<le> PAGE_SIZE * j" by (rule mult_le_mono2)
  then show ?thesis using c l by simp
qed

lemma frames_next:
  assumes "c mod PAGE_SIZE = 0" "lo \<le> c"
  shows "frames lo (c + PAGE_SIZE) = insert c (frames lo c)"
proof -
  have "f < c \<or> f = c" if "f < c + PAGE_SIZE" "PAGE_SIZE dvd f" for f
    using page_room [OF assms(1), of f] that by fastforce
  moreover have "0 < PAGE_SIZE" by (simp add: PAGE_SIZE_def)
  ultimately show ?thesis using assms unfolding frames_def by auto
qed

lemma pmm_inv_card:
  assumes "pmm_inv s0 s A"
  shows "finite A" and "card A + length (free_stack s) \<le> frame_cursor s"
proof -
  have U: "A \<union> set (free_stack s) = frames (frame_cursor s0) (frame_cursor s)"
    and D: "A \<inter> set (free_stack s) = {}" "distinct (free_stack s)"
    using assms by (auto simp: pmm_inv_def)
  show fin: "finite A" using U frames_finite by (metis finite_Un)
  have "card (A \<union> set (free_stack s)) = card A + card (set (free_stack s))"
    by (rule card_Un_disjoint [OF fin _ D(1)]) simp
  then show "card A + length (free_stack s) \<le> frame_cursor s"
    using frames_card_le [of "frame_cursor s0" "frame_cursor s"] U distinct_card [OF D(2)] by simp
qed

text \<open>What an allocation from a state with the invariant returns.\<close>

lemma pmm_alloc_cases:
  assumes st: "pmm_start s0" and inv: "pmm_inv s0 s A" and run: "pmm_alloc_frame s = (f, s')"
  shows "(f = 0 \<and> s' = s \<and> free_stack s = [] \<and> frame_cursor s = frame_limit s) \<or>
    (f \<noteq> 0 \<and> f \<notin> A \<and> f \<in> frames (frame_cursor s0) (frame_limit s0) \<and> pmm_inv s0 s' (insert f A))"
proof (cases "free_stack s = []")
  case False
  let ?st = "free_stack s"
  have sp: "?st = butlast ?st @ [last ?st]" using False by simp
  have f: "f = last ?st" and s': "s' = count_alloc (s\<lparr>free_stack := butlast ?st\<rparr>)"
    using run False by (auto simp: pmm_alloc_frame_def)
  have D: "distinct ?st" "A \<inter> set ?st = {}" and U: "A \<union> set ?st = frames (frame_cursor s0) (frame_cursor s)"
    and E: "free_frames_estimate s = length ?st + (frame_limit s - frame_cursor s) div PAGE_SIZE"
    using inv by (auto simp: pmm_inv_def)
  have fm: "f \<in> set ?st" "f \<notin> set (butlast ?st)"
    using False D f by (simp, metis distinct_butlast distinct_append not_distinct_conv_prefix sp disjoint_iff list.set_intros(1))
  have st_set: "set ?st = insert f (set (butlast ?st))" using sp f by (metis insert_is_Un list.simps(15) set_append set_empty sup_commute)
  have fnA: "f \<notin> A" using fm D by auto
  have "card A < 2 ^ 64 - 1"
    using pmm_inv_card [OF inv] inv st by (auto simp: pmm_inv_def pmm_start_def)
  then have cnt: "szadd (card A) 1 = card (insert f A)"
    using pmm_inv_card(1) [OF inv] fnA by (subst szadd_exact) auto
  have est: "length ?st + x - Suc 0 = length ?st - Suc 0 + x" for x
    using False by (cases ?st) auto
  have fr: "f \<in> frames (frame_cursor s0) (frame_cursor s)" using U fm by auto
  then have "f \<in> frames (frame_cursor s0) (frame_limit s0)" "f \<noteq> 0"
    using inv st by (auto simp: frames_def pmm_inv_def pmm_start_def)
  moreover have "pmm_inv s0 s' (insert f A)"
    using inv fm D st_set U E cnt False est
    by (auto simp: pmm_inv_def s' count_alloc_def distinct_butlast)
  ultimately show ?thesis using fm D by auto
next
  case True
  show ?thesis
  proof (cases "frame_cursor s = frame_limit s")
    case c: True
    have "szadd (frame_cursor s) PAGE_SIZE = frame_cursor s + PAGE_SIZE"
      using st inv by (intro szadd_exact) (auto simp: pmm_inv_def pmm_start_def PAGE_SIZE_def)
    then show ?thesis using run True c by (auto simp: pmm_alloc_frame_def PAGE_SIZE_def)
  next
    case c: False
    have al: "frame_cursor s mod PAGE_SIZE = 0" "frame_limit s mod PAGE_SIZE = 0" "frame_cursor s < frame_limit s"
      using inv st c by (auto simp: pmm_inv_def pmm_start_def)
    have room: "frame_cursor s + PAGE_SIZE \<le> frame_limit s" by (rule page_room [OF al])
    have ex: "szadd (frame_cursor s) PAGE_SIZE = frame_cursor s + PAGE_SIZE"
      using st inv by (intro szadd_exact) (auto simp: pmm_inv_def pmm_start_def PAGE_SIZE_def)
    have f: "f = frame_cursor s" and s': "s' = count_alloc (s\<lparr>frame_cursor := frame_cursor s + PAGE_SIZE\<rparr>)"
      using run True room ex by (auto simp: pmm_alloc_frame_def)
    have A: "A = frames (frame_cursor s0) (frame_cursor s)" using inv True by (auto simp: pmm_inv_def)
    then have nA: "f \<notin> A" using f by (auto simp: frames_def)
    have "card A < 2 ^ 64 - 1"
      using pmm_inv_card [OF inv] inv st by (auto simp: pmm_inv_def pmm_start_def)
    then have cnt: "szadd (card A) 1 = card (insert f A)"
      using pmm_inv_card(1) [OF inv] nA by (subst szadd_exact) auto
    have fn: "frames (frame_cursor s0) (frame_cursor s + PAGE_SIZE) = insert f A"
      using frames_next [OF al(1), of "frame_cursor s0"] inv f A by (simp add: pmm_inv_def)
    have est: "(frame_limit s - frame_cursor s) div PAGE_SIZE = Suc ((frame_limit s - (frame_cursor s + PAGE_SIZE)) div PAGE_SIZE)"
      using room by (subst le_div_geq) (auto simp: PAGE_SIZE_def)
    have "pmm_inv s0 s' (insert f A)"
      using inv True room al cnt fn est by (auto simp: pmm_inv_def s' count_alloc_def PAGE_SIZE_def)
    moreover have "f \<in> frames (frame_cursor s0) (frame_limit s0)" "f \<noteq> 0"
      using f al inv st by (auto simp: frames_def pmm_inv_def pmm_start_def)
    ultimately show ?thesis using nA by auto
  qed
qed

lemma pmm_free_inv:
  assumes st: "pmm_start s0" and inv: "pmm_inv s0 s A" and f: "f \<in> A"
    and room: "length (free_stack s) < PMM_FREE_STACK_MAX"
  shows "pmm_inv s0 (pmm_free_frame s f) (A - {f})"
proof -
  have fr: "f \<in> frames (frame_cursor s0) (frame_cursor s)" using inv f by (auto simp: pmm_inv_def)
  then have "f \<noteq> 0" "f mod PAGE_SIZE = 0" using st by (auto simp: frames_def pmm_start_def)
  then have eq: "pmm_free_frame s f = s\<lparr>free_stack := free_stack s @ [f],
       allocated_frames := (if allocated_frames s \<noteq> 0 then allocated_frames s - 1 else allocated_frames s),
       free_frames_estimate := szadd (free_frames_estimate s) 1\<rparr>"
    using room by (simp add: pmm_free_frame_def)
  have "free_frames_estimate s \<le> PMM_FREE_STACK_MAX + frame_limit s"
    using inv room div_le_dividend [of "frame_limit s - frame_cursor s" PAGE_SIZE]
    unfolding pmm_inv_def by linarith
  then have "szadd (free_frames_estimate s) 1 = Suc (free_frames_estimate s)"
    using inv st by (subst szadd_exact) (auto simp: pmm_inv_def pmm_start_def PMM_FREE_STACK_MAX_def)
  moreover have "card (A - {f}) = card A - 1" "card A \<noteq> 0"
    using pmm_inv_card(1) [OF inv] f by auto
  ultimately show ?thesis
    using inv f unfolding eq pmm_inv_def by auto
qed

lemma pmm_run_inv:
  assumes st: "pmm_start s0" and run: "pmm_run s0 s A"
  shows "pmm_inv s0 s A"
  using run
proof (induction rule: pmm_run.induct)
  case start
  have "frames c c = {}" for c by (auto simp: frames_def)
  then show ?case using st by (auto simp: pmm_inv_def pmm_start_def)
next
  case (alloc s A f s')
  then show ?case using pmm_alloc_cases [OF st] by blast
next
  case (free s A f)
  then show ?case using pmm_free_inv [OF st] by blast
next
  case (drop s A f)
  then show ?case by (simp add: pmm_free_frame_def)
qed

lemma pmm_start_init:
  assumes "0 < frame_cursor (pmm_init k b)" and "frame_limit (pmm_init k b) < 2 ^ 63"
  shows "pmm_start (pmm_init k b)"
  using assms pmm_init_aligned [of k b] pmm_init_fields [of k b] by (simp add: pmm_start_def)

subsection \<open>Properties\<close>

text \<open>
  C4: no frame is handed out twice.  After \<open>pmm_init\<close>, in any run of allocations and of frees
  of held frames, \<open>pmm_alloc_frame\<close> returns a page-aligned frame of the pool that nobody
  holds, and it returns 0 only when every frame of the pool is held (or was dropped on a full
  free stack).
\<close>

theorem pmm_no_double_alloc:
  assumes init: "s0 = pmm_init k b" and pool: "0 < frame_cursor s0" "frame_limit s0 < 2 ^ 63"
    and run: "pmm_run s0 s A" and al: "pmm_alloc_frame s = (f, s')"
  shows "if f = 0 then A = frames (frame_cursor s0) (frame_limit s0) \<and> s' = s
     else f \<notin> A \<and> f mod PAGE_SIZE = 0 \<and> frame_cursor s0 \<le> f \<and> f + PAGE_SIZE \<le> frame_limit s0"
proof -
  have st: "pmm_start s0" using pmm_start_init pool by (simp add: init)
  have inv: "pmm_inv s0 s A" by (rule pmm_run_inv [OF st run])
  from pmm_alloc_cases [OF st inv al] show ?thesis
  proof
    assume "f = 0 \<and> s' = s \<and> free_stack s = [] \<and> frame_cursor s = frame_limit s"
    then show ?thesis using inv by (auto simp: pmm_inv_def)
  next
    assume *: "f \<noteq> 0 \<and> f \<notin> A \<and> f \<in> frames (frame_cursor s0) (frame_limit s0) \<and> pmm_inv s0 s' (insert f A)"
    then have "f + PAGE_SIZE \<le> frame_limit s0"
      using st by (intro page_room) (auto simp: frames_def pmm_start_def)
    then show ?thesis using * by (auto simp: frames_def)
  qed
qed

definition boot_64M :: pmm_boot where
  "boot_64M = \<lparr>pb_mmap = Some [\<lparr>me_addr = 0, me_len = 0x9fc00, me_type = 1\<rparr>,
       \<lparr>me_addr = 0x100000, me_len = 0x3f00000, me_type = 1\<rparr>],
     pb_rootfs = \<lparr>bm_start = 0, bm_end = 0, bm_cmdline = 0\<rparr>, pb_install = \<lparr>bm_start = 0, bm_end = 0, bm_cmdline = 0\<rparr>,
     pb_mem_lower_kib = 0, pb_mem_upper_kib = 0\<rparr>"

lemma pmm_init_64M:
  "frame_cursor (pmm_init 0x234567 boot_64M) = 0x235000" "frame_limit (pmm_init 0x234567 boot_64M) = 0x4000000"
  "free_stack (pmm_init 0x234567 boot_64M) = []"
  by (simp_all add: pmm_init_def boot_64M_def mmap_scan_all_def scan_entry_def pmm_pool_def reserved_end_def
      align_up_def szadd_def szsub_def PAGE_SIZE_def)

lemma pmm_alloc_64M: "fst (pmm_alloc_frame (pmm_init 0x234567 boot_64M)) = 0x235000"
  by (simp add: pmm_alloc_frame_def pmm_init_64M szadd_def PAGE_SIZE_def)

theorem pmm_no_double_alloc_witness:
  "\<exists>s'. pmm_run (pmm_init 0x234567 boot_64M) (pmm_init 0x234567 boot_64M) {} \<and>
     pmm_alloc_frame (pmm_init 0x234567 boot_64M) = (0x235000, s') \<and>
     (0x235000 :: nat) + PAGE_SIZE \<le> frame_limit (pmm_init 0x234567 boot_64M)"
proof -
  let ?s = "pmm_init 0x234567 boot_64M"
  obtain s' where al: "pmm_alloc_frame ?s = (0x235000, s')"
    using pmm_alloc_64M by (metis prod.collapse)
  have run: "pmm_run ?s ?s {}" by (rule pmm_run.start)
  have "(0x235000 :: nat) + PAGE_SIZE \<le> frame_limit ?s"
    using pmm_no_double_alloc [OF refl _ _ run al] pmm_init_64M by simp
  then show ?thesis using al run by blast
qed

text \<open>
  The statistics are exact.  In every run, \<open>allocated_frames\<close> is the number of held frames
  and \<open>free_frames_estimate\<close> the number of frames on the free stack and left in the pool; a
  freed frame is the next one allocated.
\<close>

lemma pmm_accounting:
  assumes init: "s0 = pmm_init k b" and pool: "0 < frame_cursor s0" "frame_limit s0 < 2 ^ 63"
    and run: "pmm_run s0 s A"
  shows "allocated_frames s = card A \<and>
    free_frames_estimate s = length (free_stack s) + (frame_limit s0 - frame_cursor s) div PAGE_SIZE \<and>
    (\<forall>f \<in> A. length (free_stack s) < PMM_FREE_STACK_MAX \<longrightarrow>
       fst (pmm_alloc_frame (pmm_free_frame s f)) = f)"
proof -
  have st: "pmm_start s0" using pmm_start_init pool by (simp add: init)
  have inv: "pmm_inv s0 s A" by (rule pmm_run_inv [OF st run])
  have "fst (pmm_alloc_frame (pmm_free_frame s f)) = f"
    if "f \<in> A" and room: "length (free_stack s) < PMM_FREE_STACK_MAX" for f
  proof -
    have "f \<in> frames (frame_cursor s0) (frame_cursor s)" using inv that by (auto simp: pmm_inv_def)
    then have "f \<noteq> 0" "f mod PAGE_SIZE = 0" using st by (auto simp: frames_def pmm_start_def)
    then show ?thesis using room by (simp add: pmm_free_frame_def pmm_alloc_frame_def)
  qed
  then show ?thesis using inv by (auto simp: pmm_inv_def)
qed

lemma align_up_ge: "val + 4095 < 2 ^ 64 \<Longrightarrow> val \<le> align_up val PAGE_SIZE"
  unfolding align_up_exact by arith

lemma reserved_end_ge:
  assumes "k + 4095 < 2 ^ 64" "bm_end (pb_rootfs b) + 4095 < 2 ^ 64" "bm_end (pb_install b) + 4095 < 2 ^ 64"
  shows "k \<le> reserved_end k b" "bm_end (pb_rootfs b) \<le> reserved_end k b"
    "bm_end (pb_install b) \<le> reserved_end k b"
  using align_up_ge [OF assms(1)] align_up_ge [OF assms(2)] align_up_ge [OF assms(3)]
  by (auto simp: reserved_end_def Let_def)

text \<open>An entry of the memory map above 1 MiB, and how much of it can be used.\<close>

definition usable_entry :: "mmap_entry \<Rightarrow> bool" where
  "usable_entry e \<longleftrightarrow> me_type e = 1 \<and> 0x100000 < me_addr e + me_len e"

definition entry_start :: "mmap_entry \<Rightarrow> nat" where
  "entry_start e = max (me_addr e) 0x100000"

definition entry_len :: "mmap_entry \<Rightarrow> nat" where
  "entry_len e = me_addr e + me_len e - entry_start e"

text \<open>What the loop has found after some entries: the largest usable stretch among them.\<close>

definition scan_inv :: "mmap_entry set \<Rightarrow> mmap_scan \<Rightarrow> bool" where
  "scan_inv E a \<longleftrightarrow>
     (\<forall>e \<in> E. usable_entry e \<longrightarrow> entry_len e \<le> sc_best_len a) \<and>
     (sc_best_len a \<noteq> 0 \<longrightarrow>
        (\<exists>e \<in> E. usable_entry e \<and> sc_best_start a = entry_start e \<and> sc_best_len a = entry_len e)) \<and>
     sc_best_len a < 2 ^ 64"

lemma scan_entry_inv:
  assumes "scan_inv E a" and "me_addr e + me_len e < 2 ^ 64"
  shows "scan_inv (insert e E) (scan_entry e a)"
proof (cases "usable_entry e")
  case False
  then have "sc_best_len (scan_entry e a) = sc_best_len a" "sc_best_start (scan_entry e a) = sc_best_start a"
    using szadd_exact [OF assms(2)] by (auto simp: scan_entry_def Let_def usable_entry_def)
  then show ?thesis using assms(1) False by (auto simp: scan_inv_def)
next
  case True
  have ad: "szadd (me_addr e) (me_len e) = me_addr e + me_len e" by (rule szadd_exact [OF assms(2)])
  have sb: "szsub (me_addr e + me_len e) (entry_start e) = entry_len e" if "entry_start e \<le> me_addr e + me_len e"
    using szsub_exact [OF that assms(2)] by (simp add: entry_len_def)
  have le: "entry_start e \<le> me_addr e + me_len e" using True by (simp add: entry_start_def usable_entry_def)
  have st: "(if me_addr e < 0x100000 then 0x100000 else me_addr e) = entry_start e"
    by (simp add: entry_start_def)
  have "sc_best_len (scan_entry e a) = max (entry_len e) (sc_best_len a)"
    "entry_len e > sc_best_len a \<Longrightarrow> sc_best_start (scan_entry e a) = entry_start e"
    "\<not> entry_len e > sc_best_len a \<Longrightarrow> sc_best_start (scan_entry e a) = sc_best_start a"
    using True sb [OF le] by (auto simp: scan_entry_def Let_def ad st usable_entry_def max_def)
  moreover have "entry_len e < 2 ^ 64" using assms(2) by (simp add: entry_len_def)
  ultimately show ?thesis using assms(1) True by (fastforce simp: scan_inv_def max_def)
qed

lemma mmap_scan_inv:
  assumes "\<forall>e \<in> set es. me_addr e + me_len e < 2 ^ 64"
  shows "scan_inv (set es) (mmap_scan_all es)"
proof -
  have "scan_inv (set es \<union> E) (fold scan_entry es a)" if "scan_inv E a" for E a
    using assms that
  proof (induction es arbitrary: E a)
    case (Cons e es)
    then have "scan_inv (insert e E) (scan_entry e a)" by (intro scan_entry_inv) auto
    then show ?case using Cons by fastforce
  qed simp
  from this [of "{}"] show ?thesis by (simp add: mmap_scan_all_def scan_inv_def)
qed

text \<open>
  \<open>pmm_init\<close> takes the largest usable stretch of the memory map above 1 MiB, and the pool
  stays clear of the kernel image and of both boot modules whenever what is reserved ends
  inside that stretch.
\<close>

lemma pmm_init_pool_correct:
  assumes map: "pb_mmap b = Some es" and small: "\<forall>e \<in> set es. me_addr e + me_len e < 2 ^ 62"
    and some: "\<exists>e \<in> set es. usable_entry e \<and> 0 < entry_len e"
    and ends: "k < 2 ^ 62" "bm_end (pb_rootfs b) < 2 ^ 62" "bm_end (pb_install b) < 2 ^ 62"
  shows "\<exists>e \<in> set es. usable_entry e \<and> (\<forall>e' \<in> set es. usable_entry e' \<longrightarrow> entry_len e' \<le> entry_len e) \<and>
     entry_start e \<le> frame_cursor (pmm_init k b) \<and>
     (reserved_end k b < entry_start e + entry_len e \<longrightarrow>
        k \<le> frame_cursor (pmm_init k b) \<and> bm_end (pb_rootfs b) \<le> frame_cursor (pmm_init k b) \<and>
        bm_end (pb_install b) \<le> frame_cursor (pmm_init k b))"
proof -
  let ?a = "mmap_scan_all es"
  have inv: "scan_inv (set es) ?a" using small by (intro mmap_scan_inv) fastforce
  obtain e0 where e0: "e0 \<in> set es" "usable_entry e0" "entry_len e0 > 0" using some by blast
  then have "sc_best_len ?a \<noteq> 0" using inv e0 by (force simp: scan_inv_def)
  then obtain e where e: "e \<in> set es" "usable_entry e" "sc_best_start ?a = entry_start e" "sc_best_len ?a = entry_len e"
    using inv by (auto simp: scan_inv_def)
  have e62: "entry_start e + entry_len e < 2 ^ 62"
    using small e(1,2) by (auto simp: entry_len_def entry_start_def usable_entry_def)
  have cur: "frame_cursor (pmm_init k b) = fst (pmm_pool (entry_start e) (entry_len e) (reserved_end k b))"
    using map e(3,4) by (simp add: pmm_init_def Let_def split: prod.splits)
  have sum: "szadd (entry_start e) (entry_len e) = entry_start e + entry_len e"
    using e62 by (intro szadd_exact) simp
  have up: "entry_start e \<le> align_up (entry_start e) PAGE_SIZE"
    using e62 by (intro align_up_ge) simp
  have "k \<le> reserved_end k b" "bm_end (pb_rootfs b) \<le> reserved_end k b" "bm_end (pb_install b) \<le> reserved_end k b"
    using ends by (auto intro!: reserved_end_ge)
  then show ?thesis
    using e inv up sum by (intro bexI [of _ e]) (auto simp: cur pmm_pool_def Let_def scan_inv_def)
qed

text \<open>
  The upper end of the pool is rounded up, not down.  For a usable region that does not end
  on a page boundary the last frame of the pool reaches past the region.
\<close>

lemma pmm_pool_overruns_region:
  "\<exists>k b f s'. pb_mmap b = Some [\<lparr>me_addr = 0x100000, me_len = 0x100800, me_type = 1\<rparr>] \<and>
     pmm_alloc_frame (pmm_init k b) = (f, s') \<and> f \<noteq> 0 \<and> 0x100000 + 0x100800 < f + PAGE_SIZE"
proof -
  let ?b = "boot_64M\<lparr>pb_mmap := Some [\<lparr>me_addr = 0x100000, me_len = 0x100800, me_type = 1\<rparr>]\<rparr>"
  have "fst (pmm_alloc_frame (pmm_init 0x200000 ?b)) = 0x200000"
    by (simp add: pmm_alloc_frame_def pmm_init_def boot_64M_def mmap_scan_all_def scan_entry_def pmm_pool_def
        reserved_end_def align_up_def szadd_def szsub_def PAGE_SIZE_def)
  then obtain s' where "pmm_alloc_frame (pmm_init 0x200000 ?b) = (0x200000, s')"
    by (metis prod.collapse)
  then show ?thesis
    by (intro exI [of _ "0x200000"] exI [of _ ?b] exI [of _ s']) (simp add: PAGE_SIZE_def)
qed

end
