(* ===== verification/Bootinfo.thy ===== *)
theory Bootinfo
  imports Pmm
begin

text \<open>
  The Multiboot2 information block, \<^verbatim>\<open>src/kernel/core/bootinfo.c\<close>: the walk over the tags that
  the boot loader left in memory, and the walk over the memory-map tag at the head of
  \<open>pmm_init\<close> (\<^verbatim>\<open>src/kernel/mm/pmm.c\<close>).  Memory is a function from addresses to bytes, integers in
  it are little-endian, and each \<open>panic\<close> is a constructor of \<open>boot_error\<close>.
\<close>

subsection \<open>The C data\<close>

definition MULTIBOOT2_BOOTLOADER_MAGIC :: nat where
  "MULTIBOOT2_BOOTLOADER_MAGIC = 0x36d76289"

text \<open>\<open>struct boot_info\<close>; pointers are addresses and 0 is the null pointer.\<close>

record boot_info =
  bi_mbi :: nat
  bi_mmap :: nat
  bi_rootfs :: boot_module
  bi_install_image :: boot_module
  bi_mem_lower_kib :: nat
  bi_mem_upper_kib :: nat
  bi_framebuffer_addr :: nat
  bi_framebuffer_width :: nat
  bi_framebuffer_height :: nat
  bi_framebuffer_pitch :: nat
  bi_framebuffer_bpp :: nat

datatype boot_error = Bad_magic | Bad_info_size | Bad_tag_size | Bad_tag_walk

definition boot_zero :: boot_info where
  "boot_zero = \<lparr>bi_mbi = 0, bi_mmap = 0,
     bi_rootfs = \<lparr>bm_start = 0, bm_end = 0, bm_cmdline = 0\<rparr>,
     bi_install_image = \<lparr>bm_start = 0, bm_end = 0, bm_cmdline = 0\<rparr>,
     bi_mem_lower_kib = 0, bi_mem_upper_kib = 0, bi_framebuffer_addr = 0, bi_framebuffer_width = 0,
     bi_framebuffer_height = 0, bi_framebuffer_pitch = 0, bi_framebuffer_bpp = 0\<rparr>"

subsection \<open>The tag walk\<close>

definition align8 :: "nat \<Rightarrow> nat" where
  "align8 v = szadd v 7 div 8 * 8"

text \<open>The loop of \<open>bounded_contains\<close> from index \<open>i\<close>; a needle is its bytes before the NUL.\<close>

function contains_from :: "(nat \<Rightarrow> u8) \<Rightarrow> nat \<Rightarrow> nat \<Rightarrow> u8 list \<Rightarrow> nat \<Rightarrow> bool" where
  "contains_from m haystack haystack_len needle i =
     (if i + length needle \<le> haystack_len \<and> m (haystack + i) \<noteq> 0 then
        if map m [haystack + i..<haystack + i + length needle] = needle then True
        else contains_from m haystack haystack_len needle (Suc i)
      else False)"
  by auto
termination by (relation "measure (\<lambda>(m, h, l, n, i). Suc l - i)") auto

declare contains_from.simps [simp del]

definition bounded_contains :: "(nat \<Rightarrow> u8) \<Rightarrow> nat \<Rightarrow> nat \<Rightarrow> u8 list \<Rightarrow> bool" where
  "bounded_contains m haystack haystack_len needle =
     (if length needle = 0 \<or> haystack_len < length needle then False
      else contains_from m haystack haystack_len needle 0)"

text \<open>The \<open>switch\<close> on the type of the tag at address \<open>tag\<close>.\<close>

definition boot_module_tag :: "(nat \<Rightarrow> u8) \<Rightarrow> nat \<Rightarrow> boot_info \<Rightarrow> boot_info" where
  "boot_module_tag m tag b =
     (let size = rd m (tag + 4) 4;
          cmdline_len = (if size > 16 then size - 16 else 0);
          module = \<lparr>bm_start = rd m (tag + 8) 4, bm_end = rd m (tag + 12) 4, bm_cmdline = tag + 16\<rparr>
      in if bounded_contains m (tag + 16) cmdline_len (bytes_of ''install.img'') \<or>
            bounded_contains m (tag + 16) cmdline_len (bytes_of ''tnu-install-image'')
         then b\<lparr>bi_install_image := module\<rparr>
         else if bm_start (bi_rootfs b) = 0 \<or>
                 bounded_contains m (tag + 16) cmdline_len (bytes_of ''root.tfs'')
         then b\<lparr>bi_rootfs := module\<rparr>
         else b)"

definition boot_tag :: "(nat \<Rightarrow> u8) \<Rightarrow> nat \<Rightarrow> boot_info \<Rightarrow> boot_info" where
  "boot_tag m tag b =
     (let type = rd m tag 4 in
      if type = 3 then boot_module_tag m tag b
      else if type = 4 then b\<lparr>bi_mem_lower_kib := rd m (tag + 8) 4, bi_mem_upper_kib := rd m (tag + 12) 4\<rparr>
      else if type = 6 then b\<lparr>bi_mmap := tag\<rparr>
      else if type = 8 then
        b\<lparr>bi_framebuffer_addr := rd m (tag + 8) 8, bi_framebuffer_pitch := rd m (tag + 16) 4,
          bi_framebuffer_width := rd m (tag + 20) 4, bi_framebuffer_height := rd m (tag + 24) 4,
          bi_framebuffer_bpp := rd m (tag + 28) 1\<rparr>
      else b)"

function boot_walk :: "(nat \<Rightarrow> u8) \<Rightarrow> nat \<Rightarrow> nat \<Rightarrow> boot_info \<Rightarrow> boot_error + boot_info" where
  "boot_walk m end_addr tag_addr b =
     (if tag_addr < end_addr then
        if rd m (tag_addr + 4) 4 < 8 then Inl Bad_tag_size
        else if rd m tag_addr 4 = 0 then Inr b
        else
          let b' = boot_tag m tag_addr b;
              next_tag = align8 (szadd tag_addr (rd m (tag_addr + 4) 4))
          in if next_tag \<le> tag_addr \<or> next_tag > end_addr then Inl Bad_tag_walk
             else boot_walk m end_addr next_tag b'
      else Inr b)"
  by auto
termination by (relation "measure (\<lambda>(m, e, a, b). e - a)") auto

declare boot_walk.simps [simp del]

definition boot_info_parse :: "(nat \<Rightarrow> u8) \<Rightarrow> nat \<Rightarrow> nat \<Rightarrow> boot_error + boot_info" where
  "boot_info_parse m magic mbi_addr =
     (if magic \<noteq> MULTIBOOT2_BOOTLOADER_MAGIC then Inl Bad_magic
      else
        let total_size = rd m mbi_addr 4 in
        if total_size < 8 \<or> total_size > 16 * 1024 * 1024 then Inl Bad_info_size
        else boot_walk m (szadd mbi_addr total_size) (szadd mbi_addr 8) (boot_zero\<lparr>bi_mbi := mbi_addr\<rparr>))"

subsection \<open>The memory map of \<open>pmm_init\<close>\<close>

text \<open>
  The entries the loop visits, from \<open>entry\<close> up to the end of the tag.  The step is the tag's
  \<open>entry_size\<close>; \<open>None\<close> means that the loop does not return.
\<close>

definition mmap_entry_at :: "(nat \<Rightarrow> u8) \<Rightarrow> nat \<Rightarrow> mmap_entry" where
  "mmap_entry_at m a = \<lparr>me_addr = rd m a 8, me_len = rd m (a + 8) 8, me_type = rd m (a + 16) 4\<rparr>"

partial_function (option) mmap_walk :: "(nat \<Rightarrow> u8) \<Rightarrow> nat \<Rightarrow> nat \<Rightarrow> nat \<Rightarrow> mmap_entry list option" where
  [code]: "mmap_walk m end_addr entry_size entry =
     (if entry < end_addr then
        Option.bind (mmap_walk m end_addr entry_size (szadd entry entry_size))
          (\<lambda>es. Some (mmap_entry_at m entry # es))
      else Some [])"

definition boot_mmap_entries :: "(nat \<Rightarrow> u8) \<Rightarrow> nat \<Rightarrow> mmap_entry list option" where
  "boot_mmap_entries m mmap = mmap_walk m (szadd mmap (rd m (mmap + 4) 4)) (rd m (mmap + 8) 4) (szadd mmap 16)"

text \<open>\<open>pmm_init\<close> on the parsed block: \<open>None\<close> when the loop over the memory map does not return.\<close>

definition pmm_init_boot :: "(nat \<Rightarrow> u8) \<Rightarrow> nat \<Rightarrow> boot_info \<Rightarrow> pmm_state option" where
  "pmm_init_boot m kernel_end b =
     (let pb = \<lparr>pb_mmap = None, pb_rootfs = bi_rootfs b, pb_install = bi_install_image b,
                pb_mem_lower_kib = bi_mem_lower_kib b, pb_mem_upper_kib = bi_mem_upper_kib b\<rparr>
      in if bi_mmap b = 0 then Some (pmm_init kernel_end pb)
         else case boot_mmap_entries m (bi_mmap b) of
                None \<Rightarrow> None
              | Some es \<Rightarrow> Some (pmm_init kernel_end (pb\<lparr>pb_mmap := Some es\<rparr>)))"

subsection \<open>What the search finds\<close>

text \<open>What the search finds: an occurrence before the first NUL.\<close>

definition occurs :: "u8 list \<Rightarrow> u8 list \<Rightarrow> bool" where
  "occurs needle hs \<longleftrightarrow> needle \<noteq> [] \<and>
     (\<exists>i. i + length needle \<le> length hs \<and> take (length needle) (drop i hs) = needle \<and> 0 \<notin> set (take (Suc i) hs))"

lemma contains_from_iff:
  assumes "bytes_at m h hs" and "needle \<noteq> []"
  shows "contains_from m h (length hs) needle i \<longleftrightarrow>
     (\<exists>j \<ge> i. j + length needle \<le> length hs \<and> take (length needle) (drop j hs) = needle \<and>
        (\<forall>k. i \<le> k \<and> k \<le> j \<longrightarrow> hs ! k \<noteq> 0))"
proof (induction "Suc (length hs) - i" arbitrary: i)
  case 0
  then show ?case using assms(2) by (subst contains_from.simps) auto
next
  case (Suc d)
  show ?case
  proof (cases "i + length needle \<le> length hs \<and> m (h + i) \<noteq> 0")
    case True
    have i: "i < length hs" using True assms(2) by (cases needle) auto
    have mi: "hs ! i \<noteq> 0" using bytes_at_nth [OF assms(1) i] True by simp
    have sl: "map m [h + i..<h + i + length needle] = take (length needle) (drop i hs)"
      using bytes_at_slice [OF assms(1)] True by simp
    have IH: "contains_from m h (length hs) needle (Suc i) \<longleftrightarrow>
     (\<exists>j \<ge> Suc i. j + length needle \<le> length hs \<and> take (length needle) (drop j hs) = needle \<and>
        (\<forall>k. Suc i \<le> k \<and> k \<le> j \<longrightarrow> hs ! k \<noteq> 0))"
      using Suc(2) by (intro Suc(1)) simp
    show ?thesis
    proof (cases "take (length needle) (drop i hs) = needle")
      case here: True
      have "\<exists>j \<ge> i. j + length needle \<le> length hs \<and> take (length needle) (drop j hs) = needle \<and>
        (\<forall>k. i \<le> k \<and> k \<le> j \<longrightarrow> hs ! k \<noteq> 0)"
        using True here mi by (intro exI [of _ i]) auto
      then show ?thesis using True sl here by (subst contains_from.simps) auto
    next
      case no: False
      have "contains_from m h (length hs) needle i = contains_from m h (length hs) needle (Suc i)"
        using True sl no by (subst contains_from.simps) auto
      also have "\<dots> \<longleftrightarrow> (\<exists>j \<ge> i. j + length needle \<le> length hs \<and> take (length needle) (drop j hs) = needle \<and>
        (\<forall>k. i \<le> k \<and> k \<le> j \<longrightarrow> hs ! k \<noteq> 0))"
        unfolding IH using no mi by (metis Suc_leD le_antisym not_less_eq_eq)
      finally show ?thesis .
    qed
  next
    case False
    then have "\<not> contains_from m h (length hs) needle i" by (subst contains_from.simps) auto
    moreover have "hs ! i = 0" if "i + length needle \<le> length hs"
      using that False bytes_at_nth [OF assms(1), of i] assms(2) by (cases needle) auto
    ultimately show ?thesis using assms(2) by fastforce
  qed
qed

lemma set_take_Suc_nth: "i < length hs \<Longrightarrow> x \<notin> set (take (Suc i) hs) \<longleftrightarrow> (\<forall>k \<le> i. hs ! k \<noteq> x)"
  by (auto simp: in_set_conv_nth less_Suc_eq_le)

lemma bounded_contains_iff:
  assumes "bytes_at m h hs"
  shows "bounded_contains m h (length hs) needle \<longleftrightarrow> occurs needle hs"
proof (cases "needle = []")
  case False
  have "i < length hs" if "i + length needle \<le> length hs" for i using that False by (cases needle) auto
  then show ?thesis
    using False contains_from_iff [OF assms False, of 0] set_take_Suc_nth [of _ hs 0]
    by (auto simp: bounded_contains_def occurs_def)
qed (simp add: bounded_contains_def occurs_def)

subsection \<open>The walk over the memory map\<close>

lemma mmap_walk_zero_step:
  assumes "mmap_walk m e s a = Some es"
  shows "s = 0 \<longrightarrow> e \<le> 2 ^ 64 \<longrightarrow> e \<le> a"
proof (rule mmap_walk.raw_induct [where P = "\<lambda>m e s a es. s = 0 \<longrightarrow> e \<le> 2 ^ 64 \<longrightarrow> e \<le> a", OF _ assms])
  fix walk :: "(nat \<Rightarrow> u8) \<Rightarrow> nat \<Rightarrow> nat \<Rightarrow> nat \<Rightarrow> mmap_entry list option" and m e s a es
  assume IH: "\<And>m e s a es. walk m e s a = Some es \<Longrightarrow> s = 0 \<longrightarrow> e \<le> 2 ^ 64 \<longrightarrow> e \<le> a"
    and body: "(if a < e then Option.bind (walk m e s (szadd a s)) (\<lambda>es. Some (mmap_entry_at m a # es))
      else Some []) = Some es"
  show "s = 0 \<longrightarrow> e \<le> 2 ^ 64 \<longrightarrow> e \<le> a"
  proof (intro impI, rule ccontr)
    assume s: "s = 0" "e \<le> 2 ^ 64" "\<not> e \<le> a"
    then have "szadd a s = a" by (simp add: szadd_exact)
    then obtain y where "walk m e s a = Some y"
      using body s by (auto simp: bind_eq_Some_conv)
    from IH [OF this] show False using s by blast
  qed
qed

lemma mmap_walk_stuck: "a < e \<Longrightarrow> e \<le> 2 ^ 64 \<Longrightarrow> mmap_walk m e 0 a = None"
  using mmap_walk_zero_step [of m e 0 a] by (cases "mmap_walk m e 0 a") auto

lemma mmap_walk_returns:
  assumes "0 < s" "e + s \<le> 2 ^ 64"
  shows "\<exists>es. mmap_walk m e s a = Some es \<and> length es = (e - a + s - 1) div s \<and>
    (\<forall>i < length es. es ! i = mmap_entry_at m (a + i * s) \<and> a + i * s < e)"
proof (induction "e - a" arbitrary: a rule: less_induct)
  case less
  show ?case
  proof (cases "a < e")
    case True
    have nx: "szadd a s = a + s" using True assms by (intro szadd_exact) arith
    have "e - (a + s) < e - a" using True assms by arith
    from less [OF this] obtain es where es: "mmap_walk m e s (a + s) = Some es"
        "length es = (e - (a + s) + s - 1) div s"
        "\<forall>i < length es. es ! i = mmap_entry_at m (a + s + i * s) \<and> a + s + i * s < e"
      by blast
    have "(e - a + s - 1) div s = Suc ((e - (a + s) + s - 1) div s)"
    proof (cases "a + s \<le> e")
      case True
      then have "e - a + s - 1 = (e - (a + s) + s - 1) + s" using assms by arith
      then show ?thesis using assms(1) by (simp only: div_add_self2)
    next
      case False
      then have "(e - (a + s) + s - 1) div s = 0" using assms by (intro div_less) simp
      moreover have "(e - a + s - 1) div s = 1"
        using False True assms by (intro div_nat_eqI) auto
      ultimately show ?thesis by simp
    qed
    moreover have "(mmap_entry_at m a # es) ! i = mmap_entry_at m (a + i * s) \<and> a + i * s < e"
      if "i < Suc (length es)" for i
      using that es(3) True by (cases i) (auto simp: algebra_simps)
    ultimately show ?thesis
      using True nx es(1,2) by (subst mmap_walk.simps) auto
  next
    case False
    then show ?thesis using assms by (subst mmap_walk.simps) auto
  qed
qed

subsection \<open>Encoding a block\<close>

text \<open>The tags of the Multiboot2 format that the kernel reads, and their bytes.\<close>

datatype mb_tag =
    Mb_module nat nat "u8 list"
  | Mb_meminfo nat nat
  | Mb_mmap "mmap_entry list"
  | Mb_framebuffer nat nat nat nat nat
  | Mb_other nat "u8 list"

fun mb_type :: "mb_tag \<Rightarrow> nat" where
  "mb_type (Mb_module _ _ _) = 3"
| "mb_type (Mb_meminfo _ _) = 4"
| "mb_type (Mb_mmap _) = 6"
| "mb_type (Mb_framebuffer _ _ _ _ _) = 8"
| "mb_type (Mb_other t _) = t"

definition mmap_entry_bytes :: "mmap_entry \<Rightarrow> u8 list" where
  "mmap_entry_bytes e = to_le 8 (me_addr e) @ to_le 8 (me_len e) @ to_le 4 (me_type e) @ to_le 4 0"

fun mb_payload :: "mb_tag \<Rightarrow> u8 list" where
  "mb_payload (Mb_module s e cl) = to_le 4 s @ to_le 4 e @ cl"
| "mb_payload (Mb_meminfo l u) = to_le 4 l @ to_le 4 u"
| "mb_payload (Mb_mmap es) = to_le 4 24 @ to_le 4 0 @ concat (map mmap_entry_bytes es)"
| "mb_payload (Mb_framebuffer a p w h bpp) =
     to_le 8 a @ to_le 4 p @ to_le 4 w @ to_le 4 h @ to_le 1 bpp @ to_le 1 0 @ to_le 2 0"
| "mb_payload (Mb_other _ bs) = bs"

definition mb_size :: "mb_tag \<Rightarrow> nat" where
  "mb_size t = 8 + length (mb_payload t)"

definition mb_tag_bytes :: "mb_tag \<Rightarrow> u8 list" where
  "mb_tag_bytes t = to_le 4 (mb_type t) @ to_le 4 (mb_size t) @ mb_payload t @
     replicate ((8 - mb_size t mod 8) mod 8) 0"

fun mmap_entry_ok :: "mmap_entry \<Rightarrow> bool" where
  "mmap_entry_ok e \<longleftrightarrow> me_addr e < 256 ^ 8 \<and> me_len e < 256 ^ 8 \<and> me_type e < 256 ^ 4"

fun mb_tag_ok :: "mb_tag \<Rightarrow> bool" where
  "mb_tag_ok (Mb_module s e cl) \<longleftrightarrow> s < 256 ^ 4 \<and> e < 256 ^ 4"
| "mb_tag_ok (Mb_meminfo l u) \<longleftrightarrow> l < 256 ^ 4 \<and> u < 256 ^ 4"
| "mb_tag_ok (Mb_mmap es) \<longleftrightarrow> (\<forall>e \<in> set es. mmap_entry_ok e)"
| "mb_tag_ok (Mb_framebuffer a p w h bpp) \<longleftrightarrow>
     a < 256 ^ 8 \<and> p < 256 ^ 4 \<and> w < 256 ^ 4 \<and> h < 256 ^ 4 \<and> bpp < 256"
| "mb_tag_ok (Mb_other t bs) \<longleftrightarrow> t \<notin> {0, 3, 4, 6, 8} \<and> t < 256 ^ 4"

definition mb_info_bytes :: "mb_tag list \<Rightarrow> u8 list" where
  "mb_info_bytes ts =
     (let body = concat (map mb_tag_bytes ts) @ to_le 4 0 @ to_le 4 8
      in to_le 4 (8 + length body) @ to_le 4 0 @ body)"

text \<open>What a tag at address \<open>a\<close> says.\<close>

fun mb_apply :: "nat \<Rightarrow> mb_tag \<Rightarrow> boot_info \<Rightarrow> boot_info" where
  "mb_apply a (Mb_module s e cl) b =
     (let module = \<lparr>bm_start = s, bm_end = e, bm_cmdline = a + 16\<rparr> in
      if occurs (bytes_of ''install.img'') cl \<or> occurs (bytes_of ''tnu-install-image'') cl
      then b\<lparr>bi_install_image := module\<rparr>
      else if bm_start (bi_rootfs b) = 0 \<or> occurs (bytes_of ''root.tfs'') cl
      then b\<lparr>bi_rootfs := module\<rparr>
      else b)"
| "mb_apply a (Mb_meminfo l u) b = b\<lparr>bi_mem_lower_kib := l, bi_mem_upper_kib := u\<rparr>"
| "mb_apply a (Mb_mmap es) b = b\<lparr>bi_mmap := a\<rparr>"
| "mb_apply a (Mb_framebuffer fa p w h bpp) b =
     b\<lparr>bi_framebuffer_addr := fa, bi_framebuffer_pitch := p, bi_framebuffer_width := w,
       bi_framebuffer_height := h, bi_framebuffer_bpp := bpp\<rparr>"
| "mb_apply a (Mb_other _ _) b = b"

fun mb_applies :: "nat \<Rightarrow> mb_tag list \<Rightarrow> boot_info \<Rightarrow> boot_info" where
  "mb_applies a [] b = b"
| "mb_applies a (t # ts) b = mb_applies (a + length (mb_tag_bytes t)) ts (mb_apply a t b)"

subsection \<open>Reading an encoded block\<close>

lemma align8_exact: "v + 7 < 2 ^ 64 \<Longrightarrow> align8 v = (v + 7) div 8 * 8"
  by (simp add: align8_def szadd_exact)

lemma mb_pad: "n + (8 - n mod 8) mod 8 = (n + 7) div 8 * 8" for n :: nat
proof -
  have n: "n = n mod 8 + 8 * (n div 8)" by simp
  have up: "0 < r \<Longrightarrow> r < 8 \<Longrightarrow> (r + 8 * q + 7) div 8 = Suc q" for r q :: nat
    by (rule div_nat_eqI) auto
  have "r < 8 \<Longrightarrow> r + 8 * q + (8 - r) mod 8 = (r + 8 * q + 7) div 8 * 8" for r q :: nat
    using up [of r q] by (cases "r = 0") auto
  from this [of "n mod 8" "n div 8"] show ?thesis using n by simp
qed

lemma length_mb_tag_bytes: "length (mb_tag_bytes t) = (mb_size t + 7) div 8 * 8"
  using mb_pad [of "mb_size t"] by (simp add: mb_tag_bytes_def mb_size_def)

lemma mb_tag_header:
  assumes "bytes_at m a (mb_tag_bytes t)" and "mb_tag_ok t" and "mb_size t < 256 ^ 4"
  shows "rd m a 4 = mb_type t" "rd m (a + 4) 4 = mb_size t" "bytes_at m (a + 8) (mb_payload t)"
    "mb_type t \<noteq> 0"
proof -
  have "mb_type t < 256 ^ 4" using assms(2) by (cases t) auto
  moreover have b: "bytes_at m a (to_le 4 (mb_type t))" "bytes_at m (a + 4) (to_le 4 (mb_size t))"
      "bytes_at m (a + 8) (mb_payload t)"
    using assms(1) by (simp_all add: mb_tag_bytes_def add.assoc del: to_le.simps)
  ultimately show "rd m a 4 = mb_type t" "rd m (a + 4) 4 = mb_size t" "bytes_at m (a + 8) (mb_payload t)"
    using rd_bytes_at assms(3) by blast+
  show "mb_type t \<noteq> 0" using assms(2) by (cases t) auto
qed

lemma boot_tag_apply:
  assumes "bytes_at m a (mb_tag_bytes t)" and "mb_tag_ok t" and "mb_size t < 256 ^ 4"
  shows "boot_tag m a b = mb_apply a t b"
proof (cases t)
  case (Mb_module s e cl)
  have sz: "rd m (a + 4) 4 = 16 + length cl" using mb_tag_header(2) [OF assms] by (simp add: Mb_module mb_size_def)
  have pl: "bytes_at m (a + 8) (to_le 4 s)" "bytes_at m (a + 12) (to_le 4 e)" "bytes_at m (a + 16) cl"
    using mb_tag_header(3) [OF assms] by (auto simp: Mb_module add.assoc)
  have rds: "rd m (a + 8) 4 = s" "rd m (a + 12) 4 = e"
    using pl assms(2) by (auto simp: Mb_module intro!: rd_bytes_at)
  have len: "(if rd m (a + 4) 4 > 16 then rd m (a + 4) 4 - 16 else 0) = length cl" using sz by simp
  show ?thesis
    using mb_tag_header(1) [OF assms] rds len bounded_contains_iff [OF pl(3)]
    by (simp add: Mb_module boot_tag_def boot_module_tag_def Let_def)
next
  case (Mb_meminfo l u)
  have "bytes_at m (a + 8) (to_le 4 l)" "bytes_at m (a + 12) (to_le 4 u)"
    using mb_tag_header(3) [OF assms] by (auto simp: Mb_meminfo add.assoc)
  then have "rd m (a + 8) 4 = l" "rd m (a + 12) 4 = u"
    using assms(2) by (auto simp: Mb_meminfo intro!: rd_bytes_at)
  then show ?thesis using mb_tag_header(1) [OF assms] by (simp add: Mb_meminfo boot_tag_def)
next
  case (Mb_framebuffer fa p w h bpp)
  have "bytes_at m (a + 8) (to_le 8 fa)" "bytes_at m (a + 16) (to_le 4 p)" "bytes_at m (a + 20) (to_le 4 w)"
    "bytes_at m (a + 24) (to_le 4 h)" "bytes_at m (a + 28) (to_le 1 bpp)"
    using mb_tag_header(3) [OF assms] by (auto simp: Mb_framebuffer add.assoc simp del: to_le.simps One_nat_def)
  then have "rd m (a + 8) 8 = fa" "rd m (a + 16) 4 = p" "rd m (a + 20) 4 = w" "rd m (a + 24) 4 = h"
    "rd m (a + 28) 1 = bpp"
    using assms(2) by (auto simp: Mb_framebuffer intro!: rd_bytes_at simp del: One_nat_def)
  then show ?thesis using mb_tag_header(1) [OF assms] by (simp add: Mb_framebuffer boot_tag_def)
next
  case (Mb_mmap es)
  then show ?thesis using mb_tag_header(1) [OF assms] by (simp add: boot_tag_def)
next
  case (Mb_other ty bs)
  then show ?thesis using mb_tag_header(1) [OF assms] assms(2) by (simp add: boot_tag_def)
qed

lemma boot_walk_tags:
  assumes "bytes_at m a (concat (map mb_tag_bytes ts) @ to_le 4 0 @ to_le 4 8)"
    and "\<forall>t \<in> set ts. mb_tag_ok t \<and> mb_size t < 256 ^ 4" and "a mod 8 = 0"
    and "e = a + length (concat (map mb_tag_bytes ts)) + 8" and "e + 8 < 2 ^ 64"
  shows "boot_walk m e a b = Inr (mb_applies a ts b)"
  using assms
proof (induction ts arbitrary: a b)
  case Nil
  then have "rd m a 4 = 0" "rd m (a + 4) 4 = 8"
    by (auto intro!: rd_bytes_at simp del: to_le.simps)
  then show ?case using Nil by (subst boot_walk.simps) simp
next
  case (Cons t ts)
  have t: "bytes_at m a (mb_tag_bytes t)" "mb_tag_ok t" "mb_size t < 256 ^ 4" using Cons.prems by auto
  let ?n = "a + length (mb_tag_bytes t)"
  obtain k where k: "a = 8 * k" using Cons.prems(3) by (metis mod_0_imp_dvd dvdE)
  have n: "?n = (a + mb_size t + 7) div 8 * 8"
    by (simp add: length_mb_tag_bytes k add.assoc)
  have le: "?n + 16 < 2 ^ 64" "?n + 8 \<le> e" using Cons.prems(4,5) by auto
  have "a + mb_size t \<le> ?n" using n by (simp add: length_mb_tag_bytes)
  then have al: "align8 (szadd a (mb_size t)) = ?n"
    using le n by (subst szadd_exact, simp, subst align8_exact) auto
  have pos: "8 \<le> mb_size t" "a < ?n" by (auto simp: mb_size_def length_mb_tag_bytes)
  have IH: "boot_walk m e ?n (mb_apply a t b) = Inr (mb_applies ?n ts (mb_apply a t b))"
    using Cons.prems by (intro Cons.IH) (auto simp: k length_mb_tag_bytes add.assoc)
  show ?case
    using mb_tag_header [OF t] boot_tag_apply [OF t] al pos le IH
    by (subst boot_walk.simps) (simp add: Let_def)
qed

lemma boot_info_parse_tags:
  assumes "bytes_at m mbi (mb_info_bytes ts)" and "\<forall>t \<in> set ts. mb_tag_ok t"
    and "length (mb_info_bytes ts) \<le> 16 * 1024 * 1024" and "mbi mod 8 = 0" and "mbi + 2 ^ 25 < 2 ^ 64"
  shows "boot_info_parse m MULTIBOOT2_BOOTLOADER_MAGIC mbi =
     Inr (mb_applies (mbi + 8) ts (boot_zero\<lparr>bi_mbi := mbi\<rparr>))"
proof -
  let ?body = "concat (map mb_tag_bytes ts) @ to_le 4 0 @ to_le 4 8"
  define n where "n = length (concat (map mb_tag_bytes ts))"
  have bytes: "bytes_at m mbi (to_le 4 (16 + n))" "bytes_at m (mbi + 8) ?body" and n: "16 + n \<le> 16 * 1024 * 1024"
    using assms(1,3) by (auto simp: mb_info_bytes_def Let_def n_def add.assoc simp del: to_le.simps)
  have tot: "rd m mbi 4 = 16 + n" using bytes(1) n by (intro rd_bytes_at) auto
  have sz: "mb_size t < 256 ^ 4" if "t \<in> set ts" for t
  proof -
    have "length (mb_tag_bytes t) \<le> n"
      unfolding n_def length_concat map_map using that by (intro member_le_sum_list) auto
    then show ?thesis using n by (simp add: length_mb_tag_bytes)
  qed
  have e: "szadd mbi (16 + n) = mbi + 8 + n + 8" "szadd mbi 8 = mbi + 8"
    using n assms(5) by (auto simp: szadd_exact)
  have "boot_walk m (mbi + 8 + n + 8) (mbi + 8) b = Inr (mb_applies (mbi + 8) ts b)" for b
    using bytes(2) assms n sz by (intro boot_walk_tags) (auto simp: n_def mod_simps simp del: to_le.simps)
  then show ?thesis using tot n e by (simp add: boot_info_parse_def Let_def)
qed

text \<open>
  C5: the Multiboot2 walk reads what the boot loader wrote.  For every list of tags laid out in
  memory as the format says (8-byte aligned, padded tags, an end tag, at most 16 MiB),
  \<open>boot_info_parse\<close> succeeds and returns the fields of those tags: the boot module named
  \<open>install.img\<close> or \<open>tnu-install-image\<close>, the root module, the memory sizes, the address of the
  last memory map and the framebuffer.
\<close>

theorem boot_info_roundtrip:
  assumes "bytes_at m mbi (mb_info_bytes ts)" and "\<forall>t \<in> set ts. mb_tag_ok t"
    and "length (mb_info_bytes ts) \<le> 16 * 1024 * 1024" and "mbi mod 8 = 0" and "mbi + 2 ^ 25 < 2 ^ 64"
  shows "boot_info_parse m MULTIBOOT2_BOOTLOADER_MAGIC mbi =
     Inr (mb_applies (mbi + 8) ts (boot_zero\<lparr>bi_mbi := mbi\<rparr>))"
  using assms by (rule boot_info_parse_tags)

definition mb_example :: "mb_tag list" where
  "mb_example = [Mb_meminfo 640 64512, Mb_module 0x300000 0x380000 (bytes_of ''root.tfs'')]"

definition mb_example_memory :: "nat \<Rightarrow> u8" where
  "mb_example_memory = (\<lambda>a. mb_info_bytes mb_example ! (a - 0x10000))"

lemma mb_example_ok:
  "\<forall>t \<in> set mb_example. mb_tag_ok t" "length (mb_info_bytes mb_example) \<le> 16 * 1024 * 1024"
  "bytes_at mb_example_memory 0x10000 (mb_info_bytes mb_example)"
  by (auto simp: mb_example_def mb_info_bytes_def Let_def length_mb_tag_bytes mb_size_def bytes_of_def
      mb_example_memory_def bytes_at_image simp del: to_le.simps)

lemma mb_example_applies:
  "mb_applies a mb_example b =
     b\<lparr>bi_mem_lower_kib := 640, bi_mem_upper_kib := 64512,
       bi_rootfs := (if bm_start (bi_rootfs b) = 0 \<or> occurs (bytes_of ''root.tfs'') (bytes_of ''root.tfs'')
         then \<lparr>bm_start = 0x300000, bm_end = 0x380000, bm_cmdline = a + 32\<rparr> else bi_rootfs b)\<rparr>"
  by (simp add: mb_example_def length_mb_tag_bytes mb_size_def Let_def occurs_def bytes_of_def)

theorem boot_info_roundtrip_witness:
  "\<exists>b. boot_info_parse mb_example_memory MULTIBOOT2_BOOTLOADER_MAGIC 0x10000 = Inr b \<and>
     bi_mem_upper_kib b = 64512 \<and> bm_start (bi_rootfs b) = 0x300000"
  using boot_info_roundtrip [OF mb_example_ok(3,1,2)] by (simp add: mb_example_applies boot_zero_def)

subsection \<open>Safety on any memory\<close>

definition boot_mmap_inside :: "(nat \<Rightarrow> u8) \<Rightarrow> nat \<Rightarrow> nat \<Rightarrow> boot_info \<Rightarrow> bool" where
  "boot_mmap_inside m lo hi b \<longleftrightarrow>
     bi_mmap b = 0 \<or> (lo \<le> bi_mmap b \<and> bi_mmap b + rd m (bi_mmap b + 4) 4 \<le> hi)"

lemma bi_mmap_boot_tag: "bi_mmap (boot_tag m a b) = (if rd m a 4 = 6 then a else bi_mmap b)"
  by (simp add: boot_tag_def boot_module_tag_def Let_def)

lemma boot_walk_inside:
  assumes "boot_walk m e a b = Inr b'" and "boot_mmap_inside m lo e b" and "lo \<le> a" and "e + 2 ^ 33 \<le> 2 ^ 64"
  shows "boot_mmap_inside m lo e b'"
  using assms
proof (induction m e a b rule: boot_walk.induct)
  case (1 m e a b)
  let ?sz = "rd m (a + 4) 4"
  show ?case
  proof (cases "a < e \<and> 8 \<le> ?sz \<and> rd m a 4 \<noteq> 0")
    case True
    let ?n = "align8 (szadd a ?sz)"
    have n: "\<not> (?n \<le> a \<or> ?n > e)" and w: "boot_walk m e ?n (boot_tag m a b) = Inr b'"
      using 1(2) True by (auto simp: boot_walk.simps [of m e a] Let_def split: if_splits)
    have "?sz < 2 ^ 32" using rd_bound [of m "a + 4" 4] by simp
    then have sz: "szadd a ?sz = a + ?sz" "a + ?sz + 7 < 2 ^ 64" using True 1(5) by (auto simp: szadd_exact)
    then have "a + ?sz \<le> ?n" by (simp add: align8_exact)
    then have "boot_mmap_inside m lo e (boot_tag m a b)"
      using 1(3,4) n by (auto simp: boot_mmap_inside_def bi_mmap_boot_tag)
    then show ?thesis using 1(1) [OF _ _ _ refl refl n w] True n 1(4,5) by auto
  next
    case False
    then show ?thesis using 1(2,3) by (auto simp: boot_walk.simps [of m e a] split: if_splits)
  qed
qed

text \<open>
  Whatever the memory holds, a successful parse leaves the memory-map tag inside the
  information block, and \<open>pmm_init\<close> on the parsed block returns unless that tag has entries
  and an \<open>entry_size\<close> of 0; in that case its loop never advances.
\<close>

lemma boot_mmap_safe:
  assumes "boot_info_parse m magic mbi = Inr b" and "mbi + 2 ^ 34 \<le> 2 ^ 64"
  shows "boot_mmap_inside m (mbi + 8) (mbi + rd m mbi 4) b \<and>
    ((\<exists>s. pmm_init_boot m kernel_end b = Some s) \<longleftrightarrow>
       bi_mmap b = 0 \<or> rd m (bi_mmap b + 4) 4 \<le> 16 \<or> rd m (bi_mmap b + 8) 4 \<noteq> 0)"
proof -
  have tot: "8 \<le> rd m mbi 4" "rd m mbi 4 \<le> 2 ^ 24"
    and w: "boot_walk m (szadd mbi (rd m mbi 4)) (szadd mbi 8) (boot_zero\<lparr>bi_mbi := mbi\<rparr>) = Inr b"
    using assms(1) by (auto simp: boot_info_parse_def Let_def split: if_splits)
  have e: "szadd mbi (rd m mbi 4) = mbi + rd m mbi 4" "szadd mbi 8 = mbi + 8"
    using tot assms(2) by (auto simp: szadd_exact)
  have ins: "boot_mmap_inside m (mbi + 8) (mbi + rd m mbi 4) b"
    using tot assms(2) by (intro boot_walk_inside [OF w [unfolded e]]) (auto simp: boot_mmap_inside_def boot_zero_def)
  let ?p = "bi_mmap b" let ?sz = "rd m (?p + 4) 4" let ?es = "rd m (?p + 8) 4"
  have "(\<exists>es. boot_mmap_entries m ?p = Some es) \<longleftrightarrow> ?sz \<le> 16 \<or> ?es \<noteq> 0" if p: "?p \<noteq> 0"
  proof -
    have le: "?p + ?sz \<le> mbi + 2 ^ 24" "?p \<le> mbi + 2 ^ 24" using ins p tot by (auto simp: boot_mmap_inside_def)
    have eq: "boot_mmap_entries m ?p = mmap_walk m (?p + ?sz) ?es (?p + 16)"
      using le assms(2) by (simp add: boot_mmap_entries_def szadd_exact)
    have "?es < 2 ^ 32" using rd_bound [of m "?p + 8" 4] by simp
    then have "\<exists>es. mmap_walk m (?p + ?sz) ?es (?p + 16) = Some es" if "?es \<noteq> 0"
      using mmap_walk_returns [of ?es "?p + ?sz" m "?p + 16"] that le assms(2) by auto
    moreover have "mmap_walk m (?p + ?sz) ?es (?p + 16) = Some []" if "?sz \<le> 16"
      using that by (subst mmap_walk.simps) simp
    moreover have "mmap_walk m (?p + ?sz) 0 (?p + 16) = None" if "\<not> ?sz \<le> 16"
      using that le assms(2) by (intro mmap_walk_stuck) auto
    ultimately show ?thesis unfolding eq by (cases "?es = 0"; cases "?sz \<le> 16") simp_all
  qed
  then show ?thesis using ins by (auto simp: pmm_init_boot_def Let_def split: option.splits)
qed

end
