(* ===== verification/Vmm.thy ===== *)
theory Vmm
  imports Prelude
begin

text \<open>
  The kernel's page tables, \<^verbatim>\<open>src/kernel/mm/vmm.c\<close>.  The physical memory that holds page tables
  is a store from table addresses to entries; the addresses of the static tables are fixed by
  the linker and are a parameter.  The hardware page walk for 2 MiB pages is the
  specification the code is proved against.
\<close>

subsection \<open>The C data\<close>

definition PTE_PRESENT :: u64 where "PTE_PRESENT = 0x001"
definition PTE_WRITABLE :: u64 where "PTE_WRITABLE = 0x002"
definition PTE_USER :: u64 where "PTE_USER = 0x004"
definition PTE_PWT :: u64 where "PTE_PWT = 0x008"
definition PTE_HUGE :: u64 where "PTE_HUGE = 0x080"
definition VMM_WC_FLAG :: u64 where "VMM_WC_FLAG = 0x008"
definition HUGE_PAGE_SIZE :: u64 where "HUGE_PAGE_SIZE = 2 * 1024 * 1024"
definition HUGE_PAGE_MASK :: u64 where "HUGE_PAGE_MASK = NOT (HUGE_PAGE_SIZE - 1)"
definition TABLE_ADDR_MASK :: u64 where "TABLE_ADDR_MASK = 0x000ffffffffff000"
definition LOWER_HALF_LIMIT :: u64 where "LOWER_HALF_LIMIT = 0x0000800000000000"

text \<open>Where the linker put the tables of \<open>start.S\<close> and the two arrays of spare tables.\<close>

record vmm_layout =
  pml4_table :: u64
  boot_pdpt_table :: u64
  boot_pd_table :: u64
  extra_pdpt_tables :: u64
  extra_pd_tables :: u64

definition pdpt_addr :: "vmm_layout \<Rightarrow> nat \<Rightarrow> u64" where
  "pdpt_addr L n = extra_pdpt_tables L + of_nat n * 4096"

definition pd_addr :: "vmm_layout \<Rightarrow> nat \<Rightarrow> u64" where
  "pd_addr L n = extra_pd_tables L + of_nat n * 4096"

record vmm_state =
  tables :: "u64 \<Rightarrow> u64 \<Rightarrow> u64"
  next_pdpt_table :: nat
  next_pd_table :: nat

definition set_entry :: "u64 \<Rightarrow> u64 \<Rightarrow> u64 \<Rightarrow> vmm_state \<Rightarrow> vmm_state" where
  "set_entry t i e s = s\<lparr>tables := (tables s)(t := (tables s t)(i := e))\<rparr>"

subsection \<open>Operations\<close>

definition alloc_pdpt_table :: "vmm_layout \<Rightarrow> vmm_state \<Rightarrow> (u64 \<times> vmm_state) option" where
  "alloc_pdpt_table L s =
     (if next_pdpt_table s \<ge> 8 then None
      else let table = pdpt_addr L (next_pdpt_table s)
           in Some (table, s\<lparr>next_pdpt_table := next_pdpt_table s + 1, tables := (tables s)(table := \<lambda>_. 0)\<rparr>))"

definition alloc_pd_table :: "vmm_layout \<Rightarrow> vmm_state \<Rightarrow> (u64 \<times> vmm_state) option" where
  "alloc_pd_table L s =
     (if next_pd_table s \<ge> 64 then None
      else let table = pd_addr L (next_pd_table s)
           in Some (table, s\<lparr>next_pd_table := next_pd_table s + 1, tables := (tables s)(table := \<lambda>_. 0)\<rparr>))"

definition table_from_entry :: "u64 \<Rightarrow> u64" where
  "table_from_entry entry = entry AND TABLE_ADDR_MASK"

definition present :: "u64 \<Rightarrow> bool" where
  "present e \<longleftrightarrow> e AND PTE_PRESENT \<noteq> 0"

definition idx4 :: "u64 \<Rightarrow> u64" where "idx4 a = drop_bit 39 a AND 0x1ff"
definition idx3 :: "u64 \<Rightarrow> u64" where "idx3 a = drop_bit 30 a AND 0x1ff"
definition idx2 :: "u64 \<Rightarrow> u64" where "idx2 a = drop_bit 21 a AND 0x1ff"

text \<open>
  The three parts of \<open>map_huge_identity\<close>: the PML4 entry, the PDPT entry (each creates the next
  table when it is missing, and the second component is \<open>False\<close> when no table is left) and the
  PDE.
\<close>

definition link_pdpt :: "vmm_layout \<Rightarrow> u64 \<Rightarrow> u64 \<Rightarrow> vmm_state \<Rightarrow> vmm_state option" where
  "link_pdpt L i flags s =
     (let e = tables s (pml4_table L) i in
      if \<not> present e then
        case alloc_pdpt_table L s of
          None \<Rightarrow> None
        | Some (new_pdpt, s1) \<Rightarrow>
            Some (set_entry (pml4_table L) i (new_pdpt OR PTE_PRESENT OR PTE_WRITABLE OR (flags AND PTE_USER)) s1)
      else Some (set_entry (pml4_table L) i (e OR (flags AND PTE_USER)) s))"

definition link_pd :: "vmm_layout \<Rightarrow> u64 \<Rightarrow> u64 \<Rightarrow> u64 \<Rightarrow> vmm_state \<Rightarrow> vmm_state option" where
  "link_pd L pdpt i flags s =
     (let e = tables s pdpt i in
      if \<not> present e then
        case alloc_pd_table L s of
          None \<Rightarrow> None
        | Some (new_pd, s1) \<Rightarrow>
            Some (set_entry pdpt i (new_pd OR PTE_PRESENT OR PTE_WRITABLE OR (flags AND PTE_USER)) s1)
      else Some (set_entry pdpt i (e OR (flags AND PTE_USER)) s))"

definition set_pde :: "u64 \<Rightarrow> u64 \<Rightarrow> u64 \<Rightarrow> u64 \<Rightarrow> vmm_state \<Rightarrow> vmm_state" where
  "set_pde pd i aligned flags s =
     (let e = tables s pd i in
      if \<not> present e then
        let pte_flags0 = flags AND NOT VMM_WC_FLAG;
            pte_flags = (if flags AND VMM_WC_FLAG \<noteq> 0 then pte_flags0 OR PTE_PWT else pte_flags0)
        in set_entry pd i (aligned OR PTE_PRESENT OR PTE_WRITABLE OR PTE_HUGE OR pte_flags) s
      else set_entry pd i (e OR flags) s)"

definition map_huge_identity :: "vmm_layout \<Rightarrow> u64 \<Rightarrow> u64 \<Rightarrow> vmm_state \<Rightarrow> int \<times> vmm_state" where
  "map_huge_identity L addr flags s =
     (let aligned = addr AND HUGE_PAGE_MASK in
      if aligned \<ge> LOWER_HALF_LIMIT then (-1, s)
      else case link_pdpt L (idx4 aligned) flags s of
        None \<Rightarrow> (-1, s)
      | Some s1 \<Rightarrow>
          let pdpt = table_from_entry (tables s1 (pml4_table L) (idx4 aligned)) in
          case link_pd L pdpt (idx3 aligned) flags s1 of
            None \<Rightarrow> (-1, s1)
          | Some s2 \<Rightarrow>
              let pd = table_from_entry (tables s2 pdpt (idx3 aligned))
              in (0, set_pde pd (idx2 aligned) aligned flags s2))"

definition vmm_map_page :: "vmm_layout \<Rightarrow> u64 \<Rightarrow> u64 \<Rightarrow> u64 \<Rightarrow> vmm_state \<Rightarrow> int \<times> vmm_state" where
  "vmm_map_page L virt phys flags s =
     (if virt \<noteq> phys then (-1, s) else map_huge_identity L phys flags s)"

text \<open>The loop of \<open>vmm_map_range_identity\<close>; \<open>None\<close> would be a loop that does not return.\<close>

partial_function (option) map_range_loop ::
  "vmm_layout \<Rightarrow> u64 \<Rightarrow> u64 \<Rightarrow> u64 \<Rightarrow> vmm_state \<Rightarrow> (int \<times> vmm_state) option" where
  [code]: "map_range_loop L addr end_addr flags s =
     (if addr < end_addr then
        let (r, s1) = map_huge_identity L addr flags s
        in if r < 0 then Some (-1, s1) else map_range_loop L (addr + HUGE_PAGE_SIZE) end_addr flags s1
      else Some (0, s))"

definition vmm_map_range_identity ::
  "vmm_layout \<Rightarrow> u64 \<Rightarrow> u64 \<Rightarrow> u64 \<Rightarrow> vmm_state \<Rightarrow> (int \<times> vmm_state) option" where
  "vmm_map_range_identity L phys len flags s =
     (if len = 0 then Some (0, s)
      else
        let start = phys AND HUGE_PAGE_MASK;
            end_addr = (phys + len + HUGE_PAGE_SIZE - 1) AND HUGE_PAGE_MASK
        in if end_addr < start \<or> end_addr > LOWER_HALF_LIMIT then Some (-1, s)
           else map_range_loop L start end_addr flags s)"

text \<open>The tables \<open>setup_page_tables\<close> of \<open>start.S\<close> leaves: the first GiB in 2 MiB pages.\<close>

definition vmm_boot :: "vmm_layout \<Rightarrow> vmm_state" where
  "vmm_boot L = \<lparr>tables = (\<lambda>t i.
       if t = pml4_table L then (if i = 0 then boot_pdpt_table L OR 3 else 0)
       else if t = boot_pdpt_table L then (if i = 0 then boot_pd_table L OR 3 else 0)
       else if t = boot_pd_table L then (if i < 512 then push_bit 21 i OR 0x83 else 0)
       else 0),
     next_pdpt_table = 0, next_pd_table = 0\<rparr>"

subsection \<open>The page walk of the processor\<close>

text \<open>
  The translation of a virtual address through 4-level tables with 2 MiB pages, and whether
  user mode may use the page (the user bit is needed at every level).
\<close>

definition pml4e :: "vmm_layout \<Rightarrow> vmm_state \<Rightarrow> u64 \<Rightarrow> u64" where
  "pml4e L s va = tables s (pml4_table L) (idx4 va)"

definition pdpte :: "vmm_layout \<Rightarrow> vmm_state \<Rightarrow> u64 \<Rightarrow> u64" where
  "pdpte L s va = tables s (table_from_entry (pml4e L s va)) (idx3 va)"

definition pde :: "vmm_layout \<Rightarrow> vmm_state \<Rightarrow> u64 \<Rightarrow> u64" where
  "pde L s va = tables s (table_from_entry (pdpte L s va)) (idx2 va)"

definition translate :: "vmm_layout \<Rightarrow> vmm_state \<Rightarrow> u64 \<Rightarrow> u64 option" where
  "translate L s va =
     (if present (pml4e L s va) \<and> present (pdpte L s va) \<and> pdpte L s va AND PTE_HUGE = 0 \<and>
         present (pde L s va) \<and> pde L s va AND PTE_HUGE \<noteq> 0
      then Some ((pde L s va AND 0x000fffffffe00000) OR (va AND 0x1fffff))
      else None)"

definition user_ok :: "vmm_layout \<Rightarrow> vmm_state \<Rightarrow> u64 \<Rightarrow> bool" where
  "user_ok L s va \<longleftrightarrow> pml4e L s va AND PTE_USER \<noteq> 0 \<and> pdpte L s va AND PTE_USER \<noteq> 0 \<and> pde L s va AND PTE_USER \<noteq> 0"

subsection \<open>Bit lemmas\<close>

lemmas vmm_consts = PTE_PRESENT_def PTE_WRITABLE_def PTE_USER_def PTE_PWT_def PTE_HUGE_def VMM_WC_FLAG_def

lemma mask_consts:
  "HUGE_PAGE_MASK = NOT (mask 21)" "TABLE_ADDR_MASK = push_bit 12 (mask 40)"
  "(0x000fffffffe00000 :: u64) = push_bit 21 (mask 31)" "(0x1fffff :: u64) = mask 21" "(0x1ff :: u64) = mask 9"
  by (simp_all add: HUGE_PAGE_MASK_def HUGE_PAGE_SIZE_def TABLE_ADDR_MASK_def mask_eq_exp_minus_1 push_bit_eq_mult)

lemma pow_consts:
  "PTE_PRESENT = 2 ^ 0" "PTE_WRITABLE = 2 ^ 1" "PTE_USER = 2 ^ 2" "PTE_PWT = 2 ^ 3"
  "PTE_HUGE = 2 ^ 7" "VMM_WC_FLAG = 2 ^ 3"
  by (simp_all add: vmm_consts)

lemma bit_single: "bit (2 ^ k :: u64) n \<longleftrightarrow> n = k \<and> k < 64"
  by (auto simp: bit_exp_iff)

lemma and_single: "e AND 2 ^ k \<noteq> 0 \<longleftrightarrow> bit e k" if "k < 64" for e :: u64
proof
  assume "bit e k"
  then have "bit (e AND 2 ^ k) k" using that by (simp add: bit_and_iff bit_single)
  then show "e AND 2 ^ k \<noteq> 0" by auto
next
  assume "e AND 2 ^ k \<noteq> 0"
  then obtain n where "bit (e AND 2 ^ k) n" by (metis bit_eqI bit_0_eq bot_apply bot_bool_def)
  then show "bit e k" using that by (auto simp: bit_and_iff bit_single)
qed

lemma bit_consts:
  "bit PTE_PRESENT n \<longleftrightarrow> n = 0" "bit PTE_WRITABLE n \<longleftrightarrow> n = 1" "bit PTE_USER n \<longleftrightarrow> n = 2"
  "bit PTE_PWT n \<longleftrightarrow> n = 3" "bit PTE_HUGE n \<longleftrightarrow> n = 7" "bit VMM_WC_FLAG n \<longleftrightarrow> n = 3"
  unfolding pow_consts bit_single by auto

lemma present_bit: "present e \<longleftrightarrow> bit e 0"
  using and_single [of 0 e] by (simp add: present_def pow_consts)

lemma user_bit: "e AND PTE_USER \<noteq> 0 \<longleftrightarrow> bit e 2"
  using and_single [of 2 e] by (simp add: pow_consts)

lemma huge_bit: "e AND PTE_HUGE \<noteq> 0 \<longleftrightarrow> bit e 7"
  using and_single [of 7 e] by (simp add: pow_consts)

lemmas bit_ops = bit_and_iff bit_or_iff bit_not_iff bit_push_bit_iff bit_mask_iff bit_consts bit_drop_bit_eq

text \<open>The mode bits of an entry sit below its address bits.\<close>

lemma table_from_entry_or:
  assumes "flags AND NOT (mask 12) = 0"
  shows "table_from_entry (e OR flags) = table_from_entry e"
proof (rule bit_eqI)
  fix n
  have "bit (flags AND NOT (mask 12)) n = False" using assms by simp
  then show "bit (table_from_entry (e OR flags)) n = bit (table_from_entry e) n"
    by (auto simp: table_from_entry_def mask_consts bit_ops)
qed

lemma user_low: "(flags AND PTE_USER) AND NOT (mask 12) = 0"
  by (rule bit_eqI) (auto simp: bit_ops)

lemma table_flags_low: "(PTE_PRESENT OR PTE_WRITABLE OR (flags AND PTE_USER)) AND NOT (mask 12) = 0"
  by (rule bit_eqI) (auto simp: bit_ops)

lemma bits_new_table:
  assumes "t AND TABLE_ADDR_MASK = t"
  shows "table_from_entry (t OR PTE_PRESENT OR PTE_WRITABLE OR (flags AND PTE_USER)) = t"
    "present (t OR PTE_PRESENT OR PTE_WRITABLE OR (flags AND PTE_USER))"
    "bit (t OR PTE_PRESENT OR PTE_WRITABLE OR (flags AND PTE_USER)) 2 \<longleftrightarrow> bit flags 2"
    "(t OR PTE_PRESENT OR PTE_WRITABLE OR (flags AND PTE_USER)) AND PTE_HUGE = 0"
proof -
  have low: "\<not> bit t n" if "n < 12" for n
  proof
    assume "bit t n"
    then have "bit (t AND TABLE_ADDR_MASK) n" using assms by simp
    then show False using that by (simp add: mask_consts bit_ops)
  qed
  show "table_from_entry (t OR PTE_PRESENT OR PTE_WRITABLE OR (flags AND PTE_USER)) = t"
    using table_from_entry_or [OF table_flags_low] assms by (simp add: table_from_entry_def)
  show "present (t OR PTE_PRESENT OR PTE_WRITABLE OR (flags AND PTE_USER))"
    "bit (t OR PTE_PRESENT OR PTE_WRITABLE OR (flags AND PTE_USER)) 2 \<longleftrightarrow> bit flags 2"
    using low unfolding present_bit by (auto simp: bit_ops)
  have "\<not> bit (t OR PTE_PRESENT OR PTE_WRITABLE OR (flags AND PTE_USER)) 7"
    using low by (auto simp: bit_ops)
  then show "(t OR PTE_PRESENT OR PTE_WRITABLE OR (flags AND PTE_USER)) AND PTE_HUGE = 0"
    using huge_bit by blast
qed

lemma bit_idx:
  "bit (idx2 a) n \<longleftrightarrow> n < 9 \<and> bit a (n + 21)" "bit (idx3 a) n \<longleftrightarrow> n < 9 \<and> bit a (n + 30)"
  "bit (idx4 a) n \<longleftrightarrow> n < 9 \<and> bit a (n + 39)"
  by (auto simp: idx2_def idx3_def idx4_def mask_consts bit_ops add.commute)

lemma lower_half_bits: "a < LOWER_HALF_LIMIT \<Longrightarrow> 47 \<le> n \<Longrightarrow> \<not> bit a n"
proof
  assume a: "a < LOWER_HALF_LIMIT" and n: "47 \<le> n" and b: "bit a n"
  have "unat a < 2 ^ 47" using a by (simp add: LOWER_HALF_LIMIT_def word_less_nat_alt)
  also have "(2 :: nat) ^ 47 \<le> 2 ^ n" using n by (rule power_increasing) simp
  finally have "drop_bit n (unat a) = 0" by (simp add: drop_bit_eq_div)
  then have "\<not> bit (unat a) n" by (metis bit_iff_odd_drop_bit even_zero)
  then show False using b by (simp add: bit_unsigned_iff)
qed

lemma bits_lower_half: "(\<And>n. 47 \<le> n \<Longrightarrow> \<not> bit a n) \<Longrightarrow> a < LOWER_HALF_LIMIT"
proof -
  assume a: "\<And>n. 47 \<le> n \<Longrightarrow> \<not> bit a n"
  have "take_bit 47 a = a" by (rule bit_eqI) (use a not_le in \<open>auto simp: bit_take_bit_iff\<close>)
  then have "unat a = take_bit 47 (unat a)" by (metis unsigned_take_bit_eq)
  then have "unat a < 2 ^ 47" by (metis take_bit_nat_less_exp)
  then show ?thesis by (simp add: LOWER_HALF_LIMIT_def word_less_nat_alt)
qed

lemma same_index_same_page:
  assumes "a < LOWER_HALF_LIMIT" "b < LOWER_HALF_LIMIT" "idx4 a = idx4 b" "idx3 a = idx3 b" "idx2 a = idx2 b"
  shows "a AND HUGE_PAGE_MASK = b AND HUGE_PAGE_MASK"
proof (rule bit_eqI)
  fix n
  have e2: "n < 9 \<Longrightarrow> bit a (n + 21) = bit b (n + 21)" for n using assms(5) bit_idx(1) by metis
  have e3: "n < 9 \<Longrightarrow> bit a (n + 30) = bit b (n + 30)" for n using assms(4) bit_idx(2) by metis
  have e4: "n < 9 \<Longrightarrow> bit a (n + 39) = bit b (n + 39)" for n using assms(3) bit_idx(3) by metis
  have "bit a n = bit b n" if "21 \<le> n"
  proof -
    consider "n < 30" | "30 \<le> n" "n < 39" | "39 \<le> n" "n < 48" | "47 \<le> n" by linarith
    then show ?thesis
      using that e2 [of "n - 21"] e3 [of "n - 30"] e4 [of "n - 39"]
        lower_half_bits [OF assms(1), of n] lower_half_bits [OF assms(2), of n]
      by cases simp_all
  qed
  then show "bit (a AND HUGE_PAGE_MASK) n = bit (b AND HUGE_PAGE_MASK) n"
    by (auto simp: mask_consts bit_ops)
qed

subsection \<open>The invariant of the tables\<close>

definition layout_tables :: "vmm_layout \<Rightarrow> u64 list" where
  "layout_tables L = [pml4_table L, boot_pdpt_table L, boot_pd_table L] @ map (pdpt_addr L) [0..<8] @ map (pd_addr L) [0..<64]"

definition layout_ok :: "vmm_layout \<Rightarrow> bool" where
  "layout_ok L \<longleftrightarrow> distinct (layout_tables L) \<and> list_all (\<lambda>t. t AND TABLE_ADDR_MASK = t) (layout_tables L)"

definition pdpt_set :: "vmm_layout \<Rightarrow> vmm_state \<Rightarrow> u64 set" where
  "pdpt_set L s = insert (boot_pdpt_table L) (pdpt_addr L ` {..<next_pdpt_table s})"

definition pd_set :: "vmm_layout \<Rightarrow> vmm_state \<Rightarrow> u64 set" where
  "pd_set L s = insert (boot_pd_table L) (pd_addr L ` {..<next_pd_table s})"

text \<open>
  The tables form a tree: each PDPT is entered from one PML4 entry and each page directory from
  one PDPT entry, and every present PDE is a 2 MiB page that maps its own address.
\<close>

definition vmm_inv :: "vmm_layout \<Rightarrow> vmm_state \<Rightarrow> bool" where
  "vmm_inv L s \<longleftrightarrow>
     next_pdpt_table s \<le> 8 \<and> next_pd_table s \<le> 64 \<and>
     (\<forall>i. present (tables s (pml4_table L) i) \<longrightarrow> table_from_entry (tables s (pml4_table L) i) \<in> pdpt_set L s) \<and>
     (\<forall>t \<in> pdpt_set L s. \<forall>j. present (tables s t j) \<longrightarrow>
        table_from_entry (tables s t j) \<in> pd_set L s \<and> tables s t j AND PTE_HUGE = 0) \<and>
     (\<forall>i i'. present (tables s (pml4_table L) i) \<and> present (tables s (pml4_table L) i') \<and>
        table_from_entry (tables s (pml4_table L) i) = table_from_entry (tables s (pml4_table L) i') \<longrightarrow> i = i') \<and>
     (\<forall>t \<in> pdpt_set L s. \<forall>t' \<in> pdpt_set L s. \<forall>j j'. present (tables s t j) \<and> present (tables s t' j') \<and>
        table_from_entry (tables s t j) = table_from_entry (tables s t' j') \<longrightarrow> t = t' \<and> j = j') \<and>
     (\<forall>va < LOWER_HALF_LIMIT. present (pml4e L s va) \<and> present (pdpte L s va) \<and> present (pde L s va) \<longrightarrow>
        bit (pde L s va) 7 \<and> pde L s va AND 0x000fffffffe00000 = va AND HUGE_PAGE_MASK)"

lemma layout_parts:
  assumes "layout_ok L"
  shows "distinct [pml4_table L, boot_pdpt_table L, boot_pd_table L]"
    "inj_on (pdpt_addr L) {0..<8}" "inj_on (pd_addr L) {0..<64}"
    "{pml4_table L, boot_pdpt_table L, boot_pd_table L} \<inter> pdpt_addr L ` {0..<8} = {}"
    "{pml4_table L, boot_pdpt_table L, boot_pd_table L} \<inter> pd_addr L ` {0..<64} = {}"
    "pdpt_addr L ` {0..<8} \<inter> pd_addr L ` {0..<64} = {}"
proof -
  have "distinct ([pml4_table L, boot_pdpt_table L, boot_pd_table L] @ map (pdpt_addr L) [0..<8] @ map (pd_addr L) [0..<64])"
    using assms unfolding layout_ok_def layout_tables_def by (rule conjunct1)
  then have *: "distinct [pml4_table L, boot_pdpt_table L, boot_pd_table L] \<and>
     (inj_on (pdpt_addr L) {0..<8} \<and> inj_on (pd_addr L) {0..<64} \<and> pdpt_addr L ` {0..<8} \<inter> pd_addr L ` {0..<64} = {}) \<and>
     {pml4_table L, boot_pdpt_table L, boot_pd_table L} \<inter> (pdpt_addr L ` {0..<8} \<union> pd_addr L ` {0..<64}) = {}"
    unfolding distinct_append distinct_map set_map set_append set_upt list.set by blast
  then show "distinct [pml4_table L, boot_pdpt_table L, boot_pd_table L]"
    "inj_on (pdpt_addr L) {0..<8}" "inj_on (pd_addr L) {0..<64}"
    "pdpt_addr L ` {0..<8} \<inter> pd_addr L ` {0..<64} = {}" by blast+
  from * have "{pml4_table L, boot_pdpt_table L, boot_pd_table L} \<inter> (pdpt_addr L ` {0..<8} \<union> pd_addr L ` {0..<64}) = {}"
    by (elim conjE)
  note D = this [unfolded Int_Un_distrib Un_empty]
  show "{pml4_table L, boot_pdpt_table L, boot_pd_table L} \<inter> pdpt_addr L ` {0..<8} = {}" by (rule conjunct1 [OF D])
  show "{pml4_table L, boot_pdpt_table L, boot_pd_table L} \<inter> pd_addr L ` {0..<64} = {}" by (rule conjunct2 [OF D])
qed

lemma layout_aligned:
  assumes "layout_ok L"
  shows "n < 8 \<Longrightarrow> pdpt_addr L n AND TABLE_ADDR_MASK = pdpt_addr L n"
    "n < 64 \<Longrightarrow> pd_addr L n AND TABLE_ADDR_MASK = pd_addr L n"
    "boot_pdpt_table L AND TABLE_ADDR_MASK = boot_pdpt_table L"
    "boot_pd_table L AND TABLE_ADDR_MASK = boot_pd_table L"
proof -
  have al: "t AND TABLE_ADDR_MASK = t"
    if "t \<in> {pml4_table L, boot_pdpt_table L, boot_pd_table L} \<union> (pdpt_addr L ` {0..<8} \<union> pd_addr L ` {0..<64})" for t
    using assms that unfolding layout_ok_def layout_tables_def list_all_iff set_append set_map set_upt list.set by blast
  show "n < 8 \<Longrightarrow> pdpt_addr L n AND TABLE_ADDR_MASK = pdpt_addr L n"
    by (intro al UnI2 UnI1 imageI) (simp only: atLeastLessThan_iff zero_le simp_thms)
  show "n < 64 \<Longrightarrow> pd_addr L n AND TABLE_ADDR_MASK = pd_addr L n"
    by (intro al UnI2 imageI) (simp only: atLeastLessThan_iff zero_le simp_thms)
  show "boot_pdpt_table L AND TABLE_ADDR_MASK = boot_pdpt_table L" "boot_pd_table L AND TABLE_ADDR_MASK = boot_pd_table L"
    by (intro al UnI1, blast)+
qed

lemma layout_facts:
  assumes "layout_ok L"
  shows "pml4_table L \<noteq> boot_pdpt_table L" "pml4_table L \<noteq> boot_pd_table L" "boot_pdpt_table L \<noteq> boot_pd_table L"
    "\<And>n. n < 8 \<Longrightarrow> pdpt_addr L n \<notin> {pml4_table L, boot_pdpt_table L, boot_pd_table L}"
    "\<And>n. n < 64 \<Longrightarrow> pd_addr L n \<notin> {pml4_table L, boot_pdpt_table L, boot_pd_table L}"
    "\<And>n k. n < 8 \<Longrightarrow> k < 64 \<Longrightarrow> pdpt_addr L n \<noteq> pd_addr L k"
    "\<And>n k. n < 8 \<Longrightarrow> k < 8 \<Longrightarrow> pdpt_addr L n = pdpt_addr L k \<Longrightarrow> n = k"
    "\<And>n k. n < 64 \<Longrightarrow> k < 64 \<Longrightarrow> pd_addr L n = pd_addr L k \<Longrightarrow> n = k"
proof -
  note P = layout_parts [OF assms]
  have mem: "n < N \<Longrightarrow> f n \<in> f ` {0..<N}" for f :: "nat \<Rightarrow> u64" and n N :: nat
    by (rule imageI, simp only: atLeastLessThan_iff zero_le simp_thms)
  show "pml4_table L \<noteq> boot_pdpt_table L" "pml4_table L \<noteq> boot_pd_table L" "boot_pdpt_table L \<noteq> boot_pd_table L"
    using P(1) unfolding distinct.simps list.set by blast+
  show "\<And>n. n < 8 \<Longrightarrow> pdpt_addr L n \<notin> {pml4_table L, boot_pdpt_table L, boot_pd_table L}"
    using P(4) mem [of _ 8 "pdpt_addr L"] unfolding disjoint_iff by metis
  show "\<And>n. n < 64 \<Longrightarrow> pd_addr L n \<notin> {pml4_table L, boot_pdpt_table L, boot_pd_table L}"
    using P(5) mem [of _ 64 "pd_addr L"] unfolding disjoint_iff by metis
  show "\<And>n k. n < 8 \<Longrightarrow> k < 64 \<Longrightarrow> pdpt_addr L n \<noteq> pd_addr L k"
    using P(6) mem [of _ 8 "pdpt_addr L"] mem [of _ 64 "pd_addr L"] unfolding disjoint_iff by metis
  show "\<And>n k. n < 8 \<Longrightarrow> k < 8 \<Longrightarrow> pdpt_addr L n = pdpt_addr L k \<Longrightarrow> n = k"
    by (rule inj_onD [OF P(2)]) (simp_all only: atLeastLessThan_iff zero_le simp_thms)
  show "\<And>n k. n < 64 \<Longrightarrow> k < 64 \<Longrightarrow> pd_addr L n = pd_addr L k \<Longrightarrow> n = k"
    by (rule inj_onD [OF P(3)]) (simp_all only: atLeastLessThan_iff zero_le simp_thms)
qed

lemma table_sets_disjoint:
  assumes "layout_ok L" "vmm_inv L s"
  shows "pml4_table L \<notin> pdpt_set L s" "pml4_table L \<notin> pd_set L s" "pdpt_set L s \<inter> pd_set L s = {}"
proof -
  have n: "next_pdpt_table s \<le> 8" "next_pd_table s \<le> 64" using assms(2) by (auto simp: vmm_inv_def)
  then have "pdpt_addr L k \<notin> {pml4_table L, boot_pdpt_table L, boot_pd_table L}" if "k < next_pdpt_table s" for k
    using that by (intro layout_facts(4) [OF assms(1)]) simp
  moreover have "pd_addr L k \<notin> {pml4_table L, boot_pdpt_table L, boot_pd_table L}" if "k < next_pd_table s" for k
    using that n by (intro layout_facts(5) [OF assms(1)]) simp
  moreover have "pdpt_addr L k \<noteq> pd_addr L j" if "k < next_pdpt_table s" "j < next_pd_table s" for k j
    using that n by (intro layout_facts(6) [OF assms(1)]) auto
  ultimately show "pml4_table L \<notin> pdpt_set L s" "pml4_table L \<notin> pd_set L s" "pdpt_set L s \<inter> pd_set L s = {}"
    using layout_facts(1-3) [OF assms(1)] unfolding pdpt_set_def pd_set_def by (auto simp: disjoint_iff) blast+
qed

text \<open>How the tables relate after a step: the walk of every address sees the same entries.\<close>

definition same_walk :: "vmm_layout \<Rightarrow> vmm_state \<Rightarrow> vmm_state \<Rightarrow> bool" where
  "same_walk L s s' \<longleftrightarrow> (\<forall>va. translate L s va \<noteq> None \<longrightarrow> translate L s' va = translate L s va \<and>
     (user_ok L s va \<longrightarrow> user_ok L s' va))"

lemma same_walk_trans: "same_walk L a b \<Longrightarrow> same_walk L b c \<Longrightarrow> same_walk L a c"
  unfolding same_walk_def by metis


lemma present_or: "present e \<Longrightarrow> present (e OR f)"
  by (simp add: present_bit bit_or_iff)

lemma not_present_0 [simp]: "\<not> present 0"
  by (simp add: present_bit)

lemma or_user:
  "table_from_entry (e OR (flags AND PTE_USER)) = table_from_entry e"
  "present (e OR (flags AND PTE_USER)) \<longleftrightarrow> present e"
  "(e OR (flags AND PTE_USER)) AND PTE_HUGE = 0 \<longleftrightarrow> e AND PTE_HUGE = 0"
  "bit (e OR (flags AND PTE_USER)) 2 \<longleftrightarrow> bit e 2 \<or> bit flags 2"
proof -
  show "table_from_entry (e OR (flags AND PTE_USER)) = table_from_entry e"
    by (rule table_from_entry_or [OF user_low])
  show "present (e OR (flags AND PTE_USER)) \<longleftrightarrow> present e" by (simp add: present_bit bit_ops)
  have "bit (e OR (flags AND PTE_USER)) 7 \<longleftrightarrow> bit e 7" by (simp add: bit_ops)
  then show "(e OR (flags AND PTE_USER)) AND PTE_HUGE = 0 \<longleftrightarrow> e AND PTE_HUGE = 0" using huge_bit by blast
  show "bit (e OR (flags AND PTE_USER)) 2 \<longleftrightarrow> bit e 2 \<or> bit flags 2" by (auto simp: bit_ops)
qed

text \<open>Entries that agree up to a user bit that is only added.\<close>

definition grows :: "u64 \<Rightarrow> u64 \<Rightarrow> bool" where
  "grows e e' \<longleftrightarrow> table_from_entry e' = table_from_entry e \<and> (present e' \<longleftrightarrow> present e) \<and>
     (e' AND PTE_HUGE = 0 \<longleftrightarrow> e AND PTE_HUGE = 0) \<and> (bit e 2 \<longrightarrow> bit e' 2)"

lemma grows_refl [simp]: "grows e e"
  by (simp add: grows_def)

lemma grows_user: "grows e (e OR (flags AND PTE_USER))"
  by (simp add: grows_def or_user)

definition page_grows :: "u64 \<Rightarrow> u64 \<Rightarrow> bool" where
  "page_grows e e' \<longleftrightarrow> e' AND 0x000fffffffe00000 = e AND 0x000fffffffe00000 \<and> (present e \<longrightarrow> present e') \<and>
     (e AND PTE_HUGE \<noteq> 0 \<longrightarrow> e' AND PTE_HUGE \<noteq> 0) \<and> (bit e 2 \<longrightarrow> bit e' 2)"

lemma page_grows_refl [simp]: "page_grows e e"
  by (simp add: page_grows_def)

lemma same_walkI:
  assumes "\<And>va. present (pml4e L s va) \<Longrightarrow> grows (pml4e L s va) (pml4e L s' va)"
    and "\<And>va. present (pml4e L s va) \<Longrightarrow> present (pdpte L s va) \<Longrightarrow> grows (pdpte L s va) (pdpte L s' va)"
    and "\<And>va. present (pml4e L s va) \<Longrightarrow> present (pdpte L s va) \<Longrightarrow> present (pde L s va) \<Longrightarrow>
      page_grows (pde L s va) (pde L s' va)"
  shows "same_walk L s s'"
  unfolding same_walk_def
proof (intro allI impI)
  fix va assume "translate L s va \<noteq> None"
  then have p: "present (pml4e L s va)" "present (pdpte L s va)" "present (pde L s va)"
    "pdpte L s va AND PTE_HUGE = 0" "pde L s va AND PTE_HUGE \<noteq> 0"
    by (auto simp: translate_def split: if_splits)
  note g = assms(1) [OF p(1)] assms(2) [OF p(1,2)] assms(3) [OF p(1,2,3)]
  have "translate L s' va = translate L s va"
    using p g by (auto simp: translate_def grows_def page_grows_def)
  moreover have "user_ok L s va \<longrightarrow> user_ok L s' va"
    using g by (auto simp: user_ok_def user_bit grows_def page_grows_def)
  ultimately show "translate L s' va = translate L s va \<and> (user_ok L s va \<longrightarrow> user_ok L s' va)" by blast
qed

text \<open>What the invariant says along the walk of an address.\<close>

lemma vmm_walk_sets:
  assumes "vmm_inv L s" and "present (pml4e L s va)"
  shows "table_from_entry (pml4e L s va) \<in> pdpt_set L s"
    "present (pdpte L s va) \<Longrightarrow> table_from_entry (pdpte L s va) \<in> pd_set L s"
  using assms by (auto simp: vmm_inv_def pml4e_def pdpte_def)

text \<open>
  A step that leaves the tables below the PML4 alone and only lets present PML4 entries grow,
  or adds an empty table, keeps the invariant.
\<close>

lemma link_pdpt_step:
  assumes L: "layout_ok L" and inv: "vmm_inv L s"
    and T: "\<And>t. t \<in> pdpt_set L s \<union> pd_set L s \<Longrightarrow> tables s' t = tables s t"
    and old: "\<And>j. present (tables s (pml4_table L) j) \<Longrightarrow> grows (tables s (pml4_table L) j) (tables s' (pml4_table L) j)"
    and new: "\<And>j. \<not> present (tables s (pml4_table L) j) \<Longrightarrow> present (tables s' (pml4_table L) j) \<Longrightarrow>
       j = i \<and> table_from_entry (tables s' (pml4_table L) j) = n"
    and n: "pdpt_set L s' = pdpt_set L s \<or> pdpt_set L s' = insert n (pdpt_set L s)" "n \<notin> pdpt_set L s"
      "\<not> present (tables s (pml4_table L) i) \<Longrightarrow> n \<in> pdpt_set L s' \<and> tables s' n = (\<lambda>_. 0)"
      "present (tables s (pml4_table L) i) \<Longrightarrow> pdpt_set L s' = pdpt_set L s"
    and cnt: "next_pdpt_table s' \<le> 8" "next_pd_table s' = next_pd_table s"
  shows "vmm_inv L s' \<and> same_walk L s s'"
proof -
  have pd: "pd_set L s' = pd_set L s" using cnt(2) by (simp add: pd_set_def)
  have w1: "grows (pml4e L s va) (pml4e L s' va)" if "present (pml4e L s va)" for va
    using that old by (simp add: pml4e_def)
  have w2: "pdpte L s' va = pdpte L s va" if "present (pml4e L s va)" for va
    using w1 [OF that] T vmm_walk_sets(1) [OF inv that] by (simp add: pdpte_def grows_def)
  have w3: "pde L s' va = pde L s va" if "present (pml4e L s va)" "present (pdpte L s va)" for va
    using T vmm_walk_sets(2) [OF inv that] w2 [OF that(1)] by (simp add: pde_def)
  have empty: "\<not> present (pdpte L s' va)" if "\<not> present (pml4e L s va)" "present (pml4e L s' va)" for va
    using new [of "idx4 va"] n(3) that by (auto simp: pml4e_def pdpte_def)
  have cases: "present (tables s (pml4_table L) j) \<or> (j = i \<and> \<not> present (tables s (pml4_table L) i) \<and>
      table_from_entry (tables s' (pml4_table L) j) = n)" if "present (tables s' (pml4_table L) j)" for j
    using new that by blast
  have tfe: "present (tables s (pml4_table L) j) \<Longrightarrow>
      table_from_entry (tables s' (pml4_table L) j) = table_from_entry (tables s (pml4_table L) j)" for j
    using old by (simp add: grows_def)
  have in_old: "present (tables s (pml4_table L) j) \<Longrightarrow> table_from_entry (tables s (pml4_table L) j) \<in> pdpt_set L s" for j
    using inv by (simp add: vmm_inv_def)
  have Tn: "t \<in> pdpt_set L s' \<Longrightarrow> present (tables s' t j) \<Longrightarrow> t \<in> pdpt_set L s \<and> tables s' t = tables s t" for t j
    using n T [of t] by (cases "t \<in> pdpt_set L s"; cases "present (tables s (pml4_table L) i)") auto
  have "vmm_inv L s'"
    unfolding vmm_inv_def
  proof (intro conjI allI impI ballI)
    show "next_pdpt_table s' \<le> 8" "next_pd_table s' \<le> 64" using cnt inv by (auto simp: vmm_inv_def)
    show "table_from_entry (tables s' (pml4_table L) j) \<in> pdpt_set L s'" if "present (tables s' (pml4_table L) j)" for j
      using cases [OF that] tfe in_old n by auto
    show "j = j'" if "present (tables s' (pml4_table L) j) \<and> present (tables s' (pml4_table L) j') \<and>
        table_from_entry (tables s' (pml4_table L) j) = table_from_entry (tables s' (pml4_table L) j')" for j j'
      using that cases [of j] cases [of j'] tfe [of j] tfe [of j'] in_old [of j] in_old [of j'] n(2) inv
      unfolding vmm_inv_def by metis
    show "table_from_entry (tables s' t j) \<in> pd_set L s'" "tables s' t j AND PTE_HUGE = 0"
      if "t \<in> pdpt_set L s'" "present (tables s' t j)" for t j
      using Tn [OF that] that(2) inv pd by (auto simp: vmm_inv_def)
    show "t = t'" "j = j'" if "t \<in> pdpt_set L s'" "t' \<in> pdpt_set L s'"
      "present (tables s' t j) \<and> present (tables s' t' j') \<and> table_from_entry (tables s' t j) = table_from_entry (tables s' t' j')"
      for t t' j j'
      using Tn [OF that(1), of j] Tn [OF that(2), of j'] that(3) inv unfolding vmm_inv_def by metis+
    fix va assume va: "va < LOWER_HALF_LIMIT"
      and p: "present (pml4e L s' va) \<and> present (pdpte L s' va) \<and> present (pde L s' va)"
    then have q: "present (pml4e L s va)" using empty by blast
    then have "present (pdpte L s va)" "present (pde L s va)" using p w2 [OF q] w3 [OF q] by auto
    then show "bit (pde L s' va) 7" "pde L s' va AND 0x000fffffffe00000 = va AND HUGE_PAGE_MASK"
      using inv va q w3 [OF q] by (auto simp: vmm_inv_def)
  qed
  moreover have "same_walk L s s'"
    by (rule same_walkI) (simp_all add: w1 w2 w3)
  ultimately show ?thesis by blast
qed

lemma fresh_pdpt:
  assumes L: "layout_ok L" and inv: "vmm_inv L s" and lt: "next_pdpt_table s < 8"
  shows "pdpt_addr L (next_pdpt_table s) \<noteq> pml4_table L"
    "pdpt_addr L (next_pdpt_table s) \<notin> pdpt_set L s" "pdpt_addr L (next_pdpt_table s) \<notin> pd_set L s"
proof -
  let ?n = "pdpt_addr L (next_pdpt_table s)"
  have "?n \<noteq> pdpt_addr L k" if "k < next_pdpt_table s" for k
    using layout_facts(7) [OF L lt, of k] that lt by auto
  moreover have "?n \<noteq> pd_addr L k" if "k < next_pd_table s" for k
    using layout_facts(6) [OF L lt, of k] that inv by (auto simp: vmm_inv_def)
  ultimately show "?n \<noteq> pml4_table L" "?n \<notin> pdpt_set L s" "?n \<notin> pd_set L s"
    using layout_facts(4) [OF L lt] unfolding pdpt_set_def pd_set_def by auto
qed

lemma fresh_pd:
  assumes L: "layout_ok L" and inv: "vmm_inv L s" and lt: "next_pd_table s < 64"
  shows "pd_addr L (next_pd_table s) \<noteq> pml4_table L"
    "pd_addr L (next_pd_table s) \<notin> pdpt_set L s" "pd_addr L (next_pd_table s) \<notin> pd_set L s"
proof -
  let ?n = "pd_addr L (next_pd_table s)"
  have "?n \<noteq> pd_addr L k" if "k < next_pd_table s" for k
    using layout_facts(8) [OF L lt, of k] that lt by auto
  moreover have "?n \<noteq> pdpt_addr L k" if "k < next_pdpt_table s" for k
    using layout_facts(6) [OF L _ lt, of k] that inv by (auto simp: vmm_inv_def)
  ultimately show "?n \<noteq> pml4_table L" "?n \<notin> pdpt_set L s" "?n \<notin> pd_set L s"
    using layout_facts(5) [OF L lt] unfolding pdpt_set_def pd_set_def by auto
qed

lemma link_pdpt_spec:
  assumes L: "layout_ok L" and inv: "vmm_inv L s" and link: "link_pdpt L i flags s = Some s'"
  shows "vmm_inv L s' \<and> same_walk L s s'"
    and "present (tables s' (pml4_table L) i)" and "bit flags 2 \<Longrightarrow> bit (tables s' (pml4_table L) i) 2"
proof -
  let ?e = "tables s (pml4_table L) i" let ?n = "pdpt_addr L (next_pdpt_table s)"
  note disj = table_sets_disjoint [OF L inv]
  have "(vmm_inv L s' \<and> same_walk L s s') \<and> present (tables s' (pml4_table L) i) \<and> (bit flags 2 \<longrightarrow> bit (tables s' (pml4_table L) i) 2)"
  proof (cases "present ?e")
    case True
    have s': "s' = set_entry (pml4_table L) i (?e OR (flags AND PTE_USER)) s"
      using link True by (simp add: link_pdpt_def Let_def)
    have T: "tables s' t = tables s t" if "t \<noteq> pml4_table L" for t using that by (simp add: s' set_entry_def)
    have P: "grows (tables s (pml4_table L) j) (tables s' (pml4_table L) j)" for j
      by (simp add: s' set_entry_def grows_user)
    have sets: "pdpt_set L s' = pdpt_set L s" by (simp add: s' set_entry_def pdpt_set_def)
    have "vmm_inv L s' \<and> same_walk L s s'"
    proof (rule link_pdpt_step [OF L inv, where n = "pml4_table L" and i = i])
      show "\<And>t. t \<in> pdpt_set L s \<union> pd_set L s \<Longrightarrow> tables s' t = tables s t" using disj(1,2) by (intro T) auto
      show "\<And>j. \<not> present (tables s (pml4_table L) j) \<Longrightarrow> present (tables s' (pml4_table L) j) \<Longrightarrow>
         j = i \<and> table_from_entry (tables s' (pml4_table L) j) = pml4_table L"
        using P by (simp add: grows_def)
      show "next_pdpt_table s' \<le> 8" "next_pd_table s' = next_pd_table s"
        using inv by (simp_all add: s' set_entry_def vmm_inv_def)
    qed (use P sets True disj(1) in simp_all)
    then show ?thesis using True by (simp add: s' set_entry_def or_user)
  next
    case False
    have lt: "next_pdpt_table s < 8" and
      s': "s' = set_entry (pml4_table L) i (?n OR PTE_PRESENT OR PTE_WRITABLE OR (flags AND PTE_USER))
        (s\<lparr>next_pdpt_table := next_pdpt_table s + 1, tables := (tables s)(?n := \<lambda>_. 0)\<rparr>)"
      using link False by (auto simp: link_pdpt_def alloc_pdpt_table_def Let_def split: if_splits)
    note nn = fresh_pdpt [OF L inv lt]
    note e = bits_new_table [OF layout_aligned(1) [OF L lt], of flags]
    have T: "tables s' t = tables s t" if "t \<noteq> pml4_table L" "t \<noteq> ?n" for t
      using that by (simp add: s' set_entry_def)
    have P: "j \<noteq> i \<Longrightarrow> tables s' (pml4_table L) j = tables s (pml4_table L) j" for j
      using nn(1) by (simp add: s' set_entry_def)
    have E: "tables s' (pml4_table L) i = ?n OR PTE_PRESENT OR PTE_WRITABLE OR (flags AND PTE_USER)"
      by (simp add: s' set_entry_def)
    have sets: "pdpt_set L s' = insert ?n (pdpt_set L s)"
      by (auto simp: s' set_entry_def pdpt_set_def lessThan_Suc)
    have "vmm_inv L s' \<and> same_walk L s s'"
    proof (rule link_pdpt_step [OF L inv, where n = ?n and i = i])
      show "\<And>t. t \<in> pdpt_set L s \<union> pd_set L s \<Longrightarrow> tables s' t = tables s t" using disj(1,2) nn(2,3) by (intro T) auto
      show "grows (tables s (pml4_table L) j) (tables s' (pml4_table L) j)" if "present (tables s (pml4_table L) j)" for j
        using that False P by (cases "j = i") auto
      show "\<And>j. \<not> present (tables s (pml4_table L) j) \<Longrightarrow> present (tables s' (pml4_table L) j) \<Longrightarrow>
         j = i \<and> table_from_entry (tables s' (pml4_table L) j) = ?n"
        using P E e(1) by metis
      show "\<not> present ?e \<Longrightarrow> ?n \<in> pdpt_set L s' \<and> tables s' ?n = (\<lambda>_. 0)"
        using nn(1) sets by (simp add: s' set_entry_def)
      show "next_pdpt_table s' \<le> 8" "next_pd_table s' = next_pd_table s"
        using lt by (simp_all add: s' set_entry_def)
    qed (use sets False nn(2) in simp_all)
    then show ?thesis using e(2,3) E by simp
  qed
  then show "vmm_inv L s' \<and> same_walk L s s'"
    and "present (tables s' (pml4_table L) i)" and "bit flags 2 \<Longrightarrow> bit (tables s' (pml4_table L) i) 2" by blast+
qed

lemma vmm_inv_pd_inj:
  assumes "vmm_inv L s" "t \<in> pdpt_set L s" "t' \<in> pdpt_set L s" "present (tables s t j)" "present (tables s t' j')"
    "table_from_entry (tables s t j) = table_from_entry (tables s t' j')"
  shows "t = t' \<and> j = j'"
proof -
  have "\<forall>t \<in> pdpt_set L s. \<forall>t' \<in> pdpt_set L s. \<forall>j j'. present (tables s t j) \<and> present (tables s t' j') \<and>
        table_from_entry (tables s t j) = table_from_entry (tables s t' j') \<longrightarrow> t = t' \<and> j = j'"
    using assms(1) unfolding vmm_inv_def by (elim conjE)
  then show ?thesis using assms(2-6) by blast
qed

lemma link_pd_step:
  assumes L: "layout_ok L" and inv: "vmm_inv L s"
    and T4: "tables s' (pml4_table L) = tables s (pml4_table L)"
    and Tpd: "\<And>t. t \<in> pd_set L s \<Longrightarrow> tables s' t = tables s t"
    and old: "\<And>t j. t \<in> pdpt_set L s \<Longrightarrow> present (tables s t j) \<Longrightarrow> grows (tables s t j) (tables s' t j)"
    and new: "\<And>t j. t \<in> pdpt_set L s \<Longrightarrow> \<not> present (tables s t j) \<Longrightarrow> present (tables s' t j) \<Longrightarrow>
       t = p \<and> j = i \<and> table_from_entry (tables s' t j) = n \<and> tables s' t j AND PTE_HUGE = 0"
    and n: "pd_set L s' = pd_set L s \<or> pd_set L s' = insert n (pd_set L s)" "n \<notin> pd_set L s"
      "\<not> present (tables s p i) \<Longrightarrow> n \<in> pd_set L s' \<and> tables s' n = (\<lambda>_. 0)"
    and cnt: "next_pd_table s' \<le> 64" "next_pdpt_table s' = next_pdpt_table s"
  shows "vmm_inv L s' \<and> same_walk L s s'"
proof -
  have pt: "pdpt_set L s' = pdpt_set L s" using cnt(2) by (simp add: pdpt_set_def)
  have w1: "pml4e L s' va = pml4e L s va" for va by (simp add: pml4e_def T4)
  have w2: "grows (pdpte L s va) (pdpte L s' va)" if "present (pml4e L s va)" "present (pdpte L s va)" for va
    using old [OF vmm_walk_sets(1) [OF inv that(1)]] that(2) by (simp add: pdpte_def w1)
  have w3: "pde L s' va = pde L s va" if "present (pml4e L s va)" "present (pdpte L s va)" for va
    using w2 [OF that] Tpd vmm_walk_sets(2) [OF inv that] by (simp add: pde_def grows_def)
  have empty: "\<not> present (pde L s' va)"
    if "present (pml4e L s va)" "\<not> present (pdpte L s va)" "present (pdpte L s' va)" for va
  proof -
    let ?t = "table_from_entry (pml4e L s va)"
    have t: "\<not> present (tables s ?t (idx3 va))" "present (tables s' ?t (idx3 va))" using that by (simp_all add: w1 pdpte_def)
    note N = new [OF vmm_walk_sets(1) [OF inv that(1)] t]
    then have "tables s' n = (\<lambda>_. 0)" using n(3) t(1) by metis
    moreover have "pde L s' va = tables s' n (idx2 va)" unfolding pde_def pdpte_def w1 using N by metis
    ultimately show ?thesis by simp
  qed
  have inv2: "j = j'" if "present (tables s (pml4_table L) j) \<and> present (tables s (pml4_table L) j') \<and>
        table_from_entry (tables s (pml4_table L) j) = table_from_entry (tables s (pml4_table L) j')" for j j'
    using inv that by (simp add: vmm_inv_def)
  have inv3: "table_from_entry (tables s t j) \<in> pd_set L s \<and> tables s t j AND PTE_HUGE = 0"
    if "t \<in> pdpt_set L s" "present (tables s t j)" for t j
    using inv that by (simp add: vmm_inv_def)
  have cases: "present (tables s t j) \<and> table_from_entry (tables s' t j) = table_from_entry (tables s t j) \<and>
       table_from_entry (tables s t j) \<in> pd_set L s \<and> tables s' t j AND PTE_HUGE = 0 \<or>
      (t = p \<and> j = i \<and> \<not> present (tables s p i) \<and> table_from_entry (tables s' t j) = n \<and> tables s' t j AND PTE_HUGE = 0)"
    if "t \<in> pdpt_set L s" "present (tables s' t j)" for t j
  proof (cases "present (tables s t j)")
    case True
    then show ?thesis using inv3 [OF that(1) True] old [OF that(1) True] by (simp add: grows_def)
  next
    case False
    then show ?thesis using new [OF that(1) False that(2)] by blast
  qed
  have mem: "table_from_entry (tables s' t j) \<in> pd_set L s' \<and> tables s' t j AND PTE_HUGE = 0"
    if "t \<in> pdpt_set L s" "present (tables s' t j)" for t j
  proof -
    have "pd_set L s \<subseteq> pd_set L s'" using n(1) by blast
    then show ?thesis using cases [OF that] n(3) by (elim disjE conjE) auto
  qed
  have inj: "t = t' \<and> j = j'" if t: "t \<in> pdpt_set L s" "t' \<in> pdpt_set L s"
      "present (tables s' t j)" "present (tables s' t' j')" "table_from_entry (tables s' t j) = table_from_entry (tables s' t' j')"
    for t t' j j'
  proof -
    have "present (tables s t j) \<and> present (tables s t' j') \<and> table_from_entry (tables s t j) = table_from_entry (tables s t' j') \<longrightarrow>
        t = t' \<and> j = j'"
      using vmm_inv_pd_inj [OF inv t(1,2)] by blast
    then show ?thesis using cases [OF t(1,3)] cases [OF t(2,4)] t(5) n(2) by metis
  qed
  have "vmm_inv L s'"
    unfolding vmm_inv_def
  proof (intro conjI allI impI ballI)
    show "next_pdpt_table s' \<le> 8" "next_pd_table s' \<le> 64" using cnt inv by (auto simp: vmm_inv_def)
    show "table_from_entry (tables s' (pml4_table L) j) \<in> pdpt_set L s'" if "present (tables s' (pml4_table L) j)" for j
      using that inv by (simp add: T4 pt vmm_inv_def)
    show "j = j'" if "present (tables s' (pml4_table L) j) \<and> present (tables s' (pml4_table L) j') \<and>
        table_from_entry (tables s' (pml4_table L) j) = table_from_entry (tables s' (pml4_table L) j')" for j j'
      using that unfolding T4 by (rule inv2)
    show "table_from_entry (tables s' t j) \<in> pd_set L s'" "tables s' t j AND PTE_HUGE = 0"
      if "t \<in> pdpt_set L s'" "present (tables s' t j)" for t j
      using mem [of t j] that unfolding pt by blast+
    show "t = t'" "j = j'" if "t \<in> pdpt_set L s'" "t' \<in> pdpt_set L s'"
      "present (tables s' t j) \<and> present (tables s' t' j') \<and> table_from_entry (tables s' t j) = table_from_entry (tables s' t' j')"
      for t t' j j'
      using inj [of t t' j j'] that pt by auto
    fix va assume va: "va < LOWER_HALF_LIMIT"
      and p: "present (pml4e L s' va) \<and> present (pdpte L s' va) \<and> present (pde L s' va)"
    have q1: "present (pml4e L s va)" using p by (simp add: w1)
    have q: "present (pml4e L s va)" "present (pdpte L s va)" using q1 empty [OF q1] p by blast+
    then show "bit (pde L s' va) 7" "pde L s' va AND 0x000fffffffe00000 = va AND HUGE_PAGE_MASK"
      using inv va p w3 [OF q] by (simp_all add: vmm_inv_def)
  qed
  moreover have "same_walk L s s'"
    by (rule same_walkI) (simp_all add: w1 w2 w3)
  ultimately show ?thesis by blast
qed

lemma link_pd_spec:
  assumes L: "layout_ok L" and inv: "vmm_inv L s" and p: "p \<in> pdpt_set L s" and link: "link_pd L p i flags s = Some s'"
  shows "vmm_inv L s' \<and> same_walk L s s'" and "tables s' (pml4_table L) = tables s (pml4_table L)"
    and "present (tables s' p i)" and "bit flags 2 \<Longrightarrow> bit (tables s' p i) 2"
proof -
  let ?e = "tables s p i" let ?n = "pd_addr L (next_pd_table s)"
  note disj = table_sets_disjoint [OF L inv]
  have p4: "p \<noteq> pml4_table L" "p \<notin> pd_set L s" using p disj by auto
  have "(vmm_inv L s' \<and> same_walk L s s') \<and> tables s' (pml4_table L) = tables s (pml4_table L) \<and>
     present (tables s' p i) \<and> (bit flags 2 \<longrightarrow> bit (tables s' p i) 2)"
  proof (cases "present ?e")
    case True
    have s': "s' = set_entry p i (?e OR (flags AND PTE_USER)) s"
      using link True by (simp add: link_pd_def Let_def)
    have T: "tables s' t = tables s t" if "t \<noteq> p" for t using that by (simp add: s' set_entry_def)
    have P: "grows (tables s t j) (tables s' t j)" for t j
      by (simp add: s' set_entry_def grows_user)
    have sets: "pd_set L s' = pd_set L s" by (simp add: s' set_entry_def pd_set_def)
    have "vmm_inv L s' \<and> same_walk L s s'"
    proof (rule link_pd_step [OF L inv, where n = p and i = i and p = p])
      show "\<And>t. t \<in> pd_set L s \<Longrightarrow> tables s' t = tables s t" using p4(2) by (intro T) auto
      show "\<And>t j. t \<in> pdpt_set L s \<Longrightarrow> \<not> present (tables s t j) \<Longrightarrow> present (tables s' t j) \<Longrightarrow>
         t = p \<and> j = i \<and> table_from_entry (tables s' t j) = p \<and> tables s' t j AND PTE_HUGE = 0"
        using P by (simp add: grows_def)
      show "next_pd_table s' \<le> 64" "next_pdpt_table s' = next_pdpt_table s"
        using inv by (simp_all add: s' set_entry_def vmm_inv_def)
    qed (use P sets True p4 T in simp_all)
    then show ?thesis using True p4 T by (simp add: s' set_entry_def or_user)
  next
    case False
    have lt: "next_pd_table s < 64" and
      s': "s' = set_entry p i (?n OR PTE_PRESENT OR PTE_WRITABLE OR (flags AND PTE_USER))
        (s\<lparr>next_pd_table := next_pd_table s + 1, tables := (tables s)(?n := \<lambda>_. 0)\<rparr>)"
      using link False by (auto simp: link_pd_def alloc_pd_table_def Let_def split: if_splits)
    note nn = fresh_pd [OF L inv lt]
    note e = bits_new_table [OF layout_aligned(2) [OF L lt], of flags]
    have np: "?n \<noteq> p" using nn(2) p by auto
    have T: "tables s' t = tables s t" if "t \<noteq> p" "t \<noteq> ?n" for t
      using that by (simp add: s' set_entry_def)
    have P: "j \<noteq> i \<Longrightarrow> tables s' p j = tables s p j" for j
      using np by (simp add: s' set_entry_def)
    have E: "tables s' p i = ?n OR PTE_PRESENT OR PTE_WRITABLE OR (flags AND PTE_USER)"
      by (simp add: s' set_entry_def)
    have sets: "pd_set L s' = insert ?n (pd_set L s)"
      by (auto simp: s' set_entry_def pd_set_def lessThan_Suc)
    have same: "tables s' t j = tables s t j" if "t \<in> pdpt_set L s" "(t, j) \<noteq> (p, i)" for t j
      using that P [of j] T [of t] nn(2) by (cases "t = p"; cases "t = ?n") auto
    have "vmm_inv L s' \<and> same_walk L s s'"
    proof (rule link_pd_step [OF L inv, where n = ?n and i = i and p = p])
      show "\<And>t. t \<in> pd_set L s \<Longrightarrow> tables s' t = tables s t" using p4(2) nn(3) by (intro T) auto
      show "tables s' (pml4_table L) = tables s (pml4_table L)" using p4(1) nn(1) by (intro T) auto
      show "grows (tables s t j) (tables s' t j)" if "t \<in> pdpt_set L s" "present (tables s t j)" for t j
        using that False same [of t j] by (cases "(t, j) = (p, i)") auto
      show "t = p \<and> j = i \<and> table_from_entry (tables s' t j) = ?n \<and> tables s' t j AND PTE_HUGE = 0"
        if "t \<in> pdpt_set L s" "\<not> present (tables s t j)" "present (tables s' t j)" for t j
        using that same [of t j] E e(1,4) by (cases "(t, j) = (p, i)") auto
      show "\<not> present ?e \<Longrightarrow> ?n \<in> pd_set L s' \<and> tables s' ?n = (\<lambda>_. 0)"
        using np sets by (simp add: s' set_entry_def)
      show "next_pd_table s' \<le> 64" "next_pdpt_table s' = next_pdpt_table s"
        using lt by (simp_all add: s' set_entry_def)
    qed (use sets False nn(3) in simp_all)
    then show ?thesis using e(2,3) E T p4(1) nn(1) by auto
  qed
  then show "vmm_inv L s' \<and> same_walk L s s'" and "tables s' (pml4_table L) = tables s (pml4_table L)"
    and "present (tables s' p i)" and "bit flags 2 \<Longrightarrow> bit (tables s' p i) 2" by blast+
qed

subsection \<open>The leaf entry\<close>

definition flags_ok :: "u64 \<Rightarrow> bool" where
  "flags_ok flags \<longleftrightarrow> flags AND NOT (mask 12) = 0"

lemma flags_low: "flags_ok flags \<Longrightarrow> 12 \<le> n \<Longrightarrow> \<not> bit flags n"
proof
  assume f: "flags_ok flags" and n: "12 \<le> n" and b: "bit flags n"
  then have "bit (flags AND NOT (mask 12)) n" by (auto simp: bit_ops bit_imp_possible_bit dest: bit_imp_le_length)
  then show False using f by (simp add: flags_ok_def)
qed

definition new_pde :: "u64 \<Rightarrow> u64 \<Rightarrow> u64" where
  "new_pde aligned flags = aligned OR PTE_PRESENT OR PTE_WRITABLE OR PTE_HUGE OR
     (if flags AND VMM_WC_FLAG \<noteq> 0 then (flags AND NOT VMM_WC_FLAG) OR PTE_PWT else flags AND NOT VMM_WC_FLAG)"

lemma new_pde_eq: "new_pde aligned flags = aligned OR PTE_PRESENT OR PTE_WRITABLE OR PTE_HUGE OR flags"
proof -
  have "(if flags AND VMM_WC_FLAG \<noteq> 0 then (flags AND NOT VMM_WC_FLAG) OR PTE_PWT else flags AND NOT VMM_WC_FLAG) = flags"
    (is "?f = _")
  proof (rule bit_eqI)
    fix n assume "possible_bit TYPE(u64) n"
    then have n: "n < 64" by simp
    have "flags AND VMM_WC_FLAG \<noteq> 0 \<longleftrightarrow> bit flags 3" using and_single [of 3 flags] by (simp add: VMM_WC_FLAG_def)
    then show "bit ?f n = bit flags n" using n by (auto simp: bit_ops)
  qed
  then show ?thesis by (simp only: new_pde_def)
qed

lemma set_pde_eq:
  "set_pde pd i aligned flags s = set_entry pd i
     (if present (tables s pd i) then tables s pd i OR flags else new_pde aligned flags) s"
  by (simp add: set_pde_def new_pde_def Let_def)

lemma new_pde_bits:
  assumes "flags_ok flags" and "a < LOWER_HALF_LIMIT" and "a AND HUGE_PAGE_MASK = a"
  shows "present (new_pde a flags)" "bit (new_pde a flags) 7" "bit flags 2 \<Longrightarrow> bit (new_pde a flags) 2"
    "new_pde a flags AND 0x000fffffffe00000 = a"
proof -
  show "present (new_pde a flags)" "bit (new_pde a flags) 7" "bit flags 2 \<Longrightarrow> bit (new_pde a flags) 2"
    unfolding present_bit new_pde_eq by (auto simp: bit_ops)
  have low: "bit a n \<Longrightarrow> 21 \<le> n \<and> n < 47" for n
  proof -
    assume b: "bit a n"
    then have "bit (a AND HUGE_PAGE_MASK) n" using assms(3) by simp
    then have "21 \<le> n" by (auto simp: mask_consts bit_ops)
    then show ?thesis using lower_half_bits [OF assms(2), of n] b by (meson not_le)
  qed
  show "new_pde a flags AND 0x000fffffffe00000 = a"
  proof (rule bit_eqI)
    fix n
    show "bit (new_pde a flags AND 0x000fffffffe00000) n = bit a n"
      using low [of n] flags_low [OF assms(1), of n] unfolding new_pde_eq mask_consts
      by (auto simp: bit_ops dest: bit_imp_le_length)
  qed
qed

lemma or_flags_page:
  assumes "flags_ok flags"
  shows "page_grows e (e OR flags)" "bit flags 2 \<Longrightarrow> bit (e OR flags) 2"
proof -
  have "(e OR flags) AND 0x000fffffffe00000 = e AND 0x000fffffffe00000"
    unfolding mask_consts by (rule bit_eqI) (use flags_low [OF assms] in \<open>auto simp: bit_ops\<close>)
  moreover have "e AND PTE_HUGE \<noteq> 0 \<longrightarrow> (e OR flags) AND PTE_HUGE \<noteq> 0" unfolding huge_bit by (simp add: bit_or_iff)
  ultimately show "page_grows e (e OR flags)" by (simp add: page_grows_def present_or bit_or_iff)
  show "bit flags 2 \<Longrightarrow> bit (e OR flags) 2" by (simp add: bit_or_iff)
qed

lemma vmm_inv_pml4_inj:
  assumes "vmm_inv L s" "present (tables s (pml4_table L) i)" "present (tables s (pml4_table L) i')"
    "table_from_entry (tables s (pml4_table L) i) = table_from_entry (tables s (pml4_table L) i')"
  shows "i = i'"
  using assms by (simp add: vmm_inv_def)

lemma vmm_inv_leaf:
  assumes "vmm_inv L s" "va < LOWER_HALF_LIMIT" "present (pml4e L s va)" "present (pdpte L s va)" "present (pde L s va)"
  shows "bit (pde L s va) 7" "pde L s va AND 0x000fffffffe00000 = va AND HUGE_PAGE_MASK"
  using assms by (simp_all add: vmm_inv_def)

lemma set_pde_spec:
  assumes L: "layout_ok L" and inv: "vmm_inv L s" and fl: "flags_ok flags"
    and a: "a < LOWER_HALF_LIMIT" "a AND HUGE_PAGE_MASK = a"
    and p: "present (pml4e L s a)" "present (pdpte L s a)"
    and s': "s' = set_pde (table_from_entry (pdpte L s a)) (idx2 a) a flags s"
  shows "vmm_inv L s' \<and> same_walk L s s'" and "pml4e L s' va = pml4e L s va"
    and "present (pml4e L s va) \<Longrightarrow> pdpte L s' va = pdpte L s va"
    and "present (pde L s' a)" and "bit flags 2 \<Longrightarrow> bit (pde L s' a) 2"
proof -
  let ?pd = "table_from_entry (pdpte L s a)"
  note disj = table_sets_disjoint [OF L inv]
  have pd: "?pd \<in> pd_set L s" by (rule vmm_walk_sets(2) [OF inv p])
  then have npd: "?pd \<noteq> pml4_table L" "?pd \<notin> pdpt_set L s" using disj by auto
  have sets: "pdpt_set L s' = pdpt_set L s" "pd_set L s' = pd_set L s"
      "next_pdpt_table s' = next_pdpt_table s" "next_pd_table s' = next_pd_table s"
    by (simp_all add: s' set_pde_eq set_entry_def pdpt_set_def pd_set_def)
  have T: "tables s' t = tables s t" if "t \<noteq> ?pd" for t using that by (simp add: s' set_pde_eq set_entry_def)
  have T4: "tables s' (pml4_table L) = tables s (pml4_table L)" using npd by (intro T) auto
  have T3: "tables s' t = tables s t" if "t \<in> pdpt_set L s" for t using npd that by (intro T) auto
  show w1: "pml4e L s' va = pml4e L s va" for va by (simp add: pml4e_def T4)
  show w2: "pdpte L s' va = pdpte L s va" if "present (pml4e L s va)" for va
    using vmm_walk_sets(1) [OF inv that] by (simp add: pdpte_def w1 T3)
  let ?e = "tables s ?pd (idx2 a)"
  have E: "pde L s' va = (if table_from_entry (pdpte L s va) = ?pd \<and> idx2 va = idx2 a
      then (if present ?e then ?e OR flags else new_pde a flags) else pde L s va)"
    if "present (pml4e L s va)" for va
  proof -
    have "tables s' t i = (if t = ?pd \<and> i = idx2 a
        then (if present ?e then ?e OR flags else new_pde a flags) else tables s t i)" for t i
      by (simp add: s' set_pde_eq set_entry_def)
    then show ?thesis unfolding pde_def w2 [OF that] by (rule trans) (simp only: pde_def)
  qed
  note new = new_pde_bits [OF fl a]
  show "present (pde L s' a)" "bit flags 2 \<Longrightarrow> bit (pde L s' a) 2"
    using E [OF p(1)] new(1,3) present_or or_flags_page(2) [OF fl] by auto
  have same: "va AND HUGE_PAGE_MASK = a"
    if va: "va < LOWER_HALF_LIMIT" "present (pml4e L s va)" "present (pdpte L s va)"
      "table_from_entry (pdpte L s va) = ?pd" "idx2 va = idx2 a" for va
  proof -
    have j: "table_from_entry (pml4e L s va) = table_from_entry (pml4e L s a) \<and> idx3 va = idx3 a"
      using va p unfolding pdpte_def
      by (intro vmm_inv_pd_inj [OF inv vmm_walk_sets(1) [OF inv va(2)] vmm_walk_sets(1) [OF inv p(1)]]) auto
    then have "idx4 va = idx4 a"
      using vmm_inv_pml4_inj [OF inv va(2) [unfolded pml4e_def] p(1) [unfolded pml4e_def]]
      by (simp only: pml4e_def)
    then show ?thesis using same_index_same_page [OF va(1) a(1)] j va(5) a(2) by simp
  qed
  have I5: "bit (pde L s' va) 7 \<and> pde L s' va AND 0x000fffffffe00000 = va AND HUGE_PAGE_MASK"
    if va: "va < LOWER_HALF_LIMIT" "present (pml4e L s va)" "present (pdpte L s va)" "present (pde L s' va)" for va
  proof (cases "table_from_entry (pdpte L s va) = ?pd \<and> idx2 va = idx2 a")
    case True
    note sa = same [OF va(1-3)]
    have eq: "pde L s va = ?e" using True by (simp add: pde_def)
    show ?thesis
    proof (cases "present ?e")
      case pr: True
      have "pde L s' va = ?e OR flags" using E [OF va(2)] True pr by simp
      then show ?thesis
        using vmm_inv_leaf [OF inv va(1-3)] pr eq or_flags_page(1) [OF fl, of ?e]
        by (simp add: page_grows_def bit_or_iff)
    next
      case np: False
      have "pde L s' va = new_pde a flags" using E [OF va(2)] True np by simp
      then show ?thesis using new(2,4) sa True by simp
    qed
  next
    case False
    then show ?thesis using E [OF va(2)] vmm_inv_leaf [OF inv va(1-3)] va(4) by auto
  qed
  have "vmm_inv L s'"
    unfolding vmm_inv_def sets T4
  proof (intro conjI allI impI ballI)
    show "next_pdpt_table s \<le> 8" "next_pd_table s \<le> 64" using inv by (simp_all add: vmm_inv_def)
    show "present (tables s (pml4_table L) i) \<Longrightarrow> table_from_entry (tables s (pml4_table L) i) \<in> pdpt_set L s" for i
      using inv by (simp add: vmm_inv_def)
    show "table_from_entry (tables s' t j) \<in> pd_set L s" "tables s' t j AND PTE_HUGE = 0"
      if "t \<in> pdpt_set L s" "present (tables s' t j)" for t j
      using that inv by (simp_all add: vmm_inv_def T3)
    show "i = i'" if "present (tables s (pml4_table L) i) \<and> present (tables s (pml4_table L) i') \<and>
      table_from_entry (tables s (pml4_table L) i) = table_from_entry (tables s (pml4_table L) i')" for i i'
      using vmm_inv_pml4_inj [OF inv] that by blast
    show "t = t'" "j = j'" if "t \<in> pdpt_set L s" "t' \<in> pdpt_set L s"
      "present (tables s' t j) \<and> present (tables s' t' j') \<and> table_from_entry (tables s' t j) = table_from_entry (tables s' t' j')"
      for t t' j j'
      using vmm_inv_pd_inj [OF inv that(1,2)] that(3) unfolding T3 [OF that(1)] T3 [OF that(2)] by blast+
    fix va assume "va < LOWER_HALF_LIMIT"
      and "present (pml4e L s' va) \<and> present (pdpte L s' va) \<and> present (pde L s' va)"
    then show "bit (pde L s' va) 7" "pde L s' va AND 0x000fffffffe00000 = va AND HUGE_PAGE_MASK"
      using I5 [of va] w1 w2 [of va] by auto
  qed
  moreover have "same_walk L s s'"
  proof (rule same_walkI)
    fix va assume va: "present (pml4e L s va)" "present (pdpte L s va)" "present (pde L s va)"
    show "page_grows (pde L s va) (pde L s' va)"
      using E [OF va(1)] va(3) or_flags_page(1) [OF fl, of ?e] by (auto simp: pde_def)
  qed (simp_all add: w1 w2)
  ultimately show "vmm_inv L s' \<and> same_walk L s s'" by blast
qed

subsection \<open>Mapping a page\<close>

lemma page_bits:
  assumes "va AND HUGE_PAGE_MASK = a"
  shows "a AND HUGE_PAGE_MASK = a" "idx4 va = idx4 a" "idx3 va = idx3 a" "idx2 va = idx2 a"
    "(va AND HUGE_PAGE_MASK) OR (va AND 0x1fffff) = va"
    "a < LOWER_HALF_LIMIT \<Longrightarrow> va < LOWER_HALF_LIMIT"
proof -
  have b: "bit a n \<longleftrightarrow> bit va n" if "21 \<le> n" for n
    using that bit_imp_le_length [of va n] unfolding assms [symmetric] by (auto simp: mask_consts bit_ops)
  show "a AND HUGE_PAGE_MASK = a" unfolding assms [symmetric] by (simp add: and.assoc)
  show "idx4 va = idx4 a" "idx3 va = idx3 a" "idx2 va = idx2 a"
    by (rule bit_eqI, simp add: bit_idx b)+
  show "(va AND HUGE_PAGE_MASK) OR (va AND 0x1fffff) = va"
    unfolding mask_consts by (rule bit_eqI) (auto simp: bit_ops)
  show "va < LOWER_HALF_LIMIT" if "a < LOWER_HALF_LIMIT"
    by (rule bits_lower_half) (use b lower_half_bits [OF that] in force)
qed

lemma map_huge_identity_spec:
  assumes L: "layout_ok L" and inv: "vmm_inv L s" and fl: "flags_ok flags"
    and m: "map_huge_identity L addr flags s = (r, s')"
  shows "vmm_inv L s' \<and> same_walk L s s'" and "r = 0 \<or> r = -1"
    and "r = 0 \<Longrightarrow> va AND HUGE_PAGE_MASK = addr AND HUGE_PAGE_MASK \<Longrightarrow>
      translate L s' va = Some va \<and> (bit flags 2 \<longrightarrow> user_ok L s' va)"
proof -
  let ?a = "addr AND HUGE_PAGE_MASK"
  have refl: "same_walk L s s" by (simp add: same_walk_def)
  have al: "?a AND HUGE_PAGE_MASK = ?a" by (simp add: and.assoc)
  have "(vmm_inv L s' \<and> same_walk L s s') \<and> (r = 0 \<or> r = -1) \<and>
    (r = 0 \<longrightarrow> (\<forall>va. va AND HUGE_PAGE_MASK = ?a \<longrightarrow> translate L s' va = Some va \<and> (bit flags 2 \<longrightarrow> user_ok L s' va)))"
  proof (cases "?a \<ge> LOWER_HALF_LIMIT")
    case True
    then show ?thesis using m inv refl by (simp add: map_huge_identity_def Let_def)
  next
    case False
    then have lt: "?a < LOWER_HALF_LIMIT" by simp
    show ?thesis
    proof (cases "link_pdpt L (idx4 ?a) flags s")
      case None
      then show ?thesis using m inv refl False by (simp add: map_huge_identity_def Let_def)
    next
      case (Some s1)
      note P = link_pdpt_spec [OF L inv Some]
      have inv1: "vmm_inv L s1" and w1: "same_walk L s s1" using P(1) by auto
      let ?pdpt = "table_from_entry (tables s1 (pml4_table L) (idx4 ?a))"
      have in1: "?pdpt \<in> pdpt_set L s1"
        using vmm_walk_sets(1) [OF inv1, of ?a] P(2) by (simp add: pml4e_def)
      show ?thesis
      proof (cases "link_pd L ?pdpt (idx3 ?a) flags s1")
        case None
        then show ?thesis using m inv1 w1 False Some by (simp add: map_huge_identity_def Let_def)
      next
        case S2: (Some s2)
        note Q = link_pd_spec [OF L inv1 in1 S2]
        have inv2: "vmm_inv L s2" and w2: "same_walk L s1 s2" using Q(1) by auto
        have e4: "pml4e L s2 ?a = tables s1 (pml4_table L) (idx4 ?a)" by (simp add: pml4e_def Q(2))
        then have e3: "pdpte L s2 ?a = tables s2 ?pdpt (idx3 ?a)" by (simp add: pdpte_def)
        have p: "present (pml4e L s2 ?a)" "present (pdpte L s2 ?a)" using P(2) Q(3) e4 e3 by auto
        have r: "r = 0" and s': "s' = set_pde (table_from_entry (pdpte L s2 ?a)) (idx2 ?a) ?a flags s2"
          using m False Some S2 e3 by (auto simp: map_huge_identity_def Let_def)
        note R = set_pde_spec [OF L inv2 fl lt al p s']
        have inv': "vmm_inv L s'" and w3: "same_walk L s2 s'" using R(1) by auto
        have "translate L s' va = Some va \<and> (bit flags 2 \<longrightarrow> user_ok L s' va)" if va: "va AND HUGE_PAGE_MASK = ?a" for va
        proof -
          note B = page_bits [OF va]
          have E: "pml4e L s' va = pml4e L s2 ?a" "pdpte L s' va = pdpte L s2 ?a" "pde L s' va = pde L s' ?a"
            using R(2) R(3) [OF p(1)] B(2-4) by (simp_all add: pml4e_def pdpte_def pde_def)
          have pr: "present (pml4e L s' va)" "present (pdpte L s' va)" "present (pde L s' va)" using E p R(4) by auto
          have "table_from_entry (pml4e L s' va) \<in> pdpt_set L s'" by (rule vmm_walk_sets(1) [OF inv' pr(1)])
          then have "pdpte L s' va AND PTE_HUGE = 0" using inv' pr(2) by (simp add: vmm_inv_def pdpte_def)
          moreover have "pde L s' va AND PTE_HUGE \<noteq> 0" "pde L s' va AND 0x000fffffffe00000 = va AND HUGE_PAGE_MASK"
            using vmm_inv_leaf [OF inv' B(6) [OF lt] pr] huge_bit by auto
          ultimately have "translate L s' va = Some va" using pr B(5) by (simp add: translate_def)
          moreover have "user_ok L s' va" if "bit flags 2"
            using P(3) [OF that] Q(4) [OF that] R(5) [OF that] E e4 e3 by (simp add: user_ok_def user_bit)
          ultimately show ?thesis by blast
        qed
        then show ?thesis using r inv' same_walk_trans [OF same_walk_trans [OF w1 w2] w3] by simp
      qed
    qed
  qed
  then show "vmm_inv L s' \<and> same_walk L s s'" and "r = 0 \<or> r = -1"
    and "r = 0 \<Longrightarrow> va AND HUGE_PAGE_MASK = addr AND HUGE_PAGE_MASK \<Longrightarrow>
      translate L s' va = Some va \<and> (bit flags 2 \<longrightarrow> user_ok L s' va)" by blast+
qed

subsection \<open>Mapping a range\<close>

lemma unat_huge_mask: "unat (va AND HUGE_PAGE_MASK) = unat va div 2 ^ 21 * 2 ^ 21"
proof -
  have "va AND HUGE_PAGE_MASK = push_bit 21 (drop_bit 21 va)"
    unfolding mask_consts by (rule bit_eqI) (auto simp: bit_ops)
  moreover have "unat va div 2 ^ 21 * 2 ^ 21 < 2 ^ 64"
    using le_less_trans [OF div_times_less_eq_dividend, of "unat va" "2 ^ 64" "2 ^ 21"] unsigned_less [of va, where ?'a = nat] by simp
  moreover have "unat (push_bit 21 (drop_bit 21 va)) = take_bit 64 (push_bit 21 (drop_bit 21 (unat va)))"
    by (simp only: unsigned_push_bit_eq unat_drop_bit_eq) simp
  ultimately show ?thesis
    by (simp only: drop_bit_eq_div push_bit_eq_mult take_bit_nat_eq_self)
qed

lemma same_page:
  assumes "a AND HUGE_PAGE_MASK = a" and "unat a \<le> unat va" and "unat va < unat a + 2 ^ 21"
  shows "va AND HUGE_PAGE_MASK = a"
proof -
  obtain k where k: "unat a = k * 2 ^ 21" using unat_huge_mask [of a] assms(1) by metis
  have "unat va div 2 ^ 21 = k" using assms(2,3) k by (intro div_nat_eqI) auto
  then show ?thesis using unat_huge_mask [of va] k by (intro word_unat_eq_iff [THEN iffD2]) simp
qed

lemma huge_step:
  assumes "a AND HUGE_PAGE_MASK = a" and "unat a + 2 ^ 21 < 2 ^ 64"
  shows "unat (a + HUGE_PAGE_SIZE) = unat a + 2 ^ 21" "(a + HUGE_PAGE_SIZE) AND HUGE_PAGE_MASK = a + HUGE_PAGE_SIZE"
proof -
  show u: "unat (a + HUGE_PAGE_SIZE) = unat a + 2 ^ 21"
    using assms(2) by (subst unat_add_lem [THEN iffD1]) (simp_all add: HUGE_PAGE_SIZE_def)
  obtain k where k: "unat a = k * 2 ^ 21" using unat_huge_mask [of a] assms(1) by metis
  have "unat ((a + HUGE_PAGE_SIZE) AND HUGE_PAGE_MASK) = unat (a + HUGE_PAGE_SIZE)"
    unfolding unat_huge_mask u k by simp
  then show "(a + HUGE_PAGE_SIZE) AND HUGE_PAGE_MASK = a + HUGE_PAGE_SIZE" by (simp only: word_unat_eq_iff)
qed

lemma map_range_loop_spec:
  assumes L: "layout_ok L" and fl: "flags_ok flags" and e: "unat end_addr \<le> 2 ^ 47"
    and al: "addr AND HUGE_PAGE_MASK = addr" and inv: "vmm_inv L s"
  shows "\<exists>r s'. map_range_loop L addr end_addr flags s = Some (r, s') \<and> vmm_inv L s' \<and> same_walk L s s' \<and>
     (r = 0 \<or> r = -1) \<and> (r = 0 \<longrightarrow> (\<forall>va. addr \<le> va \<and> va < end_addr \<longrightarrow>
       translate L s' va = Some va \<and> (bit flags 2 \<longrightarrow> user_ok L s' va)))"
  using al inv
proof (induction "unat end_addr - unat addr" arbitrary: addr s rule: less_induct)
  case less
  show ?case
  proof (cases "addr < end_addr")
    case False
    have "same_walk L s s" by (simp add: same_walk_def)
    then show ?thesis using False less.prems by (subst map_range_loop.simps) auto
  next
    case True
    obtain r1 s1 where m: "map_huge_identity L addr flags s = (r1, s1)" by fastforce
    note M = map_huge_identity_spec [OF L less.prems(2) fl m]
    have inv1: "vmm_inv L s1" and w1: "same_walk L s s1" using M(1) by auto
    show ?thesis
    proof (cases "r1 < 0")
      case neg: True
      then show ?thesis using True m inv1 w1 by (subst map_range_loop.simps) auto
    next
      case False
      then have r1: "r1 = 0" using M(2) by auto
      let ?n = "addr + HUGE_PAGE_SIZE"
      have lt: "unat addr < unat end_addr" using True by (simp add: word_less_nat_alt)
      have "unat addr + 2 ^ 21 < 2 ^ 64" using lt e by simp
      note N = huge_step [OF less.prems(1) this]
      have "unat end_addr - unat ?n < unat end_addr - unat addr" using lt N(1) by simp
      from less.hyps [OF this N(2) inv1] obtain r s' where
        R: "map_range_loop L ?n end_addr flags s1 = Some (r, s')" "vmm_inv L s'" "same_walk L s1 s'"
           "r = 0 \<or> r = -1" "r = 0 \<longrightarrow> (\<forall>va. ?n \<le> va \<and> va < end_addr \<longrightarrow>
              translate L s' va = Some va \<and> (bit flags 2 \<longrightarrow> user_ok L s' va))" by blast
      have "translate L s' va = Some va \<and> (bit flags 2 \<longrightarrow> user_ok L s' va)"
        if "r = 0" "addr \<le> va" "va < end_addr" for va
      proof (cases "?n \<le> va")
        case True
        then show ?thesis using R(5) that by blast
      next
        case nn: False
        have "va AND HUGE_PAGE_MASK = addr"
          using that nn N(1) by (intro same_page [OF less.prems(1)]) (auto simp: word_le_nat_alt)
        then have "translate L s1 va = Some va \<and> (bit flags 2 \<longrightarrow> user_ok L s1 va)"
          using M(3) [OF r1] less.prems(1) by simp
        then show ?thesis using R(3) by (auto simp: same_walk_def)
      qed
      moreover have "map_range_loop L addr end_addr flags s = Some (r, s')"
        using True m r1 R(1) by (subst map_range_loop.simps) simp
      ultimately show ?thesis using R(2,4) same_walk_trans [OF w1 R(3)] by blast
    qed
  qed
qed

subsection \<open>Reachable tables\<close>

inductive vmm_reach :: "vmm_layout \<Rightarrow> vmm_state \<Rightarrow> bool" for L where
  boot: "vmm_reach L (vmm_boot L)"
| page: "vmm_reach L s \<Longrightarrow> flags_ok flags \<Longrightarrow> vmm_map_page L virt phys flags s = (r, s') \<Longrightarrow> vmm_reach L s'"
| range: "vmm_reach L s \<Longrightarrow> flags_ok flags \<Longrightarrow>
    vmm_map_range_identity L phys len flags s = Some (r, s') \<Longrightarrow> vmm_reach L s'"

lemma vmm_map_page_spec:
  assumes "layout_ok L" "vmm_inv L s" "flags_ok flags" "vmm_map_page L virt phys flags s = (r, s')"
  shows "vmm_inv L s' \<and> same_walk L s s'"
  using assms map_huge_identity_spec(1) [OF assms(1-3)]
  by (auto simp: vmm_map_page_def same_walk_def split: if_splits)

lemma vmm_map_range_spec:
  assumes L: "layout_ok L" and inv: "vmm_inv L s" and fl: "flags_ok flags"
  shows "\<exists>r s'. vmm_map_range_identity L phys len flags s = Some (r, s') \<and> vmm_inv L s' \<and> same_walk L s s' \<and>
     (r = 0 \<or> r = -1) \<and> (r = 0 \<and> unat phys + unat len + 2 ^ 21 \<le> 2 ^ 64 \<longrightarrow>
       (\<forall>va. phys \<le> va \<and> unat va < unat phys + unat len \<longrightarrow>
          translate L s' va = Some va \<and> (bit flags 2 \<longrightarrow> user_ok L s' va)))"
proof -
  let ?b = "phys AND HUGE_PAGE_MASK"
  let ?e = "(phys + len + HUGE_PAGE_SIZE - 1) AND HUGE_PAGE_MASK"
  have refl: "same_walk L s s" by (simp add: same_walk_def)
  consider "len = 0" | "len \<noteq> 0" "?e < ?b \<or> ?e > LOWER_HALF_LIMIT" | "len \<noteq> 0" "\<not> (?e < ?b \<or> ?e > LOWER_HALF_LIMIT)"
    by blast
  then show ?thesis
  proof cases
    case 1
    then show ?thesis using inv refl by (auto simp: vmm_map_range_identity_def word_le_nat_alt)
  next
    case 2
    then show ?thesis using inv refl by (simp add: vmm_map_range_identity_def Let_def)
  next
    case 3
    have "unat ?e \<le> 2 ^ 47" using 3(2) by (simp add: LOWER_HALF_LIMIT_def word_le_nat_alt not_less)
    moreover have "?b AND HUGE_PAGE_MASK = ?b" by (simp add: and.assoc)
    ultimately obtain r s' where R: "map_range_loop L ?b ?e flags s = Some (r, s')" "vmm_inv L s'" "same_walk L s s'"
       "r = 0 \<or> r = -1" "r = 0 \<longrightarrow> (\<forall>va. ?b \<le> va \<and> va < ?e \<longrightarrow>
         translate L s' va = Some va \<and> (bit flags 2 \<longrightarrow> user_ok L s' va))"
      using map_range_loop_spec [OF L fl _ _ inv] by blast
    have "?b \<le> va \<and> va < ?e" if "unat phys + unat len + 2 ^ 21 \<le> 2 ^ 64" "phys \<le> va" "unat va < unat phys + unat len" for va
    proof
      show "?b \<le> va" using that(2) unfolding word_le_nat_alt unat_huge_mask by (rule le_trans [OF div_times_less_eq_dividend])
      have w: "phys + len + HUGE_PAGE_SIZE - 1 = word_of_nat (unat phys + unat len + (2 ^ 21 - 1))"
        by (simp add: HUGE_PAGE_SIZE_def)
      have "unat (phys + len + HUGE_PAGE_SIZE - 1) = unat phys + unat len + (2 ^ 21 - 1)"
        unfolding w unat_of_nat using that(1) by (intro mod_less) simp
      then have "unat ?e = (unat phys + unat len + (2 ^ 21 - 1)) div 2 ^ 21 * 2 ^ 21" by (simp only: unat_huge_mask)
      moreover have "n \<le> (n + (2 ^ 21 - 1)) div 2 ^ 21 * 2 ^ 21" for n :: nat
      proof -
        have "n + (2 ^ 21 - 1) = (n + (2 ^ 21 - 1)) div 2 ^ 21 * 2 ^ 21 + (n + (2 ^ 21 - 1)) mod 2 ^ 21"
          by (rule div_mult_mod_eq [symmetric])
        moreover have "(n + (2 ^ 21 - 1)) mod 2 ^ 21 < 2 ^ 21" by (rule mod_less_divisor) simp
        ultimately show ?thesis by linarith
      qed
      ultimately show "va < ?e" using that(3) by (simp only: word_less_nat_alt less_le_trans)
    qed
    then show ?thesis using R 3 by (auto simp: vmm_map_range_identity_def Let_def)
  qed
qed

lemma vmm_boot_inv:
  assumes L: "layout_ok L"
  shows "vmm_inv L (vmm_boot L)"
proof -
  let ?s = "vmm_boot L"
  note D = layout_facts(1-3) [OF L] note A = layout_aligned(3,4) [OF L]
  have or3: "t OR 3 = t OR PTE_PRESENT OR PTE_WRITABLE OR (0 AND PTE_USER)" for t :: u64
    by (simp add: vmm_consts or.assoc)
  note E4 = bits_new_table [OF A(1), of 0, folded or3]
  note E3 = bits_new_table [OF A(2), of 0, folded or3]
  have T4: "tables ?s (pml4_table L) i = (if i = 0 then boot_pdpt_table L OR 3 else 0)" for i by (simp add: vmm_boot_def)
  have T3: "tables ?s (boot_pdpt_table L) i = (if i = 0 then boot_pd_table L OR 3 else 0)" for i
    using D by (simp add: vmm_boot_def)
  have T2: "tables ?s (boot_pd_table L) i = (if i < 512 then push_bit 21 i OR 0x83 else 0)" for i
    using D by (simp add: vmm_boot_def)
  have sets: "pdpt_set L ?s = {boot_pdpt_table L}" "pd_set L ?s = {boot_pd_table L}"
    by (simp_all add: pdpt_set_def pd_set_def vmm_boot_def)
  have leaf: "bit (pde L ?s va) 7 \<and> pde L ?s va AND 0x000fffffffe00000 = va AND HUGE_PAGE_MASK"
    if va: "va < LOWER_HALF_LIMIT" "present (pml4e L ?s va)" "present (pdpte L ?s va)" "present (pde L ?s va)" for va
  proof -
    have i4: "idx4 va = 0" using va(2) by (auto simp: pml4e_def T4 split: if_splits)
    then have p4: "table_from_entry (pml4e L ?s va) = boot_pdpt_table L" by (simp add: pml4e_def T4 E4)
    then have i3: "idx3 va = 0" using va(3) by (auto simp: pdpte_def T3 split: if_splits)
    then have p3: "table_from_entry (pdpte L ?s va) = boot_pd_table L" using p4 by (simp add: pdpte_def T3 E3)
    have e: "pde L ?s va = push_bit 21 (idx2 va) OR 0x83"
      using p3 va(4) by (auto simp: pde_def T2 split: if_splits)
    have c: "(0x83 :: u64) = PTE_PRESENT OR PTE_WRITABLE OR PTE_HUGE" by (simp add: vmm_consts)
    have hi: "\<not> bit va n" if "30 \<le> n" for n
    proof -
      have z: "\<not> bit (idx4 va) m" "\<not> bit (idx3 va) m" for m using i4 i3 by simp_all
      consider "n < 39" | "39 \<le> n" "n < 48" | "47 \<le> n" by linarith
      then show ?thesis
        using z(1) [of "n - 39"] z(2) [of "n - 30"] lower_half_bits [OF va(1), of n] that by cases (auto simp: bit_idx)
    qed
    have "bit (pde L ?s va) 7" unfolding e c by (simp add: bit_ops)
    moreover have "pde L ?s va AND 0x000fffffffe00000 = va AND HUGE_PAGE_MASK"
      unfolding e c mask_consts
    proof (rule bit_eqI)
      fix n
      show "bit ((push_bit 21 (idx2 va) OR PTE_PRESENT OR PTE_WRITABLE OR PTE_HUGE) AND push_bit 21 (mask 31)) n =
          bit (va AND NOT (mask 21)) n"
        using hi [of n] by (cases "30 \<le> n") (auto simp: bit_ops bit_idx dest: bit_imp_le_length)
    qed
    ultimately show ?thesis by blast
  qed
  have "next_pdpt_table ?s = 0" "next_pd_table ?s = 0" by (simp_all add: vmm_boot_def)
  then show ?thesis
    unfolding vmm_inv_def sets using E4 E3 leaf by (auto simp: T4 T3 split: if_splits)
qed

lemma vmm_reach_inv: "vmm_reach L s \<Longrightarrow> layout_ok L \<Longrightarrow> vmm_inv L s \<and> same_walk L (vmm_boot L) s"
proof (induction rule: vmm_reach.induct)
  case boot
  then show ?case by (simp add: vmm_boot_inv same_walk_def)
next
  case (page s flags virt phys r s')
  then have "vmm_inv L s" and b: "same_walk L (vmm_boot L) s" by auto
  from vmm_map_page_spec [OF page.prems this(1) page.hyps(2,3)] show ?case using same_walk_trans [OF b] by blast
next
  case (range s flags phys len r s')
  then have "vmm_inv L s" and b: "same_walk L (vmm_boot L) s" by auto
  from vmm_map_range_spec [OF range.prems this(1) range.hyps(2), of phys len] range.hyps(3)
  have "vmm_inv L s'" "same_walk L s s'" by auto
  then show ?case using same_walk_trans [OF b] by blast
qed

lemma vmm_boot_translate:
  assumes L: "layout_ok L" and va: "unat va < 2 ^ 30"
  shows "translate L (vmm_boot L) va = Some va"
proof -
  note D = layout_facts(1-3) [OF L] note A = layout_aligned(3,4) [OF L]
  let ?s = "vmm_boot L"
  have or3: "t OR 3 = t OR PTE_PRESENT OR PTE_WRITABLE OR (0 AND PTE_USER)" for t :: u64
    by (simp add: vmm_consts or.assoc)
  note E4 = bits_new_table [OF A(1), of 0, folded or3]
  note E3 = bits_new_table [OF A(2), of 0, folded or3]
  have hi: "\<not> bit va n" if "30 \<le> n" for n
  proof
    assume "bit va n"
    then have "bit (unat va) n" by (simp add: bit_unsigned_iff)
    moreover have "unat va < 2 ^ n" using va that by (meson less_le_trans power_increasing one_le_numeral)
    ultimately show False by (simp add: bit_iff_odd)
  qed
  then have i: "idx4 va = 0" "idx3 va = 0" by (auto simp: bit_eq_iff bit_idx)
  have p4: "pml4e L ?s va = boot_pdpt_table L OR 3" by (simp add: pml4e_def vmm_boot_def i)
  then have p3: "pdpte L ?s va = boot_pd_table L OR 3" using E4(1) D by (simp add: pdpte_def vmm_boot_def i)
  have lt: "idx2 va < 512"
    unfolding idx2_def mask_consts using and_mask_less_size [of 9 "drop_bit 21 va"] by (simp add: word_size)
  have e: "pde L ?s va = push_bit 21 (idx2 va) OR 0x83" using p3 E3(1) D lt by (simp add: pde_def vmm_boot_def)
  have c: "(0x83 :: u64) = PTE_PRESENT OR PTE_WRITABLE OR PTE_HUGE" by (simp add: vmm_consts)
  have pr: "present (pde L ?s va)" "bit (pde L ?s va) 7" unfolding e c present_bit by (simp_all add: bit_ops)
  have low: "va < LOWER_HALF_LIMIT" using va by (simp add: LOWER_HALF_LIMIT_def word_less_nat_alt)
  have "pde L ?s va AND 0x000fffffffe00000 = va AND HUGE_PAGE_MASK"
    using vmm_inv_leaf(2) [OF vmm_boot_inv [OF L] low] p4 p3 E4(2) E3(2) pr(1) by simp
  then show ?thesis
    using p4 p3 E4(2) E3(2,4) pr page_bits(5) [OF refl, of va] huge_bit by (simp add: translate_def)
qed

subsection \<open>Properties\<close>

text \<open>
  C6: the kernel address space is an identity map.  In every state reached from the tables of
  \<open>start.S\<close> by \<open>vmm_map_page\<close> and \<open>vmm_map_range_identity\<close> (with flag bits below bit 12), an
  address of the lower half is either unmapped or mapped to itself, and the first GiB stays
  mapped.
\<close>

theorem vmm_identity:
  assumes "layout_ok L" and "vmm_reach L s" and "va < LOWER_HALF_LIMIT"
  shows "translate L s va \<in> {None, Some va} \<and> (unat va < 2 ^ 30 \<longrightarrow> translate L s va = Some va)"
proof -
  have inv: "vmm_inv L s" and w: "same_walk L (vmm_boot L) s" using vmm_reach_inv assms by auto
  have "translate L s va = None \<or> translate L s va = Some va"
    using vmm_inv_leaf(2) [OF inv assms(3)] page_bits(5) [OF refl, of va] by (auto simp: translate_def)
  moreover have "translate L s va = Some va" if "unat va < 2 ^ 30"
    using vmm_boot_translate [OF assms(1) that] w by (auto simp: same_walk_def)
  ultimately show ?thesis by blast
qed

text \<open>
  \<open>vmm_map_range_identity\<close> always returns; when it returns 0 every address of the range is
  mapped to itself, accessible from user mode if the caller asked for it, and whether it
  succeeds or runs out of tables, no earlier mapping is lost or loses user access.  The range
  must not wrap around the address space when rounded up to 2 MiB.
\<close>

lemma vmm_map_range_correct:
  assumes "layout_ok L" and "vmm_reach L s" and "flags AND NOT (mask 12) = 0"
    and "unat phys + unat len + 2 ^ 21 \<le> 2 ^ 64"
  shows "\<exists>r s'. vmm_map_range_identity L phys len flags s = Some (r, s') \<and> (r = 0 \<or> r = -1) \<and>
     (r = 0 \<longrightarrow> (\<forall>va. phys \<le> va \<and> unat va < unat phys + unat len \<longrightarrow>
        translate L s' va = Some va \<and> (flags AND PTE_USER \<noteq> 0 \<longrightarrow> user_ok L s' va))) \<and>
     (\<forall>va. translate L s va \<noteq> None \<longrightarrow>
        translate L s' va = translate L s va \<and> (user_ok L s va \<longrightarrow> user_ok L s' va))"
proof -
  have "vmm_inv L s" using vmm_reach_inv assms by auto
  from vmm_map_range_spec [OF assms(1) this, of flags phys len] obtain r s' where
    R: "vmm_map_range_identity L phys len flags s = Some (r, s')" "same_walk L s s'" "r = 0 \<or> r = -1"
     "r = 0 \<longrightarrow> (\<forall>va. phys \<le> va \<and> unat va < unat phys + unat len \<longrightarrow>
        translate L s' va = Some va \<and> (bit flags 2 \<longrightarrow> user_ok L s' va))"
    using assms(3,4) unfolding flags_ok_def by blast
  show ?thesis
    using R unfolding user_bit same_walk_def by (intro exI [of _ r] exI [of _ s']) blast
qed

definition layout_example :: vmm_layout where
  "layout_example = \<lparr>pml4_table = 0x101000, boot_pdpt_table = 0x102000, boot_pd_table = 0x103000,
     extra_pdpt_tables = 0x110000, extra_pd_tables = 0x120000\<rparr>"

lemma layout_example_ok: "layout_ok layout_example"
  by (simp add: layout_ok_def layout_tables_def pdpt_addr_def pd_addr_def TABLE_ADDR_MASK_def layout_example_def upt_rec)

theorem vmm_identity_witness: "translate layout_example (vmm_boot layout_example) 0x200123 = Some 0x200123"
  using vmm_identity [OF layout_example_ok vmm_reach.boot, of "0x200123"] by (simp add: LOWER_HALF_LIMIT_def)

text \<open>
  The hypothesis on the range is needed: a length close to \<open>SIZE_MAX\<close> wraps, the rounded end
  equals the start, and the call returns 0 without mapping anything.
\<close>

lemma vmm_range_wraps:
  "vmm_map_range_identity L 0x40000000 0xffffffffffffffff flags s = Some (0, s)"
proof -
  have e: "((0x40000000 :: u64) + 0xffffffffffffffff + HUGE_PAGE_SIZE - 1) AND HUGE_PAGE_MASK = 0x40000000"
    and b: "(0x40000000 :: u64) AND HUGE_PAGE_MASK = 0x40000000"
    by (simp_all add: HUGE_PAGE_MASK_def HUGE_PAGE_SIZE_def)
  show ?thesis
    unfolding vmm_map_range_identity_def Let_def e b
    by (simp add: LOWER_HALF_LIMIT_def map_range_loop.simps)
qed

end
