(* ===== verification/Crypto.thy ===== *)
theory Crypto
  imports Prelude
begin

text \<open>
  The kernel's cryptography, \<^verbatim>\<open>src/kernel/lib/crypto.c\<close>: streaming SHA-1, HMAC, PBKDF2, the WPA
  pseudo-random function and AES-128 encryption of a block.  Byte arrays are lists.  The loops
  of \<open>sha1_update\<close> and \<open>sha1_final\<close> end only for contexts with \<open>used < 64\<close>, so they are partial
  functions; the theorems show that they return on every context the API can produce.
\<close>

subsection \<open>SHA-1\<close>

record sha1_ctx =
  h_of :: "u32 list"
  bytes_of_ctx :: u64
  block :: "u8 list"
  used :: nat

definition rol32 :: "u32 \<Rightarrow> nat \<Rightarrow> u32" where
  "rol32 v n = push_bit n v OR drop_bit (32 - n) v"

definition load_be32 :: "u8 list \<Rightarrow> u32" where
  "load_be32 p = push_bit 24 (ucast (p ! 0)) OR push_bit 16 (ucast (p ! 1)) OR push_bit 8 (ucast (p ! 2)) OR ucast (p ! 3)"

definition store_be32 :: "u32 \<Rightarrow> u8 list" where
  "store_be32 v = [ucast (drop_bit 24 v), ucast (drop_bit 16 v), ucast (drop_bit 8 v), ucast v]"

definition store_be64 :: "u64 \<Rightarrow> u8 list" where
  "store_be64 v = fst (foldr (\<lambda>i (p, v). (p[i := ucast v], drop_bit 8 v)) [0..<8] (replicate 8 0, v))"

definition sha1_schedule :: "u8 list \<Rightarrow> u32 list" where
  "sha1_schedule blk =
     fold (\<lambda>i w. w @ [rol32 (w ! (i - 3) XOR w ! (i - 8) XOR w ! (i - 14) XOR w ! (i - 16)) 1]) [16..<80]
       (map (\<lambda>i. load_be32 (drop (i * 4) blk)) [0..<16])"

definition sha1_round :: "u32 list \<Rightarrow> nat \<Rightarrow> u32 \<times> u32 \<times> u32 \<times> u32 \<times> u32 \<Rightarrow> u32 \<times> u32 \<times> u32 \<times> u32 \<times> u32" where
  "sha1_round w i = (\<lambda>(a, b, c, d, e).
     let (f, k) =
       (if i < 20 then ((b AND c) OR (NOT b AND d), 0x5a827999)
        else if i < 40 then (b XOR c XOR d, 0x6ed9eba1)
        else if i < 60 then ((b AND c) OR (b AND d) OR (c AND d), 0x8f1bbcdc)
        else (b XOR c XOR d, 0xca62c1d6));
         t = rol32 a 5 + f + e + k + w ! i
     in (t, a, rol32 b 30, c, d))"

definition sha1_transform :: "u32 list \<Rightarrow> u8 list \<Rightarrow> u32 list" where
  "sha1_transform h blk =
     (let w = sha1_schedule blk;
          (a, b, c, d, e) = fold (sha1_round w) [0..<80] (h ! 0, h ! 1, h ! 2, h ! 3, h ! 4)
      in [h ! 0 + a, h ! 1 + b, h ! 2 + c, h ! 3 + d, h ! 4 + e])"

definition sha1_init :: sha1_ctx where
  "sha1_init = \<lparr>h_of = [0x67452301, 0xefcdab89, 0x98badcfe, 0x10325476, 0xc3d2e1f0],
     bytes_of_ctx = 0, block = replicate 64 0, used = 0\<rparr>"

text \<open>One iteration of the loop of \<open>sha1_update\<close>: the new context and the bytes that are left.\<close>

definition sha1_update_step :: "sha1_ctx \<Rightarrow> u8 list \<Rightarrow> sha1_ctx \<times> u8 list" where
  "sha1_update_step c p =
     (let n0 = szsub 64 (used c);
          n = (if n0 > length p then length p else n0);
          blk = take (used c) (block c) @ take n p @ drop (used c + n) (block c);
          c1 = c\<lparr>block := blk, used := used c + n\<rparr>;
          c2 = (if used c1 = 64 then c1\<lparr>h_of := sha1_transform (h_of c1) (block c1), used := 0\<rparr> else c1)
      in (c2, drop n p))"

partial_function (option) sha1_update_loop :: "sha1_ctx \<Rightarrow> u8 list \<Rightarrow> sha1_ctx option" where
  [code]: "sha1_update_loop c p =
     (if p = [] then Some c
      else let (c', p') = sha1_update_step c p in sha1_update_loop c' p')"

definition sha1_update :: "sha1_ctx \<Rightarrow> u8 list \<Rightarrow> sha1_ctx option" where
  "sha1_update c p = sha1_update_loop (c\<lparr>bytes_of_ctx := bytes_of_ctx c + of_nat (length p)\<rparr>) p"

partial_function (option) sha1_pad_loop :: "sha1_ctx \<Rightarrow> sha1_ctx option" where
  [code]: "sha1_pad_loop c =
     (if used c \<noteq> 56 then Option.bind (sha1_update c [0]) (\<lambda>c'. sha1_pad_loop c') else Some c)"

definition sha1_final :: "sha1_ctx \<Rightarrow> u8 list option" where
  "sha1_final c =
     (let bits = bytes_of_ctx c * 8 in
      Option.bind (sha1_update c [0x80]) (\<lambda>c1.
      Option.bind (sha1_pad_loop c1) (\<lambda>c2.
      Option.bind (sha1_update c2 (store_be64 bits)) (\<lambda>c3.
        Some (concat (map (\<lambda>i. store_be32 (h_of c3 ! i)) [0..<5]))))))"

definition tnu_sha1 :: "u8 list \<Rightarrow> u8 list option" where
  "tnu_sha1 data = Option.bind (sha1_update sha1_init data) sha1_final"

subsection \<open>HMAC, PBKDF2 and the WPA functions\<close>

definition tnu_hmac_sha1 :: "u8 list \<Rightarrow> u8 list \<Rightarrow> u8 list option" where
  "tnu_hmac_sha1 key data =
     Option.bind (if length key > 64 then map_option (\<lambda>digest. digest @ replicate 44 0) (tnu_sha1 key)
                  else Some (key @ replicate (64 - length key) 0)) (\<lambda>k0.
       let ipad = map (\<lambda>b. b XOR 0x36) k0;
           opad = map (\<lambda>b. b XOR 0x5c) k0
       in Option.bind (sha1_update sha1_init ipad) (\<lambda>c1.
          Option.bind (sha1_update c1 data) (\<lambda>c2.
          Option.bind (sha1_final c2) (\<lambda>digest.
          Option.bind (sha1_update sha1_init opad) (\<lambda>c3.
          Option.bind (sha1_update c3 digest) (\<lambda>c4.
            sha1_final c4))))))"

text \<open>The inner loop of PBKDF2: \<open>n\<close> more rounds on \<open>(u, t)\<close>.\<close>

primrec pbkdf2_rounds :: "nat \<Rightarrow> u8 list \<Rightarrow> u8 list \<Rightarrow> u8 list \<Rightarrow> (u8 list \<times> u8 list) option" where
  "pbkdf2_rounds 0 pass u t = Some (u, t)"
| "pbkdf2_rounds (Suc n) pass u t =
     Option.bind (tnu_hmac_sha1 pass u) (\<lambda>u'. pbkdf2_rounds n pass u' (map2 (XOR) t u'))"

definition pbkdf2_block :: "u8 list \<Rightarrow> u8 list \<Rightarrow> u32 \<Rightarrow> u32 \<Rightarrow> u8 list option" where
  "pbkdf2_block pass ssid iterations blk =
     Option.bind (tnu_hmac_sha1 pass (ssid @ store_be32 blk)) (\<lambda>u.
       map_option snd (pbkdf2_rounds (unat iterations - 1) pass u u))"

text \<open>
  The outer loop; \<open>out\<close> holds what has been written so far.  The salt buffer has 36 bytes: a
  longer salt overruns it, which is \<open>None\<close> here.
\<close>

function pbkdf2_loop :: "u8 list \<Rightarrow> u8 list \<Rightarrow> u32 \<Rightarrow> nat \<Rightarrow> u32 \<Rightarrow> u8 list \<Rightarrow> u8 list option" where
  "pbkdf2_loop pass ssid iterations out_len blk out =
     (if length out < out_len then
        if length ssid + 4 > 36 then None
        else (case pbkdf2_block pass ssid iterations blk of
            None \<Rightarrow> None
          | Some t \<Rightarrow>
              let tk = (if out_len - length out > 20 then 20 else out_len - length out)
              in if length t < tk \<or> tk = 0 then None
                 else pbkdf2_loop pass ssid iterations out_len (blk + 1) (out @ take tk t))
      else Some out)"
  by auto
termination by (relation "measure (\<lambda>(p, s, i, n, b, out). n - length out)") (auto split: if_splits)

declare pbkdf2_loop.simps [simp del]

definition tnu_pbkdf2_hmac_sha1 :: "u8 list \<Rightarrow> u8 list \<Rightarrow> u32 \<Rightarrow> nat \<Rightarrow> u8 list option" where
  "tnu_pbkdf2_hmac_sha1 passphrase ssid iterations out_len = pbkdf2_loop passphrase ssid iterations out_len 1 []"

definition tnu_wpa_pmk_from_passphrase :: "u8 list \<Rightarrow> u8 list \<Rightarrow> u8 list option" where
  "tnu_wpa_pmk_from_passphrase passphrase ssid = tnu_pbkdf2_hmac_sha1 passphrase ssid 4096 32"

function wpa_prf_loop :: "u8 list \<Rightarrow> u8 list \<Rightarrow> nat \<Rightarrow> u8 \<Rightarrow> u8 list \<Rightarrow> u8 list option" where
  "wpa_prf_loop key input out_len counter out =
     (if length out < out_len then
        (case tnu_hmac_sha1 key (input @ [counter]) of
            None \<Rightarrow> None
          | Some digest \<Rightarrow>
              let tk = (if out_len - length out > 20 then 20 else out_len - length out)
              in if length digest < tk \<or> tk = 0 then None
                 else wpa_prf_loop key input out_len (counter + 1) (out @ take tk digest))
      else Some out)"
  by auto
termination by (relation "measure (\<lambda>(k, i, n, c, out). n - length out)") (auto split: if_splits)

declare wpa_prf_loop.simps [simp del]

text \<open>\<open>tnu_wpa_prf\<close> returns without writing when the input does not fit its 128-byte buffer.\<close>

definition tnu_wpa_prf :: "u8 list \<Rightarrow> u8 list \<Rightarrow> u8 list \<Rightarrow> u8 list \<Rightarrow> u8 list option" where
  "tnu_wpa_prf key label data out =
     (let base_len = length label + 1 + length data + 1
      in if base_len > 128 then Some out
         else wpa_prf_loop key (label @ [0] @ data) (length out) 0 [])"

subsection \<open>AES-128\<close>

definition aes_xtime :: "u8 \<Rightarrow> u8" where
  "aes_xtime x = push_bit 1 x XOR (if x AND 0x80 \<noteq> 0 then 0x1b else 0)"

text \<open>The loops of \<open>aes_mul\<close> and \<open>aes_pow\<close> shift a byte to 0: they run at most 8 times.\<close>

primrec aes_mul_loop :: "nat \<Rightarrow> u8 \<Rightarrow> u8 \<Rightarrow> u8 \<Rightarrow> u8" where
  "aes_mul_loop 0 r a b = r"
| "aes_mul_loop (Suc n) r a b =
     (if b = 0 then r else aes_mul_loop n (if b AND 1 \<noteq> 0 then r XOR a else r) (aes_xtime a) (drop_bit 1 b))"

definition aes_mul :: "u8 \<Rightarrow> u8 \<Rightarrow> u8" where
  "aes_mul a b = aes_mul_loop 8 0 a b"

primrec aes_pow_loop :: "nat \<Rightarrow> u8 \<Rightarrow> u8 \<Rightarrow> u8 \<Rightarrow> u8" where
  "aes_pow_loop 0 r a n = r"
| "aes_pow_loop (Suc k) r a n =
     (if n = 0 then r else aes_pow_loop k (if n AND 1 \<noteq> 0 then aes_mul r a else r) (aes_mul a a) (drop_bit 1 n))"

definition aes_pow :: "u8 \<Rightarrow> u8 \<Rightarrow> u8" where
  "aes_pow a n = aes_pow_loop 8 1 a n"

definition aes_sbox :: "u8 \<Rightarrow> u8" where
  "aes_sbox x =
     (let y = (if x \<noteq> 0 then aes_pow x 254 else 0)
      in 0x63 XOR y XOR (push_bit 1 y OR drop_bit 7 y) XOR (push_bit 2 y OR drop_bit 6 y)
         XOR (push_bit 3 y OR drop_bit 5 y) XOR (push_bit 4 y OR drop_bit 4 y))"

definition aes_sub_bytes :: "u8 list \<Rightarrow> u8 list" where
  "aes_sub_bytes s = map aes_sbox s"

definition aes_shift_rows :: "u8 list \<Rightarrow> u8 list" where
  "aes_shift_rows s = map (\<lambda>i. s ! i) [0, 5, 10, 15, 4, 9, 14, 3, 8, 13, 2, 7, 12, 1, 6, 11]"

definition aes_mix_column :: "u8 list \<Rightarrow> u8 list" where
  "aes_mix_column p =
     (let a0 = p ! 0; a1 = p ! 1; a2 = p ! 2; a3 = p ! 3
      in [aes_mul a0 2 XOR aes_mul a1 3 XOR a2 XOR a3,
          a0 XOR aes_mul a1 2 XOR aes_mul a2 3 XOR a3,
          a0 XOR a1 XOR aes_mul a2 2 XOR aes_mul a3 3,
          aes_mul a0 3 XOR a1 XOR a2 XOR aes_mul a3 2])"

definition aes_mix_columns :: "u8 list \<Rightarrow> u8 list" where
  "aes_mix_columns s = concat (map (\<lambda>c. aes_mix_column (take 4 (drop (c * 4) s))) [0..<4])"

definition aes_add_round_key :: "u8 list \<Rightarrow> u8 list \<Rightarrow> u8 list" where
  "aes_add_round_key s rk = map2 (XOR) s (take 16 rk)"

definition aes_rcon :: "u8 list" where
  "aes_rcon = [0x01, 0x02, 0x04, 0x08, 0x10, 0x20, 0x40, 0x80, 0x1b, 0x36]"

text \<open>One pass of the key-schedule loop: the next word; \<open>bytes\<close> is the number of bytes so far.\<close>

definition aes_expand_step :: "u8 list \<Rightarrow> u8 list" where
  "aes_expand_step rk =
     (let bytes = length rk;
          temp0 = drop (bytes - 4) rk;
          temp = (if bytes mod 16 = 0
                  then [aes_sbox (temp0 ! 1) XOR aes_rcon ! (bytes div 16 - 1), aes_sbox (temp0 ! 2),
                        aes_sbox (temp0 ! 3), aes_sbox (temp0 ! 0)]
                  else temp0)
      in rk @ map2 (XOR) (take 4 (drop (bytes - 16) rk)) temp)"

definition aes_expand_key :: "u8 list \<Rightarrow> u8 list" where
  "aes_expand_key key = (aes_expand_step ^^ 40) key"

definition aes_round :: "u8 list \<Rightarrow> nat \<Rightarrow> u8 list \<Rightarrow> u8 list" where
  "aes_round rk n s = aes_add_round_key (aes_mix_columns (aes_shift_rows (aes_sub_bytes s))) (drop (n * 16) rk)"

definition tnu_aes128_encrypt_block :: "u8 list \<Rightarrow> u8 list \<Rightarrow> u8 list" where
  "tnu_aes128_encrypt_block key inp =
     (let rk = aes_expand_key key;
          s0 = aes_add_round_key inp rk;
          s9 = fold (aes_round rk) [1..<10] s0
      in aes_add_round_key (aes_shift_rows (aes_sub_bytes s9)) (drop 160 rk))"

subsection \<open>SHA-1 as the standard states it\<close>

text \<open>
  \<open>absorb\<close> consumes the full 64-byte blocks of a message and leaves the rest; \<open>sha1_pad\<close> is the
  padding of FIPS 180-4.
\<close>

function absorb :: "u32 list \<Rightarrow> u8 list \<Rightarrow> u32 list \<times> u8 list" where
  "absorb h xs = (if length xs < 64 then (h, xs) else absorb (sha1_transform h (take 64 xs)) (drop 64 xs))"
  by auto
termination by (relation "measure (\<lambda>(h, xs). length xs)") auto

declare absorb.simps [simp del]

definition sha1_pad :: "u8 list \<Rightarrow> u8 list" where
  "sha1_pad xs = xs @ [0x80] @ replicate ((119 - length xs mod 64) mod 64) 0 @ store_be64 (of_nat (length xs) * 8)"

definition sha1_ref :: "u8 list \<Rightarrow> u8 list" where
  "sha1_ref xs = concat (map store_be32 (fst (absorb (h_of sha1_init) (sha1_pad xs))))"

lemma absorb_short: "length xs < 64 \<Longrightarrow> absorb h xs = (h, xs)"
  by (simp add: absorb.simps)

lemma absorb_block: "length b = 64 \<Longrightarrow> absorb h (b @ xs) = absorb (sha1_transform h b) xs"
  by (simp add: absorb.simps [of h])

lemma absorb_append: "absorb h (xs @ ys) = (let (h', r) = absorb h xs in absorb h' (r @ ys))"
proof (induction h xs rule: absorb.induct)
  case (1 h xs)
  show ?case
  proof (cases "length xs < 64")
    case False
    then have l: "length (take 64 xs) = 64" by simp
    have "absorb h (xs @ ys) = absorb h (take 64 xs @ (drop 64 xs @ ys))"
      by (simp only: append_assoc [symmetric] append_take_drop_id)
    also have "\<dots> = absorb (sha1_transform h (take 64 xs)) (drop 64 xs @ ys)" by (rule absorb_block [OF l])
    finally show ?thesis using 1 False absorb.simps [of h xs] by simp
  qed (simp add: absorb_short)
qed

lemma length_absorb: "length (snd (absorb h xs)) = length xs mod 64"
proof (induction h xs rule: absorb.induct)
  case (1 h xs)
  then show ?case by (cases "length xs < 64") (simp_all add: absorb.simps [of h xs] le_mod_geq)
qed

lemma length_absorb_h: "length h = 5 \<Longrightarrow> length (fst (absorb h xs)) = 5"
proof (induction h xs rule: absorb.induct)
  case (1 h xs)
  have "length (sha1_transform h b) = 5" for b by (simp add: sha1_transform_def Let_def split: prod.splits)
  then show ?case using 1 by (cases "length xs < 64") (simp_all add: absorb.simps [of h xs])
qed

text \<open>A context stands for its chaining value, the bytes of its open block and the byte count.\<close>

definition ctx_ok :: "sha1_ctx \<Rightarrow> bool" where
  "ctx_ok c \<longleftrightarrow> used c < 64 \<and> length (block c) = 64"

definition pending :: "sha1_ctx \<Rightarrow> u8 list" where
  "pending c = take (used c) (block c)"

lemma length_pending: "ctx_ok c \<Longrightarrow> length (pending c) = used c"
  by (simp add: ctx_ok_def pending_def)

lemma sha1_update_step_spec:
  assumes "ctx_ok c" and "p \<noteq> []" and "sha1_update_step c p = (c', p')"
  shows "ctx_ok c'" "length p' < length p" "absorb (h_of c) (pending c @ p) = absorb (h_of c') (pending c' @ p')"
    "bytes_of_ctx c' = bytes_of_ctx c"
proof -
  have u: "used c < 64" "length (block c) = 64" using assms(1) by (auto simp: ctx_ok_def)
  define n where "n = min (64 - used c) (length p)"
  have n: "szsub 64 (used c) = 64 - used c" using u by (intro szsub_exact) auto
  have n0: "0 < n" "n \<le> length p" "used c + n \<le> 64" using u assms(2) by (auto simp: n_def)
  let ?b = "take (used c) (block c) @ take n p @ drop (used c + n) (block c)"
  have nn: "(if szsub 64 (used c) > length p then length p else szsub 64 (used c)) = n"
    unfolding n by (simp add: n_def)
  have st: "c' = (if used c + n = 64 then c\<lparr>block := ?b, h_of := sha1_transform (h_of c) ?b, used := 0\<rparr>
      else c\<lparr>block := ?b, used := used c + n\<rparr>)" "p' = drop n p"
    using assms(3) unfolding sha1_update_step_def Let_def nn by auto
  have lb: "length ?b = 64" using u n0 by simp
  show "ctx_ok c'" using st(1) lb n0 by (auto simp: ctx_ok_def)
  show "length p' < length p" using st(2) n0 by simp
  show "bytes_of_ctx c' = bytes_of_ctx c" using st(1) by simp
  have tb: "take (used c + n) ?b = pending c @ take n p" using u n0 by (simp add: pending_def)
  have split: "pending c @ p = (pending c @ take n p) @ p'" using st(2) by simp
  show "absorb (h_of c) (pending c @ p) = absorb (h_of c') (pending c' @ p')"
  proof (cases "used c + n = 64")
    case True
    then have "?b = pending c @ take n p" using u by (simp add: pending_def)
    moreover have "absorb (h_of c) ((pending c @ take n p) @ p') = absorb (sha1_transform (h_of c) (pending c @ take n p)) p'"
      using True n0 u by (intro absorb_block) (simp add: pending_def)
    moreover have "pending c' = []" "h_of c' = sha1_transform (h_of c) ?b" using st(1) True by (simp_all add: pending_def)
    ultimately show ?thesis unfolding split by simp
  next
    case False
    then have "pending c' = pending c @ take n p" "h_of c' = h_of c" using st(1) tb by (simp_all add: pending_def)
    then show ?thesis unfolding split by simp
  qed
qed

lemma sha1_update_loop_spec:
  assumes "ctx_ok c"
  shows "\<exists>c'. sha1_update_loop c p = Some c' \<and> ctx_ok c' \<and> (h_of c', pending c') = absorb (h_of c) (pending c @ p) \<and>
    bytes_of_ctx c' = bytes_of_ctx c"
  using assms
proof (induction "length p" arbitrary: c p rule: less_induct)
  case less
  show ?case
  proof (cases "p = []")
    case True
    have "absorb (h_of c) (pending c) = (h_of c, pending c)"
      using less.prems by (intro absorb_short) (simp add: length_pending ctx_ok_def)
    then show ?thesis using True less.prems by (subst sha1_update_loop.simps) simp
  next
    case False
    obtain c1 p1 where s: "sha1_update_step c p = (c1, p1)" by fastforce
    note S = sha1_update_step_spec [OF less.prems False s]
    from less.hyps [OF S(2,1)] show ?thesis
      using False s S(3,4) by (subst sha1_update_loop.simps) simp
  qed
qed

lemma sha1_update_spec:
  assumes "ctx_ok c"
  shows "\<exists>c'. sha1_update c p = Some c' \<and> ctx_ok c' \<and> (h_of c', pending c') = absorb (h_of c) (pending c @ p) \<and>
    bytes_of_ctx c' = bytes_of_ctx c + of_nat (length p)"
  using sha1_update_loop_spec [of "c\<lparr>bytes_of_ctx := bytes_of_ctx c + of_nat (length p)\<rparr>" p] assms
  by (auto simp: sha1_update_def ctx_ok_def pending_def)

text \<open>The padding loop writes zeros until 56 bytes of the block are used.\<close>

lemma sha1_pad_loop_spec:
  assumes "ctx_ok c"
  shows "\<exists>c'. sha1_pad_loop c = Some c' \<and> ctx_ok c' \<and> used c' = 56 \<and>
    (h_of c', pending c') = absorb (h_of c) (pending c @ replicate ((120 - used c) mod 64) 0)"
  using assms
proof (induction "(120 - used c) mod 64" arbitrary: c)
  case 0
  have "used c < 64" using 0 by (simp add: ctx_ok_def)
  then have "used c = 56" using 0(1) by (cases "used c \<le> 56") (auto simp: mod_if split: if_splits)
  then show ?case
    using 0 absorb_short [of "pending c" "h_of c"] length_pending [of c]
    by (subst sha1_pad_loop.simps) (simp add: ctx_ok_def)
next
  case (Suc k)
  have u: "used c < 64" using Suc by (simp add: ctx_ok_def)
  have ne: "used c \<noteq> 56" using Suc(2) by auto
  obtain c1 where c1: "sha1_update c [0] = Some c1" "ctx_ok c1" "(h_of c1, pending c1) = absorb (h_of c) (pending c @ [0])"
    using sha1_update_spec [OF Suc.prems, of "[0]"] by blast
  have "length (pending c1) = Suc (used c) mod 64"
    using length_absorb [of "h_of c" "pending c @ [0]"] length_pending [OF Suc.prems] c1(3) by (metis length_append_singleton snd_conv)
  then have u1: "used c1 = Suc (used c) mod 64" using length_pending [OF c1(2)] by simp
  have k: "k = (120 - used c1) mod 64"
    using Suc(2) u u1 ne by (cases "used c = 63") (auto simp: mod_if split: if_splits)
  from Suc.hyps(1) [OF k c1(2)] obtain c' where
    c': "sha1_pad_loop c1 = Some c'" "ctx_ok c'" "used c' = 56"
      "(h_of c', pending c') = absorb (h_of c1) (pending c1 @ replicate k 0)" using k by auto
  have "absorb (h_of c) (pending c @ replicate (Suc k) 0) = absorb (h_of c) ((pending c @ [0]) @ replicate k 0)" by simp
  also have "\<dots> = absorb (h_of c1) (pending c1 @ replicate k 0)"
    unfolding absorb_append [of "h_of c" "pending c @ [0]"] c1(3) [symmetric] by simp
  finally show ?case using c' c1(1) ne Suc(2) by (subst sha1_pad_loop.simps) simp
qed

lemma length_store_be64: "length (store_be64 v) = 8"
proof -
  have "length (fst (foldr (\<lambda>i (p, v). (p[i := ucast v], drop_bit 8 v)) is (p, v))) = length p"
    for "is" and p :: "u8 list" and v :: u64
    by (induction "is") (auto split: prod.splits)
  then show ?thesis by (simp add: store_be64_def)
qed

definition sha1_out :: "u32 list \<Rightarrow> u8 list" where
  "sha1_out h = concat (map store_be32 h)"

lemma length5_map_nth: "length h = 5 \<Longrightarrow> map (\<lambda>i. f (h ! i)) [0..<5] = map f h"
  by (rule nth_equalityI) auto

lemma sha1_final_spec:
  assumes "ctx_ok c" and "length (h_of c) = 5"
  shows "sha1_final c = Some (sha1_out (fst (absorb (h_of c)
    (pending c @ [0x80] @ replicate ((119 - used c) mod 64) 0 @ store_be64 (bytes_of_ctx c * 8)))))"
proof -
  obtain c1 where c1: "sha1_update c [0x80] = Some c1" "ctx_ok c1" "(h_of c1, pending c1) = absorb (h_of c) (pending c @ [0x80])"
    using sha1_update_spec [OF assms(1), of "[0x80]"] by blast
  have "length (pending c1) = Suc (used c) mod 64"
    using length_absorb [of "h_of c" "pending c @ [0x80]"] length_pending [OF assms(1)] c1(3) by (metis length_append_singleton snd_conv)
  then have u1: "used c1 = Suc (used c) mod 64" using length_pending [OF c1(2)] by simp
  have z: "(120 - used c1) mod 64 = (119 - used c) mod 64"
    using assms(1) u1 by (cases "used c = 63") (auto simp: ctx_ok_def)
  obtain c2 where c2: "sha1_pad_loop c1 = Some c2" "ctx_ok c2"
      "(h_of c2, pending c2) = absorb (h_of c1) (pending c1 @ replicate ((119 - used c) mod 64) 0)"
    using sha1_pad_loop_spec [OF c1(2)] z by auto
  obtain c3 where c3: "sha1_update c2 (store_be64 (bytes_of_ctx c * 8)) = Some c3"
      "(h_of c3, pending c3) = absorb (h_of c2) (pending c2 @ store_be64 (bytes_of_ctx c * 8))"
    using sha1_update_spec [OF c2(2)] by blast
  have "absorb (h_of c) ((pending c @ [0x80]) @ (replicate ((119 - used c) mod 64) 0 @ store_be64 (bytes_of_ctx c * 8))) =
      absorb (h_of c1) ((pending c1 @ replicate ((119 - used c) mod 64) 0) @ store_be64 (bytes_of_ctx c * 8))"
    unfolding absorb_append [of "h_of c" "pending c @ [0x80]"] c1(3) [symmetric] by simp
  also have "\<dots> = (h_of c3, pending c3)"
    unfolding absorb_append [of "h_of c1" "pending c1 @ _"] c2(3) [symmetric] c3(2) by simp
  finally have e: "absorb (h_of c) (pending c @ [0x80] @ replicate ((119 - used c) mod 64) 0 @ store_be64 (bytes_of_ctx c * 8)) =
      (h_of c3, pending c3)" by simp
  then have "length (h_of c3) = 5" using length_absorb_h [OF assms(2)] by (metis fst_conv)
  then show ?thesis unfolding e using c1(1) c2(1) c3(1) by (simp add: sha1_final_def sha1_out_def Let_def length5_map_nth)
qed

lemma sha1_init_ok: "ctx_ok sha1_init" "pending sha1_init = []" "length (h_of sha1_init) = 5" "bytes_of_ctx sha1_init = 0"
  by (simp_all add: sha1_init_def ctx_ok_def pending_def)

text \<open>Hashing a message in two or more pieces.\<close>

lemma sha1_pieces:
  assumes "(h_of c, pending c) = absorb (h_of sha1_init) xs" and "ctx_ok c" and "bytes_of_ctx c = of_nat (length xs)"
  shows "sha1_final c = Some (sha1_ref xs)"
proof -
  have u: "used c = length xs mod 64"
    using length_absorb [of "h_of sha1_init" xs] length_pending [OF assms(2)] assms(1) by (metis snd_conv)
  have l5: "length (h_of c) = 5" using length_absorb_h [OF sha1_init_ok(3), of xs] assms(1) by (metis fst_conv)
  let ?rest = "[0x80] @ replicate ((119 - used c) mod 64) 0 @ store_be64 (bytes_of_ctx c * 8)"
  have "absorb (h_of sha1_init) (sha1_pad xs) = absorb (h_of c) (pending c @ ?rest)"
    unfolding sha1_pad_def absorb_append [of _ xs] assms(1) [symmetric] using u assms(3) by simp
  then show ?thesis using sha1_final_spec [OF assms(2) l5] by (simp add: sha1_ref_def sha1_out_def)
qed

lemma sha1_update_pieces:
  assumes "(h_of c, pending c) = absorb (h_of sha1_init) xs" and "ctx_ok c" and "bytes_of_ctx c = of_nat (length xs)"
  shows "\<exists>c'. sha1_update c ys = Some c' \<and> ctx_ok c' \<and> (h_of c', pending c') = absorb (h_of sha1_init) (xs @ ys) \<and>
    bytes_of_ctx c' = of_nat (length (xs @ ys))"
  using sha1_update_spec [OF assms(2), of ys] assms(1,3)
  by (auto simp: absorb_append [of "h_of sha1_init" xs ys] simp flip: assms(1))

lemma sha1_update_init:
  "\<exists>c'. sha1_update sha1_init ys = Some c' \<and> ctx_ok c' \<and> (h_of c', pending c') = absorb (h_of sha1_init) ys \<and>
    bytes_of_ctx c' = of_nat (length ys)"
  using sha1_update_pieces [of sha1_init "[]" ys] sha1_init_ok by (simp add: absorb_short)

lemma tnu_sha1_eq: "tnu_sha1 data = Some (sha1_ref data)"
proof -
  obtain c where "sha1_update sha1_init data = Some c" "ctx_ok c" "(h_of c, pending c) = absorb (h_of sha1_init) data"
    "bytes_of_ctx c = of_nat (length data)" using sha1_update_init by blast
  then show ?thesis by (simp add: tnu_sha1_def sha1_pieces)
qed

lemma sha1_two_pieces:
  "\<exists>c1 c2. sha1_update sha1_init xs = Some c1 \<and> sha1_update c1 ys = Some c2 \<and> sha1_final c2 = Some (sha1_ref (xs @ ys))"
proof -
  obtain c1 where c1: "sha1_update sha1_init xs = Some c1" "ctx_ok c1" "(h_of c1, pending c1) = absorb (h_of sha1_init) xs"
    "bytes_of_ctx c1 = of_nat (length xs)" using sha1_update_init by blast
  then obtain c2 where "sha1_update c1 ys = Some c2" "ctx_ok c2" "(h_of c2, pending c2) = absorb (h_of sha1_init) (xs @ ys)"
    "bytes_of_ctx c2 = of_nat (length (xs @ ys))" using sha1_update_pieces by blast
  then show ?thesis using c1(1) sha1_pieces by blast
qed


subsection \<open>HMAC\<close>

text \<open>HMAC over a hash function with block size \<open>B\<close> (FIPS 198-1), for any hash.\<close>

definition hmac_key :: "(u8 list \<Rightarrow> u8 list) \<Rightarrow> nat \<Rightarrow> u8 list \<Rightarrow> u8 list" where
  "hmac_key H B K = (let K' = (if length K > B then H K else K) in K' @ replicate (B - length K') 0)"

definition hmac_ref :: "(u8 list \<Rightarrow> u8 list) \<Rightarrow> nat \<Rightarrow> u8 list \<Rightarrow> u8 list \<Rightarrow> u8 list" where
  "hmac_ref H B K msg =
     H (map (\<lambda>b. b XOR 0x5c) (hmac_key H B K) @ H (map (\<lambda>b. b XOR 0x36) (hmac_key H B K) @ msg))"

text \<open>What the users of a keyed hash rely on: its digests have a fixed length that fits a block.\<close>

locale hash_function =
  fixes H :: "u8 list \<Rightarrow> u8 list" and B L :: nat
  assumes digest_length: "length (H x) = L" and digest_fits: "L \<le> B"
begin

lemma key_length: "length (hmac_key H B K) = B"
  using digest_length digest_fits by (simp add: hmac_key_def Let_def)

lemma mac_length: "length (hmac_ref H B K msg) = L"
  by (simp add: hmac_ref_def digest_length)

text \<open>Keys longer than a block count only through their digest.\<close>

lemma long_key: "length K > B \<Longrightarrow> hmac_ref H B K msg = hmac_ref H B (H K) msg"
  using digest_length digest_fits by (simp add: hmac_ref_def hmac_key_def Let_def)

end

lemma length_sha1_ref: "length (sha1_ref xs) = 20"
proof -
  have "length (concat (map store_be32 h)) = 4 * length h" for h by (induction h) (auto simp: store_be32_def)
  then show ?thesis using length_absorb_h [OF sha1_init_ok(3)] by (simp add: sha1_ref_def)
qed

interpretation sha1: hash_function sha1_ref 64 20
  by unfold_locales (simp_all add: length_sha1_ref)

abbreviation hmac_sha1 :: "u8 list \<Rightarrow> u8 list \<Rightarrow> u8 list" where
  "hmac_sha1 \<equiv> hmac_ref sha1_ref 64"

lemma tnu_hmac_sha1_eq: "tnu_hmac_sha1 key data = Some (hmac_sha1 key data)"
proof -
  let ?k = "hmac_key sha1_ref 64 key"
  have k: "(if length key > 64 then map_option (\<lambda>digest. digest @ replicate 44 0) (tnu_sha1 key)
      else Some (key @ replicate (64 - length key) 0)) = Some ?k"
    by (simp add: tnu_sha1_eq hmac_key_def length_sha1_ref Let_def)
  obtain c1 c2 where i: "sha1_update sha1_init (map (\<lambda>b. b XOR 0x36) ?k) = Some c1" "sha1_update c1 data = Some c2"
      "sha1_final c2 = Some (sha1_ref (map (\<lambda>b. b XOR 0x36) ?k @ data))" using sha1_two_pieces by blast
  obtain c3 c4 where o: "sha1_update sha1_init (map (\<lambda>b. b XOR 0x5c) ?k) = Some c3"
      "sha1_update c3 (sha1_ref (map (\<lambda>b. b XOR 0x36) ?k @ data)) = Some c4"
      "sha1_final c4 = Some (hmac_sha1 key data)" using sha1_two_pieces unfolding hmac_ref_def by blast
  show ?thesis unfolding tnu_hmac_sha1_def k using i o by (simp add: Let_def)
qed

text \<open>
  \<open>tnu_hmac_sha1\<close> is HMAC-SHA1: it returns for all inputs the FIPS 198-1 construction over the
  reference hash, 20 bytes long, and a key longer than 64 bytes is replaced by its digest.
\<close>

lemma tnu_hmac_sha1_correct:
  "tnu_hmac_sha1 key data = Some (hmac_ref sha1_ref 64 key data) \<and> length (hmac_ref sha1_ref 64 key data) = 20 \<and>
   (64 < length key \<longrightarrow> tnu_hmac_sha1 key data = tnu_hmac_sha1 (sha1_ref key) data)"
  using tnu_hmac_sha1_eq sha1.mac_length sha1.long_key by simp

subsection \<open>PBKDF2\<close>

text \<open>The function \<open>F\<close> of RFC 8018 with \<open>n\<close> rounds after the first, over any PRF.\<close>

primrec pbkdf2_xor :: "(u8 list \<Rightarrow> u8 list \<Rightarrow> u8 list) \<Rightarrow> u8 list \<Rightarrow> nat \<Rightarrow> u8 list \<Rightarrow> u8 list" where
  "pbkdf2_xor prf P 0 u = u"
| "pbkdf2_xor prf P (Suc n) u = map2 (XOR) u (pbkdf2_xor prf P n (prf P u))"

definition pbkdf2_F :: "(u8 list \<Rightarrow> u8 list \<Rightarrow> u8 list) \<Rightarrow> u8 list \<Rightarrow> u8 list \<Rightarrow> nat \<Rightarrow> nat \<Rightarrow> u8 list" where
  "pbkdf2_F prf P S c i = pbkdf2_xor prf P (c - 1) (prf P (S @ store_be32 (of_nat i)))"

lemma map2_xor_assoc: "map2 (XOR) (map2 (XOR) a b) c = map2 (XOR) a (map2 (XOR) b c)" for a :: "u8 list"
proof (induction a arbitrary: b c)
  case (Cons x a)
  then show ?case by (cases b; cases c) (auto simp: xor.assoc)
qed simp

lemma pbkdf2_rounds_eq:
  "length t = 20 \<Longrightarrow> length u = 20 \<Longrightarrow>
   \<exists>u'. pbkdf2_rounds n pass u t = Some (u', if n = 0 then t else map2 (XOR) t (pbkdf2_xor hmac_sha1 pass (n - 1) (hmac_sha1 pass u)))"
proof (induction n arbitrary: u t)
  case (Suc n)
  let ?u = "hmac_sha1 pass u"
  have "length (map2 (XOR) t ?u) = 20" "length ?u = 20" using Suc.prems by (simp_all add: sha1.mac_length)
  from Suc.IH [OF this] obtain u' where u': "pbkdf2_rounds n pass ?u (map2 (XOR) t ?u) =
    Some (u', if n = 0 then map2 (XOR) t ?u else map2 (XOR) (map2 (XOR) t ?u) (pbkdf2_xor hmac_sha1 pass (n - 1) (hmac_sha1 pass ?u)))"
    by blast
  then show ?case by (cases n) (simp_all add: tnu_hmac_sha1_eq map2_xor_assoc)
qed simp

lemma length_pbkdf2_xor: "length u = 20 \<Longrightarrow> length (pbkdf2_xor hmac_sha1 P n u) = 20"
  by (induction n arbitrary: u) (simp_all add: sha1.mac_length)

lemma length_pbkdf2_F: "length (pbkdf2_F hmac_sha1 P S c i) = 20"
  by (simp add: pbkdf2_F_def length_pbkdf2_xor sha1.mac_length)

lemma pbkdf2_block_eq: "pbkdf2_block pass ssid c (of_nat i) = Some (pbkdf2_F hmac_sha1 pass ssid (unat c) i)"
proof -
  let ?u = "hmac_sha1 pass (ssid @ store_be32 (of_nat i))"
  define n where "n = unat c - 1"
  obtain u' where "pbkdf2_rounds n pass ?u ?u =
      Some (u', if n = 0 then ?u else map2 (XOR) ?u (pbkdf2_xor hmac_sha1 pass (n - 1) (hmac_sha1 pass ?u)))"
    using pbkdf2_rounds_eq [of ?u ?u n pass] by (auto simp: sha1.mac_length)
  then show ?thesis
    unfolding pbkdf2_block_def pbkdf2_F_def tnu_hmac_sha1_eq n_def [symmetric] by (cases n) simp_all
qed

text \<open>The derived key: the blocks \<open>F 1, F 2, \<dots>\<close> cut to the wanted length.\<close>

fun pbkdf2_blocks :: "(nat \<Rightarrow> u8 list) \<Rightarrow> nat \<Rightarrow> nat \<Rightarrow> u8 list" where
  "pbkdf2_blocks F i n = (if n = 0 then [] else if n \<le> 20 then take n (F i) else F i @ pbkdf2_blocks F (Suc i) (n - 20))"

declare pbkdf2_blocks.simps [simp del]

lemma pbkdf2_loop_eq:
  assumes "length ssid \<le> 32"
  shows "pbkdf2_loop pass ssid c out_len (of_nat i) out =
     Some (out @ pbkdf2_blocks (pbkdf2_F hmac_sha1 pass ssid (unat c)) i (out_len - length out))"
proof (induction "out_len - length out" arbitrary: i out rule: less_induct)
  case less
  let ?F = "pbkdf2_F hmac_sha1 pass ssid (unat c)"
  let ?n = "out_len - length out"
  show ?case
  proof (cases "?n = 0")
    case True
    then show ?thesis by (subst pbkdf2_loop.simps, subst pbkdf2_blocks.simps) simp
  next
    case False
    let ?t = "if ?n > 20 then 20 else ?n"
    have "pbkdf2_loop pass ssid c out_len (of_nat i) out =
        pbkdf2_loop pass ssid c out_len (of_nat (Suc i)) (out @ take ?t (?F i))"
      using False assms by (subst pbkdf2_loop.simps) (simp add: pbkdf2_block_eq length_pbkdf2_F add.commute)
    also have "\<dots> = Some ((out @ take ?t (?F i)) @ pbkdf2_blocks ?F (Suc i) (out_len - length (out @ take ?t (?F i))))"
      using False by (intro less) (auto simp: length_pbkdf2_F)
    also have "\<dots> = Some (out @ pbkdf2_blocks ?F i ?n)"
      using False by (simp add: length_pbkdf2_F pbkdf2_blocks.simps [of ?F i ?n] pbkdf2_blocks.simps [of ?F _ 0])
    finally show ?thesis .
  qed
qed

text \<open>
  C9: \<open>tnu_pbkdf2_hmac_sha1\<close> derives the key of RFC 8018 for salts of at most 32 bytes, so the WPA
  key of a passphrase is 4096 rounds over the SSID; a longer salt overruns the 36-byte buffer
  on the stack.
\<close>

theorem tnu_pbkdf2_correct:
  "(length ssid \<le> 32 \<longrightarrow> tnu_pbkdf2_hmac_sha1 pass ssid c n = Some (pbkdf2_blocks (pbkdf2_F (hmac_ref sha1_ref 64) pass ssid (unat c)) 1 n)) \<and>
   (length ssid > 32 \<longrightarrow> tnu_wpa_pmk_from_passphrase pass ssid = None)"
  using pbkdf2_loop_eq [of ssid pass c n 1 "[]"]
  by (auto simp: tnu_pbkdf2_hmac_sha1_def tnu_wpa_pmk_from_passphrase_def pbkdf2_loop.simps [of pass ssid 4096 32])

theorem tnu_pbkdf2_correct_witness:
  "tnu_wpa_pmk_from_passphrase (bytes_of ''password'') (replicate 33 65) = None \<and>
   (\<exists>k. tnu_pbkdf2_hmac_sha1 (bytes_of ''password'') (bytes_of ''IEEE'') 4096 32 = Some k)"
  using tnu_pbkdf2_correct [of "replicate 33 65" "bytes_of ''password''" 4096 32]
    tnu_pbkdf2_correct [of "bytes_of ''IEEE''" "bytes_of ''password''" 4096 32]
  by (simp add: bytes_of_def)

subsection \<open>The linear layer of AES\<close>

lemma aes_xtime_bits: "bit (aes_xtime x) n \<longleftrightarrow> n < 8 \<and> ((n > 0 \<and> bit x (n - 1)) \<noteq> (bit x 7 \<and> n \<in> {0, 1, 3, 4}))"
proof -
  have c: "x AND 0x80 \<noteq> 0 \<longleftrightarrow> bit x 7"
  proof -
    have "bit (x AND 0x80) n \<longleftrightarrow> n = 7 \<and> bit x 7" for n
      using bit_exp_iff [of 7 n, where ?'a = u8] by (auto simp: bit_and_iff)
    then show ?thesis by (metis bit_eqI bit_0_eq bot_apply bot_bool_def)
  qed
  have k: "bit (0x1b :: u8) n \<longleftrightarrow> n \<in> {0, 1, 3, 4}"
    by (auto simp: bit_numeral_rec bit_1_iff split: nat.splits)
  have p: "bit (push_bit 1 x) n \<longleftrightarrow> n < 8 \<and> n > 0 \<and> bit x (n - 1)"
    by (subst bit_push_bit_iff) auto
  show ?thesis unfolding aes_xtime_def bit_xor_iff p c using k by (cases "bit x 7") auto
qed

lemma aes_xtime_xor: "aes_xtime (x XOR y) = aes_xtime x XOR aes_xtime y"
  by (rule bit_eqI) (auto simp: aes_xtime_bits bit_xor_iff)

lemma aes_mul_loop_0: "aes_mul_loop n r a 0 = r"
  by (cases n) simp_all

lemma aes_mul_loop_4:
  "aes_mul_loop (Suc (Suc (Suc (Suc n)))) 0 a 2 = aes_xtime a"
  "aes_mul_loop (Suc (Suc (Suc (Suc n)))) 0 a 3 = a XOR aes_xtime a"
  "aes_mul_loop (Suc (Suc (Suc (Suc n)))) 0 a 9 = a XOR aes_xtime (aes_xtime (aes_xtime a))"
  "aes_mul_loop (Suc (Suc (Suc (Suc n)))) 0 a 11 = a XOR aes_xtime a XOR aes_xtime (aes_xtime (aes_xtime a))"
  "aes_mul_loop (Suc (Suc (Suc (Suc n)))) 0 a 13 = a XOR aes_xtime (aes_xtime a) XOR aes_xtime (aes_xtime (aes_xtime a))"
  "aes_mul_loop (Suc (Suc (Suc (Suc n)))) 0 a 14 = aes_xtime a XOR aes_xtime (aes_xtime a) XOR aes_xtime (aes_xtime (aes_xtime a))"
  by (simp_all add: aes_mul_loop_0 xor.assoc)

lemma aes_mul_consts:
  "aes_mul a 2 = aes_xtime a" "aes_mul a 3 = a XOR aes_xtime a"
  "aes_mul a 9 = a XOR aes_xtime (aes_xtime (aes_xtime a))"
  "aes_mul a 11 = a XOR aes_xtime a XOR aes_xtime (aes_xtime (aes_xtime a))"
  "aes_mul a 13 = a XOR aes_xtime (aes_xtime a) XOR aes_xtime (aes_xtime (aes_xtime a))"
  "aes_mul a 14 = aes_xtime a XOR aes_xtime (aes_xtime a) XOR aes_xtime (aes_xtime (aes_xtime a))"
proof -
  have "(8 :: nat) = Suc (Suc (Suc (Suc 4)))" by simp
  note m = aes_mul_def this aes_mul_loop_4
  show "aes_mul a 2 = aes_xtime a" "aes_mul a 3 = a XOR aes_xtime a"
    "aes_mul a 9 = a XOR aes_xtime (aes_xtime (aes_xtime a))"
    "aes_mul a 11 = a XOR aes_xtime a XOR aes_xtime (aes_xtime (aes_xtime a))"
    "aes_mul a 13 = a XOR aes_xtime (aes_xtime a) XOR aes_xtime (aes_xtime (aes_xtime a))"
    "aes_mul a 14 = aes_xtime a XOR aes_xtime (aes_xtime a) XOR aes_xtime (aes_xtime (aes_xtime a))"
    by (simp_all only: m)
qed

text \<open>The inverse mixing of the standard, with the multipliers 14, 11, 13 and 9.\<close>

definition aes_unmix_column :: "u8 list \<Rightarrow> u8 list" where
  "aes_unmix_column p =
     (let a0 = p ! 0; a1 = p ! 1; a2 = p ! 2; a3 = p ! 3
      in [aes_mul a0 14 XOR aes_mul a1 11 XOR aes_mul a2 13 XOR aes_mul a3 9,
          aes_mul a0 9 XOR aes_mul a1 14 XOR aes_mul a2 11 XOR aes_mul a3 13,
          aes_mul a0 13 XOR aes_mul a1 9 XOR aes_mul a2 14 XOR aes_mul a3 11,
          aes_mul a0 11 XOR aes_mul a1 13 XOR aes_mul a2 9 XOR aes_mul a3 14])"

definition aes_unmix_columns :: "u8 list \<Rightarrow> u8 list" where
  "aes_unmix_columns s = concat (map (\<lambda>c. aes_unmix_column (take 4 (drop (c * 4) s))) [0..<4])"

definition aes_unshift_rows :: "u8 list \<Rightarrow> u8 list" where
  "aes_unshift_rows s = map (\<lambda>i. s ! i) [0, 13, 10, 7, 4, 1, 14, 11, 8, 5, 2, 15, 12, 9, 6, 3]"

lemma xor_left_self: "x XOR (x XOR y) = y" for x y :: u8
  by (simp flip: xor.assoc)

lemma aes_unmix_column: "aes_unmix_column (aes_mix_column [a, b, c, d]) = [a, b, c, d]"
  by (simp add: aes_unmix_column_def aes_mix_column_def Let_def aes_mul_consts aes_xtime_xor
      xor.assoc xor.commute xor.left_commute xor_left_self)

lemma list16:
  assumes "length s = 16"
  obtains a b c d e f g h i j k l m n p q where "s = [a, b, c, d, e, f, g, h, i, j, k, l, m, n, p, q]"
proof -
  have "s = map (\<lambda>i. s ! i) [0..<16]" using assms map_nth [of s] by simp
  then show thesis using that by (simp add: upt_rec)
qed

lemma aes_unmix_columns: "length s = 16 \<Longrightarrow> aes_unmix_columns (aes_mix_columns s) = s"
proof (elim list16)
  fix a b c d e f g h i j k l m n p q
  assume s: "s = [a, b, c, d, e, f, g, h, i, j, k, l, m, n, p, q]"
  have four: "[0..<4] = [0, 1, 2, 3 :: nat]" by (simp add: upt_rec)
  have l: "length (aes_mix_column x) = 4" for x by (simp add: aes_mix_column_def Let_def)
  have t: "take 4 (aes_mix_column x @ y) = aes_mix_column x" "drop 4 (aes_mix_column x @ y) = y" for x y
    by (simp_all add: l)
  have m: "aes_mix_columns s = aes_mix_column [a, b, c, d] @ aes_mix_column [e, f, g, h] @
      aes_mix_column [i, j, k, l] @ aes_mix_column [m, n, p, q]"
    by (simp add: aes_mix_columns_def four s)
  show ?thesis
    unfolding aes_unmix_columns_def m four
    by (simp add: t l aes_unmix_column s flip: drop_drop)
qed

lemma aes_unshift_rows: "length s = 16 \<Longrightarrow> aes_unshift_rows (aes_shift_rows s) = s"
  by (elim list16) (simp add: aes_unshift_rows_def aes_shift_rows_def)

lemma aes_layer_lengths:
  "length (aes_sub_bytes s) = length s" "length (aes_shift_rows s) = 16" "length (aes_mix_columns s) = 16"
  "length s = 16 \<Longrightarrow> 16 \<le> length rk \<Longrightarrow> length (aes_add_round_key s rk) = 16"
proof -
  have "length (aes_mix_column x) = 4" for x by (simp add: aes_mix_column_def Let_def)
  then show "length (aes_mix_columns s) = 16" by (simp add: aes_mix_columns_def upt_rec)
qed (simp_all add: aes_sub_bytes_def aes_shift_rows_def aes_add_round_key_def)

lemma aes_add_round_key_twice:
  "length s = 16 \<Longrightarrow> 16 \<le> length rk \<Longrightarrow> aes_add_round_key (aes_add_round_key s rk) rk = s"
  by (rule nth_equalityI) (auto simp: aes_add_round_key_def xor.assoc)

lemma aes_expand_step_length: "16 \<le> length rk \<Longrightarrow> length (aes_expand_step rk) = length rk + 4"
  by (simp add: aes_expand_step_def Let_def)

lemma aes_expand_iter:
  "length key = 16 \<Longrightarrow> length ((aes_expand_step ^^ n) key) = 16 + 4 * n \<and> take 16 ((aes_expand_step ^^ n) key) = key"
proof (induction n)
  case (Suc n)
  then have l: "16 \<le> length ((aes_expand_step ^^ n) key)" by simp
  then have "take 16 (aes_expand_step ((aes_expand_step ^^ n) key)) = take 16 ((aes_expand_step ^^ n) key)"
    by (simp add: aes_expand_step_def Let_def)
  then show ?case using Suc aes_expand_step_length [OF l] by simp
qed simp

text \<open>
  The AES-128 rounds lose nothing.  For a 16-byte key the schedule has 176 bytes and starts
  with the key; in each of the nine full rounds the state after the S-box layer is recovered
  from the output by the same round key, the inverse mixing of FIPS 197 (multipliers 14, 11,
  13, 9) and the inverse row shift; and a block encrypts to a block.
\<close>

lemma aes_round_invertible:
  assumes "length key = 16" and "length s = 16" and "n < 10" and "length inp = 16"
  shows "length (aes_expand_key key) = 176 \<and> take 16 (aes_expand_key key) = key \<and>
    aes_unshift_rows (aes_unmix_columns (aes_add_round_key (aes_round (aes_expand_key key) n s)
      (drop (n * 16) (aes_expand_key key)))) = aes_sub_bytes s \<and>
    length (tnu_aes128_encrypt_block key inp) = 16"
proof -
  let ?rk = "aes_expand_key key"
  have k: "length ?rk = 176" "take 16 ?rk = key" using aes_expand_iter [OF assms(1), of 40] by (simp_all add: aes_expand_key_def)
  have rl: "length (aes_round ?rk i x) = 16" if "i < 10" for i x
    using that k(1) by (simp add: aes_round_def aes_layer_lengths)
  have fl: "length (fold (aes_round ?rk) is x) = 16" if "length x = 16" "\<forall>i \<in> set is. i < 10" for "is" x
    using that by (induction "is" arbitrary: x) (simp_all add: rl)
  have "aes_unshift_rows (aes_unmix_columns (aes_add_round_key (aes_round ?rk n s) (drop (n * 16) ?rk))) = aes_sub_bytes s"
    using assms k(1)
    by (simp add: aes_round_def aes_add_round_key_twice aes_layer_lengths aes_unmix_columns aes_unshift_rows)
  moreover have "length (tnu_aes128_encrypt_block key inp) = 16"
    using fl [of "aes_add_round_key inp ?rk" "[1..<10]"] assms(4) k(1)
    by (simp add: tnu_aes128_encrypt_block_def Let_def aes_layer_lengths)
  ultimately show ?thesis using k by blast
qed

end
