(* ===== verification/Cstring.thy ===== *)
theory Cstring
  imports Prelude
begin

text \<open>
  The kernel's memory and string routines, \<^verbatim>\<open>src/kernel/lib/string.c\<close>.  Memory is a function from
  addresses to bytes; pointers are addresses and do not wrap.  The inline assembly
  (\<open>rep stosq\<close>, \<open>rep stosl\<close>, \<open>rep movsq\<close> in both directions) is modelled by its architectural
  effect, one element at a time.  A loop that looks for a NUL need not end, so those are
  partial functions whose value \<open>None\<close> is a loop that does not return; \<open>cstr\<close> says that a
  terminated string is stored at an address.
\<close>

type_synonym mem = "nat \<Rightarrow> u8"

subsection \<open>Filling memory\<close>

text \<open>Storing the bytes of a list at an address.\<close>

fun put_bytes :: "mem \<Rightarrow> nat \<Rightarrow> u8 list \<Rightarrow> mem" where
  "put_bytes m d [] = m"
| "put_bytes m d (b # bs) = put_bytes (m(d := b)) (Suc d) bs"

fun memset_head :: "mem \<Rightarrow> nat \<Rightarrow> nat \<Rightarrow> u8 \<Rightarrow> mem \<times> nat \<times> nat" where
  "memset_head m d n v = (if n > 0 \<and> d mod 8 \<noteq> 0 then memset_head (m(d := v)) (Suc d) (n - 1) v else (m, d, n))"

declare memset_head.simps [simp del]

primrec rep_stosq :: "nat \<Rightarrow> mem \<Rightarrow> nat \<Rightarrow> u64 \<Rightarrow> mem \<times> nat" where
  "rep_stosq 0 m d v = (m, d)"
| "rep_stosq (Suc q) m d v = rep_stosq q (put_bytes m d (to_le 8 (unat v))) (d + 8) v"

primrec memset_tail :: "nat \<Rightarrow> mem \<Rightarrow> nat \<Rightarrow> u8 \<Rightarrow> mem" where
  "memset_tail 0 m d v = m"
| "memset_tail (Suc n) m d v = memset_tail n (m(d := v)) (Suc d) v"

definition memset :: "mem \<Rightarrow> nat \<Rightarrow> int \<Rightarrow> nat \<Rightarrow> mem" where
  "memset m dest value n =
     (let v = word_of_int value :: u8;
          (m1, d1, n1) = memset_head m dest n v;
          (m2, d2, n2) =
            (if n1 \<ge> 8 then
               let v64 = (ucast v :: u64) * 0x0101010101010101;
                   (m', d') = rep_stosq (n1 div 8) m1 d1 v64
               in (m', d', n1 mod 8)
             else (m1, d1, n1))
      in memset_tail n2 m2 d2 v)"

primrec rep_stosl :: "nat \<Rightarrow> mem \<Rightarrow> nat \<Rightarrow> u32 \<Rightarrow> mem" where
  "rep_stosl 0 m d v = m"
| "rep_stosl (Suc q) m d v = rep_stosl q (put_bytes m d (to_le 4 (unat v))) (d + 4) v"

definition memset32 :: "mem \<Rightarrow> nat \<Rightarrow> u32 \<Rightarrow> nat \<Rightarrow> mem" where
  "memset32 m dest value count = rep_stosl count m dest value"

subsection \<open>Copying memory\<close>

fun copy_head :: "mem \<Rightarrow> nat \<Rightarrow> nat \<Rightarrow> nat \<Rightarrow> mem \<times> nat \<times> nat \<times> nat" where
  "copy_head m d s n =
     (if n > 0 \<and> d mod 8 \<noteq> 0 then copy_head (m(d := m s)) (Suc d) (Suc s) (n - 1) else (m, d, s, n))"

declare copy_head.simps [simp del]

primrec rep_movsq :: "nat \<Rightarrow> mem \<Rightarrow> nat \<Rightarrow> nat \<Rightarrow> mem \<times> nat \<times> nat" where
  "rep_movsq 0 m d s = (m, d, s)"
| "rep_movsq (Suc q) m d s = rep_movsq q (put_bytes m d (map m [s..<s + 8])) (d + 8) (s + 8)"

primrec copy_tail :: "nat \<Rightarrow> mem \<Rightarrow> nat \<Rightarrow> nat \<Rightarrow> mem" where
  "copy_tail 0 m d s = m"
| "copy_tail (Suc n) m d s = copy_tail n (m(d := m s)) (Suc d) (Suc s)"

definition memcpy :: "mem \<Rightarrow> nat \<Rightarrow> nat \<Rightarrow> nat \<Rightarrow> mem" where
  "memcpy m dest src n =
     (let (m1, d1, s1, n1) = copy_head m dest src n;
          (m2, d2, s2, n2) =
            (if n1 \<ge> 8 then let (m', d', s') = rep_movsq (n1 div 8) m1 d1 s1 in (m', d', s', n1 mod 8)
             else (m1, d1, s1, n1))
      in copy_tail n2 m2 d2 s2)"

text \<open>The descending half of \<open>memmove\<close>; \<open>d\<close> and \<open>s\<close> point one past the next byte.\<close>

fun back_head :: "mem \<Rightarrow> nat \<Rightarrow> nat \<Rightarrow> nat \<Rightarrow> mem \<times> nat \<times> nat \<times> nat" where
  "back_head m d s n =
     (if n > 0 \<and> d mod 8 \<noteq> 0 then back_head (m(d - 1 := m (s - 1))) (d - 1) (s - 1) (n - 1) else (m, d, s, n))"

declare back_head.simps [simp del]

text \<open>
  With the direction flag set each step stores the quadword at \<open>s\<close> to \<open>d\<close> and then subtracts 8.
  The registers start 8 below the pointers, and 8 is added back after the last step.
\<close>

primrec rep_movsq_down :: "nat \<Rightarrow> mem \<Rightarrow> nat \<Rightarrow> nat \<Rightarrow> mem \<times> nat \<times> nat" where
  "rep_movsq_down 0 m d s = (m, d, s)"
| "rep_movsq_down (Suc q) m d s =
     rep_movsq_down q (put_bytes m (d - 8) (map m [s - 8..<s])) (d - 8) (s - 8)"

primrec back_tail :: "nat \<Rightarrow> mem \<Rightarrow> nat \<Rightarrow> nat \<Rightarrow> mem" where
  "back_tail 0 m d s = m"
| "back_tail (Suc n) m d s = back_tail n (m(d - 1 := m (s - 1))) (d - 1) (s - 1)"

definition memmove :: "mem \<Rightarrow> nat \<Rightarrow> nat \<Rightarrow> nat \<Rightarrow> mem" where
  "memmove m dest src n =
     (if dest = src \<or> n = 0 then m
      else if dest < src then
        let (m1, d1, s1, n1) = copy_head m dest src n;
            (m2, d2, s2, n2) =
              (if n1 \<ge> 8 then let (m', d', s') = rep_movsq (n1 div 8) m1 d1 s1 in (m', d', s', n1 mod 8)
               else (m1, d1, s1, n1))
        in copy_tail n2 m2 d2 s2
      else
        let (m1, d1, s1, n1) = back_head m (dest + n) (src + n) n;
            (m2, d2, s2, n2) =
              (if n1 \<ge> 8 then let (m', d', s') = rep_movsq_down (n1 div 8) m1 d1 s1 in (m', d', s', n1 mod 8)
               else (m1, d1, s1, n1))
        in back_tail n2 m2 d2 s2)"

subsection \<open>Comparing and measuring\<close>

function memcmp_from :: "mem \<Rightarrow> nat \<Rightarrow> nat \<Rightarrow> nat \<Rightarrow> nat \<Rightarrow> int" where
  "memcmp_from m a b n i =
     (if i < n then
        if m (a + i) \<noteq> m (b + i) then uint (m (a + i)) - uint (m (b + i))
        else memcmp_from m a b n (Suc i)
      else 0)"
  by auto
termination by (relation "measure (\<lambda>(m, a, b, n, i). n - i)") auto

declare memcmp_from.simps [simp del]

definition memcmp :: "mem \<Rightarrow> nat \<Rightarrow> nat \<Rightarrow> nat \<Rightarrow> int" where
  "memcmp m a b n = memcmp_from m a b n 0"

partial_function (option) strlen_from :: "mem \<Rightarrow> nat \<Rightarrow> nat \<Rightarrow> nat option" where
  [code]: "strlen_from m s n = (if s \<noteq> 0 \<and> m (s + n) \<noteq> 0 then strlen_from m s (Suc n) else Some n)"

definition strlen :: "mem \<Rightarrow> nat \<Rightarrow> nat option" where
  "strlen m s = strlen_from m s 0"

function strnlen_from :: "mem \<Rightarrow> nat \<Rightarrow> nat \<Rightarrow> nat \<Rightarrow> nat" where
  "strnlen_from m s maxlen n = (if s \<noteq> 0 \<and> n < maxlen \<and> m (s + n) \<noteq> 0 then strnlen_from m s maxlen (Suc n) else n)"
  by auto
termination by (relation "measure (\<lambda>(m, s, x, n). x - n)") auto

declare strnlen_from.simps [simp del]

definition strnlen :: "mem \<Rightarrow> nat \<Rightarrow> nat \<Rightarrow> nat" where
  "strnlen m s maxlen = strnlen_from m s maxlen 0"

partial_function (option) strcmp :: "mem \<Rightarrow> nat \<Rightarrow> nat \<Rightarrow> int option" where
  [code]: "strcmp m a b =
     (if m a \<noteq> 0 \<and> m a = m b then strcmp m (Suc a) (Suc b) else Some (uint (m a) - uint (m b)))"

fun strncmp :: "mem \<Rightarrow> nat \<Rightarrow> nat \<Rightarrow> nat \<Rightarrow> int" where
  "strncmp m a b n =
     (if n \<noteq> 0 \<and> m a \<noteq> 0 \<and> m a = m b then strncmp m (Suc a) (Suc b) (n - 1)
      else if n = 0 then 0 else uint (m a) - uint (m b))"

declare strncmp.simps [simp del]

subsection \<open>Copying and searching strings\<close>

partial_function (option) strcpy :: "mem \<Rightarrow> nat \<Rightarrow> nat \<Rightarrow> mem option" where
  [code]: "strcpy m d s =
     (let m' = m(d := m s) in if m s \<noteq> 0 then strcpy m' (Suc d) (Suc s) else Some m')"

text \<open>The two loops of \<open>strncpy\<close>.\<close>

function strncpy_copy :: "mem \<Rightarrow> nat \<Rightarrow> nat \<Rightarrow> nat \<Rightarrow> nat \<Rightarrow> mem \<times> nat" where
  "strncpy_copy m dest src n i =
     (if i < n \<and> m (src + i) \<noteq> 0 then strncpy_copy (m(dest + i := m (src + i))) dest src n (Suc i) else (m, i))"
  by auto
termination by (relation "measure (\<lambda>(m, d, s, n, i). n - i)") auto

declare strncpy_copy.simps [simp del]

function strncpy_pad :: "mem \<Rightarrow> nat \<Rightarrow> nat \<Rightarrow> nat \<Rightarrow> mem" where
  "strncpy_pad m dest n i = (if i < n then strncpy_pad (m(dest + i := 0)) dest n (Suc i) else m)"
  by auto
termination by (relation "measure (\<lambda>(m, d, n, i). n - i)") auto

declare strncpy_pad.simps [simp del]

definition strncpy :: "mem \<Rightarrow> nat \<Rightarrow> nat \<Rightarrow> nat \<Rightarrow> mem" where
  "strncpy m dest src n = (let (m1, i) = strncpy_copy m dest src n 0 in strncpy_pad m1 dest n i)"

definition strcat :: "mem \<Rightarrow> nat \<Rightarrow> nat \<Rightarrow> mem option" where
  "strcat m dest src = Option.bind (strlen m dest) (\<lambda>k. strcpy m (dest + k) src)"

text \<open>A pointer result is \<open>0\<close> for \<open>NULL\<close>; the outer option is termination.\<close>

partial_function (option) strchr :: "mem \<Rightarrow> nat \<Rightarrow> int \<Rightarrow> nat option" where
  [code]: "strchr m s c =
     (if m s \<noteq> 0 then if m s = word_of_int c then Some s else strchr m (Suc s) c
      else Some (if c = 0 then s else 0))"

partial_function (option) strrchr_from :: "mem \<Rightarrow> nat \<Rightarrow> int \<Rightarrow> nat \<Rightarrow> nat option" where
  [code]: "strrchr_from m s c found =
     (if m s \<noteq> 0 then strrchr_from m (Suc s) c (if m s = word_of_int c then s else found)
      else Some (if c = 0 then s else found))"

definition strrchr :: "mem \<Rightarrow> nat \<Rightarrow> int \<Rightarrow> nat option" where
  "strrchr m s c = strrchr_from m s c 0"

text \<open>The inner loop of \<open>strstr\<close> returns where the needle pointer stopped.\<close>

partial_function (option) strstr_match :: "mem \<Rightarrow> nat \<Rightarrow> nat \<Rightarrow> nat option" where
  [code]: "strstr_match m h n =
     (if m h \<noteq> 0 \<and> m n \<noteq> 0 \<and> m h = m n then strstr_match m (Suc h) (Suc n) else Some n)"

partial_function (option) strstr_loop :: "mem \<Rightarrow> nat \<Rightarrow> nat \<Rightarrow> nat option" where
  [code]: "strstr_loop m haystack needle =
     (if m haystack \<noteq> 0 then
        Option.bind (strstr_match m haystack needle)
          (\<lambda>n. if m n = 0 then Some haystack else strstr_loop m (Suc haystack) needle)
      else Some 0)"

definition strstr :: "mem \<Rightarrow> nat \<Rightarrow> nat \<Rightarrow> nat option" where
  "strstr m haystack needle = (if m needle = 0 then Some haystack else strstr_loop m haystack needle)"

subsection \<open>Numbers\<close>

text \<open>
  \<open>long\<close> is a 64-bit word read with \<open>sint\<close>; the wrap-around of \<open>value * base + digit\<close> is what the
  machine code does where C leaves it undefined.
\<close>

definition chr :: "char \<Rightarrow> u8" where
  "chr c = word_of_nat (of_char c)"

definition strtol_digit :: "u8 \<Rightarrow> int option" where
  "strtol_digit c =
     (if chr CHR ''0'' \<le> c \<and> c \<le> chr CHR ''9'' then Some (uint c - uint (chr CHR ''0''))
      else if chr CHR ''a'' \<le> c \<and> c \<le> chr CHR ''f'' then Some (uint c - uint (chr CHR ''a'') + 10)
      else if chr CHR ''A'' \<le> c \<and> c \<le> chr CHR ''F'' then Some (uint c - uint (chr CHR ''A'') + 10)
      else None)"

partial_function (option) strtol_space :: "mem \<Rightarrow> nat \<Rightarrow> nat option" where
  [code]: "strtol_space m s =
     (if m s = chr CHR '' '' \<or> m s = 9 \<or> m s = 10 then strtol_space m (Suc s) else Some s)"

partial_function (option) strtol_digits :: "mem \<Rightarrow> nat \<Rightarrow> int \<Rightarrow> u64 \<Rightarrow> (u64 \<times> nat) option" where
  [code]: "strtol_digits m s base value =
     (if m s \<noteq> 0 \<and> strtol_digit (m s) \<noteq> None \<and> the (strtol_digit (m s)) < base
      then strtol_digits m (Suc s) base (value * word_of_int base + word_of_int (the (strtol_digit (m s))))
      else Some (value, s))"

definition strtol :: "mem \<Rightarrow> nat \<Rightarrow> int \<Rightarrow> (int \<times> nat) option" where
  "strtol m s base =
     Option.bind (strtol_space m s) (\<lambda>s0.
       let (sign, s1) = (if m s0 = chr CHR ''-'' then (-1, Suc s0)
                         else if m s0 = chr CHR ''+'' then (1, Suc s0) else (1, s0));
           (base1, s2) = (if (base = 0 \<or> base = 16) \<and> m s1 = chr CHR ''0'' \<and>
                             (m (Suc s1) = chr CHR ''x'' \<or> m (Suc s1) = chr CHR ''X'')
                          then (16, s1 + 2) else (base, s1));
           base2 = (if base1 = 0 then (if m s2 = chr CHR ''0'' then 8 else 10) else base1)
       in Option.bind (strtol_digits m s2 base2 0) (\<lambda>(value, s3). Some (sint (value * word_of_int sign), s3)))"

definition atoi :: "mem \<Rightarrow> nat \<Rightarrow> int option" where
  "atoi m s = map_option (\<lambda>(v, _). sint (word_of_int v :: 32 word)) (strtol m s 10)"

subsection \<open>The block operations and their reference definitions\<close>

definition fill_ref :: "mem \<Rightarrow> nat \<Rightarrow> nat \<Rightarrow> u8 \<Rightarrow> mem" where
  "fill_ref m d n v = (\<lambda>a. if d \<le> a \<and> a < d + n then v else m a)"

definition copy_ref :: "mem \<Rightarrow> nat \<Rightarrow> nat \<Rightarrow> nat \<Rightarrow> mem" where
  "copy_ref m d s n = (\<lambda>a. if d \<le> a \<and> a < d + n then m (s + (a - d)) else m a)"

lemma put_bytes_eq: "put_bytes m d bs = (\<lambda>a. if d \<le> a \<and> a < d + length bs then bs ! (a - d) else m a)"
proof (induction bs arbitrary: m d)
  case (Cons b bs)
  show ?case
    unfolding put_bytes.simps Cons.IH by (rule ext) (auto simp: nth_Cons')
qed (rule ext, auto)

lemma put_bytes_replicate: "put_bytes m d (replicate n v) = fill_ref m d n v"
  unfolding put_bytes_eq fill_ref_def by (rule ext) auto

lemma put_bytes_copy: "put_bytes m d (map m [s..<s + n]) = copy_ref m d s n"
  unfolding put_bytes_eq copy_ref_def by (rule ext) auto

lemma fill_ref_0 [simp]: "fill_ref m d 0 v = m"
  by (rule ext) (auto simp: fill_ref_def)

lemma fill_ref_add: "fill_ref (fill_ref m d k v) (d + k) n v = fill_ref m d (k + n) v"
  unfolding fill_ref_def by (rule ext) auto

lemma fill_ref_1: "m(d := v) = fill_ref m d 1 v"
  unfolding fill_ref_def by (rule ext) auto

lemma copy_ref_0 [simp]: "copy_ref m d s 0 = m"
  by (rule ext) (auto simp: copy_ref_def)

lemma copy_ref_1: "m(d := m s) = copy_ref m d s 1"
  unfolding copy_ref_def by (rule ext) auto

lemma copy_ref_up:
  "d \<le> s \<or> s + (k + n) \<le> d \<Longrightarrow> copy_ref (copy_ref m d s k) (d + k) (s + k) n = copy_ref m d s (k + n)"
  unfolding copy_ref_def by (rule ext) auto

lemma copy_ref_down: "s \<le> d \<Longrightarrow> copy_ref (copy_ref m (d + j) (s + j) k) d s j = copy_ref m d s (j + k)"
  unfolding copy_ref_def by (rule ext) auto

subsection \<open>\<open>memset\<close>\<close>

text \<open>Every byte of the broadcast quadword is the fill byte.\<close>

lemma broadcast_bytes: "to_le 8 (unat ((ucast v :: u64) * 0x0101010101010101)) = replicate 8 (v :: u8)"
proof -
  have "replicate 8 v = [v, v, v, v, v, v, v, v]" by (simp add: numeral_eq_Suc)
  then have le: "le_nat (replicate 8 v) = unat v * 0x0101010101010101" by simp
  have "unat v \<le> 255" using unat_u8_bound [of v] by arith
  then have "unat v * 0x0101010101010101 < 2 ^ 64" by simp
  then have "unat ((ucast v :: u64) * 0x0101010101010101) = unat v * 0x0101010101010101"
    by (subst unat_mult_lem [THEN iffD1]) (simp_all add: unsigned_ucast_eq take_bit_nat_eq_self)
  then show ?thesis using to_le_le_nat [of "replicate 8 v"] by (simp only: le length_replicate)
qed

lemma memset_head_eq:
  "memset_head m d n v = (m', d', n') \<Longrightarrow> \<exists>k. m' = fill_ref m d k v \<and> d' = d + k \<and> n = k + n'"
proof (induction m d n v arbitrary: m' d' n' rule: memset_head.induct)
  case (1 m d n v)
  show ?case
  proof (cases "n > 0 \<and> d mod 8 \<noteq> 0")
    case True
    then obtain k where k: "m' = fill_ref (m(d := v)) (Suc d) k v" "d' = Suc d + k" "n - 1 = k + n'"
      using 1(1) [OF True] 1(2) memset_head.simps [of m d n v] by (auto simp: True simp del: fun_upd_apply)
    have "m' = fill_ref m d (1 + k) v" using k(1) fill_ref_add [of m d 1 v k] by (simp add: fill_ref_1)
    then show ?thesis using k True by (intro exI [of _ "1 + k"]) auto
  next
    case False
    then have "memset_head m d n v = (m, d, n)" by (subst memset_head.simps) (rule if_not_P)
    then show ?thesis using 1(2) by (intro exI [of _ 0]) auto
  qed
qed

lemma rep_stosq_eq: "to_le 8 (unat w) = replicate 8 v \<Longrightarrow> rep_stosq q m d w = (fill_ref m d (8 * q) v, d + 8 * q)"
proof (induction q arbitrary: m d)
  case (Suc q)
  then show ?case using fill_ref_add [of m d 8 v "8 * q"] by (simp add: put_bytes_replicate add.assoc)
qed simp

lemma memset_tail_eq: "memset_tail n m d v = fill_ref m d n v"
proof (induction n arbitrary: m d)
  case (Suc n)
  then show ?case using fill_ref_add [of m d 1 v n] by (simp add: fill_ref_1)
qed simp

text \<open>
  \<open>memset\<close>, with its unaligned head, its quadword loop and its tail, writes the low byte of
  \<open>value\<close> to exactly the \<open>n\<close> bytes at \<open>dest\<close>, for every alignment and length.
\<close>

lemma memset_correct:
  "memset m dest value n = (\<lambda>a. if dest \<le> a \<and> a < dest + n then word_of_int value else m a)"
proof -
  let ?v = "word_of_int value :: u8"
  obtain m1 d1 n1 where h: "memset_head m dest n ?v = (m1, d1, n1)" by (metis prod_cases3)
  obtain k where k: "m1 = fill_ref m dest k ?v" "d1 = dest + k" "n = k + n1" using memset_head_eq [OF h] by blast
  have "memset m dest value n = fill_ref m1 d1 n1 ?v"
  proof (cases "n1 \<ge> 8")
    case True
    have "8 * (n1 div 8) + n1 mod 8 = n1" by simp
    then show ?thesis
      using True fill_ref_add [of m1 d1 "8 * (n1 div 8)" ?v "n1 mod 8"] rep_stosq_eq [OF broadcast_bytes]
      by (simp add: memset_def h memset_tail_eq)
  qed (simp add: memset_def h memset_tail_eq)
  then show ?thesis using k fill_ref_add [of m dest k ?v n1] by (simp add: fill_ref_def)
qed

subsection \<open>\<open>memcpy\<close> and \<open>memmove\<close>\<close>

lemma copy_head_eq:
  "copy_head m d s n = (m', d', s', n') \<Longrightarrow> d \<le> s \<or> s + n \<le> d \<Longrightarrow>
   \<exists>k. m' = copy_ref m d s k \<and> d' = d + k \<and> s' = s + k \<and> n = k + n'"
proof (induction m d s n arbitrary: m' d' s' n' rule: copy_head.induct)
  case (1 m d s n)
  show ?case
  proof (cases "n > 0 \<and> d mod 8 \<noteq> 0")
    case True
    then have side: "Suc d \<le> Suc s \<or> Suc s + (n - 1) \<le> Suc d" using 1(3) by auto
    have "copy_head (m(d := m s)) (Suc d) (Suc s) (n - 1) = (m', d', s', n')"
      using 1(2) copy_head.simps [of m d s n] by (simp only: True if_True simp_thms)
    from 1(1) [OF True this side]
    obtain k where k: "m' = copy_ref (m(d := m s)) (Suc d) (Suc s) k" "d' = Suc d + k" "s' = Suc s + k" "n - 1 = k + n'"
      by blast
    have "m' = copy_ref m d s (1 + k)"
      using k(1) copy_ref_up [of d s 1 k m] 1(3) k(4) True by (simp only: copy_ref_1) auto
    then show ?thesis using k True by (intro exI [of _ "1 + k"]) auto
  next
    case False
    then have "copy_head m d s n = (m, d, s, n)" by (subst copy_head.simps) (rule if_not_P)
    then show ?thesis using 1(2) by (intro exI [of _ 0]) auto
  qed
qed

lemma rep_movsq_eq:
  "d \<le> s \<or> s + 8 * q \<le> d \<Longrightarrow> rep_movsq q m d s = (copy_ref m d s (8 * q), d + 8 * q, s + 8 * q)"
proof (induction q arbitrary: m d s)
  case (Suc q)
  then have "rep_movsq q (copy_ref m d s 8) (d + 8) (s + 8) =
      (copy_ref (copy_ref m d s 8) (d + 8) (s + 8) (8 * q), d + 8 + 8 * q, s + 8 + 8 * q)"
    by (intro Suc.IH) auto
  then show ?case using copy_ref_up [of d s 8 "8 * q" m] Suc.prems by (simp add: put_bytes_copy add.assoc)
qed simp

lemma copy_tail_eq: "d \<le> s \<or> s + n \<le> d \<Longrightarrow> copy_tail n m d s = copy_ref m d s n"
proof (induction n arbitrary: m d s)
  case (Suc n)
  then have "copy_tail n (m(d := m s)) (Suc d) (Suc s) = copy_ref (m(d := m s)) (Suc d) (Suc s) n"
    by (intro Suc.IH) auto
  then show ?case using copy_ref_up [of d s 1 n m] Suc.prems by (simp only: copy_tail.simps copy_ref_1) auto
qed simp

lemma memcpy_eq:
  assumes "dest \<le> src \<or> src + n \<le> dest"
  shows "memcpy m dest src n = copy_ref m dest src n"
proof -
  obtain m1 d1 s1 n1 where h: "copy_head m dest src n = (m1, d1, s1, n1)" by (metis prod_cases4)
  obtain k where k: "m1 = copy_ref m dest src k" "d1 = dest + k" "s1 = src + k" "n = k + n1"
    using copy_head_eq [OF h assms] by blast
  have side: "d1 \<le> s1 \<or> s1 + n1 \<le> d1" using assms k by auto
  have n1: "8 * (n1 div 8) + n1 mod 8 = n1" by simp
  have "memcpy m dest src n = copy_ref m1 d1 s1 n1"
  proof (cases "n1 \<ge> 8")
    case True
    have "rep_movsq (n1 div 8) m1 d1 s1 = (copy_ref m1 d1 s1 (8 * (n1 div 8)), d1 + 8 * (n1 div 8), s1 + 8 * (n1 div 8))"
      using side n1 by (intro rep_movsq_eq) auto
    moreover have "copy_tail (n1 mod 8) x (d1 + 8 * (n1 div 8)) (s1 + 8 * (n1 div 8)) =
        copy_ref x (d1 + 8 * (n1 div 8)) (s1 + 8 * (n1 div 8)) (n1 mod 8)" for x
      using side n1 by (intro copy_tail_eq) auto
    ultimately show ?thesis
      using True copy_ref_up [of d1 s1 "8 * (n1 div 8)" "n1 mod 8" m1] side by (simp add: memcpy_def h n1)
  next
    case False
    then show ?thesis using side by (simp add: memcpy_def h copy_tail_eq)
  qed
  then show ?thesis using k copy_ref_up [of dest src k n1 m] assms by simp
qed

text \<open>The descending half: \<open>d\<close> and \<open>s\<close> are one past the block that is left.\<close>

lemma back_head_eq:
  "back_head m (d + n) (s + n) n = (m', d', s', n') \<Longrightarrow> s \<le> d \<Longrightarrow>
   \<exists>k. m' = copy_ref m (d + n') (s + n') k \<and> d' = d + n' \<and> s' = s + n' \<and> n = n' + k"
proof (induction n arbitrary: m m' d' s' n')
  case 0
  then show ?case by (subst (asm) back_head.simps) auto
next
  case (Suc n)
  show ?case
  proof (cases "(d + Suc n) mod 8 = 0")
    case True
    then have "back_head m (d + Suc n) (s + Suc n) (Suc n) = (m, d + Suc n, s + Suc n, Suc n)"
      by (subst back_head.simps) simp
    then show ?thesis using Suc.prems by (intro exI [of _ 0]) auto
  next
    case False
    have "back_head m (d + Suc n) (s + Suc n) (Suc n) = back_head (m(d + n := m (s + n))) (d + n) (s + n) n"
      using False by (subst back_head.simps) simp
    then obtain k where k: "m' = copy_ref (m(d + n := m (s + n))) (d + n') (s + n') k" "d' = d + n'" "s' = s + n'" "n = n' + k"
      using Suc.IH Suc.prems by metis
    have "m' = copy_ref m (d + n') (s + n') (k + 1)"
      using copy_ref_down [of "s + n'" "d + n'" m k 1] Suc.prems(2) k(1,4) by (simp only: copy_ref_1) (simp add: add.assoc)
    then show ?thesis using k by (intro exI [of _ "k + 1"]) auto
  qed
qed

lemma rep_movsq_down_eq:
  "s \<le> d \<Longrightarrow> rep_movsq_down q m (d + 8 * q) (s + 8 * q) = (copy_ref m d s (8 * q), d, s)"
proof (induction q arbitrary: m)
  case (Suc q)
  have "rep_movsq_down (Suc q) m (d + 8 * Suc q) (s + 8 * Suc q) =
      rep_movsq_down q (copy_ref m (d + 8 * q) (s + 8 * q) 8) (d + 8 * q) (s + 8 * q)"
    using put_bytes_copy [of m "d + 8 * q" "s + 8 * q" 8] by (simp add: ac_simps)
  then show ?case using Suc copy_ref_down [of s d m "8 * q" 8] by (simp add: add.commute)
qed simp

lemma back_tail_eq: "s \<le> d \<Longrightarrow> back_tail n m (d + n) (s + n) = copy_ref m d s n"
proof (induction n arbitrary: m)
  case (Suc n)
  have "back_tail (Suc n) m (d + Suc n) (s + Suc n) = back_tail n (m(d + n := m (s + n))) (d + n) (s + n)" by simp
  also have "\<dots> = copy_ref (m(d + n := m (s + n))) d s n" by (rule Suc.IH [OF Suc.prems])
  also have "\<dots> = copy_ref m d s (n + 1)" using copy_ref_down [OF Suc.prems, of m n 1] by (simp only: copy_ref_1)
  finally show ?case by simp
qed simp

lemma memmove_back:
  assumes "src < dest"
  shows "memmove m dest src n = copy_ref m dest src n"
proof (cases "n = 0")
  case False
  obtain m1 d1 s1 n1 where h: "back_head m (dest + n) (src + n) n = (m1, d1, s1, n1)" by (metis prod_cases4)
  obtain k where k: "m1 = copy_ref m (dest + n1) (src + n1) k" "d1 = dest + n1" "s1 = src + n1" "n = n1 + k"
    using back_head_eq [OF h] assms by auto
  let ?r = "n1 mod 8"
  have n1: "?r + 8 * (n1 div 8) = n1" by simp
  have "memmove m dest src n = copy_ref m1 dest src n1"
  proof (cases "n1 \<ge> 8")
    case True
    have "rep_movsq_down (n1 div 8) m1 (dest + ?r + 8 * (n1 div 8)) (src + ?r + 8 * (n1 div 8)) =
        (copy_ref m1 (dest + ?r) (src + ?r) (8 * (n1 div 8)), dest + ?r, src + ?r)"
      using assms by (intro rep_movsq_down_eq) simp
    then have "rep_movsq_down (n1 div 8) m1 d1 s1 = (copy_ref m1 (dest + ?r) (src + ?r) (8 * (n1 div 8)), dest + ?r, src + ?r)"
      using k(2,3) n1 by (simp add: add.assoc)
    then show ?thesis
      using True False assms back_tail_eq [of src dest ?r] copy_ref_down [of src dest m1 ?r "8 * (n1 div 8)"] n1
      by (simp add: memmove_def h)
  next
    case less: False
    then show ?thesis using False assms k(2,3) back_tail_eq [of src dest n1 m1] by (simp add: memmove_def h)
  qed
  then show ?thesis using k copy_ref_down [of src dest m n1 k] assms by simp
qed (simp add: memmove_def)

text \<open>
  C7: \<open>memmove\<close> copies the \<open>n\<close> bytes at \<open>src\<close> to \<open>dest\<close> as they were before the call and touches
  nothing else, for every overlap, alignment and length; the ascending and the descending
  quadword loops never read a byte they have already overwritten.
\<close>

theorem memmove_correct:
  "memmove m dest src n = (\<lambda>a. if dest \<le> a \<and> a < dest + n then m (src + (a - dest)) else m a)"
proof -
  consider "dest = src \<or> n = 0" | "n \<noteq> 0" "dest < src" | "src < dest" by linarith
  then have "memmove m dest src n = copy_ref m dest src n"
  proof cases
    case 1
    then show ?thesis by (auto simp: memmove_def copy_ref_def intro!: ext)
  next
    case 2
    then have "memmove m dest src n = memcpy m dest src n" by (simp add: memmove_def memcpy_def)
    then show ?thesis using 2 by (simp add: memcpy_eq)
  qed (rule memmove_back)
  then show ?thesis by (simp add: copy_ref_def)
qed

text \<open>
  \<open>memcpy\<close> copies like \<open>memmove\<close> when the blocks are disjoint, and also when they overlap
  with the destination below the source.
\<close>

lemma memcpy_correct:
  assumes "dest \<le> src \<or> src + n \<le> dest"
  shows "memcpy m dest src n = (\<lambda>a. if dest \<le> a \<and> a < dest + n then m (src + (a - dest)) else m a)"
  using memcpy_eq [OF assms] by (simp add: copy_ref_def)

subsection \<open>Terminated strings\<close>

fun cstr :: "mem \<Rightarrow> nat \<Rightarrow> u8 list \<Rightarrow> bool" where
  "cstr m a [] \<longleftrightarrow> m a = 0"
| "cstr m a (x # xs) \<longleftrightarrow> m a = x \<and> x \<noteq> 0 \<and> cstr m (Suc a) xs"

lemma cstr_bytes: "cstr m a xs \<longleftrightarrow> bytes_at m a (xs @ [0]) \<and> 0 \<notin> set xs"
proof (induction xs arbitrary: a)
  case (Cons x xs)
  have "bytes_at m a ((x # xs) @ [0]) \<longleftrightarrow> m a = x \<and> bytes_at m (Suc a) (xs @ [0])"
    using bytes_at_append [of m a "[x]" "xs @ [0]"] by (simp add: bytes_at_def)
  then show ?case using Cons by auto
qed (simp add: bytes_at_def)

lemma cstr_frame: "cstr m a xs \<Longrightarrow> (\<And>i. i \<le> length xs \<Longrightarrow> m' (a + i) = m (a + i)) \<Longrightarrow> cstr m' a xs"
proof (induction xs arbitrary: a)
  case Nil
  then show ?case using Nil(2) [of 0] by simp
next
  case (Cons x xs)
  have "cstr m' (Suc a) xs" using Cons.prems Cons.prems(2) [of "Suc _"] by (intro Cons.IH) auto
  then show ?case using Cons.prems(1) Cons.prems(2) [of 0] by simp
qed

lemma cstr_upd:
  assumes "cstr m a xs" and "d < a \<or> a + length xs < d"
  shows "cstr (m(d := v)) a xs"
proof (rule cstr_frame [OF assms(1)])
  fix i assume "i \<le> length xs"
  then have "a + i \<noteq> d" using assms(2) by linarith
  then show "(m(d := v)) (a + i) = m (a + i)" by simp
qed

lemma bytes_at_frame: "bytes_at m a bs \<Longrightarrow> (\<And>i. i < length bs \<Longrightarrow> m' (a + i) = m (a + i)) \<Longrightarrow> bytes_at m' a bs"
  unfolding bytes_at_def [of m'] by (rule nth_equalityI) (simp_all add: bytes_at_nth)

lemma cstr_append: "cstr m a (xs @ ys) \<Longrightarrow> cstr m (a + length xs) ys"
proof (induction xs arbitrary: a)
  case (Cons x xs)
  then show ?case using Cons.IH [of "Suc a"] by simp
qed simp

lemma cstr_unique: "cstr m a xs \<Longrightarrow> cstr m a ys \<Longrightarrow> xs = ys"
proof (induction xs arbitrary: a ys)
  case Nil
  then show ?case by (cases ys) auto
next
  case (Cons x xs)
  then show ?case by (cases ys) auto
qed

lemma strlen_from_eq: "s \<noteq> 0 \<Longrightarrow> cstr m (s + n) xs \<Longrightarrow> strlen_from m s n = Some (n + length xs)"
proof (induction xs arbitrary: n)
  case Nil
  then show ?case by (subst strlen_from.simps) simp
next
  case (Cons x xs)
  then show ?case using Cons.IH [of "Suc n"] by (subst strlen_from.simps) simp
qed

lemma strlen_eq: "s \<noteq> 0 \<Longrightarrow> cstr m s xs \<Longrightarrow> strlen m s = Some (length xs)"
  using strlen_from_eq [of s m 0] by (simp add: strlen_def)

lemma strnlen_from_eq: "s \<noteq> 0 \<Longrightarrow> cstr m (s + n) xs \<Longrightarrow> n \<le> k \<Longrightarrow> strnlen_from m s k n = min k (n + length xs)"
proof (induction xs arbitrary: n)
  case Nil
  then show ?case by (subst strnlen_from.simps) simp
next
  case (Cons x xs)
  then show ?case using Cons.IH [of "Suc n"] by (subst strnlen_from.simps) auto
qed

lemma strnlen_eq: "s \<noteq> 0 \<Longrightarrow> cstr m s xs \<Longrightarrow> strnlen m s k = min k (length xs)"
  using strnlen_from_eq [of s m 0] by (simp add: strnlen_def)

subsection \<open>Comparison\<close>

fun strcmp_ref :: "u8 list \<Rightarrow> u8 list \<Rightarrow> int" where
  "strcmp_ref [] [] = 0"
| "strcmp_ref [] (y # ys) = - uint y"
| "strcmp_ref (x # xs) [] = uint x"
| "strcmp_ref (x # xs) (y # ys) = (if x = y then strcmp_ref xs ys else uint x - uint y)"

lemma strcmp_eq: "cstr m a xs \<Longrightarrow> cstr m b ys \<Longrightarrow> strcmp m a b = Some (strcmp_ref xs ys)"
proof (induction xs ys arbitrary: a b rule: strcmp_ref.induct)
  case (4 x xs y ys)
  then show ?case by (subst strcmp.simps) auto
qed (subst strcmp.simps, auto)+

lemma strncmp_eq:
  "cstr m a xs \<Longrightarrow> cstr m b ys \<Longrightarrow> strncmp m a b n = strcmp_ref (take n xs) (take n ys)"
proof (induction n arbitrary: a b xs ys)
  case 0
  then show ?case by (subst strncmp.simps) simp
next
  case (Suc n)
  then show ?case by (cases xs; cases ys) (subst strncmp.simps, auto)+
qed

lemma uint_pos: "x \<noteq> 0 \<longleftrightarrow> 0 < uint x" for x :: u8
  using uint_0_iff [of x] unsigned_greater_eq [of x, where ?'a = int] by linarith

lemma strcmp_ref_0: "0 \<notin> set xs \<Longrightarrow> 0 \<notin> set ys \<Longrightarrow> strcmp_ref xs ys = 0 \<longleftrightarrow> xs = ys"
  by (induction xs ys rule: strcmp_ref.induct) (auto simp: uint_pos word_uint_eq_iff)

lemma strcmp_ref_less:
  "0 \<notin> set xs \<Longrightarrow> 0 \<notin> set ys \<Longrightarrow> strcmp_ref xs ys < 0 \<longleftrightarrow> (xs, ys) \<in> lexord {(x, y). x < y}"
proof (induction xs ys rule: strcmp_ref.induct)
  case (2 y ys)
  then have "0 < uint y" using uint_pos [of y] by auto
  then show ?case by simp
next
  case (3 x xs)
  have "0 \<le> uint x" by simp
  then show ?case by (simp add: not_less)
next
  case (4 x xs y ys)
  then show ?case by (auto simp: word_less_alt)
qed simp

text \<open>
  \<open>strcmp\<close> on two terminated strings returns, its result is 0 exactly when the strings are
  equal and negative exactly when the first is lexicographically smaller as unsigned bytes.
  \<open>strncmp\<close> does the same on the first \<open>n\<close> bytes.
\<close>

lemma strcmp_correct:
  assumes "cstr m a xs" and "cstr m b ys"
  shows "(\<exists>r. strcmp m a b = Some r \<and> (r = 0 \<longleftrightarrow> xs = ys) \<and> (r < 0 \<longleftrightarrow> (xs, ys) \<in> lexord {(x, y). x < y})) \<and>
    (strncmp m a b n = 0 \<longleftrightarrow> take n xs = take n ys)"
proof -
  have nz: "0 \<notin> set xs" "0 \<notin> set ys" using assms cstr_bytes by blast+
  then have "0 \<notin> set (take n xs)" "0 \<notin> set (take n ys)" by (auto dest: in_set_takeD)
  then show ?thesis
    using strcmp_eq [OF assms] strncmp_eq [OF assms] strcmp_ref_0 [OF nz] strcmp_ref_less [OF nz] strcmp_ref_0 by auto
qed

text \<open>A memory that holds some terminated strings, for examples.\<close>

definition mem_of :: "(nat \<times> u8 list) list \<Rightarrow> mem" where
  "mem_of l = fold (\<lambda>(a, bs) m. put_bytes m a (bs @ [0])) l (\<lambda>_. 0)"

subsection \<open>Copying strings\<close>

text \<open>The source string and the destination of \<open>n\<close> bytes do not overlap.\<close>

definition apart :: "nat \<Rightarrow> nat \<Rightarrow> nat \<Rightarrow> nat \<Rightarrow> bool" where
  "apart d n s k \<longleftrightarrow> d + n \<le> s \<or> s + k \<le> d"

lemma put_bytes_outside: "a < d \<or> d + length bs \<le> a \<Longrightarrow> put_bytes m d bs a = m a"
  by (auto simp: put_bytes_eq)

lemma put_bytes_inside: "i < length bs \<Longrightarrow> put_bytes m d bs (d + i) = bs ! i"
  by (simp add: put_bytes_eq)

lemma cstr_put_bytes: "0 \<notin> set xs \<Longrightarrow> cstr (put_bytes m d (xs @ [0])) d xs"
  unfolding cstr_bytes bytes_at_def by (auto intro!: nth_equalityI simp: put_bytes_inside nth_append)

lemma strcpy_eq:
  "cstr m s ys \<Longrightarrow> d + length ys < s \<or> s + length ys < d \<Longrightarrow> strcpy m d s = Some (put_bytes m d (ys @ [0]))"
proof (induction ys arbitrary: m d s)
  case Nil
  then show ?case by (subst strcpy.simps) (simp add: Let_def)
next
  case (Cons y ys)
  have c: "cstr (m(d := y)) (Suc s) ys"
    using Cons.prems by (intro cstr_upd) auto
  have "Suc d + length ys < Suc s \<or> Suc s + length ys < Suc d" using Cons.prems(2) by auto
  from Cons.IH [OF c this]
  have "strcpy (m(d := y)) (Suc d) (Suc s) = Some (put_bytes (m(d := y)) (Suc d) (ys @ [0]))" .
  then show ?case using Cons.prems by (subst strcpy.simps) (simp add: Let_def)
qed

text \<open>
  \<open>strcat\<close> appends.  For two terminated strings whose bytes the result does not run into,
  it returns with the concatenation stored at \<open>dest\<close>, and every byte outside the appended
  part is unchanged.
\<close>

lemma strcat_correct:
  assumes d: "cstr m dest xs" and s: "cstr m src ys" and nz: "dest \<noteq> 0"
    and ap: "dest + length xs + length ys < src \<or> src + length ys < dest"
  shows "\<exists>m'. strcat m dest src = Some m' \<and> cstr m' dest (xs @ ys) \<and> strlen m' dest = Some (length xs + length ys) \<and>
    (\<forall>a. a < dest + length xs \<or> dest + length xs + length ys < a \<longrightarrow> m' a = m a)"
proof -
  let ?m = "put_bytes m (dest + length xs) (ys @ [0])"
  have r: "strcat m dest src = Some ?m"
    using strlen_eq [OF nz d] strcpy_eq [OF s, of "dest + length xs"] ap by (auto simp: strcat_def)
  have out: "?m a = m a" if "a < dest + length xs \<or> dest + length xs + length ys < a" for a
    using that by (intro put_bytes_outside) auto
  have "0 \<notin> set xs" "0 \<notin> set ys" "bytes_at m dest xs" using d s by (auto simp: cstr_bytes)
  moreover from this have "bytes_at ?m dest xs"
    by (elim bytes_at_frame) (simp add: out)
  moreover have "bytes_at ?m (dest + length xs) (ys @ [0])"
    using cstr_put_bytes [OF \<open>0 \<notin> set ys\<close>] cstr_bytes by blast
  ultimately have c: "cstr ?m dest (xs @ ys)" by (simp add: cstr_bytes)
  then show ?thesis using r out strlen_eq [OF nz c] by auto
qed

lemma strncpy_copy_eq:
  "cstr m (src + i) ys \<Longrightarrow> i \<le> n \<Longrightarrow> dest + n \<le> src + i \<or> src + i + length ys < dest \<Longrightarrow>
   strncpy_copy m dest src n i = (put_bytes m (dest + i) (take (n - i) ys), min n (i + length ys))"
proof (induction ys arbitrary: m i)
  case Nil
  then show ?case by (subst strncpy_copy.simps) simp
next
  case (Cons y ys)
  show ?case
  proof (cases "i < n")
    case True
    have c: "cstr (m(dest + i := y)) (src + Suc i) ys"
      using Cons.prems True by (intro cstr_upd) auto
    have "Suc i \<le> n" "dest + n \<le> src + Suc i \<or> src + Suc i + length ys < dest" using Cons.prems(3) True by auto
    from Cons.IH [OF c this] have "strncpy_copy (m(dest + i := y)) dest src n (Suc i) =
        (put_bytes (m(dest + i := y)) (dest + Suc i) (take (n - Suc i) ys), min n (Suc i + length ys))" .
    moreover have "n - i = Suc (n - Suc i)" using True by simp
    ultimately show ?thesis using Cons.prems True by (subst strncpy_copy.simps) simp
  next
    case False
    then show ?thesis using Cons.prems by (subst strncpy_copy.simps) simp
  qed
qed

lemma strncpy_pad_eq: "i \<le> n \<Longrightarrow> strncpy_pad m dest n i = put_bytes m (dest + i) (replicate (n - i) 0)"
proof (induction "n - i" arbitrary: m i)
  case 0
  then show ?case by (subst strncpy_pad.simps) simp
next
  case (Suc k)
  then have "n - i = Suc (n - Suc i)" "i < n" by auto
  then show ?case using Suc.hyps(1) [of "Suc i"] Suc.hyps(2) by (subst strncpy_pad.simps) simp
qed

lemma put_bytes_append: "put_bytes m d (xs @ ys) = put_bytes (put_bytes m d xs) (d + length xs) ys"
  by (induction xs arbitrary: m d) auto

text \<open>
  \<open>strncpy\<close> writes exactly \<open>n\<close> bytes: the source padded with NULs, cut at \<open>n\<close>.  The result is
  terminated only when the source is shorter than \<open>n\<close>.
\<close>

lemma strncpy_correct:
  assumes s: "cstr m src ys" and ap: "dest + n \<le> src \<or> src + length ys < dest"
  shows "strncpy m dest src n = put_bytes m dest (take n (ys @ replicate n 0)) \<and>
    (length ys < n \<longrightarrow> cstr (strncpy m dest src n) dest ys)"
proof -
  have "strncpy m dest src n = strncpy_pad (put_bytes m dest (take n ys)) dest n (min n (length ys))"
    using strncpy_copy_eq [of m src 0 ys n dest] s ap by (simp add: strncpy_def)
  also have "\<dots> = put_bytes m dest (take n (ys @ replicate n 0))"
    using strncpy_pad_eq [of "min n (length ys)" n] by (simp add: put_bytes_append min_def)
  finally have eq: "strncpy m dest src n = put_bytes m dest (take n (ys @ replicate n 0))" .
  have "cstr (put_bytes m dest (take n (ys @ replicate n 0))) dest ys" if "length ys < n"
  proof -
    have "take n (ys @ replicate n 0) = (ys @ [0]) @ replicate (n - Suc (length ys)) 0"
      using that by (cases "n - length ys") (auto simp: take_replicate min_def replicate_app_Cons_same)
    moreover have "cstr (put_bytes m dest (ys @ [0])) dest ys"
      using s by (intro cstr_put_bytes) (simp add: cstr_bytes)
    ultimately show ?thesis
      by (simp only: put_bytes_append [of m dest "ys @ [0]"]) (auto elim!: cstr_frame intro!: put_bytes_outside)
  qed
  then show ?thesis using eq by simp
qed

subsection \<open>Searching\<close>

lemma strchr_eq:
  "cstr m s xs \<Longrightarrow> strchr m s c = Some (if word_of_int c \<in> set xs
     then s + length (takeWhile (\<lambda>x. x \<noteq> word_of_int c) xs) else if c = 0 then s + length xs else 0)"
proof (induction xs arbitrary: s)
  case Nil
  then show ?case by (subst strchr.simps) simp
next
  case (Cons x xs)
  then show ?case by (subst strchr.simps) auto
qed

lemma strrchr_from_eq:
  "cstr m s xs \<Longrightarrow> strrchr_from m s c found = Some (if c = 0 then s + length xs
     else if word_of_int c \<in> set xs then s + length xs - Suc (length (takeWhile (\<lambda>x. x \<noteq> word_of_int c) (rev xs)))
     else found)"
proof (induction xs arbitrary: s found)
  case Nil
  then show ?case by (subst strrchr_from.simps) simp
next
  case (Cons x xs)
  have tw: "takeWhile P (rev xs @ [x]) = (if \<exists>y \<in> set xs. \<not> P y then takeWhile P (rev xs)
      else if P x then rev xs @ [x] else rev xs)" for P
    by (auto simp: takeWhile_append)
  show ?case using Cons by (subst strrchr_from.simps) (auto simp: tw)
qed

lemma strstr_match_eq:
  "cstr m h xs \<Longrightarrow> cstr m n ys \<Longrightarrow> \<exists>n'. strstr_match m h n = Some n' \<and> (m n' = 0 \<longleftrightarrow> take (length ys) xs = ys)"
proof (induction ys arbitrary: h n xs)
  case Nil
  then show ?case by (subst strstr_match.simps) simp
next
  case (Cons y ys)
  then show ?case by (cases xs) (subst strstr_match.simps, auto)+
qed

lemma strstr_loop_eq:
  "cstr m h xs \<Longrightarrow> cstr m n ys \<Longrightarrow> ys \<noteq> [] \<Longrightarrow> h \<noteq> 0 \<Longrightarrow>
   \<exists>p. strstr_loop m h n = Some p \<and>
     (if \<exists>i. take (length ys) (drop i xs) = ys
      then h \<le> p \<and> take (length ys) (drop (p - h) xs) = ys \<and> (\<forall>i < p - h. take (length ys) (drop i xs) \<noteq> ys)
      else p = 0)"
proof (induction xs arbitrary: h)
  case Nil
  then show ?case by (subst strstr_loop.simps) auto
next
  case (Cons x xs)
  obtain n' where n': "strstr_match m h n = Some n'" "m n' = 0 \<longleftrightarrow> take (length ys) (x # xs) = ys"
    using strstr_match_eq [OF Cons.prems(1,2)] by blast
  show ?case
  proof (cases "take (length ys) (x # xs) = ys")
    case True
    then have "strstr_loop m h n = Some h" using Cons.prems n' by (subst strstr_loop.simps) simp
    moreover have "\<exists>i. take (length ys) (drop i (x # xs)) = ys" using True by (intro exI [of _ 0]) simp
    ultimately show ?thesis using True by simp
  next
    case False
    have "cstr m (Suc h) xs" using Cons.prems by simp
    from Cons.IH [OF this Cons.prems(2,3)] obtain p where p: "strstr_loop m (Suc h) n = Some p"
       "if \<exists>i. take (length ys) (drop i xs) = ys
        then Suc h \<le> p \<and> take (length ys) (drop (p - Suc h) xs) = ys \<and> (\<forall>i < p - Suc h. take (length ys) (drop i xs) \<noteq> ys)
        else p = 0" by auto
    have l: "strstr_loop m h n = Some p" using Cons.prems n' False p(1) by (subst strstr_loop.simps) simp
    have ex: "(\<exists>i. take (length ys) (drop i (x # xs)) = ys) \<longleftrightarrow> (\<exists>i. take (length ys) (drop i xs) = ys)"
    proof
      assume "\<exists>i. take (length ys) (drop i (x # xs)) = ys"
      then obtain i where "take (length ys) (drop i (x # xs)) = ys" by blast
      then show "\<exists>i. take (length ys) (drop i xs) = ys" using False by (cases i) auto
    next
      assume "\<exists>i. take (length ys) (drop i xs) = ys"
      then obtain i where "take (length ys) (drop i xs) = ys" by blast
      then show "\<exists>i. take (length ys) (drop i (x # xs)) = ys" by (intro exI [of _ "Suc i"]) simp
    qed
    have "h \<le> p \<and> take (length ys) (drop (p - h) (x # xs)) = ys \<and> (\<forall>i < p - h. take (length ys) (drop i (x # xs)) \<noteq> ys)"
      if "\<exists>i. take (length ys) (drop i xs) = ys"
    proof -
      have "Suc h \<le> p" using p(2) that by argo
      then obtain q where q: "p = Suc h + q" using le_Suc_ex by blast
      have "take (length ys) (drop i (x # xs)) \<noteq> ys" if "i < Suc q" for i
        using that p(2) q False \<open>\<exists>i. take (length ys) (drop i xs) = ys\<close> by (cases i) auto
      then show ?thesis using p(2) q that by auto
    qed
    then show ?thesis unfolding ex using l p(2) by (intro exI [of _ p]) argo
  qed
qed

text \<open>
  \<open>strstr\<close> returns the first occurrence: a pointer into the haystack where the needle stands
  and no earlier such place, or \<open>NULL\<close> when there is none.
\<close>

lemma strstr_correct:
  assumes "cstr m h xs" and "cstr m n ys" and "h \<noteq> 0"
  shows "\<exists>p. strstr m h n = Some p \<and>
     (if \<exists>i. take (length ys) (drop i xs) = ys
      then h \<le> p \<and> take (length ys) (drop (p - h) xs) = ys \<and> (\<forall>i < p - h. take (length ys) (drop i xs) \<noteq> ys)
      else p = 0)"
proof (cases ys)
  case Nil
  then show ?thesis using assms by (simp add: strstr_def)
next
  case (Cons y zs)
  then have "m n \<noteq> 0" using assms(2) by simp
  then show ?thesis using strstr_loop_eq [OF assms(1,2) _ assms(3)] Cons by (simp add: strstr_def)
qed

subsection \<open>\<open>strtol\<close>\<close>

definition digit_val :: "int \<Rightarrow> u8 list \<Rightarrow> int" where
  "digit_val base bs = foldl (\<lambda>v b. v * base + the (strtol_digit b)) 0 bs"

definition is_digit :: "int \<Rightarrow> u8 \<Rightarrow> bool" where
  "is_digit base b \<longleftrightarrow> (\<exists>d. strtol_digit b = Some d \<and> d < base)"

lemma chr_consts:
  "chr CHR ''0'' = 48" "chr CHR ''9'' = 57" "chr CHR ''a'' = 97" "chr CHR ''f'' = 102" "chr CHR ''A'' = 65"
  "chr CHR ''F'' = 70" "chr CHR '' '' = 32" "chr CHR ''-'' = 45" "chr CHR ''+'' = 43" "chr CHR ''x'' = 120" "chr CHR ''X'' = 88"
  by (simp_all add: chr_def)

lemma strtol_digit_range: "strtol_digit b = Some d \<Longrightarrow> 48 \<le> uint b"
  by (auto simp: strtol_digit_def chr_consts word_le_def split: if_splits)

lemma digit_not_special: "strtol_digit b = Some d \<Longrightarrow> b \<noteq> 0 \<and> b \<noteq> 32 \<and> b \<noteq> 9 \<and> b \<noteq> 10 \<and> b \<noteq> 45 \<and> b \<noteq> 43"
  by (auto dest: strtol_digit_range)

lemma strtol_space_eq:
  "cstr m s (sp @ xs) \<Longrightarrow> set sp \<subseteq> {32, 9, 10} \<Longrightarrow> xs = [] \<or> hd xs \<notin> {32, 9, 10} \<Longrightarrow> strtol_space m s = Some (s + length sp)"
proof (induction sp arbitrary: s)
  case Nil
  then show ?case by (cases xs) (subst strtol_space.simps, auto simp: chr_consts)+
next
  case (Cons c sp)
  then show ?case using Cons.IH [of "Suc s"] by (subst strtol_space.simps) (auto simp: chr_consts)
qed

lemma strtol_digits_eq:
  "cstr m s (bs @ rest) \<Longrightarrow> \<forall>b \<in> set bs. is_digit base b \<Longrightarrow> rest = [] \<or> \<not> is_digit base (hd rest) \<Longrightarrow>
   strtol_digits m s base (word_of_int v) =
     Some (word_of_int (foldl (\<lambda>v b. v * base + the (strtol_digit b)) v bs), s + length bs)"
proof (induction bs arbitrary: s v)
  case Nil
  then show ?case by (cases rest) (subst strtol_digits.simps, auto simp: is_digit_def)+
next
  case (Cons b bs)
  obtain d where d: "strtol_digit b = Some d" "d < base" using Cons.prems(2) by (auto simp: is_digit_def)
  have "strtol_digits m (Suc s) base (word_of_int (v * base + d)) =
     Some (word_of_int (foldl (\<lambda>v b. v * base + the (strtol_digit b)) (v * base + d) bs), Suc s + length bs)"
    using Cons.prems by (intro Cons.IH) auto
  moreover have "strtol_digits m s base (word_of_int v) = strtol_digits m (Suc s) base (word_of_int v * word_of_int base + word_of_int d)"
    using Cons.prems(1) d by (subst strtol_digits.simps) simp
  ultimately show ?case by (simp add: d)
qed

lemma sint_small: "- (2 ^ 63) \<le> v \<Longrightarrow> v < 2 ^ 63 \<Longrightarrow> sint (word_of_int v :: u64) = v"
  unfolding sint_sbintrunc' by (rule signed_take_bit_int_eq_self) simp_all

lemma strtol_number:
  assumes c: "cstr m s (sp @ sg @ bs @ rest)" and sp: "set sp \<subseteq> {32, 9, 10}"
    and sg: "sg \<in> {[], [45], [43]}" and bs: "bs \<noteq> []" "\<forall>b \<in> set bs. is_digit base b"
    and rest: "rest = [] \<or> \<not> is_digit base (hd rest)"
    and base: "2 \<le> base" "base < 16" and fits: "digit_val base bs < 2 ^ 63" "0 \<le> digit_val base bs"
  shows "strtol m s base = Some ((if sg = [45] then - digit_val base bs else digit_val base bs),
     s + length (sp @ sg @ bs))"
proof -
  obtain b0 bs' where b0: "bs = b0 # bs'" using bs(1) by (cases bs) auto
  obtain d0 where "strtol_digit b0 = Some d0" using bs(2) b0 by (auto simp: is_digit_def)
  note ns = digit_not_special [OF this]
  let ?s0 = "s + length sp" let ?s1 = "?s0 + length sg"
  have c0: "cstr m ?s0 (sg @ bs @ rest)" using c by (rule cstr_append)
  then have c1: "cstr m ?s1 (bs @ rest)" by (rule cstr_append)
  have "strtol_space m s = Some ?s0"
    using ns sg b0 sp by (intro strtol_space_eq [OF c]) auto
  moreover have m1: "m ?s1 = b0" using c1 b0 by simp
  moreover have "m ?s0 = (if sg = [] then b0 else hd sg)" using c0 m1 sg by auto
  moreover have "strtol_digits m ?s1 base 0 = Some (word_of_int (digit_val base bs), ?s1 + length bs)"
    using strtol_digits_eq [OF c1 bs(2) rest, of 0] by (simp add: digit_val_def)
  ultimately have r: "strtol m s base = Some (sint (word_of_int (digit_val base bs) *
      word_of_int (if sg = [45] then -1 else 1) :: u64), ?s1 + length bs)"
    using sg base ns by (auto simp: strtol_def Let_def chr_consts)
  have "word_of_int (digit_val base bs) * word_of_int (if sg = [45] then -1 else 1) =
      (word_of_int (if sg = [45] then - digit_val base bs else digit_val base bs) :: u64)" by simp
  moreover have "sint (word_of_int (if sg = [45] then - digit_val base bs else digit_val base bs) :: u64) =
      (if sg = [45] then - digit_val base bs else digit_val base bs)"
    using fits by (intro sint_small) auto
  ultimately show ?thesis using r by (simp only:) (simp add: add.assoc)
qed

text \<open>
  \<open>strtol\<close> reads numbers.  On white space, an optional sign and a non-empty run of digits below
  the base (2 to 15), it returns the number they denote and a pointer to the first byte after
  them, whenever the number fits in a \<open>long\<close>.
\<close>

lemma strtol_correct:
  assumes c: "cstr m s (sp @ sg @ bs @ rest)" and sp: "set sp \<subseteq> {32, 9, 10}"
    and sg: "sg \<in> {[], [45], [43]}" and bs: "bs \<noteq> []" "\<forall>b \<in> set bs. is_digit base b"
    and rest: "rest = [] \<or> \<not> is_digit base (hd rest)"
    and base: "2 \<le> base" "base < 16" and fits: "digit_val base bs < 2 ^ 63" "0 \<le> digit_val base bs"
  shows "strtol m s base = Some ((if sg = [45] then - digit_val base bs else digit_val base bs),
     s + length (sp @ sg @ bs))"
  using assms by (rule strtol_number)

end
