(* ===== verification/Printf.thy ===== *)
theory Printf
  imports Cstring
begin

text \<open>
  The kernel's formatted output, \<^verbatim>\<open>src/kernel/lib/printf.c\<close>.  A format is the list of its bytes
  with the terminating NUL; reading past that NUL is \<open>None\<close>, as is a variadic argument of the
  wrong kind.  An integer argument is the 64-bit register it is passed in.  \<open>written\<close> and
  \<open>width\<close> are \<open>int\<close> in C and natural numbers here.
\<close>

subsection \<open>Output\<close>

record out_state =
  out_buf :: "u8 list"
  out_remaining :: nat
  out_written :: nat

definition out_char :: "u8 \<Rightarrow> out_state \<Rightarrow> out_state" where
  "out_char c st =
     (let st1 = (if out_remaining st > 1
                 then st\<lparr>out_buf := out_buf st @ [c], out_remaining := out_remaining st - 1\<rparr> else st)
      in st1\<lparr>out_written := out_written st1 + 1\<rparr>)"

definition null_string :: "u8 list" where
  "null_string = bytes_of ''(null)''"

definition out_string :: "u8 list option \<Rightarrow> out_state \<Rightarrow> out_state" where
  "out_string s st = fold out_char (case s of None \<Rightarrow> null_string | Some t \<Rightarrow> t) st"

subsection \<open>Numbers\<close>

definition digit_char :: "bool \<Rightarrow> nat \<Rightarrow> u8" where
  "digit_char upper d = bytes_of (if upper then ''0123456789ABCDEF'' else ''0123456789abcdef'') ! d"

text \<open>The digit loop fills \<open>tmp[32]\<close> from the least significant digit.\<close>

function digit_loop :: "bool \<Rightarrow> nat \<Rightarrow> nat \<Rightarrow> u8 list \<Rightarrow> u8 list" where
  "digit_loop upper base value tmp =
     (if value \<noteq> 0 \<and> length tmp < 32
      then digit_loop upper base (value div base) (tmp @ [digit_char upper (value mod base)])
      else tmp)"
  by auto
termination by (relation "measure (\<lambda>(u, b, v, t). 32 - length t)") auto

declare digit_loop.simps [simp del]

text \<open>The string left in \<open>out\<close> and the returned length; the arrays passed have 63 or 64 bytes.\<close>

definition unsigned_to_string :: "nat \<Rightarrow> u64 \<Rightarrow> nat \<Rightarrow> bool \<Rightarrow> u8 list \<times> nat" where
  "unsigned_to_string out_size value base upper =
     (if value = 0 then (if out_size > 1 then [chr CHR ''0''] else [], 1)
      else let tmp = digit_loop upper base (unat value) []
           in (if out_size \<noteq> 0 then take (out_size - 1) (rev tmp) else [], length tmp))"

definition out_padded :: "u8 list option \<Rightarrow> nat \<Rightarrow> bool \<Rightarrow> u8 \<Rightarrow> out_state \<Rightarrow> out_state" where
  "out_padded s0 width0 left pad st0 =
     (let s1 = (case s0 of None \<Rightarrow> null_string | Some t \<Rightarrow> t);
          minus = (\<not> left \<and> pad = chr CHR ''0'' \<and> s1 \<noteq> [] \<and> hd s1 = chr CHR ''-'');
          (st1, s, width) = (if minus then (out_char (chr CHR ''-'') st0, tl s1, width0 - 1) else (st0, s1, width0));
          len = length s;
          st2 = (if \<not> left then (out_char pad ^^ (width - len)) st1 else st1);
          st3 = fold out_char s st2
      in if left then (out_char (chr CHR '' '') ^^ (width - len)) st3 else st3)"

definition out_unsigned :: "u64 \<Rightarrow> nat \<Rightarrow> bool \<Rightarrow> nat \<Rightarrow> bool \<Rightarrow> u8 \<Rightarrow> out_state \<Rightarrow> out_state" where
  "out_unsigned value base upper width left pad st =
     out_padded (Some (fst (unsigned_to_string 64 value base upper))) width left pad st"

definition out_signed :: "u64 \<Rightarrow> nat \<Rightarrow> bool \<Rightarrow> u8 \<Rightarrow> out_state \<Rightarrow> out_state" where
  "out_signed value width left pad st =
     (let tmp = (if sint value < 0 then chr CHR ''-'' # fst (unsigned_to_string 63 (- value) 10 False)
                 else fst (unsigned_to_string 64 value 10 False))
      in out_padded (Some tmp) width left pad st)"

subsection \<open>The format loop\<close>

datatype arg = Arg_int u64 | Arg_str "u8 list option"

fun va_int :: "arg list \<Rightarrow> (u64 \<times> arg list) option" where
  "va_int (Arg_int w # r) = Some (w, r)"
| "va_int _ = None"

fun va_str :: "arg list \<Rightarrow> (u8 list option \<times> arg list) option" where
  "va_str (Arg_str s # r) = Some (s, r)"
| "va_str _ = None"

fun parse_width :: "nat \<Rightarrow> u8 list \<Rightarrow> nat \<times> u8 list" where
  "parse_width width [] = (width, [])"
| "parse_width width (c # f) =
     (if chr CHR ''0'' \<le> c \<and> c \<le> chr CHR ''9'' then parse_width (width * 10 + (unat c - 48)) f else (width, c # f))"

text \<open>The sign- or zero-extension of an \<open>int\<close> argument, unless the directive says \<open>l\<close> or \<open>z\<close>.\<close>

definition signed_arg :: "bool \<Rightarrow> u64 \<Rightarrow> u64" where
  "signed_arg long_value w = (if long_value then w else scast (ucast w :: u32))"

definition unsigned_arg :: "bool \<Rightarrow> u64 \<Rightarrow> u64" where
  "unsigned_arg long_value w = (if long_value then w else ucast (ucast w :: u32))"

record directive =
  d_left :: bool
  d_pad :: u8
  d_width :: nat
  d_long :: bool
  d_conv :: u8

text \<open>The flags, the width, the length modifier and the conversion after a percent sign.\<close>

definition parse_directive :: "u8 list \<Rightarrow> (directive \<times> u8 list) option" where
  "parse_directive f0 =
     (let (left, f1) = (if f0 \<noteq> [] \<and> hd f0 = chr CHR ''-'' then (True, tl f0) else (False, f0));
          (pad, f2) = (if f1 \<noteq> [] \<and> hd f1 = chr CHR ''0'' then (chr CHR ''0'', tl f1) else (chr CHR '' '', f1));
          (width, f3) = parse_width 0 f2;
          (lng, f4) = (if f3 \<noteq> [] \<and> hd f3 = chr CHR ''l'' then
                         (True, if tl f3 \<noteq> [] \<and> hd (tl f3) = chr CHR ''l'' then tl (tl f3) else tl f3)
                       else if f3 \<noteq> [] \<and> hd f3 = chr CHR ''z'' then (True, tl f3) else (False, f3))
      in if f4 = [] then None
         else Some (\<lparr>d_left = left, d_pad = pad, d_width = width, d_long = lng, d_conv = hd f4\<rparr>, tl f4))"

text \<open>The \<open>switch\<close> on the conversion.\<close>

definition out_directive :: "directive \<Rightarrow> arg list \<Rightarrow> out_state \<Rightarrow> (out_state \<times> arg list) option" where
  "out_directive d args st =
     (let c = d_conv d; left = d_left d; pad = d_pad d; width = d_width d in
      if c = chr CHR ''%'' then Some (out_char (chr CHR ''%'') st, args)
      else if c = chr CHR ''c'' then
        map_option (\<lambda>(w, r). (out_padded (Some (takeWhile (\<lambda>b. b \<noteq> 0) [ucast w])) width left pad st, r)) (va_int args)
      else if c = chr CHR ''s'' then
        map_option (\<lambda>(s, r). (if width > 0 then out_padded s width left pad st else out_string s st, r)) (va_str args)
      else if c = chr CHR ''d'' \<or> c = chr CHR ''i'' then
        map_option (\<lambda>(w, r). (out_signed (signed_arg (d_long d) w) width left pad st, r)) (va_int args)
      else if c = chr CHR ''u'' then
        map_option (\<lambda>(w, r). (out_unsigned (unsigned_arg (d_long d) w) 10 False width left pad st, r)) (va_int args)
      else if c = chr CHR ''o'' then
        map_option (\<lambda>(w, r). (out_unsigned (unsigned_arg (d_long d) w) 8 False width left pad st, r)) (va_int args)
      else if c = chr CHR ''x'' \<or> c = chr CHR ''X'' then
        map_option (\<lambda>(w, r). (out_unsigned (unsigned_arg (d_long d) w) 16 (c = chr CHR ''X'') width left pad st, r)) (va_int args)
      else if c = chr CHR ''p'' then
        map_option (\<lambda>(w, r). (out_unsigned w 16 False width left pad (out_string (Some (bytes_of ''0x'')) st), r)) (va_int args)
      else Some (out_char c (out_char (chr CHR ''%'') st), args))"

lemma parse_width_length: "length (snd (parse_width w f)) \<le> length f"
  by (induction w f rule: parse_width.induct) auto

lemma parse_directive_length:
  assumes "parse_directive f = Some (d, f')"
  shows "length f' < length f"
proof -
  obtain left f1 where 1: "(if f \<noteq> [] \<and> hd f = chr CHR ''-'' then (True, tl f) else (False, f)) = (left, f1)"
    by fastforce
  obtain pad f2 where 2: "(if f1 \<noteq> [] \<and> hd f1 = chr CHR ''0'' then (chr CHR ''0'', tl f1) else (chr CHR '' '', f1)) = (pad, f2)"
    by fastforce
  obtain w f3 where 3: "parse_width 0 f2 = (w, f3)" by fastforce
  obtain lng f4 where 4: "(if f3 \<noteq> [] \<and> hd f3 = chr CHR ''l'' then
       (True, if tl f3 \<noteq> [] \<and> hd (tl f3) = chr CHR ''l'' then tl (tl f3) else tl f3)
     else if f3 \<noteq> [] \<and> hd f3 = chr CHR ''z'' then (True, tl f3) else (False, f3)) = (lng, f4)"
    by fastforce
  have "length f1 \<le> length f" "length f2 \<le> length f1" "length f4 \<le> length f3"
    using 1 2 4 by (auto split: if_splits)
  moreover have "length f3 \<le> length f2" using parse_width_length [of 0 f2] 3 by simp
  moreover have "f4 \<noteq> []" "f' = tl f4"
    using assms unfolding parse_directive_def Let_def 1 case_prod_conv 2 3 4 by (auto split: if_splits)
  ultimately show ?thesis by (cases f4) auto
qed

function kvsnprintf_loop :: "u8 list \<Rightarrow> arg list \<Rightarrow> out_state \<Rightarrow> out_state option" where
  "kvsnprintf_loop fmt args st =
     (case fmt of
        [] \<Rightarrow> None
      | c # f \<Rightarrow>
          if c = 0 then Some st
          else if c \<noteq> chr CHR ''%'' then kvsnprintf_loop f args (out_char c st)
          else (case parse_directive f of
                  None \<Rightarrow> None
                | Some (d, f') \<Rightarrow>
                    (case out_directive d args st of
                       None \<Rightarrow> None
                     | Some (st', args') \<Rightarrow> kvsnprintf_loop f' args' st')))"
  by auto
termination
  by (relation "measure (\<lambda>(f, a, s). length f)") (auto dest: parse_directive_length)

declare kvsnprintf_loop.simps [simp del]

text \<open>The bytes of the buffer and the returned length.\<close>

definition kvsnprintf :: "nat \<Rightarrow> u8 list \<Rightarrow> arg list \<Rightarrow> (u8 list \<times> nat) option" where
  "kvsnprintf bufsize fmt args =
     map_option (\<lambda>st. (if bufsize > 0 then out_buf st @ [0] else [], out_written st))
       (kvsnprintf_loop fmt args \<lparr>out_buf = [], out_remaining = bufsize, out_written = 0\<rparr>)"

definition ksnprintf :: "nat \<Rightarrow> u8 list \<Rightarrow> arg list \<Rightarrow> (u8 list \<times> nat) option" where
  "ksnprintf bufsize fmt args = kvsnprintf bufsize fmt args"

text \<open>\<open>kprintf\<close> formats into 1024 bytes and passes the string to the console.\<close>

definition kprintf :: "u8 list \<Rightarrow> arg list \<Rightarrow> (u8 list \<times> nat) option" where
  "kprintf fmt args = map_option (\<lambda>(b, r). (takeWhile (\<lambda>c. c \<noteq> 0) b, r)) (kvsnprintf 1024 fmt args)"

subsection \<open>What a format denotes\<close>

text \<open>
  The text of a directive, without a buffer: \<open>pad_text\<close> is the field, \<open>number_text\<close> the digits
  without leading zeros.
\<close>

definition pad_text :: "u8 list \<Rightarrow> nat \<Rightarrow> bool \<Rightarrow> u8 \<Rightarrow> u8 list" where
  "pad_text s width left pad =
     (if left then s @ replicate (width - length s) (chr CHR '' '')
      else if pad = chr CHR ''0'' \<and> s \<noteq> [] \<and> hd s = chr CHR ''-''
      then chr CHR ''-'' # replicate (width - length s) pad @ tl s
      else replicate (width - length s) pad @ s)"

fun digits_of :: "bool \<Rightarrow> nat \<Rightarrow> nat \<Rightarrow> u8 list" where
  "digits_of upper base n =
     (if n = 0 \<or> base < 2 then [] else digits_of upper base (n div base) @ [digit_char upper (n mod base)])"

declare digits_of.simps [simp del]

definition number_text :: "bool \<Rightarrow> nat \<Rightarrow> nat \<Rightarrow> u8 list" where
  "number_text upper base n = (if n = 0 then [chr CHR ''0''] else digits_of upper base n)"

definition int_text :: "int \<Rightarrow> u8 list" where
  "int_text v = (if v < 0 then [chr CHR ''-''] else []) @ number_text False 10 (nat \<bar>v\<bar>)"

definition text_of :: "u8 list option \<Rightarrow> u8 list" where
  "text_of s = (case s of None \<Rightarrow> null_string | Some t \<Rightarrow> t)"

definition directive_text :: "directive \<Rightarrow> arg list \<Rightarrow> (u8 list \<times> arg list) option" where
  "directive_text d args =
     (let c = d_conv d; field = (\<lambda>t. pad_text t (d_width d) (d_left d) (d_pad d));
          num = (\<lambda>upper base. map_option (\<lambda>(w, r). (field (number_text upper base (unat (unsigned_arg (d_long d) w))), r)) (va_int args)) in
      if c = chr CHR ''%'' then Some ([chr CHR ''%''], args)
      else if c = chr CHR ''c'' then map_option (\<lambda>(w, r). (field (if ucast w = (0 :: u8) then [] else [ucast w]), r)) (va_int args)
      else if c = chr CHR ''s'' then
        map_option (\<lambda>(s, r). (if d_width d > 0 then field (text_of s) else text_of s, r)) (va_str args)
      else if c = chr CHR ''d'' \<or> c = chr CHR ''i'' then
        map_option (\<lambda>(w, r). (field (int_text (sint (signed_arg (d_long d) w))), r)) (va_int args)
      else if c = chr CHR ''u'' then num False 10
      else if c = chr CHR ''o'' then num False 8
      else if c = chr CHR ''x'' \<or> c = chr CHR ''X'' then num (c = chr CHR ''X'') 16
      else if c = chr CHR ''p'' then
        map_option (\<lambda>(w, r). (bytes_of ''0x'' @ field (number_text False 16 (unat w)), r)) (va_int args)
      else Some ([chr CHR ''%'', c], args))"

function format_text :: "u8 list \<Rightarrow> arg list \<Rightarrow> u8 list option" where
  "format_text fmt args =
     (case fmt of
        [] \<Rightarrow> None
      | c # f \<Rightarrow>
          if c = 0 then Some []
          else if c \<noteq> chr CHR ''%'' then map_option (\<lambda>t. c # t) (format_text f args)
          else (case parse_directive f of
                  None \<Rightarrow> None
                | Some (d, f') \<Rightarrow>
                    (case directive_text d args of
                       None \<Rightarrow> None
                     | Some (t, args') \<Rightarrow> map_option (\<lambda>u. t @ u) (format_text f' args'))))"
  by auto
termination
  by (relation "measure (\<lambda>(f, a). length f)") (auto dest: parse_directive_length)

declare format_text.simps [simp del]

subsection \<open>Emitting text\<close>

abbreviation emit :: "u8 list \<Rightarrow> out_state \<Rightarrow> out_state" where
  "emit t st \<equiv> fold out_char t st"

lemma emit_replicate: "(out_char c ^^ n) st = emit (replicate n c) st"
  by (induction n arbitrary: st) (simp_all add: funpow_swap1)

lemma out_string_emit: "out_string s st = emit (text_of s) st"
  by (simp add: out_string_def text_of_def)

lemma out_padded_emit: "out_padded s width left pad st = emit (pad_text (text_of s) width left pad) st"
proof (cases "\<not> left \<and> pad = chr CHR ''0'' \<and> text_of s \<noteq> [] \<and> hd (text_of s) = chr CHR ''-''")
  case True
  then obtain t where t: "text_of s = chr CHR ''-'' # t" by (cases "text_of s") auto
  have l: "left = False" and c: "(\<not> left \<and> pad = chr CHR ''0'' \<and> text_of s \<noteq> [] \<and> hd (text_of s) = chr CHR ''-'') = True"
    using True by blast+
  have "out_padded s width left pad st =
      emit t ((out_char pad ^^ (width - 1 - length t)) (out_char (chr CHR ''-'') st))"
    unfolding out_padded_def text_of_def [symmetric] Let_def c
    by (simp only: l if_False if_True case_prod_conv simp_thms t list.sel)
  moreover have "pad_text (text_of s) width left pad = chr CHR ''-'' # replicate (width - 1 - length t) pad @ t"
    unfolding pad_text_def using c by (simp only: l if_True if_False simp_thms) (simp add: t)
  ultimately show ?thesis by (simp only: emit_replicate fold_append fold_Cons comp_apply)
next
  case False
  then have "out_padded s width left pad st =
      (if left then (out_char (chr CHR '' '') ^^ (width - length (text_of s))) (emit (text_of s) st)
       else emit (text_of s) ((out_char pad ^^ (width - length (text_of s))) st))"
    unfolding out_padded_def text_of_def [symmetric] Let_def by (cases left) (simp_all only: if_False if_True case_prod_conv simp_thms)
  moreover have "pad_text (text_of s) width left pad = (if left then text_of s @ replicate (width - length (text_of s)) (chr CHR '' '')
      else replicate (width - length (text_of s)) pad @ text_of s)"
    unfolding pad_text_def using False by argo
  ultimately show ?thesis by (cases left) (simp_all only: emit_replicate if_True if_False fold_append comp_apply)
qed

lemma digit_loop_digits:
  assumes "2 \<le> base" and "n < base ^ (32 - length tmp)" and "length tmp \<le> 32"
  shows "digit_loop upper base n tmp = tmp @ rev (digits_of upper base n)"
  using assms(2,3)
proof (induction n arbitrary: tmp rule: less_induct)
  case (less n)
  show ?case
  proof (cases "n = 0")
    case True
    then show ?thesis by (simp add: digit_loop.simps digits_of.simps)
  next
    case False
    have l: "length tmp < 32" using less.prems False by (cases "length tmp = 32") auto
    then have e: "32 - length tmp = Suc (32 - Suc (length tmp))" by simp
    have "n div base < base ^ (32 - Suc (length tmp))"
      using less.prems(1) assms(1) unfolding e by (simp add: less_mult_imp_div_less mult.commute)
    then have "digit_loop upper base (n div base) (tmp @ [digit_char upper (n mod base)]) =
        (tmp @ [digit_char upper (n mod base)]) @ rev (digits_of upper base (n div base))"
      using False assms(1) l by (intro less.IH) auto
    then show ?thesis
      using False l assms(1) by (simp add: digit_loop.simps [of _ _ n] digits_of.simps [of _ _ n])
  qed
qed

lemma u64_lt_pow: "8 \<le> base \<Longrightarrow> unat (w :: u64) < base ^ 32"
proof -
  assume b: "8 \<le> base"
  have "unat w < 2 ^ 64" using unsigned_less [of w, where ?'a = nat] by simp
  also have "(2 :: nat) ^ 64 \<le> 8 ^ 32" by simp
  also have "(8 :: nat) ^ 32 \<le> base ^ 32" using b by (rule power_mono) simp
  finally show ?thesis .
qed

lemma digits_of_length: "2 \<le> base \<Longrightarrow> n < base ^ k \<Longrightarrow> length (digits_of upper base n) \<le> k"
proof (induction n arbitrary: k rule: less_induct)
  case (less n)
  show ?case
  proof (cases "n = 0")
    case False
    then obtain k' where k: "k = Suc k'" using less.prems by (cases k) auto
    have "n div base < base ^ k'" using less.prems unfolding k by (simp add: less_mult_imp_div_less mult.commute)
    then show ?thesis using less.IH [of "n div base" k'] less.prems False by (simp add: k digits_of.simps [of _ _ n])
  qed (simp add: digits_of.simps)
qed

lemma unsigned_to_string_eq:
  assumes "8 \<le> base" and "63 \<le> out_size"
  shows "fst (unsigned_to_string out_size w base upper) = number_text upper base (unat w)"
proof (cases "w = 0")
  case False
  have d: "digit_loop upper base (unat w) [] = rev (digits_of upper base (unat w))"
    using digit_loop_digits [of base "unat w" "[]" upper] u64_lt_pow [OF assms(1)] assms(1) by simp
  have "length (digits_of upper base (unat w)) \<le> 32" using digits_of_length u64_lt_pow [OF assms(1)] assms(1) by simp
  then show ?thesis using False assms(2) d by (simp add: unsigned_to_string_def number_text_def Let_def unat_eq_0)
qed (use assms in \<open>simp add: unsigned_to_string_def number_text_def\<close>)

lemma out_unsigned_emit:
  "8 \<le> base \<Longrightarrow> out_unsigned w base upper width left pad st = emit (pad_text (number_text upper base (unat w)) width left pad) st"
  by (simp add: out_unsigned_def out_padded_emit text_of_def unsigned_to_string_eq)

lemma out_signed_emit:
  "out_signed w width left pad st = emit (pad_text (int_text (sint w)) width left pad) st"
proof (cases "sint w < 0")
  case True
  have "unat (- w) = nat \<bar>sint w\<bar>"
  proof -
    have "uint (- w) = - sint w"
    proof -
      have e: "- w = word_of_int (- sint w)" by simp
      have "0 \<le> - sint w" "- sint w < 2 ^ 64" using True sint_ge [of w] by auto
      then show ?thesis unfolding e uint_word_of_int by (intro mod_pos_pos_trivial) simp_all
    qed
    then show ?thesis using True by (simp add: unat_eq_nat_uint)
  qed
  then show ?thesis
    using True by (simp add: out_signed_def out_padded_emit text_of_def unsigned_to_string_eq int_text_def Let_def)
next
  case False
  have "uint w = sint w"
    using False sint_lt [of w] unfolding uint_sint by (intro take_bit_int_eq_self) auto
  then have "unat w = nat \<bar>sint w\<bar>" using False by (simp add: unat_eq_nat_uint)
  then show ?thesis
    using False by (simp add: out_signed_def out_padded_emit text_of_def unsigned_to_string_eq int_text_def Let_def)
qed

lemma out_directive_emit:
  "out_directive d args st = map_option (\<lambda>(t, r). (emit t st, r)) (directive_text d args)"
proof -
  have c0: "takeWhile (\<lambda>b. b \<noteq> 0) [ucast w :: u8] = (if ucast w = (0 :: u8) then [] else [ucast w])" for w :: u64
    by simp
  show ?thesis
    unfolding out_directive_def directive_text_def Let_def out_padded_emit out_string_emit out_signed_emit c0
    by (cases "va_int args"; cases "va_str args") (auto simp: out_unsigned_emit out_string_emit text_of_def)
qed

lemma kvsnprintf_loop_emit:
  "kvsnprintf_loop fmt args st = map_option (\<lambda>t. emit t st) (format_text fmt args)"
proof (induction fmt args st rule: kvsnprintf_loop.induct)
  case (1 fmt args st)
  show ?case
  proof (cases fmt)
    case Nil
    then show ?thesis by (simp add: kvsnprintf_loop.simps format_text.simps)
  next
    case (Cons c f)
    consider "c = 0" | "c \<noteq> 0" "c \<noteq> chr CHR ''%''" | "c \<noteq> 0" "c = chr CHR ''%''" by blast
    then show ?thesis
    proof cases
      case 1
      then show ?thesis by (simp add: Cons kvsnprintf_loop.simps [of "_ # _"] format_text.simps [of "_ # _"])
    next
      case 2
      then show ?thesis
        using "1.IH"(1) [OF Cons] 
        by (simp add: Cons kvsnprintf_loop.simps [of "_ # _"] format_text.simps [of "_ # _"] option.map_comp o_def)
    next
      case 3
      show ?thesis
      proof (cases "parse_directive f")
        case None
        then show ?thesis using 3 by (simp add: Cons kvsnprintf_loop.simps [of "_ # _"] format_text.simps [of "_ # _"])
      next
        case (Some x)
        obtain d f' where x: "x = (d, f')" by fastforce
        show ?thesis
        proof (cases "directive_text d args")
          case None
          then show ?thesis
            using 3 Some x by (simp add: Cons kvsnprintf_loop.simps [of "_ # _"] format_text.simps [of "_ # _"] out_directive_emit)
        next
          case T: (Some y)
          obtain t r where y: "y = (t, r)" by fastforce
          have o: "out_directive d args st = Some (emit t st, r)" by (simp add: out_directive_emit T y)
          have IH: "kvsnprintf_loop f' r (emit t st) = map_option (\<lambda>u. emit u (emit t st)) (format_text f' r)"
            using "1.IH"(2) [OF Cons] 3 Some x o by simp
          have "kvsnprintf_loop fmt args st = kvsnprintf_loop f' r (emit t st)"
            using 3 Some x o by (simp add: Cons kvsnprintf_loop.simps [of "_ # _"])
          moreover have "format_text fmt args = map_option (\<lambda>u. t @ u) (format_text f' r)"
            using 3 Some x T y by (simp add: Cons format_text.simps [of "_ # _"])
          ultimately show ?thesis unfolding IH by (simp add: option.map_comp o_def)
        qed
      qed
    qed
  qed
qed

lemma emit_state:
  "out_buf (emit t st) = out_buf st @ take (out_remaining st - 1) t \<and> out_written (emit t st) = out_written st + length t"
proof (induction t arbitrary: st)
  case (Cons c t)
  show ?case
  proof (cases "out_remaining st > 1")
    case True
    then obtain k where "out_remaining st = Suc (Suc k)" by (metis One_nat_def less_imp_Suc_add add_Suc)
    then show ?thesis using Cons [of "out_char c st"] by (simp add: out_char_def)
  next
    case False
    then show ?thesis using Cons [of "out_char c st"] by (simp add: out_char_def Let_def)
  qed
qed simp

lemma kvsnprintf_text:
  "kvsnprintf n fmt args =
     map_option (\<lambda>t. (if n > 0 then take (n - 1) t @ [0] else [], length t)) (format_text fmt args)"
proof -
  let ?st = "\<lparr>out_buf = [], out_remaining = n, out_written = 0\<rparr>"
  have "(if n > 0 then out_buf (emit t ?st) @ [0] else [], out_written (emit t ?st)) =
      (if n > 0 then take (n - 1) t @ [0] else [], length t)" for t
    using emit_state [of t ?st] by simp
  then show ?thesis
    by (simp add: kvsnprintf_def kvsnprintf_loop_emit option.map_comp o_def)
qed


text \<open>
  A format that ends in a lone percent sign is read past its end: the default case prints
  the NUL as an unknown conversion and the loop then steps over it.
\<close>

lemma kvsnprintf_trailing_percent:
  assumes "0 \<notin> set pre" and "chr CHR ''%'' \<notin> set pre"
  shows "kvsnprintf n (pre @ [chr CHR ''%'', 0]) args = None"
proof -
  have "format_text (pre @ [chr CHR ''%'', 0]) args = None"
    using assms
  proof (induction pre)
    case Nil
    have p: "parse_directive [0] = Some (\<lparr>d_left = False, d_pad = chr CHR '' '', d_width = 0, d_long = False, d_conv = 0\<rparr>, [])"
      by (simp add: parse_directive_def chr_def)
    have "directive_text \<lparr>d_left = False, d_pad = chr CHR '' '', d_width = 0, d_long = False, d_conv = 0\<rparr> args =
        Some ([chr CHR ''%'', 0], args)"
      by (simp add: directive_text_def chr_def)
    then show ?case by (simp add: format_text.simps [of "_ # _"] p format_text.simps [of "[]"] chr_def)
  next
    case (Cons c pre)
    then show ?case by (auto simp: format_text.simps [of "_ # _"])
  qed
  then show ?thesis
    using kvsnprintf_loop_emit [of "pre @ [chr CHR ''%'', 0]"] by (simp add: kvsnprintf_def)
qed

subsection \<open>Reading a printed number back\<close>

lemma digit_char_digit: "d < 10 \<Longrightarrow> strtol_digit (digit_char upper d) = Some (int d)"
proof -
  assume "d < 10"
  then have "d \<in> {0, 1, 2, 3, 4, 5, 6, 7, 8, 9}" by auto
  then show ?thesis by (auto simp: digit_char_def bytes_of_def strtol_digit_def chr_consts)
qed

lemma digits_of_val:
  "digit_val 10 (digits_of False 10 n) = int n \<and> (\<forall>b \<in> set (digits_of False 10 n). is_digit 10 b)"
proof (induction n rule: less_induct)
  case (less n)
  show ?case
  proof (cases "n = 0")
    case False
    have "digit_val 10 (digits_of False 10 n) = digit_val 10 (digits_of False 10 (n div 10)) * 10 + int (n mod 10)"
      using False by (simp add: digits_of.simps [of _ _ n] digit_val_def digit_char_digit)
    moreover have "int (n div 10) * 10 + int (n mod 10) = int n"
      by (metis div_mult_mod_eq of_nat_add of_nat_mult of_nat_numeral)
    moreover have "is_digit 10 (digit_char False (n mod 10))" by (simp add: is_digit_def digit_char_digit)
    ultimately show ?thesis using less [of "n div 10"] False by (auto simp: digits_of.simps [of _ _ n])
  qed (simp add: digits_of.simps digit_val_def)
qed

lemma digits_of_nonempty: "n \<noteq> 0 \<Longrightarrow> digits_of False 10 n \<noteq> []"
  by (simp add: digits_of.simps [of _ _ n])

lemma number_text_val:
  "digit_val 10 (number_text False 10 n) = int n" "\<forall>b \<in> set (number_text False 10 n). is_digit 10 b" "number_text False 10 n \<noteq> []"
  using digits_of_val [of n] digits_of_nonempty [of n]
  by (auto simp: number_text_def digit_val_def is_digit_def strtol_digit_def chr_consts)

lemma is_digit_nonzero: "is_digit base b \<Longrightarrow> b \<noteq> 0"
  using digit_not_special by (auto simp: is_digit_def)

lemma ld_directive:
  "format_text (bytes_of ''%ld'' @ [0]) [Arg_int v] = Some (int_text (sint v))"
proof -
  have p: "parse_directive [108, 100, 0] =
      Some (\<lparr>d_left = False, d_pad = chr CHR '' '', d_width = 0, d_long = True, d_conv = 100\<rparr>, [0])"
    by (simp add: parse_directive_def chr_def)
  have "directive_text \<lparr>d_left = False, d_pad = chr CHR '' '', d_width = 0, d_long = True, d_conv = 100\<rparr> [Arg_int v] =
      Some (int_text (sint v), [])"
    by (simp add: directive_text_def chr_def pad_text_def signed_arg_def)
  then show ?thesis by (simp add: bytes_of_def format_text.simps [of "_ # _"] p chr_def)
qed

text \<open>
  Printing and reading agree.  Whatever 64-bit value is formatted with \<open>%ld\<close> into a buffer of
  at least 21 bytes, \<open>strtol\<close> in base 10 on the buffer returns that value (for the value
  \<open>LONG_MIN\<close> only its text is printed; \<open>strtol\<close> cannot read its magnitude).
\<close>

lemma printf_strtol_roundtrip:
  assumes "21 \<le> n" and "kvsnprintf n (bytes_of ''%ld'' @ [0]) [Arg_int v] = Some (buf, r)"
    and "bytes_at m s buf" and "sint v \<noteq> - (2 ^ 63)"
  shows "strtol m s 10 = Some (sint v, s + r)"
proof -
  let ?x = "nat \<bar>sint v\<bar>"
  let ?sg = "if sint v < 0 then [45 :: u8] else []"
  have t: "int_text (sint v) = ?sg @ number_text False 10 ?x" by (simp add: int_text_def chr_consts)
  have b: "sint v < 2 ^ 63" "- (2 ^ 63) \<le> sint v" using sint_lt [of v] sint_ge [of v] by simp_all
  have "?x < 10 ^ 19" using b by simp
  moreover have "length (number_text False 10 k) \<le> 19" if "k < 10 ^ 19" for k
    using digits_of_length [of 10 k 19 False] that by (simp add: number_text_def)
  ultimately have "length (number_text False 10 ?x) \<le> 19" by blast
  moreover have "length ?sg \<le> 1" by simp
  ultimately have len: "length (int_text (sint v)) \<le> 20" unfolding t length_append by linarith
  have full: "Some (buf, r) = Some (take (n - 1) (int_text (sint v)) @ [0], length (int_text (sint v)))"
    using assms(1,2) emit_state [of "int_text (sint v)"]
    by (simp add: kvsnprintf_def kvsnprintf_loop_emit ld_directive)
  then have buf: "buf = int_text (sint v) @ [0]" "r = length (int_text (sint v))" using len assms(1) by auto
  have "0 \<notin> set (int_text (sint v))"
    using number_text_val(2) [of ?x] is_digit_nonzero unfolding t by auto
  then have c: "cstr m s ([] @ ?sg @ number_text False 10 ?x @ [])"
    using assms(3) buf t by (simp add: cstr_bytes)
  have "strtol m s 10 = Some (if ?sg = [45] then - digit_val 10 (number_text False 10 ?x) else digit_val 10 (number_text False 10 ?x),
      s + length ([] @ ?sg @ number_text False 10 ?x))"
    using b assms(4) number_text_val [of ?x] by (intro strtol_number [OF c]) auto
  then show ?thesis using number_text_val(1) [of ?x] buf(2) t by (auto split: if_splits)
qed

end
