(* ===== verification/Vfs_Path.thy ===== *)
theory Vfs_Path
  imports Printf
begin

text \<open>
  Path normalisation, \<open>vfs_normalize\<close> of \<open>kernel/fs/vfs.c\<close>.  A C string is the list of its bytes
  before the terminator and a pointer that may be NULL an option.  \<open>comps\<close>, the array of
  components, is a list; the loop over the source string consumes it.  A result \<open>None\<close> is the
  return value -1.
\<close>

definition VFS_NAME_MAX :: nat where "VFS_NAME_MAX = 63"
definition VFS_PATH_MAX :: nat where "VFS_PATH_MAX = 256"
definition VFS_MAX_COMPONENTS :: nat where "VFS_MAX_COMPONENTS = 32"

abbreviation slash :: u8 where "slash \<equiv> 0x2f"
abbreviation dot :: u8 where "dot \<equiv> 0x2e"

text \<open>The buffer \<open>source\<close>: the format has the two strings it asks for, so \<open>ksnprintf\<close> returns.\<close>

definition norm_source :: "u8 list \<Rightarrow> u8 list option \<Rightarrow> u8 list" where
  "norm_source path cwd =
     (if path \<noteq> [] \<and> hd path = slash then take (VFS_PATH_MAX - 1) path
      else case ksnprintf VFS_PATH_MAX (bytes_of ''%s/%s'' @ [0])
                  [Arg_str (if cwd = None \<or> cwd = Some [] then Some (bytes_of ''/'') else cwd), Arg_str (Some path)] of
             Some (buf, _) \<Rightarrow> takeWhile (\<lambda>c. c \<noteq> 0) buf
           | None \<Rightarrow> [])"

lemma skip_component_less:
  assumes "q = dropWhile (\<lambda>c. c = slash) p" "q \<noteq> []"
  shows "length (dropWhile (\<lambda>c. c \<noteq> slash) q) < length p"
proof -
  have "hd q \<noteq> slash" using assms hd_dropWhile [of "\<lambda>c. c = slash" p] by auto
  then have "dropWhile (\<lambda>c. c \<noteq> slash) q = dropWhile (\<lambda>c. c \<noteq> slash) (tl q)" using assms(2) by (cases q) auto
  also have "length \<dots> \<le> length (tl q)" by (rule length_dropWhile_le)
  also have "\<dots> < length q" using assms(2) by simp
  also have "length q \<le> length p" using assms(1) by (simp add: length_dropWhile_le)
  finally show ?thesis .
qed

function norm_loop :: "u8 list \<Rightarrow> u8 list list \<Rightarrow> u8 list list option" where
  "norm_loop p comps =
     (let q = dropWhile (\<lambda>c. c = slash) p in
      if q = [] then Some comps
      else
        let comp = take VFS_NAME_MAX (takeWhile (\<lambda>c. c \<noteq> slash) q);
            r = dropWhile (\<lambda>c. c \<noteq> slash) q in
        if comp = [dot] \<or> comp = [] then norm_loop r comps
        else if comp = [dot, dot] then norm_loop r (butlast comps)
        else if length comps \<ge> VFS_MAX_COMPONENTS then None
        else norm_loop r (comps @ [comp]))"
  by auto
termination
  by (relation "measure (\<lambda>(p, c). length p)") (simp_all add: skip_component_less)

declare norm_loop.simps [simp del]

fun norm_join :: "nat \<Rightarrow> u8 list \<Rightarrow> u8 list list \<Rightarrow> u8 list option" where
  "norm_join n out [] = Some out"
| "norm_join n out (c # cs) =
     (if length out + length c + 2 > n then None
      else norm_join n ((if out \<noteq> [slash] then out @ [slash] else out) @ c) cs)"

definition vfs_normalize :: "u8 list option \<Rightarrow> u8 list option \<Rightarrow> nat \<Rightarrow> u8 list option" where
  "vfs_normalize path cwd out_size =
     (case path of
        None \<Rightarrow> None
      | Some p \<Rightarrow>
          if out_size = 0 then None
          else (case norm_loop (norm_source p cwd) [] of
                  None \<Rightarrow> None
                | Some comps \<Rightarrow> if out_size < 2 then None else norm_join out_size [slash] comps))"

subsection \<open>Canonical paths\<close>

definition comp_ok :: "u8 list \<Rightarrow> bool" where
  "comp_ok c \<longleftrightarrow> c \<noteq> [] \<and> c \<noteq> [dot] \<and> c \<noteq> [dot, dot] \<and> length c \<le> VFS_NAME_MAX \<and> slash \<notin> set c \<and> 0 \<notin> set c"

text \<open>The string of a list of components.\<close>

definition path_str :: "u8 list list \<Rightarrow> u8 list" where
  "path_str cs = (if cs = [] then [slash] else concat (map (\<lambda>c. slash # c) cs))"

text \<open>A string pointer whose string, if any, has no NUL byte before its terminator.\<close>

primrec nul_free :: "u8 list option \<Rightarrow> bool" where
  "nul_free None = True"
| "nul_free (Some s) = (0 \<notin> set s)"

lemma slash_pair_text: "format_text (bytes_of ''%s/%s'' @ [0]) [Arg_str (Some a), Arg_str (Some b)] = Some (a @ slash # b)"
  by (simp add: format_text.simps bytes_of_def parse_directive_def directive_text_def Let_def chr_def text_of_def)

lemma norm_source_text:
  assumes "nul_free (Some path)" and "nul_free cwd"
  shows "norm_source path cwd =
     take 255 (if path \<noteq> [] \<and> hd path = slash then path
               else (if cwd = None \<or> cwd = Some [] then [slash] else the cwd) @ slash # path)"
proof (cases "path \<noteq> [] \<and> hd path = slash")
  case False
  let ?c = "if cwd = None \<or> cwd = Some [] then [slash] else the cwd"
  have c: "(if cwd = None \<or> cwd = Some [] then Some (bytes_of ''/'') else cwd) = Some ?c"
    by (auto simp: bytes_of_def)
  have nz: "0 \<notin> set (take 255 (?c @ slash # path))"
    using assms by (cases cwd) (auto dest!: in_set_takeD split: if_splits)
  have "takeWhile (\<lambda>c. c \<noteq> 0) (take 255 (?c @ slash # path) @ [0]) = take 255 (?c @ slash # path)"
    using nz by (auto simp: takeWhile_append takeWhile_eq_all_conv)
  then show ?thesis
    using False by (simp only: norm_source_def c ksnprintf_def kvsnprintf_text slash_pair_text VFS_PATH_MAX_def) simp
qed (simp add: norm_source_def VFS_PATH_MAX_def)

lemma norm_loop_ok:
  "norm_loop p cs = Some cs' \<Longrightarrow> \<forall>c \<in> set cs. comp_ok c \<Longrightarrow> length cs \<le> VFS_MAX_COMPONENTS \<Longrightarrow> 0 \<notin> set p \<Longrightarrow>
     (\<forall>c \<in> set cs'. comp_ok c) \<and> length cs' \<le> VFS_MAX_COMPONENTS"
proof (induction p cs rule: norm_loop.induct)
  case (1 p comps)
  define q where "q = dropWhile (\<lambda>c. c = slash) p"
  define comp where "comp = take VFS_NAME_MAX (takeWhile (\<lambda>c. c \<noteq> slash) q)"
  define r where "r = dropWhile (\<lambda>c. c \<noteq> slash) q"
  note step = norm_loop.simps [of p comps, unfolded Let_def, folded q_def, folded comp_def, folded r_def]
  have z: "0 \<notin> set q" "0 \<notin> set r"
    using 1(7) by (auto simp: q_def r_def dest!: set_dropWhileD)
  have sl: "slash \<notin> set comp" "length comp \<le> VFS_NAME_MAX" "0 \<notin> set comp"
    using z by (auto simp: comp_def dest!: in_set_takeD set_takeWhileD)
  have bl: "\<forall>c \<in> set (butlast comps). comp_ok c" "length (butlast comps) \<le> VFS_MAX_COMPONENTS"
    using 1(5,6) by (auto dest: in_set_butlastD)
  consider "q = []" | "q \<noteq> []" "comp = [dot] \<or> comp = []"
    | "q \<noteq> []" "\<not> (comp = [dot] \<or> comp = [])" "comp = [dot, dot]"
    | "q \<noteq> []" "\<not> (comp = [dot] \<or> comp = [])" "comp \<noteq> [dot, dot]" "\<not> VFS_MAX_COMPONENTS \<le> length comps"
    using 1(4) step by (fastforce split: if_splits)
  then show ?case
  proof cases
    case 1
    then show ?thesis using \<open>norm_loop p comps = Some cs'\<close> \<open>\<forall>c \<in> set comps. comp_ok c\<close> \<open>length comps \<le> _\<close> step by simp
  next
    case 2
    then show ?thesis using 1(1) [OF q_def _ comp_def r_def] 1(4-6) z step by simp
  next
    case 3
    then show ?thesis using 1(2) [OF q_def _ comp_def r_def] bl 1(4) z step by simp
  next
    case 4
    then have "\<forall>c \<in> set (comps @ [comp]). comp_ok c" using sl 1(5) by (auto simp: comp_ok_def)
    then show ?thesis using 4 1(3) [OF q_def _ comp_def r_def] 1(4) z step by simp
  qed
qed

lemma comp_okD: "comp_ok c \<Longrightarrow> c \<noteq> [] \<and> slash \<notin> set c \<and> take VFS_NAME_MAX c = c"
  by (simp add: comp_ok_def)

lemma norm_loop_components:
  "\<forall>c \<in> set cs. comp_ok c \<Longrightarrow> length ds + length cs \<le> VFS_MAX_COMPONENTS \<Longrightarrow>
     norm_loop (concat (map (\<lambda>c. slash # c) cs)) ds = Some (ds @ cs)"
proof (induction cs arbitrary: ds)
  case (Cons c cs)
  let ?rest = "concat (map (\<lambda>c. slash # c) cs)"
  have c: "comp_ok c" using Cons.prems by simp
  have hd: "takeWhile (\<lambda>x. x \<noteq> slash) ?rest = []" "dropWhile (\<lambda>x. x \<noteq> slash) ?rest = ?rest"
    by (cases cs; simp)+
  have "dropWhile (\<lambda>x. x = slash) (slash # c @ ?rest) = c @ ?rest"
    using comp_okD [OF c] by (cases c) auto
  moreover have "takeWhile (\<lambda>x. x \<noteq> slash) (c @ ?rest) = c" "dropWhile (\<lambda>x. x \<noteq> slash) (c @ ?rest) = ?rest"
    using comp_okD [OF c] hd by (subst takeWhile_append2 dropWhile_append2; auto)+
  ultimately have "norm_loop (slash # c @ ?rest) ds = norm_loop ?rest (ds @ [c])"
    using c Cons.prems(2) comp_okD [OF c]
    by (subst norm_loop.simps) (auto simp: Let_def comp_ok_def)
  then show ?case using Cons.IH [of "ds @ [c]"] Cons.prems by simp
qed (simp add: norm_loop.simps)

lemma norm_loop_path:
  "\<forall>c \<in> set cs. comp_ok c \<Longrightarrow> length cs \<le> VFS_MAX_COMPONENTS \<Longrightarrow> norm_loop (path_str cs) [] = Some cs"
  using norm_loop_components [of cs "[]"] by (cases "cs = []") (simp_all add: path_str_def norm_loop.simps)

lemma path_str_snoc: "c \<noteq> [] \<Longrightarrow> path_str (ds @ [c]) = (if ds = [] then [slash] else path_str ds @ [slash]) @ c"
  by (simp add: path_str_def)

lemma path_str_root: "\<forall>c \<in> set ds. c \<noteq> [] \<Longrightarrow> path_str ds = [slash] \<longleftrightarrow> ds = []"
  by (cases ds) (auto simp: path_str_def)

lemma norm_join_path:
  "norm_join n (path_str ds) cs = Some out \<Longrightarrow> \<forall>c \<in> set (ds @ cs). c \<noteq> [] \<Longrightarrow> length (path_str ds) < n \<Longrightarrow>
     out = path_str (ds @ cs) \<and> length out < n"
proof (induction cs arbitrary: ds)
  case (Cons c cs)
  have eq: "(if path_str ds \<noteq> [slash] then path_str ds @ [slash] else path_str ds) @ c = path_str (ds @ [c])"
  proof (cases "ds = []")
    case False
    then have "path_str ds \<noteq> [slash]" using path_str_root [of ds] Cons.prems(2) by simp
    then show ?thesis using False Cons.prems(2) by (simp add: path_str_snoc)
  qed (simp add: path_str_def)
  have len: "length (path_str ds) + length c + 2 \<le> n" using Cons.prems(1) by (simp split: if_splits)
  have j: "norm_join n (path_str (ds @ [c])) cs = Some out"
    using Cons.prems(1) len by (simp only: norm_join.simps eq) simp
  have "length (path_str (ds @ [c])) < n"
    using len Cons.prems(2,3) by (cases "ds = []") (simp_all add: path_str_snoc, simp add: path_str_def)
  moreover have "\<forall>c \<in> set ((ds @ [c]) @ cs). c \<noteq> []" using Cons.prems(2) by simp
  ultimately have "out = path_str ((ds @ [c]) @ cs) \<and> length out < n" by (intro Cons.IH [OF j])
  moreover have "(ds @ [c]) @ cs = ds @ c # cs" by simp
  ultimately show ?case by metis
qed simp

lemma path_str_hd: "\<exists>t. path_str cs = slash # t"
proof (cases cs)
  case (Cons c ds)
  then show ?thesis unfolding path_str_def by (simp only: list.distinct if_False list.map concat.simps append_Cons) blast
qed (simp add: path_str_def)

lemma path_str_inj:
  assumes "\<forall>c \<in> set cs. comp_ok c" "\<forall>c \<in> set ds. comp_ok c"
    and "length cs \<le> VFS_MAX_COMPONENTS" "length ds \<le> VFS_MAX_COMPONENTS" and "path_str cs = path_str ds"
  shows "cs = ds"
  using norm_loop_path [OF assms(1,3), unfolded assms(5)] norm_loop_path [OF assms(2,4)]
  by (simp only: option.inject)

lemma vfs_normalize_path_str:
  assumes "vfs_normalize (Some path) cwd n = Some out" and "nul_free (Some path)" and "nul_free cwd"
  obtains cs where "out = path_str cs" "\<forall>c \<in> set cs. comp_ok c" "length cs \<le> VFS_MAX_COMPONENTS"
    "length out < n" "norm_join n [slash] cs = Some out" "norm_loop (norm_source path cwd) [] = Some cs"
proof -
  obtain cs where cs: "norm_loop (norm_source path cwd) [] = Some cs" and n: "2 \<le> n" and j: "norm_join n [slash] cs = Some out"
    using assms(1) by (auto simp: vfs_normalize_def split: option.splits if_splits)
  have "0 \<notin> set ((if cwd = None \<or> cwd = Some [] then [slash] else the cwd) @ slash # path)"
    using assms(2,3) by (cases cwd) simp_all
  then have "0 \<notin> set (norm_source path cwd)"
    unfolding norm_source_text [OF assms(2,3)] using assms(2) by (auto dest!: in_set_takeD)
  then have ok: "\<forall>c \<in> set cs. comp_ok c" "length cs \<le> VFS_MAX_COMPONENTS"
    using norm_loop_ok [OF cs] by simp_all
  have "out = path_str ([] @ cs) \<and> length out < n"
  proof (rule norm_join_path)
    show "norm_join n (path_str []) cs = Some out" using j by (simp add: path_str_def)
    show "\<forall>c \<in> set ([] @ cs). c \<noteq> []" using ok(1) by (auto simp: comp_ok_def)
    show "length (path_str []) < n" using n by (simp add: path_str_def)
  qed
  then have "out = path_str cs" "length out < n" unfolding append_Nil by blast+
  then show ?thesis by (intro that [of cs] ok j cs)
qed

lemma norm_source_path_str: "length (path_str cs) < VFS_PATH_MAX \<Longrightarrow> norm_source (path_str cs) cwd = path_str cs"
  using path_str_hd [of cs] by (auto simp: norm_source_def VFS_PATH_MAX_def)

lemma vfs_normalize_canonical_path:
  assumes "\<forall>c \<in> set cs. comp_ok c" "length cs \<le> VFS_MAX_COMPONENTS" "length (path_str cs) < VFS_PATH_MAX" "2 \<le> n"
  shows "vfs_normalize (Some (path_str cs)) cwd n = norm_join n [slash] cs"
  using assms norm_source_path_str [OF assms(3)] norm_loop_path [OF assms(1,2)] by (simp add: vfs_normalize_def)

text \<open>
  C12: \<open>vfs_normalize\<close> returns canonical absolute paths.  For strings without NUL bytes, a result
  is \<open>/\<close> or a sequence of at most 32 components, each preceded by a slash, of 1 to 63 bytes,
  without a slash and neither \<open>.\<close> nor \<open>..\<close>, and it fits the buffer with its terminator.
  Normalising it again, from any directory, gives the same path; and a relative path that fits the
  source buffer means the path below the working directory.
\<close>

theorem vfs_normalize_canonical:
  assumes "vfs_normalize (Some path) cwd n = Some out" and "n \<le> VFS_PATH_MAX"
    and "nul_free (Some path)" and "nul_free cwd"
  shows "(\<exists>cs. out = path_str cs \<and> (\<forall>c \<in> set cs. comp_ok c) \<and> length cs \<le> VFS_MAX_COMPONENTS)
     \<and> length out < n
     \<and> vfs_normalize (Some out) cwd' n = Some out
     \<and> (\<forall>d. cwd = Some (slash # d) \<and> (path = [] \<or> hd path \<noteq> slash) \<and> length d + length path + 2 < VFS_PATH_MAX \<longrightarrow>
          vfs_normalize (Some (slash # d @ slash # path)) cwd' n = Some out)"
proof -
  obtain cs where cs: "out = path_str cs" "\<forall>c \<in> set cs. comp_ok c" "length cs \<le> VFS_MAX_COMPONENTS"
    "length out < n" "norm_join n [slash] cs = Some out" "norm_loop (norm_source path cwd) [] = Some cs"
    using vfs_normalize_path_str [OF assms(1,3,4)] .
  have two: "2 \<le> n" using assms(1) by (auto simp: vfs_normalize_def split: option.splits if_splits)
  have "vfs_normalize (Some out) cwd' n = Some out"
    using vfs_normalize_canonical_path [OF cs(2,3), of n cwd'] cs two assms(2) by simp
  moreover have "vfs_normalize (Some (slash # d @ slash # path)) cwd' n = Some out"
    if d: "cwd = Some (slash # d)" "path = [] \<or> hd path \<noteq> slash" "length d + length path + 2 < VFS_PATH_MAX" for d
  proof -
    have "norm_source path cwd = slash # d @ slash # path"
      using norm_source_text [OF assms(3,4)] d by (auto simp: VFS_PATH_MAX_def)
    moreover have "norm_source (slash # d @ slash # path) cwd' = slash # d @ slash # path"
      using d by (simp add: norm_source_def VFS_PATH_MAX_def)
    ultimately show ?thesis using cs two by (simp add: vfs_normalize_def)
  qed
  ultimately show ?thesis using cs by blast
qed

theorem vfs_normalize_canonical_witness:
  "vfs_normalize (Some (bytes_of ''../lib//./x'')) (Some (bytes_of ''/usr/bin'')) 256 = Some (bytes_of ''/usr/lib/x'')
   \<and> vfs_normalize (Some (bytes_of ''/usr/lib/x'')) None 256 = Some (bytes_of ''/usr/lib/x'')"
proof -
  let ?p = "bytes_of ''../lib//./x''" and ?c = "Some (bytes_of ''/usr/bin'')"
  have nz: "nul_free (Some ?p)" "nul_free ?c" by (simp_all add: bytes_of_def)
  have src: "norm_source ?p ?c = bytes_of ''/usr/bin/../lib//./x''"
    using norm_source_text [OF nz] by (simp add: bytes_of_def)
  have n: "vfs_normalize (Some ?p) ?c 256 = Some (bytes_of ''/usr/lib/x'')"
    by (simp add: vfs_normalize_def src) (simp add: bytes_of_def norm_loop.simps Let_def VFS_NAME_MAX_def VFS_MAX_COMPONENTS_def)
  show ?thesis using n vfs_normalize_canonical [OF n _ nz, of None] by (simp add: VFS_PATH_MAX_def)
qed

end
