(* ===== verification/Heap.thy ===== *)
theory Heap
  imports Prelude
begin

text \<open>
  The kernel heap, \<^verbatim>\<open>src/kernel/mm/heap.c\<close>: a doubly linked list of block headers laid
  out back to back in one static array.

  The first part is the C code: headers in memory, linked by addresses, and the loops over
  them as functions that may not return.  The second part is the abstract heap, a list of
  blocks \<open>(address, size, free)\<close> that tile the array, with first-fit allocation and
  coalescing on lists.  \<open>heap_rel\<close> relates the two; every operation of the code, started
  in a related state, returns and is simulated by the abstract one.
\<close>

subsection \<open>The C data\<close>

definition KERNEL_HEAP_SIZE :: nat where
  "KERNEL_HEAP_SIZE = 16 * 1024 * 1024"

definition HEAP_MAGIC :: nat where
  "HEAP_MAGIC = 0x544e5548"

text \<open>\<open>struct heap_block\<close>; pointers are addresses, \<open>NULL\<close> is 0.\<close>

record heap_block =
  hb_size :: nat
  hb_free :: bool
  hb_magic :: nat
  hb_next :: nat
  hb_prev :: nat

text \<open>\<open>sizeof(struct heap_block)\<close>: 8 + 1 (+ 3 padding) + 4 + 8 + 8.\<close>

abbreviation sizeof_hb :: nat where
  "sizeof_hb \<equiv> 32"

type_synonym hmem = "nat \<Rightarrow> heap_block"

text \<open>
  \<open>heap_mem\<close> is the memory read through \<open>struct heap_block *\<close> pointers and \<open>heap_data\<close>
  the memory read through byte pointers; the headers and the payloads of the blocks of a
  well-formed heap do not overlap, so the two views are independent.  The statistics are
  the two fields of \<open>struct memory_stats\<close> that \<open>pmm_record_heap\<close> writes.
\<close>

record heap_state =
  heap_base :: nat
  heap_head :: nat
  heap_mem :: hmem
  heap_data :: "nat \<Rightarrow> u8"
  heap_used_highwater :: nat
  stats_heap_used :: nat
  stats_heap_size :: nat

subsection \<open>The operations\<close>

definition align16 :: "nat \<Rightarrow> nat" where
  "align16 value = szadd value 15 div 16 * 16"

definition record_heap_usage :: "heap_state \<Rightarrow> heap_state" where
  "record_heap_usage h =
     h\<lparr>stats_heap_used := heap_used_highwater h, stats_heap_size := KERNEL_HEAP_SIZE\<rparr>"

definition heap_init :: "heap_state \<Rightarrow> heap_state" where
  "heap_init h =
     record_heap_usage
       (h\<lparr>heap_head := heap_base h,
          heap_mem := (heap_mem h)(heap_base h :=
            \<lparr>hb_size = KERNEL_HEAP_SIZE - sizeof_hb, hb_free = True, hb_magic = HEAP_MAGIC,
             hb_next = 0, hb_prev = 0\<rparr>),
          heap_used_highwater := sizeof_hb\<rparr>)"

definition split_block :: "hmem \<Rightarrow> nat \<Rightarrow> nat \<Rightarrow> hmem" where
  "split_block m block sz =
     (if block = 0 \<or> hb_size (m block) < szadd (szadd sz sizeof_hb) 32 then m
      else
        let nxt = block + sizeof_hb + sz;
            m1 = m(nxt := \<lparr>hb_size = szsub (szsub (hb_size (m block)) sz) sizeof_hb,
                           hb_free = True, hb_magic = HEAP_MAGIC,
                           hb_next = hb_next (m block), hb_prev = block\<rparr>);
            nn = hb_next (m1 nxt);
            m2 = (if nn \<noteq> 0 then m1(nn := (m1 nn)\<lparr>hb_prev := nxt\<rparr>) else m1)
        in m2(block := (m2 block)\<lparr>hb_next := nxt, hb_size := sz\<rparr>))"

definition merge_next :: "hmem \<Rightarrow> nat \<Rightarrow> hmem" where
  "merge_next m block =
     (let nxt = hb_next (m block)
      in if nxt \<noteq> 0 \<and> hb_magic (m nxt) = HEAP_MAGIC \<and> hb_free (m nxt) then
           let m1 = m(block := (m block)
                 \<lparr>hb_size := szadd (hb_size (m block)) (szadd sizeof_hb (hb_size (m nxt))),
                  hb_next := hb_next (m nxt)\<rparr>);
               nn = hb_next (m1 block)
           in (if nn \<noteq> 0 then m1(nn := (m1 nn)\<lparr>hb_prev := block\<rparr>) else m1)
         else m)"

text \<open>\<open>coalesce\<close> calls itself on the previous block; on a cyclic list it would not return.\<close>

partial_function (option) coalesce :: "hmem \<Rightarrow> nat \<Rightarrow> hmem option" where
  "coalesce m block =
     (if block = 0 \<or> hb_magic (m block) \<noteq> HEAP_MAGIC then Some m
      else
        let m1 = merge_next m block;
            prev = hb_prev (m1 block)
        in if prev \<noteq> 0 \<and> hb_magic (m1 prev) = HEAP_MAGIC \<and> hb_free (m1 prev)
           then coalesce m1 prev
           else Some m1)"

text \<open>The body of the loop of \<open>kmalloc\<close> once it has found a block.\<close>

definition kmalloc_take :: "heap_state \<Rightarrow> nat \<Rightarrow> nat \<Rightarrow> nat \<times> heap_state" where
  "kmalloc_take h b sz =
     (let m1 = split_block (heap_mem h) b sz;
          m2 = m1(b := (m1 b)\<lparr>hb_free := False\<rparr>);
          h2 = h\<lparr>heap_mem := m2\<rparr>;
          top = b + sizeof_hb + hb_size (m2 b) - heap_base h;
          h3 = (if top > heap_used_highwater h2
                then record_heap_usage (h2\<lparr>heap_used_highwater := top\<rparr>) else h2)
      in (b + sizeof_hb, h3))"

partial_function (option) kmalloc_from ::
    "heap_state \<Rightarrow> nat \<Rightarrow> nat \<Rightarrow> (nat \<times> heap_state) option" where
  "kmalloc_from h b sz =
     (if b = 0 then Some (0, h)
      else if hb_magic (heap_mem h b) \<noteq> HEAP_MAGIC then Some (0, h)
      else if hb_free (heap_mem h b) \<and> hb_size (heap_mem h b) \<ge> sz
      then Some (kmalloc_take h b sz)
      else kmalloc_from h (hb_next (heap_mem h b)) sz)"

definition kmalloc :: "heap_state \<Rightarrow> nat \<Rightarrow> (nat \<times> heap_state) option" where
  "kmalloc h sz0 =
     (let sz = align16 sz0
      in if sz = 0 then Some (0, h) else kmalloc_from h (heap_head h) sz)"

definition kfree :: "heap_state \<Rightarrow> nat \<Rightarrow> heap_state option" where
  "kfree h ptr =
     (if ptr = 0 then Some h
      else if ptr < heap_base h \<or> ptr \<ge> heap_base h + KERNEL_HEAP_SIZE then Some h
      else
        let b = ptr - sizeof_hb; m = heap_mem h
        in if hb_magic (m b) \<noteq> HEAP_MAGIC then Some h
           else map_option (\<lambda>m'. h\<lparr>heap_mem := m'\<rparr>)
                  (coalesce (m(b := (m b)\<lparr>hb_free := True\<rparr>)) b))"

definition data_fill :: "(nat \<Rightarrow> u8) \<Rightarrow> nat \<Rightarrow> u8 \<Rightarrow> nat \<Rightarrow> (nat \<Rightarrow> u8)" where
  "data_fill d p v n = (\<lambda>a. if p \<le> a \<and> a < p + n then v else d a)"

definition data_copy :: "(nat \<Rightarrow> u8) \<Rightarrow> nat \<Rightarrow> nat \<Rightarrow> nat \<Rightarrow> (nat \<Rightarrow> u8)" where
  "data_copy d p q n = (\<lambda>a. if p \<le> a \<and> a < p + n then d (q + (a - p)) else d a)"

definition kcalloc :: "heap_state \<Rightarrow> nat \<Rightarrow> nat \<Rightarrow> (nat \<times> heap_state) option" where
  "kcalloc h count sz =
     (if count \<noteq> 0 \<and> sz > (2 ^ 64 - 1) div count then Some (0, h)
      else
        let total = szmul count sz
        in case kmalloc h total of
             None \<Rightarrow> None
           | Some (ptr, h') \<Rightarrow>
               Some (ptr, if ptr \<noteq> 0 then h'\<lparr>heap_data := data_fill (heap_data h') ptr 0 total\<rparr>
                          else h'))"

definition krealloc :: "heap_state \<Rightarrow> nat \<Rightarrow> nat \<Rightarrow> nat \<Rightarrow> (nat \<times> heap_state) option" where
  "krealloc h ptr old_size new_size =
     (if ptr = 0 then kmalloc h new_size
      else if new_size = 0 then map_option (\<lambda>h'. (0, h')) (kfree h ptr)
      else
        let b = ptr - sizeof_hb
        in if hb_magic (heap_mem h b) = HEAP_MAGIC \<and> hb_size (heap_mem h b) \<ge> new_size
           then Some (ptr, h\<lparr>heap_mem := split_block (heap_mem h) b (align16 new_size)\<rparr>)
           else case kmalloc h new_size of
                  None \<Rightarrow> None
                | Some (new_ptr, h1) \<Rightarrow>
                    if new_ptr = 0 then Some (0, h1)
                    else
                      let h2 = (if old_size \<noteq> 0 then
                                  h1\<lparr>heap_data := data_copy (heap_data h1) new_ptr ptr
                                       (if old_size < new_size then old_size else new_size)\<rparr>
                                else if hb_magic (heap_mem h1 b) = HEAP_MAGIC then
                                  h1\<lparr>heap_data := data_copy (heap_data h1) new_ptr ptr
                                       (if hb_size (heap_mem h1 b) < new_size
                                        then hb_size (heap_mem h1 b) else new_size)\<rparr>
                                else h1)
                      in map_option (\<lambda>h3. (new_ptr, h3)) (kfree h2 ptr))"

subsection \<open>The abstract heap\<close>

text \<open>A block of the abstract heap: the address of its header, its size, and whether it is free.\<close>

type_synonym ablk = "nat \<times> nat \<times> bool"

definition a_split :: "nat \<Rightarrow> ablk \<Rightarrow> ablk list" where
  "a_split sz blk =
     (case blk of (a, s, f) \<Rightarrow>
        if s < sz + sizeof_hb + 32 then [(a, s, f)]
        else [(a, sz, f), (a + sizeof_hb + sz, s - sz - sizeof_hb, True)])"

fun a_kmalloc_from :: "nat \<Rightarrow> ablk list \<Rightarrow> (nat \<times> ablk list) option" where
  "a_kmalloc_from sz [] = None"
| "a_kmalloc_from sz ((a, s, f) # bs) =
     (if f \<and> s \<ge> sz then Some (a + sizeof_hb, a_split sz (a, s, False) @ bs)
      else map_option (\<lambda>(p, bs'). (p, (a, s, f) # bs')) (a_kmalloc_from sz bs))"

definition a_kmalloc :: "ablk list \<Rightarrow> nat \<Rightarrow> (nat \<times> ablk list) option" where
  "a_kmalloc L sz0 = (if align16 sz0 = 0 then None else a_kmalloc_from (align16 sz0) L)"

fun a_merge_right :: "nat \<Rightarrow> ablk list \<Rightarrow> nat \<times> ablk list" where
  "a_merge_right s ((a2, s2, True) # bs) = (s + sizeof_hb + s2, bs)"
| "a_merge_right s bs = (s, bs)"

text \<open>The blocks to the left are kept nearest first.\<close>

fun a_merge_left :: "ablk list \<Rightarrow> nat \<Rightarrow> nat \<Rightarrow> ablk list \<Rightarrow> ablk list" where
  "a_merge_left [] a s bs = (a, s, True) # bs"
| "a_merge_left ((a0, s0, f0) # rl) a s bs =
     (if f0 then a_merge_left rl a0 (s0 + sizeof_hb + s) bs
      else rev ((a0, s0, f0) # rl) @ (a, s, True) # bs)"

fun a_free_at :: "ablk list \<Rightarrow> ablk list \<Rightarrow> nat \<Rightarrow> ablk list" where
  "a_free_at rl [] b = rev rl"
| "a_free_at rl ((a, s, f) # bs) b =
     (if a = b then (case a_merge_right s bs of (s', bs') \<Rightarrow> a_merge_left rl a s' bs')
      else a_free_at ((a, s, f) # rl) bs b)"

definition a_kfree :: "ablk list \<Rightarrow> nat \<Rightarrow> ablk list" where
  "a_kfree L ptr = a_free_at [] L (ptr - sizeof_hb)"

subsection \<open>The relation between the code's heap and the abstract one\<close>

text \<open>
  \<open>dseg m p a bs q r\<close>: from address \<open>a\<close>, the headers of \<open>bs\<close> follow each other along the
  next pointers up to the pointer \<open>q\<close>; the previous pointers lead back to \<open>p\<close>, and \<open>r\<close> is
  the address of the last header (\<open>p\<close> if there is none).
\<close>

fun dseg :: "hmem \<Rightarrow> nat \<Rightarrow> nat \<Rightarrow> ablk list \<Rightarrow> nat \<Rightarrow> nat \<Rightarrow> bool" where
  "dseg m p a [] q r = (a = q \<and> p = r)"
| "dseg m p a ((b, s, f) # bs) q r =
     (a = b \<and> a \<noteq> 0 \<and> hb_size (m a) = s \<and> hb_free (m a) = f \<and> hb_magic (m a) = HEAP_MAGIC \<and>
      hb_prev (m a) = p \<and> dseg m a (hb_next (m a)) bs q r)"

fun tiles :: "nat \<Rightarrow> ablk list \<Rightarrow> nat \<Rightarrow> bool" where
  "tiles a [] e = (a = e)"
| "tiles a ((b, s, f) # bs) e = (a = b \<and> tiles (a + sizeof_hb + s) bs e)"

definition heap_rel :: "heap_state \<Rightarrow> ablk list \<Rightarrow> bool" where
  "heap_rel h L \<longleftrightarrow>
     0 < heap_base h \<and> heap_base h mod 16 = 0 \<and> heap_base h + KERNEL_HEAP_SIZE < 2 ^ 63 \<and>
     heap_head h = heap_base h \<and>
     (\<exists>r. dseg (heap_mem h) 0 (heap_base h) L 0 r) \<and>
     tiles (heap_base h) L (heap_base h + KERNEL_HEAP_SIZE) \<and>
     (\<forall>(a, s, f) \<in> set L. s mod 16 = 0 \<and> 0 < s)"

lemma dseg_append:
  "dseg m p a (xs @ ys) q r \<longleftrightarrow> (\<exists>a' p'. dseg m p a xs a' p' \<and> dseg m p' a' ys q r)"
  by (induction m p a xs q r rule: dseg.induct) auto

lemma dseg_cong:
  "(\<And>b s f. (b, s, f) \<in> set bs \<Longrightarrow> m' b = m b) \<Longrightarrow> dseg m' p a bs q r = dseg m p a bs q r"
proof (induction bs arbitrary: p a)
  case Nil
  then show ?case by simp
next
  case (Cons x bs)
  obtain b s f where x: "x = (b, s, f)" by (cases x)
  have "m' b = m b" using Cons.prems [of b s f] x by simp
  moreover have "dseg m' p' a' bs q r = dseg m p' a' bs q r" for p' a'
    using Cons.prems by (intro Cons.IH) (meson list.set_intros(2))
  ultimately show ?case using x by auto
qed

lemma tiles_append:
  "tiles a (xs @ ys) e \<longleftrightarrow> (\<exists>c. tiles a xs c \<and> tiles c ys e)"
  by (induction a xs e rule: tiles.induct) auto

lemma tiles_le: "tiles a bs e \<Longrightarrow> a \<le> e"
  by (induction a bs e rule: tiles.induct) auto

lemma tiles_bounds:
  "tiles a bs e \<Longrightarrow> (b, s, f) \<in> set bs \<Longrightarrow> a \<le> b \<and> b + sizeof_hb + s \<le> e"
proof (induction a bs e rule: tiles.induct)
  case (1 a e)
  then show ?case by simp
next
  case (2 a b' s' f' bs e)
  then show ?case using tiles_le by fastforce
qed

text \<open>The heap around one block: what is before it, the block itself, what is after it.\<close>

lemma dseg_block:
  "dseg m p a (xs @ (b, s, f) # ys) q r \<longleftrightarrow>
     (\<exists>pb. dseg m p a xs b pb \<and> b \<noteq> 0 \<and> hb_size (m b) = s \<and> hb_free (m b) = f \<and>
        hb_magic (m b) = HEAP_MAGIC \<and> hb_prev (m b) = pb \<and> dseg m b (hb_next (m b)) ys q r)"
  by (auto simp: dseg_append)

lemma tiles_block:
  "tiles a (xs @ (b, s, f) # ys) e \<longleftrightarrow> tiles a xs b \<and> tiles (b + sizeof_hb + s) ys e"
  by (auto simp: tiles_append)

lemma tiles_before:
  "tiles a xs b \<Longrightarrow> (c, s, f) \<in> set xs \<Longrightarrow> c < b"
  using tiles_bounds by fastforce

lemma tiles_after:
  "tiles c ys e \<Longrightarrow> (b, s, f) \<in> set ys \<Longrightarrow> c \<le> b"
  using tiles_bounds by fastforce

subsection \<open>Splitting and merging are list operations\<close>

text \<open>
  A segment whose first header only changes its previous pointer, as both \<open>split_block\<close> and
  \<open>merge_next\<close> change the header that follows the blocks they work on.
\<close>

lemma dseg_relink:
  assumes seg: "dseg m b nb ys 0 r" and tl: "tiles c ys e" and "0 < c"
    and out: "\<And>x. c \<le> x \<Longrightarrow> x \<noteq> nb \<Longrightarrow> m' x = m x"
    and nb: "nb \<noteq> 0 \<Longrightarrow> m' nb = (m nb)\<lparr>hb_prev := p\<rparr>"
  shows "\<exists>r'. dseg m' p nb ys 0 r'"
proof (cases ys)
  case Nil
  then show ?thesis using seg by simp
next
  case (Cons y ys')
  obtain s f where y: "y = (nb, s, f)" and nb0: "nb \<noteq> 0"
    using seg Cons by (cases y) auto
  have cnb: "nb = c" and tl': "tiles (c + sizeof_hb + s) ys' e"
    using tl Cons y by auto
  have "dseg m' nb (hb_next (m nb)) ys' 0 r = dseg m nb (hb_next (m nb)) ys' 0 r"
    using tiles_after [OF tl'] cnb by (intro dseg_cong out) force+
  then show ?thesis
    using seg Cons y nb [OF nb0] by auto
qed

lemma dseg_frame_before:
  assumes "tiles a xs b" and "\<And>x. x < b \<Longrightarrow> m' x = m x"
  shows "dseg m' p a xs q r = dseg m p a xs q r"
  using assms tiles_before by (intro dseg_cong) blast

lemma next_of_block:
  assumes "dseg m b nb ys 0 r" and "tiles c ys e"
  shows "nb = 0 \<or> nb = c"
  using assms by (cases ys) auto

lemma split_block_dseg:
  assumes seg: "dseg m p a (xs @ (b, s, f) # ys) 0 r"
    and tl: "tiles a (xs @ (b, s, f) # ys) e"
    and sz: "sz \<le> s" and big: "s + 64 < 2 ^ 64"
  shows "\<exists>r'. dseg (split_block m b sz) p a (xs @ a_split sz (b, s, f) @ ys) 0 r'"
proof (cases "s < sz + sizeof_hb + 32")
  case True
  have "szadd (szadd sz sizeof_hb) 32 = sz + 64"
    using sz big by (simp add: szadd_exact)
  then have "split_block m b sz = m"
    using True seg by (simp add: split_block_def dseg_block)
  then show ?thesis using True seg by (auto simp: a_split_def)
next
  case False
  let ?n = "b + sizeof_hb + sz" and ?nb = "hb_next (m b)" and ?m = "split_block m b sz"
  obtain pb where xs: "dseg m p a xs b pb" and b0: "b \<noteq> 0"
    and mb: "hb_size (m b) = s" "hb_free (m b) = f" "hb_magic (m b) = HEAP_MAGIC" "hb_prev (m b) = pb"
    and ys: "dseg m b ?nb ys 0 r"
    using seg by (auto simp: dseg_block)
  have tx: "tiles a xs b" and ty: "tiles (b + sizeof_hb + s) ys e"
    using tl by (auto simp: tiles_block)
  have nb: "?nb = 0 \<or> ?nb = b + sizeof_hb + s" by (rule next_of_block [OF ys ty])
  have "szadd (szadd sz sizeof_hb) 32 = sz + 64" "szsub (szsub s sz) sizeof_hb = s - sz - sizeof_hb"
    using sz big False by (simp_all add: szadd_exact szsub_exact)
  then have def: "?m = (let m1 = m(?n := \<lparr>hb_size = s - sz - sizeof_hb, hb_free = True,
        hb_magic = HEAP_MAGIC, hb_next = ?nb, hb_prev = b\<rparr>);
        m2 = (if ?nb \<noteq> 0 then m1(?nb := (m1 ?nb)\<lparr>hb_prev := ?n\<rparr>) else m1)
        in m2(b := (m2 b)\<lparr>hb_next := ?n, hb_size := sz\<rparr>))"
    using False mb b0 by (simp add: split_block_def Let_def)
  have new_b: "?m b = (m b)\<lparr>hb_next := ?n, hb_size := sz\<rparr>"
    using nb b0 by (auto simp: def Let_def)
  have new_n: "?m ?n = \<lparr>hb_size = s - sz - sizeof_hb, hb_free = True,
        hb_magic = HEAP_MAGIC, hb_next = ?nb, hb_prev = b\<rparr>"
    using nb False b0 by (auto simp: def Let_def)
  have new_nb: "?nb \<noteq> 0 \<Longrightarrow> ?m ?nb = (m ?nb)\<lparr>hb_prev := ?n\<rparr>"
    using nb False b0 by (auto simp: def Let_def)
  have same: "x \<noteq> b \<Longrightarrow> x \<noteq> ?n \<Longrightarrow> ?nb = 0 \<or> x \<noteq> ?nb \<Longrightarrow> ?m x = m x" for x
    by (auto simp: def Let_def)
  have frame: "?m x = m x" if "x < b" for x
    using that nb False by (intro same) auto
  have "dseg ?m p a xs b pb"
    using xs by (subst dseg_frame_before [OF tx frame])
  moreover have "\<exists>r'. dseg ?m ?n ?nb ys 0 r'"
  proof (rule dseg_relink [OF ys ty])
    show "?nb \<noteq> 0 \<Longrightarrow> ?m ?nb = (m ?nb)\<lparr>hb_prev := ?n\<rparr>" by (rule new_nb)
    show "0 < b + sizeof_hb + s" by simp
    show "?m x = m x" if "b + sizeof_hb + s \<le> x" "x \<noteq> ?nb" for x
      using that False by (intro same) simp_all
  qed
  ultimately show ?thesis
    using False mb b0 new_b new_n by (fastforce simp: a_split_def dseg_block)
qed

lemma merge_next_dseg:
  assumes seg: "dseg m p a (xs @ (b, s, f) # ys) 0 r"
    and tl: "tiles a (xs @ (b, s, f) # ys) e" and big: "e < 2 ^ 63"
    and mr: "a_merge_right s ys = (s', ys')"
  shows "\<exists>r'. dseg (merge_next m b) p a (xs @ (b, s', f) # ys') 0 r'"
proof -
  let ?nb = "hb_next (m b)" and ?m = "merge_next m b"
  obtain pb where xs: "dseg m p a xs b pb" and b0: "b \<noteq> 0"
    and mb: "hb_size (m b) = s" "hb_free (m b) = f" "hb_magic (m b) = HEAP_MAGIC" "hb_prev (m b) = pb"
    and ys: "dseg m b ?nb ys 0 r"
    using seg by (auto simp: dseg_block)
  have tx: "tiles a xs b" and ty: "tiles (b + sizeof_hb + s) ys e"
    using tl by (auto simp: tiles_block)
  show ?thesis
  proof (cases "\<exists>a2 s2 zs. ys = (a2, s2, True) # zs")
    case False
    then have "s' = s" "ys' = ys" using mr by (cases "(s, ys)" rule: a_merge_right.cases; auto)+
    moreover have "?m = m"
      using False ys by (cases ys) (auto simp: merge_next_def Let_def)
    ultimately show ?thesis using seg by auto
  next
    case True
    then obtain s2 zs where yz: "ys = (?nb, s2, True) # zs" using ys by auto
    let ?nn = "hb_next (m ?nb)"
    have s': "s' = s + sizeof_hb + s2" and ys': "ys' = zs" using mr yz by auto
    note ty2 = ty [unfolded yz tiles.simps]
    have nb: "?nb = b + sizeof_hb + s" by (rule conjunct1 [OF ty2, symmetric])
    have tz: "tiles (b + sizeof_hb + s + sizeof_hb + s2) zs e" by (rule conjunct2 [OF ty2])
    have zs: "dseg m ?nb ?nn zs 0 r" and mn: "hb_size (m ?nb) = s2" "hb_free (m ?nb)"
       "hb_magic (m ?nb) = HEAP_MAGIC" "?nb \<noteq> 0"
      using ys yz by auto
    have nn: "?nn = 0 \<or> ?nn = b + sizeof_hb + s + sizeof_hb + s2"
      by (rule next_of_block [OF zs tz])
    have "szadd s (szadd sizeof_hb s2) = s'"
      using s' tiles_le [OF tz] big by (simp add: szadd_exact)
    then have def: "?m = (let m1 = m(b := (m b)\<lparr>hb_size := s', hb_next := ?nn\<rparr>)
       in (if ?nn \<noteq> 0 then m1(?nn := (m1 ?nn)\<lparr>hb_prev := b\<rparr>) else m1))"
      using mn mb by (simp add: merge_next_def Let_def)
    have new_b: "?m b = (m b)\<lparr>hb_size := s', hb_next := ?nn\<rparr>"
      using nn b0 by (auto simp: def Let_def)
    have new_nn: "?nn \<noteq> 0 \<Longrightarrow> ?m ?nn = (m ?nn)\<lparr>hb_prev := b\<rparr>"
      using nn b0 by (auto simp: def Let_def)
    have same: "x \<noteq> b \<Longrightarrow> ?nn = 0 \<or> x \<noteq> ?nn \<Longrightarrow> ?m x = m x" for x
      by (auto simp: def Let_def)
    have frame: "?m x = m x" if "x < b" for x
      using that nn by (intro same) auto
    have "dseg ?m p a xs b pb"
      using xs by (subst dseg_frame_before [OF tx frame])
    moreover have "\<exists>r'. dseg ?m b ?nn zs 0 r'"
    proof (rule dseg_relink [OF zs tz])
      show "?nn \<noteq> 0 \<Longrightarrow> ?m ?nn = (m ?nn)\<lparr>hb_prev := b\<rparr>" by (rule new_nn)
      show "0 < b + sizeof_hb + s + sizeof_hb + s2" by simp
      show "?m x = m x" if "b + sizeof_hb + s + sizeof_hb + s2 \<le> x" "x \<noteq> ?nn" for x
        using that by (intro same) simp_all
    qed
    ultimately show ?thesis
      using mb b0 new_b ys' by (fastforce simp: dseg_block)
  qed
qed

subsection \<open>What the abstract operations keep\<close>

named_theorems heap_abs \<open>facts on the abstract heap operations\<close>

definition sizes_ok :: "ablk list \<Rightarrow> bool" where
  "sizes_ok L \<longleftrightarrow> (\<forall>(a, s, f) \<in> set L. s mod 16 = 0 \<and> 0 < s)"

lemma sizes_ok_simps [simp]:
  "sizes_ok []"
  "sizes_ok ((a, s, f) # L) \<longleftrightarrow> s mod 16 = 0 \<and> 0 < s \<and> sizes_ok L"
  "sizes_ok (L @ M) \<longleftrightarrow> sizes_ok L \<and> sizes_ok M"
  "sizes_ok (rev L) \<longleftrightarrow> sizes_ok L"
  by (auto simp: sizes_ok_def ball_Un)

text \<open>The payloads handed out and not yet given back.\<close>

definition a_live :: "ablk list \<Rightarrow> (nat \<times> nat) set" where
  "a_live L = {(a + sizeof_hb, s) | a s. (a, s, False) \<in> set L}"

lemma a_live_simps [simp]:
  "a_live [] = {}"
  "a_live ((a, s, f) # L) = (if f then a_live L else insert (a + sizeof_hb, s) (a_live L))"
  "a_live (L @ M) = a_live L \<union> a_live M"
  "a_live (rev L) = a_live L"
  by (auto simp: a_live_def)

lemma a_split_tiles [heap_abs]:
  "sz \<le> s \<Longrightarrow> tiles a (a_split sz (a, s, f) @ bs) e = tiles a ((a, s, f) # bs) e"
  by (auto simp: a_split_def algebra_simps)

lemma a_split_sizes_ok [heap_abs]:
  "sz mod 16 = 0 \<Longrightarrow> 0 < sz \<Longrightarrow> sz \<le> s \<Longrightarrow> s mod 16 = 0 \<Longrightarrow> sizes_ok (a_split sz (a, s, f))"
  by (auto simp: a_split_def mod_0_imp_dvd)

lemma a_split_live [heap_abs]:
  "sz \<le> s \<Longrightarrow> \<exists>s' \<ge> sz. s' \<le> s \<and> a_live (a_split sz (a, s, False)) = {(a + sizeof_hb, s')}"
  by (auto simp: a_split_def)

lemma a_kmalloc_from_props:
  "a_kmalloc_from sz L = Some (p, L') \<Longrightarrow>
     (tiles a L e \<longrightarrow> tiles a L' e) \<and>
     (sz mod 16 = 0 \<longrightarrow> 0 < sz \<longrightarrow> sizes_ok L \<longrightarrow> sizes_ok L') \<and>
     (\<exists>b s s'. (b, s, True) \<in> set L \<and> p = b + sizeof_hb \<and> sz \<le> s' \<and> s' \<le> s \<and>
         a_live L' = insert (p, s') (a_live L))"
proof (induction sz L arbitrary: p L' a rule: a_kmalloc_from.induct)
  case (1 sz)
  then show ?case by simp
next
  case (2 sz b s f bs)
  show ?case
  proof (cases "f \<and> s \<ge> sz")
    case True
    then have "p = b + sizeof_hb" "L' = a_split sz (b, s, False) @ bs" using 2 by auto
    moreover obtain s' where "s' \<ge> sz" "s' \<le> s" "a_live (a_split sz (b, s, False)) = {(b + sizeof_hb, s')}"
      using a_split_live True by blast
    ultimately show ?thesis
      using True a_split_tiles [of sz s b False bs e] a_split_sizes_ok by fastforce
  next
    case False
    then obtain L'' where L'': "a_kmalloc_from sz bs = Some (p, L'')" "L' = (b, s, f) # L''"
      using 2 by auto
    note IH = "2.IH" [OF False L''(1), of "b + sizeof_hb + s"]
    have "tiles a ((b, s, f) # bs) e \<longrightarrow> tiles a ((b, s, f) # L'') e" using IH by auto
    moreover have "sz mod 16 = 0 \<longrightarrow> 0 < sz \<longrightarrow> sizes_ok ((b, s, f) # bs) \<longrightarrow> sizes_ok ((b, s, f) # L'')"
      using IH by auto
    moreover obtain b' t s' where "(b', t, True) \<in> set bs" "p = b' + sizeof_hb" "sz \<le> s'" "s' \<le> t"
       "a_live L'' = insert (p, s') (a_live bs)" using IH by auto
    ultimately show ?thesis unfolding L''(2) by fastforce
  qed
qed

lemma a_kmalloc_from_None:
  "a_kmalloc_from sz L = None \<longleftrightarrow> (\<forall>(a, s, f) \<in> set L. f \<longrightarrow> s < sz)"
  by (induction sz L rule: a_kmalloc_from.induct) auto

lemma a_merge_right_cases:
  assumes "a_merge_right s ys = (s', ys')"
  obtains "s' = s" "ys' = ys" "\<And>b t zs. ys \<noteq> (b, t, True) # zs"
  | b t where "ys = (b, t, True) # ys'" "s' = s + sizeof_hb + t"
  using assms by (cases "(s, ys)" rule: a_merge_right.cases) auto

lemma a_merge_left_eq:
  "\<exists>k a' s' rl'. a_merge_left rl a s bs = rev rl' @ (a', s', True) # bs \<and>
     rl = map (\<lambda>(a, s). (a, s, True)) k @ rl'"
proof (induction rl a s bs rule: a_merge_left.induct)
  case (1 a s bs)
  show ?case by (rule exI [of _ "[]"]) auto
next
  case (2 a0 s0 f0 rl a s bs)
  show ?case
  proof (cases f0)
    case True
    then obtain k a' s' rl' where "a_merge_left ((a0, s0, f0) # rl) a s bs = rev rl' @ (a', s', True) # bs"
       "(a0, s0, f0) # rl = map (\<lambda>(a, s). (a, s, True)) ((a0, s0) # k) @ rl'"
      using 2 by auto
    then show ?thesis by blast
  next
    case False
    then show ?thesis by (intro exI [of _ "[]"]) auto
  qed
qed

lemma a_live_all_free [simp]: "a_live (map (\<lambda>(a, s). (a, s, True)) k) = {}"
  by (auto simp: a_live_def)

lemma a_merge_left_live [heap_abs]: "a_live (a_merge_left rl a s bs) = a_live rl \<union> a_live bs"
  using a_merge_left_eq [of rl a s bs] by auto

lemma a_merge_left_tiles [heap_abs]:
  "tiles c (rev rl @ (a, s, True) # bs) e \<Longrightarrow> tiles c (a_merge_left rl a s bs) e"
  by (induction rl a s bs rule: a_merge_left.induct) (simp_all add: tiles_block algebra_simps)

lemma a_merge_left_sizes_ok [heap_abs]:
  "sizes_ok rl \<Longrightarrow> s mod 16 = 0 \<Longrightarrow> 0 < s \<Longrightarrow> sizes_ok bs \<Longrightarrow>
     sizes_ok (a_merge_left rl a s bs)"
  by (induction rl a s bs rule: a_merge_left.induct) (auto simp: mod_0_imp_dvd)

lemma a_merge_right_props:
  assumes "a_merge_right s ys = (s', ys')"
  shows "a_live ys' = a_live ys"
    and "tiles (b + sizeof_hb + s) ys e \<Longrightarrow> tiles (b + sizeof_hb + s') ys' e"
    and "s mod 16 = 0 \<Longrightarrow> 0 < s \<Longrightarrow> sizes_ok ys \<Longrightarrow> s' mod 16 = 0 \<and> 0 < s' \<and> sizes_ok ys'"
  using assms by (auto elim!: a_merge_right_cases simp: algebra_simps mod_0_imp_dvd)

lemma a_free_at_block:
  "b \<notin> fst ` set xs \<Longrightarrow>
     a_free_at rl (xs @ (b, s, f) # ys) b =
       (case a_merge_right s ys of (s', ys') \<Rightarrow> a_merge_left (rev xs @ rl) b s' ys')"
  by (induction xs arbitrary: rl) auto

lemma a_kfree_block:
  assumes "tiles a (xs @ (b, s, f) # ys) e"
  shows "a_kfree (xs @ (b, s, f) # ys) (b + sizeof_hb) =
     (case a_merge_right s ys of (s', ys') \<Rightarrow> a_merge_left (rev xs) b s' ys')"
proof -
  have "b \<notin> fst ` set xs" using assms tiles_before by (fastforce simp: tiles_block)
  then show ?thesis by (simp add: a_kfree_def a_free_at_block)
qed

lemma a_kfree_props:
  assumes tl: "tiles a (xs @ (b, s, f) # ys) e"
  defines "L' \<equiv> a_kfree (xs @ (b, s, f) # ys) (b + sizeof_hb)"
  shows "tiles a L' e" and "sizes_ok (xs @ (b, s, f) # ys) \<Longrightarrow> sizes_ok L'"
    and "a_live L' = a_live xs \<union> a_live ys"
proof -
  obtain s' ys' where mr: "a_merge_right s ys = (s', ys')" by fastforce
  have L': "L' = a_merge_left (rev xs) b s' ys'"
    using a_kfree_block [OF tl] mr by (simp add: L'_def)
  note R = a_merge_right_props [OF mr]
  have "tiles a (rev (rev xs) @ (b, s', True) # ys') e"
    using tl R(2) by (auto simp: tiles_block)
  then show "tiles a L' e" unfolding L' by (rule a_merge_left_tiles)
  show "sizes_ok (xs @ (b, s, f) # ys) \<Longrightarrow> sizes_ok L'"
    unfolding L' using R(3) by (intro a_merge_left_sizes_ok) auto
  show "a_live L' = a_live xs \<union> a_live ys" unfolding L' by (simp add: a_merge_left_live R(1))
qed

subsection \<open>Every operation of the code returns and is simulated\<close>

lemma heap_rel_sizes_ok: "heap_rel h L \<Longrightarrow> sizes_ok L"
  by (simp add: heap_rel_def sizes_ok_def)

lemma coalesce_refines:
  assumes "dseg m 0 a (rev rl @ (b, s, True) # ys) 0 r"
    and "tiles a (rev rl @ (b, s, True) # ys) e" and "e < 2 ^ 63"
    and "a_merge_right s ys = (s', ys')"
  shows "\<exists>m' r'. coalesce m b = Some m' \<and> dseg m' 0 a (a_merge_left rl b s' ys') 0 r'"
  using assms
proof (induction rl arbitrary: m b s ys s' ys' r)
  case Nil
  obtain r' where "dseg (merge_next m b) 0 a ((b, s', True) # ys') 0 r'"
    using merge_next_dseg [of m 0 a "[]" b s True ys r e] Nil by auto
  then show ?case using Nil.prems(1) by (subst coalesce.simps) (auto simp: Let_def)
next
  case (Cons x rl)
  obtain a0 s0 f0 where x: "x = (a0, s0, f0)" by (cases x)
  let ?m = "merge_next m b"
  obtain r' where seg: "dseg ?m 0 a ((rev rl @ [x]) @ (b, s', True) # ys') 0 r'"
    using merge_next_dseg [of m 0 a "rev rl @ [x]" b s True ys r e] Cons.prems by auto
  have tl: "tiles a ((rev rl @ [x]) @ (b, s', True) # ys') e"
    using Cons.prems(2) a_merge_right_props(2) [OF Cons.prems(4), of b e]
    by (simp only: rev.simps tiles_block)
  have b: "b \<noteq> 0" "hb_magic (m b) = HEAP_MAGIC"
    using Cons.prems(1) unfolding dseg_block by auto
  have pr: "hb_prev (?m b) = a0" "a0 \<noteq> 0" "hb_magic (?m a0) = HEAP_MAGIC" "hb_free (?m a0) = f0"
    using seg unfolding dseg_block x by (auto simp: dseg_append)
  show ?case
  proof (cases f0)
    case False
    then show ?thesis
      using b pr seg x by (subst coalesce.simps) (auto simp: Let_def)
  next
    case True
    have "\<exists>m' r'. coalesce ?m a0 = Some m' \<and>
        dseg m' 0 a (a_merge_left rl a0 (s0 + sizeof_hb + s') ys') 0 r'"
      using seg tl Cons.prems(3) x True by (intro Cons.IH [where ys = "(b, s', True) # ys'"]) auto
    then show ?thesis
      using b pr x True by (subst coalesce.simps) (auto simp: Let_def)
  qed
qed

lemma dseg_set_free:
  assumes "dseg m p a (xs @ (b, s, f) # ys) q r" and "tiles a (xs @ (b, s, f) # ys) e"
  shows "dseg (m(b := (m b)\<lparr>hb_free := g\<rparr>)) p a (xs @ (b, s, g) # ys) q r"
proof -
  let ?m = "m(b := (m b)\<lparr>hb_free := g\<rparr>)"
  have tx: "tiles a xs b" and ty: "tiles (b + sizeof_hb + s) ys e"
    using assms(2) by (auto simp: tiles_block)
  have "dseg ?m b (hb_next (m b)) ys q r = dseg m b (hb_next (m b)) ys q r"
    using tiles_after [OF ty] by (intro dseg_cong) fastforce
  moreover have "dseg ?m p a xs b pb = dseg m p a xs b pb" for pb
    by (rule dseg_frame_before [OF tx]) simp
  ultimately show ?thesis using assms(1) unfolding dseg_block by simp
qed

lemma heap_rel_block_bounds:
  assumes "heap_rel h L" and "(b, s, f) \<in> set L"
  shows "heap_base h \<le> b" and "b + sizeof_hb + s \<le> heap_base h + KERNEL_HEAP_SIZE"
    and "b + sizeof_hb + s < 2 ^ 63"
  using assms tiles_bounds [of "heap_base h" L "heap_base h + KERNEL_HEAP_SIZE" b s f]
  by (auto simp: heap_rel_def)

lemma tiles_aligned:
  "tiles a L e \<Longrightarrow> a mod 16 = 0 \<Longrightarrow> sizes_ok L \<Longrightarrow> (b, s, f) \<in> set L \<Longrightarrow> b mod 16 = 0"
proof (induction a L e rule: tiles.induct)
  case (1 a e)
  then show ?case by simp
next
  case (2 a c t g bs e)
  have "a mod 16 = 0" "t mod 16 = 0" using 2 by auto
  then have "(a + sizeof_hb + t) mod 16 = 0" by presburger
  then show ?case using 2 by auto
qed

lemma heap_rel_aligned: "heap_rel h L \<Longrightarrow> (b, s, f) \<in> set L \<Longrightarrow> b mod 16 = 0"
  by (rule tiles_aligned [of "heap_base h" L "heap_base h + KERNEL_HEAP_SIZE"])
    (simp_all add: heap_rel_def sizes_ok_def)

text \<open>Only the heap's memory and the list matter for the relation.\<close>

lemma heap_rel_intro:
  assumes "heap_rel h L" and "heap_base h' = heap_base h" and "heap_head h' = heap_head h"
    and "dseg (heap_mem h') 0 (heap_base h) L' 0 r"
    and "tiles (heap_base h) L' (heap_base h + KERNEL_HEAP_SIZE)" and "sizes_ok L'"
  shows "heap_rel h' L'"
  using assms by (auto simp: heap_rel_def sizes_ok_def)

lemma kmalloc_take_refines:
  assumes rel: "heap_rel h (xs @ (b, s, True) # ys)" and sz: "sz \<le> s" "sz mod 16 = 0" "0 < sz"
  shows "\<exists>h'. kmalloc_take h b sz = (b + sizeof_hb, h') \<and>
     heap_rel h' (xs @ a_split sz (b, s, False) @ ys) \<and>
     heap_data h' = heap_data h \<and> heap_base h' = heap_base h"
proof -
  let ?m1 = "split_block (heap_mem h) b sz"
  let ?m2 = "?m1(b := (?m1 b)\<lparr>hb_free := False\<rparr>)"
  let ?B = "heap_base h" and ?E = "heap_base h + KERNEL_HEAP_SIZE"
  have tl: "tiles ?B (xs @ (b, s, True) # ys) ?E" using rel by (simp add: heap_rel_def)
  have "s + 64 < 2 ^ 64" using heap_rel_block_bounds(3) [OF rel, of b s True] by simp
  moreover obtain r0 where "dseg (heap_mem h) 0 ?B (xs @ (b, s, True) # ys) 0 r0"
    using rel by (auto simp: heap_rel_def)
  ultimately obtain r where seg: "dseg ?m1 0 ?B (xs @ a_split sz (b, s, True) @ ys) 0 r"
    using split_block_dseg [OF _ tl sz(1)] by blast
  obtain s1 zs where sp: "a_split sz (b, s, f) = (b, s1, f) # zs" for f
    by (cases "s < sz + sizeof_hb + 32") (auto simp: a_split_def)
  have tl1: "tiles ?B (xs @ a_split sz (b, s, f) @ ys) ?E" for f
    using tl a_split_tiles [OF sz(1), of b f ys ?E] by (auto simp: tiles_append)
  have seg2: "dseg ?m2 0 ?B (xs @ a_split sz (b, s, False) @ ys) 0 r"
    using dseg_set_free [of ?m1 0 ?B xs b s1 True "zs @ ys" 0 r ?E False] seg tl1 [of True]
    by (simp add: sp)
  have "sizes_ok (xs @ a_split sz (b, s, False) @ ys)"
    using heap_rel_sizes_ok [OF rel] sz by (simp add: a_split_sizes_ok)
  then have "heap_rel (h\<lparr>heap_mem := ?m2\<rparr>) (xs @ a_split sz (b, s, False) @ ys)"
    using seg2 tl1 by (intro heap_rel_intro [OF rel]) auto
  then show ?thesis
    by (auto simp: kmalloc_take_def Let_def heap_rel_def record_heap_usage_def)
qed

lemma kmalloc_from_refines:
  assumes "heap_rel h (xs @ ys)" and "dseg (heap_mem h) 0 (heap_base h) xs b pb"
    and "dseg (heap_mem h) pb b ys 0 r" and "sz mod 16 = 0" and "0 < sz"
  shows "case a_kmalloc_from sz ys of
       None \<Rightarrow> kmalloc_from h b sz = Some (0, h)
     | Some (p, ys') \<Rightarrow> \<exists>h'. kmalloc_from h b sz = Some (p, h') \<and> heap_rel h' (xs @ ys') \<and>
          heap_data h' = heap_data h \<and> heap_base h' = heap_base h"
  using assms
proof (induction ys arbitrary: xs b pb)
  case Nil
  then show ?case by (subst kmalloc_from.simps) simp
next
  case (Cons y ys)
  obtain s f where y: "y = (b, s, f)" using Cons.prems(3) by (cases y) auto
  have hd: "b \<noteq> 0" "hb_magic (heap_mem h b) = HEAP_MAGIC" "hb_free (heap_mem h b) = f"
     "hb_size (heap_mem h b) = s" "hb_prev (heap_mem h b) = pb"
     "dseg (heap_mem h) b (hb_next (heap_mem h b)) ys 0 r"
    using Cons.prems(3) y by auto
  show ?case
  proof (cases "f \<and> s \<ge> sz")
    case True
    then show ?thesis
      using hd y Cons.prems kmalloc_take_refines [of h xs b s ys sz]
      by (subst kmalloc_from.simps) auto
  next
    case False
    have "dseg (heap_mem h) 0 (heap_base h) (xs @ [y]) (hb_next (heap_mem h b)) b"
      using Cons.prems(2) hd y by (auto simp: dseg_append)
    then have "case a_kmalloc_from sz ys of
        None \<Rightarrow> kmalloc_from h (hb_next (heap_mem h b)) sz = Some (0, h)
      | Some (p, ys') \<Rightarrow> \<exists>h'. kmalloc_from h (hb_next (heap_mem h b)) sz = Some (p, h') \<and>
          heap_rel h' ((xs @ [y]) @ ys') \<and> heap_data h' = heap_data h \<and> heap_base h' = heap_base h"
      using Cons.IH [of "xs @ [y]" "hb_next (heap_mem h b)" b] Cons.prems hd by auto
    moreover have "kmalloc_from h b sz = kmalloc_from h (hb_next (heap_mem h b)) sz"
      using hd False by (subst kmalloc_from.simps) auto
    ultimately show ?thesis
      using False y by (auto split: option.splits)
  qed
qed

lemma align16_mod [simp]: "align16 n mod 16 = 0"
  by (simp add: align16_def)

theorem kmalloc_refines:
  assumes "heap_rel h L"
  shows "case a_kmalloc L n of
       None \<Rightarrow> kmalloc h n = Some (0, h)
     | Some (p, L') \<Rightarrow> \<exists>h'. kmalloc h n = Some (p, h') \<and> heap_rel h' L' \<and>
          heap_data h' = heap_data h \<and> heap_base h' = heap_base h"
proof -
  obtain r where "dseg (heap_mem h) 0 (heap_base h) L 0 r" and "heap_head h = heap_base h"
    using assms by (auto simp: heap_rel_def)
  then show ?thesis
    using kmalloc_from_refines [of h "[]" L "heap_base h" 0 r "align16 n"] assms
    by (auto simp: kmalloc_def a_kmalloc_def split: option.splits)
qed

theorem kfree_refines:
  assumes rel: "heap_rel h L" and mem: "(b, s, f) \<in> set L"
  shows "\<exists>h'. kfree h (b + sizeof_hb) = Some h' \<and> heap_rel h' (a_kfree L (b + sizeof_hb)) \<and>
     heap_data h' = heap_data h \<and> heap_base h' = heap_base h"
proof -
  let ?B = "heap_base h" and ?E = "heap_base h + KERNEL_HEAP_SIZE"
  obtain xs ys where L: "L = xs @ (b, s, f) # ys" using mem by (auto simp: in_set_conv_decomp)
  obtain r where seg: "dseg (heap_mem h) 0 ?B (xs @ (b, s, f) # ys) 0 r"
    and tl: "tiles ?B (xs @ (b, s, f) # ys) ?E" and E: "?E < 2 ^ 63"
    using rel L by (auto simp: heap_rel_def)
  obtain s' ys' where mr: "a_merge_right s ys = (s', ys')" by fastforce
  let ?m = "(heap_mem h)(b := (heap_mem h b)\<lparr>hb_free := True\<rparr>)"
  have seg1: "dseg ?m 0 ?B (rev (rev xs) @ (b, s, True) # ys) 0 r"
    using dseg_set_free [OF seg tl] by simp
  have tl1: "tiles ?B (rev (rev xs) @ (b, s, True) # ys) ?E" using tl by (simp add: tiles_block)
  obtain m' r' where co: "coalesce ?m b = Some m'"
    and seg': "dseg m' 0 ?B (a_kfree L (b + sizeof_hb)) 0 r'"
    using coalesce_refines [OF seg1 tl1 E mr] a_kfree_block [OF tl] mr L by auto
  have "heap_rel (h\<lparr>heap_mem := m'\<rparr>) (a_kfree L (b + sizeof_hb))"
    using seg' a_kfree_props [OF tl] heap_rel_sizes_ok [OF rel] L
    by (intro heap_rel_intro [OF rel]) auto
  moreover have "kfree h (b + sizeof_hb) = Some (h\<lparr>heap_mem := m'\<rparr>)"
    using heap_rel_block_bounds [OF rel mem] co seg heap_rel_sizes_ok [OF rel] L
    by (auto simp: kfree_def Let_def dseg_block)
  ultimately show ?thesis by auto
qed

subsection \<open>The allocator contract\<close>

text \<open>
  What the rest of the kernel relies on: allocation and release always return, the regions
  handed out lie apart, a successful allocation adds a region at least as large as asked
  for, a release removes exactly one.
\<close>

locale allocator =
  fixes ok :: "'h \<Rightarrow> bool"
    and live :: "'h \<Rightarrow> (nat \<times> nat) set"
    and alloc :: "'h \<Rightarrow> nat \<Rightarrow> (nat \<times> 'h) option"
    and release :: "'h \<Rightarrow> nat \<Rightarrow> 'h option"
    and limit :: nat
  assumes live_apart: "ok h \<Longrightarrow> (p, s) \<in> live h \<Longrightarrow> (q, t) \<in> live h \<Longrightarrow> (p, s) \<noteq> (q, t) \<Longrightarrow>
        p + s \<le> q \<or> q + t \<le> p"
    and live_pos: "ok h \<Longrightarrow> (p, s) \<in> live h \<Longrightarrow> 0 < s"
    and alloc_cases: "ok h \<Longrightarrow> n < limit \<Longrightarrow>
        alloc h n = Some (0, h) \<or>
        (\<exists>p s h'. alloc h n = Some (p, h') \<and> p \<noteq> 0 \<and> ok h' \<and> n \<le> s \<and> (p, s) \<notin> live h \<and>
           live h' = insert (p, s) (live h))"
    and release_live: "ok h \<Longrightarrow> (p, s) \<in> live h \<Longrightarrow>
        \<exists>h'. release h p = Some h' \<and> ok h' \<and> live h' = live h - {(p, s)}"
begin

lemma alloc_SomeE:
  assumes "ok h" "n < limit" "alloc h n = Some (p, h')" "p \<noteq> 0"
  obtains s where "ok h'" "n \<le> s" "(p, s) \<notin> live h" "live h' = insert (p, s) (live h)"
  using alloc_cases [OF assms(1,2)] assms(3,4) by auto

lemma alloc_keeps_ok: "ok h \<Longrightarrow> n < limit \<Longrightarrow> alloc h n = Some (p, h') \<Longrightarrow> ok h'"
  using alloc_cases [of h n] by auto

lemma alloc_apart:
  assumes "ok h" "n < limit" "alloc h n = Some (p, h')" "p \<noteq> 0" "(q, t) \<in> live h"
  shows "p + n \<le> q \<or> q + t \<le> p"
proof -
  obtain s where s: "ok h'" "n \<le> s" "(p, s) \<notin> live h" "live h' = insert (p, s) (live h)"
    using assms(1-4) by (rule alloc_SomeE)
  then have "p + s \<le> q \<or> q + t \<le> p"
    using live_apart [OF s(1), of p s q t] assms(5) by auto
  then show ?thesis using s(2) by auto
qed

lemma alloc_release:
  assumes "ok h" "n < limit" "alloc h n = Some (p, h')" "p \<noteq> 0"
  shows "\<exists>h''. release h' p = Some h'' \<and> ok h'' \<and> live h'' = live h"
proof -
  obtain s where s: "ok h'" "n \<le> s" "(p, s) \<notin> live h" "live h' = insert (p, s) (live h)"
    using assms by (rule alloc_SomeE)
  then show ?thesis using release_live [OF s(1), of p s] by auto
qed

lemma live_fun:
  assumes "ok h" "(p, s) \<in> live h" "(p, t) \<in> live h"
  shows "s = t"
  using live_apart [OF assms(1,2,3)] live_pos [OF assms(1,2)] live_pos [OF assms(1,3)] by auto

end

definition heap_ok :: "heap_state \<Rightarrow> bool" where
  "heap_ok h \<longleftrightarrow> (\<exists>L. heap_rel h L)"

definition heap_live :: "heap_state \<Rightarrow> (nat \<times> nat) set" where
  "heap_live h = {x. \<exists>L. heap_rel h L \<and> x \<in> a_live L}"

lemma dseg_unique: "dseg m p a L 0 r \<Longrightarrow> dseg m p a L' 0 r' \<Longrightarrow> L = L'"
proof (induction L arbitrary: p a L')
  case Nil
  then show ?case by (cases L') auto
next
  case (Cons x L)
  then obtain y L'' where "L' = y # L''" by (cases L'; cases x) auto
  then show ?case using Cons by (cases x; cases y) auto
qed

lemma heap_rel_unique: "heap_rel h L \<Longrightarrow> heap_rel h L' \<Longrightarrow> L = L'"
  by (auto simp: heap_rel_def dest: dseg_unique)

lemma heap_live_eq: "heap_rel h L \<Longrightarrow> heap_live h = a_live L"
  by (auto simp: heap_live_def dest: heap_rel_unique)

lemma a_live_apart:
  assumes "tiles a L e" "(p, s) \<in> a_live L" "(q, t) \<in> a_live L" "(p, s) \<noteq> (q, t)"
  shows "p + s \<le> q \<or> q + t \<le> p"
  using assms
proof (induction a L e rule: tiles.induct)
  case (1 a e)
  then show ?case by simp
next
  case (2 a b u f bs e)
  have later: "b + sizeof_hb + u \<le> x" if "(x, y) \<in> a_live bs" for x y
    using that 2 tiles_after [of "a + sizeof_hb + u" bs e] by (fastforce simp: a_live_def)
  show ?case using 2 later by (fastforce split: if_splits)
qed

lemma a_live_other_blocks:
  assumes "tiles a (xs @ (b, s, f) # ys) e"
  shows "(b + sizeof_hb, t) \<notin> a_live xs \<union> a_live ys"
proof -
  have "tiles a xs b" "tiles (b + sizeof_hb + s) ys e" using assms by (auto simp: tiles_block)
  then have "(b, t, g) \<notin> set xs" "(b, t, g) \<notin> set ys" for g
    using tiles_before [of a xs b b t g] tiles_after [of "b + sizeof_hb + s" ys e b t g] by auto
  then show ?thesis by (auto simp: a_live_def)
qed

lemma align16_ge: "n < 2 ^ 64 \<Longrightarrow> align16 n \<noteq> 0 \<Longrightarrow> n \<le> align16 n"
proof -
  assume n: "n < 2 ^ 64" and nz: "align16 n \<noteq> 0"
  have "n + 15 < 2 ^ 64"
  proof (rule ccontr)
    assume "\<not> n + 15 < 2 ^ 64"
    then have "n + 15 - 2 ^ 64 < 15" and "szadd n 15 = n + 15 - 2 ^ 64"
      using n by (simp_all add: szadd_def mod_if)
    then have "szadd n 15 < 15" by (simp only:)
    then show False using nz by (simp add: align16_def)
  qed
  then show ?thesis by (simp add: align16_def szadd_exact)
qed

lemma align16_fits:
  assumes "n \<le> s" "s mod 16 = 0" "s < 2 ^ 63" "0 < n"
  shows "align16 n \<le> s" and "n \<le> align16 n" and "0 < align16 n"
proof -
  have e: "align16 n = (n + 15) div 16 * 16" using assms by (simp add: align16_def szadd_exact)
  obtain k where k: "s = 16 * k" using assms(2) by auto
  have "(n + 15) div 16 \<le> (16 * k + 15) div 16"
    using assms(1) k by (intro div_le_mono) simp
  then show "align16 n \<le> s" unfolding e k by simp
  show "n \<le> align16 n" unfolding e by presburger
  then show "0 < align16 n" using assms(4) by simp
qed

lemma kmalloc_cases:
  assumes rel: "heap_rel h L" and n: "n < 2 ^ 64"
  shows "kmalloc h n = Some (0, h) \<and> (align16 n = 0 \<or> (\<forall>(a, s, f) \<in> set L. f \<longrightarrow> s < align16 n)) \<or>
    (\<exists>b s p t h' L'. kmalloc h n = Some (p, h') \<and> heap_rel h' L' \<and> heap_data h' = heap_data h \<and>
       heap_base h' = heap_base h \<and>
       (b, s, True) \<in> set L \<and> p = b + sizeof_hb \<and> n \<le> t \<and> t \<le> s \<and> a_live L' = insert (p, t) (a_live L))"
proof (cases "a_kmalloc L n")
  case None
  then have "align16 n = 0 \<or> (\<forall>(a, s, f) \<in> set L. f \<longrightarrow> s < align16 n)"
    by (auto simp: a_kmalloc_def a_kmalloc_from_None split: if_splits)
  then show ?thesis using kmalloc_refines [OF rel, of n] None by auto
next
  case (Some r)
  obtain p L' where r: "r = (p, L')" by (cases r)
  have nz: "align16 n \<noteq> 0" and am: "a_kmalloc_from (align16 n) L = Some (p, L')"
    using Some r by (auto simp: a_kmalloc_def split: if_splits)
  obtain b s t where P: "(b, s, True) \<in> set L" "p = b + sizeof_hb" "align16 n \<le> t" "t \<le> s"
     "a_live L' = insert (p, t) (a_live L)"
    using a_kmalloc_from_props [OF am, of 0 0] by blast
  moreover have "n \<le> t" using align16_ge [OF n nz] P(3) by simp
  moreover obtain h' where "kmalloc h n = Some (p, h')" "heap_rel h' L'" "heap_data h' = heap_data h"
     "heap_base h' = heap_base h"
    using kmalloc_refines [OF rel, of n] Some r by auto
  ultimately show ?thesis by blast
qed

lemma free_block_not_live:
  assumes rel: "heap_rel h L" and mem: "(b, s, True) \<in> set L"
  shows "(b + sizeof_hb, t) \<notin> a_live L"
proof -
  obtain xs ys where L: "L = xs @ (b, s, True) # ys" using mem by (auto simp: in_set_conv_decomp)
  then have "tiles (heap_base h) (xs @ (b, s, True) # ys) (heap_base h + KERNEL_HEAP_SIZE)"
    using rel by (simp add: heap_rel_def)
  then show ?thesis using a_live_other_blocks L by simp
qed

interpretation kheap: allocator heap_ok heap_live kmalloc kfree "2 ^ 64"
proof
  fix h p s q t
  assume "heap_ok h" "(p, s) \<in> heap_live h" "(q, t) \<in> heap_live h" "(p, s) \<noteq> (q, t)"
  then obtain L where "heap_rel h L" "(p, s) \<in> a_live L" "(q, t) \<in> a_live L" "(p, s) \<noteq> (q, t)"
    by (metis heap_ok_def heap_live_eq)
  then show "p + s \<le> q \<or> q + t \<le> p"
    by (intro a_live_apart [of "heap_base h" L "heap_base h + KERNEL_HEAP_SIZE"]) (simp_all add: heap_rel_def)
next
  fix h p s
  assume "heap_ok h" "(p, s) \<in> heap_live h"
  then obtain L b where "heap_rel h L" "(b, s, False) \<in> set L"
    by (auto simp: heap_ok_def heap_live_eq a_live_def)
  then show "0 < s" by (auto simp: heap_rel_def)
next
  fix h n
  assume "heap_ok h" and n: "n < (2::nat) ^ 64"
  then obtain L where L: "heap_rel h L" by (auto simp: heap_ok_def)
  show "kmalloc h n = Some (0, h) \<or> (\<exists>p s h'. kmalloc h n = Some (p, h') \<and> p \<noteq> 0 \<and> heap_ok h' \<and>
      n \<le> s \<and> (p, s) \<notin> heap_live h \<and> heap_live h' = insert (p, s) (heap_live h))"
    using kmalloc_cases [OF L n] free_block_not_live [OF L] heap_live_eq [OF L]
    by (fastforce simp: heap_ok_def heap_live_eq)
next
  fix h p s
  assume "heap_ok h" "(p, s) \<in> heap_live h"
  then obtain L b where L: "heap_rel h L" and b: "p = b + sizeof_hb" "(b, s, False) \<in> set L"
    by (auto simp: heap_ok_def heap_live_eq a_live_def)
  obtain xs ys where X: "L = xs @ (b, s, False) # ys" using b by (auto simp: in_set_conv_decomp)
  have tl: "tiles (heap_base h) (xs @ (b, s, False) # ys) (heap_base h + KERNEL_HEAP_SIZE)"
    using L X by (simp add: heap_rel_def)
  obtain h' where h': "kfree h p = Some h'" "heap_rel h' (a_kfree L p)"
    using kfree_refines [OF L b(2)] b by auto
  have "(p, s) \<notin> a_live xs \<union> a_live ys" unfolding b(1) by (rule a_live_other_blocks [OF tl])
  then have "heap_live h' = heap_live h - {(p, s)}"
    using heap_live_eq [OF L] heap_live_eq [OF h'(2)] a_kfree_props(3) [OF tl] X b by auto
  then show "\<exists>h'. kfree h p = Some h' \<and> heap_ok h' \<and> heap_live h' = heap_live h - {(p, s)}"
    using h' by (auto simp: heap_ok_def)
qed

subsection \<open>Initialisation, clearing and resizing\<close>

definition heap_placed :: "heap_state \<Rightarrow> bool" where
  "heap_placed h \<longleftrightarrow> 0 < heap_base h \<and> heap_base h mod 16 = 0 \<and> heap_base h + KERNEL_HEAP_SIZE < 2 ^ 63"

lemma heap_init_rel:
  "heap_placed h \<Longrightarrow> heap_rel (heap_init h) [(heap_base h, KERNEL_HEAP_SIZE - sizeof_hb, True)]"
  by (auto simp: heap_placed_def heap_rel_def heap_init_def record_heap_usage_def KERNEL_HEAP_SIZE_def)

lemma heap_init_ok: "heap_placed h \<Longrightarrow> heap_ok (heap_init h)"
  using heap_init_rel heap_ok_def by blast

lemma heap_data_irrelevant [simp]:
  "heap_rel (h\<lparr>heap_data := d\<rparr>) L = heap_rel h L"
  "heap_ok (h\<lparr>heap_data := d\<rparr>) = heap_ok h"
  "heap_live (h\<lparr>heap_data := d\<rparr>) = heap_live h"
  by (auto simp: heap_rel_def heap_ok_def heap_live_def)

lemma kmalloc_data:
  assumes "heap_ok h" "n < 2 ^ 64" "kmalloc h n = Some (p, h')"
  shows "heap_data h' = heap_data h" and "heap_base h' = heap_base h"
  using assms kmalloc_cases [of h _ n] by (fastforce simp: heap_ok_def)+

lemma kfree_data:
  assumes "heap_ok h" "(p, s) \<in> heap_live h" "kfree h p = Some h'"
  shows "heap_data h' = heap_data h"
proof -
  obtain L b where L: "heap_rel h L" "p = b + sizeof_hb" "(b, s, False) \<in> set L"
    using assms(1,2) by (auto simp: heap_ok_def heap_live_eq a_live_def)
  then show ?thesis using kfree_refines [OF L(1,3)] assms(3) by auto
qed

lemma calloc_total:
  assumes "\<not> (count \<noteq> 0 \<and> sz > (2 ^ 64 - 1) div count)"
  shows "count * sz < 2 ^ 64" and "szmul count sz = count * sz"
proof -
  show *: "count * sz < 2 ^ 64"
  proof (cases "count = 0")
    case False
    then have "sz \<le> (2 ^ 64 - 1) div count" using assms by simp
    then have "count * sz \<le> count * ((2 ^ 64 - 1) div count)" by (rule mult_le_mono2)
    also have "\<dots> \<le> 2 ^ 64 - 1" by (rule times_div_less_eq_dividend)
    finally show ?thesis by simp
  qed simp
  show "szmul count sz = count * sz" by (rule szmul_exact [OF *])
qed

lemma krealloc_in_place:
  assumes rel: "heap_rel h (xs @ (b, s, False) # ys)" and n: "0 < n" "n \<le> s"
  shows "\<exists>t h'. krealloc h (b + sizeof_hb) old n = Some (b + sizeof_hb, h') \<and> n \<le> t \<and>
     heap_rel h' (xs @ a_split (align16 n) (b, s, False) @ ys) \<and> heap_data h' = heap_data h \<and>
     a_live (a_split (align16 n) (b, s, False)) = {(b + sizeof_hb, t)}"
proof -
  let ?E = "heap_base h + KERNEL_HEAP_SIZE"
  have s: "s mod 16 = 0" "b + sizeof_hb + s < 2 ^ 63"
    using heap_rel_sizes_ok [OF rel] heap_rel_block_bounds(3) [OF rel, of b s False] by auto
  then have al: "align16 n \<le> s" "n \<le> align16 n" "0 < align16 n"
    using n align16_fits [of n s] by simp_all
  have tl: "tiles (heap_base h) (xs @ (b, s, False) # ys) ?E" using rel by (simp add: heap_rel_def)
  obtain r where seg: "dseg (heap_mem h) 0 (heap_base h) (xs @ (b, s, False) # ys) 0 r"
    using rel by (auto simp: heap_rel_def)
  then obtain r' where seg': "dseg (split_block (heap_mem h) b (align16 n)) 0 (heap_base h)
      (xs @ a_split (align16 n) (b, s, False) @ ys) 0 r'"
    using split_block_dseg [OF seg tl al(1)] s(2) by auto
  have "tiles (heap_base h) (xs @ a_split (align16 n) (b, s, False) @ ys) ?E"
    using tl a_split_tiles [OF al(1), of b False ys ?E] by (auto simp: tiles_append)
  moreover have "sizes_ok (xs @ a_split (align16 n) (b, s, False) @ ys)"
    using heap_rel_sizes_ok [OF rel] al s by (simp add: a_split_sizes_ok)
  ultimately have "heap_rel (h\<lparr>heap_mem := split_block (heap_mem h) b (align16 n)\<rparr>)
      (xs @ a_split (align16 n) (b, s, False) @ ys)"
    using seg' by (intro heap_rel_intro [OF rel]) auto
  moreover have "krealloc h (b + sizeof_hb) old n =
      Some (b + sizeof_hb, h\<lparr>heap_mem := split_block (heap_mem h) b (align16 n)\<rparr>)"
    using seg n by (simp add: krealloc_def Let_def dseg_block)
  moreover obtain t where "align16 n \<le> t" "a_live (a_split (align16 n) (b, s, False)) = {(b + sizeof_hb, t)}"
    using a_split_live [OF al(1), of b] by auto
  ultimately show ?thesis using al(2) by auto
qed

text \<open>
  The copying branch of \<open>krealloc\<close>: the live block \<open>(p, s)\<close> is too small, so the payload is
  copied to a new block and the old one is released.
\<close>

lemma krealloc_moves:
  assumes ok: "heap_ok h" and live: "(p, s) \<in> heap_live h" and n: "s < n" "n < 2 ^ 64"
    and run: "kmalloc h n = Some (q, h1)" and q: "q \<noteq> 0"
  shows "\<exists>h' t. krealloc h p 0 n = Some (q, h') \<and> heap_ok h' \<and> n \<le> t \<and>
     heap_live h' = insert (q, t) (heap_live h - {(p, s)}) \<and>
     (\<forall>i < s. heap_data h' (q + i) = heap_data h (p + i))"
proof -
  obtain L b where L: "heap_rel h L" and b: "p = b + sizeof_hb" "(b, s, False) \<in> set L"
    using ok live by (auto simp: heap_ok_def heap_live_eq a_live_def)
  then have hb: "hb_magic (heap_mem h b) = HEAP_MAGIC" "hb_size (heap_mem h b) = s"
    by (auto simp: heap_rel_def in_set_conv_decomp dseg_block)
  obtain t where t: "heap_ok h1" "n \<le> t" "(q, t) \<notin> heap_live h" "heap_live h1 = insert (q, t) (heap_live h)"
    using kheap.alloc_SomeE [OF ok n(2) run q] by blast
  obtain L1 where L1: "heap_rel h1 L1" using t(1) by (auto simp: heap_ok_def)
  have "(p, s) \<in> a_live L1" using t(4) live heap_live_eq [OF L1] by auto
  then have hb1: "hb_magic (heap_mem h1 b) = HEAP_MAGIC" "hb_size (heap_mem h1 b) = s"
    using L1 b(1) by (auto simp: a_live_def heap_rel_def in_set_conv_decomp dseg_block)
  have apart: "q + n \<le> p \<or> p + s \<le> q" by (rule kheap.alloc_apart [OF ok n(2) run q live])
  let ?h2 = "h1\<lparr>heap_data := data_copy (heap_data h1) q p s\<rparr>"
  obtain h' where h': "kfree ?h2 p = Some h'" "heap_ok h'" "heap_live h' = heap_live ?h2 - {(p, s)}"
    using kheap.release_live [of ?h2 p s] t live by auto
  have "krealloc h p 0 n = Some (q, h')"
    using b(1) hb hb1 n run q h'(1) by (simp add: krealloc_def Let_def)
  moreover have "heap_data h' = data_copy (heap_data h) q p s"
    using kfree_data [of ?h2 p s h'] h' t live kmalloc_data(1) [OF ok n(2) run] by simp
  moreover have "heap_live h' = insert (q, t) (heap_live h - {(p, s)})"
    using h'(3) t live by auto
  ultimately show ?thesis using h'(2) t(2) apart by (auto simp: data_copy_def)
qed

subsection \<open>Reachable heaps\<close>

text \<open>
  The heaps the kernel can get to: after \<open>heap_init\<close> on an array the linker has placed, any
  sequence of calls in which \<open>kfree\<close> and \<open>krealloc\<close> receive a pointer that is live, or one
  the code ignores.
\<close>

inductive heap_reachable :: "heap_state \<Rightarrow> bool" where
  boot: "heap_placed h \<Longrightarrow> heap_reachable (heap_init h)"
| malloc: "heap_reachable h \<Longrightarrow> n < 2 ^ 64 \<Longrightarrow> kmalloc h n = Some (p, h') \<Longrightarrow> heap_reachable h'"
| calloc: "heap_reachable h \<Longrightarrow> kcalloc h c n = Some (p, h') \<Longrightarrow> heap_reachable h'"
| free: "heap_reachable h \<Longrightarrow> p = 0 \<or> p < heap_base h \<or> heap_base h + KERNEL_HEAP_SIZE \<le> p \<or>
     (\<exists>s. (p, s) \<in> heap_live h) \<Longrightarrow> kfree h p = Some h' \<Longrightarrow> heap_reachable h'"
| realloc: "heap_reachable h \<Longrightarrow> p = 0 \<or> (\<exists>s. (p, s) \<in> heap_live h) \<Longrightarrow>
     n < 2 ^ 64 \<Longrightarrow> krealloc h p old n = Some (q, h') \<Longrightarrow> heap_reachable h'"
| store: "heap_reachable h \<Longrightarrow> heap_reachable (h\<lparr>heap_data := d\<rparr>)"

lemma kcalloc_ok:
  assumes "heap_ok h" "kcalloc h c n = Some (p, h')"
  shows "heap_ok h'"
  using assms calloc_total [of c n] kheap.alloc_keeps_ok [of h "c * n"]
  by (auto simp: kcalloc_def Let_def split: if_splits option.splits)

lemma kfree_ok:
  assumes ok: "heap_ok h" and p: "p = 0 \<or> p < heap_base h \<or> heap_base h + KERNEL_HEAP_SIZE \<le> p \<or>
     (\<exists>s. (p, s) \<in> heap_live h)" and run: "kfree h p = Some h'"
  shows "heap_ok h'"
proof (cases "\<exists>s. (p, s) \<in> heap_live h")
  case True
  then show ?thesis using kheap.release_live [OF ok] run by fastforce
next
  case False
  then have "h' = h" using p run by (auto simp: kfree_def split: if_splits)
  then show ?thesis using ok by simp
qed

lemma krealloc_ok:
  assumes ok: "heap_ok h" and p: "p = 0 \<or> (\<exists>s. (p, s) \<in> heap_live h)" and n: "n < 2 ^ 64"
    and run: "krealloc h p old n = Some (q, h')"
  shows "heap_ok h'"
proof (cases "p = 0 \<or> n = 0")
  case True
  then show ?thesis
    using run kheap.alloc_keeps_ok [OF ok n] kfree_ok [OF ok, of p h'] p
    by (auto simp: krealloc_def split: if_splits)
next
  case False
  then obtain s where live: "(p, s) \<in> heap_live h" using p by auto
  obtain L b where L: "heap_rel h L" and b: "p = b + sizeof_hb" "(b, s, False) \<in> set L"
    using ok live by (auto simp: heap_ok_def heap_live_eq a_live_def)
  obtain xs ys where X: "L = xs @ (b, s, False) # ys" using b by (auto simp: in_set_conv_decomp)
  show ?thesis
  proof (cases "n \<le> s")
    case True
    then show ?thesis
      using krealloc_in_place [of h xs b s ys n old] L X False b run by (auto simp: heap_ok_def)
  next
    case F2: False
    have "hb_size (heap_mem h b) = s" using L X by (auto simp: heap_rel_def dseg_block)
    then obtain q1 h1 where K: "kmalloc h n = Some (q1, h1)"
      and C: "q1 = 0 \<and> h' = h1 \<or> q1 \<noteq> 0 \<and> ((\<exists>d. kfree (h1\<lparr>heap_data := d\<rparr>) p = Some h') \<or> kfree h1 p = Some h')"
      using run F2 False b
      by (auto simp: krealloc_def Let_def split: option.splits if_splits; blast)
    have ok1: "heap_ok h1" by (rule kheap.alloc_keeps_ok [OF ok n K])
    have "q1 \<noteq> 0 \<Longrightarrow> (p, s) \<in> heap_live h1" using kheap.alloc_SomeE [OF ok n K] live by auto
    then show ?thesis using C ok1 kfree_ok [of h1 p h'] kfree_ok [of "h1\<lparr>heap_data := d\<rparr>" p h' for d]
      by auto
  qed
qed

lemma heap_reachable_ok: "heap_reachable h \<Longrightarrow> heap_ok h"
proof (induction rule: heap_reachable.induct)
  case (boot h)
  then show ?case by (rule heap_init_ok)
next
  case (malloc h n p h')
  then show ?case using kheap.alloc_keeps_ok by blast
next
  case (calloc h c n p h')
  then show ?case using kcalloc_ok by blast
next
  case (free h p h')
  then show ?case using kfree_ok by blast
next
  case (realloc h p old n q h')
  then show ?case using krealloc_ok by blast
next
  case (store h d)
  then show ?case by simp
qed

subsection \<open>Properties\<close>

text \<open>
  C1: every heap the kernel can reach is well formed.  From \<open>heap_head\<close> the headers are
  doubly linked in address order, they tile the 16 MiB array exactly, and every size is a
  positive multiple of 16.
\<close>

theorem heap_invariant:
  assumes "heap_reachable h"
  shows "\<exists>L r. heap_head h = heap_base h \<and> dseg (heap_mem h) 0 (heap_head h) L 0 r \<and>
     tiles (heap_base h) L (heap_base h + KERNEL_HEAP_SIZE) \<and>
     (\<forall>(a, s, f) \<in> set L. s mod 16 = 0 \<and> 0 < s)"
  using heap_reachable_ok [OF assms] by (auto simp: heap_ok_def heap_rel_def)

definition heap_at_1M :: heap_state where
  "heap_at_1M = \<lparr>heap_base = 0x100000, heap_head = 0,
     heap_mem = (\<lambda>_. \<lparr>hb_size = 0, hb_free = False, hb_magic = 0, hb_next = 0, hb_prev = 0\<rparr>),
     heap_data = (\<lambda>_. 0), heap_used_highwater = 0, stats_heap_used = 0, stats_heap_size = 0\<rparr>"

lemma heap_at_1M_placed: "heap_placed heap_at_1M"
  by (simp add: heap_placed_def heap_at_1M_def KERNEL_HEAP_SIZE_def)

theorem heap_invariant_witness:
  "heap_reachable (heap_init heap_at_1M) \<and>
   (\<exists>L r. heap_head (heap_init heap_at_1M) = heap_base (heap_init heap_at_1M) \<and>
     dseg (heap_mem (heap_init heap_at_1M)) 0 (heap_head (heap_init heap_at_1M)) L 0 r \<and>
     tiles (heap_base (heap_init heap_at_1M)) L (heap_base (heap_init heap_at_1M) + KERNEL_HEAP_SIZE) \<and>
     (\<forall>(a, s, f) \<in> set L. s mod 16 = 0 \<and> 0 < s))"
  using heap_invariant [OF heap_reachable.boot [OF heap_at_1M_placed]]
    heap_reachable.boot [OF heap_at_1M_placed] by blast

text \<open>
  C2: in a well-formed heap \<open>kmalloc\<close> always returns.  It returns \<open>NULL\<close> and changes nothing
  only when the rounded size is zero or no free block is large enough; otherwise the pointer
  is 16-byte aligned, lies inside the array, leads a block of at least the requested size
  that overlaps no live block, the live blocks are kept and their bytes are untouched.
\<close>

theorem kmalloc_correct:
  assumes "heap_ok h" and "n < 2 ^ 64"
  shows "(kmalloc h n = Some (0, h) \<and>
       (align16 n = 0 \<or> (\<exists>L. heap_rel h L \<and> (\<forall>(a, s, f) \<in> set L. f \<longrightarrow> s < align16 n)))) \<or>
     (\<exists>p t h'. kmalloc h n = Some (p, h') \<and> heap_ok h' \<and> p mod 16 = 0 \<and> n \<le> t \<and>
       heap_base h < p \<and> p + t \<le> heap_base h + KERNEL_HEAP_SIZE \<and>
       heap_live h' = insert (p, t) (heap_live h) \<and>
       (\<forall>(q, u) \<in> heap_live h. p + t \<le> q \<or> q + u \<le> p) \<and> heap_data h' = heap_data h)"
proof -
  obtain L where L: "heap_rel h L" using assms(1) by (auto simp: heap_ok_def)
  show ?thesis
  proof (cases "kmalloc h n = Some (0, h) \<and> (align16 n = 0 \<or> (\<forall>(a, s, f) \<in> set L. f \<longrightarrow> s < align16 n))")
    case True
    then show ?thesis using L by blast
  next
    case False
    then obtain b s p t h' L' where K: "kmalloc h n = Some (p, h')" "heap_rel h' L'"
       "heap_data h' = heap_data h" "heap_base h' = heap_base h" "(b, s, True) \<in> set L"
       "p = b + sizeof_hb" "n \<le> t" "t \<le> s" "a_live L' = insert (p, t) (a_live L)"
      using kmalloc_cases [OF L assms(2)] by blast
    have bnd: "heap_base h \<le> b" "b + sizeof_hb + s \<le> heap_base h + KERNEL_HEAP_SIZE"
      using heap_rel_block_bounds [OF L K(5)] by auto
    have live: "heap_live h' = insert (p, t) (heap_live h)"
      using K heap_live_eq [OF L] heap_live_eq [OF K(2)] by simp
    moreover have "(p, t) \<notin> heap_live h"
      using free_block_not_live [OF L K(5)] heap_live_eq [OF L] K(6) by simp
    ultimately have "p + t \<le> q \<or> q + u \<le> p" if "(q, u) \<in> heap_live h" for q u
      using kheap.live_apart [of h' p t q u] K(2) that by (auto simp: heap_ok_def)
    moreover have "p mod 16 = 0" using heap_rel_aligned [OF L K(5)] K(6) by presburger
    ultimately show ?thesis using K bnd live by (intro disjI2 exI [of _ p] exI [of _ t] exI [of _ h'])
      (auto simp: heap_ok_def)
  qed
qed

theorem kmalloc_correct_witness:
  "\<exists>p t h'. kmalloc (heap_init heap_at_1M) 100 = Some (p, h') \<and> 100 \<le> t \<and> p = 0x100020 \<and>
     heap_live h' = {(p, t)}"
proof -
  let ?h = "heap_init heap_at_1M"
  have rel: "heap_rel ?h [(0x100000, KERNEL_HEAP_SIZE - sizeof_hb, True)]"
    using heap_init_rel [OF heap_at_1M_placed] by (simp add: heap_at_1M_def)
  have K: "\<exists>h'. kmalloc ?h 100 = Some (0x100020, h')"
    using kmalloc_refines [OF rel, of 100]
    by (auto simp: a_kmalloc_def align16_def szadd_def KERNEL_HEAP_SIZE_def)
  have "heap_live ?h = {}" using heap_live_eq [OF rel] by simp
  then show ?thesis
    using kmalloc_correct [OF heap_init_ok [OF heap_at_1M_placed], of 100] K by fastforce
qed

text \<open>
  Releasing a live block always returns, keeps the heap well formed, and removes exactly
  that block from the live ones; releasing what \<open>kmalloc\<close> just returned gives back the live
  blocks of before.
\<close>

lemma kfree_correct:
  assumes "heap_ok h"
  shows "(\<forall>p s. (p, s) \<in> heap_live h \<longrightarrow>
        (\<exists>h'. kfree h p = Some h' \<and> heap_ok h' \<and> heap_live h' = heap_live h - {(p, s)})) \<and>
     (\<forall>n p h'. n < 2 ^ 64 \<longrightarrow> kmalloc h n = Some (p, h') \<longrightarrow> p \<noteq> 0 \<longrightarrow>
        (\<exists>h''. kfree h' p = Some h'' \<and> heap_ok h'' \<and> heap_live h'' = heap_live h))"
  using kheap.release_live [OF assms] kheap.alloc_release [OF assms] by blast

text \<open>
  C3: the linked headers implement the abstract block list.  Every \<open>kmalloc\<close> and every
  \<open>kfree\<close> of a block of the list, run on the headers, returns what first-fit allocation and
  coalescing on the list return, and leaves headers that represent the resulting list.
\<close>

theorem heap_refines_list:
  assumes "heap_rel h L"
  shows "(case a_kmalloc L n of
       None \<Rightarrow> kmalloc h n = Some (0, h)
     | Some (p, L') \<Rightarrow> \<exists>h'. kmalloc h n = Some (p, h') \<and> heap_rel h' L') \<and>
     (\<forall>b s f. (b, s, f) \<in> set L \<longrightarrow>
        (\<exists>h'. kfree h (b + sizeof_hb) = Some h' \<and> heap_rel h' (a_kfree L (b + sizeof_hb))))"
proof
  show "case a_kmalloc L n of
       None \<Rightarrow> kmalloc h n = Some (0, h)
     | Some (p, L') \<Rightarrow> \<exists>h'. kmalloc h n = Some (p, h') \<and> heap_rel h' L'"
    using kmalloc_refines [OF assms, of n] by (auto split: option.splits)
  show "\<forall>b s f. (b, s, f) \<in> set L \<longrightarrow>
        (\<exists>h'. kfree h (b + sizeof_hb) = Some h' \<and> heap_rel h' (a_kfree L (b + sizeof_hb)))"
    using kfree_refines [OF assms] by blast
qed

theorem heap_refines_list_witness:
  "heap_rel (heap_init heap_at_1M) [(0x100000, KERNEL_HEAP_SIZE - sizeof_hb, True)] \<and>
   (\<exists>h'. kmalloc (heap_init heap_at_1M) 1 = Some (0x100020, h') \<and>
      heap_rel h' [(0x100000, 16, False), (0x100030, KERNEL_HEAP_SIZE - 80, True)])"
proof -
  have rel: "heap_rel (heap_init heap_at_1M) [(0x100000, KERNEL_HEAP_SIZE - sizeof_hb, True)]"
    using heap_init_rel [OF heap_at_1M_placed] by (simp add: heap_at_1M_def)
  have "a_kmalloc [(0x100000, KERNEL_HEAP_SIZE - sizeof_hb, True)] 1 =
      Some (0x100020, [(0x100000, 16, False), (0x100030, KERNEL_HEAP_SIZE - 80, True)])"
    by (simp add: a_kmalloc_def align16_def szadd_def KERNEL_HEAP_SIZE_def a_split_def)
  then show ?thesis using heap_refines_list [OF rel, of 1] rel by auto
qed

text \<open>
  \<open>kcalloc\<close> never returns a block smaller than the product of its arguments: when the
  product does not fit in a \<open>size_t\<close> it returns \<open>NULL\<close> and changes nothing, and a block it
  does return is live, holds at least \<open>count * size\<close> bytes, and all of these are zero.
\<close>

lemma kcalloc_correct:
  assumes "heap_ok h" and "sz < 2 ^ 64"
  shows "(count * sz \<ge> 2 ^ 64 \<longrightarrow> kcalloc h count sz = Some (0, h)) \<and>
     (\<forall>p h'. kcalloc h count sz = Some (p, h') \<longrightarrow> p \<noteq> 0 \<longrightarrow>
        heap_ok h' \<and> (\<exists>t \<ge> count * sz. heap_live h' = insert (p, t) (heap_live h)) \<and>
        (\<forall>i < count * sz. heap_data h' (p + i) = 0))"
proof (cases "count \<noteq> 0 \<and> sz > (2 ^ 64 - 1) div count")
  case True
  then show ?thesis by (simp add: kcalloc_def)
next
  case False
  note tot = calloc_total [OF False]
  have eq: "kcalloc h count sz = (case kmalloc h (count * sz) of None \<Rightarrow> None
      | Some (ptr, h') \<Rightarrow> Some (ptr, if ptr \<noteq> 0
          then h'\<lparr>heap_data := data_fill (heap_data h') ptr 0 (count * sz)\<rparr> else h'))"
    unfolding kcalloc_def Let_def tot(2) by (rule if_not_P [OF False])
  have "heap_ok h' \<and> (\<exists>t \<ge> count * sz. heap_live h' = insert (p, t) (heap_live h)) \<and>
        (\<forall>i < count * sz. heap_data h' (p + i) = 0)"
    if run: "kcalloc h count sz = Some (p, h')" and p: "p \<noteq> 0" for p h'
  proof -
    obtain h1 where K: "kmalloc h (count * sz) = Some (p, h1)"
      and h': "h' = h1\<lparr>heap_data := data_fill (heap_data h1) p 0 (count * sz)\<rparr>"
      using run p eq by (auto split: option.splits prod.splits if_splits)
    obtain t where "heap_ok h1" "count * sz \<le> t" "heap_live h1 = insert (p, t) (heap_live h)"
      using kheap.alloc_SomeE [OF assms(1) tot(1) K p] by blast
    then show ?thesis using h' by (auto simp: data_fill_def)
  qed
  then show ?thesis using tot(1) by auto
qed

text \<open>
  Growing a live block with \<open>krealloc\<close> (the old size left to the header, argument 0)
  keeps the data.  When the block is already large enough the pointer stays and no byte
  changes; otherwise, if an allocation succeeds, the new block replaces the old one among the
  live blocks and starts with a copy of the old block's bytes.
\<close>

lemma krealloc_correct:
  assumes ok: "heap_ok h" and live: "(p, s) \<in> heap_live h" and n: "0 < n" "n < 2 ^ 64"
  shows "(n \<le> s \<longrightarrow> (\<exists>t h'. krealloc h p 0 n = Some (p, h') \<and> heap_ok h' \<and> n \<le> t \<and>
            heap_live h' = insert (p, t) (heap_live h - {(p, s)}) \<and> heap_data h' = heap_data h)) \<and>
     (s < n \<longrightarrow> (\<forall>q h1. kmalloc h n = Some (q, h1) \<longrightarrow> q \<noteq> 0 \<longrightarrow>
        (\<exists>h' t. krealloc h p 0 n = Some (q, h') \<and> heap_ok h' \<and> n \<le> t \<and>
           heap_live h' = insert (q, t) (heap_live h - {(p, s)}) \<and>
           (\<forall>i < s. heap_data h' (q + i) = heap_data h (p + i)))))"
proof (intro conjI impI allI)
  assume "n \<le> s"
  obtain L b where L: "heap_rel h L" and b: "p = b + sizeof_hb" "(b, s, False) \<in> set L"
    using ok live by (auto simp: heap_ok_def heap_live_eq a_live_def)
  obtain xs ys where X: "L = xs @ (b, s, False) # ys" using b by (auto simp: in_set_conv_decomp)
  obtain t h' where R: "krealloc h p 0 n = Some (p, h')" "n \<le> t"
     "heap_rel h' (xs @ a_split (align16 n) (b, s, False) @ ys)" "heap_data h' = heap_data h"
     "a_live (a_split (align16 n) (b, s, False)) = {(p, t)}"
    using krealloc_in_place [of h xs b s ys n 0] L X n \<open>n \<le> s\<close> b by auto
  have "tiles (heap_base h) (xs @ (b, s, False) # ys) (heap_base h + KERNEL_HEAP_SIZE)"
    using L X by (simp add: heap_rel_def)
  then have "(p, s) \<notin> a_live xs \<union> a_live ys" unfolding b(1) by (rule a_live_other_blocks)
  then have "heap_live h' = insert (p, t) (heap_live h - {(p, s)})"
    using heap_live_eq [OF L] heap_live_eq [OF R(3)] R(5) X b by auto
  then show "\<exists>t h'. krealloc h p 0 n = Some (p, h') \<and> heap_ok h' \<and> n \<le> t \<and>
      heap_live h' = insert (p, t) (heap_live h - {(p, s)}) \<and> heap_data h' = heap_data h"
    using R by (auto simp: heap_ok_def)
next
  fix q h1
  assume "s < n" "kmalloc h n = Some (q, h1)" "q \<noteq> 0"
  then show "\<exists>h' t. krealloc h p 0 n = Some (q, h') \<and> heap_ok h' \<and> n \<le> t \<and>
      heap_live h' = insert (q, t) (heap_live h - {(p, s)}) \<and>
      (\<forall>i < s. heap_data h' (q + i) = heap_data h (p + i))"
    using krealloc_moves [OF ok live _ n(2)] by blast
qed

end
