(* ===== verification/Block.thy ===== *)
theory Block
  imports Prelude
begin

text \<open>
  The block layer of \<open>kernel/drivers/block/ata.c\<close>: \<open>block_device_find\<close>, \<open>block_read\<close>,
  \<open>block_write_lba28\<close> and \<open>block_sync\<close> over the table of legacy ATA disks.

  A device is the driver's record together with the hardware behind its ports: the words of
  each sector, the sectors for which a command ends with ERR or DF or never raises DRQ
  (\<open>dev_fault\<close>), and a device that never leaves BSY (\<open>dev_stuck\<close>).  The port writes that load
  the task file are the choice of the sector; the data port moves 256 words of 16 bits, which
  the driver packs and unpacks.  The AHCI and NVMe tables are empty, so that a name that is no
  ATA disk is not found and its transfers fail.
\<close>

record ata_device =
  dev_name :: "u8 list"
  dev_present :: bool
  dev_words :: "u32 \<Rightarrow> u16 list"
  dev_fault :: "u32 \<Rightarrow> bool"
  dev_stuck :: bool

definition ata_select :: "ata_device \<Rightarrow> bool" where
  "ata_select dev \<longleftrightarrow> \<not> dev_stuck dev"

definition ata_flush :: "ata_device \<Rightarrow> bool" where
  "ata_flush dev \<longleftrightarrow> ata_select dev"

text \<open>The 256 words the driver sends to the data port, and the bytes it makes of them.\<close>

definition ata_out_words :: "u8 list \<Rightarrow> u16 list" where
  "ata_out_words src = map (\<lambda>i. ucast (src ! (i * 2)) OR push_bit 8 (ucast (src ! (i * 2 + 1)))) [0..<256]"

definition ata_in_bytes :: "u16 list \<Rightarrow> u8 list" where
  "ata_in_bytes ws = concat (map (\<lambda>w. [ucast (w AND 0xff), ucast (drop_bit 8 w)]) ws)"

definition ata_write_one_sector :: "ata_device \<Rightarrow> u32 \<Rightarrow> u8 list \<Rightarrow> ata_device option" where
  "ata_write_one_sector dev lba src =
     (if \<not> dev_present dev \<or> lba \<ge> 0x10000000 then None
      else let src = (if length src < 512 then src @ replicate (512 - length src) 0 else src) in
        if \<not> ata_select dev then None
        else if dev_fault dev lba then None
        else Some (dev\<lparr>dev_words := (dev_words dev)(lba := ata_out_words src)\<rparr>))"

definition ata_read_one_sector :: "ata_device \<Rightarrow> u32 \<Rightarrow> u8 list option" where
  "ata_read_one_sector dev lba =
     (if \<not> dev_present dev \<or> lba \<ge> 0x10000000 then None
      else if \<not> ata_select dev then None
      else if dev_fault dev lba then None
      else Some (ata_in_bytes (dev_words dev lba)))"

subsection \<open>The device table\<close>

definition dev_prefix :: "u8 list" where
  "dev_prefix = bytes_of ''/dev/''"

fun ata_find :: "ata_device list \<Rightarrow> u8 list \<Rightarrow> nat \<Rightarrow> nat option" where
  "ata_find [] name i = None"
| "ata_find (d # ds) name i = (if dev_name d = name then Some i else ata_find ds name (i + 1))"

definition ata_by_name :: "ata_device list \<Rightarrow> u8 list \<Rightarrow> nat option" where
  "ata_by_name devs name =
     ata_find devs (if take 5 name = dev_prefix then drop 5 name else name) 0"

definition block_device_find :: "ata_device list \<Rightarrow> u8 list \<Rightarrow> bool" where
  "block_device_find devs name \<longleftrightarrow> ata_by_name devs name \<noteq> None"

function block_write_loop :: "ata_device \<Rightarrow> u32 \<Rightarrow> u8 list \<Rightarrow> ata_device \<times> bool" where
  "block_write_loop dev lba bs =
     (if bs = [] then (dev, True)
      else case ata_write_one_sector dev lba (take 512 bs) of
             None \<Rightarrow> (dev, False)
           | Some dev' \<Rightarrow> block_write_loop dev' (lba + 1) (drop 512 bs))"
  by auto
termination
  by (relation "measure (\<lambda>(d, l, b). length b)") auto

declare block_write_loop.simps [simp del]

definition block_write_lba28 :: "ata_device list \<Rightarrow> u8 list \<Rightarrow> u32 \<Rightarrow> u8 list \<Rightarrow> ata_device list \<times> bool" where
  "block_write_lba28 devs name lba bs =
     (case ata_by_name devs name of
        None \<Rightarrow> (devs, False)
      | Some i \<Rightarrow>
          (case block_write_loop (devs ! i) lba bs of
             (dev', ok) \<Rightarrow> (devs[i := dev'], ok \<and> ata_flush dev')))"

function block_read_loop :: "ata_device \<Rightarrow> u64 \<Rightarrow> nat \<Rightarrow> u8 list \<Rightarrow> u8 list option" where
  "block_read_loop dev lba n acc =
     (if n = 0 then Some acc
      else case ata_read_one_sector dev (ucast lba) of
             None \<Rightarrow> None
           | Some s \<Rightarrow> block_read_loop dev (lba + 1) (n - min n 512) (acc @ take (min n 512) s))"
  by auto
termination
  by (relation "measure (\<lambda>(d, l, n, a). n)") auto

declare block_read_loop.simps [simp del]

definition block_read :: "ata_device list \<Rightarrow> u8 list \<Rightarrow> u64 \<Rightarrow> nat \<Rightarrow> u8 list option" where
  "block_read devs name lba n =
     (case ata_by_name devs name of
        None \<Rightarrow> None
      | Some i \<Rightarrow> if lba \<ge> 0x10000000 then None else block_read_loop (devs ! i) lba n [])"

definition block_sync :: "ata_device list \<Rightarrow> u8 list \<Rightarrow> bool" where
  "block_sync devs name \<longleftrightarrow>
     (case ata_by_name devs name of None \<Rightarrow> False | Some i \<Rightarrow> ata_flush (devs ! i))"

subsection \<open>Words and bytes of a sector\<close>

lemma word_bytes:
  fixes a b :: u8
  shows "ucast (((ucast a :: u16) OR push_bit 8 (ucast b)) AND 0xff) = a"
    and "ucast (drop_bit 8 ((ucast a :: u16) OR push_bit 8 (ucast b))) = b"
proof -
  have ff: "(0xff :: u16) = mask 8" by (simp add: mask_eq_exp_minus_1)
  show "ucast (((ucast a :: u16) OR push_bit 8 (ucast b)) AND 0xff) = a"
    unfolding ff by (rule bit_word_eqI) (auto simp: bit_simps)
  show "ucast (drop_bit 8 ((ucast a :: u16) OR push_bit 8 (ucast b))) = b"
    by (rule bit_word_eqI) (auto simp: bit_simps dest: bit_imp_le_length)
qed

lemma concat_pairs: "2 * n \<le> length s \<Longrightarrow> concat (map (\<lambda>i. [s ! (i * 2), s ! (i * 2 + 1)]) [0..<n]) = take (2 * n) s"
proof (induction n)
  case (Suc n)
  have "take (2 * Suc n) s = take (2 * n) s @ [s ! (2 * n), s ! (2 * n + 1)]"
    using Suc.prems by (simp add: take_Suc_conv_app_nth)
  then show ?case using Suc by (simp add: mult.commute)
qed simp

lemma sector_roundtrip: "length s = 512 \<Longrightarrow> ata_in_bytes (ata_out_words s) = s"
proof -
  assume l: "length s = 512"
  have "ata_in_bytes (ata_out_words s) = concat (map (\<lambda>i. [s ! (i * 2), s ! (i * 2 + 1)]) [0..<256])"
    by (simp only: ata_in_bytes_def ata_out_words_def map_map comp_def word_bytes)
  also have "\<dots> = s" using concat_pairs [of 256 s] l by simp
  finally show ?thesis .
qed

subsection \<open>Reading back what was written\<close>

lemma unat_ucast_u32: "unat (ucast (l :: u32) :: u64) = unat l"
proof -
  have "unat l < 2 ^ 64" using unsigned_less [where ?'a = nat, of l] by simp
  then show ?thesis by (simp only: unsigned_ucast_eq) (simp add: take_bit_nat_eq_self)
qed

lemma lba_next: "(lba :: u32) < 0x10000000 \<Longrightarrow> unat (lba + 1) = unat lba + 1"
proof -
  assume "lba < 0x10000000"
  then have "unat lba + 1 < 2 ^ 32" by (simp add: word_less_nat_alt)
  then show ?thesis by (simp add: unat_word_ariths)
qed

lemma ata_write_one_sectorD:
  assumes "ata_write_one_sector dev lba src = Some dev'"
  shows "lba < 0x10000000" and "dev_name dev' = dev_name dev"
    and "dev_words dev' = (dev_words dev)(lba := ata_out_words (src @ replicate (512 - length src) 0))"
    and "dev_present dev" "dev_present dev'" "\<not> dev_fault dev lba" "dev_fault dev' = dev_fault dev"
    and "\<not> dev_stuck dev" "\<not> dev_stuck dev'"
  using assms by (auto simp: ata_write_one_sector_def ata_select_def Let_def not_le split: if_splits)

lemma block_write_loop_frame:
  "block_write_loop dev lba bs = (dev', ok) \<Longrightarrow>
     (\<forall>l. unat l < unat lba \<or> unat l \<ge> unat lba + (length bs + 511) div 512 \<longrightarrow> dev_words dev' l = dev_words dev l)
     \<and> dev_name dev' = dev_name dev \<and> dev_present dev' = dev_present dev
     \<and> dev_fault dev' = dev_fault dev \<and> dev_stuck dev' = dev_stuck dev"
proof (induction dev lba bs rule: block_write_loop.induct)
  case (1 dev lba bs)
  show ?case
  proof (cases "bs = [] \<or> ata_write_one_sector dev lba (take 512 bs) = None")
    case True
    then have "dev' = dev" using 1(2) by (auto simp: block_write_loop.simps [of dev lba] split: if_splits)
    then show ?thesis by simp
  next
    case False
    then obtain d where d: "ata_write_one_sector dev lba (take 512 bs) = Some d" and ne: "bs \<noteq> []" by auto
    have rest: "block_write_loop d (lba + 1) (drop 512 bs) = (dev', ok)"
      using 1(2) d ne by (simp add: block_write_loop.simps [of dev lba bs])
    note D = ata_write_one_sectorD [OF d]
    have n: "(length bs + 511) div 512 = Suc ((length (drop 512 bs) + 511) div 512)"
    proof (cases "length bs \<le> 512")
      case True
      have "(length bs + 511) div 512 = 1" by (rule div_nat_eqI) (use True ne in \<open>cases bs; simp\<close>)+
      then show ?thesis using True by simp
    next
      case False
      then have "length bs + 511 = (length bs - 512 + 511) + 512" by simp
      then show ?thesis by (simp add: div_add_self2)
    qed
    show ?thesis using 1(1) [OF ne d rest] D n lba_next [OF D(1)] by (auto simp: fun_upd_def)
  qed
qed

lemma block_write_loop_read:
  "block_write_loop dev lba bs = (dev', True) \<Longrightarrow>
     block_read_loop dev' (ucast lba) (length bs) acc = Some (acc @ bs)"
proof (induction dev lba bs arbitrary: acc rule: block_write_loop.induct)
  case (1 dev lba bs)
  show ?case
  proof (cases "bs = []")
    case True
    then show ?thesis by (simp add: block_read_loop.simps)
  next
    case ne: False
    obtain d where d: "ata_write_one_sector dev lba (take 512 bs) = Some d"
      and rest: "block_write_loop d (lba + 1) (drop 512 bs) = (dev', True)"
      using 1(2) ne by (auto simp: block_write_loop.simps [of dev lba bs] split: option.splits)
    note D = ata_write_one_sectorD [OF d]
    note F = block_write_loop_frame [OF rest]
    let ?src = "take 512 bs @ replicate (512 - length (take 512 bs)) 0"
    have w: "dev_words dev' lba = ata_out_words ?src"
      using F D(3) lba_next [OF D(1)] by simp
    have u: "ucast (ucast lba :: u64) = lba" by (rule bit_word_eqI) (auto simp: bit_simps)
    have r: "ata_read_one_sector dev' lba = Some ?src"
      using F D w sector_roundtrip [of ?src] by (simp add: ata_read_one_sector_def ata_select_def not_le [symmetric])
    have nx: "(ucast lba :: u64) + 1 = ucast (lba + 1)"
    proof (rule iffD2 [OF word_unat_eq_iff])
      have "unat (ucast lba + 1 :: u64) = (unat lba + 1) mod 2 ^ 64"
        by (simp add: unat_word_ariths unat_ucast_u32)
      also have "\<dots> = unat lba + 1" using unsigned_less [where ?'a = nat, of lba] by (intro mod_less) simp
      also have "\<dots> = unat (ucast (lba + 1) :: u64)"
        using lba_next [OF D(1)] by (simp only: unat_ucast_u32)
      finally show "unat (ucast lba + 1 :: u64) = unat (ucast (lba + 1) :: u64)" .
    qed
    have mn: "length bs - min (length bs) 512 = length (drop 512 bs)" by (simp add: min_def)
    have tk: "take (min (length bs) 512) ?src = take 512 bs" by (cases "length bs \<le> 512") (simp_all add: min_def)
    have "block_read_loop dev' (ucast lba) (length bs) acc =
        block_read_loop dev' (ucast (lba + 1)) (length (drop 512 bs)) (acc @ take 512 bs)"
      using ne r mn by (simp only: block_read_loop.simps [of dev' "ucast lba" "length bs"] u option.case nx tk) simp
    also have "\<dots> = Some (acc @ bs)" using 1(1) [OF ne d rest] by (simp only: append_assoc append_take_drop_id)
    finally show ?thesis .
  qed
qed

lemma ata_find_bound: "ata_find devs name k = Some i \<Longrightarrow> k \<le> i \<and> i < k + length devs"
  by (induction devs name k rule: ata_find.induct) (auto split: if_splits)

lemma ata_by_name_bound: "ata_by_name devs name = Some i \<Longrightarrow> i < length devs"
  using ata_find_bound [of devs _ 0 i] by (auto simp: ata_by_name_def)

lemma ata_find_update:
  "dev_name d = dev_name (devs ! i) \<Longrightarrow> ata_find (devs[i := d]) name k = ata_find devs name k"
proof (induction devs name k arbitrary: i rule: ata_find.induct)
  case (2 d ds name k)
  then show ?case by (cases i) auto
qed simp



end
