(* ===== verification/Vfs.thy ===== *)
theory Vfs
  imports Vfs_Path Heap Block
begin

text \<open>
  The in-memory file system of \<open>kernel/fs/vfs.c\<close>: the node table, the tree that the
  \<open>first_child\<close> and \<open>next_sibling\<close> pointers form, and path lookup.

  The array \<open>nodes\<close> is the list of its used slots, whose length is \<open>node_count\<close>; a pointer to a
  node is its index, and NULL is \<open>None\<close>.  A file's \<open>data\<close> pointer is the list of the bytes from
  there to the end of the allocation (or of the boot image, for borrowed data).  The state also
  has what the file operations reach through \<open>kmalloc\<close> and \<open>tfs_sync_if_mounted\<close>: the blocks
  of the kernel heap, the variables of \<open>kernel/fs/tfs.c\<close> and the disks.

  Operations return an option: \<open>None\<close> stands for a run that does not end or that accesses
  memory outside an allocation.
\<close>

datatype vfs_node_type = VFS_NODE_DIR | VFS_NODE_FILE | VFS_NODE_DEV | VFS_NODE_PROC

record vfs_node =
  vn_name :: "u8 list"
  vn_type :: vfs_node_type
  vn_mode :: u32
  vn_uid :: u32
  vn_gid :: u32
  vn_size :: u64
  vn_created :: u64
  vn_modified :: u64
  vn_data :: "u8 list option"
  vn_borrowed :: bool
  vn_parent :: "nat option"
  vn_first_child :: "nat option"
  vn_next_sibling :: "nat option"

record fs_state =
  fs_nodes :: "vfs_node list"
  fs_root :: "nat option"
  fs_clock :: u64
  fs_persistent :: bool
  fs_auto_sync :: bool
  fs_syncing :: bool
  fs_device :: "u8 list"
  fs_start_lba :: u64
  fs_last_size :: u64
  fs_heap :: "ablk list"
  fs_disks :: "ata_device list"

definition VFS_MAX_NODES :: nat where "VFS_MAX_NODES = 1024"

definition VFS_S_IFDIR :: u32 where "VFS_S_IFDIR = 0x4000"
definition VFS_S_IFREG :: u32 where "VFS_S_IFREG = 0x8000"
definition VFS_S_IFDEV :: u32 where "VFS_S_IFDEV = 0x2000"

text \<open>\<open>alloc_node\<close> takes the next slot; \<open>strncpy\<close> keeps 63 bytes of the name.\<close>

definition alloc_node :: "fs_state \<Rightarrow> u8 list \<Rightarrow> vfs_node_type \<Rightarrow> u32 \<Rightarrow> u32 \<Rightarrow> u32 \<Rightarrow> (nat \<times> fs_state) option" where
  "alloc_node s name type mode uid gid =
     (if length (fs_nodes s) \<ge> VFS_MAX_NODES then None
      else let t = fs_clock s + 1;
               node = \<lparr>vn_name = take VFS_NAME_MAX name, vn_type = type, vn_mode = mode, vn_uid = uid, vn_gid = gid,
                       vn_size = 0, vn_created = t, vn_modified = t, vn_data = None, vn_borrowed = False,
                       vn_parent = None, vn_first_child = None, vn_next_sibling = None\<rparr>
           in Some (length (fs_nodes s), s\<lparr>fs_nodes := fs_nodes s @ [node], fs_clock := t\<rparr>))"

definition attach_child :: "nat \<Rightarrow> nat \<Rightarrow> vfs_node list \<Rightarrow> vfs_node list" where
  "attach_child parent child ns =
     (let ns1 = ns[child := (ns ! child)\<lparr>vn_parent := Some parent, vn_next_sibling := vn_first_child (ns ! parent)\<rparr>]
      in ns1[parent := (ns1 ! parent)\<lparr>vn_first_child := Some child\<rparr>])"

partial_function (option) find_from :: "vfs_node list \<Rightarrow> u8 list \<Rightarrow> nat option \<Rightarrow> nat option option" where
  "find_from ns name p =
     (case p of
        None \<Rightarrow> Some None
      | Some i \<Rightarrow> if vn_name (ns ! i) = name then Some (Some i) else find_from ns name (vn_next_sibling (ns ! i)))"

definition find_child :: "vfs_node list \<Rightarrow> nat \<Rightarrow> u8 list \<Rightarrow> nat option option" where
  "find_child ns parent name = find_from ns name (vn_first_child (ns ! parent))"

lemma lookup_step_less:
  assumes "p \<noteq> []"
  shows "length (dropWhile (\<lambda>c. c = slash) (drop (length (take VFS_NAME_MAX (takeWhile (\<lambda>c. c \<noteq> slash) p))) p)) < length p"
proof (cases "hd p = slash")
  case True
  then show ?thesis using assms by (cases p) (simp_all add: less_Suc_eq_le length_dropWhile_le)
next
  case False
  let ?comp = "take VFS_NAME_MAX (takeWhile (\<lambda>c. c \<noteq> slash) p)"
  have "0 < length ?comp" using False assms by (cases p) (simp_all add: VFS_NAME_MAX_def)
  then have "length (drop (length ?comp) p) < length p" using assms by simp
  then show ?thesis using length_dropWhile_le [of "\<lambda>c. c = slash" "drop (length ?comp) p"] by linarith
qed

text \<open>The loop of \<open>vfs_lookup\<close>: a component of at most 63 bytes, then the slashes after it.\<close>

function lookup_loop :: "vfs_node list \<Rightarrow> u8 list \<Rightarrow> nat option \<Rightarrow> nat option option" where
  "lookup_loop ns p node =
     (if p = [] then Some node
      else case node of
        None \<Rightarrow> Some None
      | Some i \<Rightarrow>
          let comp = take VFS_NAME_MAX (takeWhile (\<lambda>c. c \<noteq> slash) p);
              r = dropWhile (\<lambda>c. c = slash) (drop (length comp) p) in
          case find_child ns i comp of
            None \<Rightarrow> None
          | Some n \<Rightarrow> lookup_loop ns r n)"
  by auto
termination
  by (relation "measure (\<lambda>(ns, p, n). length p)") (simp_all add: lookup_step_less del: length_take)

declare lookup_loop.simps [simp del]

definition vfs_lookup :: "fs_state \<Rightarrow> u8 list option \<Rightarrow> u8 list option \<Rightarrow> nat option option" where
  "vfs_lookup s path cwd =
     (case vfs_normalize path cwd VFS_PATH_MAX of
        None \<Rightarrow> Some None
      | Some normal \<Rightarrow>
          if normal = [slash] then Some (fs_root s)
          else lookup_loop (fs_nodes s) (tl normal) (fs_root s))"

text \<open>
  \<open>parent_and_name\<close>: the bytes after the last slash and the directory before it.  The first
  byte of a normalised path is a slash, so \<open>strrchr\<close> finds one; \<open>Some None\<close> is -1.
\<close>

definition parent_and_name :: "fs_state \<Rightarrow> u8 list option \<Rightarrow> u8 list option \<Rightarrow> (nat \<times> u8 list) option option" where
  "parent_and_name s path cwd =
     (case vfs_normalize path cwd VFS_PATH_MAX of
        None \<Rightarrow> Some None
      | Some normal \<Rightarrow>
          if normal = [slash] then Some None
          else
            let base = rev (takeWhile (\<lambda>c. c \<noteq> slash) (rev normal));
                k = length normal - length base;
                name = take VFS_NAME_MAX base in
            if k = 0 then Some None
            else case (if k = 1 then Some (fs_root s)
                       else vfs_lookup s (Some (take (k - 1) normal)) (Some (bytes_of ''/''))) of
                   None \<Rightarrow> None
                 | Some None \<Rightarrow> Some None
                 | Some (Some parent) \<Rightarrow>
                     if vn_type (fs_nodes s ! parent) \<noteq> VFS_NODE_DIR \<or> name = [] then Some None
                     else Some (Some (parent, name)))"

subsection \<open>Sibling chains\<close>

text \<open>\<open>chain ns p is\<close>: following \<open>next_sibling\<close> from \<open>p\<close> visits the nodes \<open>is\<close> and ends.\<close>

primrec chain :: "vfs_node list \<Rightarrow> nat option \<Rightarrow> nat list \<Rightarrow> bool" where
  "chain ns p [] \<longleftrightarrow> p = None"
| "chain ns p (i # is) \<longleftrightarrow> p = Some i \<and> i < length ns \<and> chain ns (vn_next_sibling (ns ! i)) is"

primrec kids_from :: "nat \<Rightarrow> vfs_node list \<Rightarrow> nat option \<Rightarrow> nat list" where
  "kids_from 0 ns p = []"
| "kids_from (Suc k) ns p = (case p of None \<Rightarrow> [] | Some i \<Rightarrow> i # kids_from k ns (vn_next_sibling (ns ! i)))"

definition kids :: "vfs_node list \<Rightarrow> nat \<Rightarrow> nat list" where
  "kids ns i = kids_from (length ns) ns (vn_first_child (ns ! i))"

lemma chain_kids_from: "chain ns p xs \<Longrightarrow> length xs \<le> k \<Longrightarrow> kids_from k ns p = xs"
proof (induction xs arbitrary: p k)
  case Nil
  then show ?case by (cases k) simp_all
next
  case (Cons i xs)
  then show ?case by (cases k) simp_all
qed

lemma chain_bound: "chain ns p xs \<Longrightarrow> set xs \<subseteq> {..<length ns}"
  by (induction xs arbitrary: p) auto

lemma chain_cong:
  "chain ns p xs \<Longrightarrow> length ns \<le> length ns' \<Longrightarrow>
     (\<And>i. i \<in> set xs \<Longrightarrow> vn_next_sibling (ns' ! i) = vn_next_sibling (ns ! i)) \<Longrightarrow> chain ns' p xs"
  by (induction xs arbitrary: p) auto

lemma chain_distinct_kids:
  assumes "chain ns (vn_first_child (ns ! i)) xs" and "distinct xs"
  shows "kids ns i = xs"
proof -
  have "length xs = card (set xs)" using assms(2) by (simp add: distinct_card)
  also have "\<dots> \<le> card {..<length ns}" using chain_bound [OF assms(1)] by (intro card_mono) auto
  finally have "length xs \<le> length ns" by simp
  then show ?thesis using chain_kids_from [OF assms(1)] by (simp add: kids_def)
qed

lemma find_from_chain:
  "chain ns p xs \<Longrightarrow> find_from ns name p = Some (find (\<lambda>i. vn_name (ns ! i) = name) xs)"
  by (induction xs arbitrary: p) (simp_all add: find_from.simps)

lemma chain_unlink:
  assumes "chain ns p (xs @ k # ys)" and "distinct (xs @ k # ys)" and "xs \<noteq> []"
  shows "chain (ns[last xs := (ns ! last xs)\<lparr>vn_next_sibling := vn_next_sibling (ns ! k)\<rparr>]) p (xs @ ys)"
  using assms
proof (induction xs arbitrary: p)
  case (Cons x xs)
  show ?case
  proof (cases "xs = []")
    case True
    have "chain (ns[x := (ns ! x)\<lparr>vn_next_sibling := vn_next_sibling (ns ! k)\<rparr>]) (vn_next_sibling (ns ! k)) ys"
    proof (rule chain_cong)
      show "chain ns (vn_next_sibling (ns ! k)) ys" using Cons.prems(1) True by simp
      fix i assume "i \<in> set ys"
      then have "x \<noteq> i" using Cons.prems(2) by auto
      then show "vn_next_sibling (ns[x := (ns ! x)\<lparr>vn_next_sibling := vn_next_sibling (ns ! k)\<rparr>] ! i) = vn_next_sibling (ns ! i)"
        by simp
    qed simp
    then show ?thesis using Cons.prems True by simp
  next
    case False
    then have "x \<noteq> last xs" using Cons.prems(2) by auto
    then show ?thesis using Cons False by simp
  qed
qed simp

subsection \<open>The tree invariant\<close>

text \<open>
  A file with bytes has a buffer that holds them.  The bounds keep the sum of two sizes from
  wrapping: a buffer comes from the 16 MiB heap or lies in the boot image.
\<close>

definition data_ok :: "vfs_node \<Rightarrow> bool" where
  "data_ok n \<longleftrightarrow> vn_size n \<noteq> 0 \<longrightarrow>
     unat (vn_size n) < 2 ^ 63 \<and> (\<exists>d. vn_data n = Some d \<and> unat (vn_size n) \<le> length d)"

definition node_ok :: "vfs_node list \<Rightarrow> nat \<Rightarrow> bool" where
  "node_ok ns i \<longleftrightarrow>
     chain ns (vn_first_child (ns ! i)) (kids ns i)
     \<and> distinct (map (\<lambda>k. vn_name (ns ! k)) (kids ns i))
     \<and> (\<forall>k \<in> set (kids ns i). i < k \<and> vn_parent (ns ! k) = Some i \<and> comp_ok (vn_name (ns ! k)))
     \<and> (kids ns i \<noteq> [] \<longrightarrow> vn_type (ns ! i) = VFS_NODE_DIR)
     \<and> data_ok (ns ! i)"

definition fs_inv :: "fs_state \<Rightarrow> bool" where
  "fs_inv s \<longleftrightarrow> fs_root s = Some 0 \<and> fs_nodes s \<noteq> [] \<and> length (fs_nodes s) \<le> VFS_MAX_NODES
     \<and> vn_type (fs_nodes s ! 0) = VFS_NODE_DIR \<and> (\<forall>i < length (fs_nodes s). node_ok (fs_nodes s) i)"

lemma node_okD:
  assumes "node_ok ns i"
  shows "chain ns (vn_first_child (ns ! i)) (kids ns i)" "distinct (map (\<lambda>k. vn_name (ns ! k)) (kids ns i))"
    and "distinct (kids ns i)" "k \<in> set (kids ns i) \<Longrightarrow> i < k \<and> k < length ns \<and> vn_parent (ns ! k) = Some i \<and> comp_ok (vn_name (ns ! k))"
    and "kids ns i \<noteq> [] \<Longrightarrow> vn_type (ns ! i) = VFS_NODE_DIR" "data_ok (ns ! i)"
  using assms chain_bound [of ns "vn_first_child (ns ! i)" "kids ns i"] by (auto simp: node_ok_def distinct_map)

lemma node_okI:
  assumes "chain ns (vn_first_child (ns ! i)) xs" "distinct (map (\<lambda>k. vn_name (ns ! k)) xs)"
    and "\<And>k. k \<in> set xs \<Longrightarrow> i < k \<and> vn_parent (ns ! k) = Some i \<and> comp_ok (vn_name (ns ! k))"
    and "xs \<noteq> [] \<Longrightarrow> vn_type (ns ! i) = VFS_NODE_DIR" "data_ok (ns ! i)"
  shows "node_ok ns i" "kids ns i = xs"
proof -
  show k: "kids ns i = xs" using assms(1,2) by (intro chain_distinct_kids) (simp_all add: distinct_map)
  show "node_ok ns i" unfolding node_ok_def k using assms by blast
qed

text \<open>The node a list of components leads to, from node \<open>i\<close>.\<close>

primrec resolve :: "vfs_node list \<Rightarrow> nat \<Rightarrow> u8 list list \<Rightarrow> nat option" where
  "resolve ns i [] = Some i"
| "resolve ns i (c # cs) =
     (case find (\<lambda>k. vn_name (ns ! k) = c) (kids ns i) of None \<Rightarrow> None | Some k \<Rightarrow> resolve ns k cs)"

lemma find_child_kids: "node_ok ns i \<Longrightarrow> find_child ns i name = Some (find (\<lambda>k. vn_name (ns ! k) = name) (kids ns i))"
  unfolding find_child_def by (rule find_from_chain) (rule node_okD(1))

lemma find_kids_Some:
  "node_ok ns i \<Longrightarrow> find (\<lambda>k. vn_name (ns ! k) = c) (kids ns i) = Some k \<longleftrightarrow> k \<in> set (kids ns i) \<and> vn_name (ns ! k) = c"
  using node_okD(2) [of ns i] by (auto simp: find_Some_iff in_set_conv_nth distinct_conv_nth)

lemma resolve_append: "resolve ns i (cs @ ds) = (case resolve ns i cs of None \<Rightarrow> None | Some k \<Rightarrow> resolve ns k ds)"
  by (induction cs arbitrary: i) (simp_all split: option.split)

definition tree_ok :: "vfs_node list \<Rightarrow> bool" where
  "tree_ok ns \<longleftrightarrow> (\<forall>i < length ns. node_ok ns i)"

lemma resolve_bound: "tree_ok ns \<Longrightarrow> i < length ns \<Longrightarrow> resolve ns i cs = Some k \<Longrightarrow> i \<le> k \<and> k < length ns"
proof (induction cs arbitrary: i)
  case (Cons c cs)
  then obtain j where j: "find (\<lambda>k. vn_name (ns ! k) = c) (kids ns i) = Some j" "resolve ns j cs = Some k"
    by (auto split: option.splits)
  have n: "node_ok ns i" using Cons.prems by (simp add: tree_ok_def)
  have "i < j \<and> j < length ns" using j(1) find_kids_Some [OF n] node_okD(4) [OF n] by auto
  then show ?case using Cons.IH [of j] Cons.prems(1) j(2) by auto
qed simp

lemma resolve_snoc:
  assumes "tree_ok ns" "i < length ns"
  shows "resolve ns i (cs @ [c]) = Some k \<longleftrightarrow> (\<exists>j. resolve ns i cs = Some j \<and> k \<in> set (kids ns j) \<and> vn_name (ns ! k) = c)"
proof (cases "resolve ns i cs")
  case (Some j)
  then have "node_ok ns j" using resolve_bound [OF assms] assms(1) by (simp add: tree_ok_def)
  then show ?thesis using Some find_kids_Some [of ns j c k] by (auto simp: resolve_append split: option.splits)
qed (simp add: resolve_append)

text \<open>Different paths lead to different nodes.\<close>

lemma resolve_inj:
  assumes t: "tree_ok ns" and i: "i < length ns"
  shows "resolve ns i cs = Some k \<Longrightarrow> resolve ns i ds = Some k \<Longrightarrow> cs = ds"
proof (induction cs arbitrary: ds k rule: rev_induct)
  case Nil
  show ?case
  proof (cases ds rule: rev_cases)
    case (snoc ds' d)
    then obtain j where "resolve ns i ds' = Some j" "k \<in> set (kids ns j)" using Nil resolve_snoc [OF t i] by auto
    then have "i \<le> j \<and> j < length ns \<and> j < k"
      using resolve_bound [OF t i] node_okD(4) [of ns j k] t by (auto simp: tree_ok_def)
    then show ?thesis using Nil(1) by simp
  qed simp
next
  case (snoc c cs)
  obtain j where j: "resolve ns i cs = Some j" "k \<in> set (kids ns j)" "vn_name (ns ! k) = c"
    using snoc(2) resolve_snoc [OF t i] by auto
  have jk: "i \<le> j" "j < length ns" "j < k" "vn_parent (ns ! k) = Some j"
    using resolve_bound [OF t i j(1)] node_okD(4) [of ns j k] t j(2) by (auto simp: tree_ok_def)
  show ?case
  proof (cases ds rule: rev_cases)
    case Nil
    then show ?thesis using snoc(3) jk by simp
  next
    case (snoc ds' d)
    then obtain j' where j': "resolve ns i ds' = Some j'" "k \<in> set (kids ns j')" "vn_name (ns ! k) = d"
      using \<open>resolve ns i ds = Some k\<close> resolve_snoc [OF t i] by auto
    have "vn_parent (ns ! k) = Some j'"
      using resolve_bound [OF t i j'(1)] node_okD(4) [of ns j' k] t j'(2) by (auto simp: tree_ok_def)
    then show ?thesis using snoc.IH [OF j(1)] jk j' j(3) \<open>ds = ds' @ [d]\<close> by simp
  qed
qed

subsection \<open>Lookup follows the components\<close>

text \<open>The components a path and a working directory denote.\<close>

definition path_comps :: "u8 list option \<Rightarrow> u8 list option \<Rightarrow> u8 list list option" where
  "path_comps path cwd = Option.bind (vfs_normalize path cwd VFS_PATH_MAX) (\<lambda>out. norm_loop out [])"

lemma path_comps_cases:
  assumes "nul_free path" "nul_free cwd"
  obtains "vfs_normalize path cwd VFS_PATH_MAX = None" "path_comps path cwd = None"
  | cs where "vfs_normalize path cwd VFS_PATH_MAX = Some (path_str cs)" "path_comps path cwd = Some cs"
      "\<forall>c \<in> set cs. comp_ok c" "length cs \<le> VFS_MAX_COMPONENTS" "length (path_str cs) < VFS_PATH_MAX"
      "norm_join VFS_PATH_MAX [slash] cs = Some (path_str cs)"
proof (cases "vfs_normalize path cwd VFS_PATH_MAX")
  case (Some out)
  then obtain p where p: "path = Some p" by (cases path) (simp_all add: vfs_normalize_def)
  obtain cs where cs: "out = path_str cs" "\<forall>c \<in> set cs. comp_ok c" "length cs \<le> VFS_MAX_COMPONENTS"
    "length out < VFS_PATH_MAX" "norm_join VFS_PATH_MAX [slash] cs = Some out"
    using vfs_normalize_path_str [OF Some [unfolded p] assms [unfolded p]] .
  have "path_comps path cwd = Some cs"
    using Some cs(1) norm_loop_path [OF cs(2,3)] by (simp add: path_comps_def)
  then show ?thesis using that(2) [of cs] Some cs by blast
qed (use that in \<open>simp add: path_comps_def\<close>)

lemma lookup_loop_resolve:
  "tree_ok ns \<Longrightarrow> i < length ns \<Longrightarrow> comp_ok c \<Longrightarrow> \<forall>c \<in> set cs. comp_ok c \<Longrightarrow>
     lookup_loop ns (c @ concat (map (\<lambda>c. slash # c) cs)) (Some i) = Some (resolve ns i (c # cs))"
proof (induction cs arbitrary: i c)
  case Nil
  have n: "node_ok ns i" using Nil by (simp add: tree_ok_def)
  have tw: "takeWhile (\<lambda>x. x \<noteq> slash) c = c" using comp_okD [OF Nil(3)] by (auto simp: takeWhile_eq_all_conv)
  have "lookup_loop ns c (Some i) = (case find_child ns i c of None \<Rightarrow> None | Some n \<Rightarrow> lookup_loop ns [] n)"
    unfolding lookup_loop.simps [of ns c] option.case Let_def tw using comp_okD [OF Nil(3)] by (simp split: option.split)
  then show ?case
    using find_child_kids [OF n, of c] by (simp add: lookup_loop.simps [of ns "[]"] split: option.split)
next
  case (Cons d ds)
  let ?rest = "concat (map (\<lambda>c. slash # c) (d # ds))"
  have n: "node_ok ns i" using Cons.prems by (simp add: tree_ok_def)
  have tw: "takeWhile (\<lambda>x. x \<noteq> slash) (c @ ?rest) = c"
    using comp_okD [OF Cons.prems(3)] by (subst takeWhile_append2) auto
  have dw: "dropWhile (\<lambda>x. x = slash) ?rest = d @ concat (map (\<lambda>c. slash # c) ds)"
    using comp_okD [of d] Cons.prems(4) by (cases d) auto
  have ne: "c @ ?rest \<noteq> []" by simp
  have "lookup_loop ns (c @ ?rest) (Some i) =
      (case find_child ns i c of None \<Rightarrow> None | Some n \<Rightarrow> lookup_loop ns (d @ concat (map (\<lambda>c. slash # c) ds)) n)"
  proof -
    have tk: "take VFS_NAME_MAX c = c" and dr: "drop (length c) (c @ ?rest) = ?rest"
      using comp_okD [OF Cons.prems(3)] by simp_all
    show ?thesis
      unfolding lookup_loop.simps [of ns "c @ ?rest"] option.case Let_def tw tk dr dw using ne by simp
  qed
  also have "\<dots> = Some (resolve ns i (c # d # ds))"
  proof (cases "find (\<lambda>k. vn_name (ns ! k) = c) (kids ns i)")
    case None
    have "d \<noteq> []" using comp_okD [of d] Cons.prems(4) by simp
    then show ?thesis using None find_child_kids [OF n, of c] by (simp add: lookup_loop.simps)
  next
    case (Some k)
    then have "k < length ns" using find_kids_Some [OF n] node_okD(4) [OF n] by auto
    then have "lookup_loop ns (d @ concat (map (\<lambda>c. slash # c) ds)) (Some k) = Some (resolve ns k (d # ds))"
      using Cons.IH [of k d] Cons.prems by simp
    then show ?thesis using Some find_child_kids [OF n, of c] by simp
  qed
  finally show ?case .
qed

lemma fs_invD:
  assumes "fs_inv s"
  shows "fs_root s = Some 0" "0 < length (fs_nodes s)" "tree_ok (fs_nodes s)" "vn_type (fs_nodes s ! 0) = VFS_NODE_DIR"
    "length (fs_nodes s) \<le> VFS_MAX_NODES"
  using assms by (auto simp: fs_inv_def tree_ok_def)

lemma vfs_lookup_resolve:
  assumes inv: "fs_inv s" and "nul_free path" "nul_free cwd"
  shows "vfs_lookup s path cwd = Some (case path_comps path cwd of None \<Rightarrow> None | Some cs \<Rightarrow> resolve (fs_nodes s) 0 cs)"
  using assms(2,3)
proof (cases rule: path_comps_cases)
  case 1
  then show ?thesis by (simp add: vfs_lookup_def)
next
  case (2 cs)
  note D = fs_invD [OF inv]
  show ?thesis
  proof (cases cs)
    case Nil
    then show ?thesis using 2 D by (simp add: vfs_lookup_def path_str_def)
  next
    case (Cons c ds)
    have "path_str cs \<noteq> [slash]" using path_str_root [of cs] 2(3) Cons comp_okD by auto
    moreover have "tl (path_str cs) = c @ concat (map (\<lambda>c. slash # c) ds)" using Cons by (simp add: path_str_def)
    ultimately show ?thesis
      using 2 Cons D lookup_loop_resolve [OF D(3), of 0 c ds] by (simp add: vfs_lookup_def)
  qed
qed

lemma norm_join_append: "norm_join n out (xs @ ys) = Option.bind (norm_join n out xs) (\<lambda>o'. norm_join n o' ys)"
  by (induction n out xs rule: norm_join.induct) simp_all

lemma parent_and_name_resolve:
  assumes inv: "fs_inv s" and "nul_free path" "nul_free cwd"
  shows "parent_and_name s path cwd = Some (case path_comps path cwd of None \<Rightarrow> None
     | Some cs \<Rightarrow> if cs = [] then None
         else case resolve (fs_nodes s) 0 (butlast cs) of None \<Rightarrow> None
              | Some p \<Rightarrow> if vn_type (fs_nodes s ! p) = VFS_NODE_DIR then Some (p, last cs) else None)"
  using assms(2,3)
proof (cases rule: path_comps_cases)
  case 1
  then show ?thesis by (simp add: parent_and_name_def)
next
  case (2 cs)
  note D = fs_invD [OF inv]
  show ?thesis
  proof (cases cs rule: rev_cases)
    case Nil
    then show ?thesis using 2 by (simp add: parent_and_name_def path_str_def)
  next
    case (snoc ds c)
    have c: "comp_ok c" and ds: "\<forall>c \<in> set ds. comp_ok c" using 2(3) snoc by auto
    let ?pre = "if ds = [] then [] else path_str ds"
    have ps: "path_str cs = ?pre @ slash # c"
      using snoc comp_okD [OF c] by (simp add: path_str_snoc)
    have root: "path_str cs \<noteq> [slash]" using path_str_root [of cs] 2(3) snoc comp_okD by auto
    have base: "rev (takeWhile (\<lambda>c. c \<noteq> slash) (rev (path_str cs))) = c"
    proof -
      have "takeWhile (\<lambda>c. c \<noteq> slash) (rev c @ slash # zs) = rev c" for zs
        using comp_okD [OF c] by (subst takeWhile_append2) auto
      then show ?thesis unfolding ps by simp
    qed
    define K where "K = length ?pre"
    have k: "length (path_str cs) - length c = K + 1" unfolding ps K_def by simp
    have nm: "take VFS_NAME_MAX c = c" "c \<noteq> []" using comp_okD [OF c] by auto
    have pre: "take (K + 1 - 1) (path_str cs) = ?pre" unfolding ps K_def by simp
    have lk: "(if K + 1 = 1 then Some (fs_root s) else vfs_lookup s (Some (take (K + 1 - 1) (path_str cs))) (Some (bytes_of ''/''))) =
        Some (resolve (fs_nodes s) 0 ds)"
    proof (cases "ds = []")
      case False
      have j: "norm_join VFS_PATH_MAX [slash] ds = Some (path_str ds)"
      proof -
        obtain o' where o: "norm_join VFS_PATH_MAX [slash] ds = Some o'"
          using 2(6) snoc norm_join_append [of VFS_PATH_MAX "[slash]" ds "[c]"] by (cases "norm_join VFS_PATH_MAX [slash] ds") auto
        have "o' = path_str ([] @ ds) \<and> length o' < VFS_PATH_MAX"
          by (rule norm_join_path) (use o ds in \<open>auto simp: path_str_def VFS_PATH_MAX_def comp_ok_def\<close>)
        then show ?thesis using o by simp
      qed
      have len: "length ds \<le> VFS_MAX_COMPONENTS" "length (path_str ds) < VFS_PATH_MAX"
        using 2(4,5) snoc ps False by auto
      have z: "nul_free (Some (path_str ds))" "nul_free (Some (bytes_of ''/''))"
        using ds by (auto simp: path_str_def comp_ok_def bytes_of_def)
      have "path_comps (Some (path_str ds)) (Some (bytes_of ''/'')) = Some ds"
        using vfs_normalize_canonical_path [OF ds len, of VFS_PATH_MAX] j norm_loop_path [OF ds len(1)]
        by (simp add: path_comps_def VFS_PATH_MAX_def)
      moreover have "path_str ds \<noteq> []" using path_str_hd [of ds] by auto
      ultimately show ?thesis using vfs_lookup_resolve [OF inv z] False pre K_def by simp
    qed (simp add: D K_def)
    have "(path_str cs = [slash]) = False" "(K + 1 = 0) = False" "(cs = []) = False" using root snoc by simp_all
    moreover have "butlast cs = ds" "last cs = c" using snoc by simp_all
    ultimately show ?thesis
      unfolding parent_and_name_def 2(1,2) option.case Let_def base k lk nm(1)
      using nm(2) by (simp split: option.split)
  qed
qed

subsection \<open>Updates that keep the links\<close>

definition same_links :: "vfs_node list \<Rightarrow> vfs_node list \<Rightarrow> bool" where
  "same_links ns ns' \<longleftrightarrow> length ns' = length ns \<and> (\<forall>i < length ns.
     vn_name (ns' ! i) = vn_name (ns ! i) \<and> vn_parent (ns' ! i) = vn_parent (ns ! i) \<and>
     vn_first_child (ns' ! i) = vn_first_child (ns ! i) \<and> vn_next_sibling (ns' ! i) = vn_next_sibling (ns ! i))"

lemma same_links_node:
  assumes "node_ok ns i" "i < length ns" "same_links ns ns'" "data_ok (ns' ! i)"
    and "kids ns i \<noteq> [] \<Longrightarrow> vn_type (ns' ! i) = VFS_NODE_DIR"
  shows "node_ok ns' i" "kids ns' i = kids ns i"
proof -
  note D = node_okD [OF assms(1)]
  have L: "k < length ns \<Longrightarrow> vn_name (ns' ! k) = vn_name (ns ! k) \<and> vn_parent (ns' ! k) = vn_parent (ns ! k) \<and>
     vn_first_child (ns' ! k) = vn_first_child (ns ! k) \<and> vn_next_sibling (ns' ! k) = vn_next_sibling (ns ! k)" for k
    using assms(3) by (simp add: same_links_def)
  have c: "chain ns' (vn_first_child (ns ! i)) (kids ns i)"
    by (rule chain_cong [OF D(1)]) (use assms(3) L D(4) in \<open>auto simp: same_links_def\<close>)
  have m: "map (\<lambda>k. vn_name (ns' ! k)) (kids ns i) = map (\<lambda>k. vn_name (ns ! k)) (kids ns i)"
    using L D(4) by simp
  have 1: "chain ns' (vn_first_child (ns' ! i)) (kids ns i)" using c L [OF assms(2)] by simp
  have 2: "distinct (map (\<lambda>k. vn_name (ns' ! k)) (kids ns i))" unfolding m by (rule D(2))
  have 3: "i < k \<and> vn_parent (ns' ! k) = Some i \<and> comp_ok (vn_name (ns' ! k))" if "k \<in> set (kids ns i)" for k
    using D(4) [OF that] L [of k] by simp
  show "node_ok ns' i" "kids ns' i = kids ns i" using node_okI [OF 1 2 3 assms(5,4)] by blast+
qed

lemma same_links_tree:
  assumes t: "tree_ok ns" and sl: "same_links ns ns'" and d: "\<And>i. i < length ns \<Longrightarrow> data_ok (ns' ! i)"
    and ty: "\<And>i. i < length ns \<Longrightarrow> kids ns i \<noteq> [] \<Longrightarrow> vn_type (ns' ! i) = VFS_NODE_DIR"
  shows "tree_ok ns'" and "\<And>i. i < length ns \<Longrightarrow> kids ns' i = kids ns i"
    and "\<And>i cs. i < length ns \<Longrightarrow> resolve ns' i cs = resolve ns i cs"
proof -
  have n: "node_ok ns' i \<and> kids ns' i = kids ns i" if "i < length ns" for i
    using same_links_node [OF _ that sl d [OF that] ty [OF that]] t that by (simp add: tree_ok_def)
  then show "tree_ok ns'" using sl by (simp add: tree_ok_def same_links_def)
  show k: "kids ns' i = kids ns i" if "i < length ns" for i using n [OF that] by simp
  show "resolve ns' i cs = resolve ns i cs" if "i < length ns" for i cs
    using that
  proof (induction cs arbitrary: i)
    case (Cons c cs)
    have D: "k \<in> set (kids ns i) \<Longrightarrow> k < length ns" for k
      using node_okD(4) [of ns i k] t Cons.prems by (simp add: tree_ok_def)
    have "find (\<lambda>k. vn_name (ns' ! k) = c) (kids ns i) = find (\<lambda>k. vn_name (ns ! k) = c) (kids ns i)"
      using D sl by (intro find_cong) (auto simp: same_links_def)
    moreover have "find (\<lambda>k. vn_name (ns ! k) = c) (kids ns i) = Some k \<Longrightarrow> k < length ns" for k
      using D by (auto simp: find_Some_iff)
    ultimately show ?case using k [OF Cons.prems] Cons.IH by (simp split: option.split)
  qed simp
qed

subsection \<open>Attaching a node\<close>

lemma attach_child_nth:
  assumes "p < length ns"
  shows "length (attach_child p (length ns) (ns @ [n])) = Suc (length ns)"
    and "attach_child p (length ns) (ns @ [n]) ! length ns =
           n\<lparr>vn_parent := Some p, vn_next_sibling := vn_first_child (ns ! p)\<rparr>"
    and "attach_child p (length ns) (ns @ [n]) ! p = (ns ! p)\<lparr>vn_first_child := Some (length ns)\<rparr>"
    and "i < length ns \<Longrightarrow> i \<noteq> p \<Longrightarrow> attach_child p (length ns) (ns @ [n]) ! i = ns ! i"
  using assms by (auto simp: attach_child_def Let_def nth_append)

lemma attach_tree:
  assumes t: "tree_ok ns" and p: "p < length ns" "vn_type (ns ! p) = VFS_NODE_DIR"
    and n: "comp_ok (vn_name n)" "vn_name n \<notin> (\<lambda>k. vn_name (ns ! k)) ` set (kids ns p)"
      "vn_first_child n = None" "data_ok n"
  defines "ns' \<equiv> attach_child p (length ns) (ns @ [n])"
  shows "tree_ok ns'" "kids ns' p = length ns # kids ns p" "kids ns' (length ns) = []"
    and "\<And>i. i < length ns \<Longrightarrow> i \<noteq> p \<Longrightarrow> kids ns' i = kids ns i"
proof -
  note A = attach_child_nth [OF p(1), where n = n, folded ns'_def]
  have old: "vn_name (ns' ! k) = vn_name (ns ! k) \<and> vn_parent (ns' ! k) = vn_parent (ns ! k) \<and>
      vn_next_sibling (ns' ! k) = vn_next_sibling (ns ! k) \<and> vn_type (ns' ! k) = vn_type (ns ! k) \<and>
      data_ok (ns' ! k) = data_ok (ns ! k)" if "k < length ns" for k
    using A(3) A(4) [OF that] by (cases "k = p") (simp_all add: data_ok_def)
  have node: "node_ok ns i" if "i < length ns" for i using t that by (simp add: tree_ok_def)
  have ch: "chain ns' (vn_first_child (ns ! i)) (kids ns i)" if "i < length ns" for i
    by (rule chain_cong [OF node_okD(1) [OF node [OF that]]]) (use A(1) old node_okD(4) [OF node [OF that]] in auto)
  have names: "map (\<lambda>k. vn_name (ns' ! k)) (kids ns i) = map (\<lambda>k. vn_name (ns ! k)) (kids ns i)" if "i < length ns" for i
    using old node_okD(4) [OF node [OF that]] by simp
  have par: "i < k \<and> vn_parent (ns' ! k) = Some i \<and> comp_ok (vn_name (ns' ! k))"
    if "i < length ns" "k \<in> set (kids ns i)" for i k
    using old node_okD(4) [OF node [OF that(1)] that(2)] by simp
  have P: "node_ok ns' p \<and> kids ns' p = length ns # kids ns p"
  proof -
    have 1: "chain ns' (vn_first_child (ns' ! p)) (length ns # kids ns p)"
      using ch [OF p(1)] A p(1) by simp
    have 2: "distinct (map (\<lambda>k. vn_name (ns' ! k)) (length ns # kids ns p))"
      unfolding list.map distinct.simps names [OF p(1)] using n(2) node_okD(2) [OF node [OF p(1)]] A(2) by simp
    have 3: "p < k \<and> vn_parent (ns' ! k) = Some p \<and> comp_ok (vn_name (ns' ! k))" if "k \<in> set (length ns # kids ns p)" for k
      using that par [OF p(1)] A(2) p(1) n(1) by auto
    have 4: "vn_type (ns' ! p) = VFS_NODE_DIR" "data_ok (ns' ! p)"
      using old [OF p(1)] p(2) node_okD(6) [OF node [OF p(1)]] by simp_all
    show ?thesis using node_okI [OF 1 2 3 _ 4(2)] 4(1) by blast
  qed
  have O: "node_ok ns' i \<and> kids ns' i = kids ns i" if "i < length ns" "i \<noteq> p" for i
  proof -
    have 1: "chain ns' (vn_first_child (ns' ! i)) (kids ns i)" using ch [OF that(1)] A(4) [OF that] by simp
    have 2: "distinct (map (\<lambda>k. vn_name (ns' ! k)) (kids ns i))" unfolding names [OF that(1)] by (rule node_okD(2) [OF node [OF that(1)]])
    have 4: "kids ns i \<noteq> [] \<Longrightarrow> vn_type (ns' ! i) = VFS_NODE_DIR" "data_ok (ns' ! i)"
      using old [OF that(1)] node_okD(5,6) [OF node [OF that(1)]] by simp_all
    show ?thesis using node_okI [OF 1 2 par [OF that(1)] 4] by blast
  qed
  have N: "node_ok ns' (length ns) \<and> kids ns' (length ns) = []"
    using node_okI [of ns' "length ns" "[]"] A(2) n(3,4) by (simp add: data_ok_def)
  show "tree_ok ns'"
    unfolding tree_ok_def A(1) using P O N by (metis less_Suc_eq)
  show "kids ns' p = length ns # kids ns p" "kids ns' (length ns) = []" using P N by blast+
  show "\<And>i. i < length ns \<Longrightarrow> i \<noteq> p \<Longrightarrow> kids ns' i = kids ns i" using O by blast
qed

lemma attach_resolve:
  assumes t: "tree_ok ns" and p: "vn_type (ns ! p) = VFS_NODE_DIR" "resolve ns 0 ds = Some p" "ns \<noteq> []"
    and n: "comp_ok (vn_name n)" "resolve ns 0 (ds @ [vn_name n]) = None"
      "vn_first_child n = None" "data_ok n"
  defines "ns' \<equiv> attach_child p (length ns) (ns @ [n])"
  shows "tree_ok ns'" "resolve ns' 0 cs = (if cs = ds @ [vn_name n] then Some (length ns) else resolve ns 0 cs)"
proof -
  have p': "p < length ns" using resolve_bound [OF t _ p(2)] p(3) by simp
  have nd: "node_ok ns p" using t p' by (simp add: tree_ok_def)
  have fresh: "vn_name n \<notin> (\<lambda>k. vn_name (ns ! k)) ` set (kids ns p)"
    using n(2) resolve_snoc [OF t, of 0 ds "vn_name n"] p(2,3) by force
  note T = attach_tree [OF t p' p(1) n(1) fresh n(3,4), folded ns'_def] and A = attach_child_nth [OF p', where n = n, folded ns'_def]
  show "tree_ok ns'" by (rule T(1))
  have len: "0 < length ns" "0 < length ns'" using p(3) A(1) by simp_all
  have nm: "k < length ns \<Longrightarrow> vn_name (ns' ! k) = vn_name (ns ! k)" for k
    using A(3) A(4) [of k] by (cases "k = p") simp_all
  have kb: "j < length ns \<Longrightarrow> k \<in> set (kids ns j) \<Longrightarrow> k < length ns" for j k
    using node_okD(4) [of ns j k] t by (simp add: tree_ok_def)
  show "resolve ns' 0 cs = (if cs = ds @ [vn_name n] then Some (length ns) else resolve ns 0 cs)"
  proof (induction cs rule: rev_induct)
    case (snoc c cs)
    have step: "resolve ns' 0 (cs @ [c]) = Some k \<longleftrightarrow> (\<exists>j. resolve ns' 0 cs = Some j \<and> k \<in> set (kids ns' j) \<and> vn_name (ns' ! k) = c)" for k
      by (rule resolve_snoc [OF T(1) len(2)])
    have step0: "resolve ns 0 (cs @ [c]) = Some k \<longleftrightarrow> (\<exists>j. resolve ns 0 cs = Some j \<and> k \<in> set (kids ns j) \<and> vn_name (ns ! k) = c)" for k
      by (rule resolve_snoc [OF t len(1)])
    have "resolve ns' 0 (cs @ [c]) = Some k \<longleftrightarrow> (if cs @ [c] = ds @ [vn_name n] then Some (length ns) else resolve ns 0 (cs @ [c])) = Some k" for k
    proof (cases "cs = ds @ [vn_name n]")
      case True
      have "resolve ns' 0 cs = Some (length ns)" "resolve ns 0 cs = None" using snoc True n(2) by simp_all
      then show ?thesis using step [of k] step0 [of k] T(3) True by simp
    next
      case other: False
      then have eq: "resolve ns' 0 cs = resolve ns 0 cs" using snoc by simp
      show ?thesis
      proof (cases "resolve ns 0 cs")
        case None
        then show ?thesis using step [of k] step0 [of k] eq p(2) by auto
      next
        case (Some j)
        then have j: "j < length ns" using resolve_bound [OF t len(1)] by blast
        show ?thesis
        proof (cases "j = p")
          case False
          then have "cs \<noteq> ds" using Some p(2) by auto
          then show ?thesis using step [of k] step0 [of k] eq Some T(4) [OF j False] nm kb [OF j] by auto
        next
          case True
          then have "cs = ds" using resolve_inj [OF t len(1) _ p(2)] Some by simp
          then show ?thesis
            using step [of k] step0 [of k] eq Some True T(2) nm kb [OF j] A(2) n(2) by auto
        qed
      qed
    qed
    then show ?case by (cases "resolve ns' 0 (cs @ [c])") (metis option.exhaust)+
  qed simp
qed

subsection \<open>Unlinking a node\<close>

text \<open>
  The walk of \<open>vfs_unlink\<close> over the links: \<open>link\<close> is the parent's \<open>first_child\<close> (\<open>None\<close>) or the
  \<open>next_sibling\<close> of a node; \<open>set_link\<close> stores into it.
\<close>

partial_function (option) unlink_from :: "vfs_node list \<Rightarrow> u8 list \<Rightarrow> nat option \<Rightarrow> nat option \<Rightarrow> (nat option \<times> nat) option option" where
  "unlink_from ns name prev p =
     (if p = None then Some None
      else if vn_name (ns ! the p) = name then Some (Some (prev, the p))
      else unlink_from ns name p (vn_next_sibling (ns ! the p)))"

definition set_link :: "nat \<Rightarrow> nat option \<Rightarrow> nat option \<Rightarrow> vfs_node list \<Rightarrow> vfs_node list" where
  "set_link parent prev v ns =
     (case prev of
        None \<Rightarrow> ns[parent := (ns ! parent)\<lparr>vn_first_child := v\<rparr>]
      | Some q \<Rightarrow> ns[q := (ns ! q)\<lparr>vn_next_sibling := v\<rparr>])"

lemma unlink_from_None:
  "chain ns p zs \<Longrightarrow> \<forall>k \<in> set zs. vn_name (ns ! k) \<noteq> name \<Longrightarrow> unlink_from ns name prev p = Some None"
  by (induction zs arbitrary: p prev) (simp_all add: unlink_from.simps)

lemma unlink_from_Some:
  "chain ns p (xs @ k # ys) \<Longrightarrow> \<forall>i \<in> set xs. vn_name (ns ! i) \<noteq> name \<Longrightarrow> vn_name (ns ! k) = name \<Longrightarrow>
     unlink_from ns name prev p = Some (Some (if xs = [] then prev else Some (last xs), k))"
  by (induction xs arbitrary: p prev) (simp_all add: unlink_from.simps)

lemma set_link_nth:
  assumes "prev = None \<or> prev = Some q" "parent < length ns" "q < length ns"
  shows "length (set_link parent prev v ns) = length ns"
    and "vn_name (set_link parent prev v ns ! i) = vn_name (ns ! i)" "vn_parent (set_link parent prev v ns ! i) = vn_parent (ns ! i)"
    and "vn_type (set_link parent prev v ns ! i) = vn_type (ns ! i)" "data_ok (set_link parent prev v ns ! i) = data_ok (ns ! i)"
    and "vn_first_child (set_link parent prev v ns ! i) = (if prev = None \<and> i = parent then v else vn_first_child (ns ! i))"
    and "vn_next_sibling (set_link parent prev v ns ! i) = (if prev = Some i then v else vn_next_sibling (ns ! i))"
  using assms by (cases "i = parent"; cases "i = q"; auto simp: set_link_def data_ok_def)+

lemma unlink_tree:
  assumes t: "tree_ok ns" and p: "p < length ns" and k: "kids ns p = xs @ k # ys"
  defines "ns' \<equiv> set_link p (if xs = [] then None else Some (last xs)) (vn_next_sibling (ns ! k)) ns"
  shows "tree_ok ns'" "kids ns' p = xs @ ys" "\<And>i. i < length ns \<Longrightarrow> i \<noteq> p \<Longrightarrow> kids ns' i = kids ns i"
proof -
  have node: "node_ok ns i" if "i < length ns" for i using t that by (simp add: tree_ok_def)
  note D = node_okD [OF node [OF p]]
  let ?prev = "if xs = [] then None else Some (last xs)"
  have q: "last (p # xs) < length ns" using D(4) p k by (cases xs) auto
  have lx: "xs \<noteq> [] \<Longrightarrow> last (p # xs) = last xs" by simp
  have pq: "?prev = None \<or> ?prev = Some (last (p # xs))" by simp
  note S = set_link_nth [OF pq p q, of "vn_next_sibling (ns ! k)", folded ns'_def]
  have ch: "chain ns' (vn_first_child (ns' ! p)) (xs @ ys)"
  proof (cases "xs = []")
    case True
    have "chain ns (vn_next_sibling (ns ! k)) ys" using D(1) k True by simp
    then have "chain ns' (vn_next_sibling (ns ! k)) ys" by (rule chain_cong) (simp_all add: S True)
    then show ?thesis using True S(6) by simp
  next
    case False
    have "ns' = ns[last xs := (ns ! last xs)\<lparr>vn_next_sibling := vn_next_sibling (ns ! k)\<rparr>]"
      using False by (simp add: ns'_def set_link_def)
    then show ?thesis using chain_unlink [OF D(1) [unfolded k] D(3) [unfolded k] False] S(6) False by simp
  qed
  have nm: "map (\<lambda>i. vn_name (ns' ! i)) zs = map (\<lambda>i. vn_name (ns ! i)) zs" for zs by (simp add: S)
  have P: "node_ok ns' p \<and> kids ns' p = xs @ ys"
  proof -
    have 2: "distinct (map (\<lambda>i. vn_name (ns' ! i)) (xs @ ys))" using D(2) k unfolding nm by simp
    have 3: "p < i \<and> vn_parent (ns' ! i) = Some p \<and> comp_ok (vn_name (ns' ! i))" if "i \<in> set (xs @ ys)" for i
      using D(4) [of i] that k by (auto simp: S)
    have 4: "xs @ ys \<noteq> [] \<Longrightarrow> vn_type (ns' ! p) = VFS_NODE_DIR" "data_ok (ns' ! p)" using D(5,6) k by (auto simp: S)
    show ?thesis using node_okI [OF ch 2 3 4] by blast
  qed
  have O: "node_ok ns' i \<and> kids ns' i = kids ns i" if i: "i < length ns" "i \<noteq> p" for i
  proof -
    note E = node_okD [OF node [OF i(1)]]
    have "last xs \<notin> set (kids ns i)" if "xs \<noteq> []"
      using E(4) [of "last xs"] D(4) [of "last xs"] k i(2) that by auto
    then have "j \<in> set (kids ns i) \<Longrightarrow> vn_next_sibling (ns' ! j) = vn_next_sibling (ns ! j)" for j
      using S(7) by auto
    then have "chain ns' (vn_first_child (ns ! i)) (kids ns i)" using S(1) by (intro chain_cong [OF E(1)]) auto
    then have 1: "chain ns' (vn_first_child (ns' ! i)) (kids ns i)" using S(6) i by simp
    have 2: "distinct (map (\<lambda>i. vn_name (ns' ! i)) (kids ns i))" unfolding nm by (rule E(2))
    have 3: "i < j \<and> vn_parent (ns' ! j) = Some i \<and> comp_ok (vn_name (ns' ! j))" if "j \<in> set (kids ns i)" for j
      using E(4) [OF that] by (simp add: S)
    have 4: "kids ns i \<noteq> [] \<Longrightarrow> vn_type (ns' ! i) = VFS_NODE_DIR" "data_ok (ns' ! i)" using E(5,6) by (simp_all add: S)
    show ?thesis using node_okI [OF 1 2 3 4] by blast
  qed
  show "tree_ok ns'" unfolding tree_ok_def S(1) using P O by metis
  show "kids ns' p = xs @ ys" "\<And>i. i < length ns \<Longrightarrow> i \<noteq> p \<Longrightarrow> kids ns' i = kids ns i" using P O by blast+
qed

lemma unlink_resolve:
  assumes t: "tree_ok ns" and p: "resolve ns 0 ds = Some p" "ns \<noteq> []"
    and k: "kids ns p = xs @ k # ys" "kids ns k = []"
  defines "ns' \<equiv> set_link p (if xs = [] then None else Some (last xs)) (vn_next_sibling (ns ! k)) ns"
  shows "resolve ns' 0 cs = (if cs = ds @ [vn_name (ns ! k)] then None else resolve ns 0 cs)"
proof -
  have len: "0 < length ns" using p(2) by simp
  have p': "p < length ns" using resolve_bound [OF t len p(1)] by simp
  note D = node_okD [of ns p, OF t [unfolded tree_ok_def, rule_format, OF p']]
  note U = unlink_tree [OF t p' k(1), folded ns'_def]
  have q: "last (p # xs) < length ns" using D(4) p' k by (cases xs) auto
  have pq: "(if xs = [] then None else Some (last xs)) = None \<or> (if xs = [] then None else Some (last xs)) = Some (last (p # xs))" by simp
  note S = set_link_nth [OF pq p' q, of "vn_next_sibling (ns ! k)", folded ns'_def]
  have len': "0 < length ns'" using len S(1) by simp
  have kset: "set (kids ns' p) = set (kids ns p) - {k}" using U(2) D(3) k(1) by auto
  have kr: "resolve ns 0 (ds @ [vn_name (ns ! k)]) = Some k" using resolve_snoc [OF t len] p(1) k(1) by auto
  show ?thesis
  proof (induction cs rule: rev_induct)
    case (snoc c cs)
    have step: "resolve ns' 0 (cs @ [c]) = Some j \<longleftrightarrow> (\<exists>i. resolve ns' 0 cs = Some i \<and> j \<in> set (kids ns' i) \<and> vn_name (ns ! j) = c)" for j
      using resolve_snoc [OF U(1) len', of cs c j] by (simp add: S(2))
    have step0: "resolve ns 0 (cs @ [c]) = Some j \<longleftrightarrow> (\<exists>i. resolve ns 0 cs = Some i \<and> j \<in> set (kids ns i) \<and> vn_name (ns ! j) = c)" for j
      by (rule resolve_snoc [OF t len])
    have "resolve ns' 0 (cs @ [c]) = Some j \<longleftrightarrow> (if cs @ [c] = ds @ [vn_name (ns ! k)] then None else resolve ns 0 (cs @ [c])) = Some j" for j
    proof (cases "resolve ns 0 cs")
      case None
      then show ?thesis using step [of j] step0 [of j] snoc p(1) by auto
    next
      case (Some i)
      then have i: "i < length ns" using resolve_bound [OF t len] by blast
      consider "i = p" | "i = k" "i \<noteq> p" | "i \<noteq> p" "i \<noteq> k" by blast
      then show ?thesis
      proof cases
        case 1
        then have cs: "cs = ds" using resolve_inj [OF t len _ p(1)] Some by simp
        have uniq: "vn_name (ns ! j) = vn_name (ns ! k) \<Longrightarrow> j \<in> set (kids ns p) \<Longrightarrow> j = k"
          using kr resolve_snoc [OF t len, of ds "vn_name (ns ! k)" j] p(1) by simp
        show ?thesis using step [of j] step0 [of j] snoc Some 1 cs kset uniq by auto
      next
        case 2
        then have "cs = ds @ [vn_name (ns ! k)]" using resolve_inj [OF t len _ kr] Some by simp
        then show ?thesis using step [of j] step0 [of j] snoc Some 2 k(2) by auto
      next
        case 3
        then have "cs \<noteq> ds \<and> cs \<noteq> ds @ [vn_name (ns ! k)]" using Some p(1) kr by auto
        then show ?thesis using step [of j] step0 [of j] snoc Some U(3) [OF i 3(1)] by auto
      qed
    qed
    then show ?case by (cases "resolve ns' 0 (cs @ [c])") (metis option.exhaust)+
  qed simp
qed

subsection \<open>Two small states\<close>

text \<open>The static variables at boot, and a root directory alone.\<close>

definition fs_boot :: fs_state where
  "fs_boot = \<lparr>fs_nodes = [], fs_root = None, fs_clock = 0, fs_persistent = False, fs_auto_sync = False, fs_syncing = False,
     fs_device = [], fs_start_lba = 0, fs_last_size = 0,
     fs_heap = [(0x100000, KERNEL_HEAP_SIZE - sizeof_hb, True)], fs_disks = []\<rparr>"

definition dir_node :: vfs_node where
  "dir_node = \<lparr>vn_name = [], vn_type = VFS_NODE_DIR, vn_mode = VFS_S_IFDIR OR 0x1ed, vn_uid = 0, vn_gid = 0, vn_size = 0,
     vn_created = 1, vn_modified = 1, vn_data = None, vn_borrowed = False, vn_parent = None, vn_first_child = None, vn_next_sibling = None\<rparr>"

definition root_fs :: fs_state where
  "root_fs = fs_boot\<lparr>fs_nodes := [dir_node], fs_root := Some 0, fs_clock := 1\<rparr>"

text \<open>The root directory with one file \<open>/f\<close> of four bytes.\<close>

definition file_fs :: fs_state where
  "file_fs = root_fs\<lparr>fs_nodes := [dir_node\<lparr>vn_first_child := Some 1\<rparr>,
     dir_node\<lparr>vn_name := bytes_of ''f'', vn_type := VFS_NODE_FILE, vn_size := 4, vn_data := Some [1, 2, 3, 4, 0], vn_parent := Some 0\<rparr>]\<rparr>"

lemma root_fs_inv: "fs_inv root_fs"
  by (simp add: fs_inv_def node_ok_def kids_def root_fs_def fs_boot_def dir_node_def VFS_MAX_NODES_def data_ok_def)

lemma file_fs_inv: "fs_inv file_fs"
  by (simp add: fs_inv_def node_ok_def kids_def file_fs_def root_fs_def fs_boot_def dir_node_def VFS_MAX_NODES_def data_ok_def
      All_less_Suc comp_ok_def bytes_of_def VFS_NAME_MAX_def)

end
