(* ===== verification/Tfs.thy ===== *)
theory Tfs
  imports Vfs
begin

text \<open>
  Saving the file system to disk, the first half of \<open>kernel/fs/tfs.c\<close>: \<open>tfs_sync\<close> walks the tree
  with \<open>collect_node\<close>, builds the header and the entry table of a TFS image, and writes them
  and the files' bytes through the block layer.  The log lines are left out.

  \<open>header_buf\<close> is the list of its bytes; \<open>ctx.image\<close>, which \<open>tfs_sync\<close> sets to NULL with
  \<open>image_size\<close> 0, is the empty list.
\<close>

definition TFS_SECTOR_SIZE :: u64 where "TFS_SECTOR_SIZE = 512"
definition TFS_TABLE_ALIGN :: u64 where "TFS_TABLE_ALIGN = 4096"
definition TFS_MAX_ENTRIES :: nat where "TFS_MAX_ENTRIES = 1024"
definition TFS_PATH_MAX :: nat where "TFS_PATH_MAX = 256"
definition TFS_MAGIC :: "u8 list" where "TFS_MAGIC = bytes_of ''TFS1TNU'' @ [0]"
definition TFS_VERSION :: nat where "TFS_VERSION = 1"
definition TFS_ENTRY_DIR :: u32 where "TFS_ENTRY_DIR = 1"
definition TFS_ENTRY_FILE :: u32 where "TFS_ENTRY_FILE = 2"

definition sizeof_header :: nat where "sizeof_header = 32"
definition sizeof_entry :: nat where "sizeof_entry = 296"

record tfs_entry =
  te_type :: u32
  te_mode :: u32
  te_uid :: u32
  te_gid :: u32
  te_size :: u64
  te_offset :: u64
  te_mtime :: u64
  te_path :: "u8 list"

record collect_ctx =
  cc_entries :: "tfs_entry list"
  cc_capacity :: nat
  cc_cursor :: u64
  cc_image :: "u8 list"
  cc_image_size :: u64
  cc_failed :: bool

definition align_up64 :: "u64 \<Rightarrow> u64 \<Rightarrow> u64" where
  "align_up64 value align = (value + align - 1) AND NOT (align - 1)"

text \<open>The layout of the packed structures, little-endian.\<close>

definition header_bytes :: "nat \<Rightarrow> u64 \<Rightarrow> u64 \<Rightarrow> u8 list" where
  "header_bytes count entries_offset data_offset =
     TFS_MAGIC @ to_le 4 TFS_VERSION @ to_le 4 count @ to_le 8 (unat entries_offset) @ to_le 8 (unat data_offset)"

definition entry_bytes :: "tfs_entry \<Rightarrow> u8 list" where
  "entry_bytes e =
     to_le 4 (unat (te_type e)) @ to_le 4 (unat (te_mode e)) @ to_le 4 (unat (te_uid e)) @ to_le 4 (unat (te_gid e)) @
     to_le 8 (unat (te_size e)) @ to_le 8 (unat (te_offset e)) @ to_le 8 (unat (te_mtime e)) @
     te_path e @ replicate (TFS_PATH_MAX - length (te_path e)) 0"

subsection \<open>The path of a node\<close>

text \<open>The names from a node up to the root, at most \<open>k\<close> of them, outermost first.\<close>

primrec path_parts :: "nat \<Rightarrow> vfs_node list \<Rightarrow> nat option \<Rightarrow> nat option \<Rightarrow> u8 list list \<Rightarrow> u8 list list" where
  "path_parts 0 ns root n parts = parts"
| "path_parts (Suc k) ns root n parts =
     (case n of
        None \<Rightarrow> parts
      | Some i \<Rightarrow> if n = root then parts else path_parts k ns root (vn_parent (ns ! i)) (vn_name (ns ! i) # parts))"

fun join_parts :: "u8 list \<Rightarrow> u8 list list \<Rightarrow> u8 list option" where
  "join_parts out [] = Some out"
| "join_parts out (c # cs) =
     (if length out + length c + 2 \<ge> TFS_PATH_MAX then None else join_parts (out @ [slash] @ c) cs)"

definition copy_path_for_node :: "vfs_node list \<Rightarrow> nat option \<Rightarrow> nat \<Rightarrow> u8 list option" where
  "copy_path_for_node ns root node =
     (if Some node = root then Some [slash]
      else let parts = path_parts 32 ns root (Some node) [] in
        if length parts = 0 \<or> length parts \<ge> 32 then None else join_parts [] parts)"

subsection \<open>Collecting the entries\<close>

text \<open>\<open>memcpy\<close> into the image; outside of it the copy is an error.\<close>

definition image_copy :: "u8 list \<Rightarrow> nat \<Rightarrow> u8 list \<Rightarrow> u8 list option" where
  "image_copy img at bs =
     (if at + length bs \<le> length img then Some (take at img @ bs @ drop (at + length bs) img) else None)"

definition copy_file_data :: "collect_ctx \<Rightarrow> vfs_node \<Rightarrow> tfs_entry \<Rightarrow> (collect_ctx \<times> tfs_entry) option" where
  "copy_file_data ctx node entry =
     (if vn_size node = 0 then Some (ctx, entry\<lparr>te_offset := cc_cursor ctx, te_size := 0\<rparr>)
      else
        let fin = cc_cursor ctx + vn_size node in
        if fin > cc_image_size ctx \<or> vn_data node = None then Some (ctx\<lparr>cc_failed := True\<rparr>, entry)
        else if length (the (vn_data node)) < unat (vn_size node) then None
        else case image_copy (cc_image ctx) (unat (cc_cursor ctx)) (take (unat (vn_size node)) (the (vn_data node))) of
               None \<Rightarrow> None
             | Some img \<Rightarrow> Some (ctx\<lparr>cc_image := img, cc_cursor := align_up64 fin 16\<rparr>,
                                entry\<lparr>te_offset := cc_cursor ctx, te_size := vn_size node\<rparr>))"

definition is_pseudo :: "u8 list \<Rightarrow> bool" where
  "is_pseudo path \<longleftrightarrow> path = bytes_of ''/dev'' \<or> take 5 path = bytes_of ''/dev/'' \<or>
     path = bytes_of ''/proc'' \<or> take 6 path = bytes_of ''/proc/''"

text \<open>
  \<open>collect_node\<close> up to its call of \<open>vfs_list\<close>; the flag says whether the children are listed.
\<close>

definition collect_visit :: "vfs_node list \<Rightarrow> nat option \<Rightarrow> nat \<Rightarrow> collect_ctx \<Rightarrow> (collect_ctx \<times> bool) option" where
  "collect_visit ns root i ctx =
     (let node = ns ! i in
      if cc_failed ctx then Some (ctx, False)
      else case copy_path_for_node ns root i of
        None \<Rightarrow> Some (ctx\<lparr>cc_failed := True\<rparr>, False)
      | Some path \<Rightarrow>
          if is_pseudo path then Some (ctx, vn_type node = VFS_NODE_DIR)
          else if vn_type node \<noteq> VFS_NODE_DIR \<and> vn_type node \<noteq> VFS_NODE_FILE then Some (ctx, False)
          else if length (cc_entries ctx) \<ge> cc_capacity ctx then Some (ctx\<lparr>cc_failed := True\<rparr>, False)
          else
            let entry = \<lparr>te_type = (if vn_type node = VFS_NODE_DIR then TFS_ENTRY_DIR else TFS_ENTRY_FILE),
                         te_mode = vn_mode node AND 0xfff, te_uid = vn_uid node, te_gid = vn_gid node,
                         te_size = 0, te_offset = 0, te_mtime = vn_modified node,
                         te_path = take (TFS_PATH_MAX - 1) path\<rparr> in
            if vn_type node = VFS_NODE_FILE then
              (case copy_file_data ctx node entry of
                 None \<Rightarrow> None
               | Some (ctx', entry') \<Rightarrow> Some (ctx'\<lparr>cc_entries := cc_entries ctx' @ [entry']\<rparr>, False))
            else Some (ctx\<lparr>cc_entries := cc_entries ctx @ [entry]\<rparr>, True))"

text \<open>\<open>collect_node\<close> on a node, its subtree and the siblings that follow it.\<close>

partial_function (option) collect_chain :: "vfs_node list \<Rightarrow> nat option \<Rightarrow> nat option \<Rightarrow> collect_ctx \<Rightarrow> collect_ctx option" where
  "collect_chain ns root p ctx =
     (if p = None then Some ctx
      else Option.bind (collect_visit ns root (the p) ctx) (\<lambda>(ctx1, descend).
        Option.bind (if descend then collect_chain ns root (vn_first_child (ns ! the p)) ctx1 else Some ctx1)
          (\<lambda>ctx2. collect_chain ns root (vn_next_sibling (ns ! the p)) ctx2)))"

text \<open>\<open>vfs_list(vfs_root(), collect_node, &ctx)\<close>.\<close>

definition collect_root :: "fs_state \<Rightarrow> collect_ctx \<Rightarrow> collect_ctx option" where
  "collect_root s ctx =
     (case fs_root s of
        None \<Rightarrow> Some ctx
      | Some r \<Rightarrow> if vn_type (fs_nodes s ! r) \<noteq> VFS_NODE_DIR then Some ctx
                  else collect_chain (fs_nodes s) (fs_root s) (vn_first_child (fs_nodes s ! r)) ctx)"

subsection \<open>Writing to the disk\<close>

definition write_image_to_disk :: "fs_state \<Rightarrow> u8 list \<Rightarrow> u64 \<Rightarrow> fs_state \<times> bool" where
  "write_image_to_disk s img image_size =
     (let rounded = (image_size + TFS_SECTOR_SIZE - 1) AND NOT (TFS_SECTOR_SIZE - 1);
          img' = (if rounded > image_size
                    then take (unat image_size) img @ replicate (unat rounded - unat image_size) 0 @ drop (unat rounded) img
                    else img);
          (disks, ok) = block_write_lba28 (fs_disks s) (fs_device s) (ucast (fs_start_lba s)) (take (unat rounded) img') in
      if \<not> ok then (s\<lparr>fs_disks := disks\<rparr>, False)
      else (s\<lparr>fs_disks := disks, fs_last_size := rounded\<rparr>, True))"

function stream_data :: "ata_device list \<Rightarrow> u8 list \<Rightarrow> u64 \<Rightarrow> u64 \<Rightarrow> u8 list \<Rightarrow> ata_device list" where
  "stream_data disks dev start file_offset bs =
     (if bs = [] then disks
      else
        let chunk = take 512 bs;
            abs_lba = start + file_offset div TFS_SECTOR_SIZE;
            w = block_write_lba28 disks dev (ucast abs_lba) (chunk @ replicate (512 - length chunk) 0) in
        if \<not> snd w then fst w
        else stream_data (fst w) dev start (file_offset + word_of_nat (length chunk)) (drop 512 bs))"
  by auto
termination
  by (relation "measure (\<lambda>(d, n, s, f, b). length b)") simp_all

declare stream_data.simps [simp del]

fun stream_entries :: "fs_state \<Rightarrow> tfs_entry list \<Rightarrow> fs_state option" where
  "stream_entries s [] = Some s"
| "stream_entries s (e # es) =
     (if te_type e \<noteq> TFS_ENTRY_FILE \<or> te_size e = 0 then stream_entries s es
      else case vfs_lookup s (Some (te_path e)) (Some (bytes_of ''/'')) of
        None \<Rightarrow> None
      | Some None \<Rightarrow> stream_entries s es
      | Some (Some i) \<Rightarrow>
          (case vn_data (fs_nodes s ! i) of
             None \<Rightarrow> stream_entries s es
           | Some d \<Rightarrow>
               if length d < unat (te_size e) then None
               else stream_entries (s\<lparr>fs_disks := stream_data (fs_disks s) (fs_device s) (fs_start_lba s) (te_offset e)
                                                   (take (unat (te_size e)) d)\<rparr>) es))"

text \<open>Header, entry table and file data, once the entries are collected.\<close>

definition tfs_write_out :: "fs_state \<Rightarrow> collect_ctx \<Rightarrow> nat \<Rightarrow> u64 \<Rightarrow> u64 \<Rightarrow> (fs_state \<times> int) option" where
  "tfs_write_out s ctx header_buf_size entries_offset data_offset =
     (let final_size = align_up64 (cc_cursor ctx) TFS_SECTOR_SIZE;
          final_size = (if final_size < data_offset then data_offset else final_size);
          hdr = header_bytes (length (cc_entries ctx)) entries_offset data_offset;
          table = concat (map entry_bytes (cc_entries ctx));
          img = hdr @ replicate (unat entries_offset - length hdr) 0 @ table @
                  replicate (header_buf_size - unat entries_offset - length table) 0;
          (s1, ok) = write_image_to_disk s img data_offset in
      if \<not> ok then Some (s1, -1)
      else (case stream_entries s1 (cc_entries ctx) of
              None \<Rightarrow> None
            | Some s2 \<Rightarrow> Some (s2\<lparr>fs_last_size := final_size\<rparr>, 0)))"

definition tfs_sync :: "fs_state \<Rightarrow> (fs_state \<times> int) option" where
  "tfs_sync s =
     (if \<not> fs_persistent s then Some (s, 0)
      else if fs_device s = [] then Some (s, 0)
      else if fs_syncing s then Some (s, 0)
      else if \<not> block_device_find (fs_disks s) (fs_device s) then Some (s, -1)
      else
        let header_buf_size = unat TFS_TABLE_ALIGN + TFS_MAX_ENTRIES * sizeof_entry + unat TFS_SECTOR_SIZE in
        case a_kmalloc (fs_heap s) header_buf_size of
          None \<Rightarrow> Some (s, -1)
        | Some (header_buf, heap) \<Rightarrow>
            let entries_offset = TFS_TABLE_ALIGN;
                data_offset = align_up64 (entries_offset + word_of_nat (TFS_MAX_ENTRIES * sizeof_entry)) TFS_TABLE_ALIGN;
                ctx = \<lparr>cc_entries = [], cc_capacity = TFS_MAX_ENTRIES, cc_cursor = data_offset,
                       cc_image = [], cc_image_size = 0, cc_failed = False\<rparr> in
            (case collect_root s ctx of
               None \<Rightarrow> None
             | Some ctx \<Rightarrow>
                 (case (if cc_failed ctx then Some (s, -1)
                        else tfs_write_out s ctx header_buf_size entries_offset data_offset) of
                    None \<Rightarrow> None
                  | Some (s', rc) \<Rightarrow> Some (s'\<lparr>fs_heap := a_kfree heap header_buf\<rparr>, rc))))"

text \<open>
  \<open>sync_in_progress\<close> is set while \<open>tfs_sync\<close> runs and cleared on every return, so that it is
  unchanged here; nothing that \<open>tfs_sync\<close> calls reads it.
\<close>

definition tfs_set_auto_sync :: "bool \<Rightarrow> fs_state \<Rightarrow> fs_state" where
  "tfs_set_auto_sync enabled s = s\<lparr>fs_auto_sync := enabled\<rparr>"

definition tfs_sync_if_mounted :: "fs_state \<Rightarrow> (fs_state \<times> int) option" where
  "tfs_sync_if_mounted s =
     (if \<not> fs_persistent s \<or> \<not> fs_auto_sync s \<or> fs_syncing s then Some (s, 0) else tfs_sync s)"

subsection \<open>Paths of nodes in the tree\<close>

lemma path_parts_resolve:
  assumes t: "tree_ok ns" and l: "0 < length ns"
  shows "resolve ns 0 cs = Some i \<Longrightarrow> path_parts k ns (Some 0) (Some i) parts = drop (length cs - k) cs @ parts"
proof (induction cs arbitrary: i k parts rule: rev_induct)
  case Nil
  then show ?case by (cases k) simp_all
next
  case (snoc c cs)
  then obtain j where j: "resolve ns 0 cs = Some j" "i \<in> set (kids ns j)" "vn_name (ns ! i) = c"
    using resolve_snoc [OF t l] by auto
  have "node_ok ns j" using resolve_bound [OF t l j(1)] t by (simp add: tree_ok_def)
  then have p: "j < i" "vn_parent (ns ! i) = Some j" using node_okD(4) j(2) by blast+
  show ?case
  proof (cases k)
    case (Suc k')
    then show ?thesis using snoc.IH [OF j(1)] p j(3) by (simp add: Suc_diff_le)
  qed simp
qed

lemma join_parts_path: "join_parts out cs = Some p \<Longrightarrow> p = out @ concat (map (\<lambda>c. slash # c) cs)"
  by (induction out cs rule: join_parts.induct) (auto split: if_splits)

lemma copy_path_resolve:
  assumes "tree_ok ns" "0 < length ns" "resolve ns 0 cs = Some i" "cs \<noteq> []" "copy_path_for_node ns (Some 0) i = Some p"
  shows "p = path_str cs"
proof -
  have "i \<noteq> 0" using resolve_inj [OF assms(1,2,3), of "[]"] assms(4) by auto
  then have "length (drop (length cs - 32) cs) < 32" "join_parts [] (drop (length cs - 32) cs) = Some p"
    using assms(5) path_parts_resolve [OF assms(1-3), of 32 "[]"]
    by (auto simp: copy_path_for_node_def Let_def split: if_splits)
  then have "join_parts [] cs = Some p" by (cases "length cs \<le> 32") auto
  then show ?thesis using join_parts_path [of "[]" cs p] assms(4) by (simp add: path_str_def)
qed

lemma component_prefix:
  assumes "slash \<notin> set c" "slash \<notin> set d" "c @ xs = d @ ys" "xs = [] \<or> hd xs = slash" "ys = [] \<or> hd ys = slash"
  shows "c = d"
proof -
  have "takeWhile (\<lambda>x. x \<noteq> slash) (b @ zs) = b" if "slash \<notin> set b" "zs = [] \<or> hd zs = slash" for b zs
  proof -
    have "takeWhile (\<lambda>x. x \<noteq> slash) zs = []" using that(2) by (cases zs) auto
    moreover have "\<And>x. x \<in> set b \<Longrightarrow> x \<noteq> slash" using that(1) by auto
    ultimately show ?thesis by (simp add: takeWhile_append2)
  qed
  from this [OF assms(1,4)] this [OF assms(2,5)] show ?thesis using assms(3) by metis
qed

lemma pseudo_top:
  assumes "comp_ok c" "is_pseudo (path_str (c # cs))"
  shows "c = bytes_of ''dev'' \<or> c = bytes_of ''proc''"
proof -
  let ?r = "concat (map (\<lambda>c. slash # c) cs)"
  have r: "?r = [] \<or> hd ?r = slash" by (cases cs) simp_all
  have c: "slash \<notin> set c" using comp_okD [OF assms(1)] by simp
  have p: "path_str (c # cs) = slash # c @ ?r" by (simp add: path_str_def)
  have d: "slash \<notin> set (bytes_of ''dev'')" "slash \<notin> set (bytes_of ''proc'')" by (simp_all add: bytes_of_def)
  have "\<exists>ys. (ys = [] \<or> hd ys = slash) \<and> (c @ ?r = bytes_of ''dev'' @ ys \<or> c @ ?r = bytes_of ''proc'' @ ys)"
  proof -
    consider "c @ ?r = bytes_of ''dev''" | "take 4 (c @ ?r) = bytes_of ''dev/''"
      | "c @ ?r = bytes_of ''proc''" | "take 5 (c @ ?r) = bytes_of ''proc/''"
      using assms(2) unfolding is_pseudo_def p by (auto simp: bytes_of_def)
    then show ?thesis
    proof cases
      case 1
      then show ?thesis by (intro exI [of _ "[]"]) simp
    next
      case 2
      then have "c @ ?r = bytes_of ''dev'' @ slash # drop 4 (c @ ?r)"
        using append_take_drop_id [of 4 "c @ ?r"] by (simp add: bytes_of_def)
      moreover have "slash # drop 4 (c @ ?r) = [] \<or> hd (slash # drop 4 (c @ ?r)) = slash" by simp
      ultimately show ?thesis by blast
    next
      case 3
      then show ?thesis by (intro exI [of _ "[]"]) simp
    next
      case 4
      then have "c @ ?r = bytes_of ''proc'' @ slash # drop 5 (c @ ?r)"
        using append_take_drop_id [of 5 "c @ ?r"] by (simp add: bytes_of_def)
      moreover have "slash # drop 5 (c @ ?r) = [] \<or> hd (slash # drop 5 (c @ ?r)) = slash" by simp
      ultimately show ?thesis by blast
    qed
  qed
  then show ?thesis using component_prefix [OF c d(1) _ r] component_prefix [OF c d(2) _ r] by blast
qed

subsection \<open>The walk over the tree\<close>

abbreviation DATA_OFFSET :: u64 where "DATA_OFFSET \<equiv> 307200"

text \<open>The context as \<open>tfs_sync\<close> leaves it: no image, and only files without bytes collected.\<close>

definition ctx_ok :: "collect_ctx \<Rightarrow> bool" where
  "ctx_ok ctx \<longleftrightarrow> cc_image ctx = [] \<and> cc_image_size ctx = 0 \<and> cc_cursor ctx = DATA_OFFSET \<and>
     (\<forall>e \<in> set (cc_entries ctx). te_size e = 0)"

lemma cursor_not_zero:
  assumes "unat (n :: u64) < 2 ^ 63"
  shows "DATA_OFFSET + n \<noteq> 0"
proof
  assume "DATA_OFFSET + n = 0"
  then have "unat (DATA_OFFSET + n) = 0" by simp
  moreover have "unat (DATA_OFFSET + n) = 307200 + unat n"
    using assms by (subst unat_word_ariths) simp
  ultimately show False by simp
qed

lemma copy_file_data_ok:
  assumes "ctx_ok ctx" "data_ok node" "te_size e = 0"
  shows "\<exists>ctx' e'. copy_file_data ctx node e = Some (ctx', e') \<and> ctx_ok ctx' \<and> te_size e' = 0 \<and>
     cc_entries ctx' = cc_entries ctx \<and> cc_failed ctx' = (cc_failed ctx \<or> vn_size node \<noteq> 0)"
proof (cases "vn_size node = 0")
  case False
  then have "cc_cursor ctx + vn_size node > cc_image_size ctx"
    using assms cursor_not_zero [of "vn_size node"] by (simp add: ctx_ok_def data_ok_def word_gt_0)
  then show ?thesis using False assms by (simp add: copy_file_data_def ctx_ok_def Let_def)
qed (use assms in \<open>simp add: copy_file_data_def ctx_ok_def\<close>)

lemma collect_visit_ok:
  assumes c: "ctx_ok ctx" and d: "data_ok (ns ! i)"
  shows "\<exists>ctx' b. collect_visit ns root i ctx = Some (ctx', b) \<and> ctx_ok ctx' \<and> (cc_failed ctx \<longrightarrow> cc_failed ctx' \<and> \<not> b) \<and>
     (b \<longrightarrow> vn_type (ns ! i) = VFS_NODE_DIR) \<and>
     (\<forall>p. copy_path_for_node ns root i = Some p \<and> \<not> is_pseudo p \<longrightarrow>
        (vn_type (ns ! i) = VFS_NODE_FILE \<and> vn_size (ns ! i) \<noteq> 0 \<longrightarrow> cc_failed ctx') \<and>
        (vn_type (ns ! i) = VFS_NODE_DIR \<longrightarrow> b \<or> cc_failed ctx')) \<and>
     (copy_path_for_node ns root i = None \<longrightarrow> cc_failed ctx')"
proof -
  let ?e = "\<lambda>p. \<lparr>te_type = (if vn_type (ns ! i) = VFS_NODE_DIR then TFS_ENTRY_DIR else TFS_ENTRY_FILE),
       te_mode = vn_mode (ns ! i) AND 0xfff, te_uid = vn_uid (ns ! i), te_gid = vn_gid (ns ! i),
       te_size = 0, te_offset = 0, te_mtime = vn_modified (ns ! i), te_path = take (TFS_PATH_MAX - 1) p\<rparr>"
  have F: "\<exists>ctx' e'. copy_file_data ctx (ns ! i) (?e p) = Some (ctx', e') \<and> ctx_ok ctx' \<and> te_size e' = 0 \<and>
     cc_entries ctx' = cc_entries ctx \<and> cc_failed ctx' = (cc_failed ctx \<or> vn_size (ns ! i) \<noteq> 0)" for p
    by (rule copy_file_data_ok [OF c d]) simp
  consider "cc_failed ctx" | "\<not> cc_failed ctx" "copy_path_for_node ns root i = None"
    | p where "\<not> cc_failed ctx" "copy_path_for_node ns root i = Some p" "vn_type (ns ! i) \<noteq> VFS_NODE_FILE \<or> is_pseudo p"
    | p where "\<not> cc_failed ctx" "copy_path_for_node ns root i = Some p" "vn_type (ns ! i) = VFS_NODE_FILE" "\<not> is_pseudo p"
    by (cases "copy_path_for_node ns root i") auto
  then show ?thesis
  proof cases
    case 3
    then show ?thesis using c by (auto simp: collect_visit_def Let_def ctx_ok_def)
  next
    case 4
    obtain ctx' e' where E: "copy_file_data ctx (ns ! i) (?e p) = Some (ctx', e')" "ctx_ok ctx'" "te_size e' = 0"
      "cc_failed ctx' = (cc_failed ctx \<or> vn_size (ns ! i) \<noteq> 0)"
      using F [of p] by blast
    show ?thesis
    proof (cases "length (cc_entries ctx) \<ge> cc_capacity ctx")
      case True
      then show ?thesis using 4 c by (auto simp: collect_visit_def Let_def ctx_ok_def)
    next
      case False
      have "collect_visit ns root i ctx = Some (ctx'\<lparr>cc_entries := cc_entries ctx' @ [e']\<rparr>, False)"
        unfolding collect_visit_def Let_def using 4 False E(1) by simp
      then show ?thesis using E 4 by (auto simp: ctx_ok_def)
    qed
  qed (use c in \<open>auto simp: collect_visit_def Let_def ctx_ok_def\<close>)
qed

lemma resolve_comp_ok:
  "tree_ok ns \<Longrightarrow> i < length ns \<Longrightarrow> resolve ns i cs = Some k \<Longrightarrow> c \<in> set cs \<Longrightarrow> comp_ok c"
proof (induction cs arbitrary: k rule: rev_induct)
  case (snoc d cs)
  obtain j where j: "resolve ns i cs = Some j" "k \<in> set (kids ns j)" "vn_name (ns ! k) = d"
    using snoc resolve_snoc by blast
  have "node_ok ns j" using resolve_bound [OF snoc(2,3) j(1)] snoc(2) by (simp add: tree_ok_def)
  then have "comp_ok d" using node_okD(4) j(2,3) by blast
  then show ?case using snoc j(1) by auto
qed simp

text \<open>A regular file with bytes, below node \<open>k\<close>.\<close>

definition full_file_below :: "vfs_node list \<Rightarrow> nat \<Rightarrow> bool" where
  "full_file_below ns k \<longleftrightarrow>
     (\<exists>es j. resolve ns k es = Some j \<and> vn_type (ns ! j) = VFS_NODE_FILE \<and> vn_size (ns ! j) \<noteq> 0)"

definition pseudo_name :: "u8 list \<Rightarrow> bool" where
  "pseudo_name c \<longleftrightarrow> c = bytes_of ''dev'' \<or> c = bytes_of ''proc''"

lemma collect_visit_full:
  assumes t: "tree_ok ns" "0 < length ns" and r: "resolve ns 0 (ds @ [vn_name (ns ! k)]) = Some k"
    and v: "collect_visit ns (Some 0) k ctx = Some (ctx1, b)" and c: "ctx_ok ctx"
    and np: "\<not> pseudo_name (hd (ds @ [vn_name (ns ! k)]))" and nf: "\<not> cc_failed ctx1" and full: "full_file_below ns k"
  shows "b \<and> (\<exists>m \<in> set (kids ns k). full_file_below ns m)"
proof -
  let ?cs = "ds @ [vn_name (ns ! k)]"
  have k: "k < length ns" using resolve_bound [OF t r] by simp
  then have n: "node_ok ns k" using t(1) by (simp add: tree_ok_def)
  note V = collect_visit_ok [OF c node_okD(6) [OF n], of "Some 0"]
  obtain p where p: "copy_path_for_node ns (Some 0) k = Some p" using V v nf by auto
  then have "p = path_str ?cs" using copy_path_resolve [OF t r] by simp
  moreover obtain h hs where h: "?cs = h # hs" by (cases ?cs) auto
  moreover have "comp_ok h" using resolve_comp_ok [OF t r] h by simp
  ultimately have "\<not> is_pseudo p" using pseudo_top [of h hs] np h by (auto simp: pseudo_name_def)
  then have fl: "vn_type (ns ! k) = VFS_NODE_FILE \<Longrightarrow> vn_size (ns ! k) = 0" and dir: "vn_type (ns ! k) = VFS_NODE_DIR \<Longrightarrow> b"
    using V v nf p by auto
  obtain es j where e: "resolve ns k es = Some j" "vn_type (ns ! j) = VFS_NODE_FILE" "vn_size (ns ! j) \<noteq> 0"
    using full by (auto simp: full_file_below_def)
  obtain m ms where m: "es = m # ms" using e fl by (cases es) auto
  obtain q where q: "find (\<lambda>x. vn_name (ns ! x) = m) (kids ns k) = Some q" "resolve ns q ms = Some j"
    using e(1) m by (auto split: option.splits)
  have "q \<in> set (kids ns k)" using q(1) find_kids_Some [OF n] by blast
  moreover have "full_file_below ns q" using q(2) e by (auto simp: full_file_below_def)
  moreover have "b" using dir node_okD(5) [OF n] calculation(1) by (cases "kids ns k") simp_all
  ultimately show ?thesis by blast
qed

lemma collect_chain_ok:
  assumes t: "tree_ok ns" "0 < length ns"
  shows "resolve ns 0 ds = Some i \<Longrightarrow> set xs \<subseteq> set (kids ns i) \<Longrightarrow> chain ns p xs \<Longrightarrow> ctx_ok ctx \<Longrightarrow>
    \<exists>ctx'. collect_chain ns (Some 0) p ctx = Some ctx' \<and> ctx_ok ctx' \<and> (cc_failed ctx \<longrightarrow> cc_failed ctx') \<and>
      (\<forall>k \<in> set xs. \<not> pseudo_name (hd (ds @ [vn_name (ns ! k)])) \<and> full_file_below ns k \<longrightarrow> cc_failed ctx')"
proof (induction "length ns - i" arbitrary: i ds xs p ctx rule: less_induct)
  case less
  have i: "i < length ns" using resolve_bound [OF t less.prems(1)] by simp
  show ?case
    using less.prems(2-4)
  proof (induction xs arbitrary: p ctx)
    case Nil
    then show ?case by (simp add: collect_chain.simps)
  next
    case (Cons k xs)
    have k: "k \<in> set (kids ns i)" "p = Some k" "k < length ns" "i < k" "chain ns (vn_next_sibling (ns ! k)) xs"
      using Cons.prems node_okD(4) [of ns i k] t(1) i by (auto simp: tree_ok_def)
    have n: "node_ok ns k" using t(1) k(3) by (simp add: tree_ok_def)
    let ?cs = "ds @ [vn_name (ns ! k)]"
    have r: "resolve ns 0 ?cs = Some k" using resolve_snoc [OF t] less.prems(1) k(1) by auto
    obtain ctx1 b where v: "collect_visit ns (Some 0) k ctx = Some (ctx1, b)" "ctx_ok ctx1" "cc_failed ctx \<longrightarrow> cc_failed ctx1"
      using collect_visit_ok [OF Cons.prems(3) node_okD(6) [OF n], of "Some 0"] by auto
    have "length ns - k < length ns - i" using k by arith
    from less.hyps [OF this r subset_refl node_okD(1) [OF n] v(2)]
    obtain ctxd where d: "collect_chain ns (Some 0) (vn_first_child (ns ! k)) ctx1 = Some ctxd" "ctx_ok ctxd"
      "cc_failed ctx1 \<longrightarrow> cc_failed ctxd"
      "\<forall>m \<in> set (kids ns k). \<not> pseudo_name (hd (?cs @ [vn_name (ns ! m)])) \<and> full_file_below ns m \<longrightarrow> cc_failed ctxd"
      by auto
    define ctx2 where "ctx2 = (if b then ctxd else ctx1)"
    have c2: "(if b then collect_chain ns (Some 0) (vn_first_child (ns ! k)) ctx1 else Some ctx1) = Some ctx2"
      "ctx_ok ctx2" "cc_failed ctx1 \<longrightarrow> cc_failed ctx2"
      using d v by (simp_all add: ctx2_def)
    have f2: "cc_failed ctx2" if np: "\<not> pseudo_name (hd ?cs)" and ff: "full_file_below ns k"
    proof (cases "cc_failed ctx1")
      case False
      have h: "hd (?cs @ zs) = hd ?cs" for zs by (cases ds) simp_all
      obtain m where m: "b" "m \<in> set (kids ns k)" "full_file_below ns m"
        using collect_visit_full [OF t r v(1) Cons.prems(3) np False ff] by blast
      have "cc_failed ctxd" using d(4) [rule_format, OF m(2)] m(3) np by (simp only: h) simp
      then show ?thesis using m(1) by (simp add: ctx2_def)
    qed (use c2 in simp)
    obtain ctx' where rest: "collect_chain ns (Some 0) (vn_next_sibling (ns ! k)) ctx2 = Some ctx'" "ctx_ok ctx'"
      "cc_failed ctx2 \<longrightarrow> cc_failed ctx'"
      "\<forall>k \<in> set xs. \<not> pseudo_name (hd (ds @ [vn_name (ns ! k)])) \<and> full_file_below ns k \<longrightarrow> cc_failed ctx'"
      using Cons.IH [OF _ k(5) c2(2)] Cons.prems(1) by auto
    have "collect_chain ns (Some 0) p ctx = Some ctx'"
      using k(2) v(1) c2(1) rest(1) by (subst collect_chain.simps) (auto split: if_splits)
    then show ?case using rest v c2 f2 by auto
  qed
qed

subsection \<open>What a sync does\<close>

lemma data_offset: "align_up64 (TFS_TABLE_ALIGN + word_of_nat (TFS_MAX_ENTRIES * sizeof_entry)) TFS_TABLE_ALIGN = DATA_OFFSET"
  by (simp add: align_up64_def TFS_TABLE_ALIGN_def TFS_MAX_ENTRIES_def sizeof_entry_def)

lemma stream_entries_empty: "\<forall>e \<in> set es. te_size e = 0 \<Longrightarrow> stream_entries s es = Some s"
  by (induction es) simp_all

lemma collect_root_ok:
  assumes inv: "fs_inv s"
  shows "\<exists>ctx. collect_root s \<lparr>cc_entries = [], cc_capacity = n, cc_cursor = DATA_OFFSET, cc_image = [],
             cc_image_size = 0, cc_failed = False\<rparr> = Some ctx \<and> ctx_ok ctx \<and>
           ((\<exists>cs i. resolve (fs_nodes s) 0 cs = Some i \<and> vn_type (fs_nodes s ! i) = VFS_NODE_FILE \<and>
               vn_size (fs_nodes s ! i) \<noteq> 0 \<and> cs \<noteq> [] \<and> \<not> pseudo_name (hd cs)) \<longrightarrow> cc_failed ctx)"
proof -
  let ?ns = "fs_nodes s"
  note D = fs_invD [OF inv]
  have n: "node_ok ?ns 0" using D by (simp add: tree_ok_def)
  have r: "resolve ?ns 0 [] = Some 0" by simp
  let ?ctx = "\<lparr>cc_entries = [], cc_capacity = n, cc_cursor = DATA_OFFSET, cc_image = [], cc_image_size = 0, cc_failed = False\<rparr>"
  have c: "ctx_ok ?ctx" by (simp add: ctx_ok_def)
  obtain ctx where ctx: "collect_chain ?ns (Some 0) (vn_first_child (?ns ! 0)) ?ctx = Some ctx" "ctx_ok ctx"
    "\<forall>k \<in> set (kids ?ns 0). \<not> pseudo_name (hd ([] @ [vn_name (?ns ! k)])) \<and> full_file_below ?ns k \<longrightarrow> cc_failed ctx"
    using collect_chain_ok [OF D(3,2) r subset_refl node_okD(1) [OF n] c] by auto
  have "cc_failed ctx" if f: "resolve ?ns 0 cs = Some i" "vn_type (?ns ! i) = VFS_NODE_FILE" "vn_size (?ns ! i) \<noteq> 0"
    "cs \<noteq> []" "\<not> pseudo_name (hd cs)" for cs i
  proof -
    obtain c' cs' where cs: "cs = c' # cs'" using f(4) by (cases cs) auto
    then obtain k where k: "find (\<lambda>x. vn_name (?ns ! x) = c') (kids ?ns 0) = Some k" "resolve ?ns k cs' = Some i"
      using f(1) by (auto split: option.splits)
    then have "full_file_below ?ns k" using f(2,3) by (auto simp: full_file_below_def)
    then show ?thesis using ctx(3) k(1) find_kids_Some [OF n] f(5) cs by auto
  qed
  then show ?thesis using ctx(1,2) D(1,4) by (auto simp: collect_root_def)
qed

text \<open>Everything that a sync can change is the disk, the heap and the recorded size.\<close>

definition same_files :: "fs_state \<Rightarrow> fs_state \<Rightarrow> bool" where
  "same_files s s' \<longleftrightarrow> fs_nodes s' = fs_nodes s \<and> fs_root s' = fs_root s \<and> fs_clock s' = fs_clock s \<and>
     fs_persistent s' = fs_persistent s \<and> fs_auto_sync s' = fs_auto_sync s \<and> fs_syncing s' = fs_syncing s \<and>
     fs_device s' = fs_device s \<and> fs_start_lba s' = fs_start_lba s"

lemma write_image_same: "same_files s (fst (write_image_to_disk s img n))"
  by (simp add: write_image_to_disk_def same_files_def Let_def split: prod.split)

lemma tfs_write_out_same:
  assumes "\<forall>e \<in> set (cc_entries ctx). te_size e = 0"
  shows "\<exists>s' rc. tfs_write_out s ctx n eo do = Some (s', rc) \<and> same_files s s'"
proof -
  obtain s1 ok img where w: "write_image_to_disk s img do = (s1, ok)" "img = header_bytes (length (cc_entries ctx)) eo do @
      replicate (unat eo - length (header_bytes (length (cc_entries ctx)) eo do)) 0 @ concat (map entry_bytes (cc_entries ctx)) @
      replicate (n - unat eo - length (concat (map entry_bytes (cc_entries ctx)))) 0"
    by (cases "write_image_to_disk s (header_bytes (length (cc_entries ctx)) eo do @
      replicate (unat eo - length (header_bytes (length (cc_entries ctx)) eo do)) 0 @ concat (map entry_bytes (cc_entries ctx)) @
      replicate (n - unat eo - length (concat (map entry_bytes (cc_entries ctx)))) 0) do") blast
  have "same_files s s1" using write_image_same [of s img do] w(1) by simp
  then show ?thesis using stream_entries_empty [OF assms, of s1]
    unfolding tfs_write_out_def Let_def w(2) [symmetric] w(1) by (cases ok) (simp_all add: same_files_def)
qed

lemma tfs_sync_cases:
  assumes inv: "fs_inv s"
  shows "\<exists>s' rc. tfs_sync s = Some (s', rc) \<and> same_files s s' \<and>
     ((\<exists>cs i. resolve (fs_nodes s) 0 cs = Some i \<and> vn_type (fs_nodes s ! i) = VFS_NODE_FILE \<and>
         vn_size (fs_nodes s ! i) \<noteq> 0 \<and> cs \<noteq> [] \<and> \<not> pseudo_name (hd cs)) \<longrightarrow>
      fs_disks s' = fs_disks s \<and> (fs_persistent s \<and> fs_device s \<noteq> [] \<and> \<not> fs_syncing s \<longrightarrow> rc = -1))"
proof (cases "\<not> fs_persistent s \<or> fs_device s = [] \<or> fs_syncing s \<or> \<not> block_device_find (fs_disks s) (fs_device s) \<or>
    a_kmalloc (fs_heap s) (unat TFS_TABLE_ALIGN + TFS_MAX_ENTRIES * sizeof_entry + unat TFS_SECTOR_SIZE) = None")
  case True
  then show ?thesis by (auto simp: tfs_sync_def same_files_def Let_def)
next
  case False
  then obtain buf heap where m:
    "a_kmalloc (fs_heap s) (unat TFS_TABLE_ALIGN + TFS_MAX_ENTRIES * sizeof_entry + unat TFS_SECTOR_SIZE) = Some (buf, heap)"
    by auto
  obtain ctx where c: "collect_root s \<lparr>cc_entries = [], cc_capacity = TFS_MAX_ENTRIES, cc_cursor = DATA_OFFSET,
      cc_image = [], cc_image_size = 0, cc_failed = False\<rparr> = Some ctx" "ctx_ok ctx"
    "(\<exists>cs i. resolve (fs_nodes s) 0 cs = Some i \<and> vn_type (fs_nodes s ! i) = VFS_NODE_FILE \<and>
         vn_size (fs_nodes s ! i) \<noteq> 0 \<and> cs \<noteq> [] \<and> \<not> pseudo_name (hd cs)) \<longrightarrow> cc_failed ctx"
    using collect_root_ok [OF inv] by blast
  have sz: "\<forall>e \<in> set (cc_entries ctx). te_size e = 0" using c(2) by (simp add: ctx_ok_def)
  show ?thesis
  proof (cases "cc_failed ctx")
    case True
    then have "tfs_sync s = Some (s\<lparr>fs_heap := a_kfree heap buf\<rparr>, -1)"
      unfolding tfs_sync_def Let_def data_offset using False m c(1) by simp
    then show ?thesis by (simp add: same_files_def)
  next
    case nf: False
    obtain s1 rc where w: "tfs_write_out s ctx (unat TFS_TABLE_ALIGN + TFS_MAX_ENTRIES * sizeof_entry + unat TFS_SECTOR_SIZE)
        TFS_TABLE_ALIGN DATA_OFFSET = Some (s1, rc)" "same_files s s1"
      using tfs_write_out_same [OF sz] by blast
    then have "tfs_sync s = Some (s1\<lparr>fs_heap := a_kfree heap buf\<rparr>, rc)"
      unfolding tfs_sync_def Let_def data_offset using False m c(1) nf by simp
    moreover have "same_files s (s1\<lparr>fs_heap := a_kfree heap buf\<rparr>)" using w(2) by (simp add: same_files_def)
    ultimately show ?thesis using nf c(3) by blast
  qed
qed

lemma tfs_sync_if_mounted_same:
  assumes "fs_inv s"
  obtains s' rc where "tfs_sync_if_mounted s = Some (s', rc)" "same_files s s'"
  using tfs_sync_cases [OF assms] that by (auto simp: tfs_sync_if_mounted_def same_files_def split: if_splits)

text \<open>
  C13: \<open>tfs_sync\<close> saves no file system that holds a file.  It returns in every well-formed state
  and changes no file; but once persistence is on and there is a regular file with at least one
  byte outside \<open>/dev\<close> and \<open>/proc\<close>, it returns -1 and leaves every disk as it was, because
  \<open>copy_file_data\<close> compares the end of the file with \<open>ctx.image_size\<close>, which is 0.
\<close>

theorem tfs_sync_never_saves:
  assumes "fs_inv s" and "fs_persistent s" "fs_device s \<noteq> []" "\<not> fs_syncing s"
    and "resolve (fs_nodes s) 0 cs = Some i" "vn_type (fs_nodes s ! i) = VFS_NODE_FILE" "vn_size (fs_nodes s ! i) \<noteq> 0"
    and "cs \<noteq> []" "hd cs \<noteq> bytes_of ''dev''" "hd cs \<noteq> bytes_of ''proc''"
  shows "\<exists>s'. tfs_sync s = Some (s', -1) \<and> fs_disks s' = fs_disks s \<and> fs_nodes s' = fs_nodes s"
proof -
  have "\<exists>cs i. resolve (fs_nodes s) 0 cs = Some i \<and> vn_type (fs_nodes s ! i) = VFS_NODE_FILE \<and>
         vn_size (fs_nodes s ! i) \<noteq> 0 \<and> cs \<noteq> [] \<and> \<not> pseudo_name (hd cs)"
    using assms(5-10) unfolding pseudo_name_def by blast
  then show ?thesis using tfs_sync_cases [OF assms(1)] assms(2-4) by (auto simp: same_files_def)
qed

theorem tfs_sync_never_saves_witness:
  "\<exists>s'. tfs_sync (file_fs\<lparr>fs_persistent := True, fs_device := bytes_of ''sda''\<rparr>) = Some (s', -1) \<and> fs_disks s' = []"
proof -
  let ?s = "file_fs\<lparr>fs_persistent := True, fs_device := bytes_of ''sda''\<rparr>"
  have inv: "fs_inv ?s" using file_fs_inv by (simp add: fs_inv_def)
  have r: "resolve (fs_nodes ?s) 0 [bytes_of ''f''] = Some 1"
    by (simp add: file_fs_def root_fs_def fs_boot_def dir_node_def kids_def bytes_of_def)
  have f: "vn_type (fs_nodes ?s ! 1) = VFS_NODE_FILE" "vn_size (fs_nodes ?s ! 1) \<noteq> 0" "\<not> fs_syncing ?s" "fs_disks ?s = []"
    by (simp_all add: file_fs_def root_fs_def fs_boot_def dir_node_def)
  have "\<exists>s'. tfs_sync ?s = Some (s', -1) \<and> fs_disks s' = fs_disks ?s \<and> fs_nodes s' = fs_nodes ?s"
    by (rule tfs_sync_never_saves [OF inv _ _ f(3) r f(1,2)]) (simp_all add: bytes_of_def)
  then show ?thesis using f(4) by auto
qed

end
