(* ===== verification/Vfs_Ops.thy ===== *)
theory Vfs_Ops
  imports Tfs
begin

text \<open>
  The operations of \<open>kernel/fs/vfs.c\<close> that change the tree or a file, with the calls of
  \<open>tfs_sync_if_mounted\<close> they end with, and \<open>vfs_init\<close>.  A result is the new state and the
  return code; \<open>Some\<close> says that the operation returns.

  The specification is a map from paths (lists of components) to the type, mode, owner and
  contents found there; the operations act on it as updates of single paths.
\<close>

subsection \<open>The operations\<close>

text \<open>The common body of \<open>vfs_mkdir\<close> and \<open>vfs_create_file\<close>.\<close>

definition vfs_add :: "vfs_node_type \<Rightarrow> fs_state \<Rightarrow> u8 list option \<Rightarrow> u8 list option \<Rightarrow> u32 \<Rightarrow> u32 \<Rightarrow> u32 \<Rightarrow> (fs_state \<times> int) option" where
  "vfs_add type s path cwd mode uid gid =
     (case parent_and_name s path cwd of
        None \<Rightarrow> None
      | Some None \<Rightarrow> Some (s, -1)
      | Some (Some (parent, name)) \<Rightarrow>
          (case find_child (fs_nodes s) parent name of
             None \<Rightarrow> None
           | Some (Some _) \<Rightarrow> Some (s, -2)
           | Some None \<Rightarrow>
               (case alloc_node s name type mode uid gid of
                  None \<Rightarrow> Some (s, -3)
                | Some (node, s1) \<Rightarrow>
                    map_option (\<lambda>(s2, _). (s2, 0))
                      (tfs_sync_if_mounted (s1\<lparr>fs_nodes := attach_child parent node (fs_nodes s1)\<rparr>)))))"

definition vfs_mkdir :: "fs_state \<Rightarrow> u8 list option \<Rightarrow> u8 list option \<Rightarrow> u32 \<Rightarrow> u32 \<Rightarrow> u32 \<Rightarrow> (fs_state \<times> int) option" where
  "vfs_mkdir = vfs_add VFS_NODE_DIR"

definition vfs_create_file :: "fs_state \<Rightarrow> u8 list option \<Rightarrow> u8 list option \<Rightarrow> u32 \<Rightarrow> u32 \<Rightarrow> u32 \<Rightarrow> (fs_state \<times> int) option" where
  "vfs_create_file = vfs_add VFS_NODE_FILE"

text \<open>A change of node \<open>i\<close> followed by the sync; the code ignores what the sync returns.\<close>

definition set_node_sync :: "fs_state \<Rightarrow> nat \<Rightarrow> (vfs_node \<Rightarrow> vfs_node) \<Rightarrow> (fs_state \<times> int) option" where
  "set_node_sync s i f =
     (let t = fs_clock s + 1 in
      map_option (\<lambda>(s2, _). (s2, 0))
        (tfs_sync_if_mounted (s\<lparr>fs_nodes := (fs_nodes s)[i := (f (fs_nodes s ! i))\<lparr>vn_modified := t\<rparr>], fs_clock := t\<rparr>)))"

text \<open>\<open>vfs_write_file\<close> once the node is found or created.\<close>

definition write_contents :: "fs_state \<Rightarrow> nat option \<Rightarrow> u8 list \<Rightarrow> (fs_state \<times> int) option" where
  "write_contents s node data =
     (case node of
        None \<Rightarrow> Some (s, -1)
      | Some i \<Rightarrow>
          if vn_type (fs_nodes s ! i) \<noteq> VFS_NODE_FILE \<and> vn_type (fs_nodes s ! i) \<noteq> VFS_NODE_PROC then Some (s, -1)
          else if data = [] then
            set_node_sync s i (\<lambda>n. n\<lparr>vn_data := None, vn_borrowed := False, vn_size := 0\<rparr>)
          else (case a_kmalloc (fs_heap s) (szadd (length data) 1) of
                  None \<Rightarrow> Some (s, -2)
                | Some (_, heap) \<Rightarrow>
                    set_node_sync (s\<lparr>fs_heap := heap\<rparr>) i
                      (\<lambda>n. n\<lparr>vn_data := Some (data @ [0]), vn_borrowed := False, vn_size := word_of_nat (length data)\<rparr>)))"

definition vfs_write_file :: "fs_state \<Rightarrow> u8 list option \<Rightarrow> u8 list option \<Rightarrow> u8 list \<Rightarrow> (fs_state \<times> int) option" where
  "vfs_write_file s path cwd data =
     (case vfs_lookup s path cwd of
        None \<Rightarrow> None
      | Some (Some i) \<Rightarrow> write_contents s (Some i) data
      | Some None \<Rightarrow>
          (case vfs_create_file s path cwd (VFS_S_IFREG OR 0x1a4) 0 0 of
             None \<Rightarrow> None
           | Some (s1, rc) \<Rightarrow>
               if rc < 0 then Some (s1, rc)
               else (case vfs_lookup s1 path cwd of
                       None \<Rightarrow> None
                     | Some node \<Rightarrow> write_contents s1 node data)))"

definition vfs_unlink :: "fs_state \<Rightarrow> u8 list option \<Rightarrow> u8 list option \<Rightarrow> (fs_state \<times> int) option" where
  "vfs_unlink s path cwd =
     (case parent_and_name s path cwd of
        None \<Rightarrow> None
      | Some None \<Rightarrow> Some (s, -1)
      | Some (Some (parent, name)) \<Rightarrow>
          (case unlink_from (fs_nodes s) name None (vn_first_child (fs_nodes s ! parent)) of
             None \<Rightarrow> None
           | Some None \<Rightarrow> Some (s, -1)
           | Some (Some (prev, i)) \<Rightarrow>
               if vn_first_child (fs_nodes s ! i) \<noteq> None then Some (s, -2)
               else set_node_sync (s\<lparr>fs_nodes := set_link parent prev (vn_next_sibling (fs_nodes s ! i)) (fs_nodes s)\<rparr>)
                      parent (\<lambda>n. n)))"

definition vfs_chmod :: "fs_state \<Rightarrow> u8 list option \<Rightarrow> u8 list option \<Rightarrow> u32 \<Rightarrow> (fs_state \<times> int) option" where
  "vfs_chmod s path cwd mode =
     (case vfs_lookup s path cwd of
        None \<Rightarrow> None
      | Some None \<Rightarrow> Some (s, -1)
      | Some (Some i) \<Rightarrow> set_node_sync s i (\<lambda>n. n\<lparr>vn_mode := (vn_mode n AND 0xf000) OR (mode AND 0xfff)\<rparr>))"

definition vfs_chown :: "fs_state \<Rightarrow> u8 list option \<Rightarrow> u8 list option \<Rightarrow> u32 \<Rightarrow> u32 \<Rightarrow> (fs_state \<times> int) option" where
  "vfs_chown s path cwd uid gid =
     (case vfs_lookup s path cwd of
        None \<Rightarrow> None
      | Some None \<Rightarrow> Some (s, -1)
      | Some (Some i) \<Rightarrow> set_node_sync s i (\<lambda>n. n\<lparr>vn_uid := uid, vn_gid := gid\<rparr>))"

record vfs_stat_buf =
  st_mode :: u32
  st_uid :: u32
  st_gid :: u32
  st_size :: u64
  st_modified :: u64
  st_device :: u64
  st_inode :: u64
  st_type :: vfs_node_type

definition vfs_stat :: "fs_state \<Rightarrow> u8 list option \<Rightarrow> u8 list option \<Rightarrow> vfs_stat_buf option option" where
  "vfs_stat s path cwd =
     map_option (map_option (\<lambda>i. let n = fs_nodes s ! i in
       \<lparr>st_mode = vn_mode n, st_uid = vn_uid n, st_gid = vn_gid n, st_size = vn_size n,
        st_modified = vn_modified n, st_device = 1, st_inode = vn_created n, st_type = vn_type n\<rparr>))
       (vfs_lookup s path cwd)"

text \<open>
  \<open>vfs_read_node\<close> returns the bytes it copies, or an error code; the copy must lie inside the
  node's buffer.
\<close>

definition vfs_read_node :: "fs_state \<Rightarrow> nat option \<Rightarrow> u64 \<Rightarrow> nat \<Rightarrow> (int + u8 list) option" where
  "vfs_read_node s node off count =
     (case node of
        None \<Rightarrow> Some (Inl (-1))
      | Some i \<Rightarrow>
          let n = fs_nodes s ! i in
          if vn_type n = VFS_NODE_DIR then Some (Inl (-1))
          else if off \<ge> vn_size n then Some (Inr [])
          else
            let available = unat (vn_size n - off);
                count = (if count > available then available else count) in
            case vn_data n of
              None \<Rightarrow> None
            | Some d \<Rightarrow> if unat off + count \<le> length d then Some (Inr (take count (drop (unat off) d))) else None)"

text \<open>
  The buffer \<open>vfs_write_node\<close> copies into: the old one, or a new one with the old bytes, zeros up
  to the end of the write and a final zero.  A size without a buffer, whose bytes would stay
  uninitialised, and a copy past the end of the old buffer are errors.
\<close>

definition grow_data :: "vfs_node \<Rightarrow> u64 \<Rightarrow> u64 \<Rightarrow> u8 list option" where
  "grow_data n fin new_size =
     (if vn_size n = 0 then Some (replicate (unat fin) 0 @ [0])
      else case vn_data n of
        None \<Rightarrow> None
      | Some d \<Rightarrow>
          if length d < unat (vn_size n) then None
          else Some (take (unat (vn_size n)) d @
                     (if new_size > vn_size n then replicate (unat (fin - vn_size n)) 0 else []) @ [0]))"

text \<open>The reallocation at the start of \<open>vfs_write_node\<close>; \<open>Some None\<close> says that \<open>kmalloc\<close> failed.\<close>

definition write_buffer :: "ablk list \<Rightarrow> vfs_node \<Rightarrow> u64 \<Rightarrow> (ablk list \<times> vfs_node) option option" where
  "write_buffer heap n fin =
     (if fin > vn_size n \<or> vn_borrowed n then
        let new_size = (if fin > vn_size n then fin else vn_size n) in
        case a_kmalloc heap (unat (new_size + 1)) of
          None \<Rightarrow> Some None
        | Some (_, heap') \<Rightarrow>
            map_option (\<lambda>d. Some (heap', n\<lparr>vn_data := Some d, vn_size := new_size, vn_borrowed := False\<rparr>))
              (grow_data n fin new_size)
      else Some (Some (heap, n)))"

definition vfs_write_node :: "fs_state \<Rightarrow> nat option \<Rightarrow> u64 \<Rightarrow> u8 list \<Rightarrow> (fs_state \<times> int) option" where
  "vfs_write_node s node off buf =
     (case node of
        None \<Rightarrow> Some (s, -1)
      | Some i \<Rightarrow>
          if vn_type (fs_nodes s ! i) \<noteq> VFS_NODE_FILE then Some (s, -1)
          else
            case write_buffer (fs_heap s) (fs_nodes s ! i) (off + word_of_nat (length buf)) of
              None \<Rightarrow> None
            | Some None \<Rightarrow> Some (s, -1)
            | Some (Some (heap, n)) \<Rightarrow>
                let d = (case vn_data n of None \<Rightarrow> [] | Some d \<Rightarrow> d) in
                if length buf \<noteq> 0 \<and> unat off + length buf > length d then None
                else
                  let t = fs_clock s + 1;
                      d' = (if buf = [] then vn_data n else Some (take (unat off) d @ buf @ drop (unat off + length buf) d)) in
                  Some (s\<lparr>fs_nodes := (fs_nodes s)[i := n\<lparr>vn_data := d', vn_modified := t\<rparr>], fs_clock := t, fs_heap := heap\<rparr>,
                        int (length buf)))"

text \<open>The nodes \<open>vfs_list\<close> passes to its callback, in order.\<close>

partial_function (option) list_from :: "vfs_node list \<Rightarrow> nat option \<Rightarrow> nat list option" where
  "list_from ns p =
     (if p = None then Some []
      else Option.bind (list_from ns (vn_next_sibling (ns ! the p))) (\<lambda>is. Some (the p # is)))"

definition vfs_list :: "fs_state \<Rightarrow> nat option \<Rightarrow> nat list option" where
  "vfs_list s dir =
     (case dir of
        None \<Rightarrow> Some []
      | Some i \<Rightarrow> if vn_type (fs_nodes s ! i) \<noteq> VFS_NODE_DIR then Some []
                  else list_from (fs_nodes s) (vn_first_child (fs_nodes s ! i)))"

definition init_dirs :: "(u8 list \<times> u32) list" where
  "init_dirs =
     [(bytes_of ''/bin'', 0x1ed), (bytes_of ''/sbin'', 0x1ed), (bytes_of ''/etc'', 0x1ed),
      (bytes_of ''/dev'', 0x1ed), (bytes_of ''/proc'', 0x1ed), (bytes_of ''/home'', 0x1ed),
      (bytes_of ''/root'', 0x1c0), (bytes_of ''/tmp'', 0x3ff), (bytes_of ''/usr'', 0x1ed),
      (bytes_of ''/var'', 0x1ed)]"

fun mkdirs :: "fs_state \<Rightarrow> (u8 list \<times> u32) list \<Rightarrow> fs_state option" where
  "mkdirs s [] = Some s"
| "mkdirs s ((path, mode) # ds) =
     (case vfs_mkdir s (Some path) (Some (bytes_of ''/'')) (VFS_S_IFDIR OR mode) 0 0 of
        None \<Rightarrow> None
      | Some (s', _) \<Rightarrow> mkdirs s' ds)"

definition vfs_init :: "fs_state \<Rightarrow> fs_state option" where
  "vfs_init s =
     (case alloc_node (s\<lparr>fs_nodes := [], fs_clock := 0\<rparr>) [] VFS_NODE_DIR (VFS_S_IFDIR OR 0x1ed) 0 0 of
        None \<Rightarrow> None
      | Some (r, s1) \<Rightarrow> mkdirs (s1\<lparr>fs_root := Some r\<rparr>) init_dirs)"

subsection \<open>The file system as a map\<close>

type_synonym vattr = "vfs_node_type \<times> u32 \<times> u32 \<times> u32 \<times> u8 list"

definition contents :: "vfs_node \<Rightarrow> u8 list" where
  "contents n = take (unat (vn_size n)) (case vn_data n of None \<Rightarrow> [] | Some d \<Rightarrow> d)"

definition node_view :: "vfs_node \<Rightarrow> vattr" where
  "node_view n = (vn_type n, vn_mode n, vn_uid n, vn_gid n, contents n)"

definition fs_map :: "fs_state \<Rightarrow> u8 list list \<Rightarrow> vattr option" where
  "fs_map s cs = map_option (\<lambda>i. node_view (fs_nodes s ! i)) (resolve (fs_nodes s) 0 cs)"

lemma fs_inv_same: "fs_inv s \<Longrightarrow> same_files s s' \<Longrightarrow> fs_inv s'"
  by (simp add: fs_inv_def same_files_def)

lemma fs_map_same: "same_files s s' \<Longrightarrow> fs_map s' = fs_map s"
  by (rule ext) (simp add: fs_map_def same_files_def)

lemma fs_inv_tree:
  "fs_inv s \<longleftrightarrow> fs_root s = Some 0 \<and> fs_nodes s \<noteq> [] \<and> length (fs_nodes s) \<le> VFS_MAX_NODES \<and>
     vn_type (fs_nodes s ! 0) = VFS_NODE_DIR \<and> tree_ok (fs_nodes s)"
  by (simp add: fs_inv_def tree_ok_def)

lemma sync_result:
  assumes "fs_inv s"
  obtains s' where "map_option (\<lambda>(s2, _). (s2, 0)) (tfs_sync_if_mounted s) = Some (s', 0 :: int)" "same_files s s'"
proof -
  obtain s' rc where "tfs_sync_if_mounted s = Some (s', rc)" "same_files s s'"
    using tfs_sync_if_mounted_same [OF assms] .
  then show ?thesis using that by simp
qed

text \<open>A change of one node that keeps its links and its type.\<close>

definition keeps_links :: "(vfs_node \<Rightarrow> vfs_node) \<Rightarrow> vfs_node \<Rightarrow> bool" where
  "keeps_links f n \<longleftrightarrow> vn_name (f n) = vn_name n \<and> vn_parent (f n) = vn_parent n \<and>
     vn_first_child (f n) = vn_first_child n \<and> vn_next_sibling (f n) = vn_next_sibling n \<and> vn_type (f n) = vn_type n \<and>
     (data_ok n \<longrightarrow> data_ok (f n))"

text \<open>
  What an operation does to the node pool: nodes keep their index and type, and a node that was
  there before is found only where it was before (no operation moves or links a node).
\<close>

definition tracks :: "fs_state \<Rightarrow> fs_state \<Rightarrow> bool" where
  "tracks s s' \<longleftrightarrow> length (fs_nodes s) \<le> length (fs_nodes s') \<and>
     (\<forall>i < length (fs_nodes s). vn_type (fs_nodes s' ! i) = vn_type (fs_nodes s ! i) \<and>
        (\<forall>cs. resolve (fs_nodes s') 0 cs = Some i \<longrightarrow> resolve (fs_nodes s) 0 cs = Some i))"

lemma tracks_refl [simp]: "tracks s s" by (simp add: tracks_def)

lemma tracks_trans: "tracks s s' \<Longrightarrow> tracks s' s'' \<Longrightarrow> tracks s s''"
  unfolding tracks_def using le_trans less_le_trans by metis

lemma tracks_same: "tracks s s' \<Longrightarrow> same_files s' s'' \<Longrightarrow> tracks s s''"
  by (simp add: tracks_def same_files_def)

lemma tracks_update:
  assumes "length (fs_nodes s') = length (fs_nodes s)" "\<And>cs. resolve (fs_nodes s') 0 cs = resolve (fs_nodes s) 0 cs"
    "\<And>i. i < length (fs_nodes s) \<Longrightarrow> vn_type (fs_nodes s' ! i) = vn_type (fs_nodes s ! i)"
  shows "tracks s s'"
  using assms by (simp add: tracks_def)

lemma update_node_inv:
  fixes t :: u64 and h :: "ablk list"
  assumes inv: "fs_inv s" and i: "i < length (fs_nodes s)" and f: "keeps_links f (fs_nodes s ! i)"
  defines "s' \<equiv> s\<lparr>fs_nodes := (fs_nodes s)[i := f (fs_nodes s ! i)], fs_clock := t, fs_heap := h\<rparr>"
  shows "fs_inv s'" "resolve (fs_nodes s') 0 cs = resolve (fs_nodes s) 0 cs" "tracks s s'"
proof -
  let ?ns = "fs_nodes s" and ?ns' = "fs_nodes s'"
  note D = fs_invD [OF inv]
  have ns': "?ns' = ?ns[i := f (?ns ! i)]" by (simp add: s'_def)
  have sl: "same_links ?ns ?ns'" using f i unfolding ns' same_links_def keeps_links_def by (auto simp: nth_list_update)
  have dt: "data_ok (?ns' ! k)" "vn_type (?ns' ! k) = vn_type (?ns ! k)" if "k < length ?ns" for k
  proof -
    have "data_ok (?ns ! k)" using D(3) that node_okD(6) by (auto simp: tree_ok_def)
    then show "data_ok (?ns' ! k)" "vn_type (?ns' ! k) = vn_type (?ns ! k)"
      using f i that unfolding ns' keeps_links_def by (cases "k = i"; simp)+
  qed
  have ty: "kids ?ns k \<noteq> [] \<Longrightarrow> vn_type (?ns' ! k) = VFS_NODE_DIR" if "k < length ?ns" for k
    using D(3) that node_okD(5) [of ?ns k] dt(2) [OF that] by (simp add: tree_ok_def)
  have T1: "tree_ok ?ns'" by (rule same_links_tree(1) [OF D(3) sl]) (use dt(1) ty in blast)+
  have R: "resolve ?ns' 0 cs = resolve ?ns 0 cs" for cs
    by (rule same_links_tree(3) [OF D(3) sl]) (use dt(1) ty D(2) in blast)+
  then show "resolve ?ns' 0 cs = resolve ?ns 0 cs" .
  show "tracks s s'" by (rule tracks_update [OF _ R dt(2)]) (simp add: ns')
  show "fs_inv s'" using T1 D dt(2) [OF D(2)] sl by (auto simp: fs_inv_tree s'_def same_links_def)
qed

lemma update_node_map:
  fixes t :: u64 and h :: "ablk list"
  assumes inv: "fs_inv s" and r: "resolve (fs_nodes s) 0 ds = Some i" and f: "keeps_links f (fs_nodes s ! i)"
  defines "s' \<equiv> s\<lparr>fs_nodes := (fs_nodes s)[i := f (fs_nodes s ! i)], fs_clock := t, fs_heap := h\<rparr>"
  shows "fs_inv s'" "fs_map s' = (fs_map s)(ds \<mapsto> node_view (f (fs_nodes s ! i)))" "tracks s s'"
proof -
  note D = fs_invD [OF inv]
  have i: "i < length (fs_nodes s)" using resolve_bound [OF D(3,2) r] by simp
  note U = update_node_inv [OF inv i f, where t = t and h = h, folded s'_def]
  show "fs_inv s'" "tracks s s'" by (rule U(1,3))+
  have n: "fs_nodes s' ! j = (if j = i then f (fs_nodes s ! i) else fs_nodes s ! j)" for j
    using i by (simp add: s'_def nth_list_update)
  have "resolve (fs_nodes s) 0 cs = Some i \<longleftrightarrow> cs = ds" for cs using resolve_inj [OF D(3,2) r] r by blast
  then show "fs_map s' = (fs_map s)(ds \<mapsto> node_view (f (fs_nodes s ! i)))"
  proof (intro ext)
    fix cs
    assume iff: "\<And>cs. resolve (fs_nodes s) 0 cs = Some i \<longleftrightarrow> cs = ds"
    show "fs_map s' cs = ((fs_map s)(ds \<mapsto> node_view (f (fs_nodes s ! i)))) cs"
      using iff [of cs] by (cases "resolve (fs_nodes s) 0 cs") (auto simp: fs_map_def U(2) n)
  qed
qed

lemma set_node_sync_ok:
  assumes inv: "fs_inv s" and r: "resolve (fs_nodes s) 0 ds = Some i"
    and f: "keeps_links f (fs_nodes s ! i)"
  shows "\<exists>s'. set_node_sync s i f = Some (s', 0) \<and> fs_inv s' \<and> fs_map s' = (fs_map s)(ds \<mapsto> node_view (f (fs_nodes s ! i))) \<and> tracks s s'"
proof -
  let ?t = "fs_clock s + 1" and ?f = "\<lambda>n. (f n)\<lparr>vn_modified := fs_clock s + 1\<rparr>"
  have "keeps_links ?f (fs_nodes s ! i)" using f by (simp add: keeps_links_def data_ok_def)
  from update_node_map [OF inv r this, where t = ?t and h = "fs_heap s"]
  have 1: "fs_inv (s\<lparr>fs_nodes := (fs_nodes s)[i := ?f (fs_nodes s ! i)], fs_clock := ?t\<rparr>)"
    and 2: "fs_map (s\<lparr>fs_nodes := (fs_nodes s)[i := ?f (fs_nodes s ! i)], fs_clock := ?t\<rparr>) =
      (fs_map s)(ds \<mapsto> node_view (f (fs_nodes s ! i)))"
    and 3: "tracks s (s\<lparr>fs_nodes := (fs_nodes s)[i := ?f (fs_nodes s ! i)], fs_clock := ?t\<rparr>)"
    by (simp_all add: node_view_def contents_def)
  obtain s' where "set_node_sync s i f = Some (s', 0)"
    "same_files (s\<lparr>fs_nodes := (fs_nodes s)[i := ?f (fs_nodes s ! i)], fs_clock := ?t\<rparr>) s'"
    using sync_result [OF 1] by (auto simp: set_node_sync_def Let_def)
  then show ?thesis using fs_inv_same [OF 1] fs_map_same 2 tracks_same [OF 3] by auto
qed

subsection \<open>What each operation does to the map\<close>

type_synonym vmap = "u8 list list \<Rightarrow> vattr option"

definition is_dir :: "vmap \<Rightarrow> u8 list list \<Rightarrow> bool" where
  "is_dir m cs = (case m cs of None \<Rightarrow> False | Some (t, _) \<Rightarrow> t = VFS_NODE_DIR)"

definition add_spec :: "vfs_node_type \<Rightarrow> u32 \<Rightarrow> u32 \<Rightarrow> u32 \<Rightarrow> u8 list list option \<Rightarrow> bool \<Rightarrow> vmap \<Rightarrow> vmap \<times> int" where
  "add_spec type mode uid gid path room m =
     (case path of
        None \<Rightarrow> (m, -1)
      | Some cs \<Rightarrow>
          if cs = [] \<or> \<not> is_dir m (butlast cs) then (m, -1)
          else if m cs \<noteq> None then (m, -2)
          else if \<not> room then (m, -3)
          else (m(cs \<mapsto> (type, mode, uid, gid, [])), 0))"

definition unlink_spec :: "u8 list list option \<Rightarrow> vmap \<Rightarrow> vmap \<times> int" where
  "unlink_spec path m =
     (case path of
        None \<Rightarrow> (m, -1)
      | Some cs \<Rightarrow>
          if cs = [] \<or> \<not> is_dir m (butlast cs) \<or> m cs = None then (m, -1)
          else if \<exists>c. m (cs @ [c]) \<noteq> None then (m, -2)
          else (m(cs := None), 0))"

definition attr_spec :: "(vattr \<Rightarrow> vattr) \<Rightarrow> u8 list list option \<Rightarrow> vmap \<Rightarrow> vmap \<times> int" where
  "attr_spec f path m =
     (case path of
        None \<Rightarrow> (m, -1)
      | Some cs \<Rightarrow> (case m cs of None \<Rightarrow> (m, -1) | Some a \<Rightarrow> (m(cs \<mapsto> f a), 0)))"

text \<open>\<open>mem\<close> says whether the heap has room for the contents.\<close>

definition write_spec :: "u8 list \<Rightarrow> u8 list list option \<Rightarrow> bool \<Rightarrow> bool \<Rightarrow> vmap \<Rightarrow> vmap \<times> int" where
  "write_spec data path room mem m =
     (let put = (\<lambda>cs m. case m cs of
                    None \<Rightarrow> (m, -1)
                  | Some (t, md, u, g, _) \<Rightarrow>
                      if t \<noteq> VFS_NODE_FILE \<and> t \<noteq> VFS_NODE_PROC then (m, -1)
                      else if \<not> mem then (m, -2)
                      else (m(cs \<mapsto> (t, md, u, g, data)), 0)) in
      case path of
        None \<Rightarrow> (m, -1)
      | Some cs \<Rightarrow>
          if m cs \<noteq> None then put cs m
          else case add_spec VFS_NODE_FILE (VFS_S_IFREG OR 0x1a4) 0 0 path room m of
                 (m', rc) \<Rightarrow> if rc < 0 then (m', rc) else put cs m')"

lemma is_dir_fs_map: "is_dir (fs_map s) cs \<longleftrightarrow> (\<exists>i. resolve (fs_nodes s) 0 cs = Some i \<and> vn_type (fs_nodes s ! i) = VFS_NODE_DIR)"
  by (auto simp: is_dir_def fs_map_def node_view_def split: option.splits)

lemma fs_map_None: "fs_map s cs = None \<longleftrightarrow> resolve (fs_nodes s) 0 cs = None"
  by (simp add: fs_map_def)

lemma path_comps_ok:
  assumes "path_comps path cwd = Some cs" "nul_free path" "nul_free cwd"
  shows "\<forall>c \<in> set cs. comp_ok c"
  using assms(2,3) by (cases rule: path_comps_cases) (use assms(1) in auto)

lemma add_node_inv:
  assumes inv: "fs_inv s" and p: "resolve (fs_nodes s) 0 ds = Some p" "vn_type (fs_nodes s ! p) = VFS_NODE_DIR"
    and c: "comp_ok c" "resolve (fs_nodes s) 0 (ds @ [c]) = None" and a: "alloc_node s c type mode uid gid = Some (k, s1)"
  defines "s2 \<equiv> s1\<lparr>fs_nodes := attach_child p k (fs_nodes s1)\<rparr>"
  shows "fs_inv s2" "fs_map s2 = (fs_map s)(ds @ [c] \<mapsto> (type, mode, uid, gid, []))"
    "length (fs_nodes s2) = Suc (length (fs_nodes s))" "fs_heap s2 = fs_heap s" "fs_persistent s2 = fs_persistent s"
    "resolve (fs_nodes s2) 0 (ds @ [c]) = Some k" "tracks s s2"
proof -
  let ?ns = "fs_nodes s" and ?t = "fs_clock s + 1"
  let ?n = "\<lparr>vn_name = c, vn_type = type, vn_mode = mode, vn_uid = uid, vn_gid = gid,
       vn_size = 0, vn_created = ?t, vn_modified = ?t, vn_data = None, vn_borrowed = False,
       vn_parent = None, vn_first_child = None, vn_next_sibling = None\<rparr>"
  note D = fs_invD [OF inv]
  have room: "length ?ns < VFS_MAX_NODES" and k: "k = length ?ns" and s1: "s1 = s\<lparr>fs_nodes := ?ns @ [?n], fs_clock := ?t\<rparr>"
    using a comp_okD [OF c(1)] by (auto simp: alloc_node_def Let_def split: if_splits)
  have ne: "?ns \<noteq> []" using D(2) by auto
  have pb: "p < length ?ns" using resolve_bound [OF D(3,2) p(1)] by simp
  have d: "data_ok ?n" by (simp add: data_ok_def)
  have s2: "fs_nodes s2 = attach_child p (length ?ns) (?ns @ [?n])" by (simp add: s2_def s1 k)
  have R: "tree_ok (fs_nodes s2)" "resolve (fs_nodes s2) 0 cs = (if cs = ds @ [c] then Some (length ?ns) else resolve ?ns 0 cs)" for cs
    using attach_resolve [OF D(3) p(2,1) ne, of ?n] c d by (simp_all add: s2)
  note A = attach_child_nth [OF pb, where n = ?n, folded s2]
  have old: "node_view (fs_nodes s2 ! i) = node_view (?ns ! i) \<and> vn_type (fs_nodes s2 ! i) = vn_type (?ns ! i)" if "i < length ?ns" for i
    using A(3) A(4) [OF that] by (cases "i = p") (simp_all add: node_view_def contents_def)
  show "fs_inv s2" using R(1) A(1) room D old [OF D(2)] by (auto simp: fs_inv_tree s2_def s1)
  show "length (fs_nodes s2) = Suc (length ?ns)" "fs_heap s2 = fs_heap s" "fs_persistent s2 = fs_persistent s"
    using A(1) by (simp_all add: s2_def s1)
  show "resolve (fs_nodes s2) 0 (ds @ [c]) = Some k" using R(2) k by simp
  show "tracks s s2" using A(1) R(2) old by (simp add: tracks_def)
  show "fs_map s2 = (fs_map s)(ds @ [c] \<mapsto> (type, mode, uid, gid, []))"
  proof
    fix cs
    show "fs_map s2 cs = ((fs_map s)(ds @ [c] \<mapsto> (type, mode, uid, gid, []))) cs"
    proof (cases "cs = ds @ [c]")
      case True
      then show ?thesis using R(2) [of cs] A(2) by (simp add: fs_map_def node_view_def contents_def)
    next
      case False
      then show ?thesis using R(2) [of cs] old resolve_bound [OF D(3,2), of cs]
        by (cases "resolve ?ns 0 cs") (auto simp: fs_map_def)
    qed
  qed
qed

lemma vfs_add_ok:
  assumes inv: "fs_inv s" and nf: "nul_free path" "nul_free cwd"
  shows "\<exists>s' rc. vfs_add type s path cwd mode uid gid = Some (s', rc) \<and> fs_inv s' \<and>
     (fs_map s', rc) = add_spec type mode uid gid (path_comps path cwd) (length (fs_nodes s) < VFS_MAX_NODES) (fs_map s) \<and>
     (\<not> fs_persistent s \<longrightarrow> fs_heap s' = fs_heap s \<and> \<not> fs_persistent s') \<and> length (fs_nodes s') \<le> Suc (length (fs_nodes s)) \<and> tracks s s'"
proof -
  let ?ns = "fs_nodes s"
  note P = parent_and_name_resolve [OF inv nf] and D = fs_invD [OF inv]
  show ?thesis
  proof (cases "path_comps path cwd")
    case None
    then show ?thesis using P inv by (simp add: vfs_add_def add_spec_def)
  next
    case (Some cs)
    show ?thesis
    proof (cases "cs = [] \<or> \<not> is_dir (fs_map s) (butlast cs)")
      case True
      then have "parent_and_name s path cwd = Some None"
        using P Some by (auto simp: is_dir_fs_map split: option.split)
      then show ?thesis using True Some inv by (simp add: vfs_add_def add_spec_def)
    next
      case False
      then obtain p where p: "resolve ?ns 0 (butlast cs) = Some p" "vn_type (?ns ! p) = VFS_NODE_DIR" by (auto simp: is_dir_fs_map)
      have cs: "cs = butlast cs @ [last cs]" using False by simp
      have pn: "parent_and_name s path cwd = Some (Some (p, last cs))" using P Some p False by simp
      have n: "node_ok ?ns p" using resolve_bound [OF D(3,2) p(1)] D(3) by (simp add: tree_ok_def)
      have fc: "find_child ?ns p (last cs) = Some (resolve ?ns 0 cs)"
        using find_child_kids [OF n] p(1) by (subst cs) (simp add: resolve_append split: option.split)
      show ?thesis
      proof (cases "resolve ?ns 0 cs")
        case (Some k)
        then show ?thesis using pn fc False \<open>path_comps path cwd = Some cs\<close> inv
          by (simp add: vfs_add_def add_spec_def fs_map_None)
      next
        case None
        show ?thesis
        proof (cases "length ?ns < VFS_MAX_NODES")
          case room: False
          then have "alloc_node s (last cs) type mode uid gid = None" by (simp add: alloc_node_def)
          then show ?thesis using pn fc False None room \<open>path_comps path cwd = Some cs\<close> inv
            by (simp add: vfs_add_def add_spec_def fs_map_None)
        next
          case room: True
          then obtain k s1 where a: "alloc_node s (last cs) type mode uid gid = Some (k, s1)" by (simp add: alloc_node_def Let_def)
          have ok: "comp_ok (last cs)" using path_comps_ok [OF Some nf] False by simp
          have rn: "resolve ?ns 0 (butlast cs @ [last cs]) = None" using None False by simp
          note N = add_node_inv [OF inv p ok rn a]
          obtain s' where s': "map_option (\<lambda>(s2, _). (s2, 0 :: int)) (tfs_sync_if_mounted (s1\<lparr>fs_nodes := attach_child p k (fs_nodes s1)\<rparr>)) = Some (s', 0)"
            "same_files (s1\<lparr>fs_nodes := attach_child p k (fs_nodes s1)\<rparr>) s'"
            using sync_result [OF N(1)] .
          have "vfs_add type s path cwd mode uid gid = Some (s', 0)"
            using pn fc None a s'(1) by (simp add: vfs_add_def)
          moreover have "\<not> fs_persistent s \<longrightarrow> fs_heap s' = fs_heap s \<and> \<not> fs_persistent s'"
            using s'(1) N(4,5) by (auto simp: tfs_sync_if_mounted_def)
          moreover have "length (fs_nodes s') \<le> Suc (length ?ns)" using s'(2) N(3) by (simp add: same_files_def)
          moreover have "(fs_map s', 0) = add_spec type mode uid gid (path_comps path cwd) (length ?ns < VFS_MAX_NODES) (fs_map s)"
            using fs_map_same [OF s'(2)] N(2) room False None Some by (simp add: add_spec_def fs_map_None)
          ultimately show ?thesis using fs_inv_same [OF N(1) s'(2)] tracks_same [OF N(7) s'(2)] by blast
        qed
      qed
    qed
  qed
qed

lemma attr_op_ok:
  assumes inv: "fs_inv s" and nf: "nul_free path" "nul_free cwd"
    and f: "\<And>n. keeps_links f n" "\<And>n. node_view (f n) = g (node_view n)"
  shows "\<exists>s' rc. (case vfs_lookup s path cwd of None \<Rightarrow> None | Some None \<Rightarrow> Some (s, -1) | Some (Some i) \<Rightarrow> set_node_sync s i f) = Some (s', rc)
     \<and> fs_inv s' \<and> (fs_map s', rc) = attr_spec g (path_comps path cwd) (fs_map s) \<and> tracks s s'"
proof -
  note L = vfs_lookup_resolve [OF inv nf]
  show ?thesis
  proof (cases "path_comps path cwd")
    case None
    then show ?thesis using L inv by (simp add: attr_spec_def)
  next
    case (Some cs)
    show ?thesis
    proof (cases "resolve (fs_nodes s) 0 cs")
      case None
      then show ?thesis using L inv Some by (simp add: attr_spec_def fs_map_def)
    next
      case r: (Some i)
      show ?thesis using set_node_sync_ok [OF inv r f(1)] L Some r by (auto simp: attr_spec_def fs_map_def f(2))
    qed
  qed
qed

definition chmod_attr :: "u32 \<Rightarrow> vattr \<Rightarrow> vattr" where
  "chmod_attr mode = (\<lambda>(t, md, u, g, d). (t, (md AND 0xf000) OR (mode AND 0xfff), u, g, d))"

definition chown_attr :: "u32 \<Rightarrow> u32 \<Rightarrow> vattr \<Rightarrow> vattr" where
  "chown_attr uid gid = (\<lambda>(t, md, u, g, d). (t, md, uid, gid, d))"

lemma vfs_chmod_ok:
  assumes "fs_inv s" "nul_free path" "nul_free cwd"
  shows "\<exists>s' rc. vfs_chmod s path cwd mode = Some (s', rc) \<and> fs_inv s' \<and>
     (fs_map s', rc) = attr_spec (chmod_attr mode) (path_comps path cwd) (fs_map s) \<and> tracks s s'"
  unfolding vfs_chmod_def
  by (rule attr_op_ok [OF assms]) (simp_all add: keeps_links_def data_ok_def node_view_def contents_def chmod_attr_def)

lemma vfs_chown_ok:
  assumes "fs_inv s" "nul_free path" "nul_free cwd"
  shows "\<exists>s' rc. vfs_chown s path cwd uid gid = Some (s', rc) \<and> fs_inv s' \<and>
     (fs_map s', rc) = attr_spec (chown_attr uid gid) (path_comps path cwd) (fs_map s) \<and> tracks s s'"
  unfolding vfs_chown_def
  by (rule attr_op_ok [OF assms]) (simp_all add: keeps_links_def data_ok_def node_view_def contents_def chown_attr_def)

lemma kids_empty: "node_ok ns i \<Longrightarrow> vn_first_child (ns ! i) = None \<longleftrightarrow> kids ns i = []"
  using node_okD(1) [of ns i] by (cases "kids ns i") auto

lemma kids_empty_map:
  assumes t: "tree_ok ns" "0 < length ns" and r: "resolve ns 0 cs = Some i"
  shows "(\<exists>c. resolve ns 0 (cs @ [c]) \<noteq> None) \<longleftrightarrow> kids ns i \<noteq> []"
proof
  assume "\<exists>c. resolve ns 0 (cs @ [c]) \<noteq> None"
  then show "kids ns i \<noteq> []" using resolve_snoc [OF t, of cs] r by fastforce
next
  assume "kids ns i \<noteq> []"
  then obtain k where "k \<in> set (kids ns i)" by (cases "kids ns i") auto
  then have "resolve ns 0 (cs @ [vn_name (ns ! k)]) = Some k" using resolve_snoc [OF t, of cs] r by blast
  then show "\<exists>c. resolve ns 0 (cs @ [c]) \<noteq> None" by blast
qed

lemma split_kids:
  assumes "node_ok ns p" "k \<in> set (kids ns p)"
  obtains xs ys where "kids ns p = xs @ k # ys" "\<forall>i \<in> set xs. vn_name (ns ! i) \<noteq> vn_name (ns ! k)"
proof -
  obtain xs ys where e: "kids ns p = xs @ k # ys" using split_list [OF assms(2)] by blast
  have "distinct (map (\<lambda>i. vn_name (ns ! i)) (xs @ k # ys))" using node_okD(2) [OF assms(1)] by (simp only: e)
  then have "\<forall>i \<in> set xs. vn_name (ns ! i) \<noteq> vn_name (ns ! k)" by (simp add: image_iff) metis
  then show ?thesis using that e by blast
qed

lemma set_link_view:
  assumes "prev = None \<or> prev = Some q" "parent < length ns" "q < length ns"
  shows "node_view (set_link parent prev v ns ! i) = node_view (ns ! i)"
  using assms by (cases "i = parent"; cases "i = q"; auto simp: set_link_def node_view_def contents_def)

lemma remove_node_inv:
  assumes inv: "fs_inv s" and p: "resolve (fs_nodes s) 0 ds = Some p"
    and k: "kids (fs_nodes s) p = xs @ k # ys" "kids (fs_nodes s) k = []"
  defines "s2 \<equiv> s\<lparr>fs_nodes := set_link p (if xs = [] then None else Some (last xs)) (vn_next_sibling (fs_nodes s ! k)) (fs_nodes s)\<rparr>"
  shows "fs_inv s2" "fs_map s2 = (fs_map s)(ds @ [vn_name (fs_nodes s ! k)] := None)" "resolve (fs_nodes s2) 0 ds = Some p" "tracks s s2"
proof -
  let ?ns = "fs_nodes s"
  note D = fs_invD [OF inv]
  have pb: "p < length ?ns" using resolve_bound [OF D(3,2) p] by simp
  have n: "node_ok ?ns p" using D(3) pb by (simp add: tree_ok_def)
  have ne: "?ns \<noteq> []" using D(2) by auto
  have q: "last (p # xs) < length ?ns" using node_okD(4) [OF n] pb k by (cases xs) auto
  have pq: "(if xs = [] then None else Some (last xs)) = None \<or> (if xs = [] then None else Some (last xs)) = Some (last (p # xs))" by simp
  let ?v = "vn_next_sibling (?ns ! k)" and ?l = "if xs = [] then None else Some (last xs)"
  note S = set_link_nth [OF pq pb q, of ?v]
  have T: "tree_ok (fs_nodes s2)" using unlink_tree(1) [OF D(3) pb k(1)] by (simp add: s2_def)
  have R: "resolve (fs_nodes s2) 0 cs = (if cs = ds @ [vn_name (?ns ! k)] then None else resolve ?ns 0 cs)" for cs
    using unlink_resolve [OF D(3) p ne k, of cs] by (simp add: s2_def)
  show "fs_inv s2" using T S(1) S(4) [of 0] D by (auto simp: fs_inv_tree s2_def)
  show "resolve (fs_nodes s2) 0 ds = Some p" using R p by simp
  show "tracks s s2" using S(1,4) R by (simp add: tracks_def s2_def)
  have v: "node_view (fs_nodes s2 ! i) = node_view (?ns ! i)" for i
    using set_link_view [OF pq pb q] by (simp add: s2_def)
  show "fs_map s2 = (fs_map s)(ds @ [vn_name (?ns ! k)] := None)"
    by (rule ext) (simp add: fs_map_def R v)
qed

lemma vfs_unlink_ok:
  assumes inv: "fs_inv s" and nf: "nul_free path" "nul_free cwd"
  shows "\<exists>s' rc. vfs_unlink s path cwd = Some (s', rc) \<and> fs_inv s' \<and> (fs_map s', rc) = unlink_spec (path_comps path cwd) (fs_map s) \<and> tracks s s'"
proof -
  let ?ns = "fs_nodes s"
  note P = parent_and_name_resolve [OF inv nf] and D = fs_invD [OF inv]
  show ?thesis
  proof (cases "path_comps path cwd")
    case None
    then show ?thesis using P inv by (simp add: vfs_unlink_def unlink_spec_def)
  next
    case (Some cs)
    show ?thesis
    proof (cases "cs = [] \<or> \<not> is_dir (fs_map s) (butlast cs)")
      case True
      then have "parent_and_name s path cwd = Some None"
        using P Some by (auto simp: is_dir_fs_map split: option.split)
      then show ?thesis using True Some inv by (auto simp: vfs_unlink_def unlink_spec_def)
    next
      case False
      then obtain p where p: "resolve ?ns 0 (butlast cs) = Some p" "vn_type (?ns ! p) = VFS_NODE_DIR" by (auto simp: is_dir_fs_map)
      have cs: "cs = butlast cs @ [last cs]" using False by simp
      have pn: "parent_and_name s path cwd = Some (Some (p, last cs))" using P Some p False by simp
      have n: "node_ok ?ns p" using resolve_bound [OF D(3,2) p(1)] D(3) by (simp add: tree_ok_def)
      have rk: "resolve ?ns 0 cs = Some k \<longleftrightarrow> k \<in> set (kids ?ns p) \<and> vn_name (?ns ! k) = last cs" for k
        using resolve_snoc [OF D(3,2), of "butlast cs" "last cs" k] p(1) cs by simp
      show ?thesis
      proof (cases "resolve ?ns 0 cs")
        case None
        then have "\<forall>k \<in> set (kids ?ns p). vn_name (?ns ! k) \<noteq> last cs" using rk by auto
        then have "unlink_from ?ns (last cs) None (vn_first_child (?ns ! p)) = Some None"
          by (rule unlink_from_None [OF node_okD(1) [OF n]])
        then show ?thesis using pn None False Some inv by (simp add: vfs_unlink_def unlink_spec_def fs_map_None)
      next
        case k: (Some k)
        then have kk: "k \<in> set (kids ?ns p)" "vn_name (?ns ! k) = last cs" using rk by auto
        obtain xs ys where x: "kids ?ns p = xs @ k # ys" "\<forall>i \<in> set xs. vn_name (?ns ! i) \<noteq> vn_name (?ns ! k)"
          using split_kids [OF n kk(1)] .
        let ?l = "if xs = [] then None else Some (last xs)"
        have u: "unlink_from ?ns (last cs) None (vn_first_child (?ns ! p)) = Some (Some (?l, k))"
          using unlink_from_Some [of ?ns _ xs k ys] node_okD(1) [OF n] x kk(2) by simp
        have nk: "node_ok ?ns k" using resolve_bound [OF D(3,2) k] D(3) by (simp add: tree_ok_def)
        have full: "(\<exists>c. fs_map s (cs @ [c]) \<noteq> None) \<longleftrightarrow> kids ?ns k \<noteq> []"
          using kids_empty_map [OF D(3,2) k] by (simp add: fs_map_def)
        have ex: "fs_map s cs \<noteq> None" using k by (simp add: fs_map_def)
        show ?thesis
        proof (cases "kids ?ns k = []")
          case no: False
          then show ?thesis using pn u kids_empty [OF nk] full ex False Some inv by (simp add: vfs_unlink_def unlink_spec_def)
        next
          case em: True
          note R = remove_node_inv [OF inv p(1) x(1) em]
          let ?s2 = "s\<lparr>fs_nodes := set_link p ?l (vn_next_sibling (?ns ! k)) ?ns\<rparr>"
          have "keeps_links (\<lambda>n. n) (fs_nodes ?s2 ! p)" by (simp add: keeps_links_def)
          from set_node_sync_ok [OF R(1,3) this]
          obtain s' where s': "set_node_sync ?s2 p (\<lambda>n. n) = Some (s', 0)" "fs_inv s'"
            "fs_map s' = (fs_map ?s2)(butlast cs \<mapsto> node_view (fs_nodes ?s2 ! p))" "tracks ?s2 s'" by blast
          have "(fs_map ?s2)(butlast cs \<mapsto> node_view (fs_nodes ?s2 ! p)) = fs_map ?s2"
            by (rule ext) (use R(3) in \<open>simp add: fs_map_def\<close>)
          then have "fs_map s' = (fs_map s)(cs := None)" using s'(3) R(2) kk(2) cs by simp
          moreover have "vfs_unlink s path cwd = Some (s', 0)"
            using pn u kids_empty [OF nk] em s'(1) by (simp add: vfs_unlink_def)
          ultimately show ?thesis using s'(2) full em ex False Some tracks_trans [OF R(4) s'(4)] by (simp add: unlink_spec_def)
        qed
      qed
    qed
  qed
qed

subsection \<open>Writing whole files\<close>

lemma fs_inv_heap: "fs_inv (s\<lparr>fs_heap := h\<rparr>) = fs_inv s" "fs_map (s\<lparr>fs_heap := h\<rparr>) = fs_map s" "tracks (s\<lparr>fs_heap := h\<rparr>) s' = tracks s s'"
  by (simp_all add: fs_inv_def fs_map_def fun_eq_iff tracks_def)

lemma unat_length: "length xs < 2 ^ 63 \<Longrightarrow> unat (word_of_nat (length xs) :: u64) = length xs"
  by (simp add: unat_of_nat)

definition put_spec :: "u8 list \<Rightarrow> bool \<Rightarrow> u8 list list \<Rightarrow> vmap \<Rightarrow> vmap \<times> int" where
  "put_spec data mem cs m =
     (case m cs of
        None \<Rightarrow> (m, -1)
      | Some (t, md, u, g, _) \<Rightarrow>
          if t \<noteq> VFS_NODE_FILE \<and> t \<noteq> VFS_NODE_PROC then (m, -1)
          else if \<not> mem then (m, -2)
          else (m(cs \<mapsto> (t, md, u, g, data)), 0))"

definition has_mem :: "ablk list \<Rightarrow> u8 list \<Rightarrow> bool" where
  "has_mem heap data \<longleftrightarrow> data = [] \<or> a_kmalloc heap (szadd (length data) 1) \<noteq> None"

lemma write_contents_ok:
  assumes inv: "fs_inv s" and r: "resolve (fs_nodes s) 0 cs = Some i" and l: "length data < 2 ^ 63"
  shows "\<exists>s' rc. write_contents s (Some i) data = Some (s', rc) \<and> fs_inv s' \<and>
     (fs_map s', rc) = put_spec data (has_mem (fs_heap s) data) cs (fs_map s) \<and> tracks s s'"
proof -
  let ?n = "fs_nodes s ! i"
  have m: "fs_map s cs = Some (vn_type ?n, vn_mode ?n, vn_uid ?n, vn_gid ?n, contents ?n)"
    using r by (simp add: fs_map_def node_view_def)
  show ?thesis
  proof (cases "vn_type ?n \<noteq> VFS_NODE_FILE \<and> vn_type ?n \<noteq> VFS_NODE_PROC")
    case True
    then show ?thesis using m inv by (simp add: write_contents_def put_spec_def)
  next
    case ty: False
    have ty': "(vn_type ?n \<noteq> VFS_NODE_FILE \<and> vn_type ?n \<noteq> VFS_NODE_PROC) = False" using ty by blast
    show ?thesis
    proof (cases "data = []")
      case True
      let ?f = "\<lambda>n. n\<lparr>vn_data := None, vn_borrowed := False, vn_size := 0\<rparr>"
      have "keeps_links ?f ?n" by (simp add: keeps_links_def data_ok_def)
      from set_node_sync_ok [OF inv r this] obtain s' where "set_node_sync s i ?f = Some (s', 0)" "fs_inv s'"
        "fs_map s' = (fs_map s)(cs \<mapsto> node_view (?f ?n))" "tracks s s'" by blast
      then show ?thesis using m ty' True
        by (auto simp: write_contents_def put_spec_def has_mem_def node_view_def contents_def)
    next
      case ne: False
      show ?thesis
      proof (cases "a_kmalloc (fs_heap s) (szadd (length data) 1)")
        case None
        then show ?thesis using m ty' ne inv by (auto simp: write_contents_def put_spec_def has_mem_def)
      next
        case (Some ph)
        obtain pp h where ph: "ph = (pp, h)" by (cases ph)
        let ?f = "\<lambda>n. n\<lparr>vn_data := Some (data @ [0]), vn_borrowed := False, vn_size := word_of_nat (length data)\<rparr>"
        have "keeps_links ?f (fs_nodes (s\<lparr>fs_heap := h\<rparr>) ! i)" using l by (simp add: keeps_links_def data_ok_def unat_length)
        from set_node_sync_ok [OF _ _ this, of cs] inv r
        obtain s' where "set_node_sync (s\<lparr>fs_heap := h\<rparr>) i ?f = Some (s', 0)" "fs_inv s'"
          "fs_map s' = (fs_map s)(cs \<mapsto> node_view (?f ?n))" "tracks s s'" by (auto simp: fs_inv_heap)
        then show ?thesis using m ty' ne Some ph l
          by (auto simp: write_contents_def put_spec_def has_mem_def node_view_def contents_def unat_length)
      qed
    qed
  qed
qed

lemma write_spec_put:
  "write_spec data path room mem m =
     (case path of None \<Rightarrow> (m, -1)
      | Some cs \<Rightarrow> if m cs \<noteq> None then put_spec data mem cs m
          else case add_spec VFS_NODE_FILE (VFS_S_IFREG OR 0x1a4) 0 0 path room m of
                 (m', rc) \<Rightarrow> if rc < 0 then (m', rc) else put_spec data mem cs m')"
  unfolding write_spec_def put_spec_def Let_def ..

lemma vfs_write_file_ok:
  assumes inv: "fs_inv s" and nf: "nul_free path" "nul_free cwd" and l: "length data < 2 ^ 63"
  shows "\<exists>s' rc mem. vfs_write_file s path cwd data = Some (s', rc) \<and> fs_inv s' \<and>
     (fs_map s', rc) = write_spec data (path_comps path cwd) (length (fs_nodes s) < VFS_MAX_NODES) mem (fs_map s) \<and>
     (data = [] \<longrightarrow> mem) \<and> (\<not> fs_persistent s \<longrightarrow> mem = has_mem (fs_heap s) data) \<and> tracks s s'"
proof -
  note L = vfs_lookup_resolve [OF inv nf]
  show ?thesis
  proof (cases "path_comps path cwd")
    case None
    obtain s' where c: "vfs_create_file s path cwd (VFS_S_IFREG OR 0x1a4) 0 0 = Some (s', -1)" "fs_inv s'" "fs_map s' = fs_map s" "tracks s s'"
      using vfs_add_ok [OF inv nf, of VFS_NODE_FILE "VFS_S_IFREG OR 0x1a4" 0 0] None
      by (auto simp: vfs_create_file_def add_spec_def)
    have "vfs_write_file s path cwd data = Some (s', -1)" using L None c(1) by (simp add: vfs_write_file_def)
    moreover have "(fs_map s', -1) = write_spec data (path_comps path cwd) (length (fs_nodes s) < VFS_MAX_NODES) (has_mem (fs_heap s) data) (fs_map s)"
      using None c(3) by (simp add: write_spec_put)
    moreover have "data = [] \<longrightarrow> has_mem (fs_heap s) data" by (simp add: has_mem_def)
    ultimately show ?thesis using c(2,4) by blast
  next
    case (Some cs)
    show ?thesis
    proof (cases "resolve (fs_nodes s) 0 cs")
      case r: (Some i)
      obtain s' rc where w: "write_contents s (Some i) data = Some (s', rc)" "fs_inv s'"
        "(fs_map s', rc) = put_spec data (has_mem (fs_heap s) data) cs (fs_map s)" "tracks s s'"
        using write_contents_ok [OF inv r l] by blast
      have "vfs_write_file s path cwd data = Some (s', rc)" using L Some r w(1) by (simp add: vfs_write_file_def)
      moreover have "fs_map s cs \<noteq> None" using r by (simp add: fs_map_None)
      then have "(fs_map s', rc) = write_spec data (path_comps path cwd) (length (fs_nodes s) < VFS_MAX_NODES) (has_mem (fs_heap s) data) (fs_map s)"
        unfolding write_spec_put Some option.case w(3) by simp
      moreover have "data = [] \<longrightarrow> has_mem (fs_heap s) data" by (simp add: has_mem_def)
      ultimately show ?thesis using w(2,4) by blast
    next
      case None
      let ?room = "length (fs_nodes s) < VFS_MAX_NODES"
      obtain s1 rc1 where a: "vfs_create_file s path cwd (VFS_S_IFREG OR 0x1a4) 0 0 = Some (s1, rc1)" "fs_inv s1"
        "(fs_map s1, rc1) = add_spec VFS_NODE_FILE (VFS_S_IFREG OR 0x1a4) 0 0 (path_comps path cwd) ?room (fs_map s)"
        "\<not> fs_persistent s \<longrightarrow> fs_heap s1 = fs_heap s" "tracks s s1"
        using vfs_add_ok [OF inv nf, of VFS_NODE_FILE "VFS_S_IFREG OR 0x1a4" 0 0] unfolding vfs_create_file_def by blast
      have none: "fs_map s cs = None" using None by (simp add: fs_map_None)
      show ?thesis
      proof (cases "rc1 < 0")
        case True
        have "vfs_write_file s path cwd data = Some (s1, rc1)" using L Some None a(1) True by (simp add: vfs_write_file_def)
        moreover have "(fs_map s1, rc1) = write_spec data (path_comps path cwd) ?room (has_mem (fs_heap s) data) (fs_map s)"
          unfolding write_spec_put a(3) [symmetric] using True Some none by simp
        moreover have "data = [] \<longrightarrow> has_mem (fs_heap s) data" by (simp add: has_mem_def)
        ultimately show ?thesis using a(2,5) by blast
      next
        case False
        then have "fs_map s1 cs \<noteq> None" using a(3) Some none by (auto simp: add_spec_def split: if_splits)
        then obtain i where r: "resolve (fs_nodes s1) 0 cs = Some i" by (auto simp: fs_map_def)
        obtain s' rc where w: "write_contents s1 (Some i) data = Some (s', rc)" "fs_inv s'"
          "(fs_map s', rc) = put_spec data (has_mem (fs_heap s1) data) cs (fs_map s1)" "tracks s1 s'"
          using write_contents_ok [OF a(2) r l] by blast
        have "vfs_write_file s path cwd data = Some (s', rc)"
          using L Some None a(1) False w(1) vfs_lookup_resolve [OF a(2) nf] r by (simp add: vfs_write_file_def)
        moreover have "(fs_map s', rc) = write_spec data (path_comps path cwd) ?room (has_mem (fs_heap s1) data) (fs_map s)"
          unfolding write_spec_put a(3) [symmetric] w(3) using False Some none by simp
        moreover have "data = [] \<longrightarrow> has_mem (fs_heap s1) data" by (simp add: has_mem_def)
        moreover have "\<not> fs_persistent s \<longrightarrow> has_mem (fs_heap s1) data = has_mem (fs_heap s) data" using a(4) by simp
        ultimately show ?thesis using w(2) tracks_trans [OF a(5) w(4)] by blast
      qed
    qed
  qed
qed

subsection \<open>Reading and writing at an offset\<close>

lemma vfs_read_node_contents:
  assumes "data_ok (fs_nodes s ! i)" "vn_type (fs_nodes s ! i) \<noteq> VFS_NODE_DIR"
  shows "vfs_read_node s (Some i) off count = Some (Inr (take count (drop (unat off) (contents (fs_nodes s ! i)))))"
proof (cases "off \<ge> vn_size (fs_nodes s ! i)")
  case True
  then have "unat (vn_size (fs_nodes s ! i)) \<le> unat off" by (simp add: word_le_nat_alt)
  then show ?thesis using True assms(2) by (simp add: vfs_read_node_def contents_def Let_def)
next
  case False
  let ?n = "fs_nodes s ! i"
  have lt: "unat off < unat (vn_size ?n)" using False by (simp add: word_le_nat_alt)
  then have "vn_size ?n \<noteq> 0" by auto
  then obtain d where d: "vn_data ?n = Some d" "unat (vn_size ?n) \<le> length d" using assms(1) by (auto simp: data_ok_def)
  have av: "unat (vn_size ?n - off) = unat (vn_size ?n) - unat off" using lt by (simp add: unat_sub word_le_nat_alt)
  show ?thesis using False assms(2) d lt
    by (auto simp: vfs_read_node_def contents_def Let_def av drop_take min_def)
qed

definition overwrite :: "u8 list \<Rightarrow> nat \<Rightarrow> u8 list \<Rightarrow> u8 list" where
  "overwrite c k b = take k (c @ replicate (k - length c) 0) @ b @ drop (k + length b) c"

lemma grow_data_contents:
  assumes "data_ok n" "fin > vn_size n \<or> new_size = vn_size n" "new_size = (if fin > vn_size n then fin else vn_size n)"
  shows "grow_data n fin new_size = Some (contents n @ replicate (unat new_size - unat (vn_size n)) 0 @ [0])"
proof (cases "vn_size n = 0")
  case True
  then show ?thesis using assms(3) by (auto simp: grow_data_def contents_def word_gt_0)
next
  case False
  then obtain d where d: "vn_data n = Some d" "unat (vn_size n) \<le> length d" using assms(1) by (auto simp: data_ok_def)
  have "fin > vn_size n \<Longrightarrow> unat (fin - vn_size n) = unat fin - unat (vn_size n)"
    by (simp add: unat_sub order.strict_implies_order)
  then show ?thesis using False d assms(3) by (auto simp: grow_data_def contents_def)
qed

lemma length_contents: "data_ok n \<Longrightarrow> length (contents n) = unat (vn_size n)"
  by (auto simp: contents_def data_ok_def)

text \<open>The buffer holds the old contents and zeros up to the end of the write.\<close>

lemma write_buffer_ok:
  assumes dok: "data_ok n" and fin: "unat fin < 2 ^ 63"
  shows "write_buffer heap n fin = Some None \<or>
    (\<exists>h d b z. write_buffer heap n fin = Some (Some (h, n\<lparr>vn_data := d, vn_size := z, vn_borrowed := b\<rparr>)) \<and>
       unat z = max (unat fin) (unat (vn_size n)) \<and> unat z \<le> length (case d of None \<Rightarrow> [] | Some x \<Rightarrow> x) \<and>
       take (unat z) (case d of None \<Rightarrow> [] | Some x \<Rightarrow> x) = contents n @ replicate (unat z - unat (vn_size n)) 0)"
proof (cases "fin > vn_size n \<or> vn_borrowed n")
  case False
  then have "n = n\<lparr>vn_data := vn_data n, vn_size := vn_size n, vn_borrowed := vn_borrowed n\<rparr>"
    "write_buffer heap n fin = Some (Some (heap, n))" "unat fin \<le> unat (vn_size n)"
    by (auto simp: write_buffer_def word_less_nat_alt)
  moreover have "unat (vn_size n) \<le> length (case vn_data n of None \<Rightarrow> [] | Some x \<Rightarrow> x)"
    using dok by (cases "vn_size n = 0") (auto simp: data_ok_def)
  ultimately show ?thesis
    by (intro disjI2 exI [of _ heap] exI [of _ "vn_data n"] exI [of _ "vn_borrowed n"] exI [of _ "vn_size n"]) (simp add: contents_def)
next
  case True
  define z where "z = (if fin > vn_size n then fin else vn_size n)"
  have zm: "unat z = max (unat fin) (unat (vn_size n))" by (auto simp: z_def word_less_nat_alt)
  have g: "grow_data n fin z = Some (contents n @ replicate (unat z - unat (vn_size n)) 0 @ [0])"
    by (rule grow_data_contents [OF dok]) (auto simp: z_def)
  have w: "write_buffer heap n fin = (case a_kmalloc heap (unat (z + 1)) of None \<Rightarrow> Some None
      | Some (_, heap') \<Rightarrow> map_option (\<lambda>d. Some (heap', n\<lparr>vn_data := Some d, vn_size := z, vn_borrowed := False\<rparr>)) (grow_data n fin z))"
    unfolding write_buffer_def Let_def z_def using True by simp
  show ?thesis
  proof (cases "a_kmalloc heap (unat (z + 1))")
    case (Some ph)
    obtain p h where "ph = (p, h)" by (cases ph)
    then show ?thesis using w g zm length_contents [OF dok] Some
      by (intro disjI2 exI [of _ h] exI [of _ "Some (contents n @ replicate (unat z - unat (vn_size n)) 0 @ [0])"]
          exI [of _ False] exI [of _ z]) (simp add: max_def)
  qed (use w in simp)
qed

lemma vfs_write_node_ok:
  assumes inv: "fs_inv s" and i: "i < length (fs_nodes s)" and ty: "vn_type (fs_nodes s ! i) = VFS_NODE_FILE"
    and nw: "unat off + length buf < 2 ^ 63"
  shows "vfs_write_node s (Some i) off buf = Some (s, -1) \<or>
    (\<exists>s'. vfs_write_node s (Some i) off buf = Some (s', int (length buf)) \<and> fs_inv s' \<and>
       contents (fs_nodes s' ! i) = overwrite (contents (fs_nodes s ! i)) (unat off) buf \<and>
       vn_type (fs_nodes s' ! i) = VFS_NODE_FILE \<and> length (fs_nodes s') = length (fs_nodes s) \<and>
       (\<forall>j. j \<noteq> i \<longrightarrow> fs_nodes s' ! j = fs_nodes s ! j) \<and> (\<forall>cs. resolve (fs_nodes s') 0 cs = resolve (fs_nodes s) 0 cs))"
proof -
  let ?n = "fs_nodes s ! i" and ?fin = "off + word_of_nat (length buf) :: u64"
  have fin: "unat ?fin = unat off + length buf" using nw by (simp add: unat_word_ariths unat_of_nat)
  have dok: "data_ok ?n" using fs_invD(3) [OF inv] i node_okD(6) by (auto simp: tree_ok_def)
  consider "write_buffer (fs_heap s) ?n ?fin = Some None"
    | h d b z where "write_buffer (fs_heap s) ?n ?fin = Some (Some (h, ?n\<lparr>vn_data := d, vn_size := z, vn_borrowed := b\<rparr>))"
       "unat z = max (unat ?fin) (unat (vn_size ?n))" "unat z \<le> length (case d of None \<Rightarrow> [] | Some x \<Rightarrow> x)"
       "take (unat z) (case d of None \<Rightarrow> [] | Some x \<Rightarrow> x) = contents ?n @ replicate (unat z - unat (vn_size ?n)) 0"
    using write_buffer_ok [OF dok, of ?fin "fs_heap s"] fin nw by auto
  then show ?thesis
  proof cases
    case 1
    then show ?thesis using ty by (simp add: vfs_write_node_def)
  next
    case 2
    define D where "D = (case d of None \<Rightarrow> [] | Some x \<Rightarrow> x)"
    define d' where "d' = (if buf = [] then d else Some (take (unat off) D @ buf @ drop (unat off + length buf) D))"
    let ?t = "fs_clock s + 1"
    let ?f = "\<lambda>n. n\<lparr>vn_size := z, vn_borrowed := b, vn_data := d', vn_modified := ?t\<rparr>"
    let ?s' = "s\<lparr>fs_nodes := (fs_nodes s)[i := ?f ?n], fs_clock := ?t, fs_heap := h\<rparr>"
    have le: "unat off + length buf \<le> unat z" using 2(2) fin by simp
    have Dl: "unat z \<le> length D" using 2(3) by (simp add: D_def)
    have w: "vfs_write_node s (Some i) off buf = Some (?s', int (length buf))"
      using 2(1) ty le Dl by (simp add: vfs_write_node_def Let_def D_def [symmetric] d'_def)
    have dd: "(case d' of None \<Rightarrow> [] | Some x \<Rightarrow> x) = take (unat off) D @ buf @ drop (unat off + length buf) D"
      by (cases "buf = []") (simp_all add: d'_def D_def)
    have zb: "unat z < 2 ^ 63" using 2(2) fin nw dok by (cases "vn_size ?n = 0") (auto simp: data_ok_def)
    have k: "keeps_links ?f ?n"
      using zb Dl le by (auto simp: keeps_links_def data_ok_def d'_def D_def unsigned_eq_0_iff split: option.splits)
    have "contents (?f ?n) = take (unat z) (take (unat off) D @ buf @ drop (unat off + length buf) D)"
      by (simp add: contents_def dd)
    also have "\<dots> = take (unat off) (take (unat z) D) @ buf @ drop (unat off + length buf) (take (unat z) D)"
    proof -
      have "unat z \<le> unat off \<Longrightarrow> unat z = unat off \<and> buf = []" using le by (cases buf) simp_all
      moreover have "length buf \<le> unat z - unat off" using le by arith
      ultimately show ?thesis using Dl le by (auto simp: take_drop min_def)
    qed
    also have "\<dots> = overwrite (contents ?n) (unat off) buf"
      using 2(4) 2(2) fin length_contents [OF dok] unfolding D_def [symmetric] overwrite_def by (auto simp: min_def max_def)
    finally have c: "contents (?f ?n) = overwrite (contents ?n) (unat off) buf" .
    note U = update_node_inv [OF inv i k, where t = ?t and h = h]
    show ?thesis using w U c ty i by (intro disjI2 exI [of _ ?s']) simp
  qed
qed

subsection \<open>Reachable states\<close>

subsection \<open>The interface for path operations\<close>

text \<open>
  What a caller of a path operation relies on: on a well-formed state it returns, keeps the state
  well formed, acts on the map as its specification says, and moves no node.
\<close>

locale path_operation =
  fixes op :: "fs_state \<Rightarrow> u8 list option \<Rightarrow> u8 list option \<Rightarrow> (fs_state \<times> int) option"
    and spec :: "u8 list list option \<Rightarrow> bool \<Rightarrow> vmap \<Rightarrow> vmap \<times> int"
  assumes op_ok: "fs_inv s \<Longrightarrow> nul_free path \<Longrightarrow> nul_free cwd \<Longrightarrow> \<exists>s' rc. op s path cwd = Some (s', rc) \<and> fs_inv s' \<and>
     (fs_map s', rc) = spec (path_comps path cwd) (length (fs_nodes s) < VFS_MAX_NODES) (fs_map s) \<and> tracks s s'"

interpretation mkdir_op: path_operation "\<lambda>s path cwd. vfs_mkdir s path cwd mode uid gid" "add_spec VFS_NODE_DIR mode uid gid"
  for mode uid gid using vfs_add_ok by unfold_locales (simp add: vfs_mkdir_def, blast)

interpretation create_op: path_operation "\<lambda>s path cwd. vfs_create_file s path cwd mode uid gid" "add_spec VFS_NODE_FILE mode uid gid"
  for mode uid gid using vfs_add_ok by unfold_locales (simp add: vfs_create_file_def, blast)

interpretation unlink_op: path_operation vfs_unlink "\<lambda>path room. unlink_spec path"
  using vfs_unlink_ok by unfold_locales blast

interpretation chmod_op: path_operation "\<lambda>s path cwd. vfs_chmod s path cwd mode" "\<lambda>path room. attr_spec (chmod_attr mode) path"
  for mode using vfs_chmod_ok by unfold_locales blast

interpretation chown_op: path_operation "\<lambda>s path cwd. vfs_chown s path cwd uid gid" "\<lambda>path room. attr_spec (chown_attr uid gid) path"
  for uid gid using vfs_chown_ok by unfold_locales blast

lemma nul_free_root: "nul_free (Some (bytes_of ''/''))"
  by (simp add: bytes_of_def)

lemma mkdirs_ok: "fs_inv s \<Longrightarrow> \<forall>(p, m) \<in> set ds. nul_free (Some p) \<Longrightarrow> \<exists>s'. mkdirs s ds = Some s' \<and> fs_inv s'"
proof (induction s ds rule: mkdirs.induct)
  case (2 s path mode ds)
  obtain s1 rc where s1: "vfs_mkdir s (Some path) (Some (bytes_of ''/'')) (VFS_S_IFDIR OR mode) 0 0 = Some (s1, rc)" "fs_inv s1"
    using vfs_add_ok [OF 2(2) _ nul_free_root, of "Some path" VFS_NODE_DIR "VFS_S_IFDIR OR mode" 0 0] 2(3)
    by (auto simp: vfs_mkdir_def)
  then show ?case using 2(1) [OF s1(1) refl s1(2)] 2(3) by auto
qed simp

lemma vfs_init_ok: "\<exists>s'. vfs_init s = Some s' \<and> fs_inv s'"
proof -
  obtain r s1 where a: "alloc_node (s\<lparr>fs_nodes := [], fs_clock := 0\<rparr>) [] VFS_NODE_DIR (VFS_S_IFDIR OR 0x1ed) 0 0 = Some (r, s1)"
    by (simp add: alloc_node_def VFS_MAX_NODES_def Let_def)
  then have n: "r = 0" "length (fs_nodes s1) = 1" "vn_type (fs_nodes s1 ! 0) = VFS_NODE_DIR" "vn_first_child (fs_nodes s1 ! 0) = None"
    "data_ok (fs_nodes s1 ! 0)"
    by (auto simp: alloc_node_def VFS_MAX_NODES_def Let_def data_ok_def)
  then have "tree_ok (fs_nodes s1)" by (simp add: tree_ok_def node_ok_def kids_def)
  then have "fs_inv (s1\<lparr>fs_root := Some r\<rparr>)" using n by (cases "fs_nodes s1") (auto simp: fs_inv_tree VFS_MAX_NODES_def)
  then show ?thesis using mkdirs_ok [of "s1\<lparr>fs_root := Some r\<rparr>" init_dirs] a
    by (auto simp: vfs_init_def init_dirs_def bytes_of_def)
qed

text \<open>
  A run: the operations with NUL-terminated paths, buffers below \<open>PTRDIFF_MAX\<close>, and writes
  through a node pointer whose end is below \<open>2^63\<close>; a process may hold a pointer to a node that
  has been unlinked.
\<close>

inductive fs_step :: "fs_state \<Rightarrow> fs_state \<Rightarrow> bool" where
  mkdir: "nul_free path \<Longrightarrow> nul_free cwd \<Longrightarrow> vfs_mkdir s path cwd mode uid gid = Some (s', rc) \<Longrightarrow> fs_step s s'"
| create: "nul_free path \<Longrightarrow> nul_free cwd \<Longrightarrow> vfs_create_file s path cwd mode uid gid = Some (s', rc) \<Longrightarrow> fs_step s s'"
| write_file: "nul_free path \<Longrightarrow> nul_free cwd \<Longrightarrow> length data < 2 ^ 63 \<Longrightarrow>
    vfs_write_file s path cwd data = Some (s', rc) \<Longrightarrow> fs_step s s'"
| unlink: "nul_free path \<Longrightarrow> nul_free cwd \<Longrightarrow> vfs_unlink s path cwd = Some (s', rc) \<Longrightarrow> fs_step s s'"
| chmod: "nul_free path \<Longrightarrow> nul_free cwd \<Longrightarrow> vfs_chmod s path cwd mode = Some (s', rc) \<Longrightarrow> fs_step s s'"
| chown: "nul_free path \<Longrightarrow> nul_free cwd \<Longrightarrow> vfs_chown s path cwd uid gid = Some (s', rc) \<Longrightarrow> fs_step s s'"
| write_node: "i < length (fs_nodes s) \<Longrightarrow> unat off + length buf < 2 ^ 63 \<Longrightarrow>
    vfs_write_node s (Some i) off buf = Some (s', rc) \<Longrightarrow> fs_step s s'"
| sync: "tfs_sync s = Some (s', rc) \<Longrightarrow> fs_step s s'"

inductive fs_reachable :: "fs_state \<Rightarrow> bool" where
  init: "vfs_init s0 = Some s \<Longrightarrow> fs_reachable s"
| step: "fs_reachable s \<Longrightarrow> fs_step s s' \<Longrightarrow> fs_reachable s'"

lemma fs_step_inv: "fs_step s s' \<Longrightarrow> fs_inv s \<Longrightarrow> fs_inv s'"
proof (induction rule: fs_step.induct)
  case (mkdir path cwd s mode uid gid s' rc)
  then show ?case using vfs_add_ok [OF mkdir(4,1,2), of VFS_NODE_DIR mode uid gid] by (auto simp: vfs_mkdir_def)
next
  case (create path cwd s mode uid gid s' rc)
  then show ?case using vfs_add_ok [OF create(4,1,2), of VFS_NODE_FILE mode uid gid] by (auto simp: vfs_create_file_def)
next
  case (write_file path cwd data s s' rc)
  then show ?case using vfs_write_file_ok [OF write_file(5,1,2,3)] by auto
next
  case (unlink path cwd s s' rc)
  then show ?case using vfs_unlink_ok [OF unlink(4,1,2)] by auto
next
  case (chmod path cwd s mode s' rc)
  then show ?case using vfs_chmod_ok [OF chmod(4,1,2), of mode] by auto
next
  case (chown path cwd s uid gid s' rc)
  then show ?case using vfs_chown_ok [OF chown(4,1,2), of uid gid] by auto
next
  case (write_node i s off buf s' rc)
  show ?case
  proof (cases "vn_type (fs_nodes s ! i) = VFS_NODE_FILE")
    case True
    then show ?thesis using vfs_write_node_ok [OF write_node(4,1) True write_node(2)] write_node(3,4) by auto
  next
    case False
    then show ?thesis using write_node(3,4) by (simp add: vfs_write_node_def)
  qed
next
  case (sync s s' rc)
  then show ?case using tfs_sync_cases [OF sync(2)] fs_inv_same by fastforce
qed

lemma fs_reachable_inv: "fs_reachable s \<Longrightarrow> fs_inv s"
proof (induction rule: fs_reachable.induct)
  case (init s0 s)
  then show ?case using vfs_init_ok [of s0] by auto
next
  case (step s s')
  then show ?case using fs_step_inv by blast
qed

text \<open>
  C14: every state that \<open>vfs_init\<close> and the file operations reach has a well-formed tree: the
  root is the directory in slot 0, the sibling lists end, hold valid and distinct names and nodes
  with the right parent, only directories have children, and a file's buffer holds its bytes.
  Lookup therefore returns for every path, and two different normalised paths never lead to the
  same node.
\<close>

theorem vfs_tree_invariant:
  assumes "fs_reachable s"
  shows "fs_inv s
     \<and> (\<forall>path cwd. nul_free path \<and> nul_free cwd \<longrightarrow> (\<exists>r. vfs_lookup s path cwd = Some r))
     \<and> (\<forall>cs ds i. resolve (fs_nodes s) 0 cs = Some i \<and> resolve (fs_nodes s) 0 ds = Some i \<longrightarrow> cs = ds)"
proof -
  have inv: "fs_inv s" by (rule fs_reachable_inv [OF assms])
  show ?thesis using inv vfs_lookup_resolve [OF inv] resolve_inj [OF fs_invD(3) [OF inv] fs_invD(2) [OF inv]] by blast
qed

theorem vfs_tree_invariant_witness: "\<exists>s s' rc. vfs_init fs_boot = Some s \<and>
    vfs_mkdir s (Some (bytes_of ''/etc/rc'')) None 0x41ed 0 0 = Some (s', rc) \<and> fs_inv s'"
proof -
  obtain s where s: "vfs_init fs_boot = Some s" "fs_inv s" using vfs_init_ok by blast
  have nf: "nul_free (Some (bytes_of ''/etc/rc''))" "nul_free None" by (simp_all add: bytes_of_def)
  obtain s' rc where s': "vfs_mkdir s (Some (bytes_of ''/etc/rc'')) None 0x41ed 0 0 = Some (s', rc)"
    using vfs_add_ok [OF s(2) nf, of VFS_NODE_DIR "0x41ed" 0 0] by (auto simp: vfs_mkdir_def)
  have "fs_reachable s'" using fs_reachable.init [OF s(1)] fs_step.mkdir [OF nf s'] by (rule fs_reachable.step)
  then show ?thesis using vfs_tree_invariant [of s'] s(1) s' by blast
qed

text \<open>
  C15: the operations act on the file system as updates of single paths.  For every well-formed
  state and every path, each operation returns, keeps the invariant, and its result and the new
  map from paths to type, mode, owner and contents are those of the specification: \<open>vfs_mkdir\<close> and
  \<open>vfs_create_file\<close> add one entry below an existing directory (-1 without a directory, -2 if the
  path exists, -3 if the table is full), \<open>vfs_unlink\<close> removes one that has no entries below it (-1
  if there is none, -2 otherwise), \<open>vfs_chmod\<close> and \<open>vfs_chown\<close> change the attributes, and
  \<open>vfs_write_file\<close> replaces the contents, creating the file if need be.  No other path changes.
\<close>

theorem vfs_refines_map:
  assumes "fs_inv s" "nul_free path" "nul_free cwd"
  shows "(\<exists>s' rc. vfs_mkdir s path cwd mode uid gid = Some (s', rc) \<and> fs_inv s' \<and> (fs_map s', rc) =
            add_spec VFS_NODE_DIR mode uid gid (path_comps path cwd) (length (fs_nodes s) < VFS_MAX_NODES) (fs_map s))
     \<and> (\<exists>s' rc. vfs_create_file s path cwd mode uid gid = Some (s', rc) \<and> fs_inv s' \<and> (fs_map s', rc) =
            add_spec VFS_NODE_FILE mode uid gid (path_comps path cwd) (length (fs_nodes s) < VFS_MAX_NODES) (fs_map s))
     \<and> (\<exists>s' rc. vfs_unlink s path cwd = Some (s', rc) \<and> fs_inv s' \<and> (fs_map s', rc) = unlink_spec (path_comps path cwd) (fs_map s))
     \<and> (\<exists>s' rc. vfs_chmod s path cwd mode = Some (s', rc) \<and> fs_inv s' \<and>
            (fs_map s', rc) = attr_spec (chmod_attr mode) (path_comps path cwd) (fs_map s))
     \<and> (\<exists>s' rc. vfs_chown s path cwd uid gid = Some (s', rc) \<and> fs_inv s' \<and>
            (fs_map s', rc) = attr_spec (chown_attr uid gid) (path_comps path cwd) (fs_map s))
     \<and> (length data < 2 ^ 63 \<longrightarrow> (\<exists>s' rc mem. vfs_write_file s path cwd data = Some (s', rc) \<and> fs_inv s' \<and> (fs_map s', rc) =
            write_spec data (path_comps path cwd) (length (fs_nodes s) < VFS_MAX_NODES) mem (fs_map s) \<and>
            (data = [] \<longrightarrow> mem) \<and> (\<not> fs_persistent s \<longrightarrow> mem = has_mem (fs_heap s) data)))"
  using vfs_add_ok [OF assms, of VFS_NODE_DIR mode uid gid] vfs_add_ok [OF assms, of VFS_NODE_FILE mode uid gid]
    vfs_unlink_ok [OF assms] vfs_chmod_ok [OF assms, of mode] vfs_chown_ok [OF assms, of uid gid] vfs_write_file_ok [OF assms, of data]
  unfolding vfs_mkdir_def vfs_create_file_def by blast

lemma root_path_comps: "path_comps (Some (bytes_of ''/x'')) cwd = Some [bytes_of ''x'']"
  by (simp add: path_comps_def vfs_normalize_def norm_source_def VFS_PATH_MAX_def bytes_of_def norm_loop.simps Let_def
      VFS_NAME_MAX_def VFS_MAX_COMPONENTS_def)

lemma root_fs_map: "fs_map root_fs [] = Some (node_view dir_node)" "fs_map root_fs (c # cs) = None"
  by (simp_all add: fs_map_def root_fs_def fs_boot_def kids_def dir_node_def)

theorem vfs_refines_map_witness:
  "\<exists>s'. vfs_mkdir root_fs (Some (bytes_of ''/x'')) None 0x41ed 7 8 = Some (s', 0) \<and>
     fs_map s' = (fs_map root_fs)([bytes_of ''x''] \<mapsto> (VFS_NODE_DIR, 0x41ed, 7, 8, []))"
proof -
  have nf: "nul_free (Some (bytes_of ''/x''))" "nul_free None" by (simp_all add: bytes_of_def)
  have "add_spec VFS_NODE_DIR 0x41ed 7 8 (path_comps (Some (bytes_of ''/x'')) None) (length (fs_nodes root_fs) < VFS_MAX_NODES) (fs_map root_fs) =
      ((fs_map root_fs)([bytes_of ''x''] \<mapsto> (VFS_NODE_DIR, 0x41ed, 7, 8, [])), 0)"
    by (simp add: add_spec_def root_path_comps is_dir_def root_fs_map node_view_def dir_node_def)
       (simp add: root_fs_def VFS_MAX_NODES_def)
  then show ?thesis
    using vfs_refines_map [OF root_fs_inv nf, of "0x41ed" 7 8] by auto
qed

text \<open>
  C16: a write at an offset is read back.  For a file in a well-formed state and a write whose end is
  below \<open>2^63\<close>, \<open>vfs_write_node\<close> returns; it fails, changing nothing, only when it cannot allocate.
  Otherwise the contents are the old ones with the bytes at the offset replaced and a gap filled
  with zeros, reading at the offset returns what was written, \<open>vfs_read_node\<close> in general returns
  the part of the contents that exists, and no other node changes.
\<close>

theorem vfs_write_read:
  assumes "fs_inv s" and "i < length (fs_nodes s)" and "vn_type (fs_nodes s ! i) = VFS_NODE_FILE"
    and "unat off + length buf < 2 ^ 63"
  shows "vfs_write_node s (Some i) off buf = Some (s, -1) \<or>
    (\<exists>s'. vfs_write_node s (Some i) off buf = Some (s', int (length buf)) \<and> fs_inv s' \<and>
       contents (fs_nodes s' ! i) = overwrite (contents (fs_nodes s ! i)) (unat off) buf \<and>
       vfs_read_node s' (Some i) off (length buf) = Some (Inr buf) \<and>
       (\<forall>o' n. vfs_read_node s' (Some i) o' n = Some (Inr (take n (drop (unat o') (contents (fs_nodes s' ! i)))))) \<and>
       (\<forall>j. j \<noteq> i \<longrightarrow> fs_nodes s' ! j = fs_nodes s ! j) \<and> (\<forall>cs. resolve (fs_nodes s') 0 cs = resolve (fs_nodes s) 0 cs))"
proof -
  have rb: "take (length buf) (drop k (overwrite c k buf)) = buf" for c k
    by (simp add: overwrite_def)
  have rd: "vfs_read_node s' (Some i) o' n = Some (Inr (take n (drop (unat o') (contents (fs_nodes s' ! i)))))"
    if "fs_inv s'" "vn_type (fs_nodes s' ! i) = VFS_NODE_FILE" "length (fs_nodes s') = length (fs_nodes s)" for s' o' n
    using that assms(2) node_okD(6) [of "fs_nodes s'" i] fs_invD(3) [OF that(1)]
    by (intro vfs_read_node_contents) (auto simp: tree_ok_def)
  from vfs_write_node_ok [OF assms] show ?thesis
  proof (elim disjE exE conjE)
    fix s'
    assume s': "vfs_write_node s (Some i) off buf = Some (s', int (length buf))" "fs_inv s'"
      "contents (fs_nodes s' ! i) = overwrite (contents (fs_nodes s ! i)) (unat off) buf"
      "vn_type (fs_nodes s' ! i) = VFS_NODE_FILE" "length (fs_nodes s') = length (fs_nodes s)"
      "\<forall>j. j \<noteq> i \<longrightarrow> fs_nodes s' ! j = fs_nodes s ! j" "\<forall>cs. resolve (fs_nodes s') 0 cs = resolve (fs_nodes s) 0 cs"
    have "vfs_read_node s' (Some i) off (length buf) = Some (Inr buf)" using rd [OF s'(2,4,5)] s'(3) rb by simp
    then show ?thesis using s' rd [OF s'(2,4,5)] by blast
  qed simp
qed

theorem vfs_write_read_witness:
  "\<exists>s'. vfs_write_node file_fs (Some 1) 6 [9, 8] = Some (s', 2) \<and> contents (fs_nodes s' ! 1) = [1, 2, 3, 4, 0, 0, 9, 8]
     \<and> vfs_read_node s' (Some 1) 3 4 = Some (Inr [4, 0, 0, 9])"
proof -
  have ok: "vfs_write_node file_fs (Some 1) 6 [9, 8] \<noteq> Some (file_fs, -1)"
    by (simp add: vfs_write_node_def write_buffer_def grow_data_def file_fs_def root_fs_def fs_boot_def dir_node_def Let_def
        a_kmalloc_def a_split_def align16_def szadd_def KERNEL_HEAP_SIZE_def)
  have c: "contents (fs_nodes file_fs ! 1) = [1, 2, 3, 4]"
    by (simp add: file_fs_def root_fs_def fs_boot_def dir_node_def contents_def)
  have r2: "replicate 2 (0 :: u8) = [0, 0]" by (simp add: numeral_2_eq_2)
  have "unat (6 :: u64) = 6" "unat (3 :: u64) = 3" by simp_all
  moreover have "1 < length (fs_nodes file_fs)" "vn_type (fs_nodes file_fs ! 1) = VFS_NODE_FILE"
    by (simp_all add: file_fs_def root_fs_def fs_boot_def dir_node_def)
  ultimately show ?thesis using vfs_write_read [OF file_fs_inv, of 1 6 "[9, 8]"] ok c
    by (auto simp: overwrite_def r2)
qed

text \<open>
  The end of a write is computed modulo \<open>2^64\<close>.  When offset and length wrap to an end within
  the file, \<open>vfs_write_node\<close> does not grow the buffer and copies to the offset, outside of it.
\<close>

lemma vfs_write_node_wraps:
  assumes "vn_type (fs_nodes s ! i) = VFS_NODE_FILE" "\<not> vn_borrowed (fs_nodes s ! i)"
    and "vn_data (fs_nodes s ! i) = Some d" "length d < 2 ^ 64"
    and "2 ^ 64 \<le> unat off + length buf" "length buf < 2 ^ 64" "unat off + length buf - 2 ^ 64 \<le> unat (vn_size (fs_nodes s ! i))"
  shows "vfs_write_node s (Some i) off buf = None"
proof -
  have "unat (off + word_of_nat (length buf)) = unat off + length buf - 2 ^ 64"
  proof -
    have "(unat off + length buf) mod 2 ^ 64 = unat off + length buf - 2 ^ 64"
      using assms(5,6) unsigned_less [where ?'a = nat, of off] by (subst le_mod_geq) simp_all
    then show ?thesis using assms(6) by (simp add: unat_word_ariths unat_of_nat)
  qed
  then have "\<not> off + word_of_nat (length buf) > vn_size (fs_nodes s ! i)" using assms(7) by (simp add: word_less_nat_alt)
  then have w: "write_buffer (fs_heap s) (fs_nodes s ! i) (off + word_of_nat (length buf)) = Some (Some (fs_heap s, fs_nodes s ! i))"
    using assms(2) by (simp add: write_buffer_def)
  have "buf \<noteq> []" using assms(5) unsigned_less [where ?'a = nat, of off] by auto
  then show ?thesis using w assms(1,3,4,5) by (simp add: vfs_write_node_def)
qed

end
