(* ===== verification/Tfs_Mount.thy ===== *)
theory Tfs_Mount
  imports Vfs_Ops
begin

text \<open>
  Mounting, the second half of \<open>kernel/fs/tfs.c\<close>: \<open>mount_entries_from_memory\<close> builds the tree from
  a TFS image, \<open>tfs_mount_disk\<close> and \<open>tfs_mount_installed_root\<close> find and read an image on a disk,
  and \<open>tfs_attach_persistent_disk\<close> switches persistence on.

  An image is the list of its bytes.  Fields are read little-endian at their offsets in the C
  structures; a read outside the image is \<open>None\<close>.  Sums of 64-bit fields wrap.
\<close>

definition TFS_SYNC_BUFFER_MAX :: nat where "TFS_SYNC_BUFFER_MAX = 0x20000000"
definition TFS_DEFAULT_ROOT_LBA :: u64 where "TFS_DEFAULT_ROOT_LBA = 526336"

definition fld :: "u8 list \<Rightarrow> nat \<Rightarrow> nat \<Rightarrow> nat" where
  "fld img off k = le_nat (take k (drop off img))"

text \<open>
  The entry at byte \<open>off\<close> of a table: its fields, and the string that starts in \<open>path\<close>, which
  must end inside the table.
\<close>

definition entry_at :: "u8 list \<Rightarrow> nat \<Rightarrow> tfs_entry option" where
  "entry_at img off =
     (if off + sizeof_entry > length img \<or> 0 \<notin> set (drop (off + 40) img) then None
      else Some \<lparr>te_type = word_of_nat (fld img off 4), te_mode = word_of_nat (fld img (off + 4) 4),
                 te_uid = word_of_nat (fld img (off + 8) 4), te_gid = word_of_nat (fld img (off + 12) 4),
                 te_size = word_of_nat (fld img (off + 16) 8), te_offset = word_of_nat (fld img (off + 24) 8),
                 te_mtime = word_of_nat (fld img (off + 32) 8),
                 te_path = takeWhile (\<lambda>c. c \<noteq> 0) (drop (off + 40) img)\<rparr>)"

text \<open>The fields that a file's node gets, and its data: a pointer into the image or a copy.\<close>

definition mount_node :: "fs_state \<Rightarrow> u8 list \<Rightarrow> bool \<Rightarrow> tfs_entry \<Rightarrow> nat \<Rightarrow> (fs_state \<times> bool) option" where
  "mount_node s img borrowed e i =
     (let n = (fs_nodes s ! i)\<lparr>vn_uid := te_uid e, vn_gid := te_gid e, vn_mode := VFS_S_IFREG OR (te_mode e AND 0xfff),
                               vn_size := te_size e, vn_modified := te_mtime e\<rparr>;
          s1 = s\<lparr>fs_nodes := (fs_nodes s)[i := n]\<rparr> in
      if te_size e = 0 then Some (s1, True)
      else if borrowed then
        Some (s\<lparr>fs_nodes := (fs_nodes s)[i := n\<lparr>vn_data := Some (drop (unat (te_offset e)) img), vn_borrowed := True\<rparr>]\<rparr>, True)
      else case a_kmalloc (fs_heap s) (unat (te_size e + 1)) of
        None \<Rightarrow> Some (s1, False)
      | Some (_, heap) \<Rightarrow>
          if unat (te_offset e) + unat (te_size e) > length img then None
          else Some (s\<lparr>fs_heap := heap, fs_nodes := (fs_nodes s)[i := n\<lparr>
                 vn_data := Some (take (unat (te_size e)) (drop (unat (te_offset e)) img) @ [0]), vn_borrowed := False\<rparr>]\<rparr>, True))"

text \<open>One turn of the loop; the flag is false when the function returns -1.\<close>

definition mount_entry :: "fs_state \<Rightarrow> u8 list \<Rightarrow> bool \<Rightarrow> tfs_entry \<Rightarrow> (fs_state \<times> bool) option" where
  "mount_entry s img borrowed e =
     (if te_path e = [] \<or> te_path e = [slash] then Some (s, True)
      else if te_type e = TFS_ENTRY_DIR then
        map_option (\<lambda>(s', _). (s', True))
          (vfs_mkdir s (Some (te_path e)) (Some (bytes_of ''/'')) (VFS_S_IFDIR OR (te_mode e AND 0xfff)) (te_uid e) (te_gid e))
      else if te_type e = TFS_ENTRY_FILE then
        if te_offset e + te_size e > word_of_nat (length img) then Some (s, False)
        else case vfs_create_file s (Some (te_path e)) (Some (bytes_of ''/'')) (VFS_S_IFREG OR (te_mode e AND 0xfff)) (te_uid e) (te_gid e) of
          None \<Rightarrow> None
        | Some (s1, _) \<Rightarrow>
            (case vfs_lookup s1 (Some (te_path e)) (Some (bytes_of ''/'')) of
               None \<Rightarrow> None
             | Some None \<Rightarrow> Some (s1, True)
             | Some (Some i) \<Rightarrow> mount_node s1 img borrowed e i)
      else Some (s, True))"

primrec mount_loop :: "nat \<Rightarrow> nat \<Rightarrow> fs_state \<Rightarrow> u8 list \<Rightarrow> bool \<Rightarrow> (fs_state \<times> int) option" where
  "mount_loop 0 off s img borrowed = Some (s, 0)"
| "mount_loop (Suc k) off s img borrowed =
     (case entry_at img off of
        None \<Rightarrow> None
      | Some e \<Rightarrow>
          (case mount_entry s img borrowed e of
             None \<Rightarrow> None
           | Some (s', ok) \<Rightarrow> if ok then mount_loop k (off + sizeof_entry) s' img borrowed else Some (s', -1)))"

definition mount_entries_from_memory :: "fs_state \<Rightarrow> u8 list option \<Rightarrow> bool \<Rightarrow> (fs_state \<times> int) option" where
  "mount_entries_from_memory s image_ptr borrowed =
     (case image_ptr of
        None \<Rightarrow> Some (s, -1)
      | Some img \<Rightarrow>
          if length img < sizeof_header then Some (s, -1)
          else if take 8 img \<noteq> TFS_MAGIC \<or> fld img 8 4 \<noteq> TFS_VERSION then Some (s, -1)
          else if szadd (fld img 16 8) (szmul (fld img 12 4) sizeof_entry) > length img then Some (s, -1)
          else mount_loop (fld img 12 4) (fld img 16 8) s img borrowed)"

definition tfs_mount_image :: "fs_state \<Rightarrow> u8 list option \<Rightarrow> (fs_state \<times> int) option" where
  "tfs_mount_image s image_ptr =
     mount_entries_from_memory (s\<lparr>fs_persistent := False, fs_auto_sync := False\<rparr>) image_ptr True"

subsection \<open>Disks\<close>

text \<open>The end of the last file of a table that was read into a buffer.\<close>

primrec table_end :: "nat \<Rightarrow> nat \<Rightarrow> u8 list \<Rightarrow> u64 \<Rightarrow> u64" where
  "table_end 0 off tab max_end = max_end"
| "table_end (Suc k) off tab max_end =
     (let fin = word_of_nat (fld tab (off + 24) 8) + word_of_nat (fld tab (off + 16) 8) :: u64 in
      table_end k (off + sizeof_entry) tab
        (if word_of_nat (fld tab off 4) = TFS_ENTRY_FILE \<and> fin > max_end then fin else max_end))"

definition tfs_mount_disk :: "fs_state \<Rightarrow> u8 list option \<Rightarrow> u64 \<Rightarrow> (fs_state \<times> int) option" where
  "tfs_mount_disk s device start_lba =
     (if device = None \<or> device = Some [] then Some (s, -1)
      else let dev = the device in
      case block_read (fs_disks s) dev start_lba 512 of
        None \<Rightarrow> Some (s, -1)
      | Some sector \<Rightarrow>
          if take 8 sector \<noteq> TFS_MAGIC \<or> fld sector 8 4 \<noteq> TFS_VERSION then Some (s, -1)
          else
            let count = fld sector 12 4; entries_offset = fld sector 16 8; data_offset = fld sector 24 8 in
            if count > TFS_MAX_ENTRIES \<or> entries_offset > TFS_SYNC_BUFFER_MAX \<or> data_offset > TFS_SYNC_BUFFER_MAX then Some (s, -1)
            else
              let entries_bytes = count * sizeof_entry;
                  entries_end = entries_offset + entries_bytes in
              case a_kmalloc (fs_heap s) (if entries_bytes \<noteq> 0 then entries_bytes else 1) of
                None \<Rightarrow> Some (s, -1)
              | Some (_, heap1) \<Rightarrow>
                  let s1 = s\<lparr>fs_heap := heap1\<rparr> in
                  (case (if entries_bytes = 0 then Some []
                         else block_read (fs_disks s1) dev (start_lba + word_of_nat (entries_offset div 512)) entries_bytes) of
                     None \<Rightarrow> Some (s1, -1)
                   | Some tab \<Rightarrow>
                       let max_end = table_end count 0 tab (word_of_nat entries_end);
                           image_size = (max_end + 511) AND NOT 511;
                           image_size = (if image_size < word_of_nat data_offset then word_of_nat data_offset else image_size) in
                       if unat image_size > TFS_SYNC_BUFFER_MAX then Some (s1, -1)
                       else (case a_kmalloc (fs_heap s1) (unat image_size) of
                               None \<Rightarrow> Some (s1, -1)
                             | Some (_, heap2) \<Rightarrow>
                                 let s2 = s1\<lparr>fs_heap := heap2\<rparr> in
                                 (case block_read (fs_disks s2) dev start_lba (unat image_size) of
                                    None \<Rightarrow> Some (s2, -1)
                                  | Some img \<Rightarrow>
                                      (case mount_entries_from_memory (s2\<lparr>fs_persistent := False, fs_auto_sync := False\<rparr>) (Some img) False of
                                         None \<Rightarrow> None
                                       | Some (s3, rc) \<Rightarrow>
                                           if rc < 0 then Some (s3, -1)
                                           else Some (s3\<lparr>fs_device := take 15 dev, fs_start_lba := start_lba,
                                                        fs_last_size := image_size, fs_persistent := True,
                                                        fs_auto_sync := True\<rparr>, 0))))))"

text \<open>\<open>gpt_find_root_lba\<close>: the first sector of the second partition.\<close>

definition gpt_find_root_lba :: "ata_device list \<Rightarrow> u8 list \<Rightarrow> u64 option" where
  "gpt_find_root_lba disks dev =
     (case block_read disks dev 1 512 of
        None \<Rightarrow> None
      | Some sector \<Rightarrow>
          if take 8 sector \<noteq> bytes_of ''EFI PART'' then None
          else
            let entry_lba = word_of_nat (fld sector 72 8) :: u64;
                num = fld sector 80 4; entry_size = fld sector 84 4 in
            if entry_size < 128 \<or> num < 2 then None
            else if entry_size = 0 \<or> entry_size > 512 then None
            else (case block_read disks dev (entry_lba + word_of_nat (entry_size div 512)) 512 of
                    None \<Rightarrow> None
                  | Some entries \<Rightarrow>
                      if entry_size mod 512 + entry_size > 512 then None
                      else let first_lba = word_of_nat (fld entries (entry_size mod 512 + 32) 8) :: u64 in
                        if first_lba = 0 then None else Some first_lba))"

definition root_lba :: "ata_device list \<Rightarrow> u8 list \<Rightarrow> u64" where
  "root_lba disks dev = (case gpt_find_root_lba disks dev of None \<Rightarrow> TFS_DEFAULT_ROOT_LBA | Some l \<Rightarrow> l)"

definition tfs_candidates :: "u8 list list" where
  "tfs_candidates = [bytes_of ''sda'', bytes_of ''sdb'', bytes_of ''sdc'', bytes_of ''sdd'']"

fun mount_first :: "fs_state \<Rightarrow> u8 list list \<Rightarrow> (fs_state \<times> int) option" where
  "mount_first s [] = Some (s, -1)"
| "mount_first s (dev # devs) =
     (if \<not> block_device_find (fs_disks s) dev then mount_first s devs
      else case tfs_mount_disk s (Some dev) (root_lba (fs_disks s) dev) of
             None \<Rightarrow> None
           | Some (s', rc) \<Rightarrow> if rc = 0 then Some (s', 0) else mount_first s' devs)"

definition tfs_mount_installed_root :: "fs_state \<Rightarrow> (fs_state \<times> int) option" where
  "tfs_mount_installed_root s = mount_first s tfs_candidates"

text \<open>
  The loop of \<open>tfs_attach_persistent_disk\<close>.  Whether the sector holds a TFS header only selects
  a log line; the result of the sync is only logged.
\<close>

fun attach_first :: "fs_state \<Rightarrow> u8 list list \<Rightarrow> (fs_state \<times> int) option" where
  "attach_first s [] = Some (s, -1)"
| "attach_first s (dev # devs) =
     (if \<not> block_device_find (fs_disks s) dev then attach_first s devs
      else let lba = root_lba (fs_disks s) dev in
        case block_read (fs_disks s) dev lba 512 of
          None \<Rightarrow> attach_first s devs
        | Some _ \<Rightarrow>
            map_option (\<lambda>(s', _). (s', 0))
              (tfs_sync (s\<lparr>fs_device := take 15 dev, fs_start_lba := lba, fs_last_size := 0,
                          fs_persistent := True, fs_auto_sync := True\<rparr>)))"

definition tfs_attach_persistent_disk :: "fs_state \<Rightarrow> (fs_state \<times> int) option" where
  "tfs_attach_persistent_disk s = (if fs_persistent s then Some (s, 0) else attach_first s tfs_candidates)"

subsection \<open>The layout that \<open>tfs_sync\<close> writes is the layout that is read\<close>

lemma fld_to_le: "length xs = off \<Longrightarrow> n < 256 ^ k \<Longrightarrow> fld (xs @ to_le k n @ ys) off k = n"
  by (simp add: fld_def le_nat_to_le)

lemma fld_append: "off + k \<le> length xs \<Longrightarrow> fld (xs @ ys) off k = fld xs off k"
  by (simp add: fld_def)

lemma fld_shift: "length pre = off \<Longrightarrow> fld (pre @ xs) (off + j) k = fld xs j k"
  by (simp add: fld_def)

lemma length_magic [simp]: "length TFS_MAGIC = 8"
  by (simp add: TFS_MAGIC_def bytes_of_def)

lemma header_fields:
  assumes "n < 2 ^ 32"
  shows "length (header_bytes n eo dof) = 32" "take 8 (header_bytes n eo dof) = TFS_MAGIC" "fld (header_bytes n eo dof) 8 4 = TFS_VERSION"
    "fld (header_bytes n eo dof) 12 4 = n" "fld (header_bytes n eo dof) 16 8 = unat eo"
proof -
  let ?m = "TFS_MAGIC" and ?v = "to_le 4 TFS_VERSION" and ?n = "to_le 4 n" and ?e = "to_le 8 (unat eo)" and ?d = "to_le 8 (unat dof)"
  show "length (header_bytes n eo dof) = 32" "take 8 (header_bytes n eo dof) = TFS_MAGIC" by (simp_all add: header_bytes_def)
  show "fld (header_bytes n eo dof) 8 4 = TFS_VERSION"
    using fld_to_le [of ?m 8 TFS_VERSION 4] by (simp add: header_bytes_def TFS_VERSION_def)
  show "fld (header_bytes n eo dof) 12 4 = n"
    using fld_to_le [of "?m @ ?v" 12 n 4] assms by (simp add: header_bytes_def)
  show "fld (header_bytes n eo dof) 16 8 = unat eo"
    using fld_to_le [of "?m @ ?v @ ?n" 16 "unat eo" 8 ?d] unsigned_less [where ?'a = nat, of eo] by (simp add: header_bytes_def)
qed

definition entry_ok :: "tfs_entry \<Rightarrow> bool" where
  "entry_ok e \<longleftrightarrow> length (te_path e) < TFS_PATH_MAX \<and> 0 \<notin> set (te_path e)"

lemma length_entry_bytes: "entry_ok e \<Longrightarrow> length (entry_bytes e) = sizeof_entry"
  by (simp add: entry_bytes_def entry_ok_def TFS_PATH_MAX_def sizeof_entry_def)

lemma u32_le4: "unat (w :: u32) < 256 ^ 4"
  using unsigned_less [where ?'a = nat, of w] by simp

lemma u64_le8: "unat (w :: u64) < 256 ^ 8"
  using unsigned_less [where ?'a = nat, of w] by simp

lemma entry_fields:
  "fld (entry_bytes e) 0 4 = unat (te_type e)" "fld (entry_bytes e) 4 4 = unat (te_mode e)"
  "fld (entry_bytes e) 8 4 = unat (te_uid e)" "fld (entry_bytes e) 12 4 = unat (te_gid e)"
  "fld (entry_bytes e) 16 8 = unat (te_size e)" "fld (entry_bytes e) 24 8 = unat (te_offset e)" "fld (entry_bytes e) 32 8 = unat (te_mtime e)"
proof -
  let ?t = "to_le 4 (unat (te_type e))" and ?m = "to_le 4 (unat (te_mode e))" and ?u = "to_le 4 (unat (te_uid e))"
    and ?g = "to_le 4 (unat (te_gid e))" and ?s = "to_le 8 (unat (te_size e))" and ?o = "to_le 8 (unat (te_offset e))"
  show "fld (entry_bytes e) 0 4 = unat (te_type e)"
    using fld_to_le [of "[]" 0 "unat (te_type e)" 4] u32_le4 by (simp add: entry_bytes_def)
  show "fld (entry_bytes e) 4 4 = unat (te_mode e)"
    using fld_to_le [of ?t 4 "unat (te_mode e)" 4] u32_le4 by (simp add: entry_bytes_def)
  show "fld (entry_bytes e) 8 4 = unat (te_uid e)"
    using fld_to_le [of "?t @ ?m" 8 "unat (te_uid e)" 4] u32_le4 by (simp add: entry_bytes_def)
  show "fld (entry_bytes e) 12 4 = unat (te_gid e)"
    using fld_to_le [of "?t @ ?m @ ?u" 12 "unat (te_gid e)" 4] u32_le4 by (simp add: entry_bytes_def)
  show "fld (entry_bytes e) 16 8 = unat (te_size e)"
    using fld_to_le [of "?t @ ?m @ ?u @ ?g" 16 "unat (te_size e)" 8] u64_le8 by (simp add: entry_bytes_def)
  show "fld (entry_bytes e) 24 8 = unat (te_offset e)"
    using fld_to_le [of "?t @ ?m @ ?u @ ?g @ ?s" 24 "unat (te_offset e)" 8] u64_le8 by (simp add: entry_bytes_def)
  show "fld (entry_bytes e) 32 8 = unat (te_mtime e)"
    using fld_to_le [of "?t @ ?m @ ?u @ ?g @ ?s @ ?o" 32 "unat (te_mtime e)" 8] u64_le8 by (simp add: entry_bytes_def)
qed

lemma entry_at_bytes:
  assumes ok: "entry_ok e" and off: "length pre = off"
  shows "entry_at (pre @ entry_bytes e @ post) off = Some e"
proof -
  let ?img = "pre @ entry_bytes e @ post"
  have F: "fld ?img (off + j) k = fld (entry_bytes e) j k" if "j + k \<le> sizeof_entry" for j k
    using fld_shift [OF off, of "entry_bytes e @ post" j k] fld_append [of j k "entry_bytes e" post] that length_entry_bytes [OF ok] by simp
  have len: "off + sizeof_entry \<le> length ?img" using off length_entry_bytes [OF ok] by simp
  have path: "drop (off + 40) ?img = te_path e @ replicate (TFS_PATH_MAX - length (te_path e)) 0 @ post"
    using off by (simp add: entry_bytes_def)
  obtain r where r: "replicate (TFS_PATH_MAX - length (te_path e)) (0 :: u8) = 0 # r"
    using ok by (cases "TFS_PATH_MAX - length (te_path e)") (auto simp: entry_ok_def)
  have tw: "takeWhile (\<lambda>c. c \<noteq> 0) (drop (off + 40) ?img) = te_path e"
    unfolding path r using ok by (subst takeWhile_append2) (auto simp: entry_ok_def)
  have z: "0 \<in> set (drop (off + 40) ?img)" unfolding path r by simp
  have f0: "fld ?img off 4 = unat (te_type e)" using F [of 0 4] by (simp add: entry_fields sizeof_entry_def)
  have fs: "fld ?img (off + 4) 4 = unat (te_mode e)" "fld ?img (off + 8) 4 = unat (te_uid e)" "fld ?img (off + 12) 4 = unat (te_gid e)"
    "fld ?img (off + 16) 8 = unat (te_size e)" "fld ?img (off + 24) 8 = unat (te_offset e)" "fld ?img (off + 32) 8 = unat (te_mtime e)"
    by (subst F; simp add: sizeof_entry_def entry_fields)+
  show ?thesis unfolding entry_at_def f0 fs tw using len z by simp
qed

subsection \<open>What mounting does to the map of files\<close>

definition mount_spec :: "u8 list \<Rightarrow> tfs_entry \<Rightarrow> vmap \<Rightarrow> vmap" where
  "mount_spec img e m =
     (let path = path_comps (Some (te_path e)) (Some (bytes_of ''/'')) in
      if te_path e = [] \<or> te_path e = [slash] then m
      else if te_type e = TFS_ENTRY_DIR then
        fst (add_spec VFS_NODE_DIR (VFS_S_IFDIR OR (te_mode e AND 0xfff)) (te_uid e) (te_gid e) path True m)
      else if te_type e = TFS_ENTRY_FILE then
        (let m1 = fst (add_spec VFS_NODE_FILE (VFS_S_IFREG OR (te_mode e AND 0xfff)) (te_uid e) (te_gid e) path True m) in
         case path of
           None \<Rightarrow> m1
         | Some cs \<Rightarrow>
             (case m1 cs of
                None \<Rightarrow> m1
              | Some (t, _) \<Rightarrow> m1(cs \<mapsto> (t, VFS_S_IFREG OR (te_mode e AND 0xfff), te_uid e, te_gid e,
                                         take (unat (te_size e)) (drop (unat (te_offset e)) img)))))
      else m)"

definition in_image :: "u8 list \<Rightarrow> tfs_entry \<Rightarrow> bool" where
  "in_image img e \<longleftrightarrow> (te_type e = TFS_ENTRY_FILE \<longrightarrow> unat (te_offset e) + unat (te_size e) \<le> length img)"

lemma fs_inv_clock: "fs_inv (s\<lparr>fs_nodes := ns, fs_clock := c, fs_heap := h\<rparr>) = fs_inv (s\<lparr>fs_nodes := ns\<rparr>)"
  "fs_map (s\<lparr>fs_nodes := ns, fs_clock := c, fs_heap := h\<rparr>) = fs_map (s\<lparr>fs_nodes := ns\<rparr>)"
  by (simp_all add: fs_inv_def fs_map_def fun_eq_iff)

lemma mount_node_ok:
  assumes inv: "fs_inv s" and r: "resolve (fs_nodes s) 0 cs = Some i"
    and im: "unat (te_offset e) + unat (te_size e) \<le> length img" "length img < 2 ^ 63"
  shows "\<exists>s'. mount_node s img True e i = Some (s', True) \<and> fs_inv s' \<and> length (fs_nodes s') = length (fs_nodes s) \<and>
     fs_map s' = (fs_map s)(cs \<mapsto> (vn_type (fs_nodes s ! i), VFS_S_IFREG OR (te_mode e AND 0xfff), te_uid e, te_gid e,
                                  take (unat (te_size e)) (drop (unat (te_offset e)) img)))"
proof -
  define f :: "vfs_node \<Rightarrow> vfs_node" where "f = (\<lambda>n. if te_size e = 0
     then n\<lparr>vn_uid := te_uid e, vn_gid := te_gid e, vn_mode := VFS_S_IFREG OR (te_mode e AND 0xfff), vn_size := te_size e, vn_modified := te_mtime e\<rparr>
     else n\<lparr>vn_uid := te_uid e, vn_gid := te_gid e, vn_mode := VFS_S_IFREG OR (te_mode e AND 0xfff), vn_size := te_size e, vn_modified := te_mtime e,
            vn_data := Some (drop (unat (te_offset e)) img), vn_borrowed := True\<rparr>)"
  let ?n = "fs_nodes s ! i"
  have "unat (te_size e) \<le> length img - unat (te_offset e)" "unat (te_size e) < 2 ^ 63" using im by linarith+
  then have k: "keeps_links f ?n" by (simp add: f_def keeps_links_def data_ok_def)
  have "node_view (f ?n) = (vn_type ?n, VFS_S_IFREG OR (te_mode e AND 0xfff), te_uid e, te_gid e,
      take (unat (te_size e)) (drop (unat (te_offset e)) img))"
    by (simp add: f_def node_view_def contents_def)
  moreover have "mount_node s img True e i = Some (s\<lparr>fs_nodes := (fs_nodes s)[i := f ?n]\<rparr>, True)"
    by (simp add: mount_node_def f_def Let_def)
  ultimately show ?thesis
    using update_node_map [OF inv r k, where t = 0 and h = "[]"] by (simp add: fs_inv_clock)
qed

lemma unat_sum: "unat a + unat b < 2 ^ 64 \<Longrightarrow> unat (a + b :: u64) = unat a + unat b"
  by (simp add: unat_word_ariths)

lemma mount_entry_ok:
  assumes inv: "fs_inv s" and room: "length (fs_nodes s) < VFS_MAX_NODES" and ok: "entry_ok e"
    and im: "in_image img e" "length img < 2 ^ 63"
  shows "\<exists>s'. mount_entry s img True e = Some (s', True) \<and> fs_inv s' \<and> fs_map s' = mount_spec img e (fs_map s) \<and>
     length (fs_nodes s') \<le> Suc (length (fs_nodes s))"
proof -
  let ?p = "Some (te_path e)" and ?r = "Some (bytes_of ''/'')"
  have nf: "nul_free ?p" "nul_free ?r" using ok by (auto simp: entry_ok_def bytes_of_def)
  consider "te_path e = [] \<or> te_path e = [slash]" | "te_path e \<noteq> [] \<and> te_path e \<noteq> [slash]" "te_type e = TFS_ENTRY_DIR"
    | "te_path e \<noteq> [] \<and> te_path e \<noteq> [slash]" "te_type e = TFS_ENTRY_FILE"
    | "te_path e \<noteq> [] \<and> te_path e \<noteq> [slash]" "te_type e \<noteq> TFS_ENTRY_DIR" "te_type e \<noteq> TFS_ENTRY_FILE" by blast
  then show ?thesis
  proof cases
    case 1
    then show ?thesis using inv by (auto simp: mount_entry_def mount_spec_def Let_def)
  next
    case 4
    then show ?thesis using inv by (simp add: mount_entry_def mount_spec_def Let_def)
  next
    case 2
    obtain s' rc where a: "vfs_mkdir s ?p ?r (VFS_S_IFDIR OR (te_mode e AND 0xfff)) (te_uid e) (te_gid e) = Some (s', rc)" "fs_inv s'"
      "(fs_map s', rc) = add_spec VFS_NODE_DIR (VFS_S_IFDIR OR (te_mode e AND 0xfff)) (te_uid e) (te_gid e) (path_comps ?p ?r) True (fs_map s)"
      "length (fs_nodes s') \<le> Suc (length (fs_nodes s))"
      using vfs_add_ok [OF inv nf, of VFS_NODE_DIR "VFS_S_IFDIR OR (te_mode e AND 0xfff)" "te_uid e" "te_gid e"] room
      unfolding vfs_mkdir_def by auto
    have "fs_map s' = mount_spec img e (fs_map s)" unfolding mount_spec_def Let_def a(3) [symmetric] using 2 by simp
    then show ?thesis using a 2 by (simp add: mount_entry_def)
  next
    case 3
    let ?mode = "VFS_S_IFREG OR (te_mode e AND 0xfff)"
    have ne: "(te_path e = [] \<or> te_path e = [slash]) = False" "(te_type e = TFS_ENTRY_DIR) = False"
      using 3 by (auto simp: TFS_ENTRY_FILE_def TFS_ENTRY_DIR_def)
    have im': "unat (te_offset e) + unat (te_size e) \<le> length img" using im(1) 3 by (simp add: in_image_def)
    then have "unat (te_offset e + te_size e) \<le> length img" using unat_sum [of "te_offset e" "te_size e"] im(2) by simp
    then have nb: "\<not> te_offset e + te_size e > word_of_nat (length img)"
      using unat_length [OF im(2)] by (simp add: word_less_nat_alt)
    obtain s1 rc where a: "vfs_create_file s ?p ?r ?mode (te_uid e) (te_gid e) = Some (s1, rc)" "fs_inv s1"
      "(fs_map s1, rc) = add_spec VFS_NODE_FILE ?mode (te_uid e) (te_gid e) (path_comps ?p ?r) True (fs_map s)"
      "length (fs_nodes s1) \<le> Suc (length (fs_nodes s))"
      using vfs_add_ok [OF inv nf, of VFS_NODE_FILE ?mode "te_uid e" "te_gid e"] room
      unfolding vfs_create_file_def by auto
    note L = vfs_lookup_resolve [OF a(2) nf]
    have spec: "mount_spec img e (fs_map s) = (case path_comps ?p ?r of None \<Rightarrow> fs_map s1
         | Some cs \<Rightarrow> (case fs_map s1 cs of None \<Rightarrow> fs_map s1
              | Some (t, _) \<Rightarrow> (fs_map s1)(cs \<mapsto> (t, ?mode, te_uid e, te_gid e, take (unat (te_size e)) (drop (unat (te_offset e)) img)))))"
      unfolding mount_spec_def Let_def a(3) [symmetric] fst_conv ne if_False using 3(2) by simp
    have me: "mount_entry s img True e = (case vfs_lookup s1 ?p ?r of None \<Rightarrow> None | Some None \<Rightarrow> Some (s1, True)
        | Some (Some i) \<Rightarrow> mount_node s1 img True e i)"
      unfolding mount_entry_def ne if_False using 3(2) nb a(1) by simp
    show ?thesis
    proof (cases "path_comps ?p ?r")
      case None
      then show ?thesis using me L spec a by simp
    next
      case (Some cs)
      show ?thesis
      proof (cases "resolve (fs_nodes s1) 0 cs")
        case None
        then show ?thesis using me L spec a Some by (simp add: fs_map_def)
      next
        case r: (Some i)
        obtain s' where s': "mount_node s1 img True e i = Some (s', True)" "fs_inv s'" "length (fs_nodes s') = length (fs_nodes s1)"
          "fs_map s' = (fs_map s1)(cs \<mapsto> (vn_type (fs_nodes s1 ! i), ?mode, te_uid e, te_gid e, take (unat (te_size e)) (drop (unat (te_offset e)) img)))"
          using mount_node_ok [OF a(2) r im' im(2)] by blast
        have "fs_map s1 cs = Some (node_view (fs_nodes s1 ! i))" using r by (simp add: fs_map_def)
        then show ?thesis using me L spec a(4) Some r s' by (simp add: node_view_def)
      qed
    qed
  qed
qed

lemma mount_loop_ok:
  assumes im: "length img < 2 ^ 63" "img = pre @ concat (map entry_bytes es) @ post" "length pre = off"
    and ok: "\<forall>e \<in> set es. entry_ok e \<and> in_image img e"
    and inv: "fs_inv s" "length (fs_nodes s) + length es \<le> VFS_MAX_NODES"
  shows "\<exists>s'. mount_loop (length es) off s img True = Some (s', 0) \<and> fs_inv s' \<and> fs_map s' = fold (mount_spec img) es (fs_map s)"
  using assms(2-)
proof (induction es arbitrary: pre off s)
  case (Cons e es)
  have e: "entry_ok e" "in_image img e" using Cons.prems(3) by simp_all
  have at: "entry_at img off = Some e"
    using entry_at_bytes [OF e(1) Cons.prems(2), of "concat (map entry_bytes es) @ post"] Cons.prems(1) by simp
  obtain s1 where s1: "mount_entry s img True e = Some (s1, True)" "fs_inv s1" "fs_map s1 = mount_spec img e (fs_map s)"
    "length (fs_nodes s1) \<le> Suc (length (fs_nodes s))"
    using mount_entry_ok [OF Cons.prems(4) _ e im(1)] Cons.prems(5) by auto
  have i: "img = (pre @ entry_bytes e) @ concat (map entry_bytes es) @ post" using Cons.prems(1) by simp
  have l: "length (pre @ entry_bytes e) = off + sizeof_entry" using Cons.prems(2) length_entry_bytes [OF e(1)] by simp
  have o: "\<forall>e \<in> set es. entry_ok e \<and> in_image img e" and c: "length (fs_nodes s1) + length es \<le> VFS_MAX_NODES"
    using Cons.prems(3,5) s1(4) by simp_all
  obtain s' where "mount_loop (length es) (off + sizeof_entry) s1 img True = Some (s', 0)" "fs_inv s'"
    "fs_map s' = fold (mount_spec img) es (fs_map s1)"
    using Cons.IH [OF i l o s1(2) c] by blast
  then show ?case using at s1 by simp
qed simp

text \<open>
  C17: mounting an image laid out as \<open>tfs_sync\<close> lays it out returns 0 and adds its entries.  For a
  header, any gap, the table of entries (paths shorter than 256 bytes and without NUL, files
  inside the image) and any rest, in a well-formed state with free slots for the entries,
  \<open>tfs_mount_image\<close> keeps the invariant, and the new map of files is the old one with the entries
  added in their order: directories and files with the mode and owner of the entry, a file with
  exactly its bytes of the image.
\<close>

theorem tfs_mount_image_correct:
  assumes "fs_inv s" "length (fs_nodes s) + length es \<le> VFS_MAX_NODES"
    and "img = header_bytes (length es) eo dof @ gap @ concat (map entry_bytes es) @ rest"
    and "unat eo = sizeof_header + length gap" "length img < 2 ^ 63" "\<forall>e \<in> set es. entry_ok e \<and> in_image img e"
  shows "\<exists>s'. tfs_mount_image s (Some img) = Some (s', 0) \<and> fs_inv s' \<and> fs_map s' = fold (mount_spec img) es (fs_map s)"
proof -
  let ?h = "header_bytes (length es) eo dof" and ?s = "s\<lparr>fs_persistent := False, fs_auto_sync := False\<rparr>"
  have n: "length es < 2 ^ 32" using assms(2) by (simp add: VFS_MAX_NODES_def)
  note H = header_fields [OF n, of eo dof]
  have F: "fld img j k = fld ?h j k" if "j + k \<le> 32" for j k using fld_append [of j k ?h] that H(1) assms(3) by simp
  have "length (concat (map entry_bytes es)) = length es * sizeof_entry"
    using assms(6) by (induction es) (simp_all add: length_entry_bytes)
  then have len: "unat eo + length es * sizeof_entry \<le> length img" using assms(3,4) H(1) by (simp add: sizeof_header_def)
  have chk: "szadd (fld img 16 8) (szmul (fld img 12 4) sizeof_entry) \<le> length img"
    using len assms(5) H F [of 16 8] F [of 12 4] by (simp add: szadd_exact szmul_exact)
  have "take 8 img = TFS_MAGIC" using assms(3) H(1,2) by simp
  moreover have "fs_inv ?s" "fs_map ?s = fs_map s" using assms(1) by (simp_all add: fs_inv_def fs_map_def fun_eq_iff)
  moreover have "length (?h @ gap) = unat eo" using H(1) assms(4) by (simp add: sizeof_header_def)
  moreover have "sizeof_header \<le> length img" using len assms(4) by simp
  ultimately show ?thesis
    using mount_loop_ok [OF assms(5), of "?h @ gap" es rest "unat eo" ?s] assms(2,3,6) chk H F [of 16 8] F [of 12 4] F [of 8 4]
    by (simp add: tfs_mount_image_def mount_entries_from_memory_def)
qed

theorem tfs_mount_image_correct_witness:
  "let e = \<lparr>te_type = TFS_ENTRY_FILE, te_mode = 0x1a4, te_uid = 5, te_gid = 6, te_size = 2, te_offset = 328, te_mtime = 9,
            te_path = bytes_of ''/x''\<rparr>
   in \<exists>s'. tfs_mount_image root_fs (Some (header_bytes 1 32 328 @ entry_bytes e @ [7, 8])) = Some (s', 0) \<and>
        fs_map s' [bytes_of ''x''] = Some (VFS_NODE_FILE, 0x81a4, 5, 6, [7, 8])"
proof -
  define e where "e = \<lparr>te_type = TFS_ENTRY_FILE, te_mode = 0x1a4, te_uid = 5, te_gid = 6, te_size = 2, te_offset = 328, te_mtime = 9,
            te_path = bytes_of ''/x''\<rparr>"
  define img where "img = header_bytes (length [e]) 32 328 @ [] @ concat (map entry_bytes [e]) @ [7, 8]"
  have ok: "entry_ok e" by (simp add: e_def entry_ok_def TFS_PATH_MAX_def bytes_of_def)
  have len: "length (header_bytes (length [e]) 32 328) = 32" "length (entry_bytes e) = 296"
    using header_fields(1) [of 1 32 328] length_entry_bytes [OF ok] by (simp_all add: sizeof_entry_def)
  then have im: "length img = 330" "drop 328 img = [7, 8]" by (simp_all add: img_def)
  have inim: "in_image img e" using im(1) by (simp add: in_image_def e_def)
  have rm: "length (fs_nodes root_fs) + length [e] \<le> VFS_MAX_NODES" by (simp add: root_fs_def VFS_MAX_NODES_def)
  have sz: "unat (32 :: u64) = sizeof_header + length ([] :: u8 list)" by (simp add: sizeof_header_def)
  obtain s' where s': "tfs_mount_image root_fs (Some img) = Some (s', 0)" "fs_map s' = fold (mount_spec img) [e] (fs_map root_fs)"
    using tfs_mount_image_correct [OF root_fs_inv rm img_def sz] im(1) ok inim by auto
  have "mount_spec img e (fs_map root_fs) [bytes_of ''x''] = Some (VFS_NODE_FILE, 0x81a4, 5, 6, [7, 8])"
    by (simp add: mount_spec_def Let_def e_def root_path_comps add_spec_def is_dir_def root_fs_map node_view_def dir_node_def
        TFS_ENTRY_FILE_def TFS_ENTRY_DIR_def VFS_S_IFREG_def im(2)) (simp add: bytes_of_def)
  then show ?thesis using s' by (auto simp: Let_def img_def e_def)
qed

end
