(* ===== verification/Printf_Lines.thy ===== *)
theory Printf_Lines
  imports Printf
begin

text \<open>
  Lines printed by \<open>ksnprintf\<close>: the text of the formats that other components use, directive by
  directive, and facts on the printed decimal and hexadecimal numbers.
\<close>

text \<open>A line that \<open>ksnprintf\<close> writes to a buffer of \<open>n\<close> bytes; the formats below have their arguments.\<close>

definition fmt_line :: "nat \<Rightarrow> string \<Rightarrow> arg list \<Rightarrow> u8 list" where
  "fmt_line n fmt args =
     (case ksnprintf n (bytes_of fmt @ [0]) args of
        Some (buf, _) \<Rightarrow> takeWhile (\<lambda>c. c \<noteq> 0) buf
      | None \<Rightarrow> [])"


section \<open>Directives\<close>

lemma unat_ucast_u64 [simp]: "unat (ucast (w :: u32) :: u64) = unat w"
proof -
  have "unat w < 2 ^ 32" using unsigned_less [where ?'a = nat, of w] by simp
  also have "(2 :: nat) ^ 32 < 2 ^ 64" by simp
  finally have "take_bit 64 (unat w) = unat w" by (simp only: take_bit_nat_eq_self_iff)
  moreover have "unat (ucast w :: u64) = take_bit 64 (unat w)" by (simp only: unsigned_ucast_eq) simp
  ultimately show ?thesis by argo
qed

lemma ucast_u64_u32 [simp]: "ucast (ucast (w :: u32) :: u64) = w"
  by transfer simp

lemma ft_end: "format_text [0] args = Some []"
  by (simp add: format_text.simps)

lemma ft_lit: "c \<noteq> 0 \<Longrightarrow> c \<noteq> 37 \<Longrightarrow> format_text (c # f) args = map_option (\<lambda>t. c # t) (format_text f args)"
  by (simp add: format_text.simps [of "c # f"] chr_def)

lemma ft_s: "format_text (37 # 115 # f) (Arg_str s # args) = map_option ((@) (text_of s)) (format_text f args)"
proof -
  have "parse_directive (115 # f) = Some (\<lparr>d_left = False, d_pad = chr CHR '' '', d_width = 0, d_long = False, d_conv = 115\<rparr>, f)"
    by (simp add: parse_directive_def chr_def)
  then show ?thesis by (simp add: format_text.simps [of "37 # _"] chr_def directive_text_def)
qed

lemma ft_u: "format_text (37 # 117 # f) (Arg_int w # args) =
   map_option ((@) (number_text False 10 (unat (ucast w :: u32)))) (format_text f args)"
proof -
  have "parse_directive (117 # f) = Some (\<lparr>d_left = False, d_pad = chr CHR '' '', d_width = 0, d_long = False, d_conv = 117\<rparr>, f)"
    by (simp add: parse_directive_def chr_def)
  then show ?thesis by (simp add: format_text.simps [of "37 # _"] chr_def directive_text_def pad_text_def unsigned_arg_def)
qed

text \<open>A hexadecimal number with leading zeros.\<close>

definition zhex :: "nat \<Rightarrow> nat \<Rightarrow> u8 list" where
  "zhex k n = replicate (k - length (number_text False 16 n)) 48 @ number_text False 16 n"

definition hex_digit :: "u8 \<Rightarrow> bool" where
  "hex_digit c \<longleftrightarrow> c \<in> set (bytes_of ''0123456789abcdef'')"

lemma digit_char_hex: "d < 16 \<Longrightarrow> hex_digit (digit_char False d)"
  by (simp add: hex_digit_def digit_char_def bytes_of_def nth_mem del: set_simps)

lemma hex_digit_neq: "hex_digit c \<Longrightarrow> c \<notin> {0, 10, 36, 45, 58}"
  by (auto simp: hex_digit_def bytes_of_def)

lemma digits_of_hex: "c \<in> set (digits_of False 16 n) \<Longrightarrow> hex_digit c"
proof (induction n rule: less_induct)
  case (less n)
  then show ?case by (cases "n = 0") (auto simp: digits_of.simps [of _ _ n] digits_of.simps [of _ _ 0] digit_char_hex intro: less.IH [of "n div 16"])
qed

lemma digits_of_hex_nonempty: "n \<noteq> 0 \<Longrightarrow> digits_of False 16 n \<noteq> []"
  by (simp add: digits_of.simps [of _ _ n])

lemma number_text_hex: "\<forall>c \<in> set (number_text False 16 n). hex_digit c" "number_text False 16 n \<noteq> []"
  using digits_of_hex digits_of_hex_nonempty [of n] by (auto simp: number_text_def hex_digit_def bytes_of_def chr_def)

lemma number_text_first: "number_text False 16 n \<noteq> [] \<and> hd (number_text False 16 n) \<noteq> 45"
  using number_text_hex [of n] hex_digit_neq by (cases "number_text False 16 n") auto

lemma zhex_hex: "\<forall>c \<in> set (zhex k n). hex_digit c"
  using number_text_hex [of n] by (auto simp: zhex_def hex_digit_def bytes_of_def)

lemma ft_08x: "format_text (37 # 48 # 56 # 120 # f) (Arg_int w # args) =
   map_option ((@) (zhex 8 (unat (ucast w :: u32)))) (format_text f args)"
proof -
  have "parse_directive (48 # 56 # 120 # f) = Some (\<lparr>d_left = False, d_pad = 48, d_width = 8, d_long = False, d_conv = 120\<rparr>, f)"
    by (simp add: parse_directive_def chr_def)
  then show ?thesis using number_text_first
    by (simp add: format_text.simps [of "37 # _"] chr_def directive_text_def pad_text_def unsigned_arg_def zhex_def)
qed

lemma ft_016llx: "format_text (37 # 48 # 49 # 54 # 108 # 108 # 120 # f) (Arg_int w # args) =
   map_option ((@) (zhex 16 (unat w))) (format_text f args)"
proof -
  have "parse_directive (48 # 49 # 54 # 108 # 108 # 120 # f) = Some (\<lparr>d_left = False, d_pad = 48, d_width = 16, d_long = True, d_conv = 120\<rparr>, f)"
    by (simp add: parse_directive_def chr_def)
  then show ?thesis using number_text_first
    by (simp add: format_text.simps [of "37 # _"] chr_def directive_text_def pad_text_def unsigned_arg_def zhex_def)
qed

lemmas ft_simps = ft_end ft_lit ft_s ft_u ft_08x ft_016llx

lemma fmt_line_text:
  assumes f: "format_text (bytes_of fmt @ [0]) args = Some t" and z: "0 \<notin> set t" and l: "length t < n"
  shows "fmt_line n fmt args = t"
proof -
  have "kvsnprintf n (bytes_of fmt @ [0]) args = Some (t @ [0], length t)"
    using kvsnprintf_text [of n "bytes_of fmt @ [0]" args] f l by simp
  moreover have "takeWhile (\<lambda>c. c \<noteq> 0) (t @ [0]) = t" using z by (subst takeWhile_append2) auto
  ultimately show ?thesis by (simp add: fmt_line_def ksnprintf_def)
qed

definition num10 :: "u32 \<Rightarrow> u8 list" where "num10 w = number_text False 10 (unat w)"

lemma num10_digits: "\<forall>c \<in> set (num10 w). is_digit 10 c" "num10 w \<noteq> []"
  by (simp_all add: num10_def number_text_val)

lemma is_digit10_neq: "is_digit 10 c \<Longrightarrow> c \<notin> {0, 10, 58}"
  using digit_not_special [of c] by (auto simp: is_digit_def strtol_digit_def chr_consts split: if_splits)

end
