(* ===== verification/Users.thy ===== *)
theory Users
  imports Printf_Lines Vfs_Ops
begin

text \<open>
  The user database of \<open>kernel/security/user.c\<close>: the table of users, its files \<open>/etc/passwd\<close>,
  \<open>/etc/group\<close> and \<open>/etc/shadow\<close>, and passwords.

  The array \<open>users\<close> is the list of its first \<open>users_len\<close> records; \<open>current_user\<close> is an index.
  Strings are byte lists.  The file system is the state of the file operations, which the table
  is written to after every change; an operation is \<open>None\<close> only where a file operation is.
\<close>

definition MAX_USERS :: nat where "MAX_USERS = 32"
definition USER_NAME_MAX :: nat where "USER_NAME_MAX = 31"
definition USER_HOME_MAX :: nat where "USER_HOME_MAX = 127"
definition USER_SHELL_MAX :: nat where "USER_SHELL_MAX = 127"
definition USER_HASH_SCHEME :: "u8 list" where "USER_HASH_SCHEME = bytes_of ''tnu1''"

record user_record =
  u_name :: "u8 list"
  u_uid :: u32
  u_gid :: u32
  u_home :: "u8 list"
  u_shell :: "u8 list"
  u_salt :: u32
  u_hash :: u64
  u_password_set :: bool

record users_state =
  us_users :: "user_record list"
  us_current :: nat
  us_fs :: fs_state

subsection \<open>Hashing\<close>

definition FNV_PRIME :: u64 where "FNV_PRIME = 1099511628211"
definition FNV_BASIS :: u64 where "FNV_BASIS = 1469598103934665603"

definition fnv1a_update :: "u64 \<Rightarrow> u8 list \<Rightarrow> u64" where
  "fnv1a_update hash s = fold (\<lambda>c h. (h XOR ucast c) * FNV_PRIME) s hash"

definition make_salt :: "u8 list \<Rightarrow> u32 \<Rightarrow> u32" where
  "make_salt name uid =
     (let h = fnv1a_update FNV_BASIS name;
          h = (h XOR ucast uid) * FNV_PRIME;
          h = h XOR 0x544e5531
      in ucast (h XOR drop_bit 32 h))"

definition hash_password :: "u32 \<Rightarrow> u8 list \<Rightarrow> u64" where
  "hash_password salt password =
     (let salt_buf = fmt_line 16 ''%x'' [Arg_int (ucast salt)];
          h = fnv1a_update FNV_BASIS USER_HASH_SCHEME;
          h = fnv1a_update h (bytes_of ''$'');
          h = fnv1a_update h salt_buf;
          h = fnv1a_update h (bytes_of ''$'')
      in fnv1a_update h password)"

fun parse_hex64 :: "u8 list \<Rightarrow> u64 \<Rightarrow> u64" where
  "parse_hex64 [] value = value"
| "parse_hex64 (c # s) value =
     (if chr CHR ''0'' \<le> c \<and> c \<le> chr CHR ''9'' then parse_hex64 s (push_bit 4 value OR ucast (c - chr CHR ''0''))
      else if chr CHR ''a'' \<le> c \<and> c \<le> chr CHR ''f'' then parse_hex64 s (push_bit 4 value OR ucast (c - chr CHR ''a'' + 10))
      else if chr CHR ''A'' \<le> c \<and> c \<le> chr CHR ''F'' then parse_hex64 s (push_bit 4 value OR ucast (c - chr CHR ''A'' + 10))
      else value)"

subsection \<open>The table\<close>

definition name_char :: "u8 \<Rightarrow> bool" where
  "name_char c \<longleftrightarrow> chr CHR ''a'' \<le> c \<and> c \<le> chr CHR ''z'' \<or> chr CHR ''A'' \<le> c \<and> c \<le> chr CHR ''Z'' \<or>
     chr CHR ''0'' \<le> c \<and> c \<le> chr CHR ''9'' \<or> c = chr CHR ''_'' \<or> c = chr CHR ''-''"

definition user_name_valid :: "u8 list option \<Rightarrow> bool" where
  "user_name_valid name = (case name of None \<Rightarrow> False | Some s \<Rightarrow> s \<noteq> [] \<and> list_all name_char s)"

definition user_next_uid :: "user_record list \<Rightarrow> u32" where
  "user_next_uid users = fold (\<lambda>u m. if u_uid u > m then u_uid u else m) users 999 + 1"

definition add_record :: "user_record list \<Rightarrow> u8 list \<Rightarrow> u32 \<Rightarrow> u32 \<Rightarrow> u8 list \<Rightarrow> u8 list \<Rightarrow> user_record list" where
  "add_record users name uid gid home shell =
     (if length users \<ge> MAX_USERS then users
      else users @ [\<lparr>u_name = take USER_NAME_MAX name, u_uid = uid, u_gid = gid, u_home = take USER_HOME_MAX home,
                     u_shell = take USER_SHELL_MAX shell, u_salt = make_salt name uid, u_hash = 0, u_password_set = False\<rparr>])"

fun find_name :: "user_record list \<Rightarrow> u8 list \<Rightarrow> nat \<Rightarrow> nat option" where
  "find_name [] name i = None"
| "find_name (u # us) name i = (if u_name u = name then Some i else find_name us name (i + 1))"

definition user_find_name :: "user_record list \<Rightarrow> u8 list \<Rightarrow> user_record option" where
  "user_find_name users name = map_option (\<lambda>i. users ! i) (find_name users name 0)"

definition user_find_uid :: "user_record list \<Rightarrow> u32 \<Rightarrow> user_record option" where
  "user_find_uid users uid = find (\<lambda>u. u_uid u = uid) users"

subsection \<open>The files\<close>

abbreviation colon :: u8 where "colon \<equiv> 0x3a"

text \<open>The first \<open>k\<close> separators split off a field each.\<close>

primrec split_fields :: "nat \<Rightarrow> u8 list \<Rightarrow> u8 list list" where
  "split_fields 0 s = [s]"
| "split_fields (Suc k) s =
     (case dropWhile (\<lambda>c. c \<noteq> colon) s of
        [] \<Rightarrow> [s]
      | _ # r \<Rightarrow> takeWhile (\<lambda>c. c \<noteq> colon) s # split_fields k r)"

text \<open>\<open>(uint32_t)atoi(s)\<close> on a string.\<close>

definition field_num :: "u8 list \<Rightarrow> u32" where
  "field_num s = (case atoi (\<lambda>a. (s @ [0]) ! a) 0 of Some v \<Rightarrow> word_of_int v | None \<Rightarrow> 0)"

definition parse_passwd_line :: "user_record list \<Rightarrow> u8 list \<Rightarrow> user_record list" where
  "parse_passwd_line users line =
     (let fields = split_fields 6 line in
      if length fields \<ge> 7
      then add_record users (fields ! 0) (field_num (fields ! 2)) (field_num (fields ! 3)) (fields ! 5) (fields ! 6)
      else users)"

definition append_line :: "u8 list \<Rightarrow> u8 list \<Rightarrow> u8 list" where
  "append_line buf line = (if length buf + length line < 2048 then buf @ line else buf)"

definition passwd_line :: "user_record \<Rightarrow> u8 list" where
  "passwd_line u = fmt_line 256 ''%s:x:%u:%u:%s:%s:%s\<newline>''
     [Arg_str (Some (u_name u)), Arg_int (ucast (u_uid u)), Arg_int (ucast (u_gid u)), Arg_str (Some (u_name u)),
      Arg_str (Some (u_home u)), Arg_str (Some (u_shell u))]"

definition etc_write :: "users_state \<Rightarrow> string \<Rightarrow> u8 list \<Rightarrow> users_state option" where
  "etc_write s path buf =
     map_option (\<lambda>(fs, _). s\<lparr>us_fs := fs\<rparr>) (vfs_write_file (us_fs s) (Some (bytes_of path)) (Some (bytes_of ''/'')) buf)"

definition etc_chmod :: "users_state \<Rightarrow> u8 list \<Rightarrow> u32 \<Rightarrow> users_state option" where
  "etc_chmod s path mode =
     map_option (\<lambda>(fs, _). s\<lparr>us_fs := fs\<rparr>) (vfs_chmod (us_fs s) (Some path) (Some (bytes_of ''/'')) mode)"

definition etc_chown :: "users_state \<Rightarrow> u8 list \<Rightarrow> u32 \<Rightarrow> u32 \<Rightarrow> users_state option" where
  "etc_chown s path uid gid =
     map_option (\<lambda>(fs, _). s\<lparr>us_fs := fs\<rparr>) (vfs_chown (us_fs s) (Some path) (Some (bytes_of ''/'')) uid gid)"

definition etc_mkdir :: "users_state \<Rightarrow> u8 list \<Rightarrow> u32 \<Rightarrow> u32 \<Rightarrow> u32 \<Rightarrow> users_state option" where
  "etc_mkdir s path mode uid gid =
     map_option (\<lambda>(fs, _). s\<lparr>us_fs := fs\<rparr>) (vfs_mkdir (us_fs s) (Some path) (Some (bytes_of ''/'')) mode uid gid)"

definition passwd_text :: "user_record list \<Rightarrow> u8 list" where
  "passwd_text users = fold (\<lambda>u buf. append_line buf (passwd_line u)) users []"

definition rebuild_passwd :: "users_state \<Rightarrow> users_state option" where
  "rebuild_passwd s = etc_write s ''/etc/passwd'' (passwd_text (us_users s))"

definition group_line :: "user_record \<Rightarrow> u8 list" where
  "group_line u = fmt_line 128 ''%s:x:%u:%s\<newline>''
     [Arg_str (Some (u_name u)), Arg_int (ucast (u_gid u)), Arg_str (Some (u_name u))]"

definition rebuild_group :: "users_state \<Rightarrow> users_state option" where
  "rebuild_group s = etc_write s ''/etc/group''
     (fold (\<lambda>u buf. if u_uid u = 0 then buf else append_line buf (group_line u)) (us_users s)
        (bytes_of ''root:x:0:\<newline>wheel:x:10:root\<newline>''))"

definition shadow_line :: "user_record \<Rightarrow> u8 list" where
  "shadow_line u =
     (if u_password_set u
      then fmt_line 192 ''%s:%s$%08x$%016llx:0:0:99999:7:::\<newline>''
             [Arg_str (Some (u_name u)), Arg_str (Some USER_HASH_SCHEME), Arg_int (ucast (u_salt u)), Arg_int (u_hash u)]
      else fmt_line 192 ''%s::0:0:99999:7:::\<newline>'' [Arg_str (Some (u_name u))])"

definition shadow_text :: "user_record list \<Rightarrow> u8 list" where
  "shadow_text users = fold (\<lambda>u buf. append_line buf (shadow_line u)) users []"

definition rebuild_shadow :: "users_state \<Rightarrow> users_state option" where
  "rebuild_shadow s =
     Option.bind (etc_write s ''/etc/shadow'' (shadow_text (us_users s))) (\<lambda>s.
     Option.bind (etc_chmod s (bytes_of ''/etc/shadow'') 0x180) (\<lambda>s.
     etc_chown s (bytes_of ''/etc/shadow'') 0 0))"

definition parse_shadow_line :: "user_record list \<Rightarrow> u8 list \<Rightarrow> user_record list" where
  "parse_shadow_line users line =
     (case dropWhile (\<lambda>c. c \<noteq> colon) line of
        [] \<Rightarrow> users
      | _ # f1 \<Rightarrow>
          if f1 = [] then users
          else case find_name users (takeWhile (\<lambda>c. c \<noteq> colon) line) 0 of
            None \<Rightarrow> users
          | Some i \<Rightarrow>
              if take 5 f1 \<noteq> USER_HASH_SCHEME @ bytes_of ''$'' then users
              else let salt = drop 5 f1 in
                case dropWhile (\<lambda>c. c \<noteq> chr CHR ''$'') salt of
                  [] \<Rightarrow> users
                | _ # hash \<Rightarrow>
                    users[i := (users ! i)\<lparr>u_salt := ucast (parse_hex64 (takeWhile (\<lambda>c. c \<noteq> chr CHR ''$'') salt) 0),
                                           u_hash := parse_hex64 hash 0, u_password_set := True\<rparr>])"

text \<open>The first 2047 bytes of a file up to a NUL, cut into its non-empty lines.\<close>

fun split_lines :: "u8 list \<Rightarrow> u8 list \<Rightarrow> u8 list list" where
  "split_lines line [] = (if line = [] then [] else [line])"
| "split_lines line (c # s) =
     (if c = 10 then (if line = [] then [] else [line]) @ split_lines [] s else split_lines (line @ [c]) s)"

definition file_lines :: "vfs_node \<Rightarrow> u8 list option" where
  "file_lines n =
     (case vn_data n of
        None \<Rightarrow> Some []
      | Some d \<Rightarrow>
          let k = min (unat (vn_size n)) 2047 in
          if length d < k then None else Some (takeWhile (\<lambda>c. c \<noteq> 0) (take k d)))"

definition etc_read :: "users_state \<Rightarrow> string \<Rightarrow> u8 list list option" where
  "etc_read s path =
     (case vfs_lookup (us_fs s) (Some (bytes_of path)) (Some (bytes_of ''/'')) of
        None \<Rightarrow> None
      | Some None \<Rightarrow> Some []
      | Some (Some i) \<Rightarrow> map_option (split_lines []) (file_lines (fs_nodes (us_fs s) ! i)))"

definition parse_shadow :: "users_state \<Rightarrow> users_state option" where
  "parse_shadow s =
     map_option (\<lambda>ls. s\<lparr>us_users := fold (\<lambda>l us. parse_shadow_line us l) ls (us_users s)\<rparr>) (etc_read s ''/etc/shadow'')"

definition add_root :: "user_record list \<Rightarrow> user_record list" where
  "add_root users = add_record users (bytes_of ''root'') 0 0 (bytes_of ''/root'') (bytes_of ''/bin/tsh'')"

text \<open>The three parts of \<open>users_init\<close>: the table of the file, the default root user, the files written at the end.\<close>

definition init_read :: "users_state \<Rightarrow> users_state option" where
  "init_read s0 = map_option (\<lambda>ls. s0\<lparr>us_users := fold (\<lambda>l us. parse_passwd_line us l) ls [], us_current := 0\<rparr>) (etc_read s0 ''/etc/passwd'')"

definition init_root :: "users_state \<Rightarrow> users_state option" where
  "init_root s =
     Option.bind (if us_users s = [] then rebuild_passwd (s\<lparr>us_users := add_root []\<rparr>) else Some s) (\<lambda>s.
     if user_find_name (us_users s) (bytes_of ''root'') = None then rebuild_passwd (s\<lparr>us_users := add_root []\<rparr>) else Some s)"

definition init_files :: "users_state \<Rightarrow> users_state option" where
  "init_files s =
     Option.bind (parse_shadow s) (\<lambda>s.
     Option.bind (rebuild_group s) (\<lambda>s.
     Option.bind (rebuild_shadow s) (\<lambda>s.
     Option.bind (etc_mkdir s (bytes_of ''/root'') (VFS_S_IFDIR OR 0x1c0) 0 0) (\<lambda>s.
     Option.bind (etc_chmod s (bytes_of ''/root'') 0x1c0) (\<lambda>s.
     etc_chown s (bytes_of ''/root'') 0 0)))))"

definition users_init :: "users_state \<Rightarrow> users_state option" where
  "users_init s = Option.bind (init_read s) (\<lambda>s. Option.bind (init_root s) init_files)"

subsection \<open>Operations\<close>

definition user_current :: "users_state \<Rightarrow> user_record" where
  "user_current s = us_users s ! us_current s"

definition user_login :: "users_state \<Rightarrow> u8 list \<Rightarrow> users_state \<times> int" where
  "user_login s name =
     (case find_name (us_users s) name 0 of
        None \<Rightarrow> (s, -1)
      | Some i \<Rightarrow> (s\<lparr>us_current := i\<rparr>, 0))"

definition user_check_password :: "users_state \<Rightarrow> u8 list \<Rightarrow> u8 list \<Rightarrow> bool" where
  "user_check_password s name password =
     (case user_find_name (us_users s) name of
        None \<Rightarrow> False
      | Some u \<Rightarrow> if \<not> u_password_set u then True else hash_password (u_salt u) password = u_hash u)"

definition user_login_password :: "users_state \<Rightarrow> u8 list \<Rightarrow> u8 list \<Rightarrow> users_state \<times> int" where
  "user_login_password s name password =
     (if \<not> user_check_password s name password then (s, -1) else user_login s name)"

definition user_has_password :: "users_state \<Rightarrow> u8 list \<Rightarrow> bool" where
  "user_has_password s name =
     (case user_find_name (us_users s) name of None \<Rightarrow> False | Some u \<Rightarrow> u_password_set u)"

definition user_add :: "users_state \<Rightarrow> u8 list option \<Rightarrow> u32 \<Rightarrow> u32 \<Rightarrow> (users_state \<times> int) option" where
  "user_add s name uid gid =
     (if \<not> user_name_valid name \<or> user_find_name (us_users s) (the name) \<noteq> None \<or>
         user_find_uid (us_users s) uid \<noteq> None \<or> length (us_users s) \<ge> MAX_USERS then Some (s, -1)
      else
        let home = fmt_line (USER_HOME_MAX + 1) ''/home/%s'' [Arg_str name];
            s = s\<lparr>us_users := add_record (us_users s) (the name) uid gid home (bytes_of ''/bin/tsh'')\<rparr> in
        Option.bind (etc_mkdir s home (VFS_S_IFDIR OR 0x1c0) uid gid) (\<lambda>s.
        Option.bind (etc_chmod s home 0x1c0) (\<lambda>s.
        Option.bind (etc_chown s home uid gid) (\<lambda>s.
        Option.bind (rebuild_passwd s) (\<lambda>s.
        Option.bind (rebuild_group s) (\<lambda>s.
        map_option (\<lambda>s. (s, 0)) (rebuild_shadow s)))))))"

text \<open>The loop of \<open>user_del\<close> takes the first record with the name whose uid is not 0.\<close>

fun find_deletable :: "user_record list \<Rightarrow> u8 list \<Rightarrow> nat \<Rightarrow> nat option" where
  "find_deletable [] name i = None"
| "find_deletable (u # us) name i =
     (if u_name u = name \<and> u_uid u \<noteq> 0 then Some i else find_deletable us name (i + 1))"

definition user_del :: "users_state \<Rightarrow> u8 list \<Rightarrow> (users_state \<times> int) option" where
  "user_del s name =
     (case find_deletable (us_users s) name 0 of
        None \<Rightarrow> Some (s, -1)
      | Some i \<Rightarrow>
          let users = take i (us_users s) @ drop (i + 1) (us_users s);
              cur = (if us_current s = i \<or> us_current s \<ge> length users then 0
                     else if us_current s > i then us_current s - 1 else us_current s);
              s = s\<lparr>us_users := users, us_current := cur\<rparr> in
          Option.bind (rebuild_passwd s) (\<lambda>s.
          Option.bind (rebuild_group s) (\<lambda>s.
          map_option (\<lambda>s. (s, 0)) (rebuild_shadow s))))"

definition user_set_password :: "users_state \<Rightarrow> u8 list option \<Rightarrow> u8 list option \<Rightarrow> (users_state \<times> int) option" where
  "user_set_password s name password =
     (case (name, password) of
        (Some nm, Some pw) \<Rightarrow>
          (case find_name (us_users s) nm 0 of
             None \<Rightarrow> Some (s, -1)
           | Some i \<Rightarrow>
               let u = us_users s ! i;
                   salt = make_salt nm (u_uid u);
                   salt' = salt XOR word_of_nat (length pw);
                   u' = (if pw = [] then u\<lparr>u_salt := salt, u_hash := 0, u_password_set := False\<rparr>
                         else u\<lparr>u_salt := salt', u_hash := hash_password salt' pw, u_password_set := True\<rparr>) in
               map_option (\<lambda>s. (s, 0)) (rebuild_shadow (s\<lparr>us_users := (us_users s)[i := u']\<rparr>)))
      | _ \<Rightarrow> Some (s, -1))"

definition user_get :: "users_state \<Rightarrow> nat \<Rightarrow> user_record option" where
  "user_get s index = (if index < length (us_users s) then Some (us_users s ! index) else None)"


definition user_count :: "users_state \<Rightarrow> nat" where
  "user_count s = length (us_users s)"

section \<open>Every operation returns\<close>

text \<open>
  The file operations behind the table: each returns on a well-formed file system, keeps it
  well-formed and its nodes in place, and leaves the table as it is.
\<close>

definition files_step :: "users_state \<Rightarrow> users_state option \<Rightarrow> bool" where
  "files_step s r \<longleftrightarrow> (\<exists>fs. r = Some (s\<lparr>us_fs := fs\<rparr>) \<and> fs_inv fs \<and> tracks (us_fs s) fs)"

lemma etc_write_step:
  assumes "fs_inv (us_fs s)" "0 \<notin> set (bytes_of path)" "length buf < 2048"
  shows "files_step s (etc_write s path buf)"
proof -
  have "\<exists>s' rc. vfs_write_file (us_fs s) (Some (bytes_of path)) (Some (bytes_of ''/'')) buf = Some (s', rc) \<and> fs_inv s' \<and> tracks (us_fs s) s'"
    using vfs_write_file_ok [OF assms(1) _ nul_free_root, of "Some (bytes_of path)" buf] assms(2,3) by auto
  then show ?thesis by (auto simp: files_step_def etc_write_def)
qed

lemma etc_attr_step:
  assumes "fs_inv (us_fs s)" "0 \<notin> set path"
  shows "files_step s (etc_chmod s path mode)" "files_step s (etc_chown s path uid gid)" "files_step s (etc_mkdir s path mode uid gid)"
  using vfs_chmod_ok [OF assms(1) _ nul_free_root, of "Some path" mode] vfs_chown_ok [OF assms(1) _ nul_free_root, of "Some path" uid gid]
    vfs_add_ok [OF assms(1) _ nul_free_root, of "Some path" VFS_NODE_DIR mode uid gid] assms(2)
  by (auto simp: files_step_def etc_chmod_def etc_chown_def etc_mkdir_def vfs_mkdir_def)

lemma files_step_bind:
  assumes "files_step s r" "\<And>fs. fs_inv fs \<Longrightarrow> files_step (s\<lparr>us_fs := fs\<rparr>) (f (s\<lparr>us_fs := fs\<rparr>))"
  shows "files_step s (Option.bind r f)"
  using assms tracks_trans by (fastforce simp: files_step_def)

lemma append_lines_length:
  "length buf < 2048 \<Longrightarrow> length (fold (\<lambda>u buf. append_line buf (f u)) us buf) < 2048"
  "length buf < 2048 \<Longrightarrow> length (fold (\<lambda>u buf. if P u then buf else append_line buf (f u)) us buf) < 2048"
  by (induction us arbitrary: buf) (auto simp: append_line_def)

lemma rebuild_step:
  assumes "fs_inv (us_fs s)"
  shows "files_step s (rebuild_passwd s)" "files_step s (rebuild_group s)" "files_step s (rebuild_shadow s)"
proof -
  show "files_step s (rebuild_passwd s)" unfolding rebuild_passwd_def
    by (rule etc_write_step [OF assms]) (simp_all add: passwd_text_def append_lines_length bytes_of_def)
  show "files_step s (rebuild_group s)" unfolding rebuild_group_def
    by (rule etc_write_step [OF assms]) (simp_all add: append_lines_length bytes_of_def)
  show "files_step s (rebuild_shadow s)" unfolding rebuild_shadow_def
    by (intro files_step_bind etc_write_step etc_attr_step) (simp_all add: assms shadow_text_def append_lines_length bytes_of_def)
qed

lemma rebuild_all_step:
  assumes "fs_inv (us_fs s)"
  shows "files_step s (Option.bind (rebuild_passwd s) (\<lambda>s. Option.bind (rebuild_group s) rebuild_shadow))"
  by (intro files_step_bind rebuild_step) (simp_all add: assms)

subsection \<open>The table\<close>

lemma find_name_Some:
  assumes "find_name us name k = Some j"
  shows "\<exists>i. j = k + i \<and> i < length us \<and> u_name (us ! i) = name \<and> (\<forall>i' < i. u_name (us ! i') \<noteq> name)"
  using assms
proof (induction us arbitrary: k)
  case (Cons u us)
  show ?case
  proof (cases "u_name u = name")
    case True
    then show ?thesis using Cons.prems by auto
  next
    case False
    then obtain i where i: "j = k + 1 + i" "i < length us" "u_name (us ! i) = name" "\<forall>i' < i. u_name (us ! i') \<noteq> name"
      using Cons.IH [of "k + 1"] Cons.prems by auto
    then show ?thesis using False by (intro exI [of _ "Suc i"]) (simp add: All_less_Suc2)
  qed
qed simp

lemma find_name_None: "find_name us name k = None \<longleftrightarrow> (\<forall>u \<in> set us. u_name u \<noteq> name)"
  by (induction us arbitrary: k) auto

lemma find_name_intro:
  assumes "i < length us" "u_name (us ! i) = name" "\<forall>i' < i. u_name (us ! i') \<noteq> name"
  shows "find_name us name 0 = Some i"
proof -
  obtain j where j: "find_name us name 0 = Some j" using assms(1,2) find_name_None [of us name 0] by (cases "find_name us name 0") auto
  then have "u_name (us ! j) = name" "\<forall>i' < j. u_name (us ! i') \<noteq> name" using find_name_Some [OF j] by auto
  then have "i = j" using assms(2,3) by (metis linorder_less_linear)
  then show ?thesis using j by simp
qed

lemma find_name_cong:
  "map u_name us = map u_name us' \<Longrightarrow> find_name us name k = find_name us' name k"
proof (induction us arbitrary: us' k)
  case (Cons u us)
  then show ?case by (cases us') auto
qed simp

lemma find_deletable_Some:
  "find_deletable us name k = Some j \<Longrightarrow> \<exists>i. j = k + i \<and> i < length us \<and> u_name (us ! i) = name \<and> u_uid (us ! i) \<noteq> 0"
proof (induction us arbitrary: k)
  case (Cons u us)
  show ?case
  proof (cases "u_name u = name \<and> u_uid u \<noteq> 0")
    case True
    then show ?thesis using Cons.prems by auto
  next
    case False
    then obtain i where "j = k + 1 + i" "i < length us" "u_name (us ! i) = name" "u_uid (us ! i) \<noteq> 0"
      using Cons.IH [of "k + 1"] Cons.prems by auto
    then show ?thesis by (intro exI [of _ "Suc i"]) simp
  qed
qed simp

lemma user_find_uid_None: "user_find_uid us uid = None \<longleftrightarrow> uid \<notin> u_uid ` set us"
  by (auto simp: user_find_uid_def find_None_iff)

lemma add_record_length: "length us \<le> MAX_USERS \<Longrightarrow> length (add_record us n u g h sh) \<le> MAX_USERS"
  by (simp add: add_record_def)

lemma parse_passwd_lines_length:
  "length us \<le> MAX_USERS \<Longrightarrow> length (fold (\<lambda>l us. parse_passwd_line us l) ls us) \<le> MAX_USERS"
  by (induction ls arbitrary: us) (auto simp: parse_passwd_line_def Let_def intro: add_record_length)

lemma parse_shadow_line_keeps:
  "map u_name (parse_shadow_line us l) = map u_name us" "map u_uid (parse_shadow_line us l) = map u_uid us"
  by (auto simp: parse_shadow_line_def Let_def map_update split: list.split option.split
      dest!: find_name_Some intro!: list_update_id nth_equalityI simp: nth_list_update)

lemma parse_shadow_lines_keep:
  "map u_name (fold (\<lambda>l us. parse_shadow_line us l) ls us) = map u_name us"
  "map u_uid (fold (\<lambda>l us. parse_shadow_line us l) ls us) = map u_uid us"
  by (induction ls arbitrary: us) (simp_all add: parse_shadow_line_keeps)

lemma etc_read_ok:
  assumes "fs_inv (us_fs s)" "0 \<notin> set (bytes_of path)"
  shows "\<exists>ls. etc_read s path = Some ls"
proof -
  let ?ns = "fs_nodes (us_fs s)"
  obtain r where r: "vfs_lookup (us_fs s) (Some (bytes_of path)) (Some (bytes_of ''/'')) = Some r"
    "r = (case path_comps (Some (bytes_of path)) (Some (bytes_of ''/'')) of None \<Rightarrow> None | Some cs \<Rightarrow> resolve ?ns 0 cs)"
    using vfs_lookup_resolve [OF assms(1) _ nul_free_root, of "Some (bytes_of path)"] assms(2) by auto
  have "\<exists>t. file_lines (?ns ! i) = Some t" if "r = Some i" for i
  proof -
    have "i < length ?ns" using r(2) that resolve_bound [OF fs_invD(3,2) [OF assms(1)]] by (auto split: option.splits)
    then have "data_ok (?ns ! i)" using fs_invD(3) [OF assms(1)] node_okD(6) by (auto simp: tree_ok_def)
    then show ?thesis by (cases "vn_size (?ns ! i) = 0") (auto simp: data_ok_def file_lines_def Let_def split: option.split)
  qed
  then show ?thesis using r(1) by (cases r) (auto simp: etc_read_def)
qed

lemma parse_shadow_ok:
  assumes "fs_inv (us_fs s)"
  shows "\<exists>us. parse_shadow s = Some (s\<lparr>us_users := us\<rparr>) \<and> map u_name us = map u_name (us_users s) \<and> map u_uid us = map u_uid (us_users s)"
  using etc_read_ok [OF assms, of "''/etc/shadow''"] parse_shadow_lines_keep
  by (auto simp: parse_shadow_def bytes_of_def)

lemma files_stepE:
  assumes "files_step s r"
  obtains fs where "r = Some (s\<lparr>us_fs := fs\<rparr>)" "fs_inv fs" "tracks (us_fs s) fs"
  using assms by (auto simp: files_step_def)

lemma add_root_record:
  "\<exists>u. add_root [] = [u] \<and> u_name u = bytes_of ''root'' \<and> u_uid u = 0"
  by (simp add: add_root_def add_record_def MAX_USERS_def USER_NAME_MAX_def bytes_of_def)

lemma init_files_step:
  assumes "fs_inv (us_fs s)"
  shows "files_step s (Option.bind (rebuild_group s) (\<lambda>s.
     Option.bind (rebuild_shadow s) (\<lambda>s.
     Option.bind (etc_mkdir s (bytes_of ''/root'') (VFS_S_IFDIR OR 0x1c0) 0 0) (\<lambda>s.
     Option.bind (etc_chmod s (bytes_of ''/root'') 0x1c0) (\<lambda>s.
     etc_chown s (bytes_of ''/root'') 0 0)))))"
  by (intro files_step_bind rebuild_step etc_attr_step) (simp_all add: assms bytes_of_def)

lemma init_files_ok:
  assumes "fs_inv (us_fs s)"
  shows "\<exists>s'. init_files s = Some s' \<and> fs_inv (us_fs s') \<and> us_current s' = us_current s \<and>
     map u_name (us_users s') = map u_name (us_users s) \<and> map u_uid (us_users s') = map u_uid (us_users s)"
proof -
  obtain us where us: "parse_shadow s = Some (s\<lparr>us_users := us\<rparr>)" "map u_name us = map u_name (us_users s)" "map u_uid us = map u_uid (us_users s)"
    using parse_shadow_ok [OF assms] by blast
  then show ?thesis using init_files_step [of "s\<lparr>us_users := us\<rparr>"] assms unfolding init_files_def by (auto elim!: files_stepE)
qed

lemma init_root_ok:
  assumes "fs_inv (us_fs s)"
  shows "\<exists>s'. init_root s = Some s' \<and> fs_inv (us_fs s') \<and> us_current s' = us_current s \<and>
     us_users s' = (if find_name (us_users s) (bytes_of ''root'') 0 = None then add_root [] else us_users s)"
proof -
  obtain fs where fs: "rebuild_passwd (s\<lparr>us_users := add_root []\<rparr>) = Some (s\<lparr>us_users := add_root [], us_fs := fs\<rparr>)" "fs_inv fs"
    using rebuild_step(1) [of "s\<lparr>us_users := add_root []\<rparr>"] assms by (auto elim!: files_stepE)
  have root: "find_name (add_root []) (bytes_of ''root'') 0 = Some 0" using add_root_record by auto
  consider "us_users s = []" | "us_users s \<noteq> []" "find_name (us_users s) (bytes_of ''root'') 0 = None"
    | i where "us_users s \<noteq> []" "find_name (us_users s) (bytes_of ''root'') 0 = Some i" by fastforce
  then show ?thesis
  proof cases
    case 3
    then show ?thesis using assms by (simp add: init_root_def user_find_name_def)
  qed (use fs root in \<open>simp_all add: init_root_def user_find_name_def\<close>)
qed

text \<open>The table that \<open>users_init\<close> starts from: that of the file if it has a root user, else root alone.\<close>

definition init_table :: "u8 list list \<Rightarrow> user_record list" where
  "init_table ls =
     (let us = fold (\<lambda>l us. parse_passwd_line us l) ls [] in
      if find_name us (bytes_of ''root'') 0 = None then add_root [] else us)"

lemma users_init_ok:
  assumes "fs_inv (us_fs s0)"
  shows "\<exists>s ls. users_init s0 = Some s \<and> fs_inv (us_fs s) \<and> us_current s = 0 \<and> etc_read s0 ''/etc/passwd'' = Some ls \<and>
     map u_uid (us_users s) = map u_uid (init_table ls) \<and> map u_name (us_users s) = map u_name (init_table ls)"
proof -
  obtain ls where ls: "etc_read s0 ''/etc/passwd'' = Some ls" using etc_read_ok [OF assms, of "''/etc/passwd''"] by (auto simp: bytes_of_def)
  let ?s = "s0\<lparr>us_users := fold (\<lambda>l us. parse_passwd_line us l) ls [], us_current := 0\<rparr>"
  have rd: "init_read s0 = Some ?s" by (simp add: init_read_def ls)
  obtain s1 where s1: "init_root ?s = Some s1" "fs_inv (us_fs s1)" "us_current s1 = 0" "us_users s1 = init_table ls"
    using init_root_ok [of ?s] assms by (auto simp: init_table_def Let_def)
  obtain s2 where s2: "init_files s1 = Some s2" "fs_inv (us_fs s2)" "us_current s2 = 0"
    "map u_name (us_users s2) = map u_name (init_table ls)" "map u_uid (us_users s2) = map u_uid (init_table ls)"
    using init_files_ok [OF s1(2)] s1(3,4) by auto
  have "users_init s0 = Some s2" unfolding users_init_def rd bind.bind_lunit s1(1) by (rule s2(1))
  then show ?thesis using ls s2 by auto
qed

section \<open>The invariant\<close>

text \<open>
  The table holds at most \<open>MAX_USERS\<close> records with distinct uids, one of them with uid 0;
  \<open>current_user\<close> is in it; the file system is well-formed.
\<close>

definition users_inv :: "users_state \<Rightarrow> bool" where
  "users_inv s \<longleftrightarrow> fs_inv (us_fs s) \<and> length (us_users s) \<le> MAX_USERS \<and> us_current s < length (us_users s)
     \<and> 0 \<in> u_uid ` set (us_users s) \<and> distinct (map u_uid (us_users s))"

definition removed :: "nat \<Rightarrow> 'a list \<Rightarrow> 'a list" where
  "removed i xs = take i xs @ drop (i + 1) xs"

lemma removed_set: "i < length xs \<Longrightarrow> x \<in> set xs \<Longrightarrow> x \<noteq> xs ! i \<Longrightarrow> x \<in> set (removed i xs)"
  by (subst (asm) (2) id_take_nth_drop [of i xs]) (auto simp: removed_def)

lemma removed_distinct: "distinct (map f xs) \<Longrightarrow> distinct (map f (removed i xs))"
proof -
  assume d: "distinct (map f xs)"
  have "distinct (take i (map f xs)) \<and> distinct (drop (i + 1) (map f xs))" using d by simp
  moreover have "set (take i (map f xs)) \<inter> set (drop (i + 1) (map f xs)) = {}" using d set_take_disj_set_drop_if_distinct [of "map f xs" i "i + 1"] by simp
  ultimately show ?thesis by (simp add: removed_def take_map drop_map)
qed

lemma removed_length: "i < length xs \<Longrightarrow> length (removed i xs) = length xs - 1"
  by (simp add: removed_def)

lemma fmt_line_nul_free: "0 \<notin> set (fmt_line n fmt args)"
  by (auto simp: fmt_line_def split: option.split dest: set_takeWhileD)

lemma user_add_ok:
  assumes inv: "fs_inv (us_fs s)"
  shows "user_add s name uid gid = Some (s, -1) \<or>
     (\<exists>s' h. user_add s name uid gid = Some (s', 0) \<and> fs_inv (us_fs s') \<and> tracks (us_fs s) (us_fs s') \<and> us_current s' = us_current s \<and>
       user_name_valid name \<and> uid \<notin> u_uid ` set (us_users s) \<and> length (us_users s) < MAX_USERS \<and>
       (\<forall>u \<in> set (us_users s). u_name u \<noteq> the name) \<and>
       us_users s' = add_record (us_users s) (the name) uid gid h (bytes_of ''/bin/tsh''))"
proof (cases "\<not> user_name_valid name \<or> user_find_name (us_users s) (the name) \<noteq> None \<or>
         user_find_uid (us_users s) uid \<noteq> None \<or> length (us_users s) \<ge> MAX_USERS")
  case True
  then show ?thesis by (auto simp: user_add_def)
next
  case False
  let ?h = "fmt_line (USER_HOME_MAX + 1) ''/home/%s'' [Arg_str name]"
  let ?s = "s\<lparr>us_users := add_record (us_users s) (the name) uid gid ?h (bytes_of ''/bin/tsh'')\<rparr>"
  have "files_step ?s (Option.bind (etc_mkdir ?s ?h (VFS_S_IFDIR OR 0x1c0) uid gid) (\<lambda>s.
        Option.bind (etc_chmod s ?h 0x1c0) (\<lambda>s.
        Option.bind (etc_chown s ?h uid gid) (\<lambda>s.
        Option.bind (rebuild_passwd s) (\<lambda>s. Option.bind (rebuild_group s) rebuild_shadow)))))"
    by (intro files_step_bind rebuild_step etc_attr_step) (simp_all add: inv fmt_line_nul_free)
  then obtain fs where fs: "Option.bind (etc_mkdir ?s ?h (VFS_S_IFDIR OR 0x1c0) uid gid) (\<lambda>s.
        Option.bind (etc_chmod s ?h 0x1c0) (\<lambda>s.
        Option.bind (etc_chown s ?h uid gid) (\<lambda>s.
        Option.bind (rebuild_passwd s) (\<lambda>s. Option.bind (rebuild_group s) rebuild_shadow)))) = Some (?s\<lparr>us_fs := fs\<rparr>)" "fs_inv fs" "tracks (us_fs s) fs"
    by (rule files_stepE) simp
  have "user_add s name uid gid = map_option (\<lambda>s. (s, 0)) (Option.bind (etc_mkdir ?s ?h (VFS_S_IFDIR OR 0x1c0) uid gid) (\<lambda>s.
        Option.bind (etc_chmod s ?h 0x1c0) (\<lambda>s.
        Option.bind (etc_chown s ?h uid gid) (\<lambda>s.
        Option.bind (rebuild_passwd s) (\<lambda>s. Option.bind (rebuild_group s) rebuild_shadow)))))"
    unfolding user_add_def if_not_P [OF False] Let_def by (simp add: map_option_bind o_def)
  then have "user_add s name uid gid = Some (?s\<lparr>us_fs := fs\<rparr>, 0)" unfolding fs(1) by simp
  moreover have "\<forall>u \<in> set (us_users s). u_name u \<noteq> the name" using False by (simp add: user_find_name_def find_name_None)
  ultimately show ?thesis using False fs(2,3) by (auto simp: user_find_uid_None)
qed

lemma find_deletable_None: "find_deletable us name k = None \<longleftrightarrow> (\<forall>u \<in> set us. u_name u = name \<longrightarrow> u_uid u = 0)"
  by (induction us arbitrary: k) auto

lemma user_del_ok:
  assumes inv: "fs_inv (us_fs s)"
  shows "user_del s name = Some (s, -1) \<and> (\<forall>u \<in> set (us_users s). u_name u = name \<longrightarrow> u_uid u = 0) \<or>
     (\<exists>s' i. user_del s name = Some (s', 0) \<and> fs_inv (us_fs s') \<and> tracks (us_fs s) (us_fs s') \<and> i < length (us_users s) \<and>
       u_name (us_users s ! i) = name \<and> u_uid (us_users s ! i) \<noteq> 0 \<and> us_users s' = removed i (us_users s) \<and>
       us_current s' = (if us_current s = i \<or> us_current s \<ge> length (us_users s) - 1 then 0
                        else if us_current s > i then us_current s - 1 else us_current s))"
proof (cases "find_deletable (us_users s) name 0")
  case None
  then show ?thesis by (simp add: user_del_def) (simp add: find_deletable_None)
next
  case (Some i)
  have i: "i < length (us_users s)" "u_name (us_users s ! i) = name" "u_uid (us_users s ! i) \<noteq> 0"
    using find_deletable_Some [OF Some] by auto
  let ?us = "removed i (us_users s)"
  let ?c = "if us_current s = i \<or> us_current s \<ge> length ?us then 0 else if us_current s > i then us_current s - 1 else us_current s"
  let ?s = "s\<lparr>us_users := ?us, us_current := ?c\<rparr>"
  obtain fs where fs: "Option.bind (rebuild_passwd ?s) (\<lambda>s. Option.bind (rebuild_group s) rebuild_shadow) = Some (?s\<lparr>us_fs := fs\<rparr>)" "fs_inv fs" "tracks (us_fs s) fs"
    using rebuild_all_step [of ?s] inv by (auto elim!: files_stepE)
  have "user_del s name = map_option (\<lambda>s. (s, 0)) (Option.bind (rebuild_passwd ?s) (\<lambda>s. Option.bind (rebuild_group s) rebuild_shadow))"
    unfolding user_del_def Some option.case Let_def removed_def by (simp add: map_option_bind o_def)
  then have "user_del s name = Some (?s\<lparr>us_fs := fs\<rparr>, 0)" unfolding fs(1) by simp
  then show ?thesis using i fs(2,3) removed_length [OF i(1)] by auto
qed

lemma user_set_password_ok:
  fixes pw :: "u8 list"
  assumes inv: "fs_inv (us_fs s)" and f: "find_name (us_users s) nm 0 = Some i"
  defines "u \<equiv> us_users s ! i" and "salt \<equiv> make_salt nm (u_uid (us_users s ! i)) XOR word_of_nat (length pw)"
  shows "\<exists>s'. user_set_password s (Some nm) (Some pw) = Some (s', 0) \<and> fs_inv (us_fs s') \<and> tracks (us_fs s) (us_fs s') \<and> us_current s' = us_current s \<and>
     us_users s' = (us_users s)[i := if pw = [] then u\<lparr>u_salt := make_salt nm (u_uid u), u_hash := 0, u_password_set := False\<rparr>
       else u\<lparr>u_salt := salt, u_hash := hash_password salt pw, u_password_set := True\<rparr>]"
proof -
  let ?s = "s\<lparr>us_users := (us_users s)[i := if pw = [] then u\<lparr>u_salt := make_salt nm (u_uid u), u_hash := 0, u_password_set := False\<rparr>
       else u\<lparr>u_salt := salt, u_hash := hash_password salt pw, u_password_set := True\<rparr>]\<rparr>"
  obtain fs where fs: "rebuild_shadow ?s = Some (?s\<lparr>us_fs := fs\<rparr>)" "fs_inv fs" "tracks (us_fs s) fs"
    using rebuild_step(3) [of ?s] inv by (auto elim!: files_stepE)
  have "user_set_password s (Some nm) (Some pw) = map_option (\<lambda>s. (s, 0)) (rebuild_shadow ?s)"
    unfolding user_set_password_def prod.case option.case f Let_def u_def salt_def ..
  then have "user_set_password s (Some nm) (Some pw) = Some (?s\<lparr>us_fs := fs\<rparr>, 0)" unfolding fs(1) by simp
  then show ?thesis using fs(2,3) by (intro exI conjI) (assumption, simp_all)
qed

text \<open>
  Runs: the boot with a table that has a uid 0 and distinct uids, then the operations; between
  them the rest of the kernel may change the file system.
\<close>

inductive users_step :: "users_state \<Rightarrow> users_state \<Rightarrow> bool" where
  add: "user_add s name uid gid = Some (s', rc) \<Longrightarrow> users_step s s'"
| del: "user_del s name = Some (s', rc) \<Longrightarrow> users_step s s'"
| passwd: "user_set_password s name pw = Some (s', rc) \<Longrightarrow> users_step s s'"
| login: "user_login s name = (s', rc) \<Longrightarrow> users_step s s'"
| login_password: "user_login_password s name pw = (s', rc) \<Longrightarrow> users_step s s'"
| others: "fs_inv fs \<Longrightarrow> users_step s (s\<lparr>us_fs := fs\<rparr>)"

inductive users_reachable :: "users_state \<Rightarrow> bool" where
  boot: "fs_inv (us_fs s0) \<Longrightarrow> users_init s0 = Some s \<Longrightarrow> 0 \<in> u_uid ` set (us_users s) \<Longrightarrow>
    distinct (map u_uid (us_users s)) \<Longrightarrow> users_reachable s"
| step: "users_reachable s \<Longrightarrow> users_step s s' \<Longrightarrow> users_reachable s'"

lemma init_table_bounds: "length (init_table ls) \<le> MAX_USERS" "init_table ls \<noteq> []"
proof -
  let ?us = "fold (\<lambda>l us. parse_passwd_line us l) ls []"
  have "length ?us \<le> MAX_USERS" by (rule parse_passwd_lines_length) (simp add: MAX_USERS_def)
  moreover obtain u where "add_root [] = [u]" using add_root_record by blast
  moreover have "find_name ?us (bytes_of ''root'') 0 \<noteq> None \<Longrightarrow> ?us \<noteq> []" by (metis find_name.simps(1))
  ultimately show "length (init_table ls) \<le> MAX_USERS" "init_table ls \<noteq> []" by (auto simp: init_table_def Let_def MAX_USERS_def)
qed

lemma removed_keeps_root:
  assumes "i < length us" "u_uid (us ! i) \<noteq> 0" "u \<in> set us" "u_uid u = 0"
  shows "u \<in> set (removed i us)"
  using removed_set [OF assms(1,3)] assms(2,4) by auto

lemma user_login_cases:
  "user_login s name = (s, -1) \<or> (\<exists>i. i < length (us_users s) \<and> user_login s name = (s\<lparr>us_current := i\<rparr>, 0))"
proof (cases "find_name (us_users s) name 0")
  case (Some i)
  then show ?thesis using find_name_Some [OF Some] by (auto simp: user_login_def)
qed (simp add: user_login_def)

lemma users_step_inv:
  assumes "users_step s s'" "users_inv s"
  shows "users_inv s'"
  using assms(1)
proof cases
  case (add name uid gid rc)
  then show ?thesis using assms(2) user_add_ok [of s name uid gid]
    by (auto simp: users_inv_def add_record_def)
next
  case (del name rc)
  have z: "0 \<in> u_uid ` set (us_users s)" and c: "us_current s < length (us_users s)" "distinct (map u_uid (us_users s))" "fs_inv (us_fs s)" "length (us_users s) \<le> MAX_USERS"
    using assms(2) by (auto simp: users_inv_def)
  show ?thesis
  proof (cases "s' = s")
    case False
    then obtain i where i: "fs_inv (us_fs s')" "i < length (us_users s)" "u_uid (us_users s ! i) \<noteq> 0" "us_users s' = removed i (us_users s)"
      "us_current s' = (if us_current s = i \<or> us_current s \<ge> length (us_users s) - 1 then 0
                        else if us_current s > i then us_current s - 1 else us_current s)"
      using user_del_ok [OF c(3), of name] del by auto
    have r: "0 \<in> u_uid ` set (us_users s')" using z removed_keeps_root [OF i(2,3)] i(4) by force
    then have "0 < length (us_users s')" by auto
    then have "us_current s' < length (us_users s')" using i(5) c(1) removed_length [OF i(2)] i(4) by auto
    moreover have "length (us_users s') \<le> MAX_USERS" using c(4) removed_length [OF i(2)] i(4) by simp
    ultimately show ?thesis using r i(1) removed_distinct [OF c(2)] by (simp add: users_inv_def i(4))
  qed (use assms in simp)
next
  case (passwd name pw rc)
  show ?thesis
  proof (cases "s' = s")
    case False
    then obtain nm p i where n: "name = Some nm" "pw = Some p" "find_name (us_users s) nm 0 = Some i"
      using passwd by (auto simp: user_set_password_def split: option.splits)
    have uids: "map u_uid ((us_users s)[i := v]) = map u_uid (us_users s)" if "u_uid v = u_uid (us_users s ! i)" for v
      using that by (metis list_update_id map_update)
    show ?thesis using user_set_password_ok [OF _ n(3), of p] passwd assms(2) uids n(1,2)
      unfolding users_inv_def by (auto simp flip: set_map)
  qed (use assms in simp)
next
  case (login name rc)
  then show ?thesis using user_login_cases [of s name] assms(2) by (auto simp: users_inv_def)
next
  case (login_password name pw rc)
  then show ?thesis using user_login_cases [of s name] assms(2) by (auto simp: users_inv_def user_login_password_def split: if_splits)
next
  case (others fs)
  then show ?thesis using assms(2) by (simp add: users_inv_def)
qed

lemma users_reachable_inv: "users_reachable s \<Longrightarrow> users_inv s"
proof (induction rule: users_reachable.induct)
  case (boot s0 s)
  obtain s1 ls where s1: "users_init s0 = Some s1" "fs_inv (us_fs s1)" "us_current s1 = 0"
    "map u_uid (us_users s1) = map u_uid (init_table ls)"
    using users_init_ok [OF boot(1)] by blast
  have "length (us_users s1) = length (init_table ls)" using s1(4) by (metis length_map)
  then show ?case using s1 boot init_table_bounds [of ls] by (simp add: users_inv_def)
qed (rule users_step_inv)

section \<open>Properties\<close>


definition boot_users :: users_state where
  "boot_users = \<lparr>us_users = [], us_current = 0, us_fs = root_fs\<rparr>"

lemma boot_users_lookup: "etc_read boot_users ''/etc/passwd'' = Some []"
proof -
  have c: "path_comps (Some (bytes_of ''/etc/passwd'')) (Some (bytes_of ''/'')) = Some [bytes_of ''etc'', bytes_of ''passwd'']"
    by (simp add: path_comps_def vfs_normalize_def norm_source_def VFS_PATH_MAX_def bytes_of_def norm_loop.simps Let_def
        VFS_NAME_MAX_def VFS_MAX_COMPONENTS_def)
  have n: "nul_free (Some (bytes_of ''/etc/passwd''))" by (simp add: bytes_of_def)
  have "resolve (fs_nodes root_fs) 0 [bytes_of ''etc'', bytes_of ''passwd''] = None"
    using root_fs_map(2) [of "bytes_of ''etc''" "[bytes_of ''passwd'']"] by (simp add: fs_map_def)
  then have "vfs_lookup root_fs (Some (bytes_of ''/etc/passwd'')) (Some (bytes_of ''/'')) = Some None"
    using vfs_lookup_resolve [OF root_fs_inv n nul_free_root] c by simp
  then show ?thesis by (simp add: etc_read_def boot_users_def)
qed

lemma boot_users_init: "\<exists>s u. users_init boot_users = Some s \<and> users_reachable s \<and> us_users s = [u] \<and> u_uid u = 0 \<and> u_name u = bytes_of ''root''"
proof -
  have fs: "fs_inv (us_fs boot_users)" by (simp add: boot_users_def root_fs_inv)
  obtain s where s: "users_init boot_users = Some s" "map u_uid (us_users s) = map u_uid (init_table [])"
     "map u_name (us_users s) = map u_name (init_table [])"
    using users_init_ok [OF fs] boot_users_lookup by auto
  obtain r where r: "add_root [] = [r]" "u_name r = bytes_of ''root''" "u_uid r = 0" using add_root_record by blast
  then have t: "init_table [] = [r]" by (simp add: init_table_def)
  then obtain u where u: "us_users s = [u]" "u_uid u = 0" "u_name u = bytes_of ''root''" using s(2,3) r by (cases "us_users s") auto
  then have "users_reachable s" using users_reachable.boot [OF fs s(1)] by simp
  then show ?thesis using s(1) u by blast
qed


text \<open>
  Setting a password.  For a user in the table \<open>user_set_password\<close> succeeds, the new password is
  accepted, and another one is accepted exactly if its salted hash is the same; the empty password
  clears it, after which everything is accepted.  The other users' records, the uids and the
  current user stay.
\<close>

lemma user_set_password_check:
  assumes "fs_inv (us_fs s)" and "user_find_name (us_users s) nm = Some u"
  shows "\<exists>s'. user_set_password s (Some nm) (Some pw) = Some (s', 0) \<and> fs_inv (us_fs s')
     \<and> user_check_password s' nm pw \<and> user_has_password s' nm = (pw \<noteq> [])
     \<and> (\<forall>pw'. user_check_password s' nm pw' = (pw = [] \<or>
          (let salt = make_salt nm (u_uid u) XOR word_of_nat (length pw) in hash_password salt pw' = hash_password salt pw)))
     \<and> (\<forall>nm'. nm' \<noteq> nm \<longrightarrow> user_find_name (us_users s') nm' = user_find_name (us_users s) nm')
     \<and> map u_uid (us_users s') = map u_uid (us_users s) \<and> us_current s' = us_current s"
proof -
  obtain i where i: "find_name (us_users s) nm 0 = Some i" "us_users s ! i = u" using assms(2) by (auto simp: user_find_name_def)
  then have n: "i < length (us_users s)" "u_name u = nm" using find_name_Some [OF i(1)] by auto
  obtain s' where s': "user_set_password s (Some nm) (Some pw) = Some (s', 0)" "fs_inv (us_fs s')" "us_current s' = us_current s"
    "us_users s' = (us_users s)[i := if pw = [] then u\<lparr>u_salt := make_salt nm (u_uid u), u_hash := 0, u_password_set := False\<rparr>
       else u\<lparr>u_salt := make_salt nm (u_uid u) XOR word_of_nat (length pw),
              u_hash := hash_password (make_salt nm (u_uid u) XOR word_of_nat (length pw)) pw, u_password_set := True\<rparr>]"
    using user_set_password_ok [OF assms(1) i(1), of pw] unfolding i(2) by blast
  have upd: "map f ((us_users s)[i := v]) = map f (us_users s)" if "f v = f u" for f :: "user_record \<Rightarrow> 'x" and v
    using that i(2) by (metis list_update_id map_update)
  have f: "find_name (us_users s') k 0 = find_name (us_users s) k 0" for k
    unfolding s'(4) by (rule find_name_cong, rule upd) simp
  have nm: "user_find_name (us_users s') nm = Some (us_users s' ! i)" using f i(1) by (simp add: user_find_name_def)
  have "user_find_name (us_users s') nm' = user_find_name (us_users s) nm'" if "nm' \<noteq> nm" for nm'
  proof -
    have "j \<noteq> i" if "find_name (us_users s) nm' 0 = Some j" for j
      using find_name_Some [OF that] \<open>nm' \<noteq> nm\<close> n(2) i(2) by auto
    then show ?thesis using f [of nm'] by (cases "find_name (us_users s) nm' 0") (auto simp: user_find_name_def s'(4))
  qed
  moreover have "map u_uid (us_users s') = map u_uid (us_users s)" unfolding s'(4) by (rule upd) simp
  ultimately show ?thesis using s'(1-3) nm n(1)
    by (intro exI [of _ s']) (simp add: user_check_password_def user_has_password_def s'(4) Let_def)
qed

end
