(* ===== verification/Users_Files.thy ===== *)
theory Users_Files
  imports Users
begin

text \<open>
  The files of the user database hold the table: what \<open>rebuild_passwd\<close> and \<open>rebuild_shadow\<close> of
  \<open>kernel/security/user.c\<close> write, \<open>users_init\<close> and \<open>parse_shadow\<close> read back.
\<close>

section \<open>The lines\<close>

lemma passwd_format: "format_text (bytes_of ''%s:x:%u:%u:%s:%s:%s\<newline>'' @ [0])
   [Arg_str (Some a), Arg_int (ucast (u :: u32)), Arg_int (ucast (g :: u32)), Arg_str (Some b), Arg_str (Some h), Arg_str (Some s)] =
   Some (a @ colon # [120] @ colon # num10 u @ colon # num10 g @ colon # b @ colon # h @ colon # s @ [10])"
  by (simp add: bytes_of_def ft_simps text_of_def num10_def)

lemma shadow_format: "format_text (bytes_of ''%s:%s$%08x$%016llx:0:0:99999:7:::\<newline>'' @ [0])
   [Arg_str (Some a), Arg_str (Some b), Arg_int (ucast (salt :: u32)), Arg_int hash] =
   Some (a @ colon # b @ 36 # zhex 8 (unat salt) @ 36 # zhex 16 (unat hash) @ bytes_of '':0:0:99999:7:::\<newline>'')"
  by (simp add: bytes_of_def ft_simps text_of_def)

lemma shadow_format_none: "format_text (bytes_of ''%s::0:0:99999:7:::\<newline>'' @ [0]) [Arg_str (Some a)] =
   Some (a @ bytes_of ''::0:0:99999:7:::\<newline>'')"
  by (simp add: bytes_of_def ft_simps text_of_def)


section \<open>Reading the numbers\<close>

lemma field_num_num10: "field_num (num10 w) = w"
proof -
  let ?s = "num10 w"
  have z: "0 \<notin> set ?s" using num10_digits is_digit10_neq by blast
  have c: "cstr (\<lambda>a. (?s @ [0]) ! a) 0 ([] @ [] @ ?s @ [])"
    using bytes_at_image [of "?s @ [0]" 0] z by (simp add: cstr_bytes)
  have v: "digit_val 10 ?s = int (unat w)" by (simp add: num10_def number_text_val)
  have "int (unat w) < 2 ^ 32" using unsigned_less [where ?'a = int, of w] by simp
  also have "\<dots> < 2 ^ 63" by simp
  finally have b: "int (unat w) < 2 ^ 63" .
  have "strtol (\<lambda>a. (?s @ [0]) ! a) 0 10 = Some (int (unat w), length ?s)"
    using strtol_number [OF c] num10_digits [of w] v b by simp
  then show ?thesis by (simp add: field_num_def atoi_def)
qed

lemma parse_hex64_digit:
  "d < 16 \<Longrightarrow> parse_hex64 (digit_char False d # r) v = parse_hex64 r (v * 16 + word_of_nat d)"
proof -
  assume d: "d < 16"
  have lt: "push_bit 4 v OR (word_of_nat d :: u64) = v * 16 + word_of_nat d"
  proof -
    have "push_bit 4 v AND (word_of_nat d :: u64) = 0"
    proof (rule bit_word_eqI)
      fix n
      have "d \<in> {0, 1, 2, 3, 4, 5, 6, 7, 8, 9, 10, 11, 12, 13, 14, 15}" using d by (simp only: insert_iff empty_iff) presburger
      then have t: "word_of_nat d = take_bit 4 (word_of_nat d :: u64)" by auto
      show "bit (push_bit 4 v AND word_of_nat d) n = bit (0 :: u64) n"
        by (subst t) (auto simp: bit_and_iff bit_push_bit_iff bit_take_bit_iff)
    qed
    then show ?thesis by (simp add: disjunctive_add_eq_or [symmetric] push_bit_eq_mult)
  qed
  have "parse_hex64 (digit_char False d # r) v = parse_hex64 r (push_bit 4 v OR word_of_nat d)"
  proof -
    have "d \<in> {0, 1, 2, 3, 4, 5, 6, 7, 8, 9, 10, 11, 12, 13, 14, 15}" using d by (simp only: insert_iff empty_iff) presburger
    then show ?thesis by (auto simp: digit_char_def bytes_of_def chr_def)
  qed
  then show ?thesis using lt by simp
qed

lemma parse_hex64_digits:
  "parse_hex64 (digits_of False 16 n @ r) v = parse_hex64 r (v * 16 ^ length (digits_of False 16 n) + word_of_nat n)"
proof (induction n arbitrary: r rule: less_induct)
  case (less n)
  show ?case
  proof (cases "n = 0")
    case False
    let ?l = "length (digits_of False 16 (n div 16))"
    have e: "digits_of False 16 n = digits_of False 16 (n div 16) @ [digit_char False (n mod 16)]"
      using False by (simp add: digits_of.simps [of _ _ n])
    have "parse_hex64 (digits_of False 16 n @ r) v = parse_hex64 r ((v * 16 ^ ?l + word_of_nat (n div 16)) * 16 + word_of_nat (n mod 16))"
      using less [of "n div 16"] False by (simp add: e parse_hex64_digit del: parse_hex64.simps)
    moreover have "word_of_nat (n div 16) * 16 + word_of_nat (n mod 16) = (word_of_nat n :: u64)"
      by (metis div_mult_mod_eq of_nat_add of_nat_mult of_nat_numeral)
    ultimately show ?thesis by (simp add: e distrib_right add.assoc mult.assoc mult.commute [of 16])
  qed (simp add: digits_of.simps)
qed

lemma parse_hex64_zhex:
  assumes "r = [] \<or> hd r \<in> {36, 58}"
  shows "parse_hex64 (zhex k n @ r) 0 = word_of_nat n"
proof -
  have z: "parse_hex64 (replicate j 48 @ s) 0 = parse_hex64 s 0" for j s by (induction j) (simp_all add: chr_def)
  have e: "parse_hex64 r v = v" for v using assms by (cases r) (auto simp: chr_def)
  have "parse_hex64 (number_text False 16 n @ r) 0 = word_of_nat n"
    using parse_hex64_digits [of n r 0] by (simp add: number_text_def e chr_def)
  then show ?thesis by (simp add: zhex_def z)
qed


section \<open>The table and its text\<close>

text \<open>
  A record whose lines are not cut and can be read back: a valid name, a home and a shell without
  colons, newlines and NULs, and without a password the salt of a new record.
\<close>

definition plain :: "u8 list \<Rightarrow> bool" where
  "plain f \<longleftrightarrow> (\<forall>c \<in> set f. c \<notin> {0, 10, 58})"

definition record_ok :: "user_record \<Rightarrow> bool" where
  "record_ok u \<longleftrightarrow> user_name_valid (Some (u_name u)) \<and> length (u_name u) \<le> USER_NAME_MAX \<and> plain (u_home u) \<and> plain (u_shell u)
     \<and> length (u_home u) \<le> USER_HOME_MAX \<and> length (u_shell u) \<le> USER_SHELL_MAX \<and> length (u_home u) + length (u_shell u) \<le> 150
     \<and> (\<not> u_password_set u \<longrightarrow> u_salt u = make_salt (u_name u) (u_uid u) \<and> u_hash u = 0)"

definition fresh :: "user_record \<Rightarrow> user_record" where
  "fresh u = u\<lparr>u_salt := make_salt (u_name u) (u_uid u), u_hash := 0, u_password_set := False\<rparr>"

definition passwd_body :: "user_record \<Rightarrow> u8 list" where
  "passwd_body u = u_name u @ colon # [120] @ colon # num10 (u_uid u) @ colon # num10 (u_gid u) @ colon # u_name u @ colon # u_home u @ colon # u_shell u"

definition shadow_body :: "user_record \<Rightarrow> u8 list" where
  "shadow_body u =
     (if u_password_set u
      then u_name u @ colon # USER_HASH_SCHEME @ 36 # zhex 8 (unat (u_salt u)) @ 36 # zhex 16 (unat (u_hash u)) @ bytes_of '':0:0:99999:7:::''
      else u_name u @ bytes_of ''::0:0:99999:7:::'')"

lemma name_char_neq: "name_char c \<Longrightarrow> c \<notin> {0, 10, 36, 58}"
  by (auto simp: name_char_def chr_def)

lemma record_ok_chars:
  assumes "record_ok u"
  shows "plain (u_name u)" "plain (u_home u)" "plain (u_shell u)" "u_name u \<noteq> []"
  using assms name_char_neq by (auto simp: record_ok_def plain_def user_name_valid_def list_all_iff)

lemma record_ok_lengths:
  assumes "record_ok u"
  shows "length (u_name u) \<le> 31" "length (u_home u) \<le> 127" "length (u_shell u) \<le> 127" "length (u_home u) + length (u_shell u) \<le> 150"
  using assms by (simp_all add: record_ok_def USER_NAME_MAX_def USER_HOME_MAX_def USER_SHELL_MAX_def)

lemma plain_append: "plain (a @ b) \<longleftrightarrow> plain a \<and> plain b"
  by (auto simp: plain_def)

lemma plain_x: "plain [120]"
  by (simp add: plain_def)

lemma plain_nul: "plain a \<Longrightarrow> 0 \<notin> set a" "plain a \<Longrightarrow> 10 \<notin> set a"
  by (auto simp: plain_def)

lemma num10_chars: "plain (num10 w)"
  using num10_digits is_digit10_neq unfolding plain_def by blast

lemma zhex_chars: "0 \<notin> set (zhex k n)" "10 \<notin> set (zhex k n)" "36 \<notin> set (zhex k n)"
  using zhex_hex [of k n] hex_digit_neq by blast+

lemma num10_length: "length (num10 w) \<le> 10"
proof -
  have "unat w < 10 ^ 10" using unsigned_less [where ?'a = nat, of w] by simp
  then show ?thesis using digits_of_length [of 10 "unat w" 10 False] by (simp add: num10_def number_text_def)
qed

lemma zhex_length: "n < 16 ^ k \<Longrightarrow> 0 < k \<Longrightarrow> length (zhex k n) = k"
  using digits_of_length [of 16 n k False] by (simp add: zhex_def number_text_def)

lemma passwd_line_body:
  assumes "record_ok u"
  shows "passwd_line u = passwd_body u @ [10]" "10 \<notin> set (passwd_body u)" "0 \<notin> set (passwd_body u)" "passwd_body u \<noteq> []"
proof -
  note C = record_ok_chars [OF assms] num10_chars
  show c: "10 \<notin> set (passwd_body u)" "0 \<notin> set (passwd_body u)" using C plain_nul by (simp_all add: passwd_body_def)
  have "length (passwd_body u @ [10]) < 256"
    using record_ok_lengths [OF assms] num10_length [of "u_uid u"] num10_length [of "u_gid u"] by (simp add: passwd_body_def)
  moreover have "0 \<notin> set (passwd_body u @ [10])" using c(2) by simp
  moreover have "format_text (bytes_of ''%s:x:%u:%u:%s:%s:%s\<newline>'' @ [0]) [Arg_str (Some (u_name u)), Arg_int (ucast (u_uid u)), Arg_int (ucast (u_gid u)), Arg_str (Some (u_name u)),
      Arg_str (Some (u_home u)), Arg_str (Some (u_shell u))] = Some (passwd_body u @ [10])"
    by (simp only: passwd_format passwd_body_def append_assoc append_Cons append_Nil)
  ultimately show "passwd_line u = passwd_body u @ [10]" unfolding passwd_line_def by (intro fmt_line_text)
qed (simp add: passwd_body_def)

lemma shadow_line_body:
  assumes "record_ok u"
  shows "shadow_line u = shadow_body u @ [10]" "10 \<notin> set (shadow_body u)" "0 \<notin> set (shadow_body u)" "shadow_body u \<noteq> []"
proof -
  note C = record_ok_chars [OF assms] record_ok_lengths [OF assms]
  show c: "10 \<notin> set (shadow_body u)" "0 \<notin> set (shadow_body u)" using C(1) plain_nul zhex_chars
    by (auto simp: shadow_body_def USER_HASH_SCHEME_def bytes_of_def)
  have b: "unat (u_salt u) < 16 ^ 8" "unat (u_hash u) < 16 ^ 16"
    using unsigned_less [where ?'a = nat, of "u_salt u"] unsigned_less [where ?'a = nat, of "u_hash u"] by simp_all
  have l: "length (shadow_body u @ [10]) < 192"
    using C(5) zhex_length [OF b(1)] zhex_length [OF b(2)] by (simp add: shadow_body_def USER_HASH_SCHEME_def bytes_of_def)
  have z: "0 \<notin> set (shadow_body u @ [10])" using c(2) by simp
  have t: "bytes_of '':0:0:99999:7:::\<newline>'' = bytes_of '':0:0:99999:7:::'' @ [10]" "bytes_of ''::0:0:99999:7:::\<newline>'' = bytes_of ''::0:0:99999:7:::'' @ [10]"
    by (simp_all add: bytes_of_def)
  show "shadow_line u = shadow_body u @ [10]"
  proof (cases "u_password_set u")
    case True
    have "format_text (bytes_of ''%s:%s$%08x$%016llx:0:0:99999:7:::\<newline>'' @ [0])
       [Arg_str (Some (u_name u)), Arg_str (Some USER_HASH_SCHEME), Arg_int (ucast (u_salt u)), Arg_int (u_hash u)] = Some (shadow_body u @ [10])"
      unfolding shadow_format shadow_body_def t by (simp only: True if_True append_assoc append_Cons append_Nil)
    then show ?thesis unfolding shadow_line_def if_P [OF True] using z l by (rule fmt_line_text)
  next
    case False
    have "format_text (bytes_of ''%s::0:0:99999:7:::\<newline>'' @ [0]) [Arg_str (Some (u_name u))] = Some (shadow_body u @ [10])"
      unfolding shadow_format_none shadow_body_def t by (simp only: False if_False append_assoc)
    then show ?thesis unfolding shadow_line_def if_not_P [OF False] using z l by (rule fmt_line_text)
  qed
qed (simp add: shadow_body_def bytes_of_def)

lemma split_fields_colon: "plain a \<Longrightarrow> split_fields (Suc k) (a @ colon # r) = a # split_fields k r"
proof -
  assume "plain a"
  then have p: "\<And>c. c \<in> set a \<Longrightarrow> c \<noteq> colon" by (auto simp: plain_def)
  show ?thesis using dropWhile_append2 [of a "\<lambda>c. c \<noteq> colon" "colon # r"] takeWhile_append2 [of a "\<lambda>c. c \<noteq> colon" "colon # r"] p by simp
qed

lemma parse_passwd_body:
  assumes "record_ok u" "length us < MAX_USERS"
  shows "parse_passwd_line us (passwd_body u) = us @ [fresh u]"
proof -
  note C = record_ok_chars [OF assms(1)] num10_chars plain_x and L = record_ok_lengths [OF assms(1)]
  have "split_fields (Suc (Suc (Suc (Suc (Suc (Suc 0)))))) (passwd_body u) =
      [u_name u, [120], num10 (u_uid u), num10 (u_gid u), u_name u, u_home u, u_shell u]"
    unfolding passwd_body_def by (simp only: split_fields_colon C split_fields.simps(1))
  then have "split_fields 6 (passwd_body u) = [u_name u, [120], num10 (u_uid u), num10 (u_gid u), u_name u, u_home u, u_shell u]"
    by (simp only: eval_nat_numeral BitM.simps numeral_One One_nat_def)
  then show ?thesis using assms(2) L
    by (simp add: parse_passwd_line_def Let_def field_num_num10 add_record_def fresh_def USER_NAME_MAX_def USER_HOME_MAX_def USER_SHELL_MAX_def)
qed


lemma takeWhile_stop: "x \<notin> set a \<Longrightarrow> takeWhile (\<lambda>c. c \<noteq> x) (a @ x # r) = a" "x \<notin> set a \<Longrightarrow> dropWhile (\<lambda>c. c \<noteq> x) (a @ x # r) = x # r"
  by (induction a) auto

lemma parse_shadow_body:
  assumes ok: "record_ok u" and d: "distinct (map u_name (xs @ fresh u # ys))"
  shows "parse_shadow_line (xs @ fresh u # ys) (shadow_body u) = xs @ u # ys"
proof -
  note C = record_ok_chars [OF ok]
  let ?us = "xs @ fresh u # ys" and ?b = "drop (Suc (length (u_name u))) (shadow_body u)"
  have n: "colon \<notin> set (u_name u)" using C(1) by (auto simp: plain_def)
  have b: "shadow_body u = u_name u @ colon # ?b" by (auto simp: shadow_body_def bytes_of_def)
  have f: "find_name ?us (u_name u) 0 = Some (length xs)"
    using d by (intro find_name_intro) (auto simp: fresh_def nth_append, metis image_eqI nth_mem)
  note sp = takeWhile_stop [OF n, of ?b, folded b]
  show ?thesis
  proof (cases "u_password_set u")
    case True
    let ?s = "zhex 8 (unat (u_salt u))" and ?h = "zhex 16 (unat (u_hash u)) @ bytes_of '':0:0:99999:7:::''"
    have b': "?b = (USER_HASH_SCHEME @ bytes_of ''$'') @ ?s @ 36 # ?h" using True by (simp add: shadow_body_def bytes_of_def)
    have p: "take 5 ?b = USER_HASH_SCHEME @ bytes_of ''$''" "drop 5 ?b = ?s @ 36 # ?h" "?b \<noteq> []" unfolding b' by (simp_all add: USER_HASH_SCHEME_def bytes_of_def)
    have q: "takeWhile (\<lambda>c. c \<noteq> 36) (?s @ 36 # ?h) = ?s" "dropWhile (\<lambda>c. c \<noteq> 36) (?s @ 36 # ?h) = 36 # ?h"
      by (rule takeWhile_stop [OF zhex_chars(3)])+
    have v: "parse_hex64 ?s 0 = word_of_nat (unat (u_salt u))" "parse_hex64 ?h 0 = u_hash u"
      using parse_hex64_zhex [of "[]" 8 "unat (u_salt u)"] parse_hex64_zhex [of "bytes_of '':0:0:99999:7:::''" 16 "unat (u_hash u)"]
      by (simp_all add: bytes_of_def)
    have "word_of_nat (unat (u_salt u)) = (ucast (u_salt u) :: u64)" by (rule iffD2 [OF word_unat_eq_iff]) (simp add: unat_of_nat)
    then have w: "ucast (word_of_nat (unat (u_salt u)) :: u64) = u_salt u" by simp
    have "parse_shadow_line ?us (shadow_body u) = ?us[length xs := (fresh u)\<lparr>u_salt := u_salt u, u_hash := u_hash u, u_password_set := True\<rparr>]"
      unfolding parse_shadow_line_def sp list.case if_not_P [OF p(3)] f option.case p(1,2) Let_def by (simp add: q v w chr_def)
    moreover have "(fresh u)\<lparr>u_salt := u_salt u, u_hash := u_hash u, u_password_set := True\<rparr> = u"
      using True by (cases u) (simp add: fresh_def)
    ultimately show ?thesis by simp
  next
    case False
    have "?b = bytes_of '':0:0:99999:7:::''" using False by (simp add: shadow_body_def bytes_of_def)
    then have "?b \<noteq> []" "take 5 ?b \<noteq> USER_HASH_SCHEME @ bytes_of ''$''" by (simp_all add: bytes_of_def USER_HASH_SCHEME_def)
    then have "parse_shadow_line ?us (shadow_body u) = ?us" unfolding parse_shadow_line_def sp list.case f option.case by simp
    moreover have "fresh u = u" using False ok by (cases u) (simp add: fresh_def record_ok_def)
    ultimately show ?thesis by simp
  qed
qed

lemma split_lines_line: "10 \<notin> set b \<Longrightarrow> l @ b \<noteq> [] \<Longrightarrow> split_lines l (b @ 10 # s) = (l @ b) # split_lines [] s"
  by (induction b arbitrary: l) simp_all

lemma split_lines_concat: "\<forall>u \<in> set us. 10 \<notin> set (f u) \<and> f u \<noteq> [] \<Longrightarrow> split_lines [] (concat (map (\<lambda>u. f u @ [10]) us)) = map f us"
  using split_lines_line [of _ "[]"] by (induction us) auto

lemma append_lines_concat:
  "length buf + length (concat (map f us)) < 2048 \<Longrightarrow> fold (\<lambda>u buf. append_line buf (f u)) us buf = buf @ concat (map f us)"
  by (induction us arbitrary: buf) (auto simp: append_line_def)

definition table_ok :: "user_record list \<Rightarrow> bool" where
  "table_ok us \<longleftrightarrow> (\<forall>u \<in> set us. record_ok u) \<and> distinct (map u_name us) \<and> length us \<le> MAX_USERS
     \<and> length (concat (map passwd_line us)) < 2048 \<and> length (concat (map shadow_line us)) < 2048"

lemma texts:
  assumes "table_ok us"
  shows "passwd_text us = concat (map (\<lambda>u. passwd_body u @ [10]) us)" "shadow_text us = concat (map (\<lambda>u. shadow_body u @ [10]) us)"
    and "split_lines [] (passwd_text us) = map passwd_body us" "split_lines [] (shadow_text us) = map shadow_body us"
    and "0 \<notin> set (passwd_text us)" "0 \<notin> set (shadow_text us)" "length (passwd_text us) < 2048" "length (shadow_text us) < 2048"
proof -
  have ok: "\<forall>u \<in> set us. record_ok u" using assms by (simp add: table_ok_def)
  have e: "map passwd_line us = map (\<lambda>u. passwd_body u @ [10]) us" "map shadow_line us = map (\<lambda>u. shadow_body u @ [10]) us"
    using ok passwd_line_body(1) shadow_line_body(1) by auto
  show t: "passwd_text us = concat (map (\<lambda>u. passwd_body u @ [10]) us)" "shadow_text us = concat (map (\<lambda>u. shadow_body u @ [10]) us)"
    using assms append_lines_concat [of "[]" passwd_line us] append_lines_concat [of "[]" shadow_line us]
    by (simp_all add: passwd_text_def shadow_text_def table_ok_def e)
  show "split_lines [] (passwd_text us) = map passwd_body us" "split_lines [] (shadow_text us) = map shadow_body us"
    unfolding t by (rule split_lines_concat, use ok passwd_line_body shadow_line_body in blast)+
  show "0 \<notin> set (passwd_text us)" "0 \<notin> set (shadow_text us)" unfolding t using ok passwd_line_body(3) shadow_line_body(3) by auto
  show "length (passwd_text us) < 2048" "length (shadow_text us) < 2048" using assms unfolding t table_ok_def e by simp_all
qed

lemma parse_passwd_table:
  "\<forall>u \<in> set us. record_ok u \<Longrightarrow> length xs + length us \<le> MAX_USERS \<Longrightarrow>
   fold (\<lambda>l us. parse_passwd_line us l) (map passwd_body us) xs = xs @ map fresh us"
  by (induction us arbitrary: xs) (simp_all add: parse_passwd_body)

lemma parse_shadow_table:
  "\<forall>u \<in> set us. record_ok u \<Longrightarrow> distinct (map u_name (xs @ us)) \<Longrightarrow>
   fold (\<lambda>l us. parse_shadow_line us l) (map shadow_body us) (xs @ map fresh us) = xs @ us"
proof (induction us arbitrary: xs)
  case (Cons u us)
  have n: "map u_name (xs @ fresh u # map fresh us) = map u_name (xs @ u # us)" by (simp add: fresh_def)
  have "parse_shadow_line (xs @ fresh u # map fresh us) (shadow_body u) = xs @ u # map fresh us"
    by (rule parse_shadow_body) (use Cons.prems n in \<open>simp_all only:\<close>, simp_all)
  then show ?case using Cons.IH [of "xs @ [u]"] Cons.prems by simp
qed simp

lemma table_roundtrip:
  assumes "table_ok us"
  shows "fold (\<lambda>l us. parse_passwd_line us l) (split_lines [] (passwd_text us)) [] = map fresh us"
    "fold (\<lambda>l us. parse_shadow_line us l) (split_lines [] (shadow_text us)) (map fresh us) = us"
  using parse_passwd_table [of us "[]"] parse_shadow_table [of us "[]"] assms texts(3,4) [OF assms] by (simp_all add: table_ok_def)


section \<open>The table after a restart\<close>

abbreviation etc_file :: "string \<Rightarrow> u8 list list" where
  "etc_file name \<equiv> [bytes_of ''etc'', bytes_of name]"

lemma etc_path_comps:
  "path_comps (Some (bytes_of ''/etc/passwd'')) (Some (bytes_of ''/'')) = Some (etc_file ''passwd'')"
  "path_comps (Some (bytes_of ''/etc/shadow'')) (Some (bytes_of ''/'')) = Some (etc_file ''shadow'')"
  by (simp_all add: path_comps_def vfs_normalize_def norm_source_def VFS_PATH_MAX_def bytes_of_def norm_loop.simps Let_def
      VFS_NAME_MAX_def VFS_MAX_COMPONENTS_def)

lemma etc_read_text:
  assumes inv: "fs_inv (us_fs s)" and p: "path_comps (Some (bytes_of path)) (Some (bytes_of ''/'')) = Some cs" "0 \<notin> set (bytes_of path)"
    and m: "fs_map (us_fs s) cs = Some (ty, mode, uid, gid, t)" and t: "length t < 2048" "0 \<notin> set t"
  shows "etc_read s path = Some (split_lines [] t)"
proof -
  let ?ns = "fs_nodes (us_fs s)"
  obtain i where i: "resolve ?ns 0 cs = Some i" "contents (?ns ! i) = t"
    using m by (auto simp: fs_map_def node_view_def)
  have "i < length ?ns" using resolve_bound [OF fs_invD(3,2) [OF inv] i(1)] by simp
  then have d: "data_ok (?ns ! i)" using fs_invD(3) [OF inv] node_okD(6) by (auto simp: tree_ok_def)
  have "file_lines (?ns ! i) = Some t"
  proof (cases "vn_data (?ns ! i)")
    case (Some x)
    have k: "unat (vn_size (?ns ! i)) \<le> length x" using d Some by (cases "vn_size (?ns ! i) = 0") (auto simp: data_ok_def)
    then have "length t = unat (vn_size (?ns ! i))" "take (unat (vn_size (?ns ! i))) x = t" using i(2) Some by (auto simp: contents_def)
    then show ?thesis using Some k t takeWhile_eq_all_conv [of "\<lambda>c. c \<noteq> 0" t] by (auto simp: file_lines_def min_def)
  qed (use i(2) in \<open>simp add: file_lines_def contents_def\<close>)
  moreover have "vfs_lookup (us_fs s) (Some (bytes_of path)) (Some (bytes_of ''/'')) = Some (Some i)"
    using vfs_lookup_resolve [OF inv _ nul_free_root, of "Some (bytes_of path)"] p i(1) by simp
  ultimately show ?thesis by (simp add: etc_read_def)
qed

text \<open>
  C19: the user table survives a restart.  If the table is one whose text fits its files (valid names
  of at most 31 bytes, distinct, homes and shells without separators, each file below 2048 bytes)
  and the two files hold what \<open>rebuild_passwd\<close> and \<open>rebuild_shadow\<close> write for it, \<open>users_init\<close>
  gives back the same table, salts and password hashes included.
\<close>

theorem users_survive_restart:
  assumes "table_ok us" and "find_name us (bytes_of ''root'') 0 \<noteq> None" and "fs_inv (us_fs s)"
    and "fs_map (us_fs s) (etc_file ''passwd'') = Some (VFS_NODE_FILE, m, u, g, passwd_text us)"
    and "fs_map (us_fs s) (etc_file ''shadow'') = Some (VFS_NODE_FILE, m', u', g', shadow_text us)"
  shows "\<exists>s'. users_init s = Some s' \<and> us_users s' = us \<and> us_current s' = 0 \<and> fs_inv (us_fs s')"
proof -
  note T = texts [OF assms(1)] and R = table_roundtrip [OF assms(1)]
  have z: "0 \<notin> set (bytes_of ''/etc/passwd'')" "0 \<notin> set (bytes_of ''/etc/shadow'')" by (simp_all add: bytes_of_def)
  let ?s = "s\<lparr>us_users := map fresh us, us_current := 0\<rparr>"
  have r: "init_read s = Some ?s"
    using etc_read_text [OF assms(3) etc_path_comps(1) z(1) assms(4) T(7,5)] R(1) by (simp add: init_read_def)
  have "map u_name (map fresh us) = map u_name us" by (simp add: fresh_def)
  then have "find_name (map fresh us) (bytes_of ''root'') 0 \<noteq> None" using assms(2) find_name_cong by metis
  then have i: "init_root ?s = Some ?s" by (cases us) (auto simp: init_root_def user_find_name_def)
  have "etc_read ?s ''/etc/shadow'' = Some (split_lines [] (shadow_text us))"
    by (rule etc_read_text [OF _ etc_path_comps(2) z(2) _ T(8,6)]) (use assms(3,5) in simp_all)
  then have sh: "parse_shadow ?s = Some (?s\<lparr>us_users := us\<rparr>)" using R(2) by (simp add: parse_shadow_def)
  obtain fs where "init_files ?s = Some (?s\<lparr>us_users := us, us_fs := fs\<rparr>)" "fs_inv fs"
    using init_files_step [of "?s\<lparr>us_users := us\<rparr>"] assms(3) sh by (auto simp: init_files_def elim!: files_stepE)
  then show ?thesis by (simp add: users_init_def r i)
qed


text \<open>A file system with the files of the root user alone.\<close>

definition root_user :: user_record where
  "root_user = hd (add_root [])"

definition etc_node :: "string \<Rightarrow> u8 list \<Rightarrow> nat option \<Rightarrow> vfs_node" where
  "etc_node name t next = dir_node\<lparr>vn_name := bytes_of name, vn_type := VFS_NODE_FILE, vn_size := word_of_nat (length t), vn_data := Some t,
     vn_parent := Some 1, vn_next_sibling := next\<rparr>"

definition etc_fs :: fs_state where
  "etc_fs = root_fs\<lparr>fs_nodes := [dir_node\<lparr>vn_first_child := Some 1\<rparr>,
     dir_node\<lparr>vn_name := bytes_of ''etc'', vn_parent := Some 0, vn_first_child := Some 2\<rparr>,
     etc_node ''passwd'' (passwd_text [root_user]) (Some 3), etc_node ''shadow'' (shadow_text [root_user]) None]\<rparr>"

lemma root_user_ok: "table_ok [root_user]" "find_name [root_user] (bytes_of ''root'') 0 \<noteq> None"
proof -
  have r: "record_ok root_user"
    by (simp add: root_user_def add_root_def add_record_def MAX_USERS_def USER_NAME_MAX_def USER_HOME_MAX_def USER_SHELL_MAX_def
        record_ok_def user_name_valid_def name_char_def plain_def bytes_of_def chr_def)
  then have "length (passwd_body root_user) < 2000" "length (shadow_body root_user) < 2000"
    using record_ok_lengths [OF r] num10_length [of "u_uid root_user"] num10_length [of "u_gid root_user"]
    by (simp_all add: passwd_body_def shadow_body_def root_user_def add_root_def add_record_def MAX_USERS_def bytes_of_def)
  then show "table_ok [root_user]" using r passwd_line_body(1) [OF r] shadow_line_body(1) [OF r] by (simp add: table_ok_def MAX_USERS_def)
  show "find_name [root_user] (bytes_of ''root'') 0 \<noteq> None"
    by (simp add: root_user_def add_root_def add_record_def MAX_USERS_def USER_NAME_MAX_def bytes_of_def)
qed

lemma etc_fs_nodes:
  "fs_inv etc_fs" "fs_map etc_fs (etc_file ''passwd'') = Some (VFS_NODE_FILE, 0x41ed, 0, 0, passwd_text [root_user])"
  "fs_map etc_fs (etc_file ''shadow'') = Some (VFS_NODE_FILE, 0x41ed, 0, 0, shadow_text [root_user])"
proof -
  have u: "unat (word_of_nat (length (passwd_text [root_user])) :: u64) = length (passwd_text [root_user])"
     "unat (word_of_nat (length (shadow_text [root_user])) :: u64) = length (shadow_text [root_user])"
    using texts(7,8) [OF root_user_ok(1)] by (simp_all add: unat_of_nat)
  have l: "length (passwd_text [root_user]) < 2 ^ 63" "length (shadow_text [root_user]) < 2 ^ 63"
    using texts(7,8) [OF root_user_ok(1)] by simp_all
  show "fs_inv etc_fs"
    using l by (simp add: fs_inv_def node_ok_def kids_def etc_fs_def etc_node_def root_fs_def fs_boot_def dir_node_def VFS_MAX_NODES_def data_ok_def u
      All_less_Suc comp_ok_def bytes_of_def VFS_NAME_MAX_def)
  show "fs_map etc_fs (etc_file ''passwd'') = Some (VFS_NODE_FILE, 0x41ed, 0, 0, passwd_text [root_user])"
    "fs_map etc_fs (etc_file ''shadow'') = Some (VFS_NODE_FILE, 0x41ed, 0, 0, shadow_text [root_user])"
    by (simp_all add: fs_map_def kids_def etc_fs_def etc_node_def root_fs_def fs_boot_def dir_node_def node_view_def contents_def u
      bytes_of_def VFS_S_IFDIR_def)
qed

theorem users_survive_restart_witness:
  "\<exists>s'. users_init (boot_users\<lparr>us_fs := etc_fs\<rparr>) = Some s' \<and> us_users s' = [root_user]"
  using users_survive_restart [OF root_user_ok, of "boot_users\<lparr>us_fs := etc_fs\<rparr>"] etc_fs_nodes by auto

end
