(* ===== verification/Process.thy ===== *)
theory Process
  imports Users
begin

text \<open>
  The process table of \<open>kernel/core/process.c\<close> with its file descriptors, and the tick counter of
  \<open>kernel/core/scheduler.c\<close>.

  A \<open>struct process *\<close> is an index of the array \<open>processes\<close>, NULL is \<open>None\<close>; a \<open>struct vfs_node *\<close>
  is an index of the node pool.  \<open>int\<close> values are integers; \<open>next_pid++\<close> at \<open>INT_MAX\<close> is
  undefined in C and \<open>None\<close> here.
\<close>

definition PROCESS_NAME_MAX :: nat where "PROCESS_NAME_MAX = 31"
definition PROCESS_MAX :: nat where "PROCESS_MAX = 64"
definition PROCESS_SIGNAL_MAX :: nat where "PROCESS_SIGNAL_MAX = 32"
definition VFS_MAX_FDS :: nat where "VFS_MAX_FDS = 32"
definition VFS_O_RDONLY :: u32 where "VFS_O_RDONLY = 0x0"
definition VFS_O_WRONLY :: u32 where "VFS_O_WRONLY = 0x1"
definition VFS_O_APPEND :: u32 where "VFS_O_APPEND = 0x400"
definition INT_MAX :: int where "INT_MAX = 2147483647"

datatype process_state = PROCESS_UNUSED | PROCESS_READY | PROCESS_RUNNING | PROCESS_SLEEPING | PROCESS_ZOMBIE

record file_descriptor =
  fd_used :: bool
  fd_dirty :: bool
  fd_flags :: u32
  fd_offset :: u64
  fd_node :: "nat option"

record process =
  p_pid :: int
  p_ppid :: int
  p_pgid :: int
  p_uid :: u32
  p_gid :: u32
  p_personality :: u32
  p_state :: process_state
  p_name :: "u8 list"
  p_cwd :: "u8 list"
  p_linux_exec_path :: "u8 list"
  p_linux_tls_base :: u64
  p_linux_vdso_base :: u64
  p_started_ticks :: u64
  p_exit_code :: int
  p_signal_disposition :: "u8 list"
  p_signal_handler :: "u64 list"
  p_fds :: "file_descriptor list"
  p_brk_floor :: u64
  p_brk_current :: u64
  p_heap_limit :: u64
  p_linux_brk_floor :: u64
  p_linux_brk_current :: u64
  p_linux_brk_limit :: u64
  p_linux_mmap_next :: u64
  p_linux_mmap_limit :: u64

record proc_table =
  pt_processes :: "process list"
  pt_next_pid :: int
  pt_current :: "nat option"

text \<open>The values after \<open>memset\<close> with 0.\<close>

definition fd_zero :: file_descriptor where
  "fd_zero = \<lparr>fd_used = False, fd_dirty = False, fd_flags = 0, fd_offset = 0, fd_node = None\<rparr>"

definition process_zero :: process where
  "process_zero = \<lparr>p_pid = 0, p_ppid = 0, p_pgid = 0, p_uid = 0, p_gid = 0, p_personality = 0, p_state = PROCESS_UNUSED, p_name = [],
     p_cwd = [], p_linux_exec_path = [], p_linux_tls_base = 0, p_linux_vdso_base = 0, p_started_ticks = 0, p_exit_code = 0,
     p_signal_disposition = replicate PROCESS_SIGNAL_MAX 0, p_signal_handler = replicate PROCESS_SIGNAL_MAX 0,
     p_fds = replicate VFS_MAX_FDS fd_zero, p_brk_floor = 0, p_brk_current = 0, p_heap_limit = 0, p_linux_brk_floor = 0,
     p_linux_brk_current = 0, p_linux_brk_limit = 0, p_linux_mmap_next = 0, p_linux_mmap_limit = 0\<rparr>"

section \<open>The operations\<close>

text \<open>\<open>setup_stdio\<close> on the descriptors; \<open>tty\<close> is the node that \<open>/dev/tty\<close> names.\<close>

definition stdio_fd :: "nat option \<Rightarrow> nat \<Rightarrow> file_descriptor \<Rightarrow> file_descriptor" where
  "stdio_fd tty i f = f\<lparr>fd_used := True, fd_flags := if i = 0 then VFS_O_RDONLY else VFS_O_WRONLY, fd_node := tty, fd_offset := 0\<rparr>"

definition setup_stdio :: "nat option \<Rightarrow> process \<Rightarrow> process" where
  "setup_stdio tty p = p\<lparr>p_fds := fold (\<lambda>i fds. fds[i := stdio_fd tty i (fds ! i)]) [0..<3] (p_fds p)\<rparr>"

fun find_slot :: "(process \<Rightarrow> bool) \<Rightarrow> process list \<Rightarrow> nat \<Rightarrow> nat option" where
  "find_slot P [] i = None"
| "find_slot P (p # ps) i = (if P p then Some i else find_slot P ps (i + 1))"

definition home_cwd :: "user_record option \<Rightarrow> u8 list" where
  "home_cwd user =
     (case user of
        Some u \<Rightarrow> if u_home u \<noteq> [] then take (VFS_PATH_MAX - 1) (u_home u) else bytes_of ''/''
      | None \<Rightarrow> bytes_of ''/'')"

definition process_create :: "users_state \<Rightarrow> proc_table \<Rightarrow> u8 list \<Rightarrow> int \<Rightarrow> u32 \<Rightarrow> u32 \<Rightarrow> (proc_table \<times> nat option) option" where
  "process_create us s name ppid uid gid =
     (case find_slot (\<lambda>p. p_state p = PROCESS_UNUSED) (pt_processes s) 0 of
        None \<Rightarrow> Some (s, None)
      | Some i \<Rightarrow>
          if pt_next_pid s = INT_MAX then None
          else
            let pid = pt_next_pid s;
                p = process_zero\<lparr>p_pid := pid, p_ppid := ppid, p_pgid := pid, p_uid := uid, p_gid := gid, p_state := PROCESS_READY,
                      p_name := take PROCESS_NAME_MAX name, p_cwd := home_cwd (user_find_uid (us_users us) uid)\<rparr> in
            map_option (\<lambda>tty. (s\<lparr>pt_processes := (pt_processes s)[i := setup_stdio tty p], pt_next_pid := pid + 1\<rparr>, Some i))
              (vfs_lookup (us_fs us) (Some (bytes_of ''/dev/tty'')) (Some (bytes_of ''/''))))"

definition set_state :: "proc_table \<Rightarrow> nat \<Rightarrow> process_state \<Rightarrow> proc_table" where
  "set_state s i st = s\<lparr>pt_processes := (pt_processes s)[i := (pt_processes s ! i)\<lparr>p_state := st\<rparr>]\<rparr>"

definition process_init :: "users_state \<Rightarrow> proc_table \<Rightarrow> proc_table option" where
  "process_init us s0 =
     (let s = s0\<lparr>pt_processes := replicate PROCESS_MAX process_zero, pt_next_pid := 1\<rparr>; u = user_current us in
      Option.bind (process_create us s (bytes_of ''init'') 0 (u_uid u) (u_gid u)) (\<lambda>(s, r).
      case r of
        None \<Rightarrow> Some s
      | Some init \<Rightarrow>
          let s = set_state s init PROCESS_READY in
          Option.bind (process_create us s (bytes_of ''tsh'') (p_pid (pt_processes s ! init)) (u_uid u) (u_gid u)) (\<lambda>(s, r).
          Some (case r of
            Some shell \<Rightarrow> (set_state s shell PROCESS_RUNNING)\<lparr>pt_current := Some shell\<rparr>
          | None \<Rightarrow> (set_state s init PROCESS_RUNNING)\<lparr>pt_current := Some init\<rparr>))))"

definition process_find :: "proc_table \<Rightarrow> int \<Rightarrow> nat option" where
  "process_find s pid = find_slot (\<lambda>p. p_state p \<noteq> PROCESS_UNUSED \<and> p_pid p = pid) (pt_processes s) 0"

definition process_exit :: "proc_table \<Rightarrow> nat option \<Rightarrow> int \<Rightarrow> proc_table" where
  "process_exit s proc code =
     (case proc of
        None \<Rightarrow> s
      | Some i \<Rightarrow> s\<lparr>pt_processes := (pt_processes s)[i := (pt_processes s ! i)\<lparr>p_exit_code := code, p_state := PROCESS_ZOMBIE\<rparr>]\<rparr>)"

definition process_kill :: "proc_table \<Rightarrow> int \<Rightarrow> proc_table \<times> int" where
  "process_kill s pid =
     (case process_find s pid of
        None \<Rightarrow> (s, -1)
      | Some i \<Rightarrow>
          if p_pid (pt_processes s ! i) = 1 then (s, -1)
          else (case pt_current s of
                  None \<Rightarrow> (s, -1)
                | Some c \<Rightarrow>
                    if p_uid (pt_processes s ! c) \<noteq> 0 \<and> p_uid (pt_processes s ! c) \<noteq> p_uid (pt_processes s ! i) then (s, -1)
                    else (process_exit s (Some i) (-1), 0)))"

definition process_each :: "(process \<Rightarrow> 'c \<Rightarrow> 'c) \<Rightarrow> proc_table \<Rightarrow> 'c \<Rightarrow> 'c" where
  "process_each visitor s ctx = fold (\<lambda>p ctx. if p_state p \<noteq> PROCESS_UNUSED then visitor p ctx else ctx) (pt_processes s) ctx"

fun process_state_name :: "process_state \<Rightarrow> string" where
  "process_state_name PROCESS_READY = ''ready''"
| "process_state_name PROCESS_RUNNING = ''running''"
| "process_state_name PROCESS_SLEEPING = ''sleep''"
| "process_state_name PROCESS_ZOMBIE = ''zombie''"
| "process_state_name PROCESS_UNUSED = ''unused''"

subsection \<open>File descriptors\<close>

text \<open>
  The descriptors of one process; \<open>proc\<close> and \<open>node\<close> are not NULL where they are dereferenced.
  The search for a free descriptor starts at 3.
\<close>

fun free_fd :: "file_descriptor list \<Rightarrow> nat \<Rightarrow> nat option" where
  "free_fd [] i = None"
| "free_fd (f # fs) i = (if \<not> fd_used f then Some i else free_fd fs (i + 1))"

definition lowest_free :: "file_descriptor list \<Rightarrow> nat option" where
  "lowest_free fds = free_fd (drop 3 fds) 3"

definition set_fds :: "proc_table \<Rightarrow> nat \<Rightarrow> file_descriptor list \<Rightarrow> proc_table" where
  "set_fds s i fds = s\<lparr>pt_processes := (pt_processes s)[i := (pt_processes s ! i)\<lparr>p_fds := fds\<rparr>]\<rparr>"

definition process_open_fd :: "vfs_node list \<Rightarrow> proc_table \<Rightarrow> nat option \<Rightarrow> nat option \<Rightarrow> u32 \<Rightarrow> proc_table \<times> int" where
  "process_open_fd nodes s proc node flags =
     (case (proc, node) of
        (Some p, Some n) \<Rightarrow>
          let fds = p_fds (pt_processes s ! p) in
          (case lowest_free fds of
             None \<Rightarrow> (s, -1)
           | Some i \<Rightarrow>
               (set_fds s p (fds[i := (fds ! i)\<lparr>fd_used := True, fd_flags := flags,
                    fd_offset := if flags AND VFS_O_APPEND \<noteq> 0 then vn_size (nodes ! n) else 0, fd_node := Some n\<rparr>]), int i))
      | _ \<Rightarrow> (s, -1))"

definition process_get_fd :: "proc_table \<Rightarrow> nat option \<Rightarrow> int \<Rightarrow> nat option" where
  "process_get_fd s proc fd =
     (case proc of
        None \<Rightarrow> None
      | Some p \<Rightarrow>
          if fd < 0 \<or> fd \<ge> int VFS_MAX_FDS \<or> \<not> fd_used (p_fds (pt_processes s ! p) ! nat fd) then None else Some (nat fd))"

definition process_close_fd :: "proc_table \<Rightarrow> nat option \<Rightarrow> int \<Rightarrow> proc_table" where
  "process_close_fd s proc fd =
     (case proc of
        None \<Rightarrow> s
      | Some p \<Rightarrow>
          if fd < 0 \<or> fd \<ge> int VFS_MAX_FDS \<or> fd < 3 then s
          else set_fds s p ((p_fds (pt_processes s ! p))[nat fd := fd_zero]))"

definition process_dup_fd :: "proc_table \<Rightarrow> nat option \<Rightarrow> int \<Rightarrow> proc_table \<times> int" where
  "process_dup_fd s proc oldfd =
     (case (proc, process_get_fd s proc oldfd) of
        (Some p, Some old) \<Rightarrow>
          let fds = p_fds (pt_processes s ! p) in
          (case lowest_free fds of
             None \<Rightarrow> (s, -1)
           | Some fd \<Rightarrow> (set_fds s p (fds[fd := fds ! old]), int fd))
      | _ \<Rightarrow> (s, -1))"

definition process_dup2_fd :: "proc_table \<Rightarrow> nat option \<Rightarrow> int \<Rightarrow> int \<Rightarrow> proc_table \<times> int" where
  "process_dup2_fd s proc oldfd newfd =
     (case (proc, process_get_fd s proc oldfd) of
        (Some p, Some old) \<Rightarrow>
          if newfd < 0 \<or> newfd \<ge> int VFS_MAX_FDS then (s, -1)
          else if oldfd = newfd then (s, newfd)
          else (set_fds s p ((p_fds (pt_processes s ! p))[nat newfd := p_fds (pt_processes s ! p) ! old]), newfd)
      | _ \<Rightarrow> (s, -1))"

subsection \<open>Ticks\<close>

definition scheduler_init :: "u64 \<Rightarrow> u64" where "scheduler_init ticks = 0"
definition scheduler_tick :: "u64 \<Rightarrow> u64" where "scheduler_tick ticks = ticks + 1"
definition scheduler_ticks :: "u64 \<Rightarrow> u64" where "scheduler_ticks ticks = ticks"


section \<open>The invariant of the table\<close>

abbreviation in_use :: "proc_table \<Rightarrow> nat \<Rightarrow> bool" where
  "in_use s i \<equiv> i < length (pt_processes s) \<and> p_state (pt_processes s ! i) \<noteq> PROCESS_UNUSED"

text \<open>
  64 slots of 32 descriptors each; the processes in use have distinct pids below \<open>next_pid\<close> and
  their first three descriptors open; process 1 and the current process are in use.
\<close>

definition process_ok :: "int \<Rightarrow> process \<Rightarrow> bool" where
  "process_ok next p \<longleftrightarrow> length (p_fds p) = VFS_MAX_FDS \<and>
     (p_state p \<noteq> PROCESS_UNUSED \<longrightarrow> 1 \<le> p_pid p \<and> p_pid p < next \<and> (\<forall>k < 3. fd_used (p_fds p ! k)))"

definition proc_wf :: "proc_table \<Rightarrow> bool" where
  "proc_wf s \<longleftrightarrow> length (pt_processes s) = PROCESS_MAX \<and> (\<forall>p \<in> set (pt_processes s). process_ok (pt_next_pid s) p) \<and> 1 \<le> pt_next_pid s
     \<and> (\<forall>i j. in_use s i \<and> in_use s j \<and> p_pid (pt_processes s ! i) = p_pid (pt_processes s ! j) \<longrightarrow> i = j)"

definition proc_inv :: "proc_table \<Rightarrow> bool" where
  "proc_inv s \<longleftrightarrow> proc_wf s \<and> (\<exists>i. in_use s i \<and> p_pid (pt_processes s ! i) = 1) \<and> (\<exists>c. pt_current s = Some c \<and> in_use s c)"

lemma find_slot_Some:
  "find_slot P ps k = Some j \<Longrightarrow> \<exists>i. j = k + i \<and> i < length ps \<and> P (ps ! i) \<and> (\<forall>i' < i. \<not> P (ps ! i'))"
proof (induction ps arbitrary: k)
  case (Cons p ps)
  show ?case
  proof (cases "P p")
    case True
    then show ?thesis using Cons.prems by auto
  next
    case False
    then obtain i where i: "j = k + 1 + i" "i < length ps" "P (ps ! i)" "\<forall>i' < i. \<not> P (ps ! i')"
      using Cons.IH [of "k + 1"] Cons.prems by auto
    then show ?thesis using False by (intro exI [of _ "Suc i"]) (simp add: All_less_Suc2)
  qed
qed simp

lemma find_slot_None: "find_slot P ps k = None \<longleftrightarrow> (\<forall>p \<in> set ps. \<not> P p)"
  by (induction ps arbitrary: k) auto

text \<open>
  The operations change one slot each: a step that keeps a used slot's pid and stdio and leaves
  the others alone keeps the invariant.
\<close>

definition updates :: "proc_table \<Rightarrow> nat \<Rightarrow> process \<Rightarrow> proc_table" where
  "updates s i p = s\<lparr>pt_processes := (pt_processes s)[i := p]\<rparr>"

definition live_pid :: "proc_table \<Rightarrow> nat \<Rightarrow> int option" where
  "live_pid s i = (if in_use s i then Some (p_pid (pt_processes s ! i)) else None)"

lemma updates_wf:
  assumes inv: "proc_wf s" and i: "in_use s i" and p: "p_state p \<noteq> PROCESS_UNUSED" "p_pid p = p_pid (pt_processes s ! i)"
    "length (p_fds p) = VFS_MAX_FDS" "\<forall>k < 3. fd_used (p_fds p ! k)"
  shows "proc_wf (updates s i p)" "live_pid (updates s i p) = live_pid s"
proof -
  let ?ps = "pt_processes s"
  have same: "in_use (updates s i p) k = in_use s k" "k < length ?ps \<Longrightarrow> p_pid (pt_processes (updates s i p) ! k) = p_pid (?ps ! k)" for k
    using i p by (auto simp: updates_def nth_list_update)
  have "process_ok (pt_next_pid s) (?ps ! i)" using inv i by (auto simp: proc_wf_def)
  then have "process_ok (pt_next_pid s) p" using i p by (simp add: process_ok_def)
  then have "\<forall>q \<in> set (?ps[i := p]). process_ok (pt_next_pid s) q" using inv set_update_subset_insert [of ?ps i p] unfolding proc_wf_def by blast
  then show "proc_wf (updates s i p)" using inv same unfolding proc_wf_def by (auto simp: updates_def)
  show "live_pid (updates s i p) = live_pid s" using same by (auto simp: live_pid_def)
qed

lemma in_use_live: "in_use s i \<longleftrightarrow> live_pid s i \<noteq> None"
  by (simp add: live_pid_def)

lemma proc_inv_live: "proc_inv s \<longleftrightarrow> proc_wf s \<and> (\<exists>i. live_pid s i = Some 1) \<and> (\<exists>c. pt_current s = Some c \<and> live_pid s c \<noteq> None)"
  by (auto simp: proc_inv_def live_pid_def)

lemma setup_stdio_fds:
  assumes "p_fds p = replicate VFS_MAX_FDS fd_zero"
  shows "length (p_fds (setup_stdio tty p)) = VFS_MAX_FDS" "\<forall>k < 3. fd_used (p_fds (setup_stdio tty p) ! k)"
    "p_pid (setup_stdio tty p) = p_pid p" "p_state (setup_stdio tty p) = p_state p"
  using assms by (simp_all add: setup_stdio_def stdio_fd_def upt_rec VFS_MAX_FDS_def nth_list_update less_Suc_eq numeral_3_eq_3)

lemma tty_lookup:
  assumes "fs_inv fs"
  shows "\<exists>tty. vfs_lookup fs (Some (bytes_of ''/dev/tty'')) (Some (bytes_of ''/'')) = Some tty"
  using vfs_lookup_resolve [OF assms _ nul_free_root, of "Some (bytes_of ''/dev/tty'')"] by (simp add: bytes_of_def)

text \<open>\<open>process_create\<close>: NULL when no slot is free, else the first free slot gets a new pid.\<close>

lemma process_create_cases:
  assumes fs: "fs_inv (us_fs us)" and n: "pt_next_pid s \<noteq> INT_MAX"
  shows "(\<forall>p \<in> set (pt_processes s). p_state p \<noteq> PROCESS_UNUSED) \<and> process_create us s name ppid uid gid = Some (s, None) \<or>
    (\<exists>i p. i < length (pt_processes s) \<and> p_state (pt_processes s ! i) = PROCESS_UNUSED \<and> (\<forall>k < i. p_state (pt_processes s ! k) \<noteq> PROCESS_UNUSED) \<and>
       process_create us s name ppid uid gid = Some (s\<lparr>pt_processes := (pt_processes s)[i := p], pt_next_pid := pt_next_pid s + 1\<rparr>, Some i) \<and>
       p_pid p = pt_next_pid s \<and> p_state p = PROCESS_READY \<and> length (p_fds p) = VFS_MAX_FDS \<and> (\<forall>k < 3. fd_used (p_fds p ! k)))"
proof (cases "find_slot (\<lambda>p. p_state p = PROCESS_UNUSED) (pt_processes s) 0")
  case None
  then show ?thesis by (simp add: process_create_def) (simp add: find_slot_None)
next
  case (Some i)
  obtain tty where t: "vfs_lookup (us_fs us) (Some (bytes_of ''/dev/tty'')) (Some (bytes_of ''/'')) = Some tty" using tty_lookup [OF fs] by blast
  let ?p = "process_zero\<lparr>p_pid := pt_next_pid s, p_ppid := ppid, p_pgid := pt_next_pid s, p_uid := uid, p_gid := gid, p_state := PROCESS_READY,
                      p_name := take PROCESS_NAME_MAX name, p_cwd := home_cwd (user_find_uid (us_users us) uid)\<rparr>"
  have "process_create us s name ppid uid gid =
      Some (s\<lparr>pt_processes := (pt_processes s)[i := setup_stdio tty ?p], pt_next_pid := pt_next_pid s + 1\<rparr>, Some i)"
    using n t by (simp add: process_create_def Some Let_def)
  moreover have "p_fds ?p = replicate VFS_MAX_FDS fd_zero" by (simp add: process_zero_def)
  note setup_stdio_fds [OF this, of tty]
  ultimately show ?thesis using find_slot_Some [OF Some] by (intro disjI2 exI [of _ i] exI [of _ "setup_stdio tty ?p"]) simp
qed

lemma create_wf:
  assumes wf: "proc_wf s" and i: "i < length (pt_processes s)" "p_state (pt_processes s ! i) = PROCESS_UNUSED"
    and p: "p_pid p = pt_next_pid s" "p_state p \<noteq> PROCESS_UNUSED" "length (p_fds p) = VFS_MAX_FDS" "\<forall>k < 3. fd_used (p_fds p ! k)"
  defines "s' \<equiv> s\<lparr>pt_processes := (pt_processes s)[i := p], pt_next_pid := pt_next_pid s + 1\<rparr>"
  shows "proc_wf s'" "live_pid s' = (live_pid s)(i \<mapsto> pt_next_pid s)"
proof -
  let ?ps = "pt_processes s"
  show l: "live_pid s' = (live_pid s)(i \<mapsto> pt_next_pid s)"
    using i p by (auto simp: live_pid_def s'_def nth_list_update)
  have ok: "process_ok (pt_next_pid s + 1) q" if "q \<in> set (?ps[i := p])" for q
  proof (cases "q = p")
    case True
    then show ?thesis using p wf by (simp add: process_ok_def proc_wf_def)
  next
    case False
    then have "q \<in> set ?ps" using that set_update_subset_insert [of ?ps i p] by blast
    then have "process_ok (pt_next_pid s) q" using wf by (auto simp: proc_wf_def)
    then show ?thesis by (auto simp: process_ok_def)
  qed
  have old: "v < pt_next_pid s" if "live_pid s k = Some v" for k v
    using that wf by (auto simp: live_pid_def proc_wf_def process_ok_def split: if_splits)
  have inj: "j = k" if "live_pid s j = Some v" "live_pid s k = Some v" for j k v
    using that wf by (auto simp: live_pid_def proc_wf_def split: if_splits)
  have inj': "j = k" if "live_pid s' j = Some v" "live_pid s' k = Some v" for j k v
    using that old [of j] old [of k] inj unfolding l by (fastforce split: if_splits)
  have "j = k" if "in_use s' j" "in_use s' k" "p_pid (pt_processes s' ! j) = p_pid (pt_processes s' ! k)" for j k
    using that by (intro inj' [of j "p_pid (pt_processes s' ! j)" k]) (simp_all add: live_pid_def)
  then show "proc_wf s'" using wf ok unfolding proc_wf_def by (auto simp: s'_def)
qed

text \<open>The steps: the operations, and the syscall layer switching the state of a process in use.\<close>

inductive proc_step :: "proc_table \<Rightarrow> proc_table \<Rightarrow> bool" where
  create: "fs_inv (us_fs us) \<Longrightarrow> process_create us s name ppid uid gid = Some (s', r) \<Longrightarrow> proc_step s s'"
| exit: "in_use s i \<Longrightarrow> proc_step s (process_exit s (Some i) code)"
| kill: "process_kill s pid = (s', rc) \<Longrightarrow> proc_step s s'"
| open_fd: "in_use s p \<Longrightarrow> process_open_fd nodes s (Some p) node flags = (s', rc) \<Longrightarrow> proc_step s s'"
| close_fd: "in_use s p \<Longrightarrow> proc_step s (process_close_fd s (Some p) fd)"
| dup: "in_use s p \<Longrightarrow> process_dup_fd s (Some p) fd = (s', rc) \<Longrightarrow> proc_step s s'"
| dup2: "in_use s p \<Longrightarrow> process_dup2_fd s (Some p) fd fd' = (s', rc) \<Longrightarrow> proc_step s s'"
| run: "in_use s i \<Longrightarrow> st \<noteq> PROCESS_UNUSED \<Longrightarrow> proc_step s (set_state s i st)"

inductive proc_reachable :: "proc_table \<Rightarrow> bool" where
  init: "fs_inv (us_fs us) \<Longrightarrow> process_init us s0 = Some s \<Longrightarrow> proc_reachable s"
| step: "proc_reachable s \<Longrightarrow> proc_step s s' \<Longrightarrow> proc_reachable s'"

lemma free_fd_Some:
  "free_fd fs k = Some j \<Longrightarrow> \<exists>i. j = k + i \<and> i < length fs \<and> \<not> fd_used (fs ! i) \<and> (\<forall>i' < i. fd_used (fs ! i'))"
proof (induction fs arbitrary: k)
  case (Cons f fs)
  show ?case
  proof (cases "fd_used f")
    case False
    then show ?thesis using Cons.prems by auto
  next
    case True
    then obtain i where i: "j = k + 1 + i" "i < length fs" "\<not> fd_used (fs ! i)" "\<forall>i' < i. fd_used (fs ! i')"
      using Cons.IH [of "k + 1"] Cons.prems by auto
    then show ?thesis using True by (intro exI [of _ "Suc i"]) (simp add: All_less_Suc2)
  qed
qed simp

lemma free_fd_None: "free_fd fs k = None \<longleftrightarrow> (\<forall>f \<in> set fs. fd_used f)"
  by (induction fs arbitrary: k) auto

lemma lowest_free_Some:
  assumes "lowest_free fds = Some i"
  shows "3 \<le> i" "i < length fds" "\<not> fd_used (fds ! i)" "\<And>j. 3 \<le> j \<Longrightarrow> j < i \<Longrightarrow> fd_used (fds ! j)"
proof -
  obtain k where k: "i = 3 + k" "k < length (drop 3 fds)" "\<not> fd_used (drop 3 fds ! k)" "\<forall>i' < k. fd_used (drop 3 fds ! i')"
    using free_fd_Some [of "drop 3 fds" 3 i] assms by (auto simp: lowest_free_def)
  then show "3 \<le> i" "i < length fds" "\<not> fd_used (fds ! i)" by auto
  fix j assume "3 \<le> j" "j < i"
  then have "j - 3 < k" using k(1) by simp
  then have "fd_used (drop 3 fds ! (j - 3))" using k(4) by blast
  then show "fd_used (fds ! j)" using \<open>3 \<le> j\<close> k(1,2) \<open>j < i\<close> by (simp add: nth_drop)
qed

lemma lowest_free_None: "lowest_free fds = None \<longleftrightarrow> (\<forall>j. 3 \<le> j \<and> j < length fds \<longrightarrow> fd_used (fds ! j))"
proof -
  have "(\<forall>f \<in> set (drop 3 fds). fd_used f) \<longleftrightarrow> (\<forall>j. 3 \<le> j \<and> j < length fds \<longrightarrow> fd_used (fds ! j))"
  proof (intro iffI allI impI ballI)
    fix j assume "\<forall>f \<in> set (drop 3 fds). fd_used f" "3 \<le> j \<and> j < length fds"
    moreover from this have "fds ! j = drop 3 fds ! (j - 3)" "j - 3 < length (drop 3 fds)" by auto
    ultimately show "fd_used (fds ! j)" by (metis nth_mem)
  qed (auto simp: in_set_conv_nth)
  then show ?thesis by (simp add: lowest_free_def free_fd_None)
qed

text \<open>Every step but \<open>create\<close> keeps the processes' pids; the descriptor operations keep stdio open.\<close>

lemma set_fds_updates: "set_fds s i fds = updates s i ((pt_processes s ! i)\<lparr>p_fds := fds\<rparr>)"
  "set_state s i st = updates s i ((pt_processes s ! i)\<lparr>p_state := st\<rparr>)"
  "process_exit s (Some i) code = updates s i ((pt_processes s ! i)\<lparr>p_exit_code := code, p_state := PROCESS_ZOMBIE\<rparr>)"
  by (simp_all add: set_fds_def set_state_def process_exit_def updates_def)

lemma updates_current: "pt_current (updates s i p) = pt_current s" "pt_next_pid (updates s i p) = pt_next_pid s"
  by (simp_all add: updates_def)

lemma wf_fds:
  assumes "proc_wf s" "in_use s i"
  shows "length (p_fds (pt_processes s ! i)) = VFS_MAX_FDS" "\<forall>k < 3. fd_used (p_fds (pt_processes s ! i) ! k)"
  using assms by (auto simp: proc_wf_def process_ok_def)

lemma get_fd_used:
  assumes "proc_wf s" "in_use s p" "process_get_fd s (Some p) fd = Some i"
  shows "i < VFS_MAX_FDS" "fd_used (p_fds (pt_processes s ! p) ! i)" "fd = int i"
  using assms by (auto simp: process_get_fd_def split: if_splits)

lemma keep_fds:
  assumes wf: "proc_wf s" and u: "in_use s p" and f: "length fds = VFS_MAX_FDS" "\<forall>k < 3. fd_used (fds ! k)"
  shows "proc_wf (set_fds s p fds)" "live_pid (set_fds s p fds) = live_pid s" "pt_current (set_fds s p fds) = pt_current s"
  unfolding set_fds_updates using assms by (auto intro!: updates_wf simp: updates_current)

lemma keep_process:
  assumes wf: "proc_wf s" and u: "in_use s i" and p: "p_state p \<noteq> PROCESS_UNUSED" "p_pid p = p_pid (pt_processes s ! i)" "p_fds p = p_fds (pt_processes s ! i)"
  shows "proc_wf (updates s i p) \<and> live_pid s \<subseteq>\<^sub>m live_pid (updates s i p) \<and> pt_current (updates s i p) = pt_current s"
  using updates_wf [OF wf u p(1,2)] wf_fds [OF wf u] p(3) by (simp add: updates_current)

lemma proc_step_wf:
  assumes "proc_step s s'" "proc_wf s"
  shows "proc_wf s' \<and> live_pid s \<subseteq>\<^sub>m live_pid s' \<and> pt_current s' = pt_current s"
  using assms(1)
proof cases
  case (create us name ppid uid gid r)
  show ?thesis
  proof (cases "s' = s")
    case False
    then have n: "pt_next_pid s \<noteq> INT_MAX" using create(2) by (auto simp: process_create_def split: option.splits)
    show ?thesis
    using process_create_cases [OF create(1) n, of name ppid uid gid]
  proof (elim disjE conjE exE)
    fix i p assume c: "i < length (pt_processes s)" "p_state (pt_processes s ! i) = PROCESS_UNUSED"
      "process_create us s name ppid uid gid = Some (s\<lparr>pt_processes := (pt_processes s)[i := p], pt_next_pid := pt_next_pid s + 1\<rparr>, Some i)"
      "p_pid p = pt_next_pid s" "p_state p = PROCESS_READY" "length (p_fds p) = VFS_MAX_FDS" "\<forall>k < 3. fd_used (p_fds p ! k)"
    have "live_pid s i = None" using c(2) by (simp add: live_pid_def)
    then show ?thesis using create_wf [OF assms(2) c(1,2,4) _ c(6,7)] c(3,5) create(2) by (auto simp: map_le_def)
  qed (use create assms(2) in simp)
  qed (use assms in simp)
next
  case (exit i code)
  then show ?thesis using assms(2) by (simp add: set_fds_updates keep_process)
next
  case (kill pid rc)
  show ?thesis
  proof (cases "s' = s")
    case False
    then obtain i where i: "process_find s pid = Some i" "s' = process_exit s (Some i) (-1)"
      using kill by (auto simp: process_kill_def split: option.splits if_splits)
    then have "in_use s i" using find_slot_Some [of _ "pt_processes s" 0 i] by (auto simp: process_find_def)
    then show ?thesis using assms(2) i(2) by (simp add: set_fds_updates keep_process)
  qed (use assms in simp)
next
  case (open_fd p nodes node flags rc)
  note W = wf_fds [OF assms(2) open_fd(1)]
  show ?thesis
  proof (cases "s' = s")
    case False
    then obtain i f where i: "lowest_free (p_fds (pt_processes s ! p)) = Some i" "s' = set_fds s p ((p_fds (pt_processes s ! p))[i := f])"
      using open_fd(2) by (auto simp: process_open_fd_def Let_def split: option.splits)
    then show ?thesis using keep_fds [OF assms(2) open_fd(1), of "(p_fds (pt_processes s ! p))[i := f]"] W lowest_free_Some(1) [OF i(1)] by auto
  qed (use assms in simp)
next
  case (close_fd p fd)
  note W = wf_fds [OF assms(2) close_fd(2)]
  show ?thesis using keep_fds [OF assms(2) close_fd(2), of "(p_fds (pt_processes s ! p))[nat fd := fd_zero]"] W assms(2)
    by (auto simp: close_fd(1) process_close_fd_def)
next
  case (dup p fd rc)
  note W = wf_fds [OF assms(2) dup(1)]
  show ?thesis
  proof (cases "s' = s")
    case False
    then obtain i f where i: "lowest_free (p_fds (pt_processes s ! p)) = Some i" "s' = set_fds s p ((p_fds (pt_processes s ! p))[i := f])"
      using dup(2) by (auto simp: process_dup_fd_def Let_def split: option.splits)
    then show ?thesis using keep_fds [OF assms(2) dup(1), of "(p_fds (pt_processes s ! p))[i := f]"] W lowest_free_Some(1) [OF i(1)] by auto
  qed (use assms in simp)
next
  case (dup2 p fd fd' rc)
  note W = wf_fds [OF assms(2) dup2(1)]
  show ?thesis
  proof (cases "s' = s")
    case False
    then obtain i where i: "process_get_fd s (Some p) fd = Some i" "s' = set_fds s p ((p_fds (pt_processes s ! p))[nat fd' := p_fds (pt_processes s ! p) ! i])"
      using dup2(2) by (auto simp: process_dup2_fd_def split: option.splits if_splits)
    then have "fd_used (p_fds (pt_processes s ! p) ! i)" using get_fd_used [OF assms(2) dup2(1) i(1)] by simp
    then have "fd_used ((p_fds (pt_processes s ! p))[nat fd' := p_fds (pt_processes s ! p) ! i] ! k)" if "k < 3" for k
      using that W by (cases "nat fd' = k") (simp_all add: VFS_MAX_FDS_def)
    then show ?thesis
      using keep_fds [OF assms(2) dup2(1), of "(p_fds (pt_processes s ! p))[nat fd' := p_fds (pt_processes s ! p) ! i]"] W(1) i(2) by simp
  qed (use assms in simp)
next
  case (run i st)
  then show ?thesis using assms(2) by (simp add: set_fds_updates keep_process)
qed

lemma map_le_Some: "f \<subseteq>\<^sub>m g \<Longrightarrow> f a = Some b \<Longrightarrow> g a = Some b"
  by (metis domI map_le_def)

lemma process_init_inv:
  assumes fs: "fs_inv (us_fs us)"
  shows "\<exists>s. process_init us s0 = Some s \<and> proc_inv s \<and> pt_next_pid s = 3 \<and> (\<exists>j. pt_current s = Some j \<and> live_pid s j = Some 2)"
proof -
  let ?s = "s0\<lparr>pt_processes := replicate PROCESS_MAX process_zero, pt_next_pid := 1\<rparr>" and ?u = "user_current us"
  have z: "p_state process_zero = PROCESS_UNUSED" "length (p_fds process_zero) = VFS_MAX_FDS" by (simp_all add: process_zero_def)
  have wf0: "proc_wf ?s" using z by (auto simp: proc_wf_def process_ok_def PROCESS_MAX_def)
  obtain i p where i: "i < PROCESS_MAX" "process_create us ?s (bytes_of ''init'') 0 (u_uid ?u) (u_gid ?u) =
       Some (?s\<lparr>pt_processes := (replicate PROCESS_MAX process_zero)[i := p], pt_next_pid := 2\<rparr>, Some i)"
    "p_pid p = 1" "p_state p = PROCESS_READY" "length (p_fds p) = VFS_MAX_FDS" "\<forall>k < 3. fd_used (p_fds p ! k)"
    using process_create_cases [OF fs, of ?s "bytes_of ''init''" 0 "u_uid ?u" "u_gid ?u"] z
    by (auto simp: PROCESS_MAX_def INT_MAX_def)
  let ?s1 = "?s\<lparr>pt_processes := (replicate PROCESS_MAX process_zero)[i := p], pt_next_pid := 2\<rparr>"
  have w1: "proc_wf ?s1" "live_pid ?s1 = (live_pid ?s)(i \<mapsto> 1)"
    using create_wf [OF wf0, of i p] i z by simp_all
  have u1: "in_use ?s1 i" unfolding in_use_live w1(2) by simp
  have pi: "pt_processes ?s1 ! i = p" using i(1) by simp
  have "p\<lparr>p_state := PROCESS_READY\<rparr> = p" using i(4) by (cases p) simp
  then have id: "set_state ?s1 i PROCESS_READY = ?s1" using i(1) pi by (simp add: set_state_def)
  obtain j q where j: "j < PROCESS_MAX" "p_state (pt_processes ?s1 ! j) = PROCESS_UNUSED"
     "process_create us ?s1 (bytes_of ''tsh'') 1 (u_uid ?u) (u_gid ?u) =
       Some (?s1\<lparr>pt_processes := (pt_processes ?s1)[j := q], pt_next_pid := 3\<rparr>, Some j)"
    "p_pid q = 2" "p_state q = PROCESS_READY" "length (p_fds q) = VFS_MAX_FDS" "\<forall>k < 3. fd_used (p_fds q ! k)"
  proof -
    define k :: nat where "k = (if i = 0 then 1 else 0)"
    have "k < length (pt_processes ?s1)" "p_state (pt_processes ?s1 ! k) = PROCESS_UNUSED" using z by (auto simp: k_def PROCESS_MAX_def)
    then have "\<not> (\<forall>p \<in> set (pt_processes ?s1). p_state p \<noteq> PROCESS_UNUSED)" using nth_mem by metis
    then show ?thesis using process_create_cases [OF fs, of ?s1 "bytes_of ''tsh''" 1 "u_uid ?u" "u_gid ?u"] that
      by (auto simp: INT_MAX_def)
  qed
  let ?s2 = "?s1\<lparr>pt_processes := (pt_processes ?s1)[j := q], pt_next_pid := 3\<rparr>"
  have w2: "proc_wf ?s2" "live_pid ?s2 = (live_pid ?s1)(j \<mapsto> 2)"
    using create_wf [OF w1(1), of j q] j by simp_all
  have u2: "in_use ?s2 j" unfolding in_use_live w2(2) by simp
  have "live_pid ?s1 j = None" using j(2) by (simp add: live_pid_def)
  then have ij: "i \<noteq> j" using w1(2) by auto
  have k: "proc_wf (set_state ?s2 j PROCESS_RUNNING)" "live_pid ?s2 \<subseteq>\<^sub>m live_pid (set_state ?s2 j PROCESS_RUNNING)"
    using keep_process [OF w2(1) u2] by (simp_all add: set_fds_updates)
  have lv: "live_pid ?s2 i = Some 1" "live_pid ?s2 j = Some 2" using w2(2) w1(2) ij by simp_all
  let ?s3 = "(set_state ?s2 j PROCESS_RUNNING)\<lparr>pt_current := Some j\<rparr>"
  have "proc_wf ?s3" "live_pid ?s3 = live_pid (set_state ?s2 j PROCESS_RUNNING)" using k(1) by (simp_all add: proc_wf_def live_pid_def fun_eq_iff)
  moreover have "live_pid (set_state ?s2 j PROCESS_RUNNING) i = Some 1" "live_pid (set_state ?s2 j PROCESS_RUNNING) j = Some 2"
    by (rule map_le_Some [OF k(2)], rule lv)+
  ultimately have "proc_inv ?s3 \<and> pt_current ?s3 = Some j \<and> live_pid ?s3 j = Some 2" unfolding proc_inv_live by auto
  moreover have "pt_next_pid ?s3 = 3" by (simp add: set_state_def)
  moreover have "process_init us s0 = Some ?s3"
    unfolding process_init_def Let_def i(2) bind.bind_lunit prod.case option.case id pi i(3) j(3) ..
  ultimately show ?thesis by blast
qed

lemma proc_reachable_inv: "proc_reachable s \<Longrightarrow> proc_inv s"
proof (induction rule: proc_reachable.induct)
  case (init us s0 s)
  then show ?case using process_init_inv [OF init(1), of s0] by auto
next
  case (step s s')
  have wf: "proc_wf s" and k: "proc_wf s'" "live_pid s \<subseteq>\<^sub>m live_pid s'" "pt_current s' = pt_current s"
    using proc_step_wf [OF step(2)] step(3) by (auto simp: proc_inv_def)
  have up: "live_pid s' i = Some v" if "live_pid s i = Some v" for i v using map_le_Some [OF k(2) that] .
  show ?case using step(3) k(1,3) up unfolding proc_inv_live by fastforce
qed

lemma process_find_live:
  assumes inv: "proc_inv s"
  shows "process_find s v = Some i \<longleftrightarrow> live_pid s i = Some v"
proof
  assume "process_find s v = Some i"
  then show "live_pid s i = Some v" using find_slot_Some [of _ "pt_processes s" 0 i] by (auto simp: process_find_def live_pid_def)
next
  assume l: "live_pid s i = Some v"
  then have i: "in_use s i" "p_pid (pt_processes s ! i) = v" by (auto simp: live_pid_def split: if_splits)
  then obtain j where j: "process_find s v = Some j"
    using find_slot_None [of "\<lambda>p. p_state p \<noteq> PROCESS_UNUSED \<and> p_pid p = v" "pt_processes s" 0]
    by (cases "process_find s v") (auto simp: process_find_def)
  then have "in_use s j" "p_pid (pt_processes s ! j) = v" using find_slot_Some [of _ "pt_processes s" 0 j] by (auto simp: process_find_def)
  then have "j = i" using inv i unfolding proc_inv_def proc_wf_def by blast
  then show "process_find s v = Some i" using j by simp
qed

section \<open>Properties\<close>

text \<open>
  C20: in every run of the process table the processes in use have distinct pids, \<open>process_find\<close>
  returns exactly the one with the pid, process 1 and the current process stay in use, and
  \<open>process_kill\<close> never touches process 1.
\<close>

theorem process_table_invariant:
  assumes "proc_reachable s"
  shows "proc_inv s \<and> (process_find s pid = Some i \<longleftrightarrow> live_pid s i = Some pid) \<and> process_kill s 1 = (s, -1)"
proof -
  have inv: "proc_inv s" by (rule proc_reachable_inv [OF assms])
  note f = process_find_live [OF inv]
  have "process_kill s 1 = (s, -1)" using f [of 1] by (auto simp: process_kill_def live_pid_def split: option.split if_splits)
  then show ?thesis using inv f by blast
qed

definition boot_procs :: proc_table where
  "boot_procs = \<lparr>pt_processes = [], pt_next_pid = 1, pt_current = None\<rparr>"

theorem process_table_invariant_witness:
  "\<exists>s i. process_init boot_users boot_procs = Some s \<and> proc_inv s \<and> process_find s 1 = Some i \<and> process_kill s 1 = (s, -1)"
proof -
  have fs: "fs_inv (us_fs boot_users)" by (simp add: boot_users_def root_fs_inv)
  obtain s where s: "process_init boot_users boot_procs = Some s" using process_init_inv [OF fs] by blast
  note r = proc_reachable.init [OF fs s]
  obtain i where "live_pid s i = Some 1" using process_table_invariant [OF r] unfolding proc_inv_live by blast
  then show ?thesis using process_table_invariant [OF r, of 1 i] s by blast
qed

text \<open>
  Killing.  In a run, \<open>process_kill\<close> succeeds exactly for a pid in use other than 1 when the
  current process is root's or has the same uid; that process becomes a zombie with exit code
  -1 and every other slot is unchanged.  Otherwise nothing changes and the result is -1.
\<close>

lemma process_kill_permission:
  assumes "proc_reachable s" and "pt_current s = Some c"
  shows "case process_find s pid of
      None \<Rightarrow> process_kill s pid = (s, -1)
    | Some i \<Rightarrow>
        if pid \<noteq> 1 \<and> (p_uid (pt_processes s ! c) = 0 \<or> p_uid (pt_processes s ! c) = p_uid (pt_processes s ! i))
        then \<exists>s'. process_kill s pid = (s', 0) \<and> p_state (pt_processes s' ! i) = PROCESS_ZOMBIE \<and> p_exit_code (pt_processes s' ! i) = -1 \<and>
               (\<forall>j. j \<noteq> i \<longrightarrow> pt_processes s' ! j = pt_processes s ! j) \<and> live_pid s' = live_pid s
        else process_kill s pid = (s, -1)"
proof (cases "process_find s pid")
  case (Some i)
  have inv: "proc_wf s" "proc_inv s" using proc_reachable_inv [OF assms(1)] by (simp_all add: proc_inv_def)
  have u: "in_use s i" "p_pid (pt_processes s ! i) = pid" using process_find_live [OF inv(2), of pid i] Some by (auto simp: live_pid_def split: if_splits)
  let ?p = "(pt_processes s ! i)\<lparr>p_exit_code := -1, p_state := PROCESS_ZOMBIE\<rparr>"
  have "live_pid (updates s i ?p) = live_pid s" using updates_wf(2) [OF inv(1) u(1), of ?p] wf_fds [OF inv(1) u(1)] by simp
  moreover have "pt_processes (updates s i ?p) ! i = ?p" "\<forall>j. j \<noteq> i \<longrightarrow> pt_processes (updates s i ?p) ! j = pt_processes s ! j"
    using u(1) by (simp_all add: updates_def)
  ultimately show ?thesis using assms(2) u(2) by (simp add: process_kill_def Some set_fds_updates)
qed (simp add: process_kill_def)

text \<open>
  Slots are never given back.  Once all 64 slots are in use, in every later state, whatever
  processes have exited or were killed, \<open>process_create\<close> returns NULL.
\<close>

lemma process_slots_never_freed:
  assumes "proc_reachable s" and "\<forall>i < PROCESS_MAX. live_pid s i \<noteq> None" and "proc_step\<^sup>*\<^sup>* s s'"
  shows "process_create us s' name ppid uid gid = Some (s', None)"
proof -
  have "proc_wf s" using proc_reachable_inv [OF assms(1)] by (simp add: proc_inv_def)
  with assms(3) have "proc_wf s' \<and> (\<forall>i < PROCESS_MAX. live_pid s' i \<noteq> None)"
  proof (induction rule: rtranclp_induct)
    case (step y z)
    then have "proc_wf y" "\<forall>i < PROCESS_MAX. live_pid y i \<noteq> None" by auto
    moreover from this have "proc_wf z" "live_pid y \<subseteq>\<^sub>m live_pid z" using proc_step_wf [OF step(2)] by auto
    ultimately show ?case using map_le_Some [of "live_pid y" "live_pid z"] by (metis option.exhaust)
  qed (use assms(2) in simp)
  then have "\<forall>p \<in> set (pt_processes s'). p_state p \<noteq> PROCESS_UNUSED"
    by (auto simp: proc_wf_def live_pid_def in_set_conv_nth split: if_splits)
  then have "find_slot (\<lambda>p. p_state p = PROCESS_UNUSED) (pt_processes s') 0 = None" by (simp add: find_slot_None)
  then show ?thesis by (simp add: process_create_def)
qed

lemma live_pid_dom: "dom (live_pid s) \<subseteq> {..<length (pt_processes s)}"
  by (auto simp: live_pid_def split: if_splits)

lemma fill_table:
  "proc_reachable s \<Longrightarrow> fs_inv (us_fs (us :: users_state)) \<Longrightarrow> PROCESS_MAX - card (dom (live_pid s)) = n \<Longrightarrow> pt_next_pid s + int n < INT_MAX \<Longrightarrow>
   \<exists>s'. proc_reachable s' \<and> (\<forall>i < PROCESS_MAX. live_pid s' i \<noteq> None)"
proof (induction n arbitrary: s)
  case 0
  have wf: "length (pt_processes s) = PROCESS_MAX" using proc_reachable_inv [OF 0(1)] by (simp add: proc_inv_def proc_wf_def)
  then have "dom (live_pid s) \<subseteq> {..<PROCESS_MAX}" "card {..<PROCESS_MAX} \<le> card (dom (live_pid s))" using live_pid_dom [of s] 0(3) by simp_all
  then have "dom (live_pid s) = {..<PROCESS_MAX}" by (intro card_seteq) simp_all
  then show ?case using 0(1) by blast
next
  case (Suc n)
  have wf: "proc_wf s" "length (pt_processes s) = PROCESS_MAX" using proc_reachable_inv [OF Suc(2)] by (simp_all add: proc_inv_def proc_wf_def)
  have ne: "pt_next_pid s \<noteq> INT_MAX" using Suc(5) by simp
  have fin: "finite (dom (live_pid s))" using live_pid_dom [of s] finite_subset by blast
  from process_create_cases [OF Suc(3) ne, of "[]" 0 0 0] show ?case
  proof (elim disjE conjE exE)
    assume "\<forall>p \<in> set (pt_processes s). p_state p \<noteq> PROCESS_UNUSED"
    then have "\<forall>i < PROCESS_MAX. live_pid s i \<noteq> None" using wf(2) by (simp add: live_pid_def)
    then show ?thesis using Suc(2) by blast
  next
    fix i p assume c: "i < length (pt_processes s)" "p_state (pt_processes s ! i) = PROCESS_UNUSED"
      "process_create us s [] 0 0 0 = Some (s\<lparr>pt_processes := (pt_processes s)[i := p], pt_next_pid := pt_next_pid s + 1\<rparr>, Some i)"
      "p_pid p = pt_next_pid s" "p_state p = PROCESS_READY" "length (p_fds p) = VFS_MAX_FDS" "\<forall>k < 3. fd_used (p_fds p ! k)"
    let ?s = "s\<lparr>pt_processes := (pt_processes s)[i := p], pt_next_pid := pt_next_pid s + 1\<rparr>"
    have l: "live_pid ?s = (live_pid s)(i \<mapsto> pt_next_pid s)" using create_wf(2) [OF wf(1) c(1,2,4) _ c(6,7)] c(5) by simp
    have "i \<notin> dom (live_pid s)" using c(2) by (simp add: live_pid_def dom_def)
    then have "card (dom (live_pid ?s)) = Suc (card (dom (live_pid s)))" unfolding l using fin by simp
    then have "PROCESS_MAX - card (dom (live_pid ?s)) = n" using Suc(4) by simp
    moreover have "proc_reachable ?s" by (rule proc_reachable.step [OF Suc(2) proc_step.create [OF Suc(3) c(3)]])
    ultimately show ?thesis using Suc(1) [of ?s] Suc(3,5) by simp
  qed
qed

section \<open>Descriptors as a map\<close>

text \<open>The abstract state: the open descriptors of a process with their flags, offset and node.\<close>

type_synonym fd_view = "u32 \<times> u64 \<times> nat option"

definition fd_map :: "proc_table \<Rightarrow> nat \<Rightarrow> nat \<Rightarrow> fd_view option" where
  "fd_map s p k =
     (let fds = p_fds (pt_processes s ! p) in
      if k < VFS_MAX_FDS \<and> fd_used (fds ! k) then Some (fd_flags (fds ! k), fd_offset (fds ! k), fd_node (fds ! k)) else None)"

definition lowest :: "(nat \<Rightarrow> fd_view option) \<Rightarrow> nat option" where
  "lowest m = find (\<lambda>k. m k = None) [3..<VFS_MAX_FDS]"

definition get_spec :: "int \<Rightarrow> (nat \<Rightarrow> fd_view option) \<Rightarrow> fd_view option" where
  "get_spec fd m = (if fd < 0 then None else m (nat fd))"

definition put_spec :: "fd_view \<Rightarrow> (nat \<Rightarrow> fd_view option) \<Rightarrow> (nat \<Rightarrow> fd_view option) \<times> int" where
  "put_spec f m = (case lowest m of None \<Rightarrow> (m, -1) | Some i \<Rightarrow> (m(i \<mapsto> f), int i))"

definition dup_spec :: "int \<Rightarrow> (nat \<Rightarrow> fd_view option) \<Rightarrow> (nat \<Rightarrow> fd_view option) \<times> int" where
  "dup_spec fd m = (case get_spec fd m of None \<Rightarrow> (m, -1) | Some f \<Rightarrow> put_spec f m)"

definition dup2_spec :: "int \<Rightarrow> int \<Rightarrow> (nat \<Rightarrow> fd_view option) \<Rightarrow> (nat \<Rightarrow> fd_view option) \<times> int" where
  "dup2_spec fd fd' m =
     (case get_spec fd m of
        None \<Rightarrow> (m, -1)
      | Some f \<Rightarrow> if fd' < 0 \<or> int VFS_MAX_FDS \<le> fd' then (m, -1) else (m(nat fd' \<mapsto> f), fd'))"

definition close_spec :: "int \<Rightarrow> (nat \<Rightarrow> fd_view option) \<Rightarrow> nat \<Rightarrow> fd_view option" where
  "close_spec fd m = (if fd < 3 then m else m(nat fd := None))"

lemma lowest_free_lowest:
  assumes "length (p_fds (pt_processes s ! p)) = VFS_MAX_FDS"
  shows "lowest_free (p_fds (pt_processes s ! p)) = lowest (fd_map s p)"
proof (cases "lowest_free (p_fds (pt_processes s ! p))")
  case None
  then have "\<forall>j. 3 \<le> j \<and> j < VFS_MAX_FDS \<longrightarrow> fd_used (p_fds (pt_processes s ! p) ! j)" using assms by (simp add: lowest_free_None)
  then have "find (\<lambda>k. fd_map s p k = None) [3..<VFS_MAX_FDS] = None" by (auto simp: find_None_iff fd_map_def Let_def)
  then show ?thesis using None by (simp add: lowest_def)
next
  case (Some i)
  note L = lowest_free_Some [OF Some]
  have "find (\<lambda>k. fd_map s p k = None) [3..<VFS_MAX_FDS] = Some i"
    unfolding find_Some_iff using L assms by (intro exI [of _ "i - 3"]) (auto simp: fd_map_def Let_def)
  then show ?thesis using Some by (simp add: lowest_def)
qed

lemma fd_map_set:
  assumes "in_use s p" "i < VFS_MAX_FDS" "length (p_fds (pt_processes s ! p)) = VFS_MAX_FDS"
  shows "fd_map (set_fds s p ((p_fds (pt_processes s ! p))[i := f])) p =
      (fd_map s p)(i := if fd_used f then Some (fd_flags f, fd_offset f, fd_node f) else None)"
    "q \<noteq> p \<Longrightarrow> fd_map (set_fds s p fds) q = fd_map s q"
  using assms by (auto simp: fd_map_def set_fds_def Let_def fun_eq_iff nth_list_update)

lemma get_fd_spec:
  "process_get_fd s (Some p) fd = (if get_spec fd (fd_map s p) = None then None else Some (nat fd))"
  by (auto simp: process_get_fd_def get_spec_def fd_map_def Let_def)

lemma get_fd_view:
  assumes "process_get_fd s (Some p) fd = Some i"
  shows "i = nat fd" "i < VFS_MAX_FDS" "fd_used (p_fds (pt_processes s ! p) ! i)" "0 \<le> fd"
    "get_spec fd (fd_map s p) = Some (fd_flags (p_fds (pt_processes s ! p) ! i), fd_offset (p_fds (pt_processes s ! p) ! i), fd_node (p_fds (pt_processes s ! p) ! i))"
  using assms by (auto simp: process_get_fd_def get_spec_def fd_map_def Let_def split: if_splits)

text \<open>The other processes' descriptors and all pids are as before.\<close>

definition same_others :: "nat \<Rightarrow> proc_table \<Rightarrow> proc_table \<Rightarrow> bool" where
  "same_others p s s' \<longleftrightarrow> live_pid s' = live_pid s \<and> (\<forall>q. q \<noteq> p \<longrightarrow> fd_map s' q = fd_map s q)"

text \<open>Storing a descriptor of a process that is in use is an update of its map; the rest is as before.\<close>

lemma fd_put:
  assumes "in_use s p" "length (p_fds (pt_processes s ! p)) = VFS_MAX_FDS" "i < VFS_MAX_FDS"
  shows "same_others p s (set_fds s p ((p_fds (pt_processes s ! p))[i := f])) \<and>
    fd_map (set_fds s p ((p_fds (pt_processes s ! p))[i := f])) p =
      (fd_map s p)(i := if fd_used f then Some (fd_flags f, fd_offset f, fd_node f) else None)"
proof -
  have "live_pid (set_fds s p fds) = live_pid s" for fds
  proof
    fix k show "live_pid (set_fds s p fds) k = live_pid s k" using assms(1) by (cases "k = p") (simp_all add: live_pid_def set_fds_def)
  qed
  then show ?thesis using fd_map_set [OF assms(1) _ assms(2)] assms(3) by (simp add: same_others_def)
qed

lemma same_others_refl [simp]: "same_others p s s"
  by (simp add: same_others_def)

lemma open_fd_refines:
  assumes "in_use s p" "length (p_fds (pt_processes s ! p)) = VFS_MAX_FDS"
  shows "case process_open_fd nodes s (Some p) (Some n) flags of (s', rc) \<Rightarrow> same_others p s s' \<and>
      (fd_map s' p, rc) = put_spec (flags, if flags AND VFS_O_APPEND \<noteq> 0 then vn_size (nodes ! n) else 0, Some n) (fd_map s p)"
proof (cases "lowest_free (p_fds (pt_processes s ! p))")
  case (Some i)
  then have "i < VFS_MAX_FDS" using lowest_free_Some(2) [OF Some] assms(2) by simp
  then show ?thesis using fd_put [OF assms] Some lowest_free_lowest [OF assms(2)] by (simp add: process_open_fd_def put_spec_def Let_def)
qed (use lowest_free_lowest [OF assms(2)] in \<open>simp add: process_open_fd_def put_spec_def Let_def\<close>)

lemma dup_fd_refines:
  assumes "in_use s p" "length (p_fds (pt_processes s ! p)) = VFS_MAX_FDS"
  shows "case process_dup_fd s (Some p) fd of (s', rc) \<Rightarrow> same_others p s s' \<and> (fd_map s' p, rc) = dup_spec fd (fd_map s p)"
proof (cases "process_get_fd s (Some p) fd")
  case None
  then show ?thesis by (simp add: process_dup_fd_def dup_spec_def get_fd_spec split: if_splits)
next
  case (Some k)
  note G = get_fd_view [OF Some] and low = lowest_free_lowest [OF assms(2)]
  show ?thesis
  proof (cases "lowest_free (p_fds (pt_processes s ! p))")
    case None
    then show ?thesis using low Some G(5) by (simp add: process_dup_fd_def dup_spec_def put_spec_def Let_def)
  next
    case l: (Some i)
    then have i: "lowest (fd_map s p) = Some i" "i < VFS_MAX_FDS" using low lowest_free_Some(2) [OF l] assms(2) by simp_all
    show ?thesis using fd_put [OF assms i(2), of "p_fds (pt_processes s ! p) ! k"] i(1) Some G(3,5) l
      by (simp add: process_dup_fd_def dup_spec_def put_spec_def Let_def)
  qed
qed

lemma dup2_fd_refines:
  assumes "in_use s p" "length (p_fds (pt_processes s ! p)) = VFS_MAX_FDS"
  shows "case process_dup2_fd s (Some p) fd fd' of (s', rc) \<Rightarrow> same_others p s s' \<and> (fd_map s' p, rc) = dup2_spec fd fd' (fd_map s p)"
proof (cases "process_get_fd s (Some p) fd")
  case None
  then show ?thesis by (simp add: process_dup2_fd_def dup2_spec_def get_fd_spec split: if_splits)
next
  case (Some k)
  let ?fds = "p_fds (pt_processes s ! p)"
  note G = get_fd_view [OF Some]
  have id: "(fd_map s p)(nat fd \<mapsto> (fd_flags (?fds ! k), fd_offset (?fds ! k), fd_node (?fds ! k))) = fd_map s p"
    using G by (intro fun_upd_idem) (simp add: get_spec_def)
  consider "fd' < 0 \<or> int VFS_MAX_FDS \<le> fd'" | "0 \<le> fd'" "fd' < int VFS_MAX_FDS" "fd' = fd" | "0 \<le> fd'" "fd' < int VFS_MAX_FDS" "fd' \<noteq> fd" by linarith
  then show ?thesis
  proof cases
    case 3
    then have "nat fd' < VFS_MAX_FDS" by linarith
    from fd_put [OF assms this, of "?fds ! k"] show ?thesis using 3 Some G(3,5) by (simp add: process_dup2_fd_def dup2_spec_def)
  qed (use Some G(5) id in \<open>simp_all add: process_dup2_fd_def dup2_spec_def\<close>)
qed

lemma close_fd_refines:
  assumes "in_use s p" "length (p_fds (pt_processes s ! p)) = VFS_MAX_FDS"
  shows "same_others p s (process_close_fd s (Some p) fd) \<and> fd_map (process_close_fd s (Some p) fd) p = close_spec fd (fd_map s p)"
proof -
  consider "fd < 3" | "int VFS_MAX_FDS \<le> fd" "3 \<le> fd" | "3 \<le> fd" "fd < int VFS_MAX_FDS" by linarith
  then show ?thesis
  proof cases
    case 2
    then have "\<not> nat fd < VFS_MAX_FDS" by linarith
    then have "fd_map s p (nat fd) = None" by (simp add: fd_map_def Let_def)
    then show ?thesis using 2 by (simp add: process_close_fd_def close_spec_def fun_upd_idem)
  next
    case 3
    then have "nat fd < VFS_MAX_FDS" by linarith
    from fd_put [OF assms this, of fd_zero] show ?thesis using 3 by (simp add: process_close_fd_def close_spec_def fd_zero_def)
  qed (simp add: process_close_fd_def close_spec_def)
qed

text \<open>
  C21: the descriptor operations act on a process in use as operations on the map of its open
  descriptors: \<open>process_open_fd\<close> and \<open>process_dup_fd\<close> take the lowest free number from 3 on and
  fail exactly when there is none, \<open>process_dup2_fd\<close> replaces, \<open>process_close_fd\<close> removes from 3
  on, \<open>process_get_fd\<close> finds exactly the open ones.  A file opened with \<open>VFS_O_APPEND\<close> starts at its
  end.  Other processes' descriptors and all pids stay.
\<close>

theorem fd_table_refines:
  assumes "proc_reachable s" and "in_use s p"
  shows "(case process_open_fd nodes s (Some p) (Some n) flags of (s', rc) \<Rightarrow> same_others p s s' \<and>
      (fd_map s' p, rc) = put_spec (flags, if flags AND VFS_O_APPEND \<noteq> 0 then vn_size (nodes ! n) else 0, Some n) (fd_map s p))
    \<and> (case process_dup_fd s (Some p) fd of (s', rc) \<Rightarrow> same_others p s s' \<and> (fd_map s' p, rc) = dup_spec fd (fd_map s p))
    \<and> (case process_dup2_fd s (Some p) fd fd' of (s', rc) \<Rightarrow> same_others p s s' \<and> (fd_map s' p, rc) = dup2_spec fd fd' (fd_map s p))
    \<and> (same_others p s (process_close_fd s (Some p) fd) \<and> fd_map (process_close_fd s (Some p) fd) p = close_spec fd (fd_map s p))
    \<and> (process_get_fd s (Some p) fd = (if get_spec fd (fd_map s p) = None then None else Some (nat fd)))"
proof -
  have "proc_wf s" using proc_reachable_inv [OF assms(1)] by (simp add: proc_inv_def)
  note L = assms(2) wf_fds(1) [OF this assms(2)]
  show ?thesis
    by (intro conjI) (rule open_fd_refines [OF L] dup_fd_refines [OF L] dup2_fd_refines [OF L] close_fd_refines [OF L, THEN conjunct1]
        close_fd_refines [OF L, THEN conjunct2] get_fd_spec)+
qed

theorem fd_table_refines_witness:
  "\<exists>s s' c. process_init boot_users boot_procs = Some s \<and> pt_current s = Some c \<and> process_close_fd s (Some c) 1 = s' \<and> fd_map s' c = fd_map s c"
proof -
  have fs: "fs_inv (us_fs boot_users)" by (simp add: boot_users_def root_fs_inv)
  obtain s j where s: "process_init boot_users boot_procs = Some s" "pt_current s = Some j" "live_pid s j = Some 2"
    using process_init_inv [OF fs] by blast
  have u: "in_use s j" using s(3) by (simp add: in_use_live)
  show ?thesis using fd_table_refines [OF proc_reachable.init [OF fs s(1)] u, of _ _ _ 1] s by (auto simp: close_spec_def)
qed
end
