(* ===== verification/Net.thy ===== *)
theory Net
  imports Cstring Printf "HOL-Library.Monad_Syntax"
begin

text \<open>
  The protocol layer of \<open>kernel/drivers/net/net.c\<close>: Ethernet, ARP, IPv4, ICMP, UDP, DHCP and DNS
  messages, their checksums, the parsers of received frames, and the dotted notation.

  A frame is the list of its bytes.  A read outside a buffer is \<open>None\<close>: \<open>fetch\<close> returns \<open>k\<close> bytes
  only if they are there, where the buffer is the \<open>len\<close> bytes the function was handed.  The driver
  is a parameter: what it delivers in a poll is a list of frames, what is handed to its \<open>transmit\<close>
  is collected in the result.  \<open>struct net_iface\<close> has the fields of the header without
  \<open>driver_data\<close>; \<open>ops\<close> is the pair of flags telling whether \<open>transmit\<close> and \<open>poll\<close> are there.
\<close>

definition ETH_TYPE_IPV4 :: u16 where "ETH_TYPE_IPV4 = 0x0800"
definition ETH_TYPE_ARP :: u16 where "ETH_TYPE_ARP = 0x0806"
definition IP_PROTO_ICMP :: u8 where "IP_PROTO_ICMP = 1"
definition IP_PROTO_UDP :: u8 where "IP_PROTO_UDP = 17"
definition DNS_PORT :: u16 where "DNS_PORT = 53"
definition DNS_SOURCE_PORT :: u16 where "DNS_SOURCE_PORT = 49153"
definition DHCP_SERVER_PORT :: u16 where "DHCP_SERVER_PORT = 67"
definition DHCP_CLIENT_PORT :: u16 where "DHCP_CLIENT_PORT = 68"
definition DHCP_MAGIC :: u32 where "DHCP_MAGIC = 0x63825363"

datatype net_iface_type = NET_IFACE_LOOPBACK | NET_IFACE_ETHERNET | NET_IFACE_WIFI

record net_iface =
  ni_name :: "u8 list"
  ni_type :: net_iface_type
  ni_up :: bool
  ni_link :: bool
  ni_mac :: "u8 list"
  ni_ipv4 :: u32
  ni_netmask :: u32
  ni_rx_packets :: u64
  ni_tx_packets :: u64
  ni_rx_bytes :: u64
  ni_tx_bytes :: u64
  ni_pci_vendor :: u16
  ni_pci_device :: u16
  ni_gateway :: u32
  ni_dns_server :: u32
  ni_driver :: "u8 list"
  ni_ssid :: "u8 list option"
  ni_configurable :: bool
  ni_transmit :: bool
  ni_poll :: bool
  ni_arp_ip :: u32
  ni_arp_mac :: "u8 list"
  ni_arp_valid :: bool

record ping_wait =
  pw_target :: u32
  pw_id :: u16
  pw_sequence :: u16
  pw_complete :: bool

record dns_wait =
  dn_id :: u16
  dn_port :: u16
  dn_server :: u32
  dn_answer :: u32
  dn_complete :: bool

record dhcp_wait =
  dw_xid :: u32
  dw_expected_type :: u8
  dw_offered_ip :: u32
  dw_server_id :: u32
  dw_netmask :: u32
  dw_gateway :: u32
  dw_dns_server :: u32
  dw_complete :: bool

record poll_ctx =
  pc_ping :: "ping_wait option"
  pc_dns :: "dns_wait option"
  pc_dhcp :: "dhcp_wait option"

section \<open>Bytes\<close>

definition fetch :: "u8 list \<Rightarrow> nat \<Rightarrow> nat \<Rightarrow> u8 list option" where
  "fetch p i k = (if i + k \<le> length p then Some (take k (drop i p)) else None)"

definition get8 :: "u8 list \<Rightarrow> nat \<Rightarrow> u8 option" where
  "get8 p i = map_option hd (fetch p i 1)"

definition join16 :: "u8 list \<Rightarrow> u16" where
  "join16 bs = push_bit 8 (ucast (bs ! 0)) OR ucast (bs ! 1)"

definition join32 :: "u8 list \<Rightarrow> u32" where
  "join32 bs = push_bit 24 (ucast (bs ! 0)) OR push_bit 16 (ucast (bs ! 1)) OR push_bit 8 (ucast (bs ! 2)) OR ucast (bs ! 3)"

definition be16 :: "u8 list \<Rightarrow> nat \<Rightarrow> u16 option" where
  "be16 p i = map_option join16 (fetch p i 2)"

definition be32 :: "u8 list \<Rightarrow> nat \<Rightarrow> u32 option" where
  "be32 p i = map_option join32 (fetch p i 4)"

definition bytes16 :: "u16 \<Rightarrow> u8 list" where
  "bytes16 v = [ucast (drop_bit 8 v), ucast v]"

definition bytes32 :: "u32 \<Rightarrow> u8 list" where
  "bytes32 v = [ucast (drop_bit 24 v), ucast (drop_bit 16 v), ucast (drop_bit 8 v), ucast v]"

text \<open>A store of bytes at an offset of a buffer that has room for them.\<close>

definition put :: "nat \<Rightarrow> u8 list \<Rightarrow> u8 list \<Rightarrow> u8 list" where
  "put i bs p = take i p @ bs @ drop (i + length bs) p"

definition put16 :: "nat \<Rightarrow> u16 \<Rightarrow> u8 list \<Rightarrow> u8 list" where
  "put16 i v = put i (bytes16 v)"

definition put32 :: "nat \<Rightarrow> u32 \<Rightarrow> u8 list \<Rightarrow> u8 list" where
  "put32 i v = put i (bytes32 v)"

definition ipv4_make :: "u8 \<Rightarrow> u8 \<Rightarrow> u8 \<Rightarrow> u8 \<Rightarrow> u32" where
  "ipv4_make a b c d = push_bit 24 (ucast a) OR push_bit 16 (ucast b) OR push_bit 8 (ucast c) OR ucast d"

text \<open>The two loops of \<open>inet_checksum\<close>; the sum is a \<open>uint32_t\<close>.\<close>

fun csum_loop :: "u32 \<Rightarrow> u8 list \<Rightarrow> u32" where
  "csum_loop s (a # b # p) = csum_loop (s + ucast (push_bit 8 (ucast a) OR ucast b :: u16)) p"
| "csum_loop s [a] = s + ucast (push_bit 8 (ucast a) :: u16)"
| "csum_loop s [] = s"

lemma csum_halves:
  "unat (drop_bit 16 (s :: u32)) = unat s div 65536" "unat (s AND 0xffff) = unat s mod 65536"
proof -
  show "unat (drop_bit 16 s) = unat s div 65536" by (simp only: unat_drop_bit_eq drop_bit_eq_div [where ?'a = nat]) simp
  have "s AND 0xffff = take_bit 16 s" by (simp add: take_bit_eq_mask mask_eq_exp_minus_1)
  then show "unat (s AND 0xffff) = unat s mod 65536" by (simp only: unsigned_take_bit_eq take_bit_eq_mod [where ?'a = nat]) simp
qed

lemma csum_fold_less: "drop_bit 16 (s :: u32) \<noteq> 0 \<Longrightarrow> unat ((s AND 0xffff) + drop_bit 16 s) < unat s"
proof -
  assume "drop_bit 16 s \<noteq> 0"
  then have q: "0 < unat s div 65536" using csum_halves(1) [of s] unat_gt_0 by metis
  have "unat ((s AND 0xffff) + drop_bit 16 s) \<le> unat (s AND 0xffff) + unat (drop_bit 16 s)"
    by (simp add: unat_word_ariths)
  also have "\<dots> = unat s mod 65536 + unat s div 65536" by (simp add: csum_halves)
  also have "\<dots> < unat s mod 65536 + 65536 * (unat s div 65536)" using q by linarith
  also have "\<dots> = unat s" by simp
  finally show ?thesis .
qed

function csum_fold :: "u32 \<Rightarrow> u32" where
  "csum_fold s = (if drop_bit 16 s \<noteq> 0 then csum_fold ((s AND 0xffff) + drop_bit 16 s) else s)"
  by auto
termination by (relation "measure unat") (auto intro: csum_fold_less)

declare csum_fold.simps [simp del]

definition inet_checksum :: "u8 list \<Rightarrow> u16" where
  "inet_checksum data = NOT (ucast (csum_fold (csum_loop 0 data)))"

section \<open>Frames sent\<close>

definition broadcast_mac :: "u8 list" where "broadcast_mac = replicate 6 0xff"

definition build_eth :: "u8 list \<Rightarrow> u8 list \<Rightarrow> u8 list \<Rightarrow> u16 \<Rightarrow> u8 list" where
  "build_eth frame dst src type = put16 12 type (put 6 src (put 0 dst frame))"

definition arp_frame :: "net_iface \<Rightarrow> u32 \<Rightarrow> u8 list \<Rightarrow> u16 \<Rightarrow> u8 list" where
  "arp_frame iface target_ip target_mac op =
     (let f = replicate 60 0;
          f = build_eth f (if op = 1 then broadcast_mac else target_mac) (ni_mac iface) ETH_TYPE_ARP;
          f = put16 14 1 f;
          f = put16 16 ETH_TYPE_IPV4 f;
          f = put 18 [6] f;
          f = put 19 [4] f;
          f = put16 20 op f;
          f = put 22 (ni_mac iface) f;
          f = put32 28 (ni_ipv4 iface) f;
          f = (if op = 2 then put 32 target_mac f else f)
      in put32 38 target_ip f)"

text \<open>\<open>send_arp\<close>: the frames handed to \<open>transmit\<close>, none without a driver.\<close>

definition send_arp :: "net_iface \<Rightarrow> u32 \<Rightarrow> u8 list \<Rightarrow> u16 \<Rightarrow> u8 list list" where
  "send_arp iface target_ip target_mac op =
     (if \<not> ni_transmit iface then [] else [arp_frame iface target_ip target_mac op])"

definition send_arp_reply :: "net_iface \<Rightarrow> u8 list \<Rightarrow> u8 list list option" where
  "send_arp_reply iface arp =
     do { requester_mac \<leftarrow> fetch arp 8 6;
          requester_ip \<leftarrow> be32 arp 14;
          Some (send_arp iface requester_ip requester_mac 2) }"

text \<open>The IPv4 header at offset 14 and its checksum.\<close>

definition ip_header :: "u8 list \<Rightarrow> u16 \<Rightarrow> u16 \<Rightarrow> u8 \<Rightarrow> u32 \<Rightarrow> u32 \<Rightarrow> u8 list" where
  "ip_header f len ident proto src dst =
     (let f = put 14 [0x45] f;
          f = put 15 [0] f;
          f = put16 16 len f;
          f = put16 18 ident f;
          f = put16 20 0 f;
          f = put 22 [64] f;
          f = put 23 [proto] f;
          f = put32 26 src f;
          f = put32 30 dst f
      in put16 24 (inet_checksum (take 20 (drop 14 f))) f)"

definition icmp_echo_frame :: "net_iface \<Rightarrow> u8 list \<Rightarrow> u32 \<Rightarrow> u16 \<Rightarrow> u16 \<Rightarrow> u8 list" where
  "icmp_echo_frame iface dst_mac target_ip ident sequence =
     (let f = replicate (14 + 20 + 8 + 32) 0;
          f = build_eth f dst_mac (ni_mac iface) ETH_TYPE_IPV4;
          f = ip_header f (20 + 8 + 32) sequence IP_PROTO_ICMP (ni_ipv4 iface) target_ip;
          f = put 34 [8] f;
          f = put 35 [0] f;
          f = put16 38 ident f;
          f = put16 40 sequence f;
          f = put 42 (map (\<lambda>i. chr CHR ''A'' + word_of_nat (i mod 26)) [0..<32]) f
      in put16 36 (inet_checksum (drop 34 f)) f)"

text \<open>
  \<open>send_udp4_from\<close>: -1 (\<open>None\<close>) for a payload over 512 bytes, else the frame, without the rest
  of the 554-byte array.
\<close>

definition udp4_frame :: "net_iface \<Rightarrow> u8 list \<Rightarrow> u32 \<Rightarrow> u32 \<Rightarrow> u16 \<Rightarrow> u16 \<Rightarrow> u8 list \<Rightarrow> u8 list option" where
  "udp4_frame iface dst_mac source_ip target_ip src_port dst_port payload =
     (if length payload > 512 then None
      else
        let ip_len = 20 + 8 + length payload;
            frame_len = 14 + ip_len;
            f = replicate (14 + 20 + 8 + 512) 0;
            f = build_eth f dst_mac (ni_mac iface) ETH_TYPE_IPV4;
            f = ip_header f (word_of_nat ip_len) src_port IP_PROTO_UDP source_ip target_ip;
            f = put16 34 src_port f;
            f = put16 36 dst_port f;
            f = put16 38 (word_of_nat (8 + length payload)) f;
            f = put16 40 0 f;
            f = put 42 payload f
        in Some (take frame_len f))"

definition send_udp4_from :: "net_iface \<Rightarrow> u8 list \<Rightarrow> u32 \<Rightarrow> u32 \<Rightarrow> u16 \<Rightarrow> u16 \<Rightarrow> u8 list \<Rightarrow> u8 list option" where
  "send_udp4_from iface dst_mac source_ip target_ip src_port dst_port payload =
     (if \<not> ni_transmit iface then None
      else udp4_frame iface dst_mac source_ip target_ip src_port dst_port payload)"

definition send_udp4 :: "net_iface \<Rightarrow> u8 list \<Rightarrow> u32 \<Rightarrow> u16 \<Rightarrow> u16 \<Rightarrow> u8 list \<Rightarrow> u8 list option" where
  "send_udp4 iface dst_mac target_ip src_port dst_port payload =
     send_udp4_from iface dst_mac (ni_ipv4 iface) target_ip src_port dst_port payload"

definition dhcp_put_option :: "u8 \<Rightarrow> u8 list \<Rightarrow> u8 list \<times> nat \<Rightarrow> u8 list \<times> nat" where
  "dhcp_put_option opt data = (\<lambda>(buf, pos).
     (put (pos + 2) data (put (pos + 1) [word_of_nat (length data)] (put pos [opt] buf)), pos + 2 + length data))"

definition dhcp_packet :: "net_iface \<Rightarrow> u8 \<Rightarrow> u32 \<Rightarrow> u32 \<Rightarrow> u32 \<Rightarrow> u8 list" where
  "dhcp_packet iface msg_type xid requested_ip server_id =
     (let p = replicate 300 0;
          p = put 0 [1] p;
          p = put 1 [1] p;
          p = put 2 [6] p;
          p = put32 4 xid p;
          p = put16 10 0x8000 p;
          p = put 28 (ni_mac iface) p;
          p = put32 236 DHCP_MAGIC p;
          s = (p, 240);
          s = dhcp_put_option 53 [msg_type] s;
          s = dhcp_put_option 61 (1 # ni_mac iface) s;
          s = dhcp_put_option 55 [1, 3, 6] s;
          s = (if requested_ip \<noteq> 0 then dhcp_put_option 50 (bytes32 requested_ip) s else s);
          s = (if server_id \<noteq> 0 then dhcp_put_option 54 (bytes32 server_id) s else s);
          (p, pos) = s;
          (p, pos) = (if pos < 300 then (put pos [255] p, pos + 1) else (p, pos))
      in if pos < 300 then put pos (replicate (300 - pos) 0) p else p)"

definition send_dhcp_message :: "net_iface \<Rightarrow> u8 \<Rightarrow> u32 \<Rightarrow> u32 \<Rightarrow> u32 \<Rightarrow> u8 list option" where
  "send_dhcp_message iface msg_type xid requested_ip server_id =
     send_udp4_from iface broadcast_mac 0 (ipv4_make 255 255 255 255) DHCP_CLIENT_PORT DHCP_SERVER_PORT
       (dhcp_packet iface msg_type xid requested_ip server_id)"

section \<open>Frames received\<close>

definition process_arp :: "net_iface \<Rightarrow> u8 list \<Rightarrow> (net_iface \<times> u8 list list) option" where
  "process_arp iface payload =
     (if length payload < 28 then Some (iface, [])
      else do {
        hw \<leftarrow> be16 payload 0;
        proto \<leftarrow> be16 payload 2;
        hlen \<leftarrow> get8 payload 4;
        plen \<leftarrow> get8 payload 5;
        if hw \<noteq> 1 \<or> proto \<noteq> ETH_TYPE_IPV4 \<or> hlen \<noteq> 6 \<or> plen \<noteq> 4 then Some (iface, [])
        else do {
          op \<leftarrow> be16 payload 6;
          sender_ip \<leftarrow> be32 payload 14;
          target_ip \<leftarrow> be32 payload 24;
          if op = 2 \<and> target_ip = ni_ipv4 iface then do {
            mac \<leftarrow> fetch payload 8 6;
            Some (iface\<lparr>ni_arp_ip := sender_ip, ni_arp_mac := mac, ni_arp_valid := True\<rparr>, [])
          }
          else if op = 1 \<and> target_ip = ni_ipv4 iface then do {
            sent \<leftarrow> send_arp_reply iface payload;
            Some (iface, sent)
          }
          else Some (iface, [])
        }
      })"

text \<open>\<open>dns_skip_name\<close>: \<open>Some None\<close> is -1, \<open>Some (Some pos)\<close> the new offset.\<close>

function dns_skip_loop :: "u8 list \<Rightarrow> nat \<Rightarrow> nat \<Rightarrow> nat option option" where
  "dns_skip_loop msg pos guard =
     (if pos < length msg \<and> guard < length msg then
        (case get8 msg pos of
           None \<Rightarrow> None
         | Some len \<Rightarrow>
             if len = 0 then Some (Some (pos + 1))
             else if len AND 0xc0 = 0xc0 then (if pos + 1 \<ge> length msg then Some None else Some (Some (pos + 2)))
             else if len AND 0xc0 \<noteq> 0 then Some None
             else if pos + 1 + unat len > length msg then Some None
             else dns_skip_loop msg (pos + 1 + unat len) (guard + 1))
      else Some None)"
  by auto
termination by (relation "measure (\<lambda>(msg, pos, guard). length msg - guard)") auto

declare dns_skip_loop.simps [simp del]

definition dns_skip_name :: "u8 list \<Rightarrow> nat \<Rightarrow> nat option option" where
  "dns_skip_name msg offset = dns_skip_loop msg offset 0"

text \<open>The loops over the questions and the answers; \<open>Some None\<close> is the early return.\<close>

fun dns_questions :: "u8 list \<Rightarrow> nat \<Rightarrow> nat \<Rightarrow> nat option option" where
  "dns_questions payload 0 offset = Some (Some offset)"
| "dns_questions payload (Suc n) offset =
     do { r \<leftarrow> dns_skip_name payload offset;
          case r of
            None \<Rightarrow> Some None
          | Some off \<Rightarrow> if off + 4 > length payload then Some None else dns_questions payload n (off + 4) }"

fun dns_answers :: "u8 list \<Rightarrow> nat \<Rightarrow> nat \<Rightarrow> dns_wait \<Rightarrow> dns_wait option" where
  "dns_answers payload 0 offset dns = Some dns"
| "dns_answers payload (Suc n) offset dns =
     do { r \<leftarrow> dns_skip_name payload offset;
          case r of
            None \<Rightarrow> Some dns
          | Some off \<Rightarrow>
              if off + 10 > length payload then Some dns
              else do {
                type \<leftarrow> be16 payload off;
                class_code \<leftarrow> be16 payload (off + 2);
                rdlen \<leftarrow> be16 payload (off + 8);
                let off = off + 10 in
                if off + unat rdlen > length payload then Some dns
                else if type = 1 \<and> class_code = 1 \<and> rdlen = 4 then do {
                  answer \<leftarrow> be32 payload off;
                  Some (dns\<lparr>dn_answer := answer, dn_complete := True\<rparr>)
                }
                else dns_answers payload n (off + unat rdlen) dns
              } }"

definition process_dns :: "dns_wait \<Rightarrow> u8 list \<Rightarrow> u32 \<Rightarrow> u16 \<Rightarrow> u16 \<Rightarrow> dns_wait option" where
  "process_dns dns payload src_ip src_port dst_port =
     (if dn_complete dns \<or> length payload < 12 \<or> src_ip \<noteq> dn_server dns \<or> src_port \<noteq> DNS_PORT \<or> dst_port \<noteq> dn_port dns then Some dns
      else do {
        ident \<leftarrow> be16 payload 0;
        if ident \<noteq> dn_id dns then Some dns
        else do {
          flags \<leftarrow> be16 payload 2;
          if flags AND 0x8000 = 0 \<or> flags AND 0x000f \<noteq> 0 then Some dns
          else do {
            qdcount \<leftarrow> be16 payload 4;
            ancount \<leftarrow> be16 payload 6;
            q \<leftarrow> dns_questions payload (unat qdcount) 12;
            case q of
              None \<Rightarrow> Some dns
            | Some offset \<Rightarrow> dns_answers payload (unat ancount) offset dns
          }
        }
      })"

text \<open>
  The options of a DHCP message in the order of the locals: message type, server, mask, gateway,
  DNS server.  \<open>Some None\<close> is the early return.
\<close>

type_synonym dhcp_opts = "u8 \<times> u32 \<times> u32 \<times> u32 \<times> u32"

definition dhcp_option :: "u8 list \<Rightarrow> nat \<Rightarrow> u8 \<Rightarrow> u8 \<Rightarrow> dhcp_opts \<Rightarrow> dhcp_opts option" where
  "dhcp_option payload off opt opt_len = (\<lambda>(msg_type, server_id, netmask, gateway, dns_server).
     if opt = 1 \<and> opt_len \<ge> 4 then map_option (\<lambda>v. (msg_type, server_id, v, gateway, dns_server)) (be32 payload off)
     else if opt = 3 \<and> opt_len \<ge> 4 then map_option (\<lambda>v. (msg_type, server_id, netmask, v, dns_server)) (be32 payload off)
     else if opt = 6 \<and> opt_len \<ge> 4 then map_option (\<lambda>v. (msg_type, server_id, netmask, gateway, v)) (be32 payload off)
     else if opt = 53 \<and> opt_len \<ge> 1 then map_option (\<lambda>v. (v, server_id, netmask, gateway, dns_server)) (get8 payload off)
     else if opt = 54 \<and> opt_len \<ge> 4 then map_option (\<lambda>v. (msg_type, v, netmask, gateway, dns_server)) (be32 payload off)
     else Some (msg_type, server_id, netmask, gateway, dns_server))"

function dhcp_options :: "u8 list \<Rightarrow> nat \<Rightarrow> dhcp_opts \<Rightarrow> dhcp_opts option option" where
  "dhcp_options payload off st =
     (if off < length payload then
        (case get8 payload off of
           None \<Rightarrow> None
         | Some opt \<Rightarrow>
             if opt = 0 then dhcp_options payload (off + 1) st
             else if opt = 255 then Some (Some st)
             else if off + 1 \<ge> length payload then Some None
             else (case get8 payload (off + 1) of
                None \<Rightarrow> None
              | Some opt_len \<Rightarrow>
                  if off + 2 + unat opt_len > length payload then Some None
                  else (case dhcp_option payload (off + 2) opt opt_len st of
                     None \<Rightarrow> None
                   | Some st \<Rightarrow> dhcp_options payload (off + 2 + unat opt_len) st)))
      else Some (Some st))"
  by auto
termination by (relation "measure (\<lambda>(payload, off, st). length payload - off)") auto

declare dhcp_options.simps [simp del]

definition process_dhcp :: "dhcp_wait \<Rightarrow> u8 list \<Rightarrow> u16 \<Rightarrow> u16 \<Rightarrow> dhcp_wait option" where
  "process_dhcp dhcp payload src_port dst_port =
     (if dw_complete dhcp \<or> src_port \<noteq> DHCP_SERVER_PORT \<or> dst_port \<noteq> DHCP_CLIENT_PORT \<or> length payload < 240 then Some dhcp
      else do {
        op \<leftarrow> get8 payload 0;
        htype \<leftarrow> get8 payload 1;
        hlen \<leftarrow> get8 payload 2;
        xid \<leftarrow> be32 payload 4;
        magic \<leftarrow> be32 payload 236;
        if op \<noteq> 2 \<or> htype \<noteq> 1 \<or> hlen \<noteq> 6 \<or> xid \<noteq> dw_xid dhcp \<or> magic \<noteq> DHCP_MAGIC then Some dhcp
        else do {
          r \<leftarrow> dhcp_options payload 240 (0, 0, 0, 0, 0);
          case r of
            None \<Rightarrow> Some dhcp
          | Some (msg_type, server_id, netmask, gateway, dns_server) \<Rightarrow>
              if msg_type \<noteq> dw_expected_type dhcp then Some dhcp
              else do {
                offered_ip \<leftarrow> be32 payload 16;
                Some (dhcp\<lparr>dw_offered_ip := offered_ip, dw_server_id := server_id,
                  dw_netmask := if netmask \<noteq> 0 then netmask else ipv4_make 255 255 255 0,
                  dw_gateway := gateway, dw_dns_server := if dns_server \<noteq> 0 then dns_server else gateway,
                  dw_complete := (offered_ip \<noteq> 0)\<rparr>)
              }
        }
      })"

definition option_step :: "('a \<Rightarrow> 'a option) \<Rightarrow> 'a option \<Rightarrow> 'a option option" where
  "option_step f p = (case p of None \<Rightarrow> Some None | Some x \<Rightarrow> map_option Some (f x))"

definition process_icmp :: "u8 list \<Rightarrow> u32 \<Rightarrow> ping_wait \<Rightarrow> ping_wait option" where
  "process_icmp icmp src_ip ping =
     do { type \<leftarrow> get8 icmp 0;
          if type \<noteq> 0 then Some ping
          else do {
            ident \<leftarrow> be16 icmp 4;
            sequence \<leftarrow> be16 icmp 6;
            Some (if ident = pw_id ping \<and> sequence = pw_sequence ping \<and> src_ip = pw_target ping then ping\<lparr>pw_complete := True\<rparr> else ping)
          } }"

definition process_udp :: "u8 list \<Rightarrow> u32 \<Rightarrow> poll_ctx \<Rightarrow> poll_ctx option" where
  "process_udp udp src_ip ctx =
     do { src_port \<leftarrow> be16 udp 0;
          dst_port \<leftarrow> be16 udp 2;
          udp_len \<leftarrow> be16 udp 4;
          if udp_len \<ge> 8 \<and> unat udp_len \<le> length udp then do {
            payload \<leftarrow> fetch udp 8 (unat udp_len - 8);
            dhcp \<leftarrow> option_step (\<lambda>d. process_dhcp d payload src_port dst_port) (pc_dhcp ctx);
            dns \<leftarrow> option_step (\<lambda>d. process_dns d payload src_ip src_port dst_port) (pc_dns ctx);
            Some (ctx\<lparr>pc_dhcp := dhcp, pc_dns := dns\<rparr>)
          }
          else Some ctx }"

definition process_ipv4 :: "net_iface \<Rightarrow> u8 list \<Rightarrow> poll_ctx \<Rightarrow> poll_ctx option" where
  "process_ipv4 iface payload ctx =
     (if length payload < 20 then Some ctx
      else do {
        vihl \<leftarrow> get8 payload 0;
        if drop_bit 4 vihl \<noteq> 4 then Some ctx
        else do {
          let ihl = unat (vihl AND 0x0f) * 4;
          dst_ip \<leftarrow> be32 payload 16;
          if ihl < 20 \<or> length payload < ihl + 8 \<or> dst_ip \<noteq> ni_ipv4 iface \<and> dst_ip \<noteq> ipv4_make 255 255 255 255 then Some ctx
          else do {
            src_ip \<leftarrow> be32 payload 12;
            proto \<leftarrow> get8 payload 9;
            if proto = IP_PROTO_ICMP then
              map_option (\<lambda>p. ctx\<lparr>pc_ping := p\<rparr>) (option_step (process_icmp (drop ihl payload) src_ip) (pc_ping ctx))
            else if proto = IP_PROTO_UDP then process_udp (drop ihl payload) src_ip ctx
            else Some ctx
          }
        }
      })"

definition process_frame_ctx :: "net_iface \<Rightarrow> u8 list \<Rightarrow> poll_ctx \<Rightarrow> (net_iface \<times> poll_ctx \<times> u8 list list) option" where
  "process_frame_ctx iface frame ctx =
     (if length frame < 14 then Some (iface, ctx, [])
      else do {
        type \<leftarrow> be16 frame 12;
        if type = ETH_TYPE_ARP then map_option (\<lambda>(i, sent). (i, ctx, sent)) (process_arp iface (drop 14 frame))
        else if type = ETH_TYPE_IPV4 then map_option (\<lambda>c. (iface, c, [])) (process_ipv4 iface (drop 14 frame) ctx)
        else Some (iface, ctx, [])
      })"


section \<open>Reads stay inside the frame\<close>

lemma fetch_in: "i + k \<le> length p \<Longrightarrow> fetch p i k = Some (take k (drop i p))"
  by (simp add: fetch_def)

lemma reads_in:
  "i < length p \<Longrightarrow> get8 p i = Some (p ! i)"
  "i + 2 \<le> length p \<Longrightarrow> \<exists>v. be16 p i = Some v"
  "i + 4 \<le> length p \<Longrightarrow> \<exists>v. be32 p i = Some v"
  by (simp_all add: get8_def be16_def be32_def fetch_in hd_drop_conv_nth)

lemma dns_skip_loop_safe:
  "\<exists>r. dns_skip_loop msg pos guard = Some r \<and> (\<forall>off. r = Some off \<longrightarrow> pos < off \<and> off \<le> length msg)"
proof (induction msg pos guard rule: dns_skip_loop.induct)
  case (1 msg pos guard)
  show ?case
  proof (cases "pos < length msg \<and> guard < length msg")
    case True
    let ?len = "msg ! pos"
    have g: "get8 msg pos = Some ?len" using reads_in(1) True by simp
    show ?thesis
    proof (cases "?len = 0 \<or> ?len AND 0xc0 = 0xc0 \<or> ?len AND 0xc0 \<noteq> 0 \<or> pos + 1 + unat ?len > length msg")
      case True
      then show ?thesis using \<open>pos < length msg \<and> guard < length msg\<close> g by (subst dns_skip_loop.simps) auto
    next
      case False
      obtain r where r: "dns_skip_loop msg (pos + 1 + unat ?len) (guard + 1) = Some r"
        "\<forall>off. r = Some off \<longrightarrow> pos + 1 + unat ?len < off \<and> off \<le> length msg"
        using 1 [OF True g] False by auto
      have "dns_skip_loop msg pos guard = Some r" using True False g r(1) by (subst dns_skip_loop.simps) simp
      then show ?thesis using r(2) by (intro exI [of _ r]) auto
    qed
  qed (auto simp: dns_skip_loop.simps [of msg pos guard])
qed

lemma dns_skip_name_safe:
  obtains r where "dns_skip_name msg off = Some r" "\<And>o'. r = Some o' \<Longrightarrow> off < o' \<and> o' \<le> length msg"
  using dns_skip_loop_safe [of msg off 0] unfolding dns_skip_name_def by blast

lemma dns_questions_safe: "\<exists>r. dns_questions p n off = Some r"
proof (induction n arbitrary: off)
  case (Suc n)
  obtain r where "dns_skip_name p off = Some r" using dns_skip_name_safe by blast
  then show ?case using Suc by (cases r) auto
qed simp

lemma dns_answers_safe: "\<exists>r. dns_answers p n off dns = Some r"
proof (induction n arbitrary: off)
  case (Suc n)
  obtain r where r: "dns_skip_name p off = Some r" using dns_skip_name_safe by blast
  show ?case
  proof (cases r)
    case (Some o')
    show ?thesis
    proof (cases "o' + 10 > length p")
      case False
      obtain t c l where g: "be16 p o' = Some t" "be16 p (o' + 2) = Some c" "be16 p (o' + 8) = Some l"
        using reads_in(2) [of o' p] reads_in(2) [of "o' + 2" p] reads_in(2) [of "o' + 8" p] False by auto
      show ?thesis
      proof (cases "o' + 10 + unat l > length p \<or> \<not> (t = 1 \<and> c = 1 \<and> l = 4)")
        case True
        then show ?thesis using Suc [of "o' + 10 + unat l"] r Some False g by (auto simp: Let_def)
      next
        case f: False
        then obtain a where "be32 p (o' + 10) = Some a" using reads_in(3) [of "o' + 10" p] by auto
        then show ?thesis using r Some False f g by (auto simp: Let_def)
      qed
    qed (use r Some in simp)
  qed (use r in simp)
qed simp

lemma process_dns_safe: "\<exists>d. process_dns dns p ip sp dp = Some d"
proof (cases "dn_complete dns \<or> length p < 12 \<or> ip \<noteq> dn_server dns \<or> sp \<noteq> DNS_PORT \<or> dp \<noteq> dn_port dns")
  case False
  then obtain a b c d where g: "be16 p 0 = Some a" "be16 p 2 = Some b" "be16 p 4 = Some c" "be16 p 6 = Some d"
    using reads_in(2) [of 0 p] reads_in(2) [of 2 p] reads_in(2) [of 4 p] reads_in(2) [of 6 p] by auto
  obtain q where q: "dns_questions p (unat c) 12 = Some q" using dns_questions_safe by blast
  show ?thesis using g q dns_answers_safe by (cases q) (auto simp: process_dns_def)
qed (auto simp: process_dns_def)

lemma dhcp_option_safe:
  "off + unat opt_len \<le> length p \<Longrightarrow> \<exists>st'. dhcp_option p off opt opt_len st = Some st'"
proof -
  assume l: "off + unat opt_len \<le> length p"
  have "4 \<le> opt_len \<Longrightarrow> \<exists>v. be32 p off = Some v" using reads_in(3) [of off p] l by (simp add: word_le_nat_alt)
  moreover have "1 \<le> opt_len \<Longrightarrow> \<exists>v. get8 p off = Some v" using reads_in(1) [of off p] l by (simp add: word_le_nat_alt)
  ultimately show ?thesis by (auto simp: dhcp_option_def split: prod.split)
qed

lemma dhcp_options_safe: "\<exists>r. dhcp_options p off st = Some r"
proof (induction p off st rule: dhcp_options.induct)
  case (1 p off st)
  show ?case
  proof (cases "off < length p")
    case True
    let ?o = "p ! off" and ?l = "p ! (off + 1)"
    have g: "get8 p off = Some ?o" using reads_in(1) True by simp
    consider "?o = 0" | "?o = 255" | "?o \<noteq> 0" "?o \<noteq> 255" "off + 1 \<ge> length p" | "?o \<noteq> 0" "?o \<noteq> 255" "off + 1 < length p" by fastforce
    then show ?thesis
    proof cases
      case 1: 1
      then show ?thesis using "1.IH"(1) [OF True g 1] True g by (subst dhcp_options.simps) simp
    next
      case 4
      have g': "get8 p (off + 1) = Some ?l" using reads_in(1) 4(3) by simp
      show ?thesis
      proof (cases "off + 2 + unat ?l > length p")
        case True
        then show ?thesis using \<open>off < length p\<close> 4 g g' by (subst dhcp_options.simps) simp
      next
        case False
        have "\<exists>st'. dhcp_option p (off + 2) ?o ?l st = Some st'" by (rule dhcp_option_safe) (use False in simp)
        then obtain st' where s: "dhcp_option p (off + 2) ?o ?l st = Some st'" by blast
        have "\<exists>r. dhcp_options p (off + 2 + unat ?l) st' = Some r" using "1.IH"(2) [OF True g 4(1,2) _ g' False s] 4(3) by simp
        then show ?thesis using True False 4 g g' s by (subst dhcp_options.simps) simp
      qed
    qed (use True g in \<open>subst dhcp_options.simps, simp\<close>)+
  qed (subst dhcp_options.simps, simp)
qed

lemma process_dhcp_safe: "\<exists>d. process_dhcp dhcp p sp dp = Some d"
proof (cases "dw_complete dhcp \<or> sp \<noteq> DHCP_SERVER_PORT \<or> dp \<noteq> DHCP_CLIENT_PORT \<or> length p < 240")
  case False
  then have "p \<noteq> []" by auto
  with False obtain x m ip where g: "get8 p 0 = Some (p ! 0)" "get8 p 1 = Some (p ! 1)" "get8 p 2 = Some (p ! 2)" "be32 p 4 = Some x" "be32 p 236 = Some m" "be32 p 16 = Some ip"
    using reads_in(1) [of 0 p] reads_in(1) [of 1 p] reads_in(1) [of 2 p] reads_in(3) [of 4 p] reads_in(3) [of 236 p] reads_in(3) [of 16 p] by auto
  obtain q where "dhcp_options p 240 (0, 0, 0, 0, 0) = Some q" using dhcp_options_safe by blast
  then show ?thesis using g by (cases q) (auto simp: process_dhcp_def)
qed (auto simp: process_dhcp_def)

lemma option_step_safe: "\<forall>x. \<exists>y. f x = Some y \<Longrightarrow> \<exists>r. option_step f p = Some r"
proof (cases p)
  case (Some x)
  assume "\<forall>x. \<exists>y. f x = Some y"
  then obtain y where "f x = Some y" by blast
  then show ?thesis using Some by (simp add: option_step_def)
qed (simp add: option_step_def)

lemma process_icmp_safe: "8 \<le> length p \<Longrightarrow> \<exists>r. process_icmp p ip ping = Some r"
proof -
  assume l: "8 \<le> length p"
  then have "p \<noteq> []" by auto
  with l obtain a b where "get8 p 0 = Some (p ! 0)" "be16 p 4 = Some a" "be16 p 6 = Some b"
    using reads_in(1) [of 0 p] reads_in(2) [of 4 p] reads_in(2) [of 6 p] by auto
  then show ?thesis by (simp add: process_icmp_def)
qed

lemma process_udp_safe: "8 \<le> length p \<Longrightarrow> \<exists>r. process_udp p ip ctx = Some r"
proof -
  assume l: "8 \<le> length p"
  then obtain a b c where g: "be16 p 0 = Some a" "be16 p 2 = Some b" "be16 p 4 = Some c"
    using reads_in(2) [of 0 p] reads_in(2) [of 2 p] reads_in(2) [of 4 p] by auto
  show ?thesis
  proof (cases "c \<ge> 8 \<and> unat c \<le> length p")
    case True
    then have f: "fetch p 8 (unat c - 8) = Some (take (unat c - 8) (drop 8 p))" by (intro fetch_in) (simp add: word_le_nat_alt)
    let ?q = "take (unat c - 8) (drop 8 p)"
    obtain d where "option_step (\<lambda>d. process_dhcp d ?q a b) (pc_dhcp ctx) = Some d"
      using option_step_safe [of "\<lambda>d. process_dhcp d ?q a b" "pc_dhcp ctx"] process_dhcp_safe by blast
    moreover obtain e where "option_step (\<lambda>d. process_dns d ?q ip a b) (pc_dns ctx) = Some e"
      using option_step_safe [of "\<lambda>d. process_dns d ?q ip a b" "pc_dns ctx"] process_dns_safe by blast
    ultimately show ?thesis using g f by (auto simp: process_udp_def)
  qed (use g in \<open>auto simp: process_udp_def\<close>)
qed

lemma process_ipv4_safe: "\<exists>r. process_ipv4 iface p ctx = Some r"
proof (cases "length p < 20")
  case False
  then have "p \<noteq> []" by auto
  with False obtain a b where g: "get8 p 0 = Some (p ! 0)" "be32 p 16 = Some a" "be32 p 12 = Some b" "get8 p 9 = Some (p ! 9)"
    using reads_in(1) [of 0 p] reads_in(3) [of 16 p] reads_in(3) [of 12 p] reads_in(1) [of 9 p] by auto
  let ?ihl = "unat (p ! 0 AND 0x0f) * 4"
  show ?thesis
  proof (cases "?ihl < 20 \<or> length p < ?ihl + 8")
    case f: False
    then have l: "8 \<le> length (drop ?ihl p)" unfolding length_drop by linarith
    obtain i where "option_step (process_icmp (drop ?ihl p) b) (pc_ping ctx) = Some i"
      using option_step_safe [of "process_icmp (drop ?ihl p) b" "pc_ping ctx"] process_icmp_safe [OF l] by blast
    moreover obtain u where "process_udp (drop ?ihl p) b ctx = Some u" using process_udp_safe [OF l] by blast
    ultimately show ?thesis using g by (auto simp: process_ipv4_def Let_def)
  qed (use g in \<open>auto simp: process_ipv4_def Let_def\<close>)
qed (simp add: process_ipv4_def)

lemma process_arp_safe: "\<exists>r. process_arp iface p = Some r"
proof (cases "length p < 28")
  case False
  then obtain a b c d e where g: "be16 p 0 = Some a" "be16 p 2 = Some b" "get8 p 4 = Some (p ! 4)" "get8 p 5 = Some (p ! 5)"
     "be16 p 6 = Some c" "be32 p 14 = Some d" "be32 p 24 = Some e"
    using reads_in(2) [of 0 p] reads_in(2) [of 2 p] reads_in(1) [of 4 p] reads_in(1) [of 5 p] reads_in(2) [of 6 p] reads_in(3) [of 14 p] reads_in(3) [of 24 p] by auto
  moreover have "fetch p 8 6 = Some (take 6 (drop 8 p))" using False by (intro fetch_in) simp
  ultimately show ?thesis by (auto simp: process_arp_def send_arp_reply_def)
qed (simp add: process_arp_def)

lemma process_frame_safe: "\<exists>r. process_frame_ctx iface frame ctx = Some r"
proof (cases "length frame < 14")
  case False
  then obtain t where t: "be16 frame 12 = Some t" using reads_in(2) [of 12 frame] by auto
  obtain r s where "process_arp iface (drop 14 frame) = Some r" "process_ipv4 iface (drop 14 frame) ctx = Some s"
    using process_arp_safe process_ipv4_safe by blast
  then show ?thesis using t False by (cases r) (simp add: process_frame_ctx_def)
qed (simp add: process_frame_ctx_def)

section \<open>The Internet checksum\<close>

text \<open>The sum of the big-endian 16-bit words, and its value folded to 16 bits.\<close>

fun wsum :: "u8 list \<Rightarrow> nat" where
  "wsum (a # b # p) = 256 * unat a + unat b + wsum p"
| "wsum [a] = 256 * unat a"
| "wsum [] = 0"

definition fold16 :: "nat \<Rightarrow> nat" where
  "fold16 n = (if n = 0 then 0 else (n - 1) mod 65535 + 1)"

lemma u8_less: "unat (a :: u8) < 256"
  using unsigned_less [where ?'a = nat, of a] by simp

lemma join_unat: "unat (ucast (push_bit 8 (ucast (a :: u8)) OR ucast (b :: u8) :: u16) :: u32) = 256 * unat a + unat b"
  "unat (ucast (push_bit 8 (ucast (a :: u8)) :: u16) :: u32) = 256 * unat a"
proof -
  let ?hi = "push_bit 8 (ucast a :: u16)"
  have l: "256 * unat a + unat b < 65536" using u8_less [of a] u8_less [of b] by linarith
  have "unat a < 65536" "unat b < 65536" using u8_less [of a] u8_less [of b] by linarith+
  then have ua: "unat (ucast a :: u16) = unat a" "unat (ucast b :: u16) = unat b"
    by (simp_all add: unsigned_ucast_eq take_bit_nat_eq_self_iff)
  have hi: "unat ?hi = 256 * unat a" using l by (simp add: push_bit_eq_mult unat_word_ariths ua mult.commute)
  have "?hi AND ucast b = 0"
    by (rule bit_word_eqI) (auto simp: bit_and_iff bit_push_bit_iff bit_ucast_iff dest: bit_imp_le_length)
  then have "?hi OR ucast b = ?hi + ucast b" by (simp add: disjunctive_add_eq_or)
  then have "unat (?hi OR ucast b) = 256 * unat a + unat b" using l hi ua by (simp add: unat_word_ariths)
  moreover have u: "unat (ucast w :: u32) = unat w" for w :: u16
  proof -
    have "unat w < 2 ^ 16" using unsigned_less [where ?'a = nat, of w] by simp
    also have "(2 :: nat) ^ 16 < 2 ^ 32" by simp
    finally have "take_bit 32 (unat w) = unat w" by (simp only: take_bit_nat_eq_self_iff)
    moreover have "unat (ucast w :: u32) = take_bit 32 (unat w)" by (simp only: unsigned_ucast_eq) simp
    ultimately show ?thesis by argo
  qed
  ultimately show "unat (ucast (?hi OR ucast b) :: u32) = 256 * unat a + unat b" "unat (ucast ?hi :: u32) = 256 * unat a"
    using hi by simp_all
qed

lemma wsum_bound: "wsum p \<le> 32768 * length p + 32768"
proof (induction p rule: wsum.induct)
  case (1 a b p)
  have "256 * unat a + unat b \<le> 65535" using u8_less [of a] u8_less [of b] by linarith
  then show ?case using 1 by simp
next
  case (2 a)
  have "256 * unat a \<le> 65280" using u8_less [of a] by linarith
  then show ?case by simp
qed simp

lemma csum_loop_wsum: "unat s + wsum p < 2 ^ 32 \<Longrightarrow> unat (csum_loop s p) = unat s + wsum p"
proof (induction s p rule: csum_loop.induct)
  case (1 s a b p)
  let ?w = "ucast (push_bit 8 (ucast a) OR ucast b :: u16) :: u32"
  have "unat (s + ?w) = unat s + (256 * unat a + unat b)"
    using 1(2) join_unat(1) [of a b] by (simp add: unat_word_ariths)
  then show ?case using 1 by simp
next
  case (2 s a)
  then show ?case using join_unat(2) [of a] by (simp add: unat_word_ariths)
qed simp

lemma fold16_step: "0 < n div 65536 \<Longrightarrow> fold16 (n mod 65536 + n div 65536) = fold16 n"
proof -
  assume q: "0 < n div 65536"
  let ?q = "n div 65536" and ?r = "n mod 65536"
  have n: "n = ?r + ?q + 65535 * ?q" using div_mult_mod_eq [of n 65536] by linarith
  have "n - 1 = (?r + ?q - 1) + 65535 * ?q" using n q by linarith
  then have "(n - 1) mod 65535 = (?r + ?q - 1) mod 65535" by (metis mod_mult_self2)
  moreover have "n \<noteq> 0" "?r + ?q \<noteq> 0" using q by auto
  ultimately show ?thesis by (simp add: fold16_def)
qed

lemma csum_fold_fold16: "unat (csum_fold s) = fold16 (unat s)"
proof (induction s rule: csum_fold.induct)
  case (1 s)
  show ?case
  proof (cases "drop_bit 16 s = 0")
    case True
    then have "unat s div 65536 = 0" using csum_halves(1) [of s] by simp
    then have "unat s < 65536" by simp
    then have "fold16 (unat s) = unat s" by (simp add: fold16_def)
    then show ?thesis using True by (simp add: csum_fold.simps [of s])
  next
    case False
    let ?t = "(s AND 0xffff) + drop_bit 16 s"
    have q: "0 < unat s div 65536" using False csum_halves(1) [of s] unat_gt_0 by metis
    have "unat s mod 65536 + unat s div 65536 \<le> unat s" using div_mult_mod_eq [of "unat s" 65536] by linarith
    then have "unat s mod 65536 + unat s div 65536 < 2 ^ 32" using unsigned_less [where ?'a = nat, of s] by simp
    then have "unat ?t = unat s mod 65536 + unat s div 65536" by (simp add: unat_word_ariths csum_halves)
    then show ?thesis using 1 [OF False] fold16_step [OF q] False by (simp add: csum_fold.simps [of s])
  qed
qed

lemma fold16_bound: "fold16 n < 65536"
  by (simp add: fold16_def)

lemma inet_checksum_nat:
  assumes "length p \<le> 65536"
  shows "unat (inet_checksum p) = 65535 - fold16 (wsum p)"
proof -
  have "wsum p < 2 ^ 32" using wsum_bound [of p] assms by simp
  then have w: "unat (csum_fold (csum_loop 0 p)) = fold16 (wsum p)" using csum_loop_wsum [of 0 p] by (simp add: csum_fold_fold16)
  have "unat (ucast (csum_fold (csum_loop 0 p)) :: u16) = fold16 (wsum p)"
    using fold16_bound [of "wsum p"] w by (simp only: unsigned_ucast_eq) (simp add: take_bit_eq_mod)
  moreover have "unat (NOT x) = 65535 - unat x" for x :: u16
  proof -
    have "unat (-1 - x) = 65535 - unat x" using unat_sub [of x "-1"] by (simp add: unsigned_minus_1_eq_mask mask_eq_exp_minus_1)
    moreover have "NOT x = -1 - x" by (simp add: not_eq_complement)
    ultimately show ?thesis by simp
  qed
  ultimately show ?thesis unfolding inet_checksum_def by simp
qed


subsection \<open>Stores into a frame\<close>

lemma put_length [simp]: "i + length bs \<le> length p \<Longrightarrow> length (put i bs p) = length p"
  by (simp add: put_def)

lemma bytes_length [simp]: "length (bytes16 v) = 2" "length (bytes32 w) = 4"
  by (simp_all add: bytes16_def bytes32_def)

lemma put_word_length [simp]:
  "i + 2 \<le> length p \<Longrightarrow> length (put16 i v p) = length p" "i + 4 \<le> length p \<Longrightarrow> length (put32 i w p) = length p"
  by (simp_all add: put16_def put32_def)

lemma nth_put: "i + length bs \<le> length p \<Longrightarrow> j < length p \<Longrightarrow> put i bs p ! j = (if i \<le> j \<and> j < i + length bs then bs ! (j - i) else p ! j)"
  by (auto simp: put_def nth_append min_def)

lemma drop_put: "n \<le> i \<Longrightarrow> i \<le> length p \<Longrightarrow> drop n (put i bs p) = put (i - n) bs (drop n p)"
  by (simp add: put_def drop_take min_def)

lemma take_put: "i + length bs \<le> n \<Longrightarrow> i \<le> length p \<Longrightarrow> take n (put i bs p) = put i bs (take n p)"
  by (cases "n = i") (simp_all add: put_def min_def drop_take)

lemma take_put_before: "n \<le> i \<Longrightarrow> i \<le> length p \<Longrightarrow> take n (put i bs p) = take n p"
  by (simp add: put_def min_def)

lemma fetch_put: "i + length bs \<le> length p \<Longrightarrow> fetch (put i bs p) i (length bs) = Some bs"
  by (simp add: fetch_def) (simp add: put_def min_def)

lemma fetch_put_other:
  assumes "i + length bs \<le> length p" "j + k \<le> i \<or> i + length bs \<le> j"
  shows "fetch (put i bs p) j k = fetch p j k"
proof -
  have "take k (drop j (put i bs p)) = take k (drop j p)"
    by (rule nth_equalityI) (use assms in \<open>auto simp: nth_put\<close>)
  then show ?thesis using assms by (simp add: fetch_def)
qed

lemma fetch_drop: "n \<le> length p \<Longrightarrow> fetch (drop n p) j k = fetch p (n + j) k"
proof -
  assume "n \<le> length p"
  then have "j + k \<le> length p - n \<longleftrightarrow> n + j + k \<le> length p" by linarith
  then show ?thesis by (simp add: fetch_def add.commute)
qed

lemma bytes16_join [simp]: "join16 (bytes16 v) = v"
proof -
  have "push_bit 8 (ucast (ucast (drop_bit 8 v) :: u8)) OR ucast (ucast v :: u8) = v"
    by (rule bit_word_eqI) (auto simp: bit_or_iff bit_push_bit_iff bit_ucast_iff bit_drop_bit_eq)
  then show ?thesis by (simp add: join16_def bytes16_def)
qed

lemma bytes32_join [simp]: "join32 (bytes32 v) = v"
proof -
  have "push_bit 24 (ucast (ucast (drop_bit 24 v) :: u8)) OR push_bit 16 (ucast (ucast (drop_bit 16 v) :: u8)) OR
      push_bit 8 (ucast (ucast (drop_bit 8 v) :: u8)) OR ucast (ucast v :: u8) = v"
  proof (rule bit_word_eqI)
    fix n assume "n < LENGTH(32)"
    then consider "n < 8" | "8 \<le> n" "n < 16" | "16 \<le> n" "n < 24" | "24 \<le> n" "n < 32" by fastforce
    then show "bit (push_bit 24 (ucast (ucast (drop_bit 24 v) :: u8)) OR push_bit 16 (ucast (ucast (drop_bit 16 v) :: u8)) OR
      push_bit 8 (ucast (ucast (drop_bit 8 v) :: u8)) OR ucast (ucast v :: u8) :: u32) n = bit v n"
      by cases (auto simp: bit_or_iff bit_push_bit_iff bit_ucast_iff bit_drop_bit_eq)
  qed
  then show ?thesis by (simp add: join32_def bytes32_def)
qed

subsection \<open>A stored checksum verifies\<close>

lemma wsum_append: "even (length xs) \<Longrightarrow> wsum (xs @ ys) = wsum xs + wsum ys"
  by (induction xs rule: wsum.induct) simp_all

lemma wsum_bytes16: "wsum (bytes16 v) = unat v"
proof -
  have "unat (ucast (drop_bit 8 v) :: u8) = unat v div 256 mod 256" "unat (ucast v :: u8) = unat v mod 256"
    by (simp_all only: unsigned_ucast_eq unat_drop_bit_eq drop_bit_eq_div [where ?'a = nat] take_bit_eq_mod [where ?'a = nat]) simp_all
  moreover have "unat v div 256 < 256" using unsigned_less [where ?'a = nat, of v] by simp
  ultimately show ?thesis by (simp add: bytes16_def)
qed

lemma wsum_put16:
  assumes "even i" "i + 2 \<le> length p" "p ! i = 0" "p ! (i + 1) = 0"
  shows "wsum (put16 i v p) = wsum p + unat v"
proof -
  have l: "even (length (take i p))" using assms(1,2) by simp
  have "drop i p = p ! i # p ! (i + 1) # drop (i + 2) p"
    using assms(2) by (simp add: Cons_nth_drop_Suc)
  then have "wsum (drop i p) = wsum (drop (i + 2) p)" using assms(3,4) by simp
  then have "wsum p = wsum (take i p) + wsum (drop (i + 2) p)"
    using wsum_append [OF l, of "drop i p"] unfolding append_take_drop_id by simp
  moreover have "wsum (put16 i v p) = wsum (take i p) + (wsum (bytes16 v) + wsum (drop (i + 2) p))"
    using wsum_append [OF l, of "bytes16 v @ drop (i + 2) p"] wsum_append [of "bytes16 v" "drop (i + 2) p"]
    by (simp add: put16_def put_def)
  ultimately show ?thesis by (simp add: wsum_bytes16)
qed

lemma checksum_verifies:
  assumes "even i" "i + 2 \<le> length p" "p ! i = 0" "p ! (i + 1) = 0" and l: "length p \<le> 65536" and pos: "p ! 0 \<noteq> 0"
  shows "inet_checksum (put16 i (inet_checksum p) p) = 0"
proof -
  obtain a p' where p: "p = a # p'" using assms(2) by (cases p) auto
  then have "0 < unat a" using pos by (simp add: unat_gt_0)
  then have s: "0 < wsum p" unfolding p by (cases p') simp_all
  have f: "fold16 (wsum p) \<le> 65535" using fold16_bound [of "wsum p"] by simp
  have "wsum (put16 i (inet_checksum p) p) = wsum p + (65535 - fold16 (wsum p))"
    using wsum_put16 [OF assms(1-4)] inet_checksum_nat [OF l] by simp
  also have "\<dots> = wsum p - 1 - (wsum p - 1) mod 65535 + 65535"
    using s f mod_less_eq_dividend [of "wsum p - 1" 65535] unfolding fold16_def by simp
  also have "\<dots> = 65535 * ((wsum p - 1) div 65535 + 1)" by (simp add: minus_mod_eq_mult_div)
  finally have w: "wsum (put16 i (inet_checksum p) p) = 65535 * ((wsum p - 1) div 65535 + 1)" .
  have "fold16 (65535 * (k + 1)) = 65535" for k
  proof -
    have "65535 * (k + 1) - 1 = 65534 + 65535 * k" by simp
    then show ?thesis by (simp add: fold16_def)
  qed
  then have "fold16 (wsum (put16 i (inet_checksum p) p)) = 65535" unfolding w .
  then have "unat (inet_checksum (put16 i (inet_checksum p) p)) = 0" using inet_checksum_nat [of "put16 i (inet_checksum p) p"] l assms(2) by simp
  then show ?thesis by (simp add: unat_eq_0)
qed

section \<open>Frames built\<close>

lemmas frame_simps = put16_def put32_def nth_put

text \<open>A sequence of stores, and the store a read at an offset sees.\<close>

definition puts :: "(nat \<times> u8 list) list \<Rightarrow> u8 list \<Rightarrow> u8 list" where
  "puts ws f = fold (\<lambda>(i, bs). put i bs) ws f"

definition fits :: "nat \<Rightarrow> (nat \<times> u8 list) list \<Rightarrow> bool" where
  "fits n ws \<longleftrightarrow> list_all (\<lambda>(i, bs). i + length bs \<le> n) ws"

definition apart :: "nat \<Rightarrow> nat \<Rightarrow> (nat \<times> u8 list) list \<Rightarrow> bool" where
  "apart j k ws \<longleftrightarrow> list_all (\<lambda>(i, bs). j + k \<le> i \<or> i + length bs \<le> j) ws"

fun stored :: "(nat \<times> u8 list) list \<Rightarrow> nat \<Rightarrow> nat \<Rightarrow> u8 list option" where
  "stored [] j k = None"
| "stored ((i, bs) # ws) j k = (if i = j \<and> length bs = k \<and> apart j k ws then Some bs else stored ws j k)"

lemma puts_simps [simp]: "puts [] f = f" "puts ((i, bs) # ws) f = puts ws (put i bs f)"
  by (simp_all add: puts_def)

lemma puts_length: "fits (length f) ws \<Longrightarrow> length (puts ws f) = length f"
  by (induction ws arbitrary: f) (auto simp: fits_def)

lemma puts_apart: "fits (length f) ws \<Longrightarrow> apart j k ws \<Longrightarrow> fetch (puts ws f) j k = fetch f j k"
proof (induction ws arbitrary: f)
  case (Cons w ws)
  obtain i bs where w: "w = (i, bs)" by (cases w)
  have "fetch (puts ws (put i bs f)) j k = fetch (put i bs f) j k" using Cons w by (intro Cons.IH) (simp_all add: fits_def apart_def)
  then show ?case using Cons.prems w by (simp add: fetch_put_other fits_def apart_def)
qed simp

lemma puts_stored: "fits (length f) ws \<Longrightarrow> stored ws j k = Some b \<Longrightarrow> fetch (puts ws f) j k = Some b"
proof (induction ws arbitrary: f)
  case (Cons w ws)
  obtain i bs where w: "w = (i, bs)" by (cases w)
  have f: "fits (length (put i bs f)) ws" "i + length bs \<le> length f" using Cons.prems(1) w by (simp_all add: fits_def)
  show ?case
  proof (cases "i = j \<and> length bs = k \<and> apart j k ws")
    case True
    then show ?thesis using puts_apart [OF f(1)] fetch_put [OF f(2)] Cons.prems(2) w by simp
  next
    case False
    have "stored ws j k = Some b" using Cons.prems(2) unfolding w stored.simps if_not_P [OF False] .
    then show ?thesis using Cons.IH [OF f(1)] w by simp
  qed
qed simp

lemma fetch_nth: "fetch p j 1 = Some [x] \<Longrightarrow> p ! j = x"
  by (auto simp: fetch_def hd_drop_conv_nth take_Suc split: if_splits)

lemma nth_fetch: "j < length p \<Longrightarrow> fetch p j 1 = Some [p ! j]"
  by (simp add: fetch_def take_Suc hd_drop_conv_nth)

definition ip_stores :: "u16 \<Rightarrow> u16 \<Rightarrow> u8 \<Rightarrow> u32 \<Rightarrow> u32 \<Rightarrow> (nat \<times> u8 list) list" where
  "ip_stores len ident proto src dst = [(14, [0x45]), (15, [0]), (16, bytes16 len), (18, bytes16 ident), (20, bytes16 0), (22, [64]), (23, [proto]),
     (26, bytes32 src), (30, bytes32 dst)]"

lemma puts_drop_take:
  "fits (length f) ws \<Longrightarrow> list_all (\<lambda>(i, bs). m \<le> i \<and> i + length bs \<le> n) ws \<Longrightarrow> drop n (puts ws f) = drop n f \<and> take m (puts ws f) = take m f"
proof (induction ws arbitrary: f)
  case (Cons w ws)
  obtain i bs where w: "w = (i, bs)" by (cases w)
  have f: "fits (length (put i bs f)) ws" "i + length bs \<le> length f" "m \<le> i" "i + length bs \<le> n" "list_all (\<lambda>(i, bs). m \<le> i \<and> i + length bs \<le> n) ws"
    using Cons.prems w by (simp_all add: fits_def)
  have "drop n (put i bs f) = drop n f" "take m (put i bs f) = take m f" using f(2-4) by (simp_all add: put_def min_def)
  then show ?case using Cons.IH [OF f(1,5)] w by simp
qed simp

lemma ip_header_ok:
  assumes l: "34 \<le> length f" and z: "f ! 24 = 0" "f ! 25 = 0" and g_def: "g = ip_header f len ident proto src dst"
  shows "length g = length f" "inet_checksum (take 20 (drop 14 g)) = 0" "drop 34 g = drop 34 f" "take 14 g = take 14 f"
    "fetch g 14 1 = Some [0x45]" "fetch g 16 2 = Some (bytes16 len)" "fetch g 23 1 = Some [proto]" "fetch g 26 4 = Some (bytes32 src)" "fetch g 30 4 = Some (bytes32 dst)"
proof -
  let ?ws = "ip_stores len ident proto src dst"
  define h where "h = puts ?ws f"
  have ft: "fits (length f) ?ws" "list_all (\<lambda>(i, bs). 14 \<le> i \<and> i + length bs \<le> 34) ?ws" using l by (simp_all add: fits_def ip_stores_def)
  have lh: "length h = length f" using puts_length [OF ft(1)] by (simp add: h_def)
  let ?p = "take 20 (drop 14 h)" and ?c = "bytes16 (inet_checksum (take 20 (drop 14 h)))"
  have g: "g = put 24 ?c h" by (simp add: g_def ip_header_def h_def Let_def ip_stores_def put16_def put32_def)
  have "fetch h 24 1 = fetch f 24 1" "fetch h 25 1 = fetch f 25 1" "fetch h 14 1 = Some [0x45]"
    using puts_apart [OF ft(1), of 24 1] puts_apart [OF ft(1), of 25 1] puts_stored [OF ft(1), of 14 1] by (simp_all add: h_def ip_stores_def apart_def)
  then have "h ! 24 = 0" "h ! 25 = 0" "h ! 14 = 0x45" using z l lh nth_fetch [of 24 f] nth_fetch [of 25 f] by (auto intro!: fetch_nth)
  then have p: "?p ! 10 = 0" "?p ! (10 + 1) = 0" "?p ! 0 \<noteq> 0" using lh l by simp_all
  have "take 20 (drop 14 g) = put16 10 (inet_checksum ?p) ?p"
    unfolding g put16_def using lh l by (simp add: drop_put take_put)
  then show "inet_checksum (take 20 (drop 14 g)) = 0"
    using checksum_verifies [of 10 ?p] p lh l by simp
  show "length g = length f" using lh l by (simp add: g)
  have "drop 34 g = drop 34 h" "take 14 g = take 14 h" unfolding g using lh l by (simp_all add: put_def min_def)
  then show "drop 34 g = drop 34 f" "take 14 g = take 14 f" using puts_drop_take [OF ft] by (simp_all add: h_def)
  have "fetch g j k = fetch h j k" if "j + k \<le> 24 \<or> 26 \<le> j" for j k
    unfolding g using lh l that by (intro fetch_put_other) simp_all
  moreover have "fetch h 14 1 = Some [0x45]" "fetch h 16 2 = Some (bytes16 len)" "fetch h 23 1 = Some [proto]" "fetch h 26 4 = Some (bytes32 src)"
    "fetch h 30 4 = Some (bytes32 dst)"
    unfolding h_def by (rule puts_stored [OF ft(1)], simp add: ip_stores_def apart_def)+
  ultimately show "fetch g 14 1 = Some [0x45]" "fetch g 16 2 = Some (bytes16 len)" "fetch g 23 1 = Some [proto]" "fetch g 26 4 = Some (bytes32 src)" "fetch g 30 4 = Some (bytes32 dst)"
    by simp_all
qed

lemma build_eth_ok:
  assumes "14 \<le> length f" "length dst = 6" "length src = 6" and g_def: "g = build_eth f dst src type"
  shows "length g = length f" "drop 14 g = drop 14 f" "fetch g 12 2 = Some (bytes16 type)" "fetch g 0 6 = Some dst" "fetch g 6 6 = Some src"
proof -
  show "length g = length f" using assms by (simp add: g_def build_eth_def)
  show "drop 14 g = drop 14 f" using assms by (simp add: g_def build_eth_def put16_def) (simp add: put_def)
  show "fetch g 12 2 = Some (bytes16 type)" using assms fetch_put [of 12 "bytes16 type" "put 6 src (put 0 dst f)"]
    by (simp add: g_def build_eth_def put16_def)
  show "fetch g 0 6 = Some dst" "fetch g 6 6 = Some src"
    using assms fetch_put [of 0 dst f] fetch_put [of 6 src "put 0 dst f"] by (simp_all add: g_def build_eth_def put16_def fetch_put_other)
qed

text \<open>The Ethernet and IPv4 headers in a zeroed buffer.\<close>

lemma eth_ip_header:
  assumes "length dst = 6" "length src = 6" "34 \<le> n"
    and h: "h = ip_header (build_eth (replicate n 0) dst src type) len ident proto sip dip"
  shows "length h = n" "inet_checksum (take 20 (drop 14 h)) = 0" "drop 34 h = replicate (n - 34) 0"
    "fetch h 0 6 = Some dst" "fetch h 6 6 = Some src" "fetch h 12 2 = Some (bytes16 type)"
    "fetch h 14 1 = Some [0x45]" "fetch h 16 2 = Some (bytes16 len)" "fetch h 23 1 = Some [proto]" "fetch h 26 4 = Some (bytes32 sip)" "fetch h 30 4 = Some (bytes32 dip)"
proof -
  let ?e = "build_eth (replicate n 0) dst src type"
  note E = build_eth_ok [OF _ assms(1,2) refl, of "replicate n 0" type]
  have e: "length ?e = n" "drop 14 ?e = replicate (n - 14) 0" using E(1,2) assms(3) by simp_all
  have "?e ! 24 = drop 14 ?e ! 10" "?e ! 25 = drop 14 ?e ! 11" using e(1) assms(3) by simp_all
  then have z: "?e ! 24 = 0" "?e ! 25 = 0" using e(2) assms(3) by simp_all
  note I = ip_header_ok [OF _ z h]
  have "drop 34 ?e = drop 20 (drop 14 ?e)" by simp
  also have "\<dots> = replicate (n - 34) 0" unfolding e(2) by (simp add: diff_diff_left)
  finally show "drop 34 h = replicate (n - 34) 0" using I(3) e(1) assms(3) by simp
  have t: "take k (drop j h) = take k (drop j ?e)" if "j + k \<le> 14" for j k
  proof -
    have c: "take k (drop j x) = take k (drop j (take 14 x))" for x :: "u8 list" using that by (simp add: drop_take min_def)
    show ?thesis using I(4) e(1) assms(3) c [of h] c [of ?e] by simp
  qed
  have "fetch h j k = fetch ?e j k" if "j + k \<le> 14" for j k
    using t [OF that] I(1) e(1) assms(3) by (simp add: fetch_def)
  then show "fetch h 0 6 = Some dst" "fetch h 6 6 = Some src" "fetch h 12 2 = Some (bytes16 type)"
    using E(3-5) assms(3) by simp_all
  have l: "34 \<le> length ?e" using e(1) assms(3) by simp
  show "length h = n" "inet_checksum (take 20 (drop 14 h)) = 0"
    "fetch h 14 1 = Some [0x45]" "fetch h 16 2 = Some (bytes16 len)" "fetch h 23 1 = Some [proto]" "fetch h 26 4 = Some (bytes32 sip)" "fetch h 30 4 = Some (bytes32 dip)"
    using I(1,2,5,6,7,8,9) [OF l] unfolding e(1) by blast+
qed

lemma udp4_frame_cases:
  assumes "udp4_frame iface dst_mac source_ip target_ip src_port dst_port payload = Some f" "length dst_mac = 6" "length (ni_mac iface) = 6"
  shows "\<exists>h. h = ip_header (build_eth (replicate 554 0) dst_mac (ni_mac iface) ETH_TYPE_IPV4) (word_of_nat (28 + length payload)) src_port IP_PROTO_UDP source_ip target_ip \<and>
    inet_checksum (take 20 (drop 14 h)) = 0 \<and> length h = 554 \<and>
    f = take (42 + length payload) (put 42 payload (put16 40 0 (put16 38 (word_of_nat (8 + length payload)) (put16 36 dst_port (put16 34 src_port h))))) \<and>
    length payload \<le> 512"
proof -
  let ?h = "ip_header (build_eth (replicate 554 0) dst_mac (ni_mac iface) ETH_TYPE_IPV4) (word_of_nat (28 + length payload)) src_port IP_PROTO_UDP source_ip target_ip"
  have "length payload \<le> 512" using assms(1) by (simp add: udp4_frame_def split: if_splits)
  moreover from this have "f = take (42 + length payload) (put 42 payload (put16 40 0 (put16 38 (word_of_nat (8 + length payload)) (put16 36 dst_port (put16 34 src_port ?h)))))"
    using assms(1) by (simp add: udp4_frame_def Let_def)
  ultimately show ?thesis using eth_ip_header(1,2) [OF assms(2,3) _ refl, of 554] by (intro exI [of _ ?h]) simp
qed

text \<open>
  The checksums of outgoing frames are right.  In every ICMP echo and every UDP frame the
  one's-complement checksum of the IPv4 header, computed over the header with its checksum in
  it, is 0, and so is that of the ICMP message.
\<close>

lemma net_checksums_verify:
  assumes "length (ni_mac iface) = 6" and "length dst_mac = 6"
  shows "inet_checksum (take 20 (drop 14 (icmp_echo_frame iface dst_mac target_ip ident sequence))) = 0
     \<and> inet_checksum (drop 34 (icmp_echo_frame iface dst_mac target_ip ident sequence)) = 0
     \<and> (\<forall>f. udp4_frame iface dst_mac source_ip target_ip src_port dst_port payload = Some f \<longrightarrow> inet_checksum (take 20 (drop 14 f)) = 0)"
proof (intro conjI allI impI)
  define h where "h = ip_header (build_eth (replicate (14 + 20 + 8 + 32) 0) dst_mac (ni_mac iface) ETH_TYPE_IPV4) (20 + 8 + 32) sequence IP_PROTO_ICMP (ni_ipv4 iface) target_ip"
  define m where "m = put 42 (map (\<lambda>i. chr CHR ''A'' + word_of_nat (i mod 26)) [0..<32]) (put16 40 sequence (put16 38 ident (put 35 [0] (put 34 [8] h))))"
  have h: "length h = 74" "inet_checksum (take 20 (drop 14 h)) = 0" "drop 34 h = replicate 40 0"
    using eth_ip_header [OF assms(2,1) _ h_def] by simp_all
  have m: "length m = 74" using h(1) by (simp add: m_def)
  have fr: "icmp_echo_frame iface dst_mac target_ip ident sequence = put16 36 (inet_checksum (drop 34 m)) m"
    by (simp add: icmp_echo_frame_def m_def h_def Let_def)
  have "take 20 (drop 14 (put16 36 c m)) = take 20 (drop 14 h)" for c
    unfolding m_def put16_def using h(1) by (simp add: drop_put take_put_before)
  then show "inet_checksum (take 20 (drop 14 (icmp_echo_frame iface dst_mac target_ip ident sequence))) = 0"
    using h(2) fr by simp
  let ?p = "drop 34 m"
  have "h ! 36 = drop 34 h ! 2" "h ! 37 = drop 34 h ! 3" using h(1) by simp_all
  then have "?p ! 2 = 0" "?p ! (2 + 1) = 0" "?p ! 0 = 8" "length ?p = 40"
    using h m by (simp_all add: m_def frame_simps)
  then have "inet_checksum (put16 2 (inet_checksum ?p) ?p) = 0" by (intro checksum_verifies) simp_all
  then show "inet_checksum (drop 34 (icmp_echo_frame iface dst_mac target_ip ident sequence)) = 0"
    unfolding fr put16_def using m by (simp add: drop_put)
next
  fix f assume f: "udp4_frame iface dst_mac source_ip target_ip src_port dst_port payload = Some f"
  obtain h where h: "inet_checksum (take 20 (drop 14 h)) = 0" "length h = 554"
    "f = take (42 + length payload) (put 42 payload (put16 40 0 (put16 38 (word_of_nat (8 + length payload)) (put16 36 dst_port (put16 34 src_port h)))))"
    and l: "length payload \<le> 512"
    using udp4_frame_cases [OF f assms(2,1)] by blast
  show "inet_checksum (take 20 (drop 14 f)) = 0"
    unfolding h(3) put16_def using h(1,2) l by (simp add: drop_take min_def drop_put take_put_before)
qed

section \<open>Sending and receiving\<close>

lemma be_fetch:
  "fetch p i 2 = Some (bytes16 v) \<Longrightarrow> be16 p i = Some v" "fetch p i 4 = Some (bytes32 w) \<Longrightarrow> be32 p i = Some w"
  "fetch p i 1 = Some [b] \<Longrightarrow> get8 p i = Some b"
  by (simp_all add: be16_def be32_def get8_def)

definition eth_stores :: "u8 list \<Rightarrow> u8 list \<Rightarrow> u16 \<Rightarrow> (nat \<times> u8 list) list" where
  "eth_stores dst src type = [(0, dst), (6, src), (12, bytes16 type)]"

definition arp_stores :: "net_iface \<Rightarrow> u32 \<Rightarrow> u8 list \<Rightarrow> u16 \<Rightarrow> (nat \<times> u8 list) list" where
  "arp_stores iface tip tmac op =
     eth_stores (if op = 1 then broadcast_mac else tmac) (ni_mac iface) ETH_TYPE_ARP @
     [(14, bytes16 1), (16, bytes16 ETH_TYPE_IPV4), (18, [6]), (19, [4]), (20, bytes16 op), (22, ni_mac iface), (28, bytes32 (ni_ipv4 iface))] @
     (if op = 2 then [(32, tmac)] else []) @ [(38, bytes32 tip)]"

lemma arp_frame_fields:
  assumes "length (ni_mac iface) = 6" "op = 1 \<or> op = 2 \<and> length tmac = 6"
    and p_def: "p = drop 14 (arp_frame iface tip tmac op)"
  shows "length (arp_frame iface tip tmac op) = 60" "be16 (arp_frame iface tip tmac op) 12 = Some ETH_TYPE_ARP"
    "be16 p 0 = Some 1" "be16 p 2 = Some ETH_TYPE_IPV4" "get8 p 4 = Some 6" "get8 p 5 = Some 4" "be16 p 6 = Some op" "fetch p 8 6 = Some (ni_mac iface)"
    "be32 p 14 = Some (ni_ipv4 iface)" "be32 p 24 = Some tip" "fetch (arp_frame iface tip tmac op) 0 6 = Some (if op = 1 then broadcast_mac else tmac)"
proof -
  let ?ws = "arp_stores iface tip tmac op" and ?f = "arp_frame iface tip tmac op"
  have f: "?f = puts ?ws (replicate 60 0)"
    by (simp add: arp_frame_def arp_stores_def eth_stores_def build_eth_def Let_def put16_def put32_def)
  have l: "fits 60 ?ws" using assms(1,2) by (auto simp: fits_def arp_stores_def eth_stores_def broadcast_mac_def)
  then have ft: "fits (length (replicate 60 (0 :: u8))) ?ws" by simp
  show len: "length ?f = 60" unfolding f using puts_length [OF ft] by simp
  have F: "fetch ?f j k = Some b" if "stored ?ws j k = Some b" for j k b unfolding f by (rule puts_stored [OF ft that])
  have D: "fetch p j k = fetch ?f (14 + j) k" for j k unfolding p_def using len by (intro fetch_drop) simp
  note S = arp_stores_def eth_stores_def apart_def broadcast_mac_def
  have s: "stored ?ws 12 2 = Some (bytes16 ETH_TYPE_ARP)" "stored ?ws 14 2 = Some (bytes16 1)" "stored ?ws 16 2 = Some (bytes16 ETH_TYPE_IPV4)"
    "stored ?ws 18 1 = Some [6]" "stored ?ws 19 1 = Some [4]" "stored ?ws 20 2 = Some (bytes16 op)" "stored ?ws 22 6 = Some (ni_mac iface)"
    "stored ?ws 28 4 = Some (bytes32 (ni_ipv4 iface))" "stored ?ws 38 4 = Some (bytes32 tip)" "stored ?ws 0 6 = Some (if op = 1 then broadcast_mac else tmac)"
    using assms(1,2) by (auto simp: S)
  show "be16 ?f 12 = Some ETH_TYPE_ARP" "fetch ?f 0 6 = Some (if op = 1 then broadcast_mac else tmac)"
    using F [OF s(1)] F [OF s(10)] be_fetch by simp_all
  show "be16 p 0 = Some 1" "be16 p 2 = Some ETH_TYPE_IPV4" "get8 p 4 = Some 6" "get8 p 5 = Some 4" "be16 p 6 = Some op" "fetch p 8 6 = Some (ni_mac iface)"
    "be32 p 14 = Some (ni_ipv4 iface)" "be32 p 24 = Some tip"
    using F [OF s(2)] F [OF s(3)] F [OF s(4)] F [OF s(5)] F [OF s(6)] F [OF s(7)] F [OF s(8)] F [OF s(9)] by (simp_all add: D be_fetch)
qed

text \<open>
  Address resolution works.  When the interface \<open>b\<close> receives the request that \<open>a\<close> broadcasts
  for \<open>b\<close>'s address, it answers with one frame, to \<open>a\<close>'s hardware address; when \<open>a\<close> receives that
  answer, its cache maps \<open>b\<close>'s address to \<open>b\<close>'s hardware address, and nothing is sent.
\<close>

lemma arp_exchange:
  assumes "length (ni_mac a) = 6" and "length (ni_mac b) = 6" and "ni_transmit b"
  shows "process_frame_ctx b (arp_frame a (ni_ipv4 b) [] 1) ctx = Some (b, ctx, [arp_frame b (ni_ipv4 a) (ni_mac a) 2])
     \<and> fetch (arp_frame b (ni_ipv4 a) (ni_mac a) 2) 0 6 = Some (ni_mac a)
     \<and> process_frame_ctx a (arp_frame b (ni_ipv4 a) (ni_mac a) 2) ctx' =
         Some (a\<lparr>ni_arp_ip := ni_ipv4 b, ni_arp_mac := ni_mac b, ni_arp_valid := True\<rparr>, ctx', [])"
proof -
  let ?request = "arp_frame a (ni_ipv4 b) [] 1" and ?reply = "arp_frame b (ni_ipv4 a) (ni_mac a) 2"
  note Q = arp_frame_fields [OF assms(1) disjI1 [OF refl] refl, of "ni_ipv4 b" "[]"]
  note R = arp_frame_fields [OF assms(2) disjI2 [OF conjI [OF refl assms(1)]] refl, of "ni_ipv4 a"]
  have s: "send_arp_reply b (drop 14 ?request) = Some [?reply]"
    using Q(8,9) assms(3) by (simp add: send_arp_reply_def send_arp_def)
  have "process_arp b (drop 14 ?request) = Some (b, [?reply])"
    using Q(1,3-10) s by (simp add: process_arp_def)
  moreover have "process_arp a (drop 14 ?reply) = Some (a\<lparr>ni_arp_ip := ni_ipv4 b, ni_arp_mac := ni_mac b, ni_arp_valid := True\<rparr>, [])"
    using R(1,3-10) by (simp add: process_arp_def)
  ultimately show ?thesis using Q(1,2) R(1,2,11) by (simp add: process_frame_ctx_def)
qed

lemma udp4_frame_fields:
  assumes f: "udp4_frame iface dst_mac sip tip sp dp payload = Some f" and l: "length dst_mac = 6" "length (ni_mac iface) = 6"
  shows "length f = 42 + length payload" "length payload \<le> 512" "be16 f 12 = Some ETH_TYPE_IPV4" "get8 (drop 14 f) 0 = Some 0x45"
    "be32 (drop 14 f) 16 = Some tip" "be32 (drop 14 f) 12 = Some sip" "get8 (drop 14 f) 9 = Some IP_PROTO_UDP"
    "be16 (drop 34 f) 0 = Some sp" "be16 (drop 34 f) 2 = Some dp" "be16 (drop 34 f) 4 = Some (word_of_nat (8 + length payload))"
    "fetch (drop 34 f) 8 (length payload) = Some payload"
proof -
  obtain h where h: "h = ip_header (build_eth (replicate 554 0) dst_mac (ni_mac iface) ETH_TYPE_IPV4) (word_of_nat (28 + length payload)) sp IP_PROTO_UDP sip tip"
    "f = take (42 + length payload) (put 42 payload (put16 40 0 (put16 38 (word_of_nat (8 + length payload)) (put16 36 dp (put16 34 sp h)))))"
    "length payload \<le> 512" using udp4_frame_cases [OF f l] by blast
  note H = eth_ip_header [OF l(1,2) _ h(1)]
  let ?ws = "[(34, bytes16 sp), (36, bytes16 dp), (38, bytes16 (word_of_nat (8 + length payload))), (40, bytes16 0), (42, payload)]"
  have lh: "length h = 554" using H(1) by simp
  have ft: "fits (length h) ?ws" using h(3) lh by (simp add: fits_def)
  let ?g = "puts ?ws h"
  have fg: "f = take (42 + length payload) ?g" by (simp add: h(2) put16_def)
  have lg: "length ?g = 554" using puts_length [OF ft] lh by simp
  show len: "length f = 42 + length payload" using lg h(3) fg by simp
  show "length payload \<le> 512" by (rule h(3))
  have F: "fetch f j k = fetch ?g j k" if "j + k \<le> 42 + length payload" for j k
    using that lg h(3) unfolding fg by (simp add: fetch_def drop_take min_def)
  have A: "fetch f j k = fetch h j k" if "j + k \<le> 34" for j k
    using F [of j k] that puts_apart [OF ft, of j k] by (simp add: apart_def)
  have S: "fetch f j k = Some b" if "j + k \<le> 42 + length payload" "stored ?ws j k = Some b" for j k b
    using F [OF that(1)] puts_stored [OF ft that(2)] by simp
  have D: "fetch (drop n f) j k = fetch f (n + j) k" if "n \<le> 42" for n j k using that len by (intro fetch_drop) simp
  show "be16 f 12 = Some ETH_TYPE_IPV4" "get8 (drop 14 f) 0 = Some 0x45" "be32 (drop 14 f) 16 = Some tip" "be32 (drop 14 f) 12 = Some sip"
    "get8 (drop 14 f) 9 = Some IP_PROTO_UDP"
    using H by (simp_all add: be_fetch A D)
  have "fetch f 34 2 = Some (bytes16 sp)" "fetch f 36 2 = Some (bytes16 dp)" "fetch f 38 2 = Some (bytes16 (word_of_nat (8 + length payload)))"
    "fetch f 42 (length payload) = Some payload"
    by (rule S; simp add: apart_def)+
  then show "be16 (drop 34 f) 0 = Some sp" "be16 (drop 34 f) 2 = Some dp" "be16 (drop 34 f) 4 = Some (word_of_nat (8 + length payload))"
    "fetch (drop 34 f) 8 (length payload) = Some payload"
    by (simp_all add: be_fetch D)
qed

text \<open>
  C23: a UDP datagram arrives as sent.  A frame that \<open>send_udp4_from\<close> builds for an interface's
  address (or for the broadcast address) gives that interface's DHCP and DNS handlers exactly the
  payload, the ports and the source address, whatever its length up to 512; interface and caches
  are unchanged and nothing is sent.
\<close>

theorem udp_delivery:
  assumes "udp4_frame a dst_mac sip tip sp dp payload = Some f" and "length dst_mac = 6" and "length (ni_mac a) = 6"
    and "tip = ni_ipv4 b \<or> tip = ipv4_make 255 255 255 255"
  shows "\<exists>d n. option_step (\<lambda>w. process_dhcp w payload sp dp) (pc_dhcp ctx) = Some d
     \<and> option_step (\<lambda>w. process_dns w payload sip sp dp) (pc_dns ctx) = Some n
     \<and> process_frame_ctx b f ctx = Some (b, ctx\<lparr>pc_dhcp := d, pc_dns := n\<rparr>, [])"
proof -
  note F = udp4_frame_fields [OF assms(1-3)]
  obtain d n where d: "option_step (\<lambda>w. process_dhcp w payload sp dp) (pc_dhcp ctx) = Some d"
    "option_step (\<lambda>w. process_dns w payload sip sp dp) (pc_dns ctx) = Some n"
    using option_step_safe [of "\<lambda>w. process_dhcp w payload sp dp" "pc_dhcp ctx"] process_dhcp_safe
      option_step_safe [of "\<lambda>w. process_dns w payload sip sp dp" "pc_dns ctx"] process_dns_safe by blast
  have u: "unat (word_of_nat (8 + length payload) :: u16) = 8 + length payload" using F(2) by (simp only: unat_of_nat) simp
  then have ul: "word_of_nat (8 + length payload) \<ge> (8 :: u16)" by (simp add: word_le_nat_alt)
  have "process_udp (drop 34 f) sip ctx = Some (ctx\<lparr>pc_dhcp := d, pc_dns := n\<rparr>)"
    using F(1,8-11) u ul d by (simp add: process_udp_def del: of_nat_add)
  moreover have "unat ((0x45 :: u8) AND 0x0f) * 4 = 20" "drop_bit 4 (0x45 :: u8) = 4" by simp_all
  moreover have "IP_PROTO_UDP \<noteq> IP_PROTO_ICMP" "ETH_TYPE_IPV4 \<noteq> ETH_TYPE_ARP" by (simp_all add: IP_PROTO_UDP_def IP_PROTO_ICMP_def ETH_TYPE_IPV4_def ETH_TYPE_ARP_def)
  ultimately have "process_ipv4 b (drop 14 f) ctx = Some (ctx\<lparr>pc_dhcp := d, pc_dns := n\<rparr>)"
    using F(1,4-7) assms(4) by (auto simp: process_ipv4_def Let_def)
  then show ?thesis using F(1,3) d \<open>ETH_TYPE_IPV4 \<noteq> ETH_TYPE_ARP\<close> by (simp add: process_frame_ctx_def)
qed

section \<open>Properties\<close>

definition host_a :: net_iface where
  "host_a = \<lparr>ni_name = [0x65], ni_type = NET_IFACE_ETHERNET, ni_up = True, ni_link = True, ni_mac = [2, 0, 0, 0, 0, 1],
     ni_ipv4 = 0x0A000001, ni_netmask = 0xFFFFFF00, ni_rx_packets = 0, ni_tx_packets = 0, ni_rx_bytes = 0, ni_tx_bytes = 0,
     ni_pci_vendor = 0, ni_pci_device = 0, ni_gateway = 0, ni_dns_server = 0, ni_driver = [], ni_ssid = None,
     ni_configurable = True, ni_transmit = True, ni_poll = True, ni_arp_ip = 0, ni_arp_mac = replicate 6 0, ni_arp_valid = False\<rparr>"

definition host_b :: net_iface where
  "host_b = host_a\<lparr>ni_mac := [2, 0, 0, 0, 0, 2], ni_ipv4 := 0x0A000002\<rparr>"

definition no_wait :: poll_ctx where "no_wait = \<lparr>pc_ping = None, pc_dns = None, pc_dhcp = None\<rparr>"

lemma hosts: "length (ni_mac host_a) = 6" "length (ni_mac host_b) = 6" "ni_transmit host_b" "ni_ipv4 host_b = 0x0A000002"
  by (simp_all add: host_a_def host_b_def)

text \<open>
  C22: For every frame a driver can deliver (any bytes, any length), every interface and every
  waiting ping, DNS or DHCP request, the parsers of \<open>process_frame_ctx\<close> read only inside the
  frame and finish, with compression pointers, label lengths, option lengths and header lengths
  taken from the frame itself.
\<close>

theorem net_frame_reads_in_bounds: "\<exists>iface' ctx' sent. process_frame_ctx iface frame ctx = Some (iface', ctx', sent)"
  using process_frame_safe [of iface frame ctx] by (metis prod_cases3)

theorem udp_delivery_witness:
  "\<exists>f. udp4_frame host_a (ni_mac host_b) 0x0A000001 (ni_ipv4 host_b) 68 67 [1, 2, 3] = Some f \<and> process_frame_ctx host_b f no_wait = Some (host_b, no_wait, [])"
proof -
  obtain f where f: "udp4_frame host_a (ni_mac host_b) 0x0A000001 (ni_ipv4 host_b) 68 67 [1, 2, 3] = Some f"
    by (simp add: udp4_frame_def Let_def)
  show ?thesis
    using udp_delivery [OF f hosts(2,1) disjI1 [OF refl], of no_wait] f by (simp add: option_step_def no_wait_def)
qed

end
