(* ===== verification/Net_Ops.thy ===== *)
theory Net_Ops
  imports Net Printf_Lines
begin

text \<open>
  The requests of \<open>kernel/drivers/net/net.c\<close>: the table of interfaces, routing, address resolution,
  ping, name resolution, DHCP, dotted addresses and Wi-Fi profiles.

  Strings are byte lists without their NUL.  The clock and the driver are scripts: \<open>nt_ticks\<close> is
  what the calls of \<open>pit_ticks\<close> return, \<open>nt_polls\<close> the frames each call of the driver's \<open>poll\<close>
  delivers (nothing once the script is over), \<open>nt_sent\<close> the frames handed to \<open>transmit\<close> so far; the
  result of \<open>transmit\<close> is a parameter \<open>tx\<close>.  A waiting loop whose clock stops is \<open>None\<close>.
\<close>

record net_state =
  nt_ifaces :: "net_iface list"
  nt_ticks :: "u64 list"
  nt_polls :: "u8 list list list"
  nt_sent :: "u8 list list"

section \<open>Interfaces\<close>

definition net_iface_count :: "net_state \<Rightarrow> nat" where
  "net_iface_count s = length (nt_ifaces s)"

definition net_iface_get :: "net_state \<Rightarrow> nat \<Rightarrow> net_iface option" where
  "net_iface_get s index = (if index < length (nt_ifaces s) then Some (nt_ifaces s ! index) else None)"

text \<open>A pointer to an interface is its index.\<close>

fun find_iface :: "(net_iface \<Rightarrow> bool) \<Rightarrow> net_iface list \<Rightarrow> nat \<Rightarrow> nat option" where
  "find_iface P [] i = None"
| "find_iface P (x # xs) i = (if P x then Some i else find_iface P xs (Suc i))"

definition net_iface_find :: "net_state \<Rightarrow> u8 list \<Rightarrow> nat option" where
  "net_iface_find s name = find_iface (\<lambda>x. ni_name x = name) (nt_ifaces s) 0"

definition net_iface_type_name :: "net_iface_type \<Rightarrow> u8 list" where
  "net_iface_type_name t = (case t of NET_IFACE_LOOPBACK \<Rightarrow> bytes_of ''loopback'' | NET_IFACE_ETHERNET \<Rightarrow> bytes_of ''ethernet'' | NET_IFACE_WIFI \<Rightarrow> bytes_of ''wifi'')"

definition set_iface :: "nat \<Rightarrow> (net_iface \<Rightarrow> net_iface) \<Rightarrow> net_state \<Rightarrow> net_state" where
  "set_iface i f s = s\<lparr>nt_ifaces := (nt_ifaces s)[i := f (nt_ifaces s ! i)]\<rparr>"

definition net_iface_configure_ipv4 :: "net_state \<Rightarrow> u8 list \<Rightarrow> u32 \<Rightarrow> u32 \<Rightarrow> u32 \<Rightarrow> net_state \<times> int" where
  "net_iface_configure_ipv4 s name ipv4 netmask gateway =
     (case net_iface_find s name of
        None \<Rightarrow> (s, -1)
      | Some i \<Rightarrow>
          if \<not> ni_configurable (nt_ifaces s ! i) \<or> ipv4 = 0 \<or> netmask = 0 then (s, -1)
          else (set_iface i (\<lambda>x. x\<lparr>ni_ipv4 := ipv4, ni_netmask := netmask, ni_gateway := gateway,
                  ni_dns_server := (if ni_dns_server x = 0 \<and> gateway \<noteq> 0 then gateway else ni_dns_server x), ni_up := True\<rparr>) s, 0))"

definition net_iface_set_up :: "net_state \<Rightarrow> u8 list \<Rightarrow> bool \<Rightarrow> net_state \<times> int" where
  "net_iface_set_up s name up =
     (case net_iface_find s name of
        None \<Rightarrow> (s, -1)
      | Some i \<Rightarrow> if \<not> ni_configurable (nt_ifaces s ! i) then (s, -1) else (set_iface i (ni_up_update (\<lambda>_. up)) s, 0))"

definition same_subnet :: "u32 \<Rightarrow> u32 \<Rightarrow> u32 \<Rightarrow> bool" where
  "same_subnet a b netmask \<longleftrightarrow> a AND netmask = b AND netmask"

definition route_ok :: "u32 \<Rightarrow> net_iface \<Rightarrow> bool" where
  "route_ok ip x \<longleftrightarrow> ni_up x \<and> ni_link x \<and> ni_ipv4 x \<noteq> 0 \<and> ni_transmit x \<and> ni_poll x \<and>
     (same_subnet ip (ni_ipv4 x) (ni_netmask x) \<or> ni_gateway x \<noteq> 0)"

definition route_for :: "net_state \<Rightarrow> u32 \<Rightarrow> nat option" where
  "route_for s ip = find_iface (route_ok ip) (nt_ifaces s) 0"

definition net_has_external_transport :: "net_state \<Rightarrow> bool" where
  "net_has_external_transport s \<longleftrightarrow> route_for s (ipv4_make 1 1 1 1) \<noteq> None"

definition next_hop :: "net_iface \<Rightarrow> u32 \<Rightarrow> u32" where
  "next_hop x ip = (if same_subnet ip (ni_ipv4 x) (ni_netmask x) then ip else ni_gateway x)"

definition mac_is_usable :: "u8 list \<Rightarrow> bool" where
  "mac_is_usable mac \<longleftrightarrow> \<not> list_all (\<lambda>b. b = 0) mac \<and> \<not> list_all (\<lambda>b. b = 0xff) mac"

section \<open>Waiting for an answer\<close>

definition pit_ticks :: "net_state \<Rightarrow> (u64 \<times> net_state) option" where
  "pit_ticks s = (case nt_ticks s of [] \<Rightarrow> None | t # ts \<Rightarrow> Some (t, s\<lparr>nt_ticks := ts\<rparr>))"

definition transmit :: "(u8 list \<Rightarrow> int) \<Rightarrow> u8 list \<Rightarrow> net_state \<Rightarrow> int \<times> net_state" where
  "transmit tx frame s = (tx frame, s\<lparr>nt_sent := nt_sent s @ [frame]\<rparr>)"

fun deliver :: "u8 list list \<Rightarrow> net_iface \<Rightarrow> poll_ctx \<Rightarrow> (net_iface \<times> poll_ctx \<times> u8 list list) option" where
  "deliver [] x ctx = Some (x, ctx, [])"
| "deliver (f # fs) x ctx =
     (case process_frame_ctx x f ctx of
        None \<Rightarrow> None
      | Some (x', ctx', sent) \<Rightarrow> map_option (\<lambda>(x'', ctx'', sent'). (x'', ctx'', sent @ sent')) (deliver fs x' ctx'))"

definition net_poll_iface :: "nat \<Rightarrow> poll_ctx \<Rightarrow> net_state \<Rightarrow> (poll_ctx \<times> net_state) option" where
  "net_poll_iface i ctx s =
     (if \<not> ni_poll (nt_ifaces s ! i) then Some (ctx, s)
      else
        let (frames, rest) = (case nt_polls s of [] \<Rightarrow> ([], []) | fs # r \<Rightarrow> (fs, r)) in
        map_option (\<lambda>(x, ctx', sent). (ctx', s\<lparr>nt_ifaces := (nt_ifaces s)[i := x], nt_polls := rest, nt_sent := nt_sent s @ sent\<rparr>))
          (deliver frames (nt_ifaces s ! i) ctx))"

text \<open>
  The loop \<open>while (pit_ticks() - start < limit)\<close> that polls and looks for the answer: the clock read
  at each test is the next of the list.  The result tells whether the answer came.
\<close>

fun poll_loop :: "(net_iface \<Rightarrow> poll_ctx \<Rightarrow> bool) \<Rightarrow> u64 \<Rightarrow> u64 \<Rightarrow> nat \<Rightarrow> u64 list \<Rightarrow> poll_ctx \<Rightarrow> net_state \<Rightarrow> (bool \<times> poll_ctx \<times> net_state) option" where
  "poll_loop answered limit start i [] ctx s = None"
| "poll_loop answered limit start i (t # ts) ctx s =
     (if t - start < limit then
        (case net_poll_iface i ctx (s\<lparr>nt_ticks := ts\<rparr>) of
           None \<Rightarrow> None
         | Some (ctx', s') \<Rightarrow>
             if answered (nt_ifaces s' ! i) ctx' then Some (True, ctx', s')
             else poll_loop answered limit start i ts ctx' s')
      else Some (False, ctx, s\<lparr>nt_ticks := ts\<rparr>))"

definition poll_until :: "(net_iface \<Rightarrow> poll_ctx \<Rightarrow> bool) \<Rightarrow> u64 \<Rightarrow> u64 \<Rightarrow> nat \<Rightarrow> poll_ctx \<Rightarrow> net_state \<Rightarrow> (bool \<times> poll_ctx \<times> net_state) option" where
  "poll_until answered limit start i ctx s = poll_loop answered limit start i (nt_ticks s) ctx s"

abbreviation idle :: poll_ctx where "idle \<equiv> \<lparr>pc_ping = None, pc_dns = None, pc_dhcp = None\<rparr>"

text \<open>\<open>resolve_mac\<close>: \<open>None\<close> in the result is -1, otherwise the hardware address.\<close>

definition resolve_mac :: "(u8 list \<Rightarrow> int) \<Rightarrow> nat \<Rightarrow> u32 \<Rightarrow> net_state \<Rightarrow> (u8 list option \<times> net_state) option" where
  "resolve_mac tx i ip s =
     (let x = nt_ifaces s ! i in
      if \<not> ni_transmit x \<or> \<not> ni_poll x then Some (None, s)
      else if ni_arp_valid x \<and> ni_arp_ip x = ip then Some (Some (ni_arp_mac x), s)
      else
        let (rc, s) = transmit tx (arp_frame x ip [] 1) s in
        if rc < 0 then Some (None, s)
        else do {
          (start, s) \<leftarrow> pit_ticks s;
          (found, _, s) \<leftarrow> poll_until (\<lambda>x _. ni_arp_valid x \<and> ni_arp_ip x = ip) 200 start i idle s;
          Some (if found then Some (ni_arp_mac (nt_ifaces s ! i)) else None, s)
        })"

section \<open>Ping\<close>

definition ping_answered :: "net_iface \<Rightarrow> poll_ctx \<Rightarrow> bool" where
  "ping_answered x ctx \<longleftrightarrow> (case pc_ping ctx of None \<Rightarrow> False | Some p \<Rightarrow> pw_complete p)"

text \<open>The result code, and what is stored to \<open>latency_ms\<close>, which may be \<open>NULL\<close> (\<open>want\<close> is false).\<close>

definition net_ping4 :: "(u8 list \<Rightarrow> int) \<Rightarrow> u32 \<Rightarrow> u16 \<Rightarrow> bool \<Rightarrow> net_state \<Rightarrow> (int \<times> u32 option \<times> net_state) option" where
  "net_ping4 tx ipv4 sequence want s =
     (if ipv4 = ipv4_make 127 0 0 1 then
        Some (0, if want then Some 0 else None,
          set_iface 0 (\<lambda>x. x\<lparr>ni_tx_packets := ni_tx_packets x + 1, ni_rx_packets := ni_rx_packets x + 1,
                             ni_tx_bytes := ni_tx_bytes x + 64, ni_rx_bytes := ni_rx_bytes x + 64\<rparr>) s)
      else (case route_for s ipv4 of
        None \<Rightarrow> Some (-1, None, s)
      | Some i \<Rightarrow>
          let hop = next_hop (nt_ifaces s ! i) ipv4 in
          if hop = 0 then Some (-1, None, s)
          else do {
            (mac, s) \<leftarrow> resolve_mac tx i hop s;
            case mac of
              None \<Rightarrow> Some (-1, None, s)
            | Some dst_mac \<Rightarrow> do {
                let ping = \<lparr>pw_target = ipv4, pw_id = 0x544e, pw_sequence = sequence, pw_complete = False\<rparr>;
                (start, s) \<leftarrow> pit_ticks s;
                let (rc, s) = transmit tx (icmp_echo_frame (nt_ifaces s ! i) dst_mac ipv4 (pw_id ping) sequence) s;
                if rc < 0 then Some (-1, None, s)
                else do {
                  (found, _, s) \<leftarrow> poll_until ping_answered 300 start i (idle\<lparr>pc_ping := Some ping\<rparr>) s;
                  if \<not> found then Some (-1, None, s)
                  else if want then map_option (\<lambda>(t, s). (0, Some (ucast ((t - start) * 10)), s)) (pit_ticks s)
                  else Some (0, None, s)
                }
              }
          }))"

section \<open>Dotted addresses\<close>

text \<open>One octet: \<open>None\<close> is the early return of 0 for a value over 255.\<close>

fun parse_octet :: "u8 list \<Rightarrow> u32 \<Rightarrow> (u32 \<times> u8 list) option" where
  "parse_octet [] value = Some (value, [])"
| "parse_octet (c # s) value =
     (if chr CHR ''0'' \<le> c \<and> c \<le> chr CHR ''9'' then
        let value = value * 10 + ucast (c - chr CHR ''0'') in
        if value > 255 then None else parse_octet s value
      else Some (value, c # s))"

text \<open>The last \<open>k\<close> octets.\<close>

fun parse_octets :: "nat \<Rightarrow> u8 list \<Rightarrow> (u32 list \<times> u8 list) option" where
  "parse_octets 0 s = Some ([], s)"
| "parse_octets (Suc k) s =
     (if s = [] then None
      else case parse_octet s 0 of
        None \<Rightarrow> None
      | Some (value, s) \<Rightarrow>
          if k = 0 then Some ([value], s)
          else if s = [] \<or> hd s \<noteq> chr CHR ''.'' then None
          else map_option (\<lambda>(vs, s). (value # vs, s)) (parse_octets k (tl s)))"

definition net_parse_ipv4 :: "u8 list \<Rightarrow> u32" where
  "net_parse_ipv4 s =
     (case parse_octets 4 s of
        None \<Rightarrow> 0
      | Some (o4, s) \<Rightarrow> if s = [] then ipv4_make (ucast (o4 ! 0)) (ucast (o4 ! 1)) (ucast (o4 ! 2)) (ucast (o4 ! 3)) else 0)"

definition net_format_ipv4 :: "u32 \<Rightarrow> nat \<Rightarrow> u8 list" where
  "net_format_ipv4 ip out_size = fmt_line out_size ''%u.%u.%u.%u''
     [Arg_int (ucast (drop_bit 24 ip AND 0xff)), Arg_int (ucast (drop_bit 16 ip AND 0xff)),
      Arg_int (ucast (drop_bit 8 ip AND 0xff)), Arg_int (ucast (ip AND 0xff))]"

section \<open>Name resolution\<close>

definition dns_char :: "u8 \<Rightarrow> bool" where
  "dns_char c \<longleftrightarrow> chr CHR ''A'' \<le> c \<and> c \<le> chr CHR ''Z'' \<or> chr CHR ''a'' \<le> c \<and> c \<le> chr CHR ''z'' \<or>
     chr CHR ''0'' \<le> c \<and> c \<le> chr CHR ''9'' \<or> c = chr CHR ''-''"

text \<open>The loop over the labels of the name, from \<open>pos\<close> in the message; \<open>None\<close> is -1.\<close>

function dns_labels :: "u8 list \<Rightarrow> u8 list \<Rightarrow> nat \<Rightarrow> (u8 list \<times> nat) option" where
  "dns_labels label out pos =
     (if label = [] then Some (out, pos)
      else
        let name = takeWhile (\<lambda>c. c \<noteq> chr CHR ''.'') label; len = length name in
        if len = 0 \<or> len > 63 \<or> pos + 1 + len + 5 > 512 \<or> \<not> list_all dns_char name then None
        else dns_labels (drop (len + 1) label) (put (pos + 1) name (put pos [word_of_nat len] out)) (pos + 1 + len))"
  by auto
termination by (relation "measure (\<lambda>(label, out, pos). length label)") auto

declare dns_labels.simps [simp del]

definition dns_build_query :: "u8 list \<Rightarrow> u16 \<Rightarrow> (u8 list \<times> nat) option" where
  "dns_build_query host ident =
     (if host = [] then None
      else
        let out = put16 4 1 (put16 2 0x0100 (put16 0 ident (replicate 512 0))) in
        map_option (\<lambda>(out, pos). (put16 (pos + 3) 1 (put16 (pos + 1) 1 (put pos [0] out)), pos + 5))
          (dns_labels host out 12))"

definition dns_answered :: "net_iface \<Rightarrow> poll_ctx \<Rightarrow> bool" where
  "dns_answered x ctx \<longleftrightarrow> (case pc_dns ctx of None \<Rightarrow> False | Some d \<Rightarrow> dn_complete d \<and> dn_answer d \<noteq> 0)"

definition net_resolve4 :: "(u8 list \<Rightarrow> int) \<Rightarrow> u8 list \<Rightarrow> net_state \<Rightarrow> (u32 option \<times> net_state) option" where
  "net_resolve4 tx host s =
     (let numeric = net_parse_ipv4 host in
      if numeric \<noteq> 0 then Some (Some numeric, s)
      else (case route_for s (ipv4_make 1 1 1 1) of
        None \<Rightarrow> Some (None, s)
      | Some i \<Rightarrow>
          let x = nt_ifaces s ! i; server = ni_dns_server x; ident = 0x544e in
          if server = 0 then Some (None, s)
          else (case dns_build_query host ident of
            None \<Rightarrow> Some (None, s)
          | Some (query, query_len) \<Rightarrow>
              let hop = next_hop x server in
              if hop = 0 then Some (None, s)
              else do {
                (mac, s) \<leftarrow> resolve_mac tx i hop s;
                case mac of
                  None \<Rightarrow> Some (None, s)
                | Some dst_mac \<Rightarrow> do {
                    let dns = \<lparr>dn_id = ident, dn_port = DNS_SOURCE_PORT, dn_server = server, dn_answer = 0, dn_complete = False\<rparr>;
                    (start, s) \<leftarrow> pit_ticks s;
                    case send_udp4 (nt_ifaces s ! i) dst_mac server DNS_SOURCE_PORT DNS_PORT (take query_len query) of
                      None \<Rightarrow> Some (None, s)
                    | Some frame \<Rightarrow>
                        let (rc, s) = transmit tx frame s in
                        if rc < 0 then Some (None, s)
                        else do {
                          (found, ctx, s) \<leftarrow> poll_until dns_answered 300 start i (idle\<lparr>pc_dns := Some dns\<rparr>) s;
                          Some (if found then map_option dn_answer (pc_dns ctx) else None, s)
                        }
                  }
              })))"

section \<open>DHCP\<close>

definition dhcp_answered :: "net_iface \<Rightarrow> poll_ctx \<Rightarrow> bool" where
  "dhcp_answered x ctx \<longleftrightarrow> (case pc_dhcp ctx of None \<Rightarrow> False | Some d \<Rightarrow> dw_complete d)"

text \<open>
  One exchange: send the message and wait for the answer of the expected type.  \<open>Inl False\<close> is a
  message that was not sent, \<open>Inl True\<close> no answer in time.
\<close>

definition dhcp_exchange ::
  "(u8 list \<Rightarrow> int) \<Rightarrow> nat \<Rightarrow> u8 \<Rightarrow> u8 \<Rightarrow> u32 \<Rightarrow> u32 \<Rightarrow> u32 \<Rightarrow> net_state \<Rightarrow> ((bool + dhcp_wait) \<times> net_state) option" where
  "dhcp_exchange tx i msg_type expected xid requested_ip server_id s =
     (case send_dhcp_message (nt_ifaces s ! i) msg_type xid requested_ip server_id of
        None \<Rightarrow> Some (Inl False, s)
      | Some frame \<Rightarrow>
          let (rc, s) = transmit tx frame s in
          if rc < 0 then Some (Inl False, s)
          else do {
            (start, s) \<leftarrow> pit_ticks s;
            let wait = \<lparr>dw_xid = xid, dw_expected_type = expected, dw_offered_ip = 0, dw_server_id = 0, dw_netmask = 0,
                        dw_gateway = 0, dw_dns_server = 0, dw_complete = False\<rparr>;
            (found, ctx, s) \<leftarrow> poll_until dhcp_answered 500 start i (idle\<lparr>pc_dhcp := Some wait\<rparr>) s;
            Some (if found then Inr (the (pc_dhcp ctx)) else Inl True, s)
          })"

definition net_iface_dhcp :: "(u8 list \<Rightarrow> int) \<Rightarrow> u8 list \<Rightarrow> net_state \<Rightarrow> (int \<times> net_state) option" where
  "net_iface_dhcp tx name s =
     (case net_iface_find s name of
        None \<Rightarrow> Some (-1, s)
      | Some i \<Rightarrow>
          let x = nt_ifaces s ! i in
          if \<not> ni_up x \<or> \<not> ni_link x \<or> \<not> ni_transmit x \<or> \<not> ni_poll x \<or> \<not> mac_is_usable (ni_mac x) then Some (-1, s)
          else do {
            (t, s) \<leftarrow> pit_ticks s;
            let xid = 0x544e0000 OR (ucast t AND 0xffff);
            let s = set_iface i (\<lambda>x. x\<lparr>ni_ipv4 := 0, ni_gateway := 0, ni_dns_server := 0, ni_arp_valid := False\<rparr>) s;
            (r, s) \<leftarrow> dhcp_exchange tx i 1 2 xid 0 0 s;
            case r of
              Inl timeout \<Rightarrow> Some (if timeout then -3 else -2, s)
            | Inr offer \<Rightarrow> do {
                (r, s) \<leftarrow> dhcp_exchange tx i 3 5 xid (dw_offered_ip offer) (dw_server_id offer) s;
                case r of
                  Inl timeout \<Rightarrow> Some (if timeout then -5 else -4, s)
                | Inr ack \<Rightarrow>
                    Some (0, set_iface i (\<lambda>x. x\<lparr>ni_ipv4 := dw_offered_ip ack, ni_netmask := dw_netmask ack,
                      ni_gateway := dw_gateway ack, ni_dns_server := dw_dns_server ack, ni_arp_valid := False\<rparr>) s)
              }
          })"

section \<open>Wi-Fi profiles\<close>

record wifi_profile =
  wp_iface :: "u8 list"
  wp_ssid :: "u8 list"
  wp_passphrase :: "u8 list"
  wp_autoconnect :: bool

function profile_value :: "u8 list \<Rightarrow> u8 list \<Rightarrow> nat \<Rightarrow> u8 list" where
  "profile_value line key out_size =
     (if line = [] then []
      else
        let text = takeWhile (\<lambda>c. c \<noteq> 10) line; len = length text in
        if len > length key \<and> take (length key) line = key \<and> line ! length key = chr CHR ''=''
        then take (out_size - 1) (drop (length key + 1) text)
        else if length line = len then []
        else profile_value (drop (len + 1) line) key out_size)"
  by auto
termination by (relation "measure (\<lambda>(line, key, out_size). length line)") auto

declare profile_value.simps [simp del]

definition profile_bool_value :: "u8 list \<Rightarrow> u8 list \<Rightarrow> bool" where
  "profile_bool_value text key =
     (let value = profile_value text key 8 in value = bytes_of ''yes'' \<or> value = bytes_of ''true'' \<or> value = bytes_of ''1'')"

text \<open>The profile in a file's bytes, of which the first 255 are read, up to a NUL.\<close>

definition parse_wifi_profile :: "u8 list \<Rightarrow> wifi_profile option" where
  "parse_wifi_profile data =
     (if data = [] then None
      else
        let text = takeWhile (\<lambda>c. c \<noteq> 0) (take 255 data);
            p = \<lparr>wp_iface = profile_value text (bytes_of ''iface'') 16, wp_ssid = profile_value text (bytes_of ''ssid'') 33,
                 wp_passphrase = profile_value text (bytes_of ''passphrase'') 65, wp_autoconnect = profile_bool_value text (bytes_of ''autoconnect'')\<rparr>
        in if wp_iface p = [] \<or> wp_ssid p = [] then None else Some p)"


section \<open>Dotted addresses are read back\<close>

lemma parse_octet_digit:
  "d < 10 \<Longrightarrow> n * 10 + d \<le> 255 \<Longrightarrow> parse_octet (digit_char False d # r) (word_of_nat n) = parse_octet r (word_of_nat (n * 10 + d))"
proof -
  assume d: "d < 10" and l: "n * 10 + d \<le> 255"
  then have "d = 0 \<or> d = 1 \<or> d = 2 \<or> d = 3 \<or> d = 4 \<or> d = 5 \<or> d = 6 \<or> d = 7 \<or> d = 8 \<or> d = 9" by presburger
  then have c: "chr CHR ''0'' \<le> digit_char False d \<and> digit_char False d \<le> chr CHR ''9'' \<and> (ucast (digit_char False d - chr CHR ''0'') :: u32) = word_of_nat d"
    by (elim disjE) (simp_all add: digit_char_def bytes_of_def chr_def)
  have v: "word_of_nat n * 10 + word_of_nat d = (word_of_nat (n * 10 + d) :: u32)" by simp
  have "unat (word_of_nat (n * 10 + d) :: u32) = n * 10 + d" using l by (simp only: unat_of_nat) simp
  then have "\<not> word_of_nat (n * 10 + d) > (255 :: u32)" using l by (simp add: word_less_nat_alt del: of_nat_add of_nat_mult)
  then show ?thesis using c v by (simp add: Let_def del: of_nat_add of_nat_mult)
qed

lemma parse_octet_digits: "n \<le> 255 \<Longrightarrow> parse_octet (digits_of False 10 n @ r) 0 = parse_octet r (word_of_nat n)"
proof (induction n arbitrary: r rule: less_induct)
  case (less n)
  show ?case
  proof (cases "n = 0")
    case False
    then have "digits_of False 10 n @ r = digits_of False 10 (n div 10) @ digit_char False (n mod 10) # r"
      by (simp add: digits_of.simps [of _ _ n])
    then have "parse_octet (digits_of False 10 n @ r) 0 = parse_octet (digit_char False (n mod 10) # r) (word_of_nat (n div 10))"
      using less False by (simp del: parse_octet.simps)
    also have "\<dots> = parse_octet r (word_of_nat n)" using parse_octet_digit [of "n mod 10" "n div 10" r] less.prems by (simp del: parse_octet.simps)
    finally show ?thesis .
  qed (simp add: digits_of.simps)
qed

lemma parse_octet_number:
  assumes "n \<le> 255" and "r = [] \<or> hd r = chr CHR ''.''"
  shows "parse_octet (number_text False 10 n @ r) 0 = Some (word_of_nat n, r)"
proof -
  have "parse_octet r v = Some (v, r)" for v using assms(2) by (cases r) (auto simp: chr_def)
  then show ?thesis using parse_octet_digits [OF assms(1), of r] by (auto simp: number_text_def chr_def)
qed

lemma octet_word: "(ucast (word_of_nat (unat (w AND 0xff)) :: u32) :: u8) = ucast (w :: u32)" "unat (w AND 0xff) \<le> 255"
proof -
  show "unat (w AND 0xff) \<le> 255" using word_and_le1 [of w "0xff"] by (simp add: word_le_nat_alt)
  have "(word_of_nat (unat (w AND 0xff)) :: u32) = w AND 0xff" by simp
  moreover have "ucast (w AND 0xff) = (ucast w :: u8)"
  proof -
    have "w AND 0xff = take_bit 8 w" by (simp add: take_bit_eq_mask mask_eq_exp_minus_1)
    then show ?thesis by (auto intro: bit_word_eqI simp: bit_ucast_iff bit_take_bit_iff)
  qed
  ultimately show "(ucast (word_of_nat (unat (w AND 0xff)) :: u32) :: u8) = ucast w" by simp
qed

lemma ipv4_make_octets: "ipv4_make (ucast (drop_bit 24 w)) (ucast (drop_bit 16 w)) (ucast (drop_bit 8 w)) (ucast w) = w"
proof (rule bit_word_eqI)
  fix n assume "n < LENGTH(32)"
  then consider "n < 8" | "8 \<le> n" "n < 16" | "16 \<le> n" "n < 24" | "24 \<le> n" "n < 32" by fastforce
  then show "bit (ipv4_make (ucast (drop_bit 24 w)) (ucast (drop_bit 16 w)) (ucast (drop_bit 8 w)) (ucast w)) n = bit w n"
    by cases (auto simp: ipv4_make_def bit_or_iff bit_push_bit_iff bit_ucast_iff bit_drop_bit_eq)
qed

definition dotted :: "nat \<Rightarrow> nat \<Rightarrow> nat \<Rightarrow> nat \<Rightarrow> u8 list" where
  "dotted a b c d = number_text False 10 a @ chr CHR ''.'' # number_text False 10 b @ chr CHR ''.'' # number_text False 10 c @ chr CHR ''.'' # number_text False 10 d"

lemma parse_dotted:
  assumes "a \<le> 255" "b \<le> 255" "c \<le> 255" "d \<le> 255"
  shows "parse_octets 4 (dotted a b c d) = Some ([word_of_nat a, word_of_nat b, word_of_nat c, word_of_nat d], [])"
proof -
  have n: "number_text False 10 x @ r \<noteq> []" for x r using number_text_val(3) by simp
  have four: "4 = Suc (Suc (Suc (Suc 0)))" by simp
  show ?thesis using assms parse_octet_number [of d "[]"] unfolding four
    by (simp add: dotted_def n number_text_val(3) parse_octet_number del: parse_octet.simps)
qed

lemma number_text_length3: "n \<le> 255 \<Longrightarrow> length (number_text False 10 n) \<le> 3"
  using digits_of_length [of 10 n 3 False] by (simp add: number_text_def)

lemma net_format_dotted:
  assumes "16 \<le> out_size"
  shows "net_format_ipv4 ip out_size =
    dotted (unat (drop_bit 24 ip AND 0xff)) (unat (drop_bit 16 ip AND 0xff)) (unat (drop_bit 8 ip AND 0xff)) (unat (ip AND 0xff))"
  unfolding net_format_ipv4_def
proof (rule fmt_line_text)
  let ?t = "dotted (unat (drop_bit 24 ip AND 0xff)) (unat (drop_bit 16 ip AND 0xff)) (unat (drop_bit 8 ip AND 0xff)) (unat (ip AND 0xff))"
  show "format_text (bytes_of ''%u.%u.%u.%u'' @ [0]) [Arg_int (ucast (drop_bit 24 ip AND 0xff)), Arg_int (ucast (drop_bit 16 ip AND 0xff)), Arg_int (ucast (drop_bit 8 ip AND 0xff)), Arg_int (ucast (ip AND 0xff))] = Some ?t"
    by (simp only: bytes_of_def list.map of_char_def) (simp add: ft_simps dotted_def chr_def)
  show "0 \<notin> set ?t" using number_text_val(2) is_digit_nonzero by (auto simp: dotted_def chr_def)
  show "length ?t < out_size"
    using assms number_text_length3 [OF octet_word(2), of "drop_bit 24 ip"] number_text_length3 [OF octet_word(2), of "drop_bit 16 ip"]
      number_text_length3 [OF octet_word(2), of "drop_bit 8 ip"] number_text_length3 [OF octet_word(2), of ip]
    by (simp add: dotted_def)
qed

text \<open>
  Every IPv4 address is read back from its dotted notation: with a buffer of at least the 16
  bytes the callers use, \<open>net_parse_ipv4\<close> of what \<open>net_format_ipv4\<close> writes is the address.
\<close>

lemma ipv4_text_roundtrip:
  assumes "16 \<le> out_size"
  shows "net_parse_ipv4 (net_format_ipv4 ip out_size) = ip"
  using parse_dotted [OF octet_word(2) octet_word(2) octet_word(2) octet_word(2), of "drop_bit 24 ip" "drop_bit 16 ip" "drop_bit 8 ip" ip] octet_word(1) ipv4_make_octets [of ip]
  by (simp add: net_parse_ipv4_def net_format_dotted [OF assms])

section \<open>Looking up a name\<close>

lemma put_put: "i + length a + length b \<le> length p \<Longrightarrow> put (i + length a) b (put i a p) = put i (a @ b) p"
  by (cases "length p \<le> i"; cases a; cases b) (auto simp: put_def min_def ac_simps)

lemma put_put_next: "j = i + length a \<Longrightarrow> j + length b \<le> length p \<Longrightarrow> put j b (put i a p) = put i (a @ b) p"
  using put_put [of i a b p] by simp

lemma take_put_all: "i + length a \<le> length p \<Longrightarrow> take (i + length a) (put i a p) = take i p @ a"
  by (cases "length p \<le> i"; cases a) (auto simp: put_def min_def)

text \<open>A name as labels joined by dots, and the labels in a message: each after its length.\<close>

fun dotted_name :: "u8 list list \<Rightarrow> u8 list" where
  "dotted_name [] = []"
| "dotted_name [l] = l"
| "dotted_name (l # ls) = l @ chr CHR ''.'' # dotted_name ls"

definition enc_labels :: "u8 list list \<Rightarrow> u8 list" where
  "enc_labels ls = concat (map (\<lambda>l. word_of_nat (length l) # l) ls)"

definition label_ok :: "u8 list \<Rightarrow> bool" where
  "label_ok l \<longleftrightarrow> l \<noteq> [] \<and> length l \<le> 63 \<and> list_all dns_char l"

lemma enc_labels_simps [simp]: "enc_labels [] = []" "enc_labels (l # ls) = word_of_nat (length l) # l @ enc_labels ls"
  by (simp_all add: enc_labels_def)

lemma dns_char_no_dot: "list_all dns_char l \<Longrightarrow> chr CHR ''.'' \<notin> set l"
  by (auto simp: list_all_iff dns_char_def chr_def)

lemma dns_labels_step:
  assumes "label_ok l" and "pos + length l + 6 \<le> 512" and "length out = 512" and "r = [] \<or> hd r = chr CHR ''.''"
  shows "dns_labels (l @ r) out pos = dns_labels (drop 1 r) (put pos (word_of_nat (length l) # l) out) (pos + 1 + length l)"
proof -
  have l: "l \<noteq> []" "length l \<le> 63" "list_all dns_char l" using assms(1) by (simp_all add: label_ok_def)
  have "takeWhile (\<lambda>c. c \<noteq> chr CHR ''.'') r = []" using assms(4) by (cases r) auto
  then have t: "takeWhile (\<lambda>c. c \<noteq> chr CHR ''.'') (l @ r) = l"
    using dns_char_no_dot [OF l(3)] by (subst takeWhile_append2) auto
  have o: "put (pos + 1) l (put pos [word_of_nat (length l)] out) = put pos (word_of_nat (length l) # l) out"
    using put_put [of pos "[word_of_nat (length l)]" l out] assms(2,3) by simp
  have d: "drop (length l + 1) (l @ r) = drop 1 r" by simp
  have c: "\<not> (length l = 0 \<or> length l > 63 \<or> pos + 1 + length l + 5 > 512 \<or> \<not> list_all dns_char l)" "l @ r \<noteq> []"
    using l assms(2) by simp_all
  show ?thesis by (subst dns_labels.simps) (simp only: Let_def t o d c if_False)
qed

lemma dns_labels_correct:
  assumes "list_all label_ok ls" and "ls \<noteq> []" and "pos + length (enc_labels ls) + 5 \<le> 512" and "length out = 512"
  shows "dns_labels (dotted_name ls) out pos = Some (put pos (enc_labels ls) out, pos + length (enc_labels ls))"
  using assms
proof (induction ls arbitrary: out pos rule: dotted_name.induct)
  case (2 l)
  then show ?case using dns_labels_step [of l pos out "[]"] by (simp add: dns_labels.simps [of "[]"])
next
  case (3 l l' ls)
  let ?r = "l' # ls" and ?o = "put pos (word_of_nat (length l) # l) out" and ?p = "pos + 1 + length l"
  have "dns_labels (dotted_name (l # ?r)) out pos = dns_labels (dotted_name ?r) ?o ?p"
    using dns_labels_step [of l pos out "chr CHR ''.'' # dotted_name ?r"] 3(2,4,5) by simp
  also have "\<dots> = Some (put ?p (enc_labels ?r) ?o, ?p + length (enc_labels ?r))"
    using 3 by (intro 3(1)) simp_all
  also have "put ?p (enc_labels ?r) ?o = put pos ((word_of_nat (length l) # l) @ enc_labels ?r) out"
    using put_put [of pos "word_of_nat (length l) # l" "enc_labels ?r" out] 3 by simp
  finally show ?case by simp
qed simp

definition dns_question :: "u8 list list \<Rightarrow> u8 list" where
  "dns_question ls = enc_labels ls @ [0, 0, 1, 0, 1]"

lemma dns_query_bytes:
  assumes "list_all label_ok ls" and "ls \<noteq> []" and "length (enc_labels ls) \<le> 495"
  shows "\<exists>buf n. dns_build_query (dotted_name ls) ident = Some (buf, n) \<and>
    n \<le> 512 \<and> take n buf = bytes16 ident @ [1, 0, 0, 1, 0, 0, 0, 0, 0, 0] @ dns_question ls"
proof -
  let ?z = "replicate 512 (0 :: u8)" and ?E = "enc_labels ls"
  have b: "bytes16 v = [ucast (drop_bit 8 v), ucast v]" "bytes16 0x0100 = [1, 0]" "bytes16 1 = [0, 1]" for v
    by (simp_all add: bytes16_def)
  define h where "h = put16 4 1 (put16 2 0x0100 (put16 0 ident ?z))"
  have "h = put 0 (bytes16 ident @ [1, 0, 0, 1]) ?z"
    using b(1) [of ident] by (simp add: h_def put16_def b(2,3) put_put_next)
  then have h: "length h = 512" "take 12 h = bytes16 ident @ [1, 0, 0, 1, 0, 0, 0, 0, 0, 0]"
    by (simp_all add: put_def bytes16_def eval_nat_numeral)
  have ne: "dotted_name ls \<noteq> []" using assms(1,2) by (cases ls rule: dotted_name.cases) (auto simp: label_ok_def)
  let ?p = "12 + length ?E"
  have "dns_labels (dotted_name ls) h 12 = Some (put 12 ?E h, ?p)" using dns_labels_correct [OF assms(1,2), of 12 h] assms(3) h by simp
  then have "dns_build_query (dotted_name ls) ident = Some (put16 (?p + 3) 1 (put16 (?p + 1) 1 (put ?p [0] (put 12 ?E h))), ?p + 5)"
    using ne by (simp add: dns_build_query_def h_def [symmetric] Let_def)
  moreover have "put16 (?p + 3) 1 (put16 (?p + 1) 1 (put ?p [0] (put 12 ?E h))) = put 12 (dns_question ls) h"
    using put_put [of 12 ?E "[0]" h] put_put [of 12 "?E @ [0]" "[0, 1]" h] put_put [of 12 "?E @ [0, 0, 1]" "[0, 1]" h] assms(3) h(1)
    by (simp add: put16_def bytes16_def dns_question_def add.assoc)
  moreover have "take (?p + 5) (put 12 (dns_question ls) h) = take 12 h @ dns_question ls"
    using take_put_all [of 12 "dns_question ls" h] assms(3) h(1) by (simp add: dns_question_def add.assoc)
  ultimately show ?thesis using h(2) assms(3) by simp
qed

text \<open>Skipping the name of the question.\<close>

lemma label_length_bits: "n \<le> 63 \<Longrightarrow> (word_of_nat n :: u8) AND 0xc0 = 0" "n \<le> 63 \<Longrightarrow> unat (word_of_nat n :: u8) = n"
proof -
  assume n: "n \<le> 63"
  then have u: "take_bit 6 n = n" by (simp only: take_bit_nat_eq_self_iff) simp
  have "(word_of_nat n :: u8) = word_of_nat (take_bit 6 n)" by (simp only: u)
  also have "\<dots> = take_bit 6 (word_of_nat n)" by (simp only: take_bit_of_nat)
  also have "\<dots> = word_of_nat n AND mask 6" by (simp only: take_bit_eq_mask)
  finally have "(word_of_nat n :: u8) AND 0xc0 = word_of_nat n AND (mask 6 AND 0xc0)" by (metis and.assoc)
  then show "(word_of_nat n :: u8) AND 0xc0 = 0" by (simp add: mask_eq_exp_minus_1)
  show "unat (word_of_nat n :: u8) = n" using n by (simp only: unat_of_nat) simp
qed

lemma fetch_append: "fetch (a @ b @ c) (length a) (length b) = Some b"
  by (simp add: fetch_def)

lemma dns_skip_labels:
  assumes "list_all label_ok ls" and "guard + length ls < length (pre @ enc_labels ls @ 0 # post)"
  shows "dns_skip_loop (pre @ enc_labels ls @ 0 # post) (length pre) guard = Some (Some (length pre + length (enc_labels ls) + 1))"
  using assms
proof (induction ls arbitrary: pre guard)
  case Nil
  have "get8 (pre @ 0 # post) (length pre) = Some 0" using fetch_append [of pre "[0]" post] by (simp add: get8_def)
  then show ?case using Nil by (subst dns_skip_loop.simps) simp
next
  case (Cons l ls)
  let ?w = "word_of_nat (length l) :: u8" and ?m = "pre @ enc_labels (l # ls) @ 0 # post"
  have l: "l \<noteq> []" "length l \<le> 63" using Cons.prems(1) by (simp_all add: label_ok_def)
  have g: "get8 ?m (length pre) = Some ?w" using fetch_append [of pre "[?w]" "l @ enc_labels ls @ 0 # post"] by (simp add: get8_def)
  note u = label_length_bits [OF l(2)]
  have "?w \<noteq> 0" using u(2) l(1) by (metis length_0_conv unat_0)
  then have "dns_skip_loop ?m (length pre) guard = dns_skip_loop ?m (length pre + 1 + length l) (guard + 1)"
    using g u Cons.prems(2) by (subst dns_skip_loop.simps) simp
  also have "\<dots> = Some (Some (length (pre @ ?w # l) + length (enc_labels ls) + 1))"
    using Cons.IH [of "guard + 1" "pre @ ?w # l"] Cons.prems by simp
  finally show ?case by simp
qed

text \<open>
  The answer of a server to such a question: the question, and one record of class IN and type A
  whose name is a pointer to that of the question.
\<close>

definition dns_reply :: "u16 \<Rightarrow> u8 list list \<Rightarrow> u32 \<Rightarrow> u32 \<Rightarrow> u8 list" where
  "dns_reply ident ls ttl ip = bytes16 ident @ [0x81, 0x80, 0, 1, 0, 1, 0, 0, 0, 0] @ dns_question ls @
     [0xc0, 0x0c, 0, 1, 0, 1] @ bytes32 ttl @ [0, 4] @ bytes32 ip"

lemma fetch_right: "fetch (a @ b) (length a + j) k = fetch b j k"
  by (simp add: fetch_def)

lemma be_right: "be16 (a @ b) (length a + j) = be16 b j" "be32 (a @ b) (length a + j) = be32 b j" "get8 (a @ b) (length a + j) = get8 b j"
  by (simp_all add: be16_def be32_def get8_def fetch_right)

lemma be_left: "j + 2 \<le> length a \<Longrightarrow> be16 (a @ b) j = be16 a j"
  by (simp add: be16_def fetch_def)

lemma join_bytes: "join16 (bytes16 v) = v" "join32 (bytes32 w) = w"
  using be_fetch(1) [of "bytes16 v" 0 v] be_fetch(2) [of "bytes32 w" 0 w]
  by (simp_all add: be16_def be32_def fetch_def)

lemma enc_labels_count: "length ls \<le> length (enc_labels ls)"
  by (induction ls) auto

lemma process_dns_reply:
  assumes ok: "list_all label_ok ls" and w: "\<not> dn_complete w" "dn_id w = ident"
  shows "process_dns w (dns_reply ident ls ttl ip) (dn_server w) DNS_PORT (dn_port w) = Some (w\<lparr>dn_answer := ip, dn_complete := True\<rparr>)"
proof -
  define h where "h = bytes16 ident @ [0x81, 0x80, 0, 1, 0, 1, 0, 0, 0, 0]"
  define t where "t = [0xc0, 0x0c, 0, 1, 0, 1] @ bytes32 ttl @ [0, 4] @ bytes32 ip"
  define m where "m = h @ enc_labels ls @ 0 # [0, 1, 0, 1] @ t"
  define p where "p = h @ dns_question ls"
  have h: "length h = 12" and t: "length t = 16" by (simp_all add: h_def t_def)
  have lm: "length m = 33 + length (enc_labels ls)" and lp: "length p = 17 + length (enc_labels ls)"
    using h t by (simp_all add: m_def p_def dns_question_def)
  have mp: "m = p @ t" and mr: "dns_reply ident ls ttl ip = m"
    by (simp_all add: m_def p_def dns_question_def dns_reply_def h_def t_def)
  have "be16 h 0 = Some ident" using be_fetch(1) [of h 0 ident] by (simp add: h_def fetch_def)
  moreover have "be16 h 2 = Some 0x8180" "be16 h 4 = Some 1" "be16 h 6 = Some 1"
    by (simp_all add: h_def be16_def fetch_def bytes16_def join16_def)
  ultimately have H: "be16 m 0 = Some ident" "be16 m 2 = Some 0x8180" "be16 m 4 = Some 1" "be16 m 6 = Some 1"
    using h by (simp_all add: m_def be_left)
  have "dns_skip_name m 12 = Some (Some (13 + length (enc_labels ls)))"
    using dns_skip_labels [OF ok, of 0 h "[0, 1, 0, 1] @ t"] h lm enc_labels_count [of ls] by (simp add: dns_skip_name_def m_def)
  then have q: "dns_questions m (unat (1 :: u16)) 12 = Some (Some (length p))" using lm lp by simp
  have T: "get8 t 0 = Some 0xc0" "be16 t 2 = Some 1" "be16 t 4 = Some 1" "be16 t 10 = Some 4"
    by (simp_all add: t_def get8_def be16_def fetch_def bytes32_def join16_def)
  have "be32 t 12 = Some ip" using be_fetch(2) [of t 12 ip] by (simp add: t_def fetch_def bytes32_def)
  then have M: "get8 m (length p) = Some 0xc0" "be16 m (length p + 2) = Some 1" "be16 m (length p + 4) = Some 1" "be16 m (length p + 10) = Some 4"
    "be32 m (length p + 12) = Some ip"
    using T be_right(3) [of p t 0] be_right(1) [of p t 2] be_right(1) [of p t 4] be_right(1) [of p t 10] be_right(2) [of p t 12] unfolding mp by simp_all
  have "dns_skip_name m (length p) = Some (Some (length p + 2))"
    using M(1) lm lp unfolding dns_skip_name_def by (subst dns_skip_loop.simps) simp
  then have "dns_answers m (unat (1 :: u16)) (length p) w = Some (w\<lparr>dn_answer := ip, dn_complete := True\<rparr>)"
    using M(2-5) lm lp by (simp add: Let_def add.assoc)
  then show ?thesis using H q w lm unfolding mr by (simp add: process_dns_def)
qed

text \<open>
  Resolving a name.  For every name of labels of letters, digits and hyphens, 1 to 63 bytes
  each and at most 495 bytes encoded, \<open>dns_build_query\<close> makes the standard query: header, labels
  with their lengths, type A, class IN.  When a server answers it with a record whose name is a
  compression pointer, \<open>process_dns\<close> takes the address from the record.
\<close>

lemma dns_query_answer:
  assumes "list_all label_ok ls" and "ls \<noteq> []" and "length (enc_labels ls) \<le> 495" and "\<not> dn_complete w"
  shows "(\<exists>buf n. dns_build_query (dotted_name ls) (dn_id w) = Some (buf, n) \<and> n \<le> 512 \<and>
      take n buf = bytes16 (dn_id w) @ [1, 0, 0, 1, 0, 0, 0, 0, 0, 0] @ enc_labels ls @ [0, 0, 1, 0, 1])
    \<and> process_dns w (dns_reply (dn_id w) ls ttl ip) (dn_server w) DNS_PORT (dn_port w) = Some (w\<lparr>dn_answer := ip, dn_complete := True\<rparr>)"
  using dns_query_bytes [OF assms(1-3), of "dn_id w"] process_dns_reply [OF assms(1,4) refl, of ttl ip] by (simp add: dns_question_def)

end
