(* ===== verification/Net_Requests.thy ===== *)
theory Net_Requests
  imports Net_Ops
begin

text \<open>
  What the requests of \<open>Net_Ops\<close> achieve: the waiting loops keep every property that single frames
  keep (a locale, interpreted for the configuration of the interface, for DHCP leases and for ping),
  so a ping that succeeds was answered and DHCP ends with a lease or without an address; and with a
  running clock every request returns.
\<close>

section \<open>What the waiting loops keep\<close>

text \<open>
  A property of an interface and the waiting requests that every received frame of a set keeps;
  a poll, and a loop of polls that delivers only such frames, keep it too and change no other
  interface.
\<close>

definition frames_of :: "net_state \<Rightarrow> u8 list set" where
  "frames_of s = \<Union> (set ` set (nt_polls s))"

locale frame_invariant =
  fixes P :: "net_iface \<Rightarrow> poll_ctx \<Rightarrow> bool" and F :: "u8 list set"
  assumes frame: "f \<in> F \<Longrightarrow> P x ctx \<Longrightarrow> process_frame_ctx x f ctx = Some (x', ctx', sent) \<Longrightarrow> P x' ctx'"
begin

lemma deliver_keeps: "set fs \<subseteq> F \<Longrightarrow> P x ctx \<Longrightarrow> deliver fs x ctx = Some (x', ctx', sent) \<Longrightarrow> P x' ctx'"
proof (induction fs arbitrary: x ctx sent)
  case (Cons f fs)
  then obtain y c u v where "process_frame_ctx x f ctx = Some (y, c, u)" "deliver fs y c = Some (x', ctx', v)"
    by (auto split: option.splits)
  then show ?case using Cons frame [of f x ctx y c u] by auto
qed simp

lemma poll_keeps:
  assumes p: "net_poll_iface i ctx s = Some (ctx', s')" and i: "i < length (nt_ifaces s)" and F: "frames_of s \<subseteq> F" and P: "P (nt_ifaces s ! i) ctx"
  shows "P (nt_ifaces s' ! i) ctx' \<and> nt_ifaces s' = (nt_ifaces s)[i := nt_ifaces s' ! i] \<and> frames_of s' \<subseteq> frames_of s \<and> nt_ticks s' = nt_ticks s"
proof (cases "ni_poll (nt_ifaces s ! i)")
  case True
  obtain fs r where q: "(case nt_polls s of [] \<Rightarrow> ([], []) | fs # r \<Rightarrow> (fs, r)) = (fs, r)" by fastforce
  then have "set fs \<subseteq> F" "\<Union> (set ` set r) \<subseteq> frames_of s" using F by (auto simp: frames_of_def split: list.splits)
  moreover obtain x c t where d: "deliver fs (nt_ifaces s ! i) ctx = Some (x, c, t)"
    "ctx' = c" "s' = s\<lparr>nt_ifaces := (nt_ifaces s)[i := x], nt_polls := r, nt_sent := nt_sent s @ t\<rparr>"
    using p True q by (auto simp: net_poll_iface_def)
  ultimately show ?thesis using deliver_keeps [OF _ P d(1)] i by (simp add: frames_of_def)
qed (use p P in \<open>simp add: net_poll_iface_def\<close>)

lemma loop_keeps:
  "poll_loop answered limit start i ts ctx s = Some (found, ctx', s') \<Longrightarrow> i < length (nt_ifaces s) \<Longrightarrow> frames_of s \<subseteq> F \<Longrightarrow> P (nt_ifaces s ! i) ctx \<Longrightarrow>
   P (nt_ifaces s' ! i) ctx' \<and> nt_ifaces s' = (nt_ifaces s)[i := nt_ifaces s' ! i] \<and> frames_of s' \<subseteq> frames_of s \<and> (found \<longrightarrow> answered (nt_ifaces s' ! i) ctx')"
proof (induction ts arbitrary: ctx s)
  case (Cons t ts)
  show ?case
  proof (cases "t - start < limit")
    case True
    let ?s = "s\<lparr>nt_ticks := ts\<rparr>"
    obtain c u where p: "net_poll_iface i ctx ?s = Some (c, u)" using Cons.prems(1) True by (auto split: option.splits)
    have k: "P (nt_ifaces u ! i) c" "nt_ifaces u = (nt_ifaces s)[i := nt_ifaces u ! i]" "frames_of u \<subseteq> frames_of s"
      using poll_keeps [OF p] Cons.prems(2-4) by (simp_all add: frames_of_def)
    show ?thesis
    proof (cases "answered (nt_ifaces u ! i) c")
      case True
      then show ?thesis using Cons.prems(1) \<open>t - start < limit\<close> p k by auto
    next
      case False
      then have l: "poll_loop answered limit start i ts c u = Some (found, ctx', s')" using Cons.prems(1) True p by simp
      have i: "i < length (nt_ifaces u)" using k(2) Cons.prems(2) by (metis length_list_update)
      have r: "P (nt_ifaces s' ! i) ctx'" "nt_ifaces s' = (nt_ifaces u)[i := nt_ifaces s' ! i]" "frames_of s' \<subseteq> frames_of u"
        "found \<longrightarrow> answered (nt_ifaces s' ! i) ctx'"
        using Cons.IH [OF l i _ k(1)] k(3) Cons.prems(3) by auto
      have "nt_ifaces s' = (nt_ifaces s)[i := nt_ifaces s' ! i]" using k(2) r(2) by (metis list_update_overwrite)
      then show ?thesis using r k(3) by blast
    qed
  qed (use Cons in \<open>auto simp: frames_of_def\<close>)
qed simp

lemmas until_keeps = loop_keeps [of _ _ _ _ "nt_ticks s" _ s for s, folded poll_until_def]

end

text \<open>Every result of an optional computation has a property.\<close>

definition opt_all :: "('a \<Rightarrow> bool) \<Rightarrow> 'a option \<Rightarrow> bool" where
  "opt_all Q m \<longleftrightarrow> (\<forall>r. m = Some r \<longrightarrow> Q r)"

lemma opt_allI:
  "(\<And>y. m = Some y \<Longrightarrow> opt_all Q (f y)) \<Longrightarrow> opt_all Q (Option.bind m f)"
  "(c \<Longrightarrow> opt_all Q m1) \<Longrightarrow> (\<not> c \<Longrightarrow> opt_all Q m2) \<Longrightarrow> opt_all Q (if c then m1 else m2)"
  "Q r \<Longrightarrow> opt_all Q (Some r)"
  "(\<And>y. m' = Some y \<Longrightarrow> Q (g y)) \<Longrightarrow> opt_all Q (map_option g m')"
  "(v = None \<Longrightarrow> opt_all Q m1) \<Longrightarrow> (\<And>y. v = Some y \<Longrightarrow> opt_all Q (h y)) \<Longrightarrow> opt_all Q (case v of None \<Rightarrow> m1 | Some y \<Rightarrow> h y)"
  "(\<And>a. u = Inl a \<Longrightarrow> opt_all Q (k1 a)) \<Longrightarrow> (\<And>b. u = Inr b \<Longrightarrow> opt_all Q (k2 b)) \<Longrightarrow> opt_all Q (case u of Inl a \<Rightarrow> k1 a | Inr b \<Rightarrow> k2 b)"
  "(\<And>a b. q = (a, b) \<Longrightarrow> opt_all Q (k a b)) \<Longrightarrow> opt_all Q (case q of (a, b) \<Rightarrow> k a b)"
  by (auto simp: opt_all_def bind_eq_Some_conv split: option.split prod.split sum.split)

lemma opt_allD: "opt_all Q m \<Longrightarrow> m = Some r \<Longrightarrow> Q r"
  by (simp add: opt_all_def)

text \<open>A frame changes nothing of the interface but its ARP cache.\<close>

definition same_config :: "net_iface \<Rightarrow> net_iface \<Rightarrow> bool" where
  "same_config x y \<longleftrightarrow> y = x\<lparr>ni_arp_ip := ni_arp_ip y, ni_arp_mac := ni_arp_mac y, ni_arp_valid := ni_arp_valid y\<rparr>"

lemma same_config_refl: "same_config x x"
  by (simp add: same_config_def)

lemma same_config_trans: "same_config x y \<Longrightarrow> same_config y z \<Longrightarrow> same_config x z"
  by (cases x; cases y; cases z) (simp add: same_config_def)

lemma same_config_fields: "same_config x y \<Longrightarrow> ni_ipv4 y = ni_ipv4 x \<and> ni_netmask y = ni_netmask x \<and> ni_gateway y = ni_gateway x \<and>
    ni_dns_server y = ni_dns_server x \<and> ni_mac y = ni_mac x \<and> ni_name y = ni_name x \<and> ni_up y = ni_up x \<and> ni_transmit y = ni_transmit x \<and> ni_poll y = ni_poll x"
  by (cases x; cases y) (simp add: same_config_def)

lemma process_arp_config: "opt_all (\<lambda>(x', sent). same_config x x') (process_arp x p)"
  unfolding process_arp_def by (intro opt_allI) (simp_all add: same_config_def)

lemma process_frame_cases:
  "opt_all (\<lambda>(x', ctx', sent). (x' = x \<or> process_arp x (drop 14 f) = Some (x', sent)) \<and>
    (ctx' = ctx \<or> 14 \<le> length f \<and> be16 f 12 = Some ETH_TYPE_IPV4 \<and> process_ipv4 x (drop 14 f) ctx = Some ctx')) (process_frame_ctx x f ctx)"
  unfolding process_frame_ctx_def by (intro opt_allI) (simp_all split: prod.split)

lemma process_frame_config: "process_frame_ctx x f ctx = Some (x', ctx', sent) \<Longrightarrow> same_config x x'"
  using opt_allD [OF process_frame_cases] opt_allD [OF process_arp_config] same_config_refl by fastforce

interpretation config: frame_invariant "\<lambda>x ctx. same_config x0 x" UNIV for x0
  by unfold_locales (blast intro: same_config_trans process_frame_config)

section \<open>What an answer proves\<close>

text \<open>A complete DHCP exchange has an address and a mask.\<close>

definition lease_ok :: "dhcp_wait \<Rightarrow> bool" where
  "lease_ok d \<longleftrightarrow> (dw_complete d \<longrightarrow> dw_offered_ip d \<noteq> 0 \<and> dw_netmask d \<noteq> 0)"

definition dhcp_inv :: "poll_ctx \<Rightarrow> bool" where
  "dhcp_inv ctx \<longleftrightarrow> (\<exists>d. pc_dhcp ctx = Some d \<and> lease_ok d)"

lemma process_dhcp_lease: "lease_ok d \<Longrightarrow> opt_all lease_ok (process_dhcp d p sp dp)"
  unfolding process_dhcp_def by (intro opt_allI) (simp_all add: lease_ok_def ipv4_make_def)

lemma process_dhcp_keeps: "process_dhcp d p sp dp = Some d' \<Longrightarrow> lease_ok d \<Longrightarrow> lease_ok d'"
  using opt_allD [OF process_dhcp_lease] by blast

lemma process_udp_dhcp: "dhcp_inv ctx \<Longrightarrow> opt_all dhcp_inv (process_udp p ip ctx)"
  unfolding process_udp_def
  by (intro opt_allI) (auto simp: dhcp_inv_def option_step_def, rule process_dhcp_keeps)

lemma process_ipv4_dhcp: "dhcp_inv ctx \<Longrightarrow> opt_all dhcp_inv (process_ipv4 x p ctx)"
  unfolding process_ipv4_def Let_def
  by (intro opt_allI process_udp_dhcp) (simp_all add: dhcp_inv_def)

lemma process_frame_dhcp: "dhcp_inv ctx \<Longrightarrow> process_frame_ctx x f ctx = Some (x', ctx', sent) \<Longrightarrow> dhcp_inv ctx'"
  using opt_allD [OF process_frame_cases] opt_allD [OF process_ipv4_dhcp] by fastforce

interpretation lease: frame_invariant "\<lambda>x ctx. dhcp_inv ctx" UNIV
  by unfold_locales (blast intro: process_frame_dhcp)

text \<open>An echo reply from an address, for an identifier and a sequence number.\<close>

definition echo_reply :: "u8 list \<Rightarrow> u32 \<Rightarrow> u16 \<Rightarrow> u16 \<Rightarrow> bool" where
  "echo_reply f src ident sequence \<longleftrightarrow>
     be16 f 12 = Some ETH_TYPE_IPV4 \<and> get8 f 23 = Some IP_PROTO_ICMP \<and> be32 f 26 = Some src \<and>
     (let icmp = drop (14 + unat (f ! 14 AND 0x0f) * 4) f in get8 icmp 0 = Some 0 \<and> be16 icmp 4 = Some ident \<and> be16 icmp 6 = Some sequence)"

definition ping_inv :: "u32 \<Rightarrow> u16 \<Rightarrow> u16 \<Rightarrow> u8 list set \<Rightarrow> poll_ctx \<Rightarrow> bool" where
  "ping_inv src ident sequence F ctx \<longleftrightarrow> (\<exists>p. pc_ping ctx = Some p \<and> pw_target p = src \<and> pw_id p = ident \<and> pw_sequence p = sequence \<and>
     (pw_complete p \<longrightarrow> (\<exists>f \<in> F. echo_reply f src ident sequence)))"

lemma process_udp_ping: "opt_all (\<lambda>c. pc_ping c = pc_ping ctx) (process_udp p ip ctx)"
  unfolding process_udp_def by (intro opt_allI) simp_all

lemma process_icmp_reply:
  "opt_all (\<lambda>q. q = p \<or> q = p\<lparr>pw_complete := True\<rparr> \<and> get8 icmp 0 = Some 0 \<and> be16 icmp 4 = Some (pw_id p) \<and> be16 icmp 6 = Some (pw_sequence p) \<and> ip = pw_target p)
    (process_icmp icmp ip p)"
  unfolding process_icmp_def by (intro opt_allI) simp_all

lemma process_ipv4_ping:
  "opt_all (\<lambda>c. pc_ping c = pc_ping ctx \<or>
     (\<exists>p q src. pc_ping ctx = Some p \<and> pc_ping c = Some q \<and> get8 b 9 = Some IP_PROTO_ICMP \<and> be32 b 12 = Some src \<and>
       process_icmp (drop (unat (b ! 0 AND 0x0f) * 4) b) src p = Some q)) (process_ipv4 x b ctx)"
  unfolding process_ipv4_def Let_def
proof (intro opt_allI)
  fix vihl dst src proto q
  assume "get8 b 0 = Some vihl" "be32 b 12 = Some src" "get8 b 9 = Some proto" "proto = IP_PROTO_ICMP"
    "option_step (process_icmp (drop (unat (vihl AND 0x0f) * 4) b) src) (pc_ping ctx) = Some q"
  moreover have "b ! 0 = vihl" if "get8 b 0 = Some vihl" using that by (cases b) (auto simp: get8_def fetch_def split: if_splits)
  ultimately show "pc_ping (ctx\<lparr>pc_ping := q\<rparr>) = pc_ping ctx \<or>
     (\<exists>p q' s. pc_ping ctx = Some p \<and> pc_ping (ctx\<lparr>pc_ping := q\<rparr>) = Some q' \<and> get8 b 9 = Some IP_PROTO_ICMP \<and> be32 b 12 = Some s \<and>
       process_icmp (drop (unat (b ! 0 AND 0x0f) * 4) b) s p = Some q')"
    by (auto simp: option_step_def split: option.splits)
qed (use opt_allD [OF process_udp_ping] in \<open>auto simp: opt_all_def\<close>)

lemma process_frame_ping:
  assumes "f \<in> F" and "ping_inv src ident sequence F ctx" and "process_frame_ctx x f ctx = Some (x', ctx', sent)"
  shows "ping_inv src ident sequence F ctx'"
proof (cases "pc_ping ctx' = pc_ping ctx")
  case False
  have c: "14 \<le> length f" "be16 f 12 = Some ETH_TYPE_IPV4" "process_ipv4 x (drop 14 f) ctx = Some ctx'"
    using opt_allD [OF process_frame_cases assms(3)] False by auto
  obtain p q s where p: "pc_ping ctx = Some p" "pc_ping ctx' = Some q" "get8 (drop 14 f) 9 = Some IP_PROTO_ICMP" "be32 (drop 14 f) 12 = Some s"
    "process_icmp (drop (unat (drop 14 f ! 0 AND 0x0f) * 4) (drop 14 f)) s p = Some q"
    using opt_allD [OF process_ipv4_ping c(3)] False by blast
  have d: "get8 f 23 = Some IP_PROTO_ICMP" "be32 f 26 = Some s" "drop 14 f ! 0 = f ! 14"
    using p(3,4) c(1) by (simp_all add: get8_def be32_def fetch_drop)
  have "q = p \<or> q = p\<lparr>pw_complete := True\<rparr> \<and> echo_reply f src ident sequence \<and> f \<in> F"
    using opt_allD [OF process_icmp_reply p(5)] assms(1,2) c(2) d p(1) by (auto simp: echo_reply_def ping_inv_def Let_def add.commute)
  then show ?thesis using assms(2) p(1,2) by (auto simp: ping_inv_def)
qed (use assms(2) in \<open>simp add: ping_inv_def\<close>)

interpretation ping: frame_invariant "\<lambda>x ctx. ping_inv src ident sequence F ctx" F for src ident sequence F
  by unfold_locales (rule process_frame_ping)

lemma find_iface_some: "find_iface P xs k = Some i \<Longrightarrow> k \<le> i \<and> i < k + length xs \<and> P (xs ! (i - k)) \<and> (\<forall>j < i - k. \<not> P (xs ! j))"
proof (induction xs arbitrary: k)
  case (Cons x xs)
  show ?case
  proof (cases "P x")
    case False
    then have r: "Suc k \<le> i \<and> i < Suc k + length xs \<and> P (xs ! (i - Suc k)) \<and> (\<forall>j < i - Suc k. \<not> P (xs ! j))" using Cons.IH [of "Suc k"] Cons.prems by simp
    then have "(x # xs) ! (i - k) = xs ! (i - Suc k)" by (simp add: nth_Cons')
    moreover have "\<not> P ((x # xs) ! j)" if "j < i - k" for j using r that False by (cases j) auto
    ultimately show ?thesis using r by auto
  qed (use Cons.prems in auto)
qed simp

lemma net_iface_find_index: "net_iface_find s name = Some i \<Longrightarrow> i < length (nt_ifaces s) \<and> ni_name (nt_ifaces s ! i) = name"
  using find_iface_some [of _ "nt_ifaces s" 0 i] unfolding net_iface_find_def by fastforce

lemma route_for_index: "route_for s ip = Some i \<Longrightarrow> i < length (nt_ifaces s) \<and> route_ok ip (nt_ifaces s ! i)"
  using find_iface_some [of _ "nt_ifaces s" 0 i] unfolding route_for_def by fastforce

text \<open>Between two states: only the interface's cache, the clock and the scripts have moved.\<close>

definition moved :: "nat \<Rightarrow> net_state \<Rightarrow> net_state \<Rightarrow> bool" where
  "moved i s s' \<longleftrightarrow> nt_ifaces s' = (nt_ifaces s)[i := nt_ifaces s' ! i] \<and> same_config (nt_ifaces s ! i) (nt_ifaces s' ! i) \<and> frames_of s' \<subseteq> frames_of s"

lemma moved_refl: "moved i s s"
  by (simp add: moved_def same_config_refl)

lemma moved_trans: "moved i s s' \<Longrightarrow> moved i s' s'' \<Longrightarrow> moved i s s''"
  unfolding moved_def using same_config_trans by (metis list_update_overwrite subset_trans)

lemma moved_length: "moved i s s' \<Longrightarrow> length (nt_ifaces s') = length (nt_ifaces s)"
  unfolding moved_def by (metis length_list_update)

lemma pit_ticks_moved: "pit_ticks s = Some (t, s') \<Longrightarrow> moved i s s'"
  by (auto simp: pit_ticks_def moved_def frames_of_def same_config_refl split: list.splits)

lemma transmit_moved: "transmit tx f s = (rc, s') \<Longrightarrow> moved i s s'"
  by (auto simp: transmit_def moved_def frames_of_def same_config_refl)

lemma poll_until_moved:
  "poll_until answered limit start i ctx s = Some (found, ctx', s') \<Longrightarrow> i < length (nt_ifaces s) \<Longrightarrow>
   moved i s s' \<and> (found \<longrightarrow> answered (nt_ifaces s' ! i) ctx')"
  using config.until_keeps [of answered limit start i ctx s found ctx' s' "nt_ifaces s ! i"] by (simp add: moved_def same_config_refl)

lemma resolve_mac_moved:
  assumes "i < length (nt_ifaces s)"
  shows "opt_all (\<lambda>(m, s'). moved i s s') (resolve_mac tx i ip s)"
proof -
  have "moved i s s3" if "transmit tx f s = (rc, s1)" "pit_ticks s1 = Some (t, s2)" "poll_until a l st i c s2 = Some (b, c', s3)" for f rc s1 t s2 a l st c b c' s3
    using that transmit_moved [OF that(1), of i] pit_ticks_moved [OF that(2), of i] poll_until_moved [OF that(3)] moved_trans moved_length assms by metis
  then show ?thesis unfolding resolve_mac_def Let_def
    by (intro opt_allI) (auto simp: moved_refl intro: transmit_moved)
qed

text \<open>
  C24: ping does not lie.  When \<open>net_ping4\<close> returns 0 for an address other than 127.0.0.1, the driver
  delivered, while it waited, an ICMP echo reply from that address with the identifier 0x544e and
  the sequence number asked for.
\<close>

theorem net_ping4_sound:
  assumes "net_ping4 tx ip sequence want s = Some (0, latency, s')" and "ip \<noteq> ipv4_make 127 0 0 1"
  shows "\<exists>f \<in> frames_of s. echo_reply f ip 0x544e sequence"
proof -
  let ?goal = "\<exists>f \<in> frames_of s. echo_reply f ip 0x544e sequence"
  let ?ctx = "idle\<lparr>pc_ping := Some \<lparr>pw_target = ip, pw_id = 0x544e, pw_sequence = sequence, pw_complete = False\<rparr>\<rparr>"
  have answer: "?goal"
    if r: "route_for s ip = Some i" "resolve_mac tx i hop s = Some (mac, s1)" "pit_ticks s1 = Some (t, s2)" "transmit tx f s2 = (rc, s3)"
      "poll_until ping_answered 300 t i ?ctx s3 = Some (True, c, s4)" for i hop mac s1 t s2 f rc s3 c s4
  proof -
    have i: "i < length (nt_ifaces s)" using route_for_index [OF r(1)] by simp
    have "moved i s s1" using opt_allD [OF resolve_mac_moved [OF i] r(2)] by simp
    then have m: "moved i s s3" using pit_ticks_moved [OF r(3), of i] transmit_moved [OF r(4), of i] moved_trans by blast
    have "ping_inv ip 0x544e sequence (frames_of s) c \<and> ping_answered (nt_ifaces s4 ! i) c"
      using ping.until_keeps [OF r(5), where F = "frames_of s" and src = ip and ident = "0x544e" and sequence = sequence] m i moved_length [OF m]
      by (simp add: moved_def ping_inv_def)
    then show ?goal by (auto simp: ping_inv_def ping_answered_def)
  qed
  have "opt_all (\<lambda>(rc, lat, s'). rc = 0 \<longrightarrow> ?goal) (net_ping4 tx ip sequence want s)"
    unfolding net_ping4_def Let_def by (intro opt_allI) (use assms(2) in \<open>auto dest: answer\<close>)
  then show ?thesis using opt_allD [OF _ assms(1)] by fastforce
qed

lemma dhcp_exchange_ok:
  assumes i: "i < length (nt_ifaces s)"
  shows "opt_all (\<lambda>(r, s'). moved i s s' \<and> (\<forall>d. r = Inr d \<longrightarrow> dw_offered_ip d \<noteq> 0 \<and> dw_netmask d \<noteq> 0))
    (dhcp_exchange tx i msg_type expected xid rip sid s)"
proof -
  have ok: "moved i s s3 \<and> (b \<longrightarrow> dw_offered_ip (the (pc_dhcp c)) \<noteq> 0 \<and> dw_netmask (the (pc_dhcp c)) \<noteq> 0)"
    if "transmit tx f s = (rc, s1)" "pit_ticks s1 = Some (t, s2)"
      "poll_until dhcp_answered 500 t i (idle\<lparr>pc_dhcp := Some \<lparr>dw_xid = xid, dw_expected_type = expected, dw_offered_ip = 0, dw_server_id = 0,
         dw_netmask = 0, dw_gateway = 0, dw_dns_server = 0, dw_complete = False\<rparr>\<rparr>) s2 = Some (b, c, s3)" for f rc s1 t s2 b c s3
  proof -
    have m: "moved i s s2" using transmit_moved [OF that(1), of i] pit_ticks_moved [OF that(2), of i] moved_trans by blast
    then have i2: "i < length (nt_ifaces s2)" using i moved_length by simp
    have p: "moved i s2 s3" "b \<longrightarrow> dhcp_answered (nt_ifaces s3 ! i) c" using poll_until_moved [OF that(3) i2] by simp_all
    have "dhcp_inv c" using lease.until_keeps [OF that(3) i2] by (simp add: dhcp_inv_def lease_ok_def)
    then show ?thesis using moved_trans [OF m p(1)] p(2) by (auto simp: dhcp_inv_def lease_ok_def dhcp_answered_def)
  qed
  show ?thesis unfolding dhcp_exchange_def Let_def
    by (intro opt_allI) (auto simp: moved_refl intro: transmit_moved dest: ok)
qed

text \<open>
  The outcome of DHCP.  \<open>net_iface_dhcp\<close> returns -1 and changes nothing; or it changes only the
  interface it was called for, whose hardware address it keeps, and either returns 0 with an
  address and a mask configured that are not 0, or returns -2 to -5 and leaves the interface
  without address, gateway and DNS server, whatever it had before the call.
\<close>

lemma net_iface_dhcp_outcome:
  assumes "net_iface_dhcp tx name s = Some (rc, s')"
  shows "rc = -1 \<and> s' = s \<or>
    (\<exists>i x. net_iface_find s name = Some i \<and> nt_ifaces s' = (nt_ifaces s)[i := x] \<and> ni_mac x = ni_mac (nt_ifaces s ! i) \<and>
       (rc = 0 \<and> ni_ipv4 x \<noteq> 0 \<and> ni_netmask x \<noteq> 0 \<and> \<not> ni_arp_valid x \<or>
        rc \<in> {-2, -3, -4, -5} \<and> ni_ipv4 x = 0 \<and> ni_gateway x = 0 \<and> ni_dns_server x = 0))"
proof -
  define off where "off = (\<lambda>x :: net_iface. x\<lparr>ni_ipv4 := 0, ni_gateway := 0, ni_dns_server := 0, ni_arp_valid := False\<rparr>)"
  let ?down = "\<lambda>i s'. \<exists>x. nt_ifaces s' = (nt_ifaces s)[i := x] \<and> ni_mac x = ni_mac (nt_ifaces s ! i) \<and> ni_ipv4 x = 0 \<and> ni_gateway x = 0 \<and> ni_dns_server x = 0"
  have first: "?down i s2 \<and> i < length (nt_ifaces s2)"
    if h: "net_iface_find s name = Some i" "pit_ticks s = Some (t, s1)" "dhcp_exchange tx i a b xid c d (set_iface i off s1) = Some (r, s2)" for i t s1 a b xid c d r s2
  proof -
    have i: "i < length (nt_ifaces s)" using net_iface_find_index [OF h(1)] by simp
    have s1: "nt_ifaces s1 = nt_ifaces s" using h(2) by (auto simp: pit_ticks_def split: list.splits)
    have "moved i (set_iface i off s1) s2" using opt_allD [OF dhcp_exchange_ok h(3)] i s1 by (simp add: set_iface_def)
    then have "nt_ifaces s2 = (nt_ifaces s)[i := nt_ifaces s2 ! i]" "same_config (off (nt_ifaces s ! i)) (nt_ifaces s2 ! i)"
      using i s1 by (simp_all add: moved_def set_iface_def)
    then show ?thesis using i same_config_fields [of "off (nt_ifaces s ! i)" "nt_ifaces s2 ! i"]
      by (intro conjI exI [of _ "nt_ifaces s2 ! i"]) (simp_all add: off_def, metis length_list_update)
  qed
  have second: "?down i s3 \<and> i < length (nt_ifaces s3) \<and> (\<forall>k. r' = Inr k \<longrightarrow> dw_offered_ip k \<noteq> 0 \<and> dw_netmask k \<noteq> 0)"
    if h: "net_iface_find s name = Some i" "pit_ticks s = Some (t, s1)" "dhcp_exchange tx i 1 2 xid 0 0 (set_iface i off s1) = Some (r, s2)"
      "dhcp_exchange tx i 3 5 xid c d s2 = Some (r', s3)" for i t s1 xid c d r s2 r' s3
  proof -
    obtain x where x: "nt_ifaces s2 = (nt_ifaces s)[i := x]" "ni_mac x = ni_mac (nt_ifaces s ! i)" "ni_ipv4 x = 0" "ni_gateway x = 0" "ni_dns_server x = 0"
      and i: "i < length (nt_ifaces s2)" using first [OF h(1-3)] by blast
    have m: "moved i s2 s3" "\<forall>k. r' = Inr k \<longrightarrow> dw_offered_ip k \<noteq> 0 \<and> dw_netmask k \<noteq> 0"
      using opt_allD [OF dhcp_exchange_ok [OF i] h(4)] by simp_all
    then have "nt_ifaces s3 = (nt_ifaces s)[i := nt_ifaces s3 ! i]" "same_config x (nt_ifaces s3 ! i)"
      using x(1) i by (simp_all add: moved_def)
    then show ?thesis using x(2-5) i m same_config_fields [of x "nt_ifaces s3 ! i"] moved_length [OF m(1)]
      by (intro conjI exI [of _ "nt_ifaces s3 ! i"]) simp_all
  qed
  let ?Q = "\<lambda>F rc s'. rc = -1 \<and> s' = s \<or>
    (\<exists>i x. F = Some i \<and> nt_ifaces s' = (nt_ifaces s)[i := x] \<and> ni_mac x = ni_mac (nt_ifaces s ! i) \<and>
       (rc = 0 \<and> ni_ipv4 x \<noteq> 0 \<and> ni_netmask x \<noteq> 0 \<and> \<not> ni_arp_valid x \<or>
        rc \<in> {-2, -3, -4, -5} \<and> ni_ipv4 x = 0 \<and> ni_gateway x = 0 \<and> ni_dns_server x = 0))"
  have fail: "?Q F rc s'" if "F = Some i" "?down i s'" "rc \<in> {-2, -3, -4, -5}" for F i s' and rc :: int
    using that by blast
  have leased: "?Q F 0 (set_iface i (\<lambda>x. x\<lparr>ni_ipv4 := dw_offered_ip k, ni_netmask := dw_netmask k, ni_gateway := dw_gateway k,
      ni_dns_server := dw_dns_server k, ni_arp_valid := False\<rparr>) s3)"
    if "F = Some i" "?down i s3 \<and> i < length (nt_ifaces s3) \<and> (\<forall>k. r' = Inr k \<longrightarrow> dw_offered_ip k \<noteq> 0 \<and> dw_netmask k \<noteq> 0)" "r' = Inr k" for F i s3 r' k
    using that by (auto simp: set_iface_def)
  have "opt_all (\<lambda>(rc, s'). ?Q (net_iface_find s name) rc s') (net_iface_dhcp tx name s)"
    unfolding net_iface_dhcp_def Let_def off_def [symmetric]
    apply (intro opt_allI; hypsubst?; simp only: prod.case; (simp; fail)?)
    apply (rule fail, rule refl, rule first [THEN conjunct1], assumption+, simp)
    apply (rule fail, rule refl, rule second [THEN conjunct1], assumption+, simp)
    apply (rule leased, rule refl, rule second, assumption+, rule refl)
    done
  then show ?thesis using opt_allD [OF _ assms] by fastforce
qed

section \<open>Every request ends\<close>

text \<open>
  A running clock: successive reads are equal or one tick apart.  \<open>elapsed\<close> counts the ticks.
\<close>

fun steady :: "u64 list \<Rightarrow> bool" where
  "steady (t # u # ts) \<longleftrightarrow> (u = t \<or> u = t + 1) \<and> steady (u # ts)"
| "steady _ \<longleftrightarrow> True"

fun elapsed :: "u64 list \<Rightarrow> nat" where
  "elapsed (t # u # ts) = (if u = t then 0 else 1) + elapsed (u # ts)"
| "elapsed _ = 0"

definition clock_at :: "u64 \<Rightarrow> nat \<Rightarrow> net_state \<Rightarrow> bool" where
  "clock_at l n s \<longleftrightarrow> steady (l # nt_ticks s) \<and> n \<le> elapsed (l # nt_ticks s)"

lemma clock_at_less: "clock_at l n s \<Longrightarrow> m \<le> n \<Longrightarrow> clock_at l m s"
  by (simp add: clock_at_def)

lemma pit_ticks_clock:
  assumes "clock_at l (Suc n) s"
  obtains t s' where "pit_ticks s = Some (t, s')" "clock_at t n s'"
  using assms by (cases "nt_ticks s") (auto simp: clock_at_def pit_ticks_def split: if_splits)

lemma transmit_clock: "transmit tx f s = (rc, s') \<Longrightarrow> clock_at l n s' = clock_at l n s"
  by (auto simp: transmit_def clock_at_def)

lemma deliver_total: "\<exists>x' ctx' sent. deliver fs x ctx = Some (x', ctx', sent)"
proof (induction fs arbitrary: x ctx)
  case (Cons f fs)
  obtain r where "process_frame_ctx x f ctx = Some r" using process_frame_safe by blast
  moreover obtain y where "deliver fs (fst r) (fst (snd r)) = Some y" using Cons by blast
  ultimately show ?case by (cases r; cases y) simp
qed simp

lemma net_poll_total: "\<exists>ctx' s'. net_poll_iface i ctx s = Some (ctx', s') \<and> nt_ticks s' = nt_ticks s"
proof -
  obtain fs r where "(case nt_polls s of [] \<Rightarrow> ([], []) | fs # r \<Rightarrow> (fs, r)) = (fs, r)" by fastforce
  then show ?thesis using deliver_total [of fs "nt_ifaces s ! i" ctx] by (auto simp: net_poll_iface_def)
qed

lemma tick_diff:
  assumes "unat (l - start :: u64) < n" "n < 2 ^ 63"
  shows "unat (l + 1 - start) = Suc (unat (l - start))"
proof -
  have "unat (l - start) + 1 < 2 ^ 64" using assms by simp
  then have "unat ((l - start) + 1) = unat (l - start) + 1" by (subst unat_plus_if') simp
  then show ?thesis by (simp add: algebra_simps)
qed

lemma poll_loop_ends:
  assumes "unat limit < 2 ^ 63"
  shows "steady (l # ts) \<Longrightarrow> unat (l - start) < unat limit \<Longrightarrow> unat limit - unat (l - start) + n \<le> elapsed (l # ts) \<Longrightarrow> ts \<noteq> [] \<Longrightarrow>
    \<exists>r ctx' s' l'. poll_loop answered limit start i ts ctx s = Some (r, ctx', s') \<and> clock_at l' n s'"
proof (induction ts arbitrary: l ctx s)
  case (Cons t ts)
  have t: "t = l \<or> t = l + 1" "steady (t # ts)" using Cons.prems(1) by auto
  show ?case
  proof (cases "t - start < limit")
    case False
    have "t = l + 1 \<longrightarrow> unat (t - start) = Suc (unat (l - start))"
      using tick_diff [of l start "unat limit"] assms Cons.prems(2) by blast
    then have "n \<le> elapsed (t # ts)" using False t(1) Cons.prems(2,3) by (auto simp: word_less_nat_alt split: if_splits)
    then show ?thesis using False t(2) by (auto simp: clock_at_def)
  next
    case True
    obtain c u where p: "net_poll_iface i ctx (s\<lparr>nt_ticks := ts\<rparr>) = Some (c, u)" "nt_ticks u = ts" using net_poll_total by fastforce
    have k: "unat (t - start) < unat limit" "unat limit - unat (t - start) + n \<le> elapsed (t # ts)"
      using True t(1) tick_diff [of l start "unat limit"] assms Cons.prems(2,3) by (auto simp: word_less_nat_alt split: if_splits)
    then have ne: "ts \<noteq> []" using True by (cases ts) (auto simp: word_less_nat_alt)
    show ?thesis
    proof (cases "answered (nt_ifaces u ! i) c")
      case True
      then show ?thesis using \<open>t - start < limit\<close> p t(2) k by (auto simp: clock_at_def)
    next
      case False
      then show ?thesis using Cons.IH [OF t(2) k ne, of c u] True p by simp
    qed
  qed
qed simp

text \<open>A computation that returns, with a property of its result.\<close>

definition opt_ok :: "('a \<Rightarrow> bool) \<Rightarrow> 'a option \<Rightarrow> bool" where
  "opt_ok Q m \<longleftrightarrow> (\<exists>r. m = Some r \<and> Q r)"

lemma opt_okI:
  "Q r \<Longrightarrow> opt_ok Q (Some r)"
  "(c \<Longrightarrow> opt_ok Q m1) \<Longrightarrow> (\<not> c \<Longrightarrow> opt_ok Q m2) \<Longrightarrow> opt_ok Q (if c then m1 else m2)"
  "(v = None \<Longrightarrow> opt_ok Q m1) \<Longrightarrow> (\<And>y. v = Some y \<Longrightarrow> opt_ok Q (h y)) \<Longrightarrow> opt_ok Q (case v of None \<Rightarrow> m1 | Some y \<Rightarrow> h y)"
  "(\<And>a. u = Inl a \<Longrightarrow> opt_ok Q (k1 a)) \<Longrightarrow> (\<And>b. u = Inr b \<Longrightarrow> opt_ok Q (k2 b)) \<Longrightarrow> opt_ok Q (case u of Inl a \<Rightarrow> k1 a | Inr b \<Rightarrow> k2 b)"
  "(\<And>a b. q = (a, b) \<Longrightarrow> opt_ok Q (k a b)) \<Longrightarrow> opt_ok Q (case q of (a, b) \<Rightarrow> k a b)"
  by (auto simp: opt_ok_def split: option.split prod.split sum.split)

lemma opt_ok_bind: "opt_ok R m \<Longrightarrow> (\<And>y. R y \<Longrightarrow> opt_ok Q (f y)) \<Longrightarrow> opt_ok Q (Option.bind m f)"
  by (auto simp: opt_ok_def)

definition ticking :: "nat \<Rightarrow> net_state \<Rightarrow> bool" where
  "ticking n s \<longleftrightarrow> (\<exists>l. clock_at l n s)"

lemma ticking_less: "ticking n s \<Longrightarrow> m \<le> n \<Longrightarrow> ticking m s"
  unfolding ticking_def using clock_at_less by blast

lemma transmit_ticking: "transmit tx f s = (rc, s') \<Longrightarrow> ticking n s \<Longrightarrow> ticking n s'"
  using transmit_clock by (auto simp: ticking_def)

lemma set_iface_ticking: "clock_at l n (set_iface i f s) = clock_at l n s"
  by (simp add: clock_at_def set_iface_def)

lemma bind_pit:
  assumes "ticking (Suc n) s" and "\<And>t s'. clock_at t n s' \<Longrightarrow> opt_ok Q (f (t, s'))"
  shows "opt_ok Q (Option.bind (pit_ticks s) f)"
proof -
  obtain t s' where "pit_ticks s = Some (t, s')" "clock_at t n s'" using assms(1) pit_ticks_clock unfolding ticking_def by metis
  then show ?thesis using assms(2) by simp
qed

lemma bind_until:
  assumes "clock_at l (unat limit + n) s" and "0 < limit" and "unat limit < 2 ^ 63"
    and "\<And>r c s'. ticking n s' \<Longrightarrow> opt_ok Q (f (r, c, s'))"
  shows "opt_ok Q (Option.bind (poll_until answered limit l i ctx s) f)"
proof -
  have z: "0 < unat limit" using assms(2) by (simp add: word_less_nat_alt)
  then have "nt_ticks s \<noteq> []" using assms(1) by (auto simp: clock_at_def)
  then obtain r c s' where "poll_until answered limit l i ctx s = Some (r, c, s')" "ticking n s'"
    unfolding ticking_def using poll_loop_ends [OF assms(3), of l "nt_ticks s" l n answered i ctx s] assms(1) z by (fastforce simp: clock_at_def poll_until_def)
  then show ?thesis using assms(4) by simp
qed

lemma resolve_mac_ends:
  assumes "ticking (201 + n) s"
  shows "opt_ok (\<lambda>(m, s'). ticking n s') (resolve_mac tx i ip s)"
proof -
  have "ticking n s" using assms ticking_less by simp
  moreover have "opt_ok (\<lambda>(m, s'). ticking n s') (do { (start, s) \<leftarrow> pit_ticks s'; (found, _, s) \<leftarrow> poll_until a 200 start i c s; Some (g found s, s) })"
    if "transmit tx f s = (rc, s')" for f rc s' a c and g :: "bool \<Rightarrow> net_state \<Rightarrow> u8 list option"
  proof (rule bind_pit)
    show "ticking (Suc (200 + n)) s'" using transmit_ticking [OF that assms] by simp
  next
    fix t u assume "clock_at t (200 + n) u"
    then show "opt_ok (\<lambda>(m, s'). ticking n s') (case (t, u) of (start, s) \<Rightarrow> do { (found, _, s) \<leftarrow> poll_until a 200 start i c s; Some (g found s, s) })"
      unfolding prod.case by (intro bind_until [where n = n]) (simp_all add: opt_okI)
  qed
  ultimately show ?thesis unfolding resolve_mac_def Let_def
    by (intro opt_okI) (auto intro: transmit_ticking)
qed

lemma dhcp_exchange_ends:
  assumes "ticking (501 + n) s"
  shows "opt_ok (\<lambda>(r, s'). ticking n s') (dhcp_exchange tx i mt ex xid rip sid s)"
  unfolding dhcp_exchange_def Let_def
proof (intro opt_okI)
  fix f rc s'
  assume "transmit tx f s = (rc, s')"
  then have t: "ticking (Suc (500 + n)) s'" using assms transmit_ticking by simp
  show "opt_ok (\<lambda>(r, s'). ticking n s') (do { (start, s) \<leftarrow> pit_ticks s';
      (found, ctx, s) \<leftarrow> poll_until dhcp_answered 500 start i (idle\<lparr>pc_dhcp := Some \<lparr>dw_xid = xid, dw_expected_type = ex, dw_offered_ip = 0,
        dw_server_id = 0, dw_netmask = 0, dw_gateway = 0, dw_dns_server = 0, dw_complete = False\<rparr>\<rparr>) s;
      Some (if found then Inr (the (pc_dhcp ctx)) else Inl True, s) })"
    by (rule bind_pit [OF t], unfold prod.case) (intro bind_until [where n = n]; simp add: opt_okI)
qed (use assms ticking_less transmit_ticking in fastforce)+

lemma pit_ticks_ok: "ticking 1 s \<Longrightarrow> opt_ok (\<lambda>_. True) (map_option g (pit_ticks s))"
  using pit_ticks_clock [of _ 0 s] by (fastforce simp: ticking_def opt_ok_def)

lemma net_ping4_ends:
  assumes "ticking 503 s"
  shows "opt_ok (\<lambda>_. True) (net_ping4 tx ip sequence want s)"
  unfolding net_ping4_def Let_def
  apply (intro opt_okI opt_ok_bind [OF resolve_mac_ends [of 302]]; (simp add: assms; fail)?)
  apply (simp only: prod.case)
  apply (rule bind_pit [where n = 301], simp)
  apply (simp only: prod.case)
  apply (intro opt_okI; (simp; fail)?)
  apply (rule bind_until [where n = 1]; simp add: transmit_clock)
  apply (intro conjI impI opt_okI TrueI pit_ticks_ok; simp)
  done

lemma net_resolve4_ends:
  assumes "ticking 502 s"
  shows "opt_ok (\<lambda>_. True) (net_resolve4 tx host s)"
  unfolding net_resolve4_def Let_def
  apply (intro opt_okI opt_ok_bind [OF resolve_mac_ends [of 301]]; (simp add: assms; fail)?)
  apply (simp only: prod.case)
  apply (rule bind_pit [where n = 300], simp)
  apply (simp only: prod.case)
  apply (intro opt_okI; (simp; fail)?)
  apply (rule bind_until [where n = 0]; simp add: transmit_clock)
  apply (intro conjI impI opt_okI TrueI)
  done

lemma net_iface_dhcp_ends:
  assumes "ticking 1003 s"
  shows "opt_ok (\<lambda>_. True) (net_iface_dhcp tx name s)"
  unfolding net_iface_dhcp_def Let_def
  apply (intro opt_okI TrueI)
  apply (rule bind_pit [where n = 1002], simp add: assms)
  apply (simp only: prod.case)
  apply (rule opt_ok_bind [OF dhcp_exchange_ends [of 501]], (auto simp: ticking_def set_iface_ticking)[1])
  apply (intro opt_okI TrueI)
  apply (rule opt_ok_bind [OF dhcp_exchange_ends [of 0]], simp)
  apply (intro opt_okI TrueI)
  done

text \<open>
  C25: no request waits for ever.  With a clock that counts every tick, 1003 ticks are enough for
  \<open>net_ping4\<close>, \<open>net_resolve4\<close> and \<open>net_iface_dhcp\<close> to return, whatever frames arrive and whatever
  \<open>transmit\<close> returns.
\<close>

theorem net_requests_return:
  assumes "steady (nt_ticks s)" and "1003 \<le> elapsed (nt_ticks s)"
  shows "(\<exists>r. net_ping4 tx ip sequence want s = Some r) \<and> (\<exists>r. net_resolve4 tx host s = Some r) \<and> (\<exists>r. net_iface_dhcp tx name s = Some r)"
proof -
  have "ticking 1003 s"
    using assms by (cases "nt_ticks s") (auto simp: ticking_def clock_at_def intro!: exI [of _ "hd (nt_ticks s)"])
  then have "ticking 503 s" "ticking 502 s" "ticking 1003 s" using ticking_less by auto
  then show ?thesis using net_ping4_ends net_resolve4_ends net_iface_dhcp_ends by (fastforce simp: opt_ok_def)
qed

section \<open>Witnesses\<close>

definition sample_net :: "u64 list \<Rightarrow> u8 list list list \<Rightarrow> net_state" where
  "sample_net ticks polls = \<lparr>nt_ifaces = [host_a\<lparr>ni_arp_ip := 0x0A000002, ni_arp_valid := True\<rparr>], nt_ticks = ticks, nt_polls = polls, nt_sent = []\<rparr>"

definition sample_reply :: "u8 list" where
  "sample_reply = [2, 0, 0, 0, 0, 1, 2, 0, 0, 0, 0, 2, 8, 0, 0x45, 0, 0, 28, 0, 0, 0, 0, 64, 1, 0, 0, 10, 0, 0, 2, 10, 0, 0, 1, 0, 0, 0, 0, 0x54, 0x4e, 0, 1]"

primrec ticks_from :: "u64 \<Rightarrow> nat \<Rightarrow> u64 list" where
  "ticks_from t 0 = [t]"
| "ticks_from t (Suc n) = t # ticks_from (t + 1) n"

lemma ticks_from_clock: "steady (ticks_from t n) \<and> elapsed (ticks_from t n) = n"
proof (induction n arbitrary: t)
  case (Suc n)
  then show ?case using Suc [of "t + 1"] by (cases n) simp_all
qed simp

theorem net_requests_return_witness:
  "\<exists>r. net_iface_dhcp (\<lambda>_. 0) [0x65] (sample_net (ticks_from 0 1003) []) = Some r"
  using net_requests_return [of "sample_net (ticks_from 0 1003) []"] ticks_from_clock [of 0 1003] by (simp add: sample_net_def)

theorem net_ping4_sound_witness:
  "\<exists>s'. net_ping4 (\<lambda>_. 0) 0x0A000002 1 True (sample_net [7, 7, 8] [[sample_reply]]) = Some (0, Some 10, s')
     \<and> (\<exists>f \<in> frames_of (sample_net [7, 7, 8] [[sample_reply]]). echo_reply f 0x0A000002 0x544e 1)"
proof -
  have f: "process_frame_ctx x sample_reply ctx = Some (x, ctx\<lparr>pc_ping := Some (p\<lparr>pw_complete := True\<rparr>)\<rparr>, [])"
    if "pc_ping ctx = Some p" "pw_id p = 0x544e" "pw_sequence p = 1" "pw_target p = 0x0A000002" "ni_ipv4 x = 0x0A000001" for x ctx p
    using that by (simp add: process_frame_ctx_def process_ipv4_def process_icmp_def option_step_def sample_reply_def be16_def be32_def get8_def fetch_def
      join16_def join32_def ETH_TYPE_ARP_def ETH_TYPE_IPV4_def IP_PROTO_ICMP_def)
  have "\<exists>s'. net_ping4 (\<lambda>_. 0) 0x0A000002 1 True (sample_net [7, 7, 8] [[sample_reply]]) = Some (0, Some 10, s')"
    by (simp add: net_ping4_def sample_net_def ipv4_make_def route_for_def route_ok_def host_a_def same_subnet_def next_hop_def resolve_mac_def
      pit_ticks_def transmit_def poll_until_def net_poll_iface_def f ping_answered_def Let_def)
  then show ?thesis using net_ping4_sound [of "\<lambda>_. 0" "0x0A000002" 1 True "sample_net [7, 7, 8] [[sample_reply]]"] by (fastforce simp: ipv4_make_def)
qed

end
