(* ===== verification/Elf.thy ===== *)
theory Elf
  imports Prelude "HOL-Library.Monad_Syntax"
begin

text \<open>
  The ELF loader, \<open>kernel/lib/elf.c\<close>: the checks of \<open>elf64_validate\<close> and the copying of
  \<open>elf64_load\<close>.

  An image is the list of its bytes; a read outside it is \<open>None\<close>.  All arithmetic on the fields
  is that of \<open>uint64_t\<close>.  The memory the program is loaded to is a function of the 64-bit address,
  apart from the image (the kernel copies from a file's buffer).
\<close>

type_synonym mem64 = "u64 \<Rightarrow> u8"

definition PT_LOAD :: u32 where "PT_LOAD = 1"
definition EM_X86_64 :: u16 where "EM_X86_64 = 62"
definition USER_LOAD_MIN :: u64 where "USER_LOAD_MIN = 0x400000"
definition USER_LOAD_MAX :: u64 where "USER_LOAD_MAX = 0x30000000"
definition sizeof_ehdr :: nat where "sizeof_ehdr = 64"
definition sizeof_phdr :: u16 where "sizeof_phdr = 56"

text \<open>The fields of the file header that are used.\<close>

record elf64_ehdr =
  e_ident :: "u8 list"
  e_type :: u16
  e_machine :: u16
  e_entry :: u64
  e_phoff :: u64
  e_phentsize :: u16
  e_phnum :: u16

record elf64_phdr =
  p_type :: u32
  p_offset :: u64
  p_vaddr :: u64
  p_filesz :: u64
  p_memsz :: u64

record elf_image_info =
  ei_entry :: u64
  ei_phnum :: u16
  ei_type :: u16
  ei_lowest_vaddr :: u64
  ei_highest_vaddr :: u64

text \<open>A field of \<open>k\<close> bytes at an offset.\<close>

definition fld :: "u8 list \<Rightarrow> nat \<Rightarrow> nat \<Rightarrow> 'a::len word" where
  "fld img off k = word_of_nat (le_nat (take k (drop off img)))"

definition rd_fld :: "u8 list \<Rightarrow> u64 \<Rightarrow> nat \<Rightarrow> 'a::len word option" where
  "rd_fld img off k = (if unat off + k \<le> length img then Some (fld img (unat off) k) else None)"

text \<open>The header, where there are enough bytes.\<close>

definition ehdr_of :: "u8 list \<Rightarrow> elf64_ehdr" where
  "ehdr_of img = \<lparr>e_ident = take 16 img, e_type = fld img 16 2, e_machine = fld img 18 2, e_entry = fld img 24 8,
     e_phoff = fld img 32 8, e_phentsize = fld img 54 2, e_phnum = fld img 56 2\<rparr>"

definition phdr_off :: "elf64_ehdr \<Rightarrow> nat \<Rightarrow> u64" where
  "phdr_off eh i = e_phoff eh + word_of_nat i * ucast (e_phentsize eh)"

text \<open>A program header; of one that is not \<open>PT_LOAD\<close> only the type is read.\<close>

definition rd_phdr :: "u8 list \<Rightarrow> u64 \<Rightarrow> elf64_phdr option" where
  "rd_phdr img off =
     do { type \<leftarrow> rd_fld img off 4;
          if type \<noteq> PT_LOAD then Some \<lparr>p_type = type, p_offset = 0, p_vaddr = 0, p_filesz = 0, p_memsz = 0\<rparr>
          else do {
            offset \<leftarrow> rd_fld img (off + 8) 8;
            vaddr \<leftarrow> rd_fld img (off + 16) 8;
            filesz \<leftarrow> rd_fld img (off + 32) 8;
            memsz \<leftarrow> rd_fld img (off + 40) 8;
            Some \<lparr>p_type = type, p_offset = offset, p_vaddr = vaddr, p_filesz = filesz, p_memsz = memsz\<rparr>
          } }"

definition img_size :: "u8 list \<Rightarrow> u64" where "img_size img = word_of_nat (length img)"

definition info_add :: "elf64_phdr \<Rightarrow> elf_image_info \<Rightarrow> elf_image_info" where
  "info_add ph info =
     (let info = (if p_vaddr ph < ei_lowest_vaddr info then info\<lparr>ei_lowest_vaddr := p_vaddr ph\<rparr> else info)
      in if p_vaddr ph + p_memsz ph > ei_highest_vaddr info then info\<lparr>ei_highest_vaddr := p_vaddr ph + p_memsz ph\<rparr> else info)"

text \<open>The loop over the last \<open>k\<close> program headers; \<open>Some None\<close> is the return of -1.\<close>

primrec validate_loop :: "u8 list \<Rightarrow> elf64_ehdr \<Rightarrow> nat \<Rightarrow> nat \<Rightarrow> elf_image_info \<Rightarrow> elf_image_info option option" where
  "validate_loop img eh 0 i info = Some (Some info)"
| "validate_loop img eh (Suc k) i info =
     do { ph \<leftarrow> rd_phdr img (phdr_off eh i);
          if p_type ph \<noteq> PT_LOAD then validate_loop img eh k (i + 1) info
          else if p_offset ph + p_filesz ph > img_size img \<or> p_memsz ph < p_filesz ph then Some None
          else validate_loop img eh k (i + 1) (info_add ph info) }"

definition ehdr_ok :: "u8 list \<Rightarrow> elf64_ehdr \<Rightarrow> bool" where
  "ehdr_ok img eh \<longleftrightarrow> take 6 (e_ident eh) = [0x7f, 0x45, 0x4c, 0x46, 2, 1] \<and> e_machine eh = EM_X86_64 \<and>
     e_phoff eh + ucast (e_phnum eh) * ucast (e_phentsize eh) \<le> img_size img \<and> e_phentsize eh \<ge> sizeof_phdr"

definition elf64_validate :: "u8 list option \<Rightarrow> elf_image_info option option" where
  "elf64_validate data =
     (case data of
        None \<Rightarrow> Some None
      | Some img \<Rightarrow>
          if length img < sizeof_ehdr then Some None
          else
            let eh = ehdr_of img in
            if \<not> ehdr_ok img eh then Some None
            else map_option (map_option (\<lambda>info. if ei_lowest_vaddr info = -1 then info\<lparr>ei_lowest_vaddr := 0\<rparr> else info))
                   (validate_loop img eh (unat (e_phnum eh)) 0
                      \<lparr>ei_entry = e_entry eh, ei_phnum = e_phnum eh, ei_type = e_type eh, ei_lowest_vaddr = -1, ei_highest_vaddr = 0\<rparr>))"

text \<open>\<open>memcpy\<close> to, and \<open>memset\<close> of, the memory of the program.\<close>

fun store_bytes :: "mem64 \<Rightarrow> u64 \<Rightarrow> u8 list \<Rightarrow> mem64" where
  "store_bytes m d [] = m"
| "store_bytes m d (b # bs) = store_bytes (m(d := b)) (d + 1) bs"

definition load_segment :: "u8 list \<Rightarrow> elf64_phdr \<Rightarrow> mem64 \<Rightarrow> mem64 option" where
  "load_segment img ph m =
     (if p_filesz ph \<noteq> 0 \<and> unat (p_offset ph) + unat (p_filesz ph) > length img then None
      else
        let m = store_bytes m (p_vaddr ph) (take (unat (p_filesz ph)) (drop (unat (p_offset ph)) img)) in
        Some (if p_memsz ph > p_filesz ph
              then store_bytes m (p_vaddr ph + p_filesz ph) (replicate (unat (p_memsz ph - p_filesz ph)) 0) else m))"

primrec load_loop :: "u8 list \<Rightarrow> elf64_ehdr \<Rightarrow> nat \<Rightarrow> nat \<Rightarrow> mem64 \<Rightarrow> mem64 option" where
  "load_loop img eh 0 i m = Some m"
| "load_loop img eh (Suc k) i m =
     do { ph \<leftarrow> rd_phdr img (phdr_off eh i);
          m' \<leftarrow> (if p_type ph \<noteq> PT_LOAD then Some m else load_segment img ph m);
          load_loop img eh k (i + 1) m' }"

definition elf64_load :: "u8 list option \<Rightarrow> mem64 \<Rightarrow> (mem64 \<times> int) option" where
  "elf64_load data m =
     do { r \<leftarrow> elf64_validate data;
          case r of
            None \<Rightarrow> Some (m, -1)
          | Some info \<Rightarrow>
              if ei_lowest_vaddr info < USER_LOAD_MIN \<or> ei_highest_vaddr info > USER_LOAD_MAX then Some (m, -1)
              else
                let img = the data; eh = ehdr_of img in
                map_option (\<lambda>m. (m, 0)) (load_loop img eh (unat (e_phnum eh)) 0 m) }"

section \<open>Specification\<close>

text \<open>The program headers of type \<open>PT_LOAD\<close>, and that no sum of the file's numbers wraps.\<close>

definition phdr_at :: "u8 list \<Rightarrow> nat \<Rightarrow> elf64_phdr" where
  "phdr_at img off = \<lparr>p_type = fld img off 4, p_offset = fld img (off + 8) 8, p_vaddr = fld img (off + 16) 8, p_filesz = fld img (off + 32) 8,
     p_memsz = fld img (off + 40) 8\<rparr>"

definition segments :: "u8 list \<Rightarrow> elf64_phdr list" where
  "segments img = filter (\<lambda>ph. p_type ph = PT_LOAD)
     (map (\<lambda>i. phdr_at img (unat (e_phoff (ehdr_of img)) + i * unat (e_phentsize (ehdr_of img)))) [0..<unat (e_phnum (ehdr_of img))])"

definition table_fits :: "u8 list \<Rightarrow> bool" where
  "table_fits img \<longleftrightarrow> unat (e_phoff (ehdr_of img)) + unat (e_phnum (ehdr_of img)) * unat (e_phentsize (ehdr_of img)) < 2 ^ 64"

definition seg_fits :: "elf64_phdr \<Rightarrow> bool" where
  "seg_fits ph \<longleftrightarrow> unat (p_offset ph) + unat (p_filesz ph) < 2 ^ 64 \<and> unat (p_vaddr ph) + unat (p_memsz ph) < 2 ^ 64"

definition seg_range :: "elf64_phdr \<Rightarrow> u64 set" where
  "seg_range ph = {a. p_vaddr ph \<le> a \<and> unat a < unat (p_vaddr ph) + unat (p_memsz ph)}"

section \<open>Reading the program headers\<close>

lemma store_bytes_at:
  assumes "length bs \<le> 2 ^ 64"
  shows "store_bytes m d bs a = (if unat (a - d) < length bs then bs ! unat (a - d) else m a)"
  using assms
proof (induction bs arbitrary: m d)
  case (Cons b bs)
  show ?case
  proof (cases "a = d")
    case True
    have "unat (- 1 :: u64) = 2 ^ 64 - 1" by (simp only: unsigned_minus_1_eq_mask mask_eq_exp_minus_1) simp
    then have "\<not> unat (a - (d + 1)) < length bs" using True Cons.prems by simp
    then show ?thesis using Cons True by simp
  next
    case False
    then have "a - d \<noteq> 0" by simp
    then have s: "unat (a - d) = Suc (unat (a - (d + 1)))" using unat_minus_one [of "a - d"] unat_gt_0 [of "a - d"] by (simp add: algebra_simps)
    then show ?thesis using Cons False by simp
  qed
qed simp

lemma unat_add_small: "unat (off :: u64) + k < 2 ^ 64 \<Longrightarrow> unat (off + word_of_nat k) = unat off + k"
proof -
  assume k: "unat off + k < 2 ^ 64"
  then have "unat (word_of_nat k :: u64) = k" by (simp only: unat_of_nat) simp
  then show ?thesis using k by (subst unat_plus_if') simp
qed

lemma rd_fld_in: "unat off + k \<le> length img \<Longrightarrow> rd_fld img off k = Some (fld img (unat off) k)"
  by (simp add: rd_fld_def)

lemma rd_phdr_in:
  assumes l: "unat off + 56 \<le> length img" "length img < 2 ^ 64"
  shows "\<exists>ph. rd_phdr img off = Some ph \<and> p_type ph = p_type (phdr_at img (unat off)) \<and> (p_type ph = PT_LOAD \<longrightarrow> ph = phdr_at img (unat off))"
proof -
  have u: "unat (off + 8) = unat off + 8" "unat (off + 16) = unat off + 16" "unat (off + 32) = unat off + 32" "unat (off + 40) = unat off + 40"
    using unat_add_small [of off 8] unat_add_small [of off 16] unat_add_small [of off 32] unat_add_small [of off 40] l by simp_all
  show ?thesis using l by (auto simp: rd_phdr_def rd_fld_in u phdr_at_def)
qed

definition table :: "u8 list \<Rightarrow> nat \<Rightarrow> elf64_phdr" where
  "table img i = phdr_at img (unat (e_phoff (ehdr_of img)) + i * unat (e_phentsize (ehdr_of img)))"

lemma segments_table: "segments img = filter (\<lambda>ph. p_type ph = PT_LOAD) (map (table img) [0..<unat (e_phnum (ehdr_of img))])"
  by (simp add: segments_def table_def [abs_def])

lemma unat_16_64: "unat (ucast (w :: u16) :: u64) = unat w"
proof -
  have "unat w < 2 ^ 16" using unsigned_less [where ?'a = nat, of w] by simp
  also have "(2 :: nat) ^ 16 < 2 ^ 64" by simp
  finally have "take_bit 64 (unat w) = unat w" by (simp only: take_bit_nat_eq_self_iff)
  moreover have "unat (ucast w :: u64) = take_bit 64 (unat w)" by (simp only: unsigned_ucast_eq) simp
  ultimately show ?thesis by argo
qed

lemma ucast_of_nat_16: "ucast (w :: u16) = (word_of_nat (unat w) :: u64)"
proof -
  have "word_of_nat (unat (ucast w :: u64)) = (ucast w :: u64)" by simp
  then show ?thesis by (simp only: unat_16_64)
qed

text \<open>With a table that does not wrap, every header the loops read is inside the image.\<close>

lemma table_in:
  assumes ok: "ehdr_ok img (ehdr_of img)" and fits: "table_fits img" and l: "length img < 2 ^ 64" and i: "i < unat (e_phnum (ehdr_of img))"
  shows "\<exists>ph. rd_phdr img (phdr_off (ehdr_of img) i) = Some ph \<and> p_type ph = p_type (table img i) \<and> (p_type ph = PT_LOAD \<longrightarrow> ph = table img i)"
proof -
  let ?eh = "ehdr_of img"
  let ?o = "unat (e_phoff ?eh)" and ?n = "unat (e_phnum ?eh)" and ?s = "unat (e_phentsize ?eh)"
  have f: "?o + ?n * ?s < 2 ^ 64" using fits by (simp add: table_fits_def)
  have u: "unat (e_phoff ?eh + word_of_nat (k * ?s)) = ?o + k * ?s" if "k \<le> ?n" for k
    using unat_add_small [of "e_phoff ?eh" "k * ?s"] f that mult_le_mono1 [OF that, of ?s] by linarith
  have w: "word_of_nat k * ucast (e_phentsize ?eh) = (word_of_nat (k * ?s) :: u64)" for k
    by (simp only: of_nat_mult ucast_of_nat_16)
  have "ucast (e_phnum ?eh) = (word_of_nat ?n :: u64)" by (rule ucast_of_nat_16)
  then have "e_phoff ?eh + word_of_nat (?n * ?s) \<le> img_size img" using ok w [of ?n] by (simp add: ehdr_ok_def)
  moreover have "unat (img_size img) = length img" using l by (simp only: img_size_def unat_of_nat) simp
  ultimately have e: "?o + ?n * ?s \<le> length img" using u [of ?n] by (simp add: word_le_nat_alt)
  have "56 \<le> ?s" using ok by (simp add: ehdr_ok_def sizeof_phdr_def word_le_nat_alt)
  moreover have "i * ?s + ?s \<le> ?n * ?s" using mult_le_mono1 [of "Suc i" ?n ?s] i by simp
  ultimately have "?o + i * ?s + 56 \<le> length img" using e by linarith
  moreover have "unat (phdr_off ?eh i) = ?o + i * ?s" by (simp only: phdr_off_def w [of i] u [OF less_imp_le [OF i]])
  ultimately show ?thesis using rd_phdr_in [of "phdr_off ?eh i" img] l by (simp add: table_def)
qed

section \<open>The loops over the headers\<close>

definition seg_ok :: "u8 list \<Rightarrow> elf64_phdr \<Rightarrow> bool" where
  "seg_ok img ph \<longleftrightarrow> p_offset ph + p_filesz ph \<le> img_size img \<and> p_filesz ph \<le> p_memsz ph"

definition segs_from :: "u8 list \<Rightarrow> nat \<Rightarrow> nat \<Rightarrow> elf64_phdr list" where
  "segs_from img i k = filter (\<lambda>ph. p_type ph = PT_LOAD) (map (table img) [i..<i + k])"

lemma segs_from_Suc:
  "segs_from img i (Suc k) = (if p_type (table img i) = PT_LOAD then [table img i] else []) @ segs_from img (Suc i) k"
  unfolding segs_from_def by (subst upt_conv_Cons) simp_all

lemma validate_loop_eq:
  assumes "ehdr_ok img (ehdr_of img)" and "table_fits img" and "length img < 2 ^ 64" and "i + k \<le> unat (e_phnum (ehdr_of img))"
  shows "validate_loop img (ehdr_of img) k i info =
    Some (if list_all (seg_ok img) (segs_from img i k) then Some (fold info_add (segs_from img i k) info) else None)"
  using assms(4)
proof (induction k arbitrary: i info)
  case (Suc k)
  have i: "i < unat (e_phnum (ehdr_of img))" using Suc.prems by simp
  have ih: "validate_loop img (ehdr_of img) k (i + 1) j =
    Some (if list_all (seg_ok img) (segs_from img (Suc i) k) then Some (fold info_add (segs_from img (Suc i) k) j) else None)" for j
    using Suc.IH [of "i + 1" j] Suc.prems by simp
  obtain ph where ph: "rd_phdr img (phdr_off (ehdr_of img) i) = Some ph" "p_type ph = p_type (table img i)" "p_type ph = PT_LOAD \<longrightarrow> ph = table img i"
    using table_in [OF assms(1-3) i] by blast
  show ?case
  proof (cases "p_type ph = PT_LOAD")
    case True
    then have e: "ph = table img i" "segs_from img i (Suc k) = ph # segs_from img (Suc i) k" using ph by (simp_all add: segs_from_Suc)
    have c: "p_offset ph + p_filesz ph > img_size img \<or> p_memsz ph < p_filesz ph \<longleftrightarrow> \<not> seg_ok img ph" by (auto simp: seg_ok_def)
    show ?thesis by (simp only: validate_loop.simps ph(1) c bind.bind_lunit ih e(2) True) simp
  next
    case False
    then have "segs_from img i (Suc k) = segs_from img (Suc i) k" using ph by (simp add: segs_from_Suc)
    then show ?thesis using False ph(1) ih by simp
  qed
qed (simp add: segs_from_def)

lemma segs_from_all: "segs_from img 0 (unat (e_phnum (ehdr_of img))) = segments img"
  by (simp add: segs_from_def segments_table)

text \<open>What one segment does to the memory.\<close>

definition seg_image :: "u8 list \<Rightarrow> elf64_phdr \<Rightarrow> u8 list" where
  "seg_image img ph = take (unat (p_filesz ph)) (drop (unat (p_offset ph)) img) @ replicate (unat (p_memsz ph) - unat (p_filesz ph)) 0"

lemma store_bytes_append: "store_bytes m d (a @ b) = store_bytes (store_bytes m d a) (d + word_of_nat (length a)) b"
  by (induction a arbitrary: m d) (simp_all add: add.assoc)

lemma seg_in:
  assumes "seg_ok img ph" and "seg_fits ph" and "length img < 2 ^ 64"
  shows "unat (p_offset ph) + unat (p_filesz ph) \<le> length img" "unat (p_filesz ph) \<le> unat (p_memsz ph)"
    "length (seg_image img ph) = unat (p_memsz ph)"
proof -
  have "unat (p_offset ph + p_filesz ph) = unat (p_offset ph) + unat (p_filesz ph)" using assms(2) by (subst unat_plus_if') (simp add: seg_fits_def)
  moreover have "unat (img_size img) = length img" using assms(3) by (simp only: img_size_def unat_of_nat) simp
  ultimately show a: "unat (p_offset ph) + unat (p_filesz ph) \<le> length img" "unat (p_filesz ph) \<le> unat (p_memsz ph)"
    using assms(1) by (simp_all add: seg_ok_def word_le_nat_alt)
  then show "length (seg_image img ph) = unat (p_memsz ph)" by (simp add: seg_image_def)
qed

lemma load_segment_eq:
  assumes "seg_ok img ph" and "seg_fits ph" and "length img < 2 ^ 64"
  shows "load_segment img ph m = Some (store_bytes m (p_vaddr ph) (seg_image img ph))"
proof -
  note s = seg_in [OF assms]
  let ?file = "take (unat (p_filesz ph)) (drop (unat (p_offset ph)) img)"
  have l: "length ?file = unat (p_filesz ph)" using s(1) by simp
  have d: "p_memsz ph > p_filesz ph \<longleftrightarrow> unat (p_memsz ph) - unat (p_filesz ph) \<noteq> 0" by (auto simp: word_less_nat_alt)
  have "unat (p_memsz ph - p_filesz ph) = unat (p_memsz ph) - unat (p_filesz ph)" using s(2) by (subst unat_sub) (simp_all add: word_le_nat_alt)
  then show ?thesis using s(1) d by (simp add: load_segment_def seg_image_def store_bytes_append l Let_def)
qed

lemma seg_store_at:
  assumes "seg_ok img ph" and "seg_fits ph" and "length img < 2 ^ 64"
  shows "store_bytes m (p_vaddr ph) (seg_image img ph) a = (if a \<in> seg_range ph then seg_image img ph ! unat (a - p_vaddr ph) else m a)"
proof -
  have l: "length (seg_image img ph) = unat (p_memsz ph)" "unat (p_memsz ph) \<le> 2 ^ 64"
    using seg_in(3) [OF assms] unsigned_less [where ?'a = nat, of "p_memsz ph"] by simp_all
  have f: "unat (p_vaddr ph) + unat (p_memsz ph) < 2 ^ 64" using assms(2) by (simp add: seg_fits_def)
  have "unat (a - p_vaddr ph) < unat (p_memsz ph) \<longleftrightarrow> a \<in> seg_range ph"
  proof (cases "p_vaddr ph \<le> a")
    case True
    then have "unat (a - p_vaddr ph) = unat a - unat (p_vaddr ph)" "unat (p_vaddr ph) \<le> unat a" by (simp_all add: unat_sub word_le_nat_alt)
    then show ?thesis using True by (auto simp: seg_range_def)
  next
    case False
    then have "unat (a - p_vaddr ph) = 2 ^ 64 + unat a - unat (p_vaddr ph)" by (subst unat_sub_if') (simp add: word_le_nat_alt)
    then show ?thesis using False f by (simp add: seg_range_def)
  qed
  then show ?thesis using store_bytes_at [of "seg_image img ph" m "p_vaddr ph" a] l by simp
qed

definition store_seg :: "u8 list \<Rightarrow> elf64_phdr \<Rightarrow> mem64 \<Rightarrow> mem64" where
  "store_seg img ph m = store_bytes m (p_vaddr ph) (seg_image img ph)"

lemma load_loop_eq:
  assumes "ehdr_ok img (ehdr_of img)" and "table_fits img" and "length img < 2 ^ 64" and "i + k \<le> unat (e_phnum (ehdr_of img))"
    and "list_all (seg_ok img) (segs_from img i k)" and "list_all seg_fits (segs_from img i k)"
  shows "load_loop img (ehdr_of img) k i m = Some (fold (store_seg img) (segs_from img i k) m)"
  using assms(4-6)
proof (induction k arbitrary: i m)
  case (Suc k)
  have i: "i < unat (e_phnum (ehdr_of img))" using Suc.prems by simp
  obtain ph where ph: "rd_phdr img (phdr_off (ehdr_of img) i) = Some ph" "p_type ph = p_type (table img i)" "p_type ph = PT_LOAD \<longrightarrow> ph = table img i"
    using table_in [OF assms(1-3) i] by blast
  have ih: "load_loop img (ehdr_of img) k (i + 1) m' = Some (fold (store_seg img) (segs_from img (Suc i) k) m')" for m'
    using Suc.IH [of "Suc i" m'] Suc.prems by (simp add: segs_from_Suc)
  show ?case
  proof (cases "p_type ph = PT_LOAD")
    case True
    then have e: "segs_from img i (Suc k) = ph # segs_from img (Suc i) k" using ph by (simp add: segs_from_Suc)
    have "load_segment img ph m = Some (store_seg img ph m)"
      using load_segment_eq [OF _ _ assms(3)] Suc.prems(2,3) e by (simp add: store_seg_def)
    then show ?thesis using True ph(1) ih e by simp
  next
    case False
    then have "segs_from img i (Suc k) = segs_from img (Suc i) k" using ph by (simp add: segs_from_Suc)
    then show ?thesis using False ph(1) ih by simp
  qed
qed (simp add: segs_from_def)

section \<open>Loading\<close>

definition segs_apart :: "elf64_phdr list \<Rightarrow> bool" where
  "segs_apart = sorted_wrt (\<lambda>p q. unat (p_vaddr p) + unat (p_memsz p) \<le> unat (p_vaddr q) \<or> unat (p_vaddr q) + unat (p_memsz q) \<le> unat (p_vaddr p))"

lemma info_bounds:
  "ei_lowest_vaddr (fold info_add segs info) \<le> ei_lowest_vaddr info \<and> ei_highest_vaddr info \<le> ei_highest_vaddr (fold info_add segs info) \<and>
   list_all (\<lambda>ph. ei_lowest_vaddr (fold info_add segs info) \<le> p_vaddr ph \<and> p_vaddr ph + p_memsz ph \<le> ei_highest_vaddr (fold info_add segs info)) segs"
proof (induction segs arbitrary: info)
  case (Cons p segs)
  have a: "ei_lowest_vaddr (info_add p info) \<le> ei_lowest_vaddr info" "ei_lowest_vaddr (info_add p info) \<le> p_vaddr p"
    "ei_highest_vaddr info \<le> ei_highest_vaddr (info_add p info)" "p_vaddr p + p_memsz p \<le> ei_highest_vaddr (info_add p info)"
    by (auto simp: info_add_def Let_def)
  show ?case using Cons [of "info_add p info"] a by (auto intro: order_trans)
qed simp

lemma store_segs_other:
  assumes "list_all (\<lambda>ph. seg_ok img ph \<and> seg_fits ph \<and> a \<notin> seg_range ph) segs" and "length img < 2 ^ 64"
  shows "fold (store_seg img) segs m a = m a"
  using assms by (induction segs arbitrary: m) (simp_all add: store_seg_def seg_store_at)

lemma apart_range:
  "unat (p_vaddr p) + unat (p_memsz p) \<le> unat (p_vaddr q) \<or> unat (p_vaddr q) + unat (p_memsz q) \<le> unat (p_vaddr p) \<Longrightarrow>
   a \<in> seg_range p \<Longrightarrow> a \<notin> seg_range q"
  by (auto simp: seg_range_def word_le_nat_alt)

lemma store_segs_at:
  assumes "list_all (\<lambda>ph. seg_ok img ph \<and> seg_fits ph) segs" and "length img < 2 ^ 64" and "segs_apart segs"
    and "ph \<in> set segs" and "a \<in> seg_range ph"
  shows "fold (store_seg img) segs m a = seg_image img ph ! unat (a - p_vaddr ph)"
  using assms
proof (induction segs arbitrary: m)
  case (Cons p segs)
  show ?case
  proof (cases "ph = p")
    case True
    then have "list_all (\<lambda>q. seg_ok img q \<and> seg_fits q \<and> a \<notin> seg_range q) segs"
      using Cons.prems apart_range [of p] by (auto simp: list_all_iff segs_apart_def)
    then show ?thesis using store_segs_other [of img a segs] True Cons.prems seg_store_at [of img p m a] by (simp add: store_seg_def [of img p])
  next
    case False
    then show ?thesis using Cons by (simp add: segs_apart_def)
  qed
qed simp

lemma elf64_load_cases:
  assumes l: "length img < 2 ^ 64" and f: "table_fits img" and s: "list_all seg_fits (segments img)"
  shows "elf64_load (Some img) m = Some (m, -1) \<or>
    elf64_load (Some img) m = Some (fold (store_seg img) (segments img) m, 0) \<and> list_all (seg_ok img) (segments img) \<and>
    list_all (\<lambda>ph. USER_LOAD_MIN \<le> p_vaddr ph \<and> p_vaddr ph + p_memsz ph \<le> USER_LOAD_MAX) (segments img)"
proof (cases "length img < sizeof_ehdr \<or> \<not> ehdr_ok img (ehdr_of img)")
  case False
  let ?n = "unat (e_phnum (ehdr_of img))"
  define j where "j = \<lparr>ei_entry = e_entry (ehdr_of img), ei_phnum = e_phnum (ehdr_of img), ei_type = e_type (ehdr_of img), ei_lowest_vaddr = -1, ei_highest_vaddr = 0\<rparr>"
  define info where "info = fold info_add (segments img) j"
  define info' where "info' = (if ei_lowest_vaddr info = -1 then info\<lparr>ei_lowest_vaddr := 0\<rparr> else info)"
  have v: "elf64_validate (Some img) = Some (if list_all (seg_ok img) (segments img) then Some info' else None)"
    using False validate_loop_eq [OF _ f l, of 0 ?n j] by (simp add: elf64_validate_def segs_from_all Let_def info'_def info_def j_def)
  show ?thesis
  proof (cases "list_all (seg_ok img) (segments img) \<and> \<not> (ei_lowest_vaddr info' < USER_LOAD_MIN \<or> ei_highest_vaddr info' > USER_LOAD_MAX)")
    case True
    then have ok: "list_all (seg_ok img) (segments img)" by simp
    have "load_loop img (ehdr_of img) ?n 0 m = Some (fold (store_seg img) (segments img) m)"
      using load_loop_eq [OF _ f l, of 0 ?n m] False ok s by (simp add: segs_from_all)
    then have e: "elf64_load (Some img) m = Some (fold (store_seg img) (segments img) m, 0)" using v True by (simp add: elf64_load_def Let_def)
    have i: "info' = info" using True by (auto simp: info'_def USER_LOAD_MIN_def split: if_splits)
    have "USER_LOAD_MIN \<le> ei_lowest_vaddr info" "ei_highest_vaddr info \<le> USER_LOAD_MAX" using True i by (simp_all add: not_less)
    moreover have "list_all (\<lambda>ph. ei_lowest_vaddr info \<le> p_vaddr ph \<and> p_vaddr ph + p_memsz ph \<le> ei_highest_vaddr info) (segments img)"
      using info_bounds [of "segments img" j] by (simp add: info_def)
    ultimately have "list_all (\<lambda>ph. USER_LOAD_MIN \<le> p_vaddr ph \<and> p_vaddr ph + p_memsz ph \<le> USER_LOAD_MAX) (segments img)"
      by (fastforce simp: list_all_iff intro: order_trans)
    then show ?thesis using e ok by simp
  next
    case False
    then show ?thesis using v by (auto simp: elf64_load_def)
  qed
qed (auto simp: elf64_load_def elf64_validate_def Let_def)

lemma seg_image_nth:
  assumes "seg_ok img ph" and "seg_fits ph" and "length img < 2 ^ 64" and "j < unat (p_memsz ph)"
  shows "seg_image img ph ! j = (if j < unat (p_filesz ph) then img ! (unat (p_offset ph) + j) else 0)"
  using seg_in [OF assms(1-3)] assms(4) by (simp add: seg_image_def nth_append)


text \<open>A file with one segment.\<close>

definition sample_elf :: "u64 \<Rightarrow> u64 \<Rightarrow> u8 list" where
  "sample_elf vaddr memsz =
     [0x7f, 0x45, 0x4c, 0x46, 2, 1] @ replicate 10 0 @ to_le 2 2 @ to_le 2 62 @ to_le 4 1 @ to_le 8 0 @ to_le 8 64 @ to_le 8 0 @
     to_le 4 0 @ to_le 2 64 @ to_le 2 56 @ to_le 2 1 @ to_le 2 0 @ to_le 2 0 @ to_le 2 0 @
     to_le 4 1 @ to_le 4 5 @ to_le 8 120 @ to_le 8 (unat vaddr) @ to_le 8 0 @ to_le 8 1 @ to_le 8 (unat memsz) @ to_le 8 0 @ [0xc3]"

lemma sample_elf_header:
  "length (sample_elf v n) = 121" "ehdr_of (sample_elf v n) = \<lparr>e_ident = [0x7f, 0x45, 0x4c, 0x46, 2, 1] @ replicate 10 0, e_type = 2, e_machine = 62, e_entry = 0,
     e_phoff = 64, e_phentsize = 56, e_phnum = 1\<rparr>"
  by (simp_all add: sample_elf_def ehdr_of_def fld_def le_nat_to_le)

lemma sample_elf_segment:
  "segments (sample_elf v n) = [\<lparr>p_type = PT_LOAD, p_offset = 120, p_vaddr = v, p_filesz = 1, p_memsz = n\<rparr>]"
  "sample_elf v n ! 120 = 0xc3" "ehdr_ok (sample_elf v n) (ehdr_of (sample_elf v n))" "table_fits (sample_elf v n)"
proof -
  have m: "unat (w :: u64) mod 18446744073709551616 = unat w" for w using unsigned_less [where ?'a = nat, of w] by simp
  have "phdr_at (sample_elf v n) 64 = \<lparr>p_type = PT_LOAD, p_offset = 120, p_vaddr = v, p_filesz = 1, p_memsz = n\<rparr>"
    by (simp add: phdr_at_def sample_elf_def fld_def le_nat_to_le PT_LOAD_def m)
  then show "segments (sample_elf v n) = [\<lparr>p_type = PT_LOAD, p_offset = 120, p_vaddr = v, p_filesz = 1, p_memsz = n\<rparr>]"
    by (simp add: segments_def sample_elf_header)
  show "sample_elf v n ! 120 = 0xc3" by (simp add: sample_elf_def nth_append)
  show "ehdr_ok (sample_elf v n) (ehdr_of (sample_elf v n))" "table_fits (sample_elf v n)"
    by (simp_all add: sample_elf_header ehdr_ok_def table_fits_def EM_X86_64_def img_size_def sizeof_phdr_def word_le_nat_alt)
qed

lemma sample_elf_rd: "rd_phdr (sample_elf v n) 64 = Some \<lparr>p_type = PT_LOAD, p_offset = 120, p_vaddr = v, p_filesz = 1, p_memsz = n\<rparr>"
proof -
  have "unat (64 :: u64) + 56 \<le> length (sample_elf v n)" "length (sample_elf v n) < 2 ^ 64" by (simp_all add: sample_elf_header)
  moreover have "phdr_at (sample_elf v n) 64 = \<lparr>p_type = PT_LOAD, p_offset = 120, p_vaddr = v, p_filesz = 1, p_memsz = n\<rparr>"
    using sample_elf_segment(1) [of v n] by (simp add: segments_def sample_elf_header split: if_splits)
  ultimately show ?thesis using rd_phdr_in [of 64 "sample_elf v n"] by auto
qed

text \<open>Whether the sample is loaded depends only on its segment's lowest and highest address.\<close>

lemma sample_elf_load:
  assumes "USER_LOAD_MIN \<le> v" and "v \<noteq> -1" and "v + n \<le> USER_LOAD_MAX" and "1 \<le> n"
  shows "\<exists>m'. elf64_load (Some (sample_elf v n)) m = Some (m', 0) \<and> m' v = 0xc3"
proof -
  let ?img = "sample_elf v n" and ?ph = "\<lparr>p_type = PT_LOAD, p_offset = 120, p_vaddr = v, p_filesz = 1, p_memsz = n\<rparr>"
  let ?info = "info_add ?ph \<lparr>ei_entry = 0, ei_phnum = 1, ei_type = 2, ei_lowest_vaddr = -1, ei_highest_vaddr = 0\<rparr>"
  have lo: "ei_lowest_vaddr ?info = v" using assms(2) by (auto simp: info_add_def Let_def word_order.not_eq_extremum)
  have hi: "ei_highest_vaddr ?info \<le> USER_LOAD_MAX" using assms(3) by (auto simp: info_add_def Let_def USER_LOAD_MAX_def)
  have "1 \<le> unat n" using assms(4) by (simp add: word_le_nat_alt)
  then have "elf64_validate (Some ?img) = Some (Some ?info)"
    using sample_elf_segment(3) [of v n] sample_elf_rd [of v n] assms(2) lo
    by (simp add: elf64_validate_def sample_elf_header sizeof_ehdr_def phdr_off_def img_size_def not_less word_le_nat_alt word_less_nat_alt Let_def)
  moreover have "\<not> (ei_lowest_vaddr ?info < USER_LOAD_MIN \<or> ei_highest_vaddr ?info > USER_LOAD_MAX)"
    using assms(1) lo hi by (simp add: not_less)
  moreover obtain m' where m': "load_segment ?img ?ph m = Some m'" "m' v = 0xc3"
  proof -
    let ?z = "replicate (unat (n - 1)) (0 :: u8)"
    have "unat (n - 1) < 2 ^ 64 - 1"
    proof -
      have "unat n < 2 ^ 64" "unat (n - 1) = unat n - 1" "1 \<le> unat n"
        using unsigned_less [where ?'a = nat, of n] assms(4) by (simp_all add: unat_sub word_le_nat_alt)
      then show ?thesis by linarith
    qed
    moreover have "unat (v - (v + 1)) = 2 ^ 64 - 1" by (simp add: unsigned_minus_1_eq_mask mask_eq_exp_minus_1)
    ultimately have z: "store_bytes k (v + 1) ?z v = k v" for k using store_bytes_at [of ?z k "v + 1" v] by simp
    have "drop 120 ?img = [0xc3]" by (simp add: sample_elf_def)
    then have "load_segment ?img ?ph m = Some (if n > 1 then store_bytes (m(v := 0xc3)) (v + 1) ?z else m(v := 0xc3))"
      by (simp add: load_segment_def sample_elf_header Let_def)
    then show ?thesis using that z by simp
  qed
  ultimately show ?thesis using sample_elf_rd [of v n] by (simp add: elf64_load_def sample_elf_header phdr_off_def Let_def)
qed


text \<open>
  The window check can be passed by wrapping.  For every address \<open>v\<close> from 0x400000 up but the
  last one, there is an image that \<open>elf64_load\<close> accepts and whose byte it stores at \<open>v\<close>: its segment
  starts at \<open>v\<close> and has a memory size with which the end wraps to 0.
\<close>

lemma elf64_load_window_wraps:
  assumes "USER_LOAD_MIN \<le> v" and "v \<noteq> -1"
  shows "\<exists>img m'. length img = 121 \<and> elf64_load (Some img) m = Some (m', 0) \<and> m' v = 0xc3"
proof -
  have "v \<noteq> 0" using assms(1) by (auto simp: USER_LOAD_MIN_def)
  then have "1 \<le> - v" by (simp add: word_le_nat_alt unat_gt_0 Suc_le_eq)
  then show ?thesis using sample_elf_load [of v "- v" m] assms sample_elf_header(1) [of v "- v"] by (auto simp: USER_LOAD_MAX_def)
qed

end
