(* ===== verification/Keyboard.thy ===== *)
theory Keyboard
  imports Prelude Cstring
begin

text \<open>
  The PS/2 keyboard driver \<open>kernel/arch/x86_64/keyboard.c\<close>: the key buffer and the event buffer,
  the translation of scancodes of set 1 and set 2, the modifiers, and the keyboard layouts.

  The static variables are the record \<open>keyboard\<close>.  An array indexed by a scancode or a buffer
  position is a function; \<open>code & 0x7f\<close> and the \<open>%\<close> of the buffer positions keep the indices in range.
  A flag of type \<open>int\<close> that holds 0 or 1 is a \<open>bool\<close>, a \<open>char\<close> is its byte.  \<open>pit_ticks ()\<close> is the
  argument \<open>now\<close>.  The programming of the i8042 controller (\<open>keyboard_controller_setup\<close> and the
  port functions below it) is hardware access and not modelled; \<open>keyboard_poll\<close> takes the
  status and data bytes it reads from the ports.
\<close>

definition KBD_BUFFER :: nat where "KBD_BUFFER = 256"
definition KBD_EVENT_BUFFER :: nat where "KBD_EVENT_BUFFER = 1024"

definition KEY_UP :: int where "KEY_UP = 0x101"
definition KEY_DOWN :: int where "KEY_DOWN = 0x102"
definition KEY_LEFT :: int where "KEY_LEFT = 0x103"
definition KEY_RIGHT :: int where "KEY_RIGHT = 0x104"
definition KEY_HOME :: int where "KEY_HOME = 0x105"
definition KEY_END :: int where "KEY_END = 0x106"
definition KEY_DELETE :: int where "KEY_DELETE = 0x107"
definition KEY_CTRL_C :: int where "KEY_CTRL_C = 0x108"
definition KEY_COPY :: int where "KEY_COPY = 0x109"
definition KEY_PASTE :: int where "KEY_PASTE = 0x10a"
definition KEY_SHIFT_LEFT :: int where "KEY_SHIFT_LEFT = 0x10b"
definition KEY_SHIFT_RIGHT :: int where "KEY_SHIFT_RIGHT = 0x10c"
definition KEY_TTY1 :: int where "KEY_TTY1 = 0x10d"
definition KEY_TTY6 :: int where "KEY_TTY6 = 0x112"
definition KEY_CTRL :: int where "KEY_CTRL = 0x114"
definition KEY_ALT :: int where "KEY_ALT = 0x115"

definition PS2_ACK :: u8 where "PS2_ACK = 0xfa"
definition PS2_RESEND :: u8 where "PS2_RESEND = 0xfe"
definition PS2_BAT_OK :: u8 where "PS2_BAT_OK = 0xaa"
definition I8042_STATUS_OUTPUT_FULL :: u8 where "I8042_STATUS_OUTPUT_FULL = 0x01"
definition I8042_STATUS_AUX_DATA :: u8 where "I8042_STATUS_AUX_DATA = 0x20"

record keyboard =
  kb_buffer :: "nat \<Rightarrow> int"
  kb_read :: nat
  kb_write :: nat
  kb_evt :: "nat \<Rightarrow> u16"
  kb_evt_read :: nat
  kb_evt_write :: nat
  kb_key_down :: "u8 \<Rightarrow> bool"
  kb_ext_down :: "u8 \<Rightarrow> bool"
  kb_shift :: bool
  kb_left :: bool
  kb_right :: bool
  kb_ctrl :: bool
  kb_alt :: bool
  kb_altgr :: bool
  kb_caps :: bool
  kb_ext_prefix :: bool
  kb_break_prefix :: bool
  kb_raw2 :: bool
  kb_backspace :: u64
  kb_set :: nat
  kb_layout :: string
  kb_generation :: u64
  kb_consumed :: u64

section \<open>The layouts\<close>

text \<open>
  An array of 128 bytes with designated initialisers is the list of its entries; \<open>row c s\<close> are the
  entries of the consecutive scancodes from \<open>c\<close>.  Every other entry is 0.
\<close>

fun row :: "u8 \<Rightarrow> u8 list \<Rightarrow> (u8 \<times> u8) list" where
  "row c [] = []"
| "row c (x # s) = (c, x) # row (c + 1) s"

definition entry :: "(u8 \<times> u8) list \<Rightarrow> u8 \<Rightarrow> u8" where
  "entry tab code = (case map_of tab code of None \<Rightarrow> 0 | Some c \<Rightarrow> c)"

definition normal_map :: "(u8 \<times> u8) list" where
  "normal_map =
     (0x01, 27) # row 0x02 (bytes_of ''1234567890-='') @ [(0x0e, 8), (0x0f, 9)] @ row 0x10 (bytes_of ''qwertyuiop[]'')
     @ [(0x1c, 10)] @ row 0x1e (bytes_of ''asdfghjkl;'' @ [39, 96]) @ row 0x2b (92 # bytes_of ''zxcvbnm,./'')
     @ [(0x39, 32), (0x56, 60)]"

definition shift_map :: "(u8 \<times> u8) list" where
  "shift_map =
     (0x01, 27) # row 0x02 (bytes_of ''!@#$%^&*()_+'') @ [(0x0e, 8), (0x0f, 9)] @ row 0x10 (bytes_of ''QWERTYUIOP{}'')
     @ [(0x1c, 10)] @ row 0x1e (bytes_of ''ASDFGHJKL:'' @ [34, 126]) @ row 0x2b (124 # bytes_of ''ZXCVBNM<>?'')
     @ [(0x39, 32), (0x56, 62)]"

definition it_normal_map :: "(u8 \<times> u8) list" where
  "it_normal_map =
     (0x01, 27) # row 0x02 (bytes_of ''1234567890'' @ [39, 94]) @ [(0x0e, 8), (0x0f, 9)] @ row 0x10 (bytes_of ''qwertyuiope+'')
     @ [(0x1c, 10)] @ row 0x1e (bytes_of ''asdfghjkloa'' @ [92]) @ row 0x2b (bytes_of ''uzxcvbnm,.-'')
     @ [(0x39, 32), (0x56, 60)]"

definition it_shift_map :: "(u8 \<times> u8) list" where
  "it_shift_map =
     (0x01, 27) # row 0x02 (33 # 34 # bytes_of ''#$%&/()=?^'') @ [(0x0e, 8), (0x0f, 9)] @ row 0x10 (bytes_of ''QWERTYUIOPE*'')
     @ [(0x1c, 10)] @ row 0x1e (bytes_of ''ASDFGHJKLOA|'') @ row 0x2b (bytes_of ''UZXCVBNM;:_'')
     @ [(0x39, 32), (0x56, 62)]"

definition it_altgr_map :: "(u8 \<times> u8) list" where
  "it_altgr_map = [(0x1a, 91), (0x1b, 93), (0x27, 64), (0x28, 35)]"

definition it_altgr_shift_map :: "(u8 \<times> u8) list" where
  "it_altgr_shift_map = [(0x1a, 123), (0x1b, 125), (0x27, 64), (0x28, 35)]"

definition de_normal_map :: "(u8 \<times> u8) list" where
  "de_normal_map =
     (0x01, 27) # row 0x02 (bytes_of ''1234567890'' @ [0xe1, 39]) @ [(0x0e, 8), (0x0f, 9)]
     @ row 0x10 (bytes_of ''qwertzuiop'' @ [0x81, 43]) @ [(0x1c, 10)] @ row 0x1e (bytes_of ''asdfghjkl'' @ [0x94, 0x84, 94])
     @ row 0x2b (bytes_of ''#yxcvbnm,.-'') @ [(0x39, 32), (0x56, 60)]"

definition de_shift_map :: "(u8 \<times> u8) list" where
  "de_shift_map =
     (0x01, 27) # row 0x02 (33 # 34 # bytes_of ''#$%&/()=?'' @ [96]) @ [(0x0e, 8), (0x0f, 9)]
     @ row 0x10 (bytes_of ''QWERTZUIOP'' @ [0x9a, 42]) @ [(0x1c, 10)] @ row 0x1e (bytes_of ''ASDFGHJKL'' @ [0x99, 0x8e, 96])
     @ row 0x2b (39 # bytes_of ''YXCVBNM;:_'') @ [(0x39, 32), (0x56, 62)]"

definition de_altgr_map :: "(u8 \<times> u8) list" where
  "de_altgr_map = [(0x10, 64), (0x08, 123), (0x09, 91), (0x0a, 93), (0x0b, 125), (0x0c, 92), (0x1b, 126), (0x56, 124)]"

definition de_altgr_shift_map :: "(u8 \<times> u8) list" where
  "de_altgr_shift_map = [(0x10, 64), (0x08, 123), (0x09, 91), (0x0a, 93), (0x0b, 125), (0x0c, 92), (0x1b, 126), (0x56, 124)]"

definition it_accent_map :: "(u8 \<times> u8) list" where
  "it_accent_map = [(0x0d, 0x8d), (0x1a, 0x8a), (0x27, 0x95), (0x28, 0x85), (0x2b, 0x97)]"

definition it_accent_shift_map :: "(u8 \<times> u8) list" where
  "it_accent_shift_map = [(0x1a, 0x82)]"

definition set2_to_set1 :: "(u8 \<times> u8) list" where
  "set2_to_set1 =
     [(0x76, 0x01), (0x16, 0x02), (0x1e, 0x03), (0x26, 0x04), (0x25, 0x05), (0x2e, 0x06), (0x36, 0x07), (0x3d, 0x08),
      (0x3e, 0x09), (0x46, 0x0a), (0x45, 0x0b), (0x4e, 0x0c), (0x55, 0x0d), (0x66, 0x0e), (0x0d, 0x0f), (0x15, 0x10),
      (0x1d, 0x11), (0x24, 0x12), (0x2d, 0x13), (0x2c, 0x14), (0x35, 0x15), (0x3c, 0x16), (0x43, 0x17), (0x44, 0x18),
      (0x4d, 0x19), (0x54, 0x1a), (0x5b, 0x1b), (0x5a, 0x1c), (0x14, 0x1d), (0x1c, 0x1e), (0x1b, 0x1f), (0x23, 0x20),
      (0x2b, 0x21), (0x34, 0x22), (0x33, 0x23), (0x3b, 0x24), (0x42, 0x25), (0x4b, 0x26), (0x4c, 0x27), (0x52, 0x28),
      (0x0e, 0x29), (0x12, 0x2a), (0x5d, 0x2b), (0x1a, 0x2c), (0x22, 0x2d), (0x21, 0x2e), (0x2a, 0x2f), (0x32, 0x30),
      (0x31, 0x31), (0x3a, 0x32), (0x41, 0x33), (0x49, 0x34), (0x4a, 0x35), (0x59, 0x36), (0x11, 0x38), (0x29, 0x39),
      (0x58, 0x3a), (0x61, 0x56)]"

definition set2_ext_to_set1 :: "(u8 \<times> u8) list" where
  "set2_ext_to_set1 =
     [(0x14, 0x1d), (0x11, 0x38), (0x5a, 0x1c), (0x6c, 0x47), (0x75, 0x48), (0x6b, 0x4b), (0x74, 0x4d), (0x69, 0x4f),
      (0x72, 0x50), (0x71, 0x53)]"

section \<open>The two buffers\<close>

definition push_event :: "keyboard \<Rightarrow> u16 \<Rightarrow> keyboard" where
  "push_event k ev =
     (let fut = (kb_evt_write k + 1) mod KBD_EVENT_BUFFER;
          k1 = (if fut = kb_evt_read k then k\<lparr>kb_evt_read := (kb_evt_read k + 1) mod KBD_EVENT_BUFFER\<rparr> else k)
      in k1\<lparr>kb_evt := (kb_evt k1)(kb_evt_write k1 := ev), kb_evt_write := fut\<rparr>)"

definition push_key :: "keyboard \<Rightarrow> int \<Rightarrow> keyboard" where
  "push_key k key =
     (let fut = (kb_write k + 1) mod KBD_BUFFER in
      if fut = kb_read k then k
      else push_event (k\<lparr>kb_buffer := (kb_buffer k)(kb_write k := key), kb_write := fut\<rparr>) (word_of_int key AND 0x7fff))"

definition keyboard_try_getchar :: "keyboard \<Rightarrow> keyboard \<times> int" where
  "keyboard_try_getchar k =
     (if kb_read k = kb_write k then (k, -1)
      else (k\<lparr>kb_read := (kb_read k + 1) mod KBD_BUFFER\<rparr>, kb_buffer k (kb_read k)))"

text \<open>\<open>keyboard_try_get_event\<close> and \<open>keyboard_event_available\<close> after their \<open>keyboard_poll ()\<close>.\<close>

definition try_get_event :: "keyboard \<Rightarrow> keyboard \<times> int" where
  "try_get_event k =
     (if kb_evt_read k = kb_evt_write k then (k, -1)
      else (k\<lparr>kb_evt_read := (kb_evt_read k + 1) mod KBD_EVENT_BUFFER\<rparr>, uint (kb_evt k (kb_evt_read k))))"

text \<open>
  \<open>keyboard_init\<close>; \<open>raw\<close> says whether the configuration byte that \<open>keyboard_controller_setup\<close> reads
  back from the controller has translation to set 1 switched off.
\<close>

definition keyboard_init :: "bool \<Rightarrow> keyboard \<Rightarrow> keyboard" where
  "keyboard_init raw k =
     k\<lparr>kb_read := 0, kb_write := 0, kb_key_down := (\<lambda>_. False), kb_ext_down := (\<lambda>_. False), kb_shift := False, kb_left := False,
       kb_right := False, kb_ctrl := False, kb_alt := False, kb_caps := False, kb_ext_prefix := False,
       kb_break_prefix := False, kb_raw2 := raw, kb_backspace := 0, kb_set := if raw then 2 else 1, kb_layout := ''us''\<rparr>"

definition keyboard_reset_console_state :: "keyboard \<Rightarrow> keyboard" where
  "keyboard_reset_console_state k =
     k\<lparr>kb_read := 0, kb_write := 0, kb_evt_read := 0, kb_evt_write := 0, kb_key_down := (\<lambda>_. False), kb_ext_down := (\<lambda>_. False),
       kb_shift := False, kb_left := False, kb_right := False, kb_ctrl := False, kb_alt := False, kb_altgr := False,
       kb_ext_prefix := False, kb_break_prefix := False, kb_backspace := 0\<rparr>"

section \<open>From scancodes to characters\<close>

definition is_alpha :: "u8 \<Rightarrow> bool" where
  "is_alpha c \<longleftrightarrow> chr CHR ''a'' \<le> c \<and> c \<le> chr CHR ''z'' \<or> chr CHR ''A'' \<le> c \<and> c \<le> chr CHR ''Z''"

definition shifted_with_caps :: "keyboard \<Rightarrow> u8 \<Rightarrow> u8 \<Rightarrow> u8" where
  "shifted_with_caps k normal shifted =
     (if normal = 0 then 0
      else if kb_caps k \<and> is_alpha normal \<and> is_alpha shifted then (if kb_shift k then normal else shifted)
      else if kb_shift k then shifted else normal)"

text \<open>\<open>dvorak[p - qwerty]\<close> for the \<open>p\<close> that \<open>strchr (qwerty, c)\<close> returns.\<close>

definition at_same_place :: "u8 list \<Rightarrow> u8 list \<Rightarrow> u8 \<Rightarrow> u8 option" where
  "at_same_place from to c = map_of (zip from to) c"

definition remap_layout :: "string \<Rightarrow> u8 \<Rightarrow> u8" where
  "remap_layout layout c =
     (if layout = ''fr'' then
        (if c = chr CHR ''q'' then chr CHR ''a'' else if c = chr CHR ''Q'' then chr CHR ''A''
         else if c = chr CHR ''a'' then chr CHR ''q'' else if c = chr CHR ''A'' then chr CHR ''Q''
         else if c = chr CHR ''w'' then chr CHR ''z'' else if c = chr CHR ''W'' then chr CHR ''Z''
         else if c = chr CHR ''z'' then chr CHR ''w'' else if c = chr CHR ''Z'' then chr CHR ''W'' else c)
      else if layout = ''dvorak'' then
        (case at_same_place (bytes_of ''qwertyuiop[]asdfghjkl;'' @ 39 # bytes_of ''zxcvbnm,./'')
                (39 # bytes_of '',.pyfgcrl/=aoeuidhtns-;qjkxbmwvz'') c of
           Some d \<Rightarrow> d
         | None \<Rightarrow>
             (case at_same_place (bytes_of ''QWERTYUIOP{}ASDFGHJKL:'' @ 34 # bytes_of ''ZXCVBNM<>?'')
                     (34 # bytes_of ''<>PYFGCRL?+AOEUIDHTNS_:QJKXBMWVZ'') c of
                Some d \<Rightarrow> d
              | None \<Rightarrow> c))
      else if layout = ''uk'' then (if c = chr CHR ''#'' then 126 else c)
      else if layout = ''it'' \<or> layout = ''es'' then (if c = 96 then 39 else if c = 126 then 34 else c)
      else c)"

definition layout_char :: "keyboard \<Rightarrow> u8 \<Rightarrow> u8" where
  "layout_char k scancode =
     (if scancode \<ge> 128 then 0
      else if kb_layout k = ''de'' then
        (let c = (if kb_altgr k then entry (if kb_shift k then de_altgr_shift_map else de_altgr_map) scancode else 0) in
         if c \<noteq> 0 then c else shifted_with_caps k (entry de_normal_map scancode) (entry de_shift_map scancode))
      else if kb_layout k = ''it'' then
        (let c = (if kb_altgr k then entry (if kb_shift k then it_altgr_shift_map else it_altgr_map) scancode else 0) in
         if c \<noteq> 0 then c
         else if kb_shift k \<and> entry it_accent_shift_map scancode \<noteq> 0 then entry it_accent_shift_map scancode
         else if \<not> kb_shift k \<and> entry it_accent_map scancode \<noteq> 0 then entry it_accent_map scancode
         else shifted_with_caps k (entry it_normal_map scancode) (entry it_shift_map scancode))
      else
        (let c = shifted_with_caps k (entry normal_map scancode) (entry shift_map scancode) in
         if c \<noteq> 0 then remap_layout (kb_layout k) c else 0))"

definition released :: "int \<Rightarrow> u16" where
  "released key = word_of_int key OR 0x8000"

definition process_extended_scancode :: "keyboard \<Rightarrow> u8 \<Rightarrow> keyboard" where
  "process_extended_scancode k scancode =
     (let release = scancode AND 0x80 \<noteq> 0; code = scancode AND 0x7f in
      if release then
        let k1 = k\<lparr>kb_ext_down := (kb_ext_down k)(code := False)\<rparr>;
            k2 = (if code = 0x1d then k1\<lparr>kb_ctrl := False\<rparr>
                  else if code = 0x38 then k1\<lparr>kb_alt := False, kb_altgr := False\<rparr> else k1)
        in if code = 0x47 then push_event k2 (released KEY_HOME)
           else if code = 0x48 then push_event k2 (released KEY_UP)
           else if code = 0x4b then push_event k2 (released KEY_LEFT)
           else if code = 0x4d then push_event k2 (released KEY_RIGHT)
           else if code = 0x4f then push_event k2 (released KEY_END)
           else if code = 0x50 then push_event k2 (released KEY_DOWN)
           else if code = 0x53 then push_event k2 (released KEY_DELETE)
           else k2
      else if kb_ext_down k code then k
      else
        let k1 = k\<lparr>kb_ext_down := (kb_ext_down k)(code := True)\<rparr>
        in if code = 0x1c then push_key k1 10
           else if code = 0x1d then k1\<lparr>kb_ctrl := True\<rparr>
           else if code = 0x38 then k1\<lparr>kb_alt := True, kb_altgr := True\<rparr>
           else if code = 0x47 then push_key k1 KEY_HOME
           else if code = 0x48 then push_key k1 KEY_UP
           else if code = 0x4b then push_key k1 (if kb_shift k1 then KEY_SHIFT_LEFT else KEY_LEFT)
           else if code = 0x4d then push_key k1 (if kb_shift k1 then KEY_SHIFT_RIGHT else KEY_RIGHT)
           else if code = 0x4f then push_key k1 KEY_END
           else if code = 0x50 then push_key k1 KEY_DOWN
           else if code = 0x53 then push_key k1 KEY_DELETE
           else k1)"

definition set1_release :: "keyboard \<Rightarrow> u8 \<Rightarrow> keyboard" where
  "set1_release k code =
     (let k1 = k\<lparr>kb_key_down := (kb_key_down k)(code := False)\<rparr>;
          k2 = (if code = 0x2a then k1\<lparr>kb_left := False, kb_shift := kb_right k1\<rparr>
                else if code = 0x36 then k1\<lparr>kb_right := False, kb_shift := kb_left k1\<rparr>
                else if code = 0x1d then push_event (k1\<lparr>kb_ctrl := False\<rparr>) (0x114 OR 0x8000)
                else if code = 0x38 then push_event (k1\<lparr>kb_alt := False, kb_altgr := False\<rparr>) (0x115 OR 0x8000)
                else if code = 0x39 then push_event k1 (0x113 OR 0x8000)
                else k1);
          c = layout_char k2 code
      in if c \<noteq> 0 then push_event k2 (ucast c OR 0x8000) else k2)"

text \<open>A make code after the test for autorepeat.  \<open>push_key\<close> converts its \<open>char\<close> argument to \<open>int\<close>: \<open>char\<close> is signed on x86-64.\<close>

definition set1_make :: "keyboard \<Rightarrow> u8 \<Rightarrow> keyboard" where
  "set1_make k code =
     (if code = 0x2a then k\<lparr>kb_left := True, kb_shift := True\<rparr>
      else if code = 0x36 then k\<lparr>kb_right := True, kb_shift := True\<rparr>
      else if code = 0x1d then push_key (k\<lparr>kb_ctrl := True\<rparr>) KEY_CTRL
      else if code = 0x38 then push_key (k\<lparr>kb_alt := True\<rparr>) KEY_ALT
      else if code = 0x39 then push_event (push_key k 32) 0x113
      else if kb_ctrl k \<and> kb_alt k \<and> 0x3b \<le> code \<and> code \<le> 0x40 then push_key k (KEY_TTY1 + uint (code - 0x3b))
      else if kb_ctrl k \<and> kb_shift k \<and> code = 0x2e then push_key k KEY_COPY
      else if kb_ctrl k \<and> kb_shift k \<and> code = 0x2f then push_key k KEY_PASTE
      else if kb_ctrl k \<and> code = 0x2e then push_key (k\<lparr>kb_generation := kb_generation k + 1\<rparr>) KEY_CTRL_C
      else
        let c0 = layout_char k code;
            c = (if chr CHR ''A'' \<le> c0 \<and> c0 \<le> chr CHR ''Z'' then c0 - chr CHR ''A'' + chr CHR ''a'' else c0) in
        if kb_ctrl k \<and> chr CHR ''a'' \<le> c \<and> c \<le> chr CHR ''z'' then push_key k (uint c - uint (chr CHR ''a'') + 1)
        else if code = 0x3a then k\<lparr>kb_caps := \<not> kb_caps k\<rparr>
        else if c0 \<noteq> 0 then push_key k (sint c0)
        else k)"

definition process_set1_scancode :: "u64 \<Rightarrow> keyboard \<Rightarrow> u8 \<Rightarrow> keyboard" where
  "process_set1_scancode now k scancode =
     (let release = scancode AND 0x80 \<noteq> 0; code = scancode AND 0x7f in
      if release then set1_release k code
      else if kb_key_down k code \<and> (code \<noteq> 0x0e \<or> now - kb_backspace k < 5) then k
      else set1_make (k\<lparr>kb_key_down := (kb_key_down k)(code := True), kb_backspace := if code = 0x0e then now else kb_backspace k\<rparr>) code)"

definition process_scancode :: "u64 \<Rightarrow> keyboard \<Rightarrow> u8 \<Rightarrow> keyboard" where
  "process_scancode now k scancode =
     (if scancode = PS2_ACK \<or> scancode = PS2_RESEND \<or> scancode = PS2_BAT_OK then k
      else if scancode = 0xf0 then k\<lparr>kb_raw2 := True, kb_set := 2, kb_break_prefix := True\<rparr>
      else if scancode = 0xe0 then k\<lparr>kb_ext_prefix := True\<rparr>
      else if \<not> kb_raw2 k \<and> scancode = 0x66 then process_set1_scancode now k 0x0e
      else if kb_raw2 k \<or> kb_set k = 2 \<or> kb_break_prefix k then
        let release = kb_break_prefix k; extended = kb_ext_prefix k;
            mapped = (if scancode < 128 then entry (if extended then set2_ext_to_set1 else set2_to_set1) scancode else 0);
            k1 = k\<lparr>kb_break_prefix := False, kb_ext_prefix := False\<rparr>;
            mapped' = (if release then mapped OR 0x80 else mapped)
        in if mapped = 0 then k1
           else if extended then process_extended_scancode k1 mapped'
           else process_set1_scancode now k1 mapped'
      else if kb_ext_prefix k then process_extended_scancode (k\<lparr>kb_ext_prefix := False\<rparr>) scancode
      else process_set1_scancode now k scancode)"

text \<open>
  \<open>keyboard_poll\<close> on what the status port, the data port and the tick counter give: at most \<open>n\<close>
  bytes (64 in the code), until the status says that the controller has no byte.
\<close>

fun poll_loop :: "nat \<Rightarrow> keyboard \<Rightarrow> (u8 \<times> u8 \<times> u64) list \<Rightarrow> keyboard" where
  "poll_loop 0 k ports = k"
| "poll_loop (Suc n) k [] = k"
| "poll_loop (Suc n) k ((status, scancode, now) # ports) =
     (if status AND I8042_STATUS_OUTPUT_FULL = 0 then k
      else if status AND I8042_STATUS_AUX_DATA \<noteq> 0 then poll_loop n k ports
      else poll_loop n (process_scancode now k scancode) ports)"

definition keyboard_poll :: "keyboard \<Rightarrow> (u8 \<times> u8 \<times> u64) list \<Rightarrow> keyboard" where
  "keyboard_poll = poll_loop 64"

definition keyboard_try_get_event :: "keyboard \<Rightarrow> (u8 \<times> u8 \<times> u64) list \<Rightarrow> keyboard \<times> int" where
  "keyboard_try_get_event k ports = try_get_event (keyboard_poll k ports)"

definition keyboard_input_available :: "keyboard \<Rightarrow> (u8 \<times> u8 \<times> u64) list \<Rightarrow> keyboard \<times> bool" where
  "keyboard_input_available k ports = (let k1 = keyboard_poll k ports in (k1, kb_read k1 \<noteq> kb_write k1))"

definition keyboard_event_available :: "keyboard \<Rightarrow> (u8 \<times> u8 \<times> u64) list \<Rightarrow> keyboard \<times> bool" where
  "keyboard_event_available k ports = (let k1 = keyboard_poll k ports in (k1, kb_evt_read k1 \<noteq> kb_evt_write k1))"

definition keyboard_set_layout :: "keyboard \<Rightarrow> string \<Rightarrow> keyboard \<times> int" where
  "keyboard_set_layout k name =
     (if name \<in> set [''us'', ''uk'', ''de'', ''fr'', ''it'', ''es'', ''nl'', ''lt'', ''pl'', ''dvorak'']
      then (k\<lparr>kb_layout := name\<rparr>, 0) else (k, -1))"

definition keyboard_consume_interrupt :: "keyboard \<Rightarrow> (u8 \<times> u8 \<times> u64) list \<Rightarrow> keyboard \<times> bool" where
  "keyboard_consume_interrupt k0 ports =
     (let k = keyboard_poll k0 ports in
      if kb_consumed k = kb_generation k then (k, False)
      else let k1 = k\<lparr>kb_consumed := kb_generation k\<rparr> in
           (if kb_read k \<noteq> kb_write k \<and> kb_buffer k (kb_read k) = KEY_CTRL_C
            then k1\<lparr>kb_read := (kb_read k + 1) mod KBD_BUFFER\<rparr> else k1, True))"

definition keyboard_ack_interrupt :: "keyboard \<Rightarrow> keyboard" where
  "keyboard_ack_interrupt k = k\<lparr>kb_consumed := kb_generation k\<rparr>"

section \<open>The buffers are queues\<close>

text \<open>What a ring buffer of \<open>n\<close> places holds between the read and the write position.\<close>

definition ring :: "nat \<Rightarrow> (nat \<Rightarrow> 'a) \<Rightarrow> nat \<Rightarrow> nat \<Rightarrow> 'a list" where
  "ring n buf r w = map buf (if r \<le> w then [r..<w] else [r..<n] @ [0..<w])"

lemma ring_length: "r < n \<Longrightarrow> w < n \<Longrightarrow> length (ring n buf r w) = (if r \<le> w then w - r else n - r + w)"
  by (simp add: ring_def)

lemma ring_full: "r < n \<Longrightarrow> w < n \<Longrightarrow> (w + 1) mod n = r \<longleftrightarrow> length (ring n buf r w) = n - 1"
  by (cases "w + 1 = n") (auto simp: ring_length)

lemma ring_push:
  assumes "r < n" "w < n" "(w + 1) mod n \<noteq> r"
  shows "ring n (buf(w := c)) r ((w + 1) mod n) = ring n buf r w @ [c]"
proof (cases "w + 1 = n")
  case True
  then have "r \<noteq> 0" "r \<le> w" using assms by auto
  then show ?thesis using True by (auto simp: ring_def simp flip: True)
next
  case False
  then have "(w + 1) mod n = w + 1" "w + 1 \<noteq> r" using assms by auto
  then show ?thesis using assms by (auto simp: ring_def)
qed

lemma ring_pop:
  assumes "r < n" "w < n" "r \<noteq> w"
  shows "ring n buf r w = buf r # ring n buf ((r + 1) mod n) w"
proof (cases "r + 1 = n")
  case True
  then have "w < r" using assms by auto
  moreover have "[r..<n] = [r]" using True by (simp flip: True)
  ultimately show ?thesis using True by (simp add: ring_def)
next
  case False
  then have "(r + 1) mod n = r + 1" "r < n" using assms by auto
  then show ?thesis using assms by (auto simp: ring_def upt_conv_Cons)
qed

definition keys :: "keyboard \<Rightarrow> int list" where
  "keys k = ring KBD_BUFFER (kb_buffer k) (kb_read k) (kb_write k)"

definition events :: "keyboard \<Rightarrow> u16 list" where
  "events k = ring KBD_EVENT_BUFFER (kb_evt k) (kb_evt_read k) (kb_evt_write k)"

definition rings_ok :: "keyboard \<Rightarrow> bool" where
  "rings_ok k \<longleftrightarrow> kb_read k < KBD_BUFFER \<and> kb_write k < KBD_BUFFER \<and> kb_evt_read k < KBD_EVENT_BUFFER \<and> kb_evt_write k < KBD_EVENT_BUFFER"

text \<open>The queues the buffers implement: the key buffer refuses when it is full, the event buffer drops its oldest entry.\<close>

definition key_put :: "int \<Rightarrow> int list \<Rightarrow> int list" where
  "key_put c q = (if length q < KBD_BUFFER - 1 then q @ [c] else q)"

definition event_put :: "u16 \<Rightarrow> u16 list \<Rightarrow> u16 list" where
  "event_put e q = (if length q < KBD_EVENT_BUFFER - 1 then q @ [e] else tl q @ [e])"

lemma push_event_ok:
  assumes "rings_ok k"
  shows "events (push_event k e) = event_put e (events k)" "keys (push_event k e) = keys k" "rings_ok (push_event k e)"
proof -
  have r: "kb_evt_read k < KBD_EVENT_BUFFER" "kb_evt_write k < KBD_EVENT_BUFFER" and n: "0 < KBD_EVENT_BUFFER" "1 < KBD_EVENT_BUFFER"
    using assms by (auto simp: rings_ok_def KBD_EVENT_BUFFER_def)
  show "keys (push_event k e) = keys k" "rings_ok (push_event k e)"
    using assms n by (simp_all add: push_event_def keys_def rings_ok_def Let_def)
  show "events (push_event k e) = event_put e (events k)"
  proof (cases "(kb_evt_write k + 1) mod KBD_EVENT_BUFFER = kb_evt_read k")
    case False
    then have "length (events k) < KBD_EVENT_BUFFER - 1"
      using ring_full [OF r, of "kb_evt k"] r by (auto simp: events_def ring_length split: if_splits)
    then show ?thesis using ring_push [OF r False, of "kb_evt k" e] False by (simp add: push_event_def events_def event_put_def Let_def)
  next
    case True
    let ?r = "(kb_evt_read k + 1) mod KBD_EVENT_BUFFER"
    have full: "length (events k) = KBD_EVENT_BUFFER - 1" using ring_full [OF r, of "kb_evt k"] True by (simp add: events_def)
    then have ne: "kb_evt_read k \<noteq> kb_evt_write k" using n by (auto simp: events_def ring_def)
    have "(kb_evt_write k + 1) mod KBD_EVENT_BUFFER \<noteq> ?r"
      using True r n by (cases "kb_evt_read k + 1 = KBD_EVENT_BUFFER") auto
    moreover have "?r < KBD_EVENT_BUFFER" using n by simp
    ultimately have "events (push_event k e) = ring KBD_EVENT_BUFFER (kb_evt k) ?r (kb_evt_write k) @ [e]"
      using ring_push [of ?r KBD_EVENT_BUFFER "kb_evt_write k" "kb_evt k" e] r True by (simp add: push_event_def events_def Let_def)
    then show ?thesis using ring_pop [OF r ne, of "kb_evt k"] full by (simp add: event_put_def events_def)
  qed
qed

lemma push_key_ok:
  assumes "rings_ok k"
  shows "keys (push_key k c) = key_put c (keys k)" "rings_ok (push_key k c)"
    "events (push_key k c) = (if length (keys k) < KBD_BUFFER - 1 then event_put (word_of_int c AND 0x7fff) (events k) else events k)"
proof -
  have r: "kb_read k < KBD_BUFFER" "kb_write k < KBD_BUFFER" and n: "0 < KBD_BUFFER" using assms by (auto simp: rings_ok_def KBD_BUFFER_def)
  let ?k = "k\<lparr>kb_buffer := (kb_buffer k)(kb_write k := c), kb_write := (kb_write k + 1) mod KBD_BUFFER\<rparr>"
  have ok: "rings_ok ?k" "events ?k = events k" using assms n by (simp_all add: rings_ok_def events_def)
  note P = push_event_ok [OF ok(1), of "word_of_int c AND 0x7fff"]
  have full: "(kb_write k + 1) mod KBD_BUFFER = kb_read k \<longleftrightarrow> \<not> length (keys k) < KBD_BUFFER - 1"
    using ring_full [OF r, of "kb_buffer k"] r by (auto simp: keys_def ring_length split: if_splits)
  show "keys (push_key k c) = key_put c (keys k)" "rings_ok (push_key k c)"
    "events (push_key k c) = (if length (keys k) < KBD_BUFFER - 1 then event_put (word_of_int c AND 0x7fff) (events k) else events k)"
    using P ok full assms ring_push [OF r, of "kb_buffer k" c]
    by (auto simp: push_key_def Let_def key_put_def keys_def)
qed

lemma keys_update [simp]:
  "keys (kb_key_down_update f k) = keys k" "keys (kb_ext_down_update f k) = keys k" "keys (kb_shift_update g k) = keys k"
  "keys (kb_left_update g k) = keys k" "keys (kb_right_update g k) = keys k" "keys (kb_ctrl_update g k) = keys k"
  "keys (kb_alt_update g k) = keys k" "keys (kb_altgr_update g k) = keys k" "keys (kb_caps_update g k) = keys k"
  "keys (kb_ext_prefix_update g k) = keys k" "keys (kb_break_prefix_update g k) = keys k" "keys (kb_raw2_update g k) = keys k"
  "keys (kb_backspace_update h k) = keys k" "keys (kb_generation_update h k) = keys k" "keys (kb_set_update i k) = keys k"
  by (simp_all add: keys_def)

lemma rings_ok_update [simp]:
  "rings_ok (kb_key_down_update f k) = rings_ok k" "rings_ok (kb_ext_down_update f k) = rings_ok k" "rings_ok (kb_shift_update g k) = rings_ok k"
  "rings_ok (kb_left_update g k) = rings_ok k" "rings_ok (kb_right_update g k) = rings_ok k" "rings_ok (kb_ctrl_update g k) = rings_ok k"
  "rings_ok (kb_alt_update g k) = rings_ok k" "rings_ok (kb_altgr_update g k) = rings_ok k" "rings_ok (kb_caps_update g k) = rings_ok k"
  "rings_ok (kb_ext_prefix_update g k) = rings_ok k" "rings_ok (kb_break_prefix_update g k) = rings_ok k" "rings_ok (kb_raw2_update g k) = rings_ok k"
  "rings_ok (kb_backspace_update h k) = rings_ok k" "rings_ok (kb_generation_update h k) = rings_ok k" "rings_ok (kb_set_update i k) = rings_ok k"
  by (simp_all add: rings_ok_def)

lemma getchar_ok:
  assumes "rings_ok k"
  shows "case keyboard_try_getchar k of (k', r) \<Rightarrow> events k' = events k \<and> rings_ok k' \<and>
        (case keys k of [] \<Rightarrow> r = -1 \<and> k' = k | q # qs \<Rightarrow> r = q \<and> keys k' = qs)"
proof -
  have r: "kb_read k < KBD_BUFFER" "kb_write k < KBD_BUFFER" using assms by (auto simp: rings_ok_def)
  show ?thesis
  proof (cases "kb_read k = kb_write k")
    case True
    then have "keys k = []" by (simp add: keys_def ring_def)
    then show ?thesis using True assms by (simp add: keyboard_try_getchar_def)
  next
    case False
    then show ?thesis using ring_pop [OF r False, of "kb_buffer k"] assms by (simp add: keyboard_try_getchar_def keys_def events_def rings_ok_def)
  qed
qed

text \<open>
  C27: the two ring buffers are queues.  A key goes to the end of a key queue of at most 255 keys and
  is dropped, with its event, when the queue is full; an event goes to the end of an event queue of
  at most 1023 events and pushes the oldest one out.  Reading takes the oldest entry, and gives -1
  exactly when there is none or, for a key, when the key itself is -1.
\<close>

theorem kbd_queues_refine:
  assumes "rings_ok k"
  shows "keys (push_key k c) = key_put c (keys k)
    \<and> events (push_key k c) = (if length (keys k) < KBD_BUFFER - 1 then event_put (word_of_int c AND 0x7fff) (events k) else events k)
    \<and> events (push_event k e) = event_put e (events k) \<and> keys (push_event k e) = keys k
    \<and> (case keyboard_try_getchar k of (k', r) \<Rightarrow> events k' = events k \<and> rings_ok k' \<and>
        (case keys k of [] \<Rightarrow> r = -1 \<and> k' = k | q # qs \<Rightarrow> r = q \<and> keys k' = qs))
    \<and> (case try_get_event k of (k', r) \<Rightarrow> keys k' = keys k \<and> rings_ok k' \<and>
        (case events k of [] \<Rightarrow> r = -1 \<and> k' = k | q # qs \<Rightarrow> r = uint q \<and> events k' = qs))
    \<and> rings_ok (push_key k c) \<and> rings_ok (push_event k e) \<and> length (keys k) \<le> 255 \<and> length (events k) \<le> 1023"
proof -
  have r: "kb_read k < KBD_BUFFER" "kb_write k < KBD_BUFFER" and q: "kb_evt_read k < KBD_EVENT_BUFFER" "kb_evt_write k < KBD_EVENT_BUFFER"
    using assms by (auto simp: rings_ok_def)
  have e: "events k = [] \<longleftrightarrow> kb_evt_read k = kb_evt_write k" using q by (auto simp: events_def ring_def split: if_splits)
  have l: "length (keys k) \<le> 255" "length (events k) \<le> 1023"
    using r q by (auto simp: keys_def events_def ring_length KBD_BUFFER_def KBD_EVENT_BUFFER_def)
  note g = getchar_ok [OF assms]
  have v: "case try_get_event k of (k', r) \<Rightarrow> keys k' = keys k \<and> rings_ok k' \<and>
        (case events k of [] \<Rightarrow> r = -1 \<and> k' = k | q # qs \<Rightarrow> r = uint q \<and> events k' = qs)"
  proof (cases "kb_evt_read k = kb_evt_write k")
    case True
    then show ?thesis using e assms by (simp add: try_get_event_def)
  next
    case False
    then show ?thesis using ring_pop [OF q False, of "kb_evt k"] assms by (simp add: try_get_event_def keys_def events_def rings_ok_def)
  qed
  show ?thesis using push_event_ok [OF assms] push_key_ok [OF assms] l g v by simp
qed

text \<open>The static variables at boot.\<close>

definition kb_zero :: keyboard where
  "kb_zero = \<lparr>kb_buffer = (\<lambda>_. 0), kb_read = 0, kb_write = 0, kb_evt = (\<lambda>_. 0), kb_evt_read = 0, kb_evt_write = 0,
     kb_key_down = (\<lambda>_. False), kb_ext_down = (\<lambda>_. False), kb_shift = False, kb_left = False, kb_right = False, kb_ctrl = False,
     kb_alt = False, kb_altgr = False, kb_caps = False, kb_ext_prefix = False, kb_break_prefix = False, kb_raw2 = False,
     kb_backspace = 0, kb_set = 1, kb_layout = ''us'', kb_generation = 0, kb_consumed = 0\<rparr>"

lemma kb_zero_ok: "rings_ok (keyboard_init raw kb_zero)" "keys (keyboard_init raw kb_zero) = []" "events (keyboard_init raw kb_zero) = []"
  by (simp_all add: kb_zero_def keyboard_init_def rings_ok_def keys_def events_def ring_def KBD_BUFFER_def KBD_EVENT_BUFFER_def)

theorem kbd_queues_refine_witness:
  "keys (push_key (keyboard_init False kb_zero) 97) = [97] \<and> events (push_key (keyboard_init False kb_zero) 97) = [97]"
  using kbd_queues_refine [OF kb_zero_ok(1) [of False], of 97 0]
  by (simp add: kb_zero_ok key_put_def event_put_def KBD_BUFFER_def KBD_EVENT_BUFFER_def)

section \<open>Runs of the driver\<close>

lemma push_event_fields [simp]:
  "kb_key_down (push_event k e) = kb_key_down k"
  "kb_ext_down (push_event k e) = kb_ext_down k"
  "kb_shift (push_event k e) = kb_shift k"
  "kb_left (push_event k e) = kb_left k"
  "kb_right (push_event k e) = kb_right k"
  "kb_ctrl (push_event k e) = kb_ctrl k"
  "kb_alt (push_event k e) = kb_alt k"
  "kb_altgr (push_event k e) = kb_altgr k"
  "kb_caps (push_event k e) = kb_caps k"
  "kb_ext_prefix (push_event k e) = kb_ext_prefix k"
  "kb_break_prefix (push_event k e) = kb_break_prefix k"
  "kb_raw2 (push_event k e) = kb_raw2 k"
  "kb_backspace (push_event k e) = kb_backspace k"
  "kb_set (push_event k e) = kb_set k"
  "kb_layout (push_event k e) = kb_layout k"
  "kb_generation (push_event k e) = kb_generation k"
  "kb_consumed (push_event k e) = kb_consumed k"
  by (simp_all add: push_event_def Let_def)

lemma push_key_fields [simp]:
  "kb_key_down (push_key k c) = kb_key_down k"
  "kb_ext_down (push_key k c) = kb_ext_down k"
  "kb_shift (push_key k c) = kb_shift k"
  "kb_left (push_key k c) = kb_left k"
  "kb_right (push_key k c) = kb_right k"
  "kb_ctrl (push_key k c) = kb_ctrl k"
  "kb_alt (push_key k c) = kb_alt k"
  "kb_altgr (push_key k c) = kb_altgr k"
  "kb_caps (push_key k c) = kb_caps k"
  "kb_ext_prefix (push_key k c) = kb_ext_prefix k"
  "kb_break_prefix (push_key k c) = kb_break_prefix k"
  "kb_raw2 (push_key k c) = kb_raw2 k"
  "kb_backspace (push_key k c) = kb_backspace k"
  "kb_set (push_key k c) = kb_set k"
  "kb_layout (push_key k c) = kb_layout k"
  "kb_generation (push_key k c) = kb_generation k"
  "kb_consumed (push_key k c) = kb_consumed k"
  by (simp_all add: push_key_def Let_def)

text \<open>A sequence of bytes from the controller, with the ticks at which they are read.\<close>

definition scancodes :: "(u64 \<times> u8) list \<Rightarrow> keyboard \<Rightarrow> keyboard" where
  "scancodes codes k = fold (\<lambda>(now, c) k. process_scancode now k c) codes k"

lemma scancodes_simps [simp]:
  "scancodes [] k = k" "scancodes ((now, c) # cs) k = scancodes cs (process_scancode now k c)"
  "scancodes (cs @ ds) k = scancodes ds (scancodes cs k)"
  by (simp_all add: scancodes_def)

lemma bit_0x80: "bit (0x80 :: int) n \<longleftrightarrow> n = 7"
proof -
  have "(0x80 :: int) = 2 ^ 7" by simp
  then show ?thesis by (simp only: bit_exp_iff) auto
qed

lemma high_bit: "c AND 0x80 = (if bit c 7 then 0x80 else (0 :: u8))"
  by (auto intro!: bit_word_eqI simp: bit_and_iff bit_0x80)

lemma break_code: "c AND 0x80 \<noteq> 0 \<Longrightarrow> c = (c AND 0x7f) OR (0x80 :: u8)"
proof -
  assume "c AND 0x80 \<noteq> 0"
  then have b: "bit c 7" by (simp add: high_bit split: if_splits)
  have m: "(0x7f :: u8) = mask 7" by (simp add: mask_eq_exp_minus_1)
  show ?thesis
  proof (rule bit_word_eqI)
    fix n :: nat
    assume n: "n < LENGTH(8)"
    then show "bit c n \<longleftrightarrow> bit (c AND 0x7f OR 0x80) n"
      unfolding m using b by (cases "n = 7") (auto simp: bit_or_iff bit_and_iff bit_mask_iff bit_0x80)
  qed
qed

text \<open>Set 1 without a prefix byte pending, as after \<open>keyboard_init\<close> with translation on.\<close>

definition set1_mode :: "keyboard \<Rightarrow> bool" where
  "set1_mode k \<longleftrightarrow> \<not> kb_raw2 k \<and> kb_set k = 1 \<and> \<not> kb_break_prefix k"

subsection \<open>The left shift key sticks\<close>

lemma extended_keeps:
  "set1_mode (process_extended_scancode k c) = set1_mode k"
  "kb_left (process_extended_scancode k c) = kb_left k" "kb_shift (process_extended_scancode k c) = kb_shift k"
  by (simp_all add: process_extended_scancode_def set1_mode_def Let_def)

lemma set1_mode_keeps: "set1_mode (process_set1_scancode now k c) = set1_mode k"
  by (simp add: process_set1_scancode_def set1_release_def set1_make_def set1_mode_def Let_def)

lemma left_shift_kept:
  assumes "set1_mode k" "kb_left k" "kb_shift k" "c \<noteq> 0xf0"
  shows "set1_mode (process_scancode now k c) \<and> kb_left (process_scancode now k c) \<and> kb_shift (process_scancode now k c)"
proof -
  have m: "set1_mode (k\<lparr>kb_ext_prefix := b\<rparr>)" for b using assms(1) by (simp add: set1_mode_def)
  have s: "kb_left (process_set1_scancode now k d) \<and> kb_shift (process_set1_scancode now k d)" if "d \<noteq> 0xaa" for d
  proof (cases "d AND 0x80 = 0")
    case False
    have "d AND 0x7f \<noteq> 0x2a" using break_code [OF False] that by auto
    then show ?thesis using False assms(2,3) by (simp add: process_set1_scancode_def set1_release_def Let_def)
  next
    case True
    then show ?thesis using assms(2,3) by (auto simp: process_set1_scancode_def set1_make_def Let_def)
  qed
  show ?thesis
    using assms m s [of c] s [of "0x0e"] set1_mode_keeps extended_keeps
    by (auto simp: process_scancode_def PS2_BAT_OK_def set1_mode_def)
qed

text \<open>
  With translated scancodes the left shift key never comes up again.  After it has been pressed
  once, every sequence of bytes from the keyboard without 0xf0, the break prefix of set 2 that set 1
  does not have, leaves it down: its break code 0xaa is the byte \<open>PS2_BAT_OK\<close>, which
  \<open>process_scancode\<close> throws away.
\<close>

lemma kbd_left_shift_sticks:
  assumes "set1_mode k" "\<not> kb_ext_prefix k" "\<not> kb_key_down k 0x2a" "0xf0 \<notin> snd ` set codes"
  shows "kb_left (scancodes ((now, 0x2a) # codes) k) \<and> kb_shift (scancodes ((now, 0x2a) # codes) k)"
proof -
  define k1 where "k1 = process_scancode now k 0x2a"
  have "set1_mode k1 \<and> kb_left k1 \<and> kb_shift k1"
    using assms(1-3) by (simp add: k1_def process_scancode_def process_set1_scancode_def set1_make_def set1_mode_def
        PS2_ACK_def PS2_RESEND_def PS2_BAT_OK_def)
  then have "set1_mode (scancodes codes k1) \<and> kb_left (scancodes codes k1) \<and> kb_shift (scancodes codes k1)"
    using assms(4)
  proof (induction codes arbitrary: k1)
    case (Cons nc codes)
    obtain n c where nc: "nc = (n, c)" by (cases nc)
    then have "c \<noteq> 0xf0" using Cons.prems(2) by auto
    then show ?case using Cons.IH [of "process_scancode n k1 c"] left_shift_kept Cons.prems nc by auto
  qed simp
  then show ?thesis by (simp add: k1_def)
qed

subsection \<open>Typing\<close>

text \<open>The key of a character on the US layout, and the scancodes of pressing it, with the right shift key if needed.\<close>

definition key_of :: "u8 \<Rightarrow> (u8 \<times> bool) option" where
  "key_of c =
     (case find (\<lambda>(code, d). d = c) normal_map of
        Some (code, _) \<Rightarrow> Some (code, False)
      | None \<Rightarrow> (case find (\<lambda>(code, d). d = c) shift_map of Some (code, _) \<Rightarrow> Some (code, True) | None \<Rightarrow> None))"

definition keystroke :: "u8 \<Rightarrow> u8 list" where
  "keystroke c =
     (case key_of c of
        None \<Rightarrow> []
      | Some (code, shifted) \<Rightarrow> (if shifted then [0x36] else []) @ [code, code OR 0x80] @ (if shifted then [0xb6] else []))"

text \<open>No key down but, when \<open>sh\<close> holds, the right shift key.\<close>

definition ready :: "bool \<Rightarrow> keyboard \<Rightarrow> bool" where
  "ready sh k \<longleftrightarrow> rings_ok k \<and> set1_mode k \<and> \<not> kb_ext_prefix k \<and> kb_shift k = sh \<and> \<not> kb_left k \<and> kb_right k = sh \<and> \<not> kb_ctrl k \<and>
     \<not> kb_alt k \<and> \<not> kb_caps k \<and> kb_key_down k = (\<lambda>c. sh \<and> c = 0x36) \<and> kb_layout k = ''us''"

definition plain_code :: "u8 \<Rightarrow> bool" where
  "plain_code code \<longleftrightarrow> code < 0x80 \<and> code AND 0x80 = 0 \<and> code AND 0x7f = code \<and> (code OR 0x80) AND 0x7f = code \<and> (code OR 0x80) AND 0x80 \<noteq> 0 \<and>
     code \<notin> {0x2a, 0x36, 0x1d, 0x38, 0x3a, 0x66} \<and> code OR 0x80 \<notin> {0xaa, 0xfa, 0xfe, 0xf0, 0xe0, 0x66}"

definition plain_char :: "u8 \<Rightarrow> bool" where
  "plain_char c \<longleftrightarrow> c \<noteq> 0 \<and> c < 0x80 \<and> sint c = uint c"

text \<open>The two tables have the same scancodes, each once.\<close>

lemma normal_map_plain: "list_all (\<lambda>(code, c). plain_code code \<and> plain_char c \<and> (code = 0x39 \<longrightarrow> c = 32)) normal_map"
  by (simp add: normal_map_def bytes_of_def plain_code_def plain_char_def)

lemma shift_map_plain: "list_all (\<lambda>(code, c). plain_code code \<and> plain_char c \<and> (code = 0x39 \<longrightarrow> c = 32)) shift_map"
  by (simp add: shift_map_def bytes_of_def plain_code_def plain_char_def)

lemma map_codes: "map fst shift_map = map fst normal_map" "distinct (map fst normal_map)"
  by (simp_all add: normal_map_def shift_map_def bytes_of_def)

lemma entry_in: "distinct (map fst m) \<Longrightarrow> (code, c) \<in> set m \<Longrightarrow> entry m code = c"
  by (simp add: entry_def)

lemma find_in: "find P xs = Some x \<Longrightarrow> x \<in> set xs \<and> P x"
  by (induction xs) (auto split: if_splits)

lemma key_of_plain:
  assumes "key_of c = Some (code, sh)"
  shows "plain_code code" "plain_char c" "entry normal_map code \<noteq> 0" "code = 0x39 \<Longrightarrow> c = 32"
    "(if sh then entry shift_map code else entry normal_map code) = c"
proof -
  have "if sh then (code, c) \<in> set shift_map else (code, c) \<in> set normal_map"
    using assms unfolding key_of_def by (auto split: option.splits prod.splits dest!: find_in)
  moreover have "(code, d) \<in> set shift_map \<Longrightarrow> entry shift_map code = d \<and> entry normal_map code \<noteq> 0" for d
  proof -
    assume d: "(code, d) \<in> set shift_map"
    then have "code \<in> set (map fst normal_map)" unfolding map_codes(1) [symmetric] by force
    then obtain e where "(code, e) \<in> set normal_map" by auto
    then show ?thesis using entry_in [of shift_map] entry_in [of normal_map] map_codes d normal_map_plain
      by (force simp: list_all_iff plain_char_def)
  qed
  ultimately have "plain_code code \<and> plain_char c \<and> entry normal_map code \<noteq> 0 \<and> (code = 0x39 \<longrightarrow> c = 32) \<and>
      (if sh then entry shift_map code else entry normal_map code) = c"
    using normal_map_plain shift_map_plain entry_in [OF map_codes(2)] by (auto simp: list_all_iff plain_char_def split: if_splits)
  then show "plain_code code" "plain_char c" "entry normal_map code \<noteq> 0" "code = 0x39 \<Longrightarrow> c = 32"
    "(if sh then entry shift_map code else entry normal_map code) = c" by blast+
qed

lemma press_release:
  assumes r: "ready sh k" and c: "key_of c = Some (code, sh)" and room: "length (keys k) < 255"
  shows "ready sh (scancodes [(t, code), (u, code OR 0x80)] k) \<and> keys (scancodes [(t, code), (u, code OR 0x80)] k) = keys k @ [uint c]"
proof -
  note K = key_of_plain [OF c]
  have P: "code < 0x80" "code AND 0x80 = 0" "code AND 0x7f = code" "(code OR 0x80) AND 0x7f = code" "(code OR 0x80) AND 0x80 \<noteq> 0"
    "code \<noteq> 0x2a" "code \<noteq> 0x36" "code \<noteq> 0x1d" "code \<noteq> 0x38" "code \<noteq> 0x3a" "code \<noteq> 0x66"
    "code OR 0x80 \<noteq> 0xaa" "code OR 0x80 \<noteq> 0xfa" "code OR 0x80 \<noteq> 0xfe" "code OR 0x80 \<noteq> 0xf0" "code OR 0x80 \<noteq> 0xe0" "code OR 0x80 \<noteq> 0x66"
    using K(1) by (auto simp: plain_code_def)
  have hi: "code \<noteq> 0xaa" "code \<noteq> 0xfa" "code \<noteq> 0xfe" "code \<noteq> 0xf0" "code \<noteq> 0xe0" using P(1) by auto
  have R: "rings_ok k" "set1_mode k" "\<not> kb_ext_prefix k" "kb_shift k = sh" "\<not> kb_left k" "kb_right k = sh" "\<not> kb_ctrl k" "\<not> kb_alt k"
    "\<not> kb_caps k" "kb_key_down k = (\<lambda>c. sh \<and> c = 0x36)" "kb_layout k = ''us''"
    using r by (auto simp: ready_def)
  define k1 where "k1 = k\<lparr>kb_key_down := (kb_key_down k)(code := True), kb_backspace := if code = 0x0e then t else kb_backspace k\<rparr>"
  have k1: "rings_ok k1" "keys k1 = keys k" "layout_char k1 code = c"
    using R K P(1) by (simp_all add: k1_def layout_char_def shifted_with_caps_def remap_layout_def Let_def plain_char_def)
  have f1: "\<not> kb_ctrl k1" using R(7) by (simp add: k1_def)
  have make: "set1_make k1 code = (if code = 0x39 then push_event (push_key k1 32) 0x113 else push_key k1 (sint c))"
    using P f1 k1(3) K(2) by (simp add: set1_make_def Let_def plain_char_def)
  define k2 where "k2 = process_scancode t k code"
  have "process_set1_scancode t k code = set1_make k1 code"
    using R(10) P by (simp add: process_set1_scancode_def Let_def k1_def)
  then have k2: "k2 = (if code = 0x39 then push_event (push_key k1 32) 0x113 else push_key k1 (sint c))"
    using R(2,3) P hi make by (simp add: k2_def process_scancode_def PS2_ACK_def PS2_RESEND_def PS2_BAT_OK_def set1_mode_def)
  have keys2: "keys k2 = keys k @ [uint c]" "rings_ok k2"
    using push_key_ok [OF k1(1)] push_event_ok [OF push_key_ok(2) [OF k1(1)]] k1(2) K(2,4) room
    by (auto simp: k2 key_put_def KBD_BUFFER_def plain_char_def)
  have f2: "set1_mode k2" "\<not> kb_ext_prefix k2" "kb_shift k2 = sh" "\<not> kb_left k2" "kb_right k2 = sh" "\<not> kb_ctrl k2" "\<not> kb_alt k2"
    "\<not> kb_caps k2" "kb_key_down k2 = (kb_key_down k)(code := True)" "kb_layout k2 = ''us''"
    using R by (simp_all add: k2 k1_def set1_mode_def)
  define k3 where "k3 = k2\<lparr>kb_key_down := (kb_key_down k2)(code := False)\<rparr>"
  define k4 where "k4 = process_scancode u k2 (code OR 0x80)"
  have k4: "\<exists>es. k4 = fold (\<lambda>e k. push_event k e) es k3"
  proof -
    have "k4 = set1_release k2 code"
      using f2 P by (simp add: k4_def process_scancode_def process_set1_scancode_def PS2_ACK_def PS2_RESEND_def PS2_BAT_OK_def set1_mode_def Let_def)
    also have "\<exists>es. set1_release k2 code = fold (\<lambda>e k. push_event k e) es k3"
      unfolding set1_release_def Let_def k3_def [symmetric] using P
      by (auto intro: exI [of _ "[]"] exI [of _ "[x]" for x] exI [of _ "[x, y]" for x y])
    finally show ?thesis .
  qed
  have pe: "rings_ok (fold (\<lambda>e k. push_event k e) es q) \<and> keys (fold (\<lambda>e k. push_event k e) es q) = keys q" if "rings_ok q" for es q
    using that push_event_ok by (induction es arbitrary: q) auto
  have pf: "ready sh (fold (\<lambda>e k. push_event k e) es q) = ready sh q" if "rings_ok q" for es q
    using that push_event_ok(3) by (induction es arbitrary: q) (auto simp: ready_def set1_mode_def)
  have "rings_ok k3" "keys k3 = keys k @ [uint c]" using keys2 by (simp_all add: k3_def)
  moreover have "ready sh k3" using f2 R(10) keys2(2) P(7) by (auto simp: ready_def k3_def set1_mode_def fun_eq_iff)
  ultimately have "ready sh k4 \<and> keys k4 = keys k @ [uint c]" using k4 pe pf by auto
  then show ?thesis by (simp add: k4_def k2_def)
qed

lemma shift_key:
  assumes "ready False k"
  shows "ready True (scancodes [(t, 0x36)] k)" "keys (scancodes [(t, 0x36)] k) = keys k"
  using assms by (auto simp: ready_def process_scancode_def process_set1_scancode_def set1_make_def set1_mode_def
      PS2_ACK_def PS2_RESEND_def PS2_BAT_OK_def Let_def fun_eq_iff)

lemma shift_key_up:
  assumes "ready True k"
  shows "ready False (scancodes [(t, 0xb6)] k)" "keys (scancodes [(t, 0xb6)] k) = keys k"
proof -
  define k1 where "k1 = k\<lparr>kb_key_down := (kb_key_down k)(0x36 := False), kb_right := False, kb_shift := kb_left k\<rparr>"
  have e: "entry normal_map 0x36 = 0" by (simp add: entry_def normal_map_def bytes_of_def)
  have "layout_char k1 0x36 = 0"
    using assms e by (simp add: layout_char_def k1_def ready_def shifted_with_caps_def)
  then have "scancodes [(t, 0xb6)] k = k1"
    using assms by (simp add: ready_def process_scancode_def process_set1_scancode_def set1_release_def set1_mode_def
        PS2_ACK_def PS2_RESEND_def PS2_BAT_OK_def Let_def k1_def)
  moreover have "ready False k1" "keys k1 = keys k" using assms by (auto simp: ready_def k1_def set1_mode_def fun_eq_iff)
  ultimately show "ready False (scancodes [(t, 0xb6)] k)" "keys (scancodes [(t, 0xb6)] k) = keys k" by simp_all
qed

lemma keystroke_ok:
  assumes "ready False k" "key_of c \<noteq> None" "length (keys k) < 255"
  shows "ready False (scancodes (map (\<lambda>b. (t, b)) (keystroke c)) k) \<and> keys (scancodes (map (\<lambda>b. (t, b)) (keystroke c)) k) = keys k @ [uint c]"
proof -
  obtain code sh where c: "key_of c = Some (code, sh)" using assms(2) by auto
  show ?thesis
  proof (cases sh)
    case False
    then show ?thesis using press_release [OF assms(1) _ assms(3), of c code t t] c by (simp add: keystroke_def)
  next
    case True
    define k1 where "k1 = scancodes [(t, 0x36)] k"
    define k2 where "k2 = scancodes [(t, code), (t, code OR 0x80)] k1"
    have k1: "ready True k1" "keys k1 = keys k" using shift_key [OF assms(1), of t] by (simp_all add: k1_def)
    then have "ready True k2 \<and> keys k2 = keys k @ [uint c]"
      using press_release [OF k1(1), of c code t t] c True assms(3) by (simp add: k2_def)
    then have "ready False (scancodes [(t, 0xb6)] k2) \<and> keys (scancodes [(t, 0xb6)] k2) = keys k @ [uint c]"
      using shift_key_up [of k2 t] by simp
    then show ?thesis using c True by (simp add: keystroke_def k1_def k2_def)
  qed
qed



subsection \<open>Characters above 127\<close>

text \<open>
  On the German layout the keys of the umlauts and of sharp s queue a negative number, since
  \<open>char\<close> is signed.  \<open>keyboard_try_getchar\<close> takes it out of the queue and returns it; its callers
  test for a result below 0, which means that no key has been pressed.
\<close>

lemma kbd_umlaut_lost:
  assumes "rings_ok k" "keys k = []" "kb_layout k = ''de''" "\<not> kb_altgr k" "\<not> kb_shift k" "\<not> kb_caps k" "\<not> kb_ctrl k" "code \<in> {0x0c, 0x1a, 0x27, 0x28}"
  shows "snd (keyboard_try_getchar (set1_make k code)) < 0 \<and> keys (fst (keyboard_try_getchar (set1_make k code))) = []"
proof -
  have e: "entry de_normal_map 0x0c = 0xe1" "entry de_normal_map 0x1a = 0x81" "entry de_normal_map 0x27 = 0x94" "entry de_normal_map 0x28 = 0x84"
    by (simp_all add: de_normal_map_def entry_def bytes_of_def)
  have c: "code < 128" "code \<notin> {0x2a, 0x36, 0x1d, 0x38, 0x39, 0x3a}" "entry de_normal_map code \<noteq> 0" "sint (entry de_normal_map code) < 0"
    using assms(8) e by auto
  have "layout_char k code = entry de_normal_map code" "entry de_normal_map code \<noteq> 0" "sint (entry de_normal_map code) < 0"
    using assms c by (simp_all add: layout_char_def shifted_with_caps_def)
  then have m: "set1_make k code = push_key k (sint (entry de_normal_map code))" "sint (entry de_normal_map code) < 0"
    using assms(7) c by (simp_all add: set1_make_def Let_def)
  have "keys (push_key k c) = [c]" for c using push_key_ok(1) [OF assms(1)] assms(2) by (simp add: key_put_def KBD_BUFFER_def)
  then show ?thesis using m getchar_ok [OF push_key_ok(2) [OF assms(1)], of "sint (entry de_normal_map code)"] by (auto split: prod.splits)
qed

end
