(* ===== verification/Tty.thy ===== *)
theory Tty
  imports Keyboard Process
begin

text \<open>
  The terminal input of \<open>kernel/core/syscall.c\<close>: the pending bytes of an escape sequence, the
  encoding of keys, and the reads in line mode and in raw mode; \<open>console_getchar\<close> of
  \<open>kernel/drivers/console/vga.c\<close> below it.

  \<open>tty_pending\<close> is the list of its first \<open>tty_pending_len\<close> bytes.  The input is a list: each element
  is what one turn of the loop of \<open>console_getchar\<close>, or one call of \<open>keyboard_try_getchar\<close>, finds; a
  negative key stands for nothing.  Where the code waits and the list is at its end the result is
  \<open>None\<close>.  \<open>disp\<close> is the disposition of \<open>SIGINT\<close> in the current process, \<open>None\<close> without a process,
  and \<open>ctrl\<close> what \<open>keyboard_is_ctrl_down ()\<close> returns.  A result below 0 of \<open>tty_read_byte\<close> says that
  the process has been ended.
\<close>

definition TNU_TTYF_ICANON :: u32 where "TNU_TTYF_ICANON = 0x0002"
definition TNU_TTYF_ECHO :: u32 where "TNU_TTYF_ECHO = 0x0008"
definition TNU_TTYF_ISIG :: u32 where "TNU_TTYF_ISIG = 0x0001"
definition SIGINT_NUMBER :: nat where "SIGINT_NUMBER = 2"
definition SIGNAL_DISPOSITION_DEFAULT :: u8 where "SIGNAL_DISPOSITION_DEFAULT = 0"
definition SIGNAL_DISPOSITION_IGNORED :: u8 where "SIGNAL_DISPOSITION_IGNORED = 1"
definition SIGNAL_DISPOSITION_HANDLED :: u8 where "SIGNAL_DISPOSITION_HANDLED = 2"
definition PIT_HZ :: nat where "PIT_HZ = 100"

record tty =
  tty_pending :: "u8 list"
  tty_pending_pos :: nat
  tty_lflag :: u32
  tty_vmin :: u8
  tty_vtime :: u8

definition tty_boot :: tty where
  "tty_boot = \<lparr>tty_pending = [], tty_pending_pos = 0, tty_lflag = TNU_TTYF_ICANON OR TNU_TTYF_ECHO OR TNU_TTYF_ISIG, tty_vmin = 1, tty_vtime = 0\<rparr>"

datatype input = Serial u8 | Key int

definition tty_pending_pop :: "tty \<Rightarrow> tty \<times> u8 option" where
  "tty_pending_pop t =
     (let clear = \<lambda>t. t\<lparr>tty_pending := [], tty_pending_pos := 0\<rparr> in
      if tty_pending_pos t \<ge> length (tty_pending t) then (clear t, None)
      else
        let c = tty_pending t ! tty_pending_pos t; t1 = t\<lparr>tty_pending_pos := tty_pending_pos t + 1\<rparr> in
        (if tty_pending_pos t1 \<ge> length (tty_pending t1) then clear t1 else t1, Some c))"

text \<open>The array has 64 bytes.\<close>

definition tty_pending_set :: "tty \<Rightarrow> u8 list \<Rightarrow> tty" where
  "tty_pending_set t seq = t\<lparr>tty_pending := take 64 seq, tty_pending_pos := 0\<rparr>"

definition tty_is_modifier_only_key :: "int \<Rightarrow> bool" where
  "tty_is_modifier_only_key ch \<longleftrightarrow> ch = KEY_CTRL \<or> ch = KEY_ALT \<or> ch = KEY_SHIFT_LEFT \<or> ch = KEY_SHIFT_RIGHT"

definition key_sequence :: "int \<Rightarrow> u8 list" where
  "key_sequence ch =
     (if ch = KEY_UP then 27 # bytes_of ''[A'' else if ch = KEY_DOWN then 27 # bytes_of ''[B''
      else if ch = KEY_RIGHT then 27 # bytes_of ''[C'' else if ch = KEY_LEFT then 27 # bytes_of ''[D''
      else if ch = KEY_HOME then 27 # bytes_of ''[H'' else if ch = KEY_END then 27 # bytes_of ''[F''
      else if ch = KEY_DELETE then 27 # bytes_of ''[3~'' else [])"

definition tty_encode_key :: "tty \<Rightarrow> bool \<Rightarrow> u8 option \<Rightarrow> int \<Rightarrow> tty \<times> int" where
  "tty_encode_key t ctrl disp ch =
     (if ch = KEY_CTRL_C \<and> disp \<noteq> None \<and> disp \<noteq> Some SIGNAL_DISPOSITION_DEFAULT then (t, 3)
      else if ch = 10 then (t, if tty_lflag t AND TNU_TTYF_ICANON \<noteq> 0 then 10 else 13)
      else if key_sequence ch \<noteq> [] then
        (case tty_pending_pop (tty_pending_set t (key_sequence ch)) of
           (t1, c) \<Rightarrow> (t1, case c of None \<Rightarrow> 0 | Some c \<Rightarrow> uint c))
      else if disp \<noteq> None \<and> tty_lflag t AND TNU_TTYF_ICANON = 0 \<and> ctrl \<and> (97 \<le> ch \<and> ch \<le> 122 \<or> 65 \<le> ch \<and> ch \<le> 90)
      then (t, ch AND 0x1f)
      else (t, ch))"

fun console_getchar :: "input list \<Rightarrow> (int \<times> input list) option" where
  "console_getchar [] = None"
| "console_getchar (Serial c # rest) = Some (if c = 13 then 10 else uint c, rest)"
| "console_getchar (Key c # rest) =
     (if c \<ge> 0 then (if KEY_TTY1 \<le> c \<and> c \<le> KEY_TTY6 then console_getchar rest else Some (c, rest))
      else console_getchar rest)"

lemma console_getchar_shorter: "console_getchar inp = Some (c, rest) \<Longrightarrow> length rest < length inp"
  by (induction inp rule: console_getchar.induct) (auto split: if_splits)

function tty_read_byte :: "tty \<Rightarrow> bool \<Rightarrow> u8 option \<Rightarrow> input list \<Rightarrow> (tty \<times> input list \<times> int) option" where
  "tty_read_byte t ctrl disp inp =
     (case tty_pending_pop t of
        (t1, Some c) \<Rightarrow> Some (t1, inp, uint c)
      | (t1, None) \<Rightarrow>
          (case console_getchar inp of
             None \<Rightarrow> None
           | Some (ch, rest) \<Rightarrow>
               if ch = KEY_CTRL_C then Some (t1, rest, if disp = Some SIGNAL_DISPOSITION_DEFAULT then -130 else 3)
               else if KEY_TTY1 \<le> ch \<and> ch \<le> KEY_TTY1 + 5 then tty_read_byte t1 ctrl disp rest
               else if tty_is_modifier_only_key ch then tty_read_byte t1 ctrl disp rest
               else (case tty_encode_key t1 ctrl disp ch of (t2, c) \<Rightarrow> Some (t2, rest, c))))"
  by auto
termination
  by (relation "measure (\<lambda>(t, ctrl, disp, inp). length inp)") (auto dest: console_getchar_shorter)

declare tty_read_byte.simps [simp del]

text \<open>A call of \<open>keyboard_try_getchar\<close> takes one element; without one the buffer is empty.\<close>

fun keyboard_next :: "input list \<Rightarrow> int \<times> input list" where
  "keyboard_next [] = (-1, [])"
| "keyboard_next (Key c # rest) = (c, rest)"
| "keyboard_next (Serial c # rest) = (-1, Serial c # rest)"

lemma keyboard_next_shorter: "keyboard_next inp = (ch, rest) \<Longrightarrow> \<not> ch < 0 \<Longrightarrow> length rest < length inp"
  by (cases inp rule: keyboard_next.cases) auto

function tty_try_read_byte :: "tty \<Rightarrow> bool \<Rightarrow> u8 option \<Rightarrow> input list \<Rightarrow> tty \<times> input list \<times> int" where
  "tty_try_read_byte t ctrl disp inp =
     (case tty_pending_pop t of
        (t1, Some c) \<Rightarrow> (t1, inp, uint c)
      | (t1, None) \<Rightarrow>
          (case keyboard_next inp of
             (ch, rest) \<Rightarrow>
               if ch < 0 then (t1, rest, -1)
               else if KEY_TTY1 \<le> ch \<and> ch \<le> KEY_TTY6 then tty_try_read_byte t1 ctrl disp rest
               else if tty_is_modifier_only_key ch then tty_try_read_byte t1 ctrl disp rest
               else (case tty_encode_key t1 ctrl disp ch of (t2, c) \<Rightarrow> (t2, rest, c))))"
  by auto
termination
  by (relation "measure (\<lambda>(t, ctrl, disp, inp). length inp)") (auto dest: keyboard_next_shorter [OF sym])

declare tty_try_read_byte.simps [simp del]

section \<open>Reads\<close>

text \<open>
  The results of the loops: the terminal, the rest of the input, the bytes stored, and whether the
  process was ended by Ctrl+C.  \<open>n\<close> is what is still missing of \<open>count\<close>; \<open>(char)ch\<close> keeps the low
  eight bits.
\<close>

fun canon_loop :: "nat \<Rightarrow> tty \<Rightarrow> bool \<Rightarrow> u8 option \<Rightarrow> input list \<Rightarrow> u8 list \<Rightarrow> (tty \<times> input list \<times> u8 list \<times> bool) option" where
  "canon_loop 0 t ctrl disp inp out = Some (t, inp, out, False)"
| "canon_loop (Suc n) t ctrl disp inp out =
     (case tty_read_byte t ctrl disp inp of
        None \<Rightarrow> None
      | Some (t1, rest, ch) \<Rightarrow>
          if ch < 0 then Some (t1, rest, out, True)
          else
            let c = word_of_int ch in
            if c = 10 then Some (t1, rest, out @ [c], False)
            else canon_loop n t1 ctrl disp rest (out @ [c]))"

fun poll_bytes :: "nat \<Rightarrow> tty \<Rightarrow> bool \<Rightarrow> u8 option \<Rightarrow> input list \<Rightarrow> u8 list \<Rightarrow> tty \<times> input list \<times> u8 list" where
  "poll_bytes 0 t ctrl disp inp out = (t, inp, out)"
| "poll_bytes (Suc n) t ctrl disp inp out =
     (case tty_try_read_byte t ctrl disp inp of
        (t1, rest, ch) \<Rightarrow> if ch < 0 then (t1, rest, out) else poll_bytes n t1 ctrl disp rest (out @ [word_of_int ch]))"

fun min_loop :: "nat \<Rightarrow> tty \<Rightarrow> bool \<Rightarrow> u8 option \<Rightarrow> input list \<Rightarrow> u8 list \<Rightarrow> (tty \<times> input list \<times> u8 list \<times> bool) option" where
  "min_loop 0 t ctrl disp inp out = Some (t, inp, out, False)"
| "min_loop (Suc n) t ctrl disp inp out =
     (case tty_read_byte t ctrl disp inp of
        None \<Rightarrow> None
      | Some (t1, rest, ch) \<Rightarrow>
          if ch < 0 then Some (t1, rest, out, True) else min_loop n t1 ctrl disp rest (out @ [word_of_int ch]))"

text \<open>
  The timed read: \<open>ticks\<close> are the successive results of \<open>pit_get_ticks ()\<close>; a read that waits for more
  of them than there are gives \<open>None\<close>.
\<close>

fun timed_loop :: "u64 list \<Rightarrow> nat \<Rightarrow> u8 \<Rightarrow> u64 \<Rightarrow> u64 \<Rightarrow> tty \<Rightarrow> bool \<Rightarrow> u8 option \<Rightarrow> input list \<Rightarrow> u8 list \<Rightarrow> (tty \<times> input list \<times> u8 list) option" where
  "timed_loop ticks 0 vmin span deadline t ctrl disp inp out = Some (t, inp, out)"
| "timed_loop [] (Suc n) vmin span deadline t ctrl disp inp out =
     (case tty_try_read_byte t ctrl disp inp of
        (t1, rest, ch) \<Rightarrow>
          if ch \<ge> 0 \<and> vmin > 0 \<and> length out + 1 \<ge> unat vmin then Some (t1, rest, out @ [word_of_int ch]) else None)"
| "timed_loop (now # ticks) (Suc n) vmin span deadline t ctrl disp inp out =
     (case tty_try_read_byte t ctrl disp inp of
        (t1, rest, ch) \<Rightarrow>
          if ch \<ge> 0 then
            (if vmin > 0 \<and> length out + 1 \<ge> unat vmin then Some (t1, rest, out @ [word_of_int ch])
             else timed_loop ticks n vmin span (now + span) t1 ctrl disp rest (out @ [word_of_int ch]))
          else if now \<ge> deadline then Some (t1, rest, out)
          else timed_loop ticks (Suc n) vmin span deadline t1 ctrl disp rest out)"

text \<open>
  The part of \<open>sys_read\<close> for file descriptor 0, which is repeated for \<open>/dev/tty\<close> and \<open>/dev/console\<close>.
  The last two components say that Ctrl+C ended the process, and that the call returns to the kernel.
\<close>

definition tty_read :: "tty \<Rightarrow> bool \<Rightarrow> u8 option \<Rightarrow> u64 list \<Rightarrow> input list \<Rightarrow> nat \<Rightarrow> (tty \<times> input list \<times> u8 list \<times> bool \<times> bool) option" where
  "tty_read t ctrl disp ticks inp count =
     (let vmin = tty_vmin t; vtime = tty_vtime t in
      if tty_lflag t AND TNU_TTYF_ICANON \<noteq> 0 then
        map_option (\<lambda>(t1, rest, out, ended). (t1, rest, out, ended, ended)) (canon_loop count t ctrl disp inp [])
      else if vmin = 0 \<and> vtime = 0 then
        (case poll_bytes count t ctrl disp inp [] of (t1, rest, out) \<Rightarrow> Some (t1, rest, out, False, False))
      else if vmin > 0 \<and> vtime = 0 then
        (case min_loop (min (unat vmin) count) t ctrl disp inp [] of
           None \<Rightarrow> None
         | Some (t1, rest, out, ended) \<Rightarrow>
             if ended then Some (t1, rest, out, True, out = [])
             else (case poll_bytes (count - length out) t1 ctrl disp rest out of (t2, rest2, out2) \<Rightarrow> Some (t2, rest2, out2, False, False)))
      else
        (case ticks of
           [] \<Rightarrow> None
         | now # ticks \<Rightarrow>
             (let span = ucast vtime * word_of_nat (PIT_HZ div 10) in
              map_option (\<lambda>(t1, rest, out). (t1, rest, out, False, False)) (timed_loop ticks count vmin span (now + span) t ctrl disp inp []))))"

section \<open>The terminal is a stream of bytes\<close>

definition tty_ok :: "tty \<Rightarrow> bool" where
  "tty_ok t \<longleftrightarrow> tty_pending_pos t \<le> length (tty_pending t) \<and> length (tty_pending t) \<le> 64"

definition canonical_mode :: "tty \<Rightarrow> bool" where
  "canonical_mode t \<longleftrightarrow> tty_lflag t AND TNU_TTYF_ICANON \<noteq> 0"

text \<open>The bytes of a key.\<close>

definition key_bytes :: "bool \<Rightarrow> bool \<Rightarrow> int \<Rightarrow> u8 list" where
  "key_bytes canon to_ctrl ch =
     (if ch < 0 \<or> KEY_TTY1 \<le> ch \<and> ch \<le> KEY_TTY6 \<or> tty_is_modifier_only_key ch then []
      else if ch = KEY_CTRL_C then [3]
      else if ch = 10 then [if canon then 10 else 13]
      else if key_sequence ch \<noteq> [] then key_sequence ch
      else if to_ctrl \<and> \<not> canon \<and> (97 \<le> ch \<and> ch \<le> 122 \<or> 65 \<le> ch \<and> ch \<le> 90) then [word_of_int (ch AND 0x1f)]
      else [word_of_int ch])"

fun input_bytes :: "bool \<Rightarrow> bool \<Rightarrow> input \<Rightarrow> u8 list" where
  "input_bytes canon to_ctrl (Serial c) = key_bytes canon to_ctrl (if c = 13 then 10 else uint c)"
| "input_bytes canon to_ctrl (Key ch) = key_bytes canon to_ctrl ch"

definition stream :: "bool \<Rightarrow> u8 option \<Rightarrow> tty \<Rightarrow> input list \<Rightarrow> u8 list" where
  "stream ctrl disp t inp =
     drop (tty_pending_pos t) (tty_pending t) @ concat (map (input_bytes (canonical_mode t) (ctrl \<and> disp \<noteq> None)) inp)"

text \<open>Either the process deals with \<open>SIGINT\<close> or Ctrl+C is not pressed.\<close>

definition no_interrupt :: "u8 option \<Rightarrow> input list \<Rightarrow> bool" where
  "no_interrupt disp inp \<longleftrightarrow> Key KEY_CTRL_C \<notin> set inp \<or> (\<exists>d. disp = Some d \<and> d \<noteq> SIGNAL_DISPOSITION_DEFAULT)"

lemma pop_ok:
  assumes "tty_ok t"
  shows "case tty_pending_pop t of (t1, c) \<Rightarrow> tty_ok t1 \<and> canonical_mode t1 = canonical_mode t \<and> tty_vmin t1 = tty_vmin t \<and> tty_vtime t1 = tty_vtime t \<and>
     (case c of None \<Rightarrow> drop (tty_pending_pos t) (tty_pending t) = [] \<and> drop (tty_pending_pos t1) (tty_pending t1) = []
      | Some c \<Rightarrow> drop (tty_pending_pos t) (tty_pending t) = c # drop (tty_pending_pos t1) (tty_pending t1))"
proof (cases "tty_pending_pos t < length (tty_pending t)")
  case True
  then have d: "drop (tty_pending_pos t) (tty_pending t) = tty_pending t ! tty_pending_pos t # drop (Suc (tty_pending_pos t)) (tty_pending t)"
    by (simp add: Cons_nth_drop_Suc)
  show ?thesis
    using True assms unfolding d by (simp add: tty_pending_pop_def tty_ok_def canonical_mode_def Let_def)
qed (simp add: tty_pending_pop_def tty_ok_def canonical_mode_def Let_def)

lemma key_sequence_props: "length (key_sequence ch) \<le> 64" "key_sequence 10 = []" "key_sequence KEY_CTRL_C = []"
  by (simp_all add: key_sequence_def bytes_of_def KEY_UP_def KEY_DOWN_def KEY_RIGHT_def KEY_LEFT_def KEY_HOME_def KEY_END_def
      KEY_DELETE_def KEY_CTRL_C_def)

lemma encode_ok:
  assumes t: "tty_ok t" "drop (tty_pending_pos t) (tty_pending t) = []"
    and ch: "0 \<le> ch" "\<not> (KEY_TTY1 \<le> ch \<and> ch \<le> KEY_TTY6)" "\<not> tty_is_modifier_only_key ch"
    and c: "ch = KEY_CTRL_C \<Longrightarrow> \<exists>d. disp = Some d \<and> d \<noteq> SIGNAL_DISPOSITION_DEFAULT"
  shows "case tty_encode_key t ctrl disp ch of (t1, r) \<Rightarrow> tty_ok t1 \<and> canonical_mode t1 = canonical_mode t \<and> tty_vmin t1 = tty_vmin t \<and>
     tty_vtime t1 = tty_vtime t \<and> 0 \<le> r \<and>
     key_bytes (canonical_mode t) (ctrl \<and> disp \<noteq> None) ch = word_of_int r # drop (tty_pending_pos t1) (tty_pending t1)"
proof (cases "key_sequence ch = []")
  case True
  note B = key_bytes_def [of "canonical_mode t" "ctrl \<and> disp \<noteq> None" ch]
  have k: "KEY_CTRL_C \<noteq> 10" by (simp add: KEY_CTRL_C_def)
  consider "ch = KEY_CTRL_C" | "ch = 10" | "ch \<noteq> KEY_CTRL_C" "ch \<noteq> 10" by blast
  then show ?thesis
  proof cases
    case 1
    then show ?thesis using c t ch B k by (auto simp: tty_encode_key_def)
  next
    case 2
    then show ?thesis using t ch B k by (simp add: tty_encode_key_def canonical_mode_def)
  next
    case 3
    define E where "E \<longleftrightarrow> 97 \<le> ch \<and> ch \<le> 122 \<or> 65 \<le> ch \<and> ch \<le> 90"
    have "0 \<le> ch AND 0x1f" using ch(1) by simp
    moreover have "tty_encode_key t ctrl disp ch = (t, if disp \<noteq> None \<and> \<not> canonical_mode t \<and> ctrl \<and> E then ch AND 0x1f else ch)"
      using 3 True by (auto simp: tty_encode_key_def canonical_mode_def E_def)
    moreover have "key_bytes (canonical_mode t) (ctrl \<and> disp \<noteq> None) ch =
        [word_of_int (if disp \<noteq> None \<and> \<not> canonical_mode t \<and> ctrl \<and> E then ch AND 0x1f else ch)]"
      unfolding B E_def [symmetric] using 3 True ch by auto
    ultimately show ?thesis using t ch(1) by (cases disp) simp_all
  qed
next
  case False
  then have n: "ch \<noteq> 10" "ch \<noteq> KEY_CTRL_C" using key_sequence_props by auto
  let ?t = "tty_pending_set t (key_sequence ch)"
  have ok: "tty_ok ?t" "drop (tty_pending_pos ?t) (tty_pending ?t) = key_sequence ch" "canonical_mode ?t = canonical_mode t"
    "tty_vmin ?t = tty_vmin t" "tty_vtime ?t = tty_vtime t"
    using key_sequence_props(1) [of ch] by (simp_all add: tty_pending_set_def tty_ok_def canonical_mode_def)
  obtain t1 b where p: "tty_pending_pop ?t = (t1, Some b)" using pop_ok [OF ok(1)] ok(2) False by (auto split: prod.splits option.splits)
  have "key_bytes (canonical_mode t) (ctrl \<and> disp \<noteq> None) ch = key_sequence ch" using False ch n by (simp add: key_bytes_def)
  then show ?thesis using pop_ok [OF ok(1)] ok p n False by (simp add: tty_encode_key_def)
qed

lemma console_getchar_stream:
  "case console_getchar inp of
     None \<Rightarrow> concat (map (input_bytes canon tc) inp) = []
   | Some (ch, rest) \<Rightarrow> 0 \<le> ch \<and> \<not> (KEY_TTY1 \<le> ch \<and> ch \<le> KEY_TTY6) \<and> set rest \<subseteq> set inp \<and> (ch = KEY_CTRL_C \<longrightarrow> Key KEY_CTRL_C \<in> set inp) \<and>
       concat (map (input_bytes canon tc) inp) = key_bytes canon tc ch @ concat (map (input_bytes canon tc) rest)"
proof (induction inp rule: console_getchar.induct)
  case (2 c rest)
  have "uint c < 256" using uint_lt2p [of c] by simp
  then show ?case by (auto simp: KEY_TTY1_def KEY_CTRL_C_def)
next
  case (3 c rest)
  show ?case
  proof (cases "c \<ge> 0 \<and> \<not> (KEY_TTY1 \<le> c \<and> c \<le> KEY_TTY6)")
    case True
    then have "console_getchar (Key c # rest) = Some (c, rest)" by auto
    then show ?thesis using True by auto
  next
    case False
    then have e: "console_getchar (Key c # rest) = console_getchar rest" "key_bytes canon tc c = []" by (auto simp: key_bytes_def)
    have IH: "case console_getchar rest of
       None \<Rightarrow> concat (map (input_bytes canon tc) rest) = []
     | Some (ch, r) \<Rightarrow> 0 \<le> ch \<and> \<not> (KEY_TTY1 \<le> ch \<and> ch \<le> KEY_TTY6) \<and> set r \<subseteq> set rest \<and> (ch = KEY_CTRL_C \<longrightarrow> Key KEY_CTRL_C \<in> set rest) \<and>
         concat (map (input_bytes canon tc) rest) = key_bytes canon tc ch @ concat (map (input_bytes canon tc) r)"
      using 3 False by (cases "c \<ge> 0") auto
    show ?thesis unfolding e(1) using IH e(2) by (auto split: option.splits)
  qed
qed simp

text \<open>Modifier keys give no bytes, so the recursion of \<open>tty_read_byte\<close> keeps the stream.\<close>

lemma tty_read_byte_stream:
  assumes "tty_ok t" "no_interrupt disp inp"
  shows "case tty_read_byte t ctrl disp inp of
     None \<Rightarrow> stream ctrl disp t inp = []
   | Some (t1, rest, ch) \<Rightarrow> tty_ok t1 \<and> canonical_mode t1 = canonical_mode t \<and> tty_vmin t1 = tty_vmin t \<and> tty_vtime t1 = tty_vtime t \<and>
       no_interrupt disp rest \<and> 0 \<le> ch \<and> stream ctrl disp t inp = word_of_int ch # stream ctrl disp t1 rest"
  using assms
proof (induction t ctrl disp inp rule: tty_read_byte.induct)
  case (1 t ctrl disp inp)
  let ?ib = "concat (map (input_bytes (canonical_mode t) (ctrl \<and> disp \<noteq> None)) inp)"
  obtain t1 c where p: "tty_pending_pop t = (t1, c)" by (cases "tty_pending_pop t")
  note P = pop_ok [OF 1(3), unfolded p prod.case]
  have simps: "tty_read_byte t ctrl disp inp = (case tty_pending_pop t of
        (t1, Some c) \<Rightarrow> Some (t1, inp, uint c)
      | (t1, None) \<Rightarrow>
          (case console_getchar inp of
             None \<Rightarrow> None
           | Some (ch, rest) \<Rightarrow>
               if ch = KEY_CTRL_C then Some (t1, rest, if disp = Some SIGNAL_DISPOSITION_DEFAULT then -130 else 3)
               else if KEY_TTY1 \<le> ch \<and> ch \<le> KEY_TTY1 + 5 then tty_read_byte t1 ctrl disp rest
               else if tty_is_modifier_only_key ch then tty_read_byte t1 ctrl disp rest
               else (case tty_encode_key t1 ctrl disp ch of (t2, c) \<Rightarrow> Some (t2, rest, c))))"
    by (rule tty_read_byte.simps)
  show ?case
  proof (cases c)
    case (Some b)
    then have "tty_read_byte t ctrl disp inp = Some (t1, inp, uint b)" by (simp add: simps p)
    then show ?thesis using P Some 1(4) by (simp add: stream_def)
  next
    case None
    note P = P [unfolded None option.case]
    have st: "stream ctrl disp t inp = ?ib" using P by (simp add: stream_def)
    show ?thesis
    proof (cases "console_getchar inp")
      case n: None
      then have "tty_read_byte t ctrl disp inp = None" by (simp add: simps p None)
      then show ?thesis using console_getchar_stream [where inp = inp and canon = "canonical_mode t" and tc = "ctrl \<and> disp \<noteq> None"] n st by simp
    next
      case (Some cr)
      obtain ch rest where cr: "cr = (ch, rest)" by (cases cr)
      note C = console_getchar_stream [where inp = inp and canon = "canonical_mode t" and tc = "ctrl \<and> disp \<noteq> None", unfolded Some cr option.case prod.case]
      have ni: "no_interrupt disp rest" using 1(4) C by (auto simp: no_interrupt_def)
      have st1: "stream ctrl disp t1 rest = concat (map (input_bytes (canonical_mode t) (ctrl \<and> disp \<noteq> None)) rest)"
        using P by (simp add: stream_def)
      have t6: "\<not> (KEY_TTY1 \<le> ch \<and> ch \<le> KEY_TTY1 + 5)" using C by (simp add: KEY_TTY1_def KEY_TTY6_def)
      have cc: "ch = KEY_CTRL_C \<Longrightarrow> \<exists>d. disp = Some d \<and> d \<noteq> SIGNAL_DISPOSITION_DEFAULT"
        using C 1(4) by (auto simp: no_interrupt_def)
      consider "ch = KEY_CTRL_C" | "ch \<noteq> KEY_CTRL_C" "tty_is_modifier_only_key ch" | "ch \<noteq> KEY_CTRL_C" "\<not> tty_is_modifier_only_key ch" by blast
      then show ?thesis
      proof cases
        case 1
        then have e: "tty_read_byte t ctrl disp inp = Some (t1, rest, 3)" using cc by (auto simp: simps p None Some cr)
        have "key_bytes (canonical_mode t) (ctrl \<and> disp \<noteq> None) ch = [3]"
          using 1 by (simp add: key_bytes_def KEY_CTRL_C_def KEY_TTY1_def tty_is_modifier_only_key_def KEY_CTRL_def KEY_ALT_def
              KEY_SHIFT_LEFT_def KEY_SHIFT_RIGHT_def)
        then show ?thesis using P C st st1 ni by (simp add: e)
      next
        case 2
        then have e: "tty_read_byte t ctrl disp inp = tty_read_byte t1 ctrl disp rest" using t6 by (simp add: simps p None Some cr)
        have "key_bytes (canonical_mode t) (ctrl \<and> disp \<noteq> None) ch = []" using 2 by (simp add: key_bytes_def)
        then have st2: "stream ctrl disp t inp = stream ctrl disp t1 rest" using C st st1 by simp
        show ?thesis
          unfolding e st2 using "1.IH"(2) [OF p [symmetric] None Some cr [symmetric] 2(1) t6 2(2)] P ni by (auto split: option.splits)
      next
        case 3
        obtain t2 r where en: "tty_encode_key t1 ctrl disp ch = (t2, r)" by (cases "tty_encode_key t1 ctrl disp ch")
        then have e: "tty_read_byte t ctrl disp inp = Some (t2, rest, r)" using 3 t6 by (auto simp: simps p None Some cr)
        note E = encode_ok [of t1 ch disp ctrl, unfolded en prod.case]
        show ?thesis using E P C st 3 cc ni by (simp add: e stream_def)
      qed
    qed
  qed
qed

lemma tty_try_read_byte_stream:
  assumes "tty_ok t" "no_interrupt disp inp" "disp \<noteq> None"
  shows "case tty_try_read_byte t ctrl disp inp of (t1, rest, ch) \<Rightarrow>
     tty_ok t1 \<and> canonical_mode t1 = canonical_mode t \<and> no_interrupt disp rest \<and>
     (if ch < 0 then stream ctrl disp t inp = stream ctrl disp t1 rest
      else stream ctrl disp t inp = word_of_int ch # stream ctrl disp t1 rest)"
  using assms
proof (induction t ctrl disp inp rule: tty_try_read_byte.induct)
  case (1 t ctrl disp inp)
  let ?ib = "\<lambda>inp. concat (map (input_bytes (canonical_mode t) (ctrl \<and> disp \<noteq> None)) inp)"
  obtain t1 c where p: "tty_pending_pop t = (t1, c)" by (cases "tty_pending_pop t")
  note P = pop_ok [OF 1(3), unfolded p prod.case]
  obtain ch rest where k: "keyboard_next inp = (ch, rest)" by (cases "keyboard_next inp")
  have ks: "set rest \<subseteq> set inp" "0 \<le> ch \<Longrightarrow> ch = KEY_CTRL_C \<Longrightarrow> Key KEY_CTRL_C \<in> set inp"
    "?ib inp = (if ch < 0 then [] else key_bytes (canonical_mode t) (ctrl \<and> disp \<noteq> None) ch) @ ?ib rest"
    using k by (cases inp rule: keyboard_next.cases; auto simp: key_bytes_def)+
  have ni: "no_interrupt disp rest" using 1(4) ks(1) by (auto simp: no_interrupt_def)
  show ?case
  proof (cases c)
    case (Some b)
    then have "tty_try_read_byte t ctrl disp inp = (t1, inp, uint b)" by (simp add: tty_try_read_byte.simps p)
    then show ?thesis using P Some 1(4) by (simp add: stream_def)
  next
    case None
    note P = P [unfolded None option.case]
    have st: "stream ctrl disp t inp = ?ib inp" "stream ctrl disp t1 rest = ?ib rest" using P by (simp_all add: stream_def)
    have cc: "0 \<le> ch \<Longrightarrow> ch = KEY_CTRL_C \<Longrightarrow> \<exists>d. disp = Some d \<and> d \<noteq> SIGNAL_DISPOSITION_DEFAULT"
      using ks(2) 1(4) by (auto simp: no_interrupt_def)
    consider "ch < 0" | "\<not> ch < 0" "KEY_TTY1 \<le> ch \<and> ch \<le> KEY_TTY6 \<or> tty_is_modifier_only_key ch"
      | "\<not> ch < 0" "\<not> (KEY_TTY1 \<le> ch \<and> ch \<le> KEY_TTY6)" "\<not> tty_is_modifier_only_key ch" by blast
    then show ?thesis
    proof cases
      case 1
      then have "tty_try_read_byte t ctrl disp inp = (t1, rest, -1)" by (simp add: tty_try_read_byte.simps p None k)
      then show ?thesis using P ks st ni 1 by simp
    next
      case 2
      then have e: "tty_try_read_byte t ctrl disp inp = tty_try_read_byte t1 ctrl disp rest"
        by (auto simp: tty_try_read_byte.simps [of t ctrl disp inp] p None k)
      have "key_bytes (canonical_mode t) (ctrl \<and> disp \<noteq> None) ch = []" using 2 by (auto simp: key_bytes_def)
      then have st2: "stream ctrl disp t inp = stream ctrl disp t1 rest" using ks(3) st 2(1) by simp
      have ok1: "tty_ok t1" "disp \<noteq> None" using P 1(5) by simp_all
      show ?thesis
      proof (cases "KEY_TTY1 \<le> ch \<and> ch \<le> KEY_TTY6")
        case True
        show ?thesis
          unfolding e st2 using "1.IH"(1) [OF p [symmetric] None k [symmetric] 2(1) True ok1(1) ni ok1(2)] P by (auto split: prod.splits)
      next
        case False
        then have m: "tty_is_modifier_only_key ch" using 2 by blast
        show ?thesis
          unfolding e st2 using "1.IH"(2) [OF p [symmetric] None k [symmetric] 2(1) False m ok1(1) ni ok1(2)] P by (auto split: prod.splits)
      qed
    next
      case 3
      obtain t2 r where en: "tty_encode_key t1 ctrl disp ch = (t2, r)" by (cases "tty_encode_key t1 ctrl disp ch")
      then have e: "tty_try_read_byte t ctrl disp inp = (t2, rest, r)" using 3 by (auto simp: tty_try_read_byte.simps [of t ctrl disp inp] p None k)
      note E = encode_ok [of t1 ch disp ctrl, unfolded en prod.case]
      show ?thesis using E P ks(3) st 3 cc ni by (simp add: e stream_def)
    qed
  qed
qed

text \<open>A line of at most \<open>n\<close> bytes: up to the newline, or \<open>n\<close> bytes without one.\<close>

fun first_line :: "nat \<Rightarrow> u8 list \<Rightarrow> u8 list option" where
  "first_line 0 s = Some []"
| "first_line (Suc n) [] = None"
| "first_line (Suc n) (c # s) = (if c = 10 then Some [c] else map_option ((#) c) (first_line n s))"

lemma canon_loop_stream:
  "tty_ok t \<Longrightarrow> no_interrupt disp inp \<Longrightarrow>
   (case first_line n (stream ctrl disp t inp) of
      None \<Rightarrow> canon_loop n t ctrl disp inp out = None
    | Some l \<Rightarrow> \<exists>t1 rest. canon_loop n t ctrl disp inp out = Some (t1, rest, out @ l, False) \<and> tty_ok t1 \<and> no_interrupt disp rest \<and>
        stream ctrl disp t inp = l @ stream ctrl disp t1 rest)"
proof (induction n arbitrary: t inp out)
  case (Suc n)
  note R = tty_read_byte_stream [OF Suc.prems, where ctrl = ctrl]
  show ?case
  proof (cases "tty_read_byte t ctrl disp inp")
    case None
    then show ?thesis using R by simp
  next
    case (Some r)
    obtain t1 rest ch where r: "r = (t1, rest, ch)" by (cases r)
    note R = R [unfolded Some r option.case prod.case]
    show ?thesis
    proof (cases "word_of_int ch = (10 :: u8)")
      case True
      then show ?thesis using R Some r by simp
    next
      case False
      have loop: "canon_loop (Suc n) t ctrl disp inp out = canon_loop n t1 ctrl disp rest (out @ [word_of_int ch])"
        using False R Some r by simp
      have fl: "first_line (Suc n) (stream ctrl disp t inp) = map_option ((#) (word_of_int ch)) (first_line n (stream ctrl disp t1 rest))"
        using False R by simp
      show ?thesis
        unfolding loop fl using Suc.IH [of t1 rest "out @ [word_of_int ch]"] R
        by (cases "first_line n (stream ctrl disp t1 rest)") auto
    qed
  qed
qed simp

lemma min_loop_stream:
  "tty_ok t \<Longrightarrow> no_interrupt disp inp \<Longrightarrow>
   (if length (stream ctrl disp t inp) < n then min_loop n t ctrl disp inp out = None
    else \<exists>t1 rest l. min_loop n t ctrl disp inp out = Some (t1, rest, out @ l, False) \<and> length l = n \<and> tty_ok t1 \<and>
      canonical_mode t1 = canonical_mode t \<and> no_interrupt disp rest \<and> stream ctrl disp t inp = l @ stream ctrl disp t1 rest)"
proof (induction n arbitrary: t inp out)
  case (Suc n)
  note R = tty_read_byte_stream [OF Suc.prems, where ctrl = ctrl]
  show ?case
  proof (cases "tty_read_byte t ctrl disp inp")
    case None
    then show ?thesis using R by simp
  next
    case (Some r)
    obtain t1 rest ch where r: "r = (t1, rest, ch)" by (cases r)
    note R = R [unfolded Some r option.case prod.case]
    have loop: "min_loop (Suc n) t ctrl disp inp out = min_loop n t1 ctrl disp rest (out @ [word_of_int ch])" using R Some r by simp
    have S: "stream ctrl disp t inp = word_of_int ch # stream ctrl disp t1 rest" using R by simp
    show ?thesis
    proof (cases "length (stream ctrl disp t1 rest) < n")
      case True
      then show ?thesis using Suc.IH [of t1 rest "out @ [word_of_int ch]"] R S loop by simp
    next
      case False
      then obtain t2 rest2 l where "min_loop n t1 ctrl disp rest (out @ [word_of_int ch]) = Some (t2, rest2, out @ word_of_int ch # l, False)"
        "length l = n" "tty_ok t2" "canonical_mode t2 = canonical_mode t1" "no_interrupt disp rest2" "stream ctrl disp t1 rest = l @ stream ctrl disp t2 rest2"
        using Suc.IH [of t1 rest "out @ [word_of_int ch]"] R by auto
      then show ?thesis using False R S loop by (intro if_P if_not_P [THEN iffD2]) (auto intro!: exI [of _ "word_of_int ch # l"])
    qed
  qed
qed simp

lemma poll_bytes_stream:
  "tty_ok t \<Longrightarrow> no_interrupt disp inp \<Longrightarrow> disp \<noteq> None \<Longrightarrow>
   \<exists>t1 rest l. poll_bytes n t ctrl disp inp out = (t1, rest, out @ l) \<and> length l \<le> n \<and> tty_ok t1 \<and> no_interrupt disp rest \<and>
     stream ctrl disp t inp = l @ stream ctrl disp t1 rest"
proof (induction n arbitrary: t inp out)
  case (Suc n)
  obtain t1 rest ch where r: "tty_try_read_byte t ctrl disp inp = (t1, rest, ch)" by (cases "tty_try_read_byte t ctrl disp inp")
  note R = tty_try_read_byte_stream [OF Suc.prems, where ctrl = ctrl, unfolded r prod.case]
  show ?case
  proof (cases "ch < 0")
    case True
    then show ?thesis using R r by auto
  next
    case False
    then obtain t2 rest2 l where "poll_bytes n t1 ctrl disp rest (out @ [word_of_int ch]) = (t2, rest2, (out @ [word_of_int ch]) @ l)"
      "length l \<le> n" "tty_ok t2" "no_interrupt disp rest2" "stream ctrl disp t1 rest = l @ stream ctrl disp t2 rest2"
      using Suc.IH [of t1 rest "out @ [word_of_int ch]"] R Suc.prems(3) by blast
    then show ?thesis using False R r by (intro exI [of _ t2] exI [of _ rest2] exI [of _ "word_of_int ch # l"]) simp
  qed
qed simp



end
