(* ===== verification/Sys_Perm.thy ===== *)
theory Sys_Perm
  imports Process
begin

text \<open>
  The checks of \<open>kernel/core/syscall.c\<close>: user pointers, user strings, permission bits, the paths
  that only root may change, and the directory a new entry goes into.

  A user pointer is a \<open>u64\<close>.  A path argument is the pair of the pointer and the C string found
  there, which the code reads only after it has compared the pointer with NULL.
\<close>

type_synonym ustr = "u64 \<times> u8 list"

definition str_ptr :: "ustr \<Rightarrow> u8 list option" where
  "str_ptr u = (if fst u = 0 then None else Some (snd u))"

definition uptr_ok :: "u64 \<Rightarrow> u64 \<Rightarrow> bool" where
  "uptr_ok ptr len =
     (if ptr = 0 then False
      else if ptr < 0x1000 then False
      else if ptr \<ge> 0x0000800000000000 then False
      else if len \<noteq> 0 \<and> ptr + len < ptr then False
      else True)"

definition ustr_ok :: "u64 \<Rightarrow> bool" where
  "ustr_ok s = (if s = 0 then False else s \<ge> 0x1000 \<and> s < 0x0000800000000000)"

text \<open>
  The loop of \<open>copy_user_string_bounded\<close>: the rest of the source string, the bytes stored so far
  (without the terminator) and the number of bytes of the destination not yet stored.  The
  result is the string left in \<open>dst\<close> and the return value.
\<close>

fun copy_string_loop :: "u8 list \<Rightarrow> u8 list \<Rightarrow> nat \<Rightarrow> u8 list \<times> int" where
  "copy_string_loop src dst 0 = (dst, -1)"
| "copy_string_loop src dst (Suc 0) = (dst, -1)"
| "copy_string_loop [] dst (Suc (Suc room)) = (dst, 0)"
| "copy_string_loop (c # src) dst (Suc (Suc room)) = copy_string_loop src (dst @ [c]) (Suc room)"

definition copy_user_string_bounded :: "ustr \<Rightarrow> nat \<Rightarrow> u8 list option" where
  "copy_user_string_bounded src dst_size =
     (if fst src = 0 \<or> dst_size = 0 \<or> \<not> ustr_ok (fst src) then None
      else case copy_string_loop (snd src) [] dst_size of
             (dst, rc) \<Rightarrow> if rc = 0 then Some dst else None)"

lemma copy_string_loop_ok:
  "copy_string_loop src dst n = (dst', rc) \<Longrightarrow> rc = 0 \<and> dst' = dst @ src \<and> length src + 1 < n \<or> rc = -1 \<and> n \<le> length src + 1"
  by (induction src dst n rule: copy_string_loop.induct) auto

lemma copy_user_string_bounded_eq:
  "copy_user_string_bounded src n = (if ustr_ok (fst src) \<and> length (snd src) + 1 < n then Some (snd src) else None)"
  using copy_string_loop_ok [of "snd src" "[]" n]
  by (auto simp: copy_user_string_bounded_def ustr_ok_def split: prod.split)

subsection \<open>Permission bits\<close>

definition has_perm :: "process \<Rightarrow> vfs_node \<Rightarrow> u32 \<Rightarrow> bool" where
  "has_perm proc node perm =
     (if p_uid proc = 0 then True
      else let shift = (if p_uid proc = vn_uid node then 6 else if p_gid proc = vn_gid node then 3 else 0)
           in drop_bit shift (vn_mode node) AND perm = perm)"

definition is_root :: "process \<Rightarrow> bool" where
  "is_root proc \<longleftrightarrow> p_uid proc = 0"

subsection \<open>Protected paths\<close>

definition path_is_or_under :: "u8 list \<Rightarrow> u8 list \<Rightarrow> bool" where
  "path_is_or_under path prefix =
     (let len = length prefix in
      if path = prefix then True
      else len > 1 \<and> take len path = prefix \<and> len < length path \<and> path ! len = slash)"

definition protected_prefixes :: "u8 list list" where
  "protected_prefixes =
     map bytes_of [''/'', ''/bin'', ''/boot'', ''/dev'', ''/etc'', ''/lib'', ''/proc'', ''/root'', ''/sbin'', ''/usr'',
       ''/var/cache'', ''/var/db'', ''/var/log'', ''/var/run'']"

definition path_requires_root_for_mutation :: "u8 list \<Rightarrow> bool" where
  "path_requires_root_for_mutation normal = list_ex (path_is_or_under normal) protected_prefixes"

definition path_is_public_device :: "u8 list \<Rightarrow> bool" where
  "path_is_public_device normal \<longleftrightarrow>
     normal = bytes_of ''/dev/null'' \<or> normal = bytes_of ''/dev/zero'' \<or> normal = bytes_of ''/dev/tty'' \<or>
     normal = bytes_of ''/dev/console''"

definition normalize_for_process :: "process \<Rightarrow> u8 list option \<Rightarrow> nat \<Rightarrow> u8 list option" where
  "normalize_for_process proc path normal_size =
     (if path = None \<or> normal_size = 0 then None else vfs_normalize path (Some (p_cwd proc)) normal_size)"

subsection \<open>The parent directory\<close>

text \<open>\<open>Some None\<close> is a NULL result, \<open>None\<close> a lookup that does not end.\<close>

definition lookup_parent_from_normal :: "fs_state \<Rightarrow> u8 list \<Rightarrow> nat option option" where
  "lookup_parent_from_normal s normal =
     (if normal = bytes_of ''/'' then Some None
      else
        let parent = take (VFS_PATH_MAX - 1) normal;
            k = length parent - length (takeWhile (\<lambda>c. c \<noteq> slash) (rev parent)) in
        if slash \<notin> set parent then Some None
        else if k = 1 then vfs_lookup s (Some (take 1 parent)) (Some (bytes_of ''/''))
        else vfs_lookup s (Some (take (k - 1) parent)) (Some (bytes_of ''/'')))"

definition can_create_in_parent :: "fs_state \<Rightarrow> process \<Rightarrow> u8 list \<Rightarrow> bool option" where
  "can_create_in_parent s proc normal =
     map_option (\<lambda>r. case r of
         None \<Rightarrow> False
       | Some i \<Rightarrow> vn_type (fs_nodes s ! i) = VFS_NODE_DIR \<and> has_perm proc (fs_nodes s ! i) 2 \<and> has_perm proc (fs_nodes s ! i) 1)
       (lookup_parent_from_normal s normal)"

section \<open>What the checks mean\<close>

text \<open>The components of a canonical path below one of the protected directories.\<close>

definition protected_dirs :: "u8 list list list" where
  "protected_dirs =
     map (map bytes_of) [[''bin''], [''boot''], [''dev''], [''etc''], [''lib''], [''proc''], [''root''], [''sbin''], [''usr''],
       [''var'', ''cache''], [''var'', ''db''], [''var'', ''log''], [''var'', ''run'']]"

definition protected :: "u8 list list \<Rightarrow> bool" where
  "protected cs \<longleftrightarrow> cs = [] \<or> (\<exists>ds \<in> set protected_dirs. take (length ds) cs = ds)"

definition join :: "u8 list list \<Rightarrow> u8 list" where
  "join cs = concat (map (\<lambda>c. slash # c) cs)"

lemma join_simps [simp]: "join [] = []" "join (c # cs) = slash # c @ join cs"
  by (simp_all add: join_def)

lemma path_str_join: "cs \<noteq> [] \<Longrightarrow> path_str cs = join cs"
  by (simp add: path_str_def join_def)

lemma slash_free_split:
  assumes "slash \<notin> set c" "slash \<notin> set d" "c @ r = d @ t" "r = [] \<or> hd r = slash" "t = [] \<or> hd t = slash"
  shows "c = d \<and> r = t"
proof -
  have tw: "takeWhile (\<lambda>x. x \<noteq> slash) (a @ q) = a" if "slash \<notin> set a" "q = [] \<or> hd q = slash" for a q :: "u8 list"
    using that by (cases q) (auto simp: takeWhile_append takeWhile_eq_all_conv)
  have "c = d" using tw [OF assms(1,4)] tw [OF assms(2,5)] assms(3) by simp
  then show ?thesis using assms(3) by simp
qed

lemma join_prefix:
  assumes "\<forall>c \<in> set cs. slash \<notin> set c" "\<forall>c \<in> set ds. slash \<notin> set c" "t = [] \<or> hd t = slash" "join cs = join ds @ t"
  shows "take (length ds) cs = ds"
  using assms
proof (induction ds arbitrary: cs)
  case (Cons d ds)
  then obtain c cs' where cs: "cs = c # cs'" by (cases cs) auto
  have "join cs' = [] \<or> hd (join cs') = slash" by (cases cs') simp_all
  moreover have "join ds @ t = [] \<or> hd (join ds @ t) = slash" using Cons.prems(3) by (cases ds) auto
  ultimately have "c = d \<and> join cs' = join ds @ t"
    using Cons.prems cs by (intro slash_free_split) auto
  then show ?case using Cons.IH [of cs'] Cons.prems cs by simp
qed simp

lemma join_append: "join (cs @ ds) = join cs @ join ds"
  by (simp add: join_def)

lemma path_is_or_under_join:
  assumes "\<forall>c \<in> set cs. comp_ok c" "\<forall>c \<in> set ds. comp_ok c" "ds \<noteq> []"
  shows "path_is_or_under (path_str cs) (join ds) \<longleftrightarrow> take (length ds) cs = ds"
proof
  have sl: "\<forall>c \<in> set cs. slash \<notin> set c" "\<forall>c \<in> set ds. slash \<notin> set c" using assms(1,2) comp_okD by blast+
  have two: "1 < length (join ds)" using assms(2,3) by (cases ds) (auto simp: comp_ok_def)
  {
    assume u: "path_is_or_under (path_str cs) (join ds)"
    have "[slash] \<noteq> join ds" using two by (cases "join ds") auto
    then have ne: "cs \<noteq> []" using u two by (auto simp: path_is_or_under_def Let_def path_str_def)
    show "take (length ds) cs = ds"
    proof (cases "join cs = join ds")
      case True
      then show ?thesis using join_prefix [OF sl, of "[]"] by simp
    next
      case False
      then have p: "take (length (join ds)) (join cs) = join ds" "length (join ds) < length (join cs)" "join cs ! length (join ds) = slash"
        using u path_str_join [OF ne] by (auto simp: path_is_or_under_def Let_def)
      define t where "t = drop (length (join ds)) (join cs)"
      have "join cs = join ds @ t" using append_take_drop_id [of "length (join ds)" "join cs"] p(1) by (simp add: t_def)
      moreover have "hd t = slash" using p(2,3) by (simp add: t_def hd_drop_conv_nth)
      ultimately show ?thesis using join_prefix [OF sl] by blast
    qed
  }
  assume "take (length ds) cs = ds"
  then obtain es where es: "cs = ds @ es" by (metis append_take_drop_id)
  show "path_is_or_under (path_str cs) (join ds)"
  proof (cases es)
    case Nil
    then show ?thesis using es assms(3) by (simp add: path_is_or_under_def path_str_join)
  next
    case (Cons e es')
    then have "path_str cs = join ds @ slash # e @ join es'" using es assms(3) by (simp add: path_str_join join_append)
    then show ?thesis using two by (simp add: path_is_or_under_def Let_def)
  qed
qed

lemma protected_prefixes_join: "protected_prefixes = [slash] # map join protected_dirs"
  by (simp add: protected_prefixes_def protected_dirs_def bytes_of_def)

lemma protected_dirs_ok: "\<forall>ds \<in> set protected_dirs. ds \<noteq> [] \<and> (\<forall>c \<in> set ds. comp_ok c)"
  by (simp add: protected_dirs_def bytes_of_def comp_ok_def VFS_NAME_MAX_def)

lemma protected_path_str:
  assumes "\<forall>c \<in> set cs. comp_ok c"
  shows "path_requires_root_for_mutation (path_str cs) \<longleftrightarrow> protected cs"
proof -
  have r: "path_is_or_under (path_str cs) [slash] \<longleftrightarrow> cs = []"
    using path_str_root [of cs] assms comp_okD by (auto simp: path_is_or_under_def Let_def path_str_def)
  have d: "path_is_or_under (path_str cs) (join ds) \<longleftrightarrow> take (length ds) cs = ds" if "ds \<in> set protected_dirs" for ds
    using path_is_or_under_join [OF assms] protected_dirs_ok that by blast
  show ?thesis
    unfolding path_requires_root_for_mutation_def protected_prefixes_join list_ex_iff
    by (auto simp: r d protected_def)
qed

text \<open>
  The string comparison that guards the system directories decides the right thing.  For every
  canonical path, \<open>path_requires_root_for_mutation\<close> is true exactly for \<open>/\<close>, for the protected
  directories and for everything below them: \<open>/usr\<close> and \<open>/usr/x\<close> are protected, \<open>/usrx\<close> is not.
\<close>

lemma protected_paths_exact:
  assumes "\<forall>c \<in> set cs. comp_ok c"
  shows "path_requires_root_for_mutation (path_str cs) \<longleftrightarrow> protected cs"
  by (rule protected_path_str [OF assms])

subsection \<open>Lookups of a process\<close>

text \<open>The components of a path that \<open>vfs_normalize\<close> returns in a buffer of \<open>VFS_PATH_MAX\<close> bytes.\<close>

definition canonical :: "u8 list list \<Rightarrow> bool" where
  "canonical cs \<longleftrightarrow> (\<forall>c \<in> set cs. comp_ok c) \<and> length cs \<le> VFS_MAX_COMPONENTS \<and> length (path_str cs) < VFS_PATH_MAX \<and>
     norm_join VFS_PATH_MAX [slash] cs = Some (path_str cs)"

lemma canonical_comps:
  assumes "canonical cs"
  shows "path_comps (Some (path_str cs)) (Some (bytes_of ''/'')) = Some cs" "nul_free (Some (path_str cs))"
proof -
  have ok: "\<forall>c \<in> set cs. comp_ok c" "length cs \<le> VFS_MAX_COMPONENTS" "length (path_str cs) < VFS_PATH_MAX"
    using assms by (auto simp: canonical_def)
  show "path_comps (Some (path_str cs)) (Some (bytes_of ''/'')) = Some cs"
    using vfs_normalize_canonical_path [OF ok, of VFS_PATH_MAX] norm_loop_path [OF ok(1,2)] assms
    by (simp add: path_comps_def VFS_PATH_MAX_def canonical_def)
  show "nul_free (Some (path_str cs))" using ok(1) by (auto simp: path_str_def comp_ok_def)
qed

lemma canonical_butlast:
  assumes "canonical (ds @ [c])"
  shows "canonical ds" "ds \<noteq> [] \<Longrightarrow> path_str (ds @ [c]) = path_str ds @ slash # c"
proof -
  have c: "c \<noteq> []" and ds: "\<forall>c \<in> set ds. comp_ok c \<and> c \<noteq> []" using assms comp_okD by (auto simp: canonical_def)
  show e: "ds \<noteq> [] \<Longrightarrow> path_str (ds @ [c]) = path_str ds @ slash # c" using c by (simp add: path_str_snoc)
  obtain o' where o: "norm_join VFS_PATH_MAX [slash] ds = Some o'"
    using assms norm_join_append [of VFS_PATH_MAX "[slash]" ds "[c]"]
    by (cases "norm_join VFS_PATH_MAX [slash] ds") (auto simp: canonical_def)
  have "o' = path_str ([] @ ds) \<and> length o' < VFS_PATH_MAX"
    by (rule norm_join_path) (use o ds in \<open>auto simp: path_str_def VFS_PATH_MAX_def\<close>)
  then show "canonical ds" using o assms ds e by (auto simp: canonical_def)
qed

text \<open>
  What a handler has after \<open>normalize_for_process\<close>: the components of the path, whose string it
  looks up again from \<open>/\<close>.
\<close>

lemma normalize_cases:
  assumes "nul_free path" "nul_free (Some (p_cwd proc))"
  obtains "normalize_for_process proc path VFS_PATH_MAX = None" "path_comps path (Some (p_cwd proc)) = None"
  | cs where "normalize_for_process proc path VFS_PATH_MAX = Some (path_str cs)" "path_comps path (Some (p_cwd proc)) = Some cs"
      "canonical cs"
  using assms
proof (cases rule: path_comps_cases)
  case 1
  then have "normalize_for_process proc path VFS_PATH_MAX = None" by (simp add: normalize_for_process_def)
  then show ?thesis using that(1) 1 by blast
next
  case (2 cs)
  have p: "path \<noteq> None" using 2(1) by (cases path) (simp_all add: vfs_normalize_def)
  have "canonical cs" using 2 by (simp add: canonical_def)
  then show ?thesis using that(2) [of cs] 2 p by (simp add: normalize_for_process_def VFS_PATH_MAX_def)
qed

lemma lookup_normal:
  assumes "fs_inv s" "canonical cs"
  shows "vfs_lookup s (Some (path_str cs)) (Some (bytes_of ''/'')) = Some (resolve (fs_nodes s) 0 cs)"
  using vfs_lookup_resolve [OF assms(1) canonical_comps(2) [OF assms(2)] nul_free_root] canonical_comps(1) [OF assms(2)] by simp

lemma lookup_parent:
  assumes inv: "fs_inv s" and can: "canonical cs"
  shows "lookup_parent_from_normal s (path_str cs) = Some (if cs = [] then None else resolve (fs_nodes s) 0 (butlast cs))"
proof (cases cs rule: rev_cases)
  case Nil
  then show ?thesis by (simp add: lookup_parent_from_normal_def path_str_def bytes_of_def)
next
  case (snoc ds c)
  have c: "comp_ok c" and root: "path_str cs \<noteq> [slash]" and len: "length (path_str cs) < VFS_PATH_MAX"
    using can snoc path_str_root [of cs] comp_okD by (auto simp: canonical_def)
  have can': "canonical ds" using can snoc canonical_butlast by blast
  let ?pre = "if ds = [] then [] else path_str ds"
  have ps: "path_str cs = ?pre @ slash # c" using snoc comp_okD [OF c] by (simp add: path_str_snoc)
  have t: "take (VFS_PATH_MAX - 1) (path_str cs) = path_str cs" using len by (simp add: VFS_PATH_MAX_def)
  have tw: "takeWhile (\<lambda>c. c \<noteq> slash) (rev (path_str cs)) = rev c"
    using comp_okD [OF c] unfolding ps by (auto simp: takeWhile_append takeWhile_eq_all_conv)
  have k: "length (path_str cs) - length (rev c) = Suc (length ?pre)" unfolding ps by simp
  have one: "length ?pre = 0 \<longleftrightarrow> ds = []" using path_str_hd [of ds] by auto
  have root_str: "bytes_of ''/'' = [slash]" "path_str [] = [slash]" by (simp_all add: bytes_of_def path_str_def)
  have "take 1 (path_str cs) = path_str []" using path_str_hd [of cs] root_str by auto
  moreover have "ds \<noteq> [] \<Longrightarrow> take (Suc (length ?pre) - 1) (path_str cs) = path_str ds" unfolding ps by simp
  moreover have "slash \<in> set (path_str cs)" using path_str_hd [of cs] by auto
  ultimately have "lookup_parent_from_normal s (path_str cs) = vfs_lookup s (Some (path_str ds)) (Some (bytes_of ''/''))"
    using root root_str(1) one unfolding lookup_parent_from_normal_def t tw k Let_def by (cases "ds = []") simp_all
  then show ?thesis using lookup_normal [OF inv can'] snoc by simp
qed

lemma can_create:
  assumes "fs_inv s" "canonical cs"
  shows "can_create_in_parent s proc (path_str cs) = Some (cs \<noteq> [] \<and>
     (\<exists>i. resolve (fs_nodes s) 0 (butlast cs) = Some i \<and> vn_type (fs_nodes s ! i) = VFS_NODE_DIR \<and>
        has_perm proc (fs_nodes s ! i) 2 \<and> has_perm proc (fs_nodes s ! i) 1))"
  using lookup_parent [OF assms] by (auto simp: can_create_in_parent_def split: option.splits)

end
