(* ===== verification/Sys_Calls.thy ===== *)
theory Sys_Calls
  imports Tty Sys_Perm
begin

text \<open>
  The handlers of \<open>kernel/core/syscall.c\<close> for files, directories, processes and users, and
  \<open>syscall_dispatch\<close>, over the parts below: the process table, the users with the file system, and
  the terminal.

  \<open>process_current ()\<close> is \<open>pt_current\<close>.  A call is a value of \<open>call\<close> with the arguments of its
  handler; a buffer that the kernel reads is the pointer with the bytes found there, a buffer it
  writes is the pointer alone, and what it writes is part of the answer.  What the devices give
  during the calls is in the state: input, clock and the events of the keyboard, and the size of
  the frame buffer in graphics mode; \<open>k_output\<close> is what the calls give to \<open>console_write_n\<close> and
  \<open>framebuffer_blit\<close>.  \<open>None\<close> is a run that is undefined in C (a NULL
  dereference, a signed overflow), that accesses memory outside an allocation, or that waits.
\<close>

definition VFS_O_RDWR :: u32 where "VFS_O_RDWR = 0x2"
definition VFS_O_CREAT :: u32 where "VFS_O_CREAT = 0x40"
definition VFS_O_TRUNC :: u32 where "VFS_O_TRUNC = 0x200"
definition VFS_O_EXCL :: u32 where "VFS_O_EXCL = 0x800"

datatype shown =
    Console "u8 list"
  | Blit nat nat "u8 list"

record kernel =
  k_procs :: proc_table
  k_users :: users_state
  k_tty :: tty
  k_input :: "input list"
  k_ctrl :: bool
  k_ticks :: "u64 list"
  k_events :: "u16 list"
  k_screen :: "(nat \<times> nat) option"
  k_output :: "shown list"

datatype answer =
    Ret int
  | Data "u8 list"
  | Dirent u64 nat "u8 list"
  | Stat vfs_stat_buf
  | Buffer "u8 list"
  | Handler u64
  | To_kernel int
  | Power_off

abbreviation k_fs :: "kernel \<Rightarrow> fs_state" where "k_fs k \<equiv> us_fs (k_users k)"
abbreviation k_nodes :: "kernel \<Rightarrow> vfs_node list" where "k_nodes k \<equiv> fs_nodes (k_fs k)"
abbreviation k_proc :: "kernel \<Rightarrow> nat \<Rightarrow> process" where "k_proc k p \<equiv> pt_processes (k_procs k) ! p"

definition set_fs :: "kernel \<Rightarrow> fs_state \<Rightarrow> kernel" where
  "set_fs k fs = k\<lparr>k_users := (k_users k)\<lparr>us_fs := fs\<rparr>\<rparr>"

definition set_proc :: "kernel \<Rightarrow> nat \<Rightarrow> process \<Rightarrow> kernel" where
  "set_proc k p q = k\<lparr>k_procs := (k_procs k)\<lparr>pt_processes := (pt_processes (k_procs k))[p := q]\<rparr>\<rparr>"

definition set_fd :: "kernel \<Rightarrow> nat \<Rightarrow> nat \<Rightarrow> file_descriptor \<Rightarrow> kernel" where
  "set_fd k p fd f = k\<lparr>k_procs := set_fds (k_procs k) p ((p_fds (k_proc k p))[fd := f])\<rparr>"

text \<open>A file-system operation as the last step of a handler.\<close>

definition on_fs :: "kernel \<Rightarrow> (fs_state \<times> int) option \<Rightarrow> (kernel \<times> answer) option" where
  "on_fs k r = map_option (\<lambda>(fs, rc). (set_fs k fs, Ret rc)) r"

abbreviation root_dir :: "u8 list option" where "root_dir \<equiv> Some (bytes_of ''/'')"

abbreviation has_flag :: "u32 \<Rightarrow> u32 \<Rightarrow> bool" where "has_flag flags f \<equiv> flags AND f \<noteq> 0"

section \<open>Opening\<close>

definition wants_write :: "u32 \<Rightarrow> bool" where
  "wants_write flags \<longleftrightarrow> has_flag flags VFS_O_WRONLY \<or> has_flag flags VFS_O_RDWR \<or> has_flag flags VFS_O_TRUNC \<or> has_flag flags VFS_O_APPEND"

definition wants_read :: "u32 \<Rightarrow> bool" where
  "wants_read flags \<longleftrightarrow> \<not> wants_write flags \<or> has_flag flags VFS_O_RDWR"

definition take_fd :: "kernel \<Rightarrow> nat \<Rightarrow> nat \<Rightarrow> u32 \<Rightarrow> kernel \<times> int" where
  "take_fd k p n flags = (case process_open_fd (k_nodes k) (k_procs k) (Some p) (Some n) flags of (s, fd) \<Rightarrow> (k\<lparr>k_procs := s\<rparr>, fd))"

definition open_trunc :: "kernel \<Rightarrow> nat \<Rightarrow> nat \<Rightarrow> u32 \<Rightarrow> kernel \<times> int" where
  "open_trunc k p n flags =
     (let fs = k_fs k;
          k1 = set_fs k (fs\<lparr>fs_nodes := (fs_nodes fs)[n := (fs_nodes fs ! n)\<lparr>vn_data := None, vn_size := 0, vn_borrowed := False,
                 vn_modified := vn_modified (fs_nodes fs ! n) + 1\<rparr>]\<rparr>)
      in case take_fd k1 p n flags of
           (k2, fd) \<Rightarrow>
             if fd \<ge> 0 then
               (case process_get_fd (k_procs k2) (Some p) fd of
                  None \<Rightarrow> (k2, fd)
                | Some i \<Rightarrow> (set_fd k2 p i ((p_fds (k_proc k2 p) ! i)\<lparr>fd_dirty := True\<rparr>), fd))
             else (k2, fd))"

definition open_node :: "kernel \<Rightarrow> nat \<Rightarrow> u8 list \<Rightarrow> u32 \<Rightarrow> nat option \<Rightarrow> kernel \<times> int" where
  "open_node k p normal flags node =
     (case node of
        None \<Rightarrow> (k, -1)
      | Some n \<Rightarrow>
          let proc = k_proc k p; v = k_nodes k ! n in
          if vn_type v = VFS_NODE_DEV \<and> \<not> is_root proc \<and> \<not> path_is_public_device normal then (k, -1)
          else if wants_write flags \<and> \<not> is_root proc \<and> path_requires_root_for_mutation normal then (k, -1)
          else if wants_read flags \<and> \<not> has_perm proc v 4 \<or> wants_write flags \<and> \<not> has_perm proc v 2 then (k, -1)
          else if wants_write flags \<and> vn_type v = VFS_NODE_DIR then (k, -1)
          else if has_flag flags VFS_O_TRUNC \<and> wants_write flags \<and> vn_type v = VFS_NODE_FILE then open_trunc k p n flags
          else take_fd k p n flags)"

text \<open>\<open>Inl\<close> is a return from \<open>sys_open\<close>, \<open>Inr\<close> the node after the creation.\<close>

definition open_create :: "kernel \<Rightarrow> nat \<Rightarrow> u8 list \<Rightarrow> u32 \<Rightarrow> (kernel \<times> (int + nat option)) option" where
  "open_create k p normal mode =
     (let proc = k_proc k p in
      if \<not> is_root proc \<and> path_requires_root_for_mutation normal then Some (k, Inl (-1))
      else
        case can_create_in_parent (k_fs k) proc normal of
          None \<Rightarrow> None
        | Some False \<Rightarrow> Some (k, Inl (-1))
        | Some True \<Rightarrow>
            (case vfs_create_file (k_fs k) (Some normal) root_dir (VFS_S_IFREG OR (mode AND 0x1ff)) (p_uid proc) (p_gid proc) of
               None \<Rightarrow> None
             | Some (fs, rc) \<Rightarrow>
                 if rc < 0 then Some (set_fs k fs, Inl (-1))
                 else map_option (\<lambda>node. (set_fs k fs, Inr node)) (vfs_lookup fs (Some normal) root_dir)))"

definition sys_open :: "kernel \<Rightarrow> ustr \<Rightarrow> u32 \<Rightarrow> u32 \<Rightarrow> (kernel \<times> answer) option" where
  "sys_open k path flags mode =
     (if \<not> ustr_ok (fst path) then Some (k, Ret (-1))
      else
        case pt_current (k_procs k) of
          None \<Rightarrow> Some (k, Ret (-1))
        | Some p \<Rightarrow>
            (case normalize_for_process (k_proc k p) (str_ptr path) VFS_PATH_MAX of
               None \<Rightarrow> Some (k, Ret (-1))
             | Some normal \<Rightarrow>
                 (case vfs_lookup (k_fs k) (Some normal) root_dir of
                    None \<Rightarrow> None
                  | Some node \<Rightarrow>
                      if node \<noteq> None \<and> has_flag flags VFS_O_CREAT \<and> has_flag flags VFS_O_EXCL then Some (k, Ret (-1))
                      else
                        map_option (\<lambda>(k1, r). case r of
                            Inl rc \<Rightarrow> (k1, Ret rc)
                          | Inr node1 \<Rightarrow> (case open_node k1 p normal flags node1 of (k2, fd) \<Rightarrow> (k2, Ret fd)))
                          (if node = None \<and> has_flag flags VFS_O_CREAT then open_create k p normal mode else Some (k, Inr node)))))"

definition sys_close :: "kernel \<Rightarrow> int \<Rightarrow> (kernel \<times> answer) option" where
  "sys_close k fd =
     (let proc = pt_current (k_procs k);
          dirty = (case (proc, process_get_fd (k_procs k) proc fd) of
                     (Some p, Some i) \<Rightarrow> fd_dirty (p_fds (k_proc k p) ! i)
                   | _ \<Rightarrow> False) in
      map_option (\<lambda>(fs, _). let k1 = set_fs k fs in (k1\<lparr>k_procs := process_close_fd (k_procs k1) proc fd\<rparr>, Ret 0))
        (if dirty then tfs_sync_if_mounted (k_fs k) else Some (k_fs k, 0)))"

section \<open>Reading and writing\<close>

definition disposition :: "kernel \<Rightarrow> u8 option" where
  "disposition k = map_option (\<lambda>p. p_signal_disposition (k_proc k p) ! SIGINT_NUMBER) (pt_current (k_procs k))"

definition read_terminal :: "kernel \<Rightarrow> nat \<Rightarrow> (kernel \<times> answer) option" where
  "read_terminal k count =
     map_option (\<lambda>(t, rest, out, ended, to_kernel).
         (k\<lparr>k_tty := t, k_input := rest, k_procs := if ended then process_exit (k_procs k) (pt_current (k_procs k)) 130 else k_procs k\<rparr>,
          if to_kernel then To_kernel 130 else Data out))
       (tty_read (k_tty k) (k_ctrl k) (disposition k) (k_ticks k) (k_input k) count)"

definition read_keyboard :: "kernel \<Rightarrow> nat \<Rightarrow> kernel \<times> answer" where
  "read_keyboard k count =
     (if count \<ge> 2 then
        (let n = min (count div 2) (length (k_events k)) in
         (k\<lparr>k_events := drop n (k_events k)\<rparr>, Data (concat (map (\<lambda>e. to_le 2 (unat e)) (take n (k_events k))))))
      else
        (case poll_bytes count (k_tty k) (k_ctrl k) (disposition k) (k_input k) [] of
           (t, rest, out) \<Rightarrow> (k\<lparr>k_tty := t, k_input := rest\<rparr>, Data out)))"

definition read_file :: "kernel \<Rightarrow> nat \<Rightarrow> nat \<Rightarrow> u64 \<Rightarrow> nat \<Rightarrow> (kernel \<times> answer) option" where
  "read_file k p i buf count =
     (let f = p_fds (k_proc k p) ! i in
      if buf = 0 then Some (k, Ret (-1))
      else
        map_option (\<lambda>r. case r of
            Inl e \<Rightarrow> (k, Ret e)
          | Inr out \<Rightarrow> (if out \<noteq> [] then set_fd k p i (f\<lparr>fd_offset := fd_offset f + word_of_nat (length out)\<rparr>) else k, Data out))
          (vfs_read_node (k_fs k) (fd_node f) (fd_offset f) count))"

definition sys_read :: "kernel \<Rightarrow> int \<Rightarrow> u64 \<Rightarrow> nat \<Rightarrow> (kernel \<times> answer) option" where
  "sys_read k fd buf count =
     (if count > 0 \<and> \<not> uptr_ok buf (word_of_nat count) then Some (k, Ret (-1))
      else if fd = 0 then read_terminal k count
      else
        case (pt_current (k_procs k), process_get_fd (k_procs k) (pt_current (k_procs k)) fd) of
          (Some p, Some i) \<Rightarrow>
            (let f = p_fds (k_proc k p) ! i in
             if has_flag (fd_flags f) VFS_O_WRONLY then Some (k, Ret (-1))
             else case fd_node f of
                None \<Rightarrow> None
              | Some n \<Rightarrow>
                  let v = k_nodes k ! n in
                  if vn_type v = VFS_NODE_DEV then
                    (if vn_name v = bytes_of ''null'' then Some (k, Data [])
                     else if vn_name v = bytes_of ''zero'' then Some (k, Data (replicate count 0))
                     else if vn_name v = bytes_of ''tty'' \<or> vn_name v = bytes_of ''console'' then read_terminal k count
                     else if vn_name v = bytes_of ''kbd'' then Some (read_keyboard k count)
                     else Some (k, Ret (-1)))
                  else read_file k p i buf count)
        | _ \<Rightarrow> Some (k, Ret (-1)))"

definition emit :: "kernel \<Rightarrow> shown \<Rightarrow> int \<Rightarrow> (kernel \<times> answer) option" where
  "emit k out rc = Some (k\<lparr>k_output := k_output k @ [out]\<rparr>, Ret rc)"

text \<open>A frame buffer of width 0 is a division by 0.\<close>

definition write_device :: "kernel \<Rightarrow> u8 list \<Rightarrow> u64 \<Rightarrow> u8 list \<Rightarrow> (kernel \<times> answer) option" where
  "write_device k name buf data =
     (if name = bytes_of ''null'' then Some (k, Ret (int (length data)))
      else if name = bytes_of ''tty'' \<or> name = bytes_of ''console'' then emit k (Console data) (int (length data))
      else if name = bytes_of ''fb0'' then
        (case k_screen k of
           None \<Rightarrow> Some (k, Ret (-1))
         | Some (width, height) \<Rightarrow>
             if buf = 0 then Some (k, Ret (-1))
             else if width = 0 then None
             else
               let pixels = min (length data div 4) (width * height); rows = pixels div width
               in emit k (Blit width rows (take (4 * (width * rows)) data)) (int (pixels * 4)))
      else Some (k, Ret (-1)))"

definition write_file :: "kernel \<Rightarrow> nat \<Rightarrow> nat \<Rightarrow> u64 \<Rightarrow> u8 list \<Rightarrow> (kernel \<times> answer) option" where
  "write_file k p i buf data =
     (let f = p_fds (k_proc k p) ! i in
      case fd_node f of
        None \<Rightarrow> None
      | Some n \<Rightarrow>
          let f1 = (if has_flag (fd_flags f) VFS_O_APPEND then f\<lparr>fd_offset := vn_size (k_nodes k ! n)\<rparr> else f);
              k1 = set_fd k p i f1 in
          if buf = 0 then Some (k1, Ret (-1))
          else
            map_option (\<lambda>(fs, rc).
                (if rc > 0 then set_fd (set_fs k1 fs) p i (f1\<lparr>fd_offset := fd_offset f1 + word_of_int rc, fd_dirty := True\<rparr>)
                 else set_fs k1 fs, Ret rc))
              (vfs_write_node (k_fs k1) (Some n) (fd_offset f1) data))"

definition sys_write :: "kernel \<Rightarrow> int \<Rightarrow> u64 \<Rightarrow> u8 list \<Rightarrow> (kernel \<times> answer) option" where
  "sys_write k fd buf data =
     (let count = length data in
      if count > 0 \<and> \<not> uptr_ok buf (word_of_nat count) then Some (k, Ret (-1))
      else if fd = 1 \<or> fd = 2 then emit k (Console data) (int count)
      else
        case (pt_current (k_procs k), process_get_fd (k_procs k) (pt_current (k_procs k)) fd) of
          (Some p, Some i) \<Rightarrow>
            (let f = p_fds (k_proc k p) ! i in
             if \<not> has_flag (fd_flags f) VFS_O_WRONLY \<and> \<not> has_flag (fd_flags f) VFS_O_RDWR then Some (k, Ret (-1))
             else case fd_node f of
                None \<Rightarrow> None
              | Some n \<Rightarrow>
                  let v = k_nodes k ! n in
                  if vn_type v = VFS_NODE_DEV then write_device k (vn_name v) buf data
                  else write_file k p i buf data)
        | _ \<Rightarrow> Some (k, Ret (-1)))"

text \<open>\<open>int64_t\<close> values; a sum outside their range is undefined.\<close>

definition sys_lseek :: "kernel \<Rightarrow> int \<Rightarrow> int \<Rightarrow> int \<Rightarrow> (kernel \<times> answer) option" where
  "sys_lseek k fd offset whence =
     (case (pt_current (k_procs k), process_get_fd (k_procs k) (pt_current (k_procs k)) fd) of
        (Some p, Some i) \<Rightarrow>
          (let f = p_fds (k_proc k p) ! i in
           if whence \<noteq> 0 \<and> whence \<noteq> 1 \<and> whence \<noteq> 2 then Some (k, Ret (-1))
           else if whence = 2 \<and> fd_node f = None then None
           else
             let base = (if whence = 0 then 0 else if whence = 1 then sint (fd_offset f) else sint (vn_size (k_nodes k ! the (fd_node f))));
                 fut = base + offset in
             if fut < -(2 ^ 63) \<or> fut \<ge> 2 ^ 63 then None
             else if fut < 0 then Some (k, Ret (-1))
             else Some (set_fd k p i (f\<lparr>fd_offset := word_of_int fut\<rparr>), Ret fut))
      | _ \<Rightarrow> Some (k, Ret (-1)))"

definition sys_readdir :: "kernel \<Rightarrow> int \<Rightarrow> u64 \<Rightarrow> (kernel \<times> answer) option" where
  "sys_readdir k fd buf =
     (if \<not> uptr_ok buf 272 then Some (k, Ret (-1))
      else
        case (pt_current (k_procs k), process_get_fd (k_procs k) (pt_current (k_procs k)) fd) of
          (Some p, Some i) \<Rightarrow>
            (let f = p_fds (k_proc k p) ! i in
             case fd_node f of
               None \<Rightarrow> Some (k, Ret (-1))
             | Some n \<Rightarrow>
                 if vn_type (k_nodes k ! n) \<noteq> VFS_NODE_DIR then Some (k, Ret (-1))
                 else
                   map_option (\<lambda>is.
                     if unat (fd_offset f) < length is then
                       (let v = k_nodes k ! (is ! unat (fd_offset f)) in
                        (set_fd k p i (f\<lparr>fd_offset := fd_offset f + 1\<rparr>),
                         Dirent (fd_offset f + 1) (case vn_type v of VFS_NODE_DIR \<Rightarrow> 4 | VFS_NODE_FILE \<Rightarrow> 8 | _ \<Rightarrow> 0) (take 255 (vn_name v))))
                     else (k, Ret 0))
                     (list_from (k_nodes k) (vn_first_child (k_nodes k ! n))))
        | _ \<Rightarrow> Some (k, Ret (-1)))"

definition sys_fstat :: "kernel \<Rightarrow> int \<Rightarrow> u64 \<Rightarrow> (kernel \<times> answer) option" where
  "sys_fstat k fd buf =
     (if \<not> uptr_ok buf 56 then Some (k, Ret (-1))
      else
        case (pt_current (k_procs k), process_get_fd (k_procs k) (pt_current (k_procs k)) fd) of
          (Some p, Some i) \<Rightarrow>
            (case fd_node (p_fds (k_proc k p) ! i) of
               None \<Rightarrow> Some (k, Ret (-1))
             | Some n \<Rightarrow>
                 let v = k_nodes k ! n in
                 Some (k, Stat \<lparr>st_mode = vn_mode v, st_uid = vn_uid v, st_gid = vn_gid v, st_size = vn_size v,
                   st_modified = vn_modified v, st_device = 1, st_inode = vn_created v, st_type = vn_type v\<rparr>))
        | _ \<Rightarrow> Some (k, Ret (-1)))"

section \<open>Paths\<close>

definition sys_access :: "kernel \<Rightarrow> ustr \<Rightarrow> u32 \<Rightarrow> (kernel \<times> answer) option" where
  "sys_access k path mode =
     (case pt_current (k_procs k) of
        None \<Rightarrow> Some (k, Ret (-1))
      | Some p \<Rightarrow>
          if fst path = 0 \<or> mode AND NOT 7 \<noteq> 0 then Some (k, Ret (-1))
          else case normalize_for_process (k_proc k p) (str_ptr path) VFS_PATH_MAX of
            None \<Rightarrow> Some (k, Ret (-1))
          | Some normal \<Rightarrow>
              map_option (\<lambda>node. case node of
                  None \<Rightarrow> (k, Ret (-1))
                | Some n \<Rightarrow>
                    let proc = k_proc k p; v = k_nodes k ! n in
                    (k, Ret (if mode = 0 then 0
                             else if has_flag mode 2 \<and> \<not> is_root proc \<and> path_requires_root_for_mutation normal then -1
                             else if vn_type v = VFS_NODE_DEV \<and> \<not> is_root proc \<and> \<not> path_is_public_device normal then -1
                             else if has_perm proc v mode then 0 else -1)))
                (vfs_lookup (k_fs k) (Some normal) root_dir))"

definition sys_chdir :: "kernel \<Rightarrow> ustr \<Rightarrow> (kernel \<times> answer) option" where
  "sys_chdir k path =
     (case pt_current (k_procs k) of
        None \<Rightarrow> None
      | Some p \<Rightarrow>
          let proc = k_proc k p in
          map_option (\<lambda>node. case node of
              None \<Rightarrow> (k, Ret (-1))
            | Some n \<Rightarrow>
                if vn_type (k_nodes k ! n) \<noteq> VFS_NODE_DIR \<or> \<not> has_perm proc (k_nodes k ! n) 1 then (k, Ret (-1))
                else case vfs_normalize (str_ptr path) (Some (p_cwd proc)) VFS_PATH_MAX of
                  None \<Rightarrow> (k, Ret (-1))
                | Some normal \<Rightarrow> (set_proc k p (proc\<lparr>p_cwd := normal\<rparr>), Ret 0))
            (vfs_lookup (k_fs k) (str_ptr path) (Some (p_cwd proc))))"

definition sys_getcwd :: "kernel \<Rightarrow> u64 \<Rightarrow> nat \<Rightarrow> (kernel \<times> answer) option" where
  "sys_getcwd k buf len =
     (if len = 0 \<or> \<not> uptr_ok buf (word_of_nat len) then Some (k, Ret (-1))
      else case pt_current (k_procs k) of
        None \<Rightarrow> None
      | Some p \<Rightarrow> Some (k, Buffer (take len (p_cwd (k_proc k p) @ replicate len 0))))"

definition sys_mkdir :: "kernel \<Rightarrow> ustr \<Rightarrow> u32 \<Rightarrow> (kernel \<times> answer) option" where
  "sys_mkdir k path mode =
     (case pt_current (k_procs k) of
        None \<Rightarrow> Some (k, Ret (-1))
      | Some p \<Rightarrow>
          let proc = k_proc k p in
          case normalize_for_process proc (str_ptr path) VFS_PATH_MAX of
            None \<Rightarrow> Some (k, Ret (-1))
          | Some normal \<Rightarrow>
              if \<not> is_root proc \<and> path_requires_root_for_mutation normal then Some (k, Ret (-1))
              else (case can_create_in_parent (k_fs k) proc normal of
                      None \<Rightarrow> None
                    | Some False \<Rightarrow> Some (k, Ret (-1))
                    | Some True \<Rightarrow> on_fs k (vfs_mkdir (k_fs k) (Some normal) root_dir (VFS_S_IFDIR OR (mode AND 0x1ff)) (p_uid proc) (p_gid proc))))"

definition sys_unlink :: "kernel \<Rightarrow> ustr \<Rightarrow> (kernel \<times> answer) option" where
  "sys_unlink k path =
     (case pt_current (k_procs k) of
        None \<Rightarrow> Some (k, Ret (-1))
      | Some p \<Rightarrow>
          let proc = k_proc k p in
          case normalize_for_process proc (str_ptr path) VFS_PATH_MAX of
            None \<Rightarrow> Some (k, Ret (-1))
          | Some normal \<Rightarrow>
              if normal = bytes_of ''/'' then Some (k, Ret (-1))
              else
                Option.bind (vfs_lookup (k_fs k) (Some normal) root_dir) (\<lambda>node.
                Option.bind (lookup_parent_from_normal (k_fs k) normal) (\<lambda>parent.
                  case (node, parent) of
                    (Some n, Some d) \<Rightarrow>
                      if vn_type (k_nodes k ! d) \<noteq> VFS_NODE_DIR then Some (k, Ret (-1))
                      else if \<not> is_root proc \<and> path_requires_root_for_mutation normal then Some (k, Ret (-1))
                      else if \<not> has_perm proc (k_nodes k ! d) 2 \<or> \<not> has_perm proc (k_nodes k ! d) 1 then Some (k, Ret (-1))
                      else on_fs k (vfs_unlink (k_fs k) (Some normal) root_dir)
                  | _ \<Rightarrow> Some (k, Ret (-1)))))"

definition sys_stat :: "kernel \<Rightarrow> ustr \<Rightarrow> u64 \<Rightarrow> (kernel \<times> answer) option" where
  "sys_stat k path buf =
     (if \<not> uptr_ok buf 56 then Some (k, Ret (-1))
      else case pt_current (k_procs k) of
        None \<Rightarrow> None
      | Some p \<Rightarrow> map_option (\<lambda>r. (k, case r of None \<Rightarrow> Ret (-1) | Some st \<Rightarrow> Stat st))
                    (vfs_stat (k_fs k) (str_ptr path) (Some (p_cwd (k_proc k p)))))"

definition sys_chmod :: "kernel \<Rightarrow> ustr \<Rightarrow> u32 \<Rightarrow> (kernel \<times> answer) option" where
  "sys_chmod k path mode =
     (case pt_current (k_procs k) of
        None \<Rightarrow> Some (k, Ret (-1))
      | Some p \<Rightarrow>
          let proc = k_proc k p in
          case normalize_for_process proc (str_ptr path) VFS_PATH_MAX of
            None \<Rightarrow> Some (k, Ret (-1))
          | Some normal \<Rightarrow>
              (case vfs_lookup (k_fs k) (Some normal) root_dir of
                 None \<Rightarrow> None
               | Some None \<Rightarrow> Some (k, Ret (-1))
               | Some (Some n) \<Rightarrow>
                   if \<not> is_root proc \<and> path_requires_root_for_mutation normal then Some (k, Ret (-1))
                   else if \<not> is_root proc \<and> p_uid proc \<noteq> vn_uid (k_nodes k ! n) then Some (k, Ret (-1))
                   else on_fs k (vfs_chmod (k_fs k) (Some normal) root_dir mode)))"

definition sys_chown :: "kernel \<Rightarrow> ustr \<Rightarrow> u32 \<Rightarrow> u32 \<Rightarrow> (kernel \<times> answer) option" where
  "sys_chown k path uid gid =
     (case pt_current (k_procs k) of
        None \<Rightarrow> Some (k, Ret (-1))
      | Some p \<Rightarrow>
          let proc = k_proc k p in
          if \<not> is_root proc then Some (k, Ret (-1))
          else case normalize_for_process proc (str_ptr path) VFS_PATH_MAX of
            None \<Rightarrow> Some (k, Ret (-1))
          | Some normal \<Rightarrow> on_fs k (vfs_chown (k_fs k) (Some normal) root_dir uid gid))"

section \<open>Processes and users\<close>

definition sys_spawn :: "kernel \<Rightarrow> ustr \<Rightarrow> (kernel \<times> answer) option" where
  "sys_spawn k name =
     (let u = user_current (k_users k);
          ppid = (case pt_current (k_procs k) of None \<Rightarrow> 0 | Some p \<Rightarrow> p_pid (k_proc k p)) in
      case str_ptr name of
        None \<Rightarrow> if find_slot (\<lambda>p. p_state p = PROCESS_UNUSED) (pt_processes (k_procs k)) 0 = None then Some (k, Ret (-1)) else None
      | Some nm \<Rightarrow>
          map_option (\<lambda>(s, child). (k\<lparr>k_procs := s\<rparr>, Ret (case child of None \<Rightarrow> -1 | Some i \<Rightarrow> p_pid (pt_processes s ! i))))
            (process_create (k_users k) (k_procs k) nm ppid (u_uid u) (u_gid u)))"

text \<open>The pointers \<open>act\<close> and \<open>oldact\<close> are used as they come; \<open>handler\<close> is what \<open>act\<close> points to.\<close>

definition sys_sigaction :: "kernel \<Rightarrow> int \<Rightarrow> u64 \<Rightarrow> u64 \<Rightarrow> u64 \<Rightarrow> (kernel \<times> answer) option" where
  "sys_sigaction k sig act handler oldact =
     (case pt_current (k_procs k) of
        None \<Rightarrow> Some (k, Ret (-1))
      | Some p \<Rightarrow>
          if sig \<le> 0 \<or> sig \<ge> int PROCESS_SIGNAL_MAX then Some (k, Ret (-1))
          else
            let proc = k_proc k p; i = nat sig; old = p_signal_handler proc ! i;
                new = (if oldact \<noteq> 0 \<and> oldact = act then old else handler);
                proc' = (if act = 0 then proc
                         else proc\<lparr>p_signal_handler := (p_signal_handler proc)[i := new],
                                   p_signal_disposition := (p_signal_disposition proc)[i :=
                                     if new = 0 then SIGNAL_DISPOSITION_DEFAULT
                                     else if new = 1 then SIGNAL_DISPOSITION_IGNORED else SIGNAL_DISPOSITION_HANDLED]\<rparr>)
            in Some (set_proc k p proc', if oldact = 0 then Ret 0 else Handler old))"

definition sys_exit :: "kernel \<Rightarrow> int \<Rightarrow> (kernel \<times> answer) option" where
  "sys_exit k code =
     map_option (\<lambda>(fs, _). ((set_fs k fs)\<lparr>k_procs := process_exit (k_procs k) (pt_current (k_procs k)) code\<rparr>, To_kernel code))
       (tfs_sync_if_mounted (k_fs k))"

text \<open>The buffers \<open>name\<close> and \<open>password\<close> have 32 and 128 bytes.\<close>

definition sys_login :: "kernel \<Rightarrow> ustr \<Rightarrow> ustr \<Rightarrow> (kernel \<times> answer) option" where
  "sys_login k user_ptr password_ptr =
     (case (copy_user_string_bounded user_ptr (USER_NAME_MAX + 1), copy_user_string_bounded password_ptr 128) of
        (Some name, Some password) \<Rightarrow>
          if user_find_name (us_users (k_users k)) name = None then Some (k, Ret (-1))
          else
            (case (if user_has_password (k_users k) name then user_login_password (k_users k) name password
                   else if password \<noteq> [] then (k_users k, -1) else user_login (k_users k) name) of
               (us, rc) \<Rightarrow>
                 let k1 = k\<lparr>k_users := us\<rparr> in
                 if rc < 0 then Some (k1, Ret (-1))
                 else case pt_current (k_procs k) of
                   None \<Rightarrow> Some (k1, Ret (-1))
                 | Some p \<Rightarrow>
                     let u = user_current us in
                     Some (set_proc k1 p ((k_proc k p)\<lparr>p_uid := u_uid u, p_gid := u_gid u, p_cwd := take (VFS_PATH_MAX - 1) (u_home u)\<rparr>), Ret 0))
      | _ \<Rightarrow> Some (k, Ret (-1)))"

definition sys_set_password :: "kernel \<Rightarrow> ustr \<Rightarrow> ustr \<Rightarrow> (kernel \<times> answer) option" where
  "sys_set_password k user_ptr password_ptr =
     (case (pt_current (k_procs k), copy_user_string_bounded user_ptr (USER_NAME_MAX + 1), copy_user_string_bounded password_ptr 128) of
        (Some p, Some name, Some password) \<Rightarrow>
          (case user_find_name (us_users (k_users k)) name of
             None \<Rightarrow> Some (k, Ret (-1))
           | Some target \<Rightarrow>
               if \<not> is_root (k_proc k p) \<and> p_uid (k_proc k p) \<noteq> u_uid target then Some (k, Ret (-1))
               else map_option (\<lambda>(us, rc). (k\<lparr>k_users := us\<rparr>, Ret rc)) (user_set_password (k_users k) (Some name) (Some password)))
      | _ \<Rightarrow> Some (k, Ret (-1)))"

definition sys_add_user :: "kernel \<Rightarrow> ustr \<Rightarrow> (kernel \<times> answer) option" where
  "sys_add_user k user_ptr =
     (case (pt_current (k_procs k), copy_user_string_bounded user_ptr (USER_NAME_MAX + 1)) of
        (Some p, Some name) \<Rightarrow>
          if \<not> is_root (k_proc k p) \<or> \<not> user_name_valid (Some name) then Some (k, Ret (-1))
          else
            let uid = user_next_uid (us_users (k_users k)) in
            map_option (\<lambda>(us, rc). (k\<lparr>k_users := us\<rparr>, Ret rc)) (user_add (k_users k) (Some name) uid uid)
      | _ \<Rightarrow> Some (k, Ret (-1)))"

definition sys_del_user :: "kernel \<Rightarrow> ustr \<Rightarrow> (kernel \<times> answer) option" where
  "sys_del_user k user_ptr =
     (case (pt_current (k_procs k), copy_user_string_bounded user_ptr (USER_NAME_MAX + 1)) of
        (Some p, Some name) \<Rightarrow>
          if \<not> is_root (k_proc k p) then Some (k, Ret (-1))
          else map_option (\<lambda>(us, rc). (k\<lparr>k_users := us\<rparr>, Ret rc)) (user_del (k_users k) name)
      | _ \<Rightarrow> Some (k, Ret (-1)))"

section \<open>Disks and power\<close>

text \<open>The tables of the AHCI and NVMe drivers are empty, as in the block layer; every ATA disk is writable.\<close>

definition block_device_get :: "ata_device list \<Rightarrow> nat \<Rightarrow> ata_device option" where
  "block_device_get devs index = (if index < length devs then Some (devs ! index) else None)"

definition sys_block_read :: "kernel \<Rightarrow> nat \<Rightarrow> u64 \<Rightarrow> u64 \<Rightarrow> u32 \<Rightarrow> (kernel \<times> answer) option" where
  "sys_block_read k index lba buf bytes =
     (if \<not> uptr_ok buf (ucast bytes) then Some (k, Ret (-1))
      else case block_device_get (fs_disks (k_fs k)) index of
        None \<Rightarrow> Some (k, Ret (-1))
      | Some d \<Rightarrow>
          Some (k, case block_read (fs_disks (k_fs k)) (dev_name d) lba (unat bytes) of None \<Rightarrow> Ret (-1) | Some out \<Rightarrow> Buffer out))"

definition sys_block_write :: "kernel \<Rightarrow> nat \<Rightarrow> u64 \<Rightarrow> u64 \<Rightarrow> u8 list \<Rightarrow> (kernel \<times> answer) option" where
  "sys_block_write k index lba buf data =
     (if \<not> uptr_ok buf (word_of_nat (length data)) then Some (k, Ret (-1))
      else case block_device_get (fs_disks (k_fs k)) index of
        None \<Rightarrow> Some (k, Ret (-1))
      | Some d \<Rightarrow>
          (case block_write_lba28 (fs_disks (k_fs k)) (dev_name d) (ucast lba) data of
             (disks, ok) \<Rightarrow> Some (set_fs k ((k_fs k)\<lparr>fs_disks := disks\<rparr>), Ret (if ok then 0 else -1))))"

definition sys_block_sync :: "kernel \<Rightarrow> nat \<Rightarrow> (kernel \<times> answer) option" where
  "sys_block_sync k index =
     (case block_device_get (fs_disks (k_fs k)) index of
        None \<Rightarrow> Some (k, Ret (-1))
      | Some d \<Rightarrow> Some (k, Ret (if block_sync (fs_disks (k_fs k)) (dev_name d) then 0 else -1)))"

definition sys_sync :: "kernel \<Rightarrow> (kernel \<times> answer) option" where
  "sys_sync k = (if \<not> fs_persistent (k_fs k) then Some (k, Ret 0) else on_fs k (tfs_sync (k_fs k)))"

text \<open>\<open>SYS_SHUTDOWN\<close> and \<open>SYS_REBOOT\<close>; \<open>power_shutdown\<close> and \<open>power_reboot\<close> do not return.\<close>

definition sys_power :: "kernel \<Rightarrow> (kernel \<times> answer) option" where
  "sys_power k =
     (case pt_current (k_procs k) of
        None \<Rightarrow> Some (k, Ret (-1))
      | Some p \<Rightarrow>
          if \<not> is_root (k_proc k p) then Some (k, Ret (-1))
          else map_option (\<lambda>(fs, _). (set_fs k fs, Power_off))
                 (if fs_persistent (k_fs k) then tfs_sync (k_fs k) else Some (k_fs k, 0)))"

section \<open>The dispatcher\<close>

datatype fd_call =
    Sys_read int u64 nat
  | Sys_write int u64 "u8 list"
  | Sys_close int
  | Sys_lseek int int int
  | Sys_dup int
  | Sys_dup2 int int
  | Sys_readdir int u64
  | Sys_fstat int u64

datatype path_call =
    Sys_open ustr u32 u32
  | Sys_access ustr u32
  | Sys_chdir ustr
  | Sys_getcwd u64 nat
  | Sys_mkdir ustr u32
  | Sys_unlink ustr
  | Sys_stat ustr u64
  | Sys_chmod ustr u32
  | Sys_chown ustr u32 u32

datatype proc_call =
    Sys_getpid
  | Sys_getppid
  | Sys_getuid
  | Sys_getgid
  | Sys_spawn ustr
  | Sys_wait
  | Sys_sigaction int u64 u64 u64

datatype user_call =
    Sys_login ustr ustr
  | Sys_set_password ustr ustr
  | Sys_add_user ustr
  | Sys_del_user ustr

datatype disk_call =
    Sys_block_count
  | Sys_block_read nat u64 u64 u32
  | Sys_block_write nat u64 u64 "u8 list"
  | Sys_block_sync nat
  | Sys_sync

datatype call =
    Fd_call fd_call
  | Path_call path_call
  | Proc_call proc_call
  | User_call user_call
  | Disk_call disk_call
  | Sys_shutdown
  | Sys_reboot
  | Sys_exit int

definition proc_field :: "kernel \<Rightarrow> (process \<Rightarrow> int) \<Rightarrow> (kernel \<times> answer) option" where
  "proc_field k f = Some (k, Ret (case pt_current (k_procs k) of None \<Rightarrow> -1 | Some p \<Rightarrow> f (k_proc k p)))"

definition on_procs :: "kernel \<Rightarrow> proc_table \<times> int \<Rightarrow> (kernel \<times> answer) option" where
  "on_procs k r = (case r of (s, rc) \<Rightarrow> Some (k\<lparr>k_procs := s\<rparr>, Ret rc))"

primrec handle_fd :: "kernel \<Rightarrow> fd_call \<Rightarrow> (kernel \<times> answer) option" where
  "handle_fd k (Sys_read fd buf count) = sys_read k fd buf count"
| "handle_fd k (Sys_write fd buf data) = sys_write k fd buf data"
| "handle_fd k (Sys_close fd) = sys_close k fd"
| "handle_fd k (Sys_lseek fd off whence) = sys_lseek k fd off whence"
| "handle_fd k (Sys_dup fd) = on_procs k (process_dup_fd (k_procs k) (pt_current (k_procs k)) fd)"
| "handle_fd k (Sys_dup2 fd fd') = on_procs k (process_dup2_fd (k_procs k) (pt_current (k_procs k)) fd fd')"
| "handle_fd k (Sys_readdir fd buf) = sys_readdir k fd buf"
| "handle_fd k (Sys_fstat fd buf) = sys_fstat k fd buf"

primrec handle_path :: "kernel \<Rightarrow> path_call \<Rightarrow> (kernel \<times> answer) option" where
  "handle_path k (Sys_open path flags mode) = sys_open k path flags mode"
| "handle_path k (Sys_access path mode) = sys_access k path mode"
| "handle_path k (Sys_chdir path) = sys_chdir k path"
| "handle_path k (Sys_getcwd buf len) = sys_getcwd k buf len"
| "handle_path k (Sys_mkdir path mode) = sys_mkdir k path mode"
| "handle_path k (Sys_unlink path) = sys_unlink k path"
| "handle_path k (Sys_stat path buf) = sys_stat k path buf"
| "handle_path k (Sys_chmod path mode) = sys_chmod k path mode"
| "handle_path k (Sys_chown path uid gid) = sys_chown k path uid gid"

primrec handle_proc :: "kernel \<Rightarrow> proc_call \<Rightarrow> (kernel \<times> answer) option" where
  "handle_proc k Sys_getpid = proc_field k p_pid"
| "handle_proc k Sys_getppid = proc_field k p_ppid"
| "handle_proc k Sys_getuid = proc_field k (\<lambda>p. uint (p_uid p))"
| "handle_proc k Sys_getgid = proc_field k (\<lambda>p. uint (p_gid p))"
| "handle_proc k (Sys_spawn name) = sys_spawn k name"
| "handle_proc k Sys_wait = Some (k, Ret (-1))"
| "handle_proc k (Sys_sigaction sig act handler oldact) = sys_sigaction k sig act handler oldact"

primrec handle_user :: "kernel \<Rightarrow> user_call \<Rightarrow> (kernel \<times> answer) option" where
  "handle_user k (Sys_login user password) = sys_login k user password"
| "handle_user k (Sys_set_password user password) = sys_set_password k user password"
| "handle_user k (Sys_add_user user) = sys_add_user k user"
| "handle_user k (Sys_del_user user) = sys_del_user k user"

primrec handle_disk :: "kernel \<Rightarrow> disk_call \<Rightarrow> (kernel \<times> answer) option" where
  "handle_disk k Sys_block_count = Some (k, Ret (int (length (fs_disks (k_fs k)))))"
| "handle_disk k (Sys_block_read index lba buf bytes) = sys_block_read k index lba buf bytes"
| "handle_disk k (Sys_block_write index lba buf data) = sys_block_write k index lba buf data"
| "handle_disk k (Sys_block_sync index) = sys_block_sync k index"
| "handle_disk k Sys_sync = sys_sync k"

primrec handle :: "kernel \<Rightarrow> call \<Rightarrow> (kernel \<times> answer) option" where
  "handle k (Fd_call c) = handle_fd k c"
| "handle k (Path_call c) = handle_path k c"
| "handle k (Proc_call c) = handle_proc k c"
| "handle k (User_call c) = handle_user k c"
| "handle k (Disk_call c) = handle_disk k c"
| "handle k Sys_shutdown = sys_power k"
| "handle k Sys_reboot = sys_power k"
| "handle k (Sys_exit code) = sys_exit k code"

primrec is_exit :: "call \<Rightarrow> bool" where
  "is_exit (Fd_call c) = False"
| "is_exit (Path_call c) = False"
| "is_exit (Proc_call c) = False"
| "is_exit (User_call c) = False"
| "is_exit (Disk_call c) = False"
| "is_exit Sys_shutdown = False"
| "is_exit Sys_reboot = False"
| "is_exit (Sys_exit code) = True"

text \<open>
  The test for Ctrl+C before a call of a user program; \<open>interrupt\<close> is what
  \<open>keyboard_consume_interrupt ()\<close> returns when it is called.
\<close>

definition syscall_dispatch :: "kernel \<Rightarrow> bool \<Rightarrow> bool \<Rightarrow> call \<Rightarrow> (kernel \<times> answer) option" where
  "syscall_dispatch k user_exec_active interrupt c =
     (if user_exec_active \<and> \<not> is_exit c \<and> disposition k \<in> {None, Some SIGNAL_DISPOSITION_DEFAULT} \<and> interrupt
      then Some (k\<lparr>k_procs := process_exit (k_procs k) (pt_current (k_procs k)) 130\<rparr>, To_kernel 130)
      else handle k c)"

end
