(* ===== verification/Sys_Access.thy ===== *)
theory Sys_Access
  imports Sys_Calls
begin

text \<open>
  What the path calls promise: a file system with permission bits and protected directories, on the
  map from paths to type, mode, owner and contents.
\<close>

section \<open>The specification\<close>

definition grants :: "process \<Rightarrow> vattr \<Rightarrow> u32 \<Rightarrow> bool" where
  "grants proc a perm =
     (case a of (_, md, u, g, _) \<Rightarrow>
        p_uid proc = 0 \<or> drop_bit (if p_uid proc = u then 6 else if p_gid proc = g then 3 else 0) md AND perm = perm)"

definition locked :: "process \<Rightarrow> u8 list list \<Rightarrow> bool" where
  "locked proc cs \<longleftrightarrow> \<not> is_root proc \<and> protected cs"

text \<open>A directory in which the process may add and remove entries.\<close>

definition may_change :: "process \<Rightarrow> vmap \<Rightarrow> u8 list list \<Rightarrow> bool" where
  "may_change proc m ds = (case m ds of None \<Rightarrow> False | Some a \<Rightarrow> fst a = VFS_NODE_DIR \<and> grants proc a 2 \<and> grants proc a 1)"

definition add_call :: "process \<Rightarrow> vfs_node_type \<Rightarrow> u32 \<Rightarrow> u8 list list option \<Rightarrow> bool \<Rightarrow> vmap \<Rightarrow> vmap \<times> int" where
  "add_call proc type mode path room m =
     (case path of
        None \<Rightarrow> (m, -1)
      | Some cs \<Rightarrow>
          if locked proc cs \<or> cs = [] \<or> \<not> may_change proc m (butlast cs) then (m, -1)
          else add_spec type mode (p_uid proc) (p_gid proc) path room m)"

definition unlink_call :: "process \<Rightarrow> u8 list list option \<Rightarrow> vmap \<Rightarrow> vmap \<times> int" where
  "unlink_call proc path m =
     (case path of
        None \<Rightarrow> (m, -1)
      | Some cs \<Rightarrow> if locked proc cs \<or> cs = [] \<or> \<not> may_change proc m (butlast cs) then (m, -1) else unlink_spec path m)"

definition chmod_call :: "process \<Rightarrow> u32 \<Rightarrow> u8 list list option \<Rightarrow> vmap \<Rightarrow> vmap \<times> int" where
  "chmod_call proc mode path m =
     (case path of
        None \<Rightarrow> (m, -1)
      | Some cs \<Rightarrow>
          (case m cs of
             None \<Rightarrow> (m, -1)
           | Some (_, _, u, _, _) \<Rightarrow>
               if locked proc cs \<or> \<not> is_root proc \<and> p_uid proc \<noteq> u then (m, -1) else attr_spec (chmod_attr mode) path m))"

definition chown_call :: "process \<Rightarrow> u32 \<Rightarrow> u32 \<Rightarrow> u8 list list option \<Rightarrow> vmap \<Rightarrow> vmap \<times> int" where
  "chown_call proc uid gid path m = (if \<not> is_root proc then (m, -1) else attr_spec (chown_attr uid gid) path m)"

definition public_device :: "u8 list list \<Rightarrow> bool" where
  "public_device cs \<longleftrightarrow> (\<exists>d \<in> {''null'', ''zero'', ''tty'', ''console''}. cs = [bytes_of ''dev'', bytes_of d])"

definition access_call :: "process \<Rightarrow> u32 \<Rightarrow> u8 list list option \<Rightarrow> vmap \<Rightarrow> int" where
  "access_call proc mode path m =
     (case path of
        None \<Rightarrow> -1
      | Some cs \<Rightarrow>
          (case m cs of
             None \<Rightarrow> -1
           | Some a \<Rightarrow>
               if mode AND NOT 7 \<noteq> 0 then -1
               else if mode = 0 then 0
               else if (mode AND 2 \<noteq> 0 \<longrightarrow> \<not> locked proc cs) \<and> (fst a = VFS_NODE_DEV \<longrightarrow> is_root proc \<or> public_device cs) \<and> grants proc a mode
               then 0 else -1))"

text \<open>
  Opening: the map after the call, which creates or truncates, and the path whose node gets a
  descriptor, if any does.
\<close>

definition open_allowed :: "process \<Rightarrow> u32 \<Rightarrow> u8 list list \<Rightarrow> vattr \<Rightarrow> bool" where
  "open_allowed proc flags cs a \<longleftrightarrow>
     (fst a = VFS_NODE_DEV \<longrightarrow> is_root proc \<or> public_device cs) \<and>
     (wants_read flags \<longrightarrow> grants proc a 4) \<and>
     (wants_write flags \<longrightarrow> grants proc a 2 \<and> \<not> locked proc cs \<and> fst a \<noteq> VFS_NODE_DIR)"

definition emptied :: "vattr \<Rightarrow> vattr" where
  "emptied a = (case a of (t, md, u, g, _) \<Rightarrow> (t, md, u, g, []))"

definition open_existing :: "process \<Rightarrow> u32 \<Rightarrow> u8 list list \<Rightarrow> vmap \<Rightarrow> vmap \<times> u8 list list option" where
  "open_existing proc flags cs m =
     (case m cs of
        None \<Rightarrow> (m, None)
      | Some a \<Rightarrow>
          if \<not> open_allowed proc flags cs a then (m, None)
          else if has_flag flags VFS_O_TRUNC \<and> fst a = VFS_NODE_FILE then (m(cs \<mapsto> emptied a), Some cs)
          else (m, Some cs))"

definition open_call :: "process \<Rightarrow> u32 \<Rightarrow> u32 \<Rightarrow> u8 list list option \<Rightarrow> bool \<Rightarrow> vmap \<Rightarrow> vmap \<times> u8 list list option" where
  "open_call proc flags mode path room m =
     (case path of
        None \<Rightarrow> (m, None)
      | Some cs \<Rightarrow>
          if m cs \<noteq> None then
            if has_flag flags VFS_O_CREAT \<and> has_flag flags VFS_O_EXCL then (m, None) else open_existing proc flags cs m
          else if has_flag flags VFS_O_CREAT then
            open_existing proc flags cs (fst (add_call proc VFS_NODE_FILE (VFS_S_IFREG OR (mode AND 0x1ff)) path room m))
          else (m, None))"

section \<open>The calls on the map\<close>

lemma has_perm_grants: "has_perm proc n perm = grants proc (node_view n) perm"
  by (simp add: has_perm_def grants_def node_view_def Let_def)

lemma fst_node_view [simp]: "fst (node_view n) = vn_type n"
  by (simp add: node_view_def)

lemma fs_map_Some: "fs_map s cs = Some a \<longleftrightarrow> (\<exists>i. resolve (fs_nodes s) 0 cs = Some i \<and> a = node_view (fs_nodes s ! i))"
  by (auto simp: fs_map_def)

lemma may_change_node:
  "may_change proc (fs_map s) ds \<longleftrightarrow>
     (\<exists>i. resolve (fs_nodes s) 0 ds = Some i \<and> vn_type (fs_nodes s ! i) = VFS_NODE_DIR \<and>
        has_perm proc (fs_nodes s ! i) 2 \<and> has_perm proc (fs_nodes s ! i) 1)"
  by (auto simp: may_change_def fs_map_def has_perm_grants split: option.splits)

lemma can_create_may:
  assumes "fs_inv s" "canonical cs"
  shows "can_create_in_parent s proc (path_str cs) = Some (cs \<noteq> [] \<and> may_change proc (fs_map s) (butlast cs))"
  using can_create [OF assms] by (simp add: may_change_node)

lemma locked_path: "canonical cs \<Longrightarrow> \<not> is_root proc \<and> path_requires_root_for_mutation (path_str cs) \<longleftrightarrow> locked proc cs"
  using protected_path_str [of cs] by (simp add: locked_def canonical_def)

lemma is_root_path: "canonical cs \<Longrightarrow> path_str cs = bytes_of ''/'' \<longleftrightarrow> cs = []"
  using path_str_root [of cs] comp_okD by (auto simp: canonical_def bytes_of_def path_str_def)

lemma public_device_path:
  assumes "canonical cs"
  shows "path_is_public_device (path_str cs) \<longleftrightarrow> public_device cs"
proof -
  have e: "path_str cs = bytes_of (''/dev/'' @ d) \<longleftrightarrow> cs = [bytes_of ''dev'', bytes_of d]"
    if d: "comp_ok (bytes_of d)" for d
  proof -
    let ?ds = "[bytes_of ''dev'', bytes_of d]"
    have "\<forall>c \<in> set ?ds. comp_ok c" using d by (simp add: comp_ok_def bytes_of_def VFS_NAME_MAX_def)
    moreover have "path_str ?ds = bytes_of (''/dev/'' @ d)" by (simp add: path_str_def bytes_of_def)
    ultimately show ?thesis using path_str_inj [of cs ?ds] assms by (auto simp: canonical_def VFS_MAX_COMPONENTS_def)
  qed
  have "comp_ok (bytes_of ''null'')" "comp_ok (bytes_of ''zero'')" "comp_ok (bytes_of ''tty'')" "comp_ok (bytes_of ''console'')"
    by (simp_all add: comp_ok_def bytes_of_def VFS_NAME_MAX_def)
  from this [THEN e] show ?thesis by (simp add: path_is_public_device_def public_device_def)
qed

text \<open>
  The situation of a path call: a well-formed file system, a current process and strings without
  NUL; \<open>cs\<close> is the path that the process means.
\<close>

definition path_state :: "kernel \<Rightarrow> nat \<Rightarrow> ustr \<Rightarrow> bool" where
  "path_state k p path \<longleftrightarrow> fs_inv (k_fs k) \<and> pt_current (k_procs k) = Some p \<and> nul_free (str_ptr path) \<and> nul_free (Some (p_cwd (k_proc k p)))"

definition meant :: "kernel \<Rightarrow> nat \<Rightarrow> ustr \<Rightarrow> u8 list list option" where
  "meant k p path = path_comps (str_ptr path) (Some (p_cwd (k_proc k p)))"

abbreviation room_for :: "kernel \<Rightarrow> bool" where "room_for k \<equiv> length (k_nodes k) < VFS_MAX_NODES"

lemma path_stateD:
  assumes "path_state k p path"
  shows "fs_inv (k_fs k)" "pt_current (k_procs k) = Some p" "nul_free (str_ptr path)" "nul_free (Some (p_cwd (k_proc k p)))"
  using assms by (auto simp: path_state_def)

lemma meant_cases:
  assumes "path_state k p path"
  obtains "normalize_for_process (k_proc k p) (str_ptr path) VFS_PATH_MAX = None" "meant k p path = None"
  | cs where "normalize_for_process (k_proc k p) (str_ptr path) VFS_PATH_MAX = Some (path_str cs)" "meant k p path = Some cs" "canonical cs"
  using normalize_cases [OF path_stateD(3,4) [OF assms]] unfolding meant_def by metis

definition fs_result :: "kernel \<Rightarrow> (kernel \<times> answer) option \<Rightarrow> vmap \<times> int \<Rightarrow> bool" where
  "fs_result k r spec \<longleftrightarrow> (\<exists>fs rc. r = Some (set_fs k fs, Ret rc) \<and> fs_inv fs \<and> (fs_map fs, rc) = spec \<and> tracks (k_fs k) fs)"

lemma set_fs_same [simp]: "set_fs k (k_fs k) = k"
  by (simp add: set_fs_def)

lemma fs_result_fail: "fs_inv (k_fs k) \<Longrightarrow> fs_result k (Some (k, Ret (-1))) (fs_map (k_fs k), -1)"
  unfolding fs_result_def by (rule exI [of _ "k_fs k"]) simp

lemma fs_result_op:
  "\<exists>s' rc. r = Some (s', rc) \<and> fs_inv s' \<and> (fs_map s', rc) = spec \<and> tracks (k_fs k) s' \<Longrightarrow> fs_result k (on_fs k r) spec"
  by (auto simp: fs_result_def on_fs_def)

context path_operation begin

lemma on_canonical:
  assumes "fs_inv s" "canonical cs"
  shows "\<exists>s' rc. op s (Some (path_str cs)) root_dir = Some (s', rc) \<and> fs_inv s' \<and>
     (fs_map s', rc) = spec (Some cs) (length (fs_nodes s) < VFS_MAX_NODES) (fs_map s) \<and> tracks s s'"
  using op_ok [OF assms(1) canonical_comps(2) [OF assms(2)] nul_free_root] canonical_comps(1) [OF assms(2)] by simp

lemma call_result:
  assumes "fs_inv (k_fs k)" "canonical cs"
  shows "fs_result k (on_fs k (op (k_fs k) (Some (path_str cs)) root_dir)) (spec (Some cs) (room_for k) (fs_map (k_fs k)))"
  using on_canonical [OF assms] by (rule fs_result_op)

end

lemma sys_mkdir_ok:
  assumes st: "path_state k p path"
  shows "fs_result k (sys_mkdir k path mode)
     (add_call (k_proc k p) VFS_NODE_DIR (VFS_S_IFDIR OR (mode AND 0x1ff)) (meant k p path) (room_for k) (fs_map (k_fs k)))"
  using st
proof (cases rule: meant_cases)
  case 1
  then show ?thesis using path_stateD(1,2) [OF st] fs_result_fail by (simp add: sys_mkdir_def Let_def add_call_def)
next
  case (2 cs)
  note st = path_stateD [OF st] and can = 2(3)
  have "sys_mkdir k path mode = (if locked (k_proc k p) cs \<or> cs = [] \<or> \<not> may_change (k_proc k p) (fs_map (k_fs k)) (butlast cs) then Some (k, Ret (-1))
      else on_fs k (vfs_mkdir (k_fs k) (Some (path_str cs)) root_dir (VFS_S_IFDIR OR (mode AND 0x1ff)) (p_uid (k_proc k p)) (p_gid (k_proc k p))))"
    unfolding sys_mkdir_def Let_def st(2) option.case 2(1) can_create_may [OF st(1) can] locked_path [OF can] by simp
  then show ?thesis using fs_result_fail [OF st(1)] mkdir_op.call_result [OF st(1) can] by (simp add: add_call_def 2(2))
qed

lemma sys_unlink_ok:
  assumes st: "path_state k p path"
  shows "fs_result k (sys_unlink k path) (unlink_call (k_proc k p) (meant k p path) (fs_map (k_fs k)))"
  using st
proof (cases rule: meant_cases)
  case 1
  then show ?thesis using path_stateD(1,2) [OF st] fs_result_fail by (simp add: sys_unlink_def Let_def unlink_call_def)
next
  case (2 cs)
  note st = path_stateD [OF st] and can = 2(3)
  let ?no = "locked (k_proc k p) cs \<or> cs = [] \<or> \<not> may_change (k_proc k p) (fs_map (k_fs k)) (butlast cs)"
  have "sys_unlink k path = (if ?no \<or> fs_map (k_fs k) cs = None then Some (k, Ret (-1)) else on_fs k (vfs_unlink (k_fs k) (Some (path_str cs)) root_dir))"
    unfolding sys_unlink_def Let_def st(2) option.case 2(1) lookup_normal [OF st(1) can] lookup_parent [OF st(1) can]
      is_root_path [OF can] locked_path [OF can] Option.bind.simps
    by (simp add: may_change_node fs_map_None split: option.split)
  moreover have "?no \<or> fs_map (k_fs k) cs = None \<Longrightarrow> unlink_call (k_proc k p) (Some cs) (fs_map (k_fs k)) = (fs_map (k_fs k), -1)"
    by (auto simp: unlink_call_def unlink_spec_def)
  moreover have "\<not> ?no \<Longrightarrow> unlink_call (k_proc k p) (Some cs) (fs_map (k_fs k)) = unlink_spec (Some cs) (fs_map (k_fs k))"
    by (simp add: unlink_call_def)
  ultimately show ?thesis using fs_result_fail [OF st(1)] unlink_op.call_result [OF st(1) can] 2(2) by (metis (full_types))
qed

lemma sys_chmod_ok:
  assumes st: "path_state k p path"
  shows "fs_result k (sys_chmod k path mode) (chmod_call (k_proc k p) mode (meant k p path) (fs_map (k_fs k)))"
  using st
proof (cases rule: meant_cases)
  case 1
  then show ?thesis using path_stateD(1,2) [OF st] fs_result_fail by (simp add: sys_chmod_def Let_def chmod_call_def)
next
  case (2 cs)
  note st = path_stateD [OF st] and can = 2(3)
  show ?thesis
  proof (cases "resolve (k_nodes k) 0 cs")
    case None
    then show ?thesis using fs_result_fail [OF st(1)]
      by (simp add: sys_chmod_def Let_def st(2) 2(1,2) lookup_normal [OF st(1) can] chmod_call_def fs_map_def)
  next
    case (Some i)
    then show ?thesis using fs_result_fail [OF st(1)] chmod_op.call_result [OF st(1) can] locked_path [OF can, of "k_proc k p"]
      by (simp add: sys_chmod_def Let_def st(2) 2(1,2) lookup_normal [OF st(1) can] chmod_call_def fs_map_def node_view_def)
  qed
qed

lemma sys_chown_ok:
  assumes st: "path_state k p path"
  shows "fs_result k (sys_chown k path uid gid) (chown_call (k_proc k p) uid gid (meant k p path) (fs_map (k_fs k)))"
  using st
proof (cases rule: meant_cases)
  case 1
  then show ?thesis using path_stateD(1,2) [OF st] fs_result_fail by (simp add: sys_chown_def Let_def chown_call_def attr_spec_def)
next
  case (2 cs)
  note st = path_stateD [OF st] and can = 2(3)
  show ?thesis using fs_result_fail [OF st(1)] chown_op.call_result [OF st(1) can] by (simp add: sys_chown_def Let_def st(2) 2(1,2) chown_call_def)
qed

lemma sys_access_ok:
  assumes st: "path_state k p path"
  shows "sys_access k path mode = Some (k, Ret (access_call (k_proc k p) mode (meant k p path) (fs_map (k_fs k))))"
  using st
proof (cases rule: meant_cases)
  case 1
  then show ?thesis using path_stateD(2) [OF st] by (simp add: sys_access_def Let_def access_call_def)
next
  case (2 cs)
  note st = path_stateD [OF st] and can = 2(3)
  have f: "fst path \<noteq> 0" using 2(1) by (auto simp: normalize_for_process_def str_ptr_def split: if_splits)
  show ?thesis
  proof (cases "resolve (k_nodes k) 0 cs")
    case None
    then show ?thesis using f by (simp add: sys_access_def st(2) 2(1,2) lookup_normal [OF st(1) can] access_call_def fs_map_def)
  next
    case (Some i)
    then show ?thesis using f locked_path [OF can, of "k_proc k p"]
      by (auto simp: sys_access_def Let_def st(2) 2(1,2) lookup_normal [OF st(1) can] access_call_def fs_map_def
          public_device_path [OF can] has_perm_grants)
  qed
qed

subsection \<open>Opening\<close>

lemma put_fd:
  assumes "in_use s p" "i < VFS_MAX_FDS" "length (p_fds (pt_processes s ! p)) = VFS_MAX_FDS" "fd_used f"
  shows "fd_map (set_fds s p ((p_fds (pt_processes s ! p))[i := f])) p = (fd_map s p)(i \<mapsto> (fd_flags f, fd_offset f, fd_node f))"
  using fd_map_set(1) [OF assms(1-3)] assms(4) by simp

lemma open_fd:
  assumes u: "in_use s p" and l: "length (p_fds (pt_processes s ! p)) = VFS_MAX_FDS"
  shows "\<exists>s' rc. process_open_fd nodes s (Some p) (Some n) flags = (s', rc) \<and>
     (fd_map s' p, rc) = put_spec (flags, if has_flag flags VFS_O_APPEND then vn_size (nodes ! n) else 0, Some n) (fd_map s p) \<and>
     (rc = -1 \<and> s' = s \<or> (\<exists>i f. 3 \<le> i \<and> i < VFS_MAX_FDS \<and> rc = int i \<and> fd_used f \<and> fd_flags f = flags \<and> fd_node f = Some n \<and>
        s' = set_fds s p ((p_fds (pt_processes s ! p))[i := f])))"
proof (cases "lowest_free (p_fds (pt_processes s ! p))")
  case None
  then show ?thesis using lowest_free_lowest [OF l] by (simp add: process_open_fd_def put_spec_def Let_def)
next
  case (Some i)
  have i: "3 \<le> i" "i < VFS_MAX_FDS" using lowest_free_Some [OF Some] l by simp_all
  define f where "f = (p_fds (pt_processes s ! p) ! i)\<lparr>fd_used := True, fd_flags := flags,
      fd_offset := if has_flag flags VFS_O_APPEND then vn_size (nodes ! n) else 0, fd_node := Some n\<rparr>"
  have f: "fd_used f" "fd_flags f = flags" "fd_node f = Some n" "fd_offset f = (if has_flag flags VFS_O_APPEND then vn_size (nodes ! n) else 0)"
    by (simp_all add: f_def)
  have "process_open_fd nodes s (Some p) (Some n) flags = (set_fds s p ((p_fds (pt_processes s ! p))[i := f]), int i)"
    by (simp add: process_open_fd_def Some Let_def f_def)
  moreover have "lowest (fd_map s p) = Some i" using Some lowest_free_lowest [OF l] by simp
  ultimately show ?thesis using put_fd [OF u i(2) l f(1)] f i by (auto simp: put_spec_def)
qed

text \<open>A process that may make calls, and a call that gives it a descriptor of node \<open>n\<close>.\<close>

definition caller :: "kernel \<Rightarrow> nat \<Rightarrow> bool" where
  "caller k p \<longleftrightarrow> pt_current (k_procs k) = Some p \<and> in_use (k_procs k) p \<and> length (p_fds (k_proc k p)) = VFS_MAX_FDS"

definition got_fd :: "kernel \<Rightarrow> nat \<Rightarrow> u32 \<Rightarrow> nat \<Rightarrow> kernel \<Rightarrow> int \<Rightarrow> bool" where
  "got_fd k p flags n k' rc \<longleftrightarrow>
     (fd_map (k_procs k') p, rc) = put_spec (flags, if has_flag flags VFS_O_APPEND then vn_size (k_nodes k' ! n) else 0, Some n) (fd_map (k_procs k) p) \<and>
     (\<exists>fds. length fds = VFS_MAX_FDS \<and> k_procs k' = set_fds (k_procs k) p fds)"

lemma set_fds_simps [simp]:
  "set_fds s p (p_fds (pt_processes s ! p)) = s" "p < length (pt_processes s) \<Longrightarrow> set_fds (set_fds s p fds) p fds' = set_fds s p fds'"
  "pt_current (set_fds s p fds) = pt_current s" "length (pt_processes (set_fds s p fds)) = length (pt_processes s)"
  "p < length (pt_processes s) \<Longrightarrow> pt_processes (set_fds s p fds) ! p = (pt_processes s ! p)\<lparr>p_fds := fds\<rparr>"
  by (simp_all add: set_fds_def)

lemma take_fd_ok:
  assumes "caller k p"
  shows "\<exists>k' rc. take_fd k p n flags = (k', rc) \<and> k_fs k' = k_fs k \<and> got_fd k p flags n k' rc"
proof -
  obtain s' rc where s': "process_open_fd (k_nodes k) (k_procs k) (Some p) (Some n) flags = (s', rc)"
    "(fd_map s' p, rc) = put_spec (flags, if has_flag flags VFS_O_APPEND then vn_size (k_nodes k ! n) else 0, Some n) (fd_map (k_procs k) p)"
    "rc = -1 \<and> s' = k_procs k \<or> (\<exists>i f. s' = set_fds (k_procs k) p ((p_fds (k_proc k p))[i := f]))"
    using open_fd [where s = "k_procs k" and p = p and nodes = "k_nodes k" and n = n and flags = flags] assms by (auto simp: caller_def)
  from s'(3) have "\<exists>fds. length fds = VFS_MAX_FDS \<and> s' = set_fds (k_procs k) p fds"
    using assms set_fds_simps(1) [of "k_procs k" p] by (metis caller_def length_list_update)
  then show ?thesis using s'(1,2) by (intro exI [of _ "k\<lparr>k_procs := s'\<rparr>"] exI [of _ rc]) (simp add: take_fd_def got_fd_def)
qed

lemma set_fs_simps [simp]:
  "k_fs (set_fs k fs) = fs" "k_procs (set_fs k fs) = k_procs k" "set_fs (set_fs k fs) fs' = set_fs k fs'"
  by (simp_all add: set_fs_def)

lemma caller_set_fs [simp]: "caller (set_fs k fs) p = caller k p"
  by (simp add: caller_def)

text \<open>The descriptor's \<open>dirty\<close> bit is not part of the map.\<close>

lemma open_trunc_ok:
  assumes inv: "fs_inv (k_fs k)" and c: "caller k p" and r: "resolve (k_nodes k) 0 cs = Some n"
  shows "\<exists>k' rc. open_trunc k p n flags = (k', rc) \<and> fs_inv (k_fs k') \<and> tracks (k_fs k) (k_fs k') \<and>
     fs_map (k_fs k') = (fs_map (k_fs k))(cs \<mapsto> emptied (node_view (k_nodes k ! n))) \<and> resolve (k_nodes k') 0 cs = Some n \<and> got_fd k p flags n k' rc"
proof -
  let ?f = "\<lambda>v. v\<lparr>vn_data := None, vn_size := 0, vn_borrowed := False, vn_modified := vn_modified v + 1\<rparr>"
  let ?fs = "(k_fs k)\<lparr>fs_nodes := (k_nodes k)[n := ?f (k_nodes k ! n)]\<rparr>"
  have kl: "keeps_links ?f (k_nodes k ! n)" by (simp add: keeps_links_def data_ok_def)
  have v: "node_view (?f (k_nodes k ! n)) = emptied (node_view (k_nodes k ! n))" by (simp add: node_view_def contents_def emptied_def)
  have fs: "(k_fs k)\<lparr>fs_nodes := (k_nodes k)[n := ?f (k_nodes k ! n)], fs_clock := fs_clock (k_fs k), fs_heap := fs_heap (k_fs k)\<rparr> = ?fs" by simp
  note U = update_node_map [OF inv r kl, where t = "fs_clock (k_fs k)" and h = "fs_heap (k_fs k)", unfolded fs v]
  have "n < length (k_nodes k)" using resolve_bound [OF fs_invD(3,2) [OF inv] r] by simp
  note R = update_node_inv(2) [OF inv this kl, where t = "fs_clock (k_fs k)" and h = "fs_heap (k_fs k)" and cs = cs, unfolded fs r]
  obtain k2 fd where k2: "take_fd (set_fs k ?fs) p n flags = (k2, fd)" "k_fs k2 = ?fs" "got_fd (set_fs k ?fs) p flags n k2 fd"
    using take_fd_ok [of "set_fs k ?fs" p n flags] c by auto
  show ?thesis
  proof (cases "fd \<ge> 0 \<and> process_get_fd (k_procs k2) (Some p) fd \<noteq> None")
    case False
    then have "open_trunc k p n flags = (k2, fd)" using k2(1) by (auto simp: open_trunc_def Let_def split: option.split)
    then show ?thesis using k2 U R by (simp add: got_fd_def)
  next
    case True
    then obtain i where i: "process_get_fd (k_procs k2) (Some p) fd = Some i" by auto
    define d where "d = (p_fds (k_proc k2 p) ! i)\<lparr>fd_dirty := True\<rparr>"
    note G = get_fd_view [OF i]
    have e: "open_trunc k p n flags = (set_fd k2 p i d, fd)" using True i k2(1) by (simp add: open_trunc_def Let_def d_def)
    obtain fds where fds: "length fds = VFS_MAX_FDS" "k_procs k2 = set_fds (k_procs k) p fds" using k2(3) by (auto simp: got_fd_def)
    then have u: "in_use (k_procs k2) p \<and> length (p_fds (k_proc k2 p)) = VFS_MAX_FDS" using c by (simp add: caller_def)
    then have "fd_map (k_procs (set_fd k2 p i d)) p = fd_map (k_procs k2) p"
      using put_fd [where s = "k_procs k2" and p = p and i = i and f = d] G by (auto simp: set_fd_def d_def get_spec_def fun_upd_idem)
    moreover have "k_procs (set_fd k2 p i d) = set_fds (k_procs k) p (fds[i := d])"
      using fds(2) c by (simp add: set_fd_def caller_def)
    then have "\<exists>fds. length fds = VFS_MAX_FDS \<and> k_procs (set_fd k2 p i d) = set_fds (k_procs k) p fds" using fds(1) by (metis length_list_update)
    ultimately show ?thesis using e k2(2,3) U R by (simp add: got_fd_def set_fd_def)
  qed
qed

lemma open_node_ok:
  assumes inv: "fs_inv (k_fs k)" and c: "caller k p" and can: "canonical cs" and r: "resolve (k_nodes k) 0 cs = Some n"
  defines "a \<equiv> node_view (k_nodes k ! n)" and "proc \<equiv> k_proc k p"
  shows "\<exists>k' rc. open_node k p (path_str cs) flags (Some n) = (k', rc) \<and> fs_inv (k_fs k') \<and> tracks (k_fs k) (k_fs k') \<and>
     (if open_allowed proc flags cs a then resolve (k_nodes k') 0 cs = Some n \<and> got_fd k p flags n k' rc else rc = -1 \<and> k' = k) \<and>
     fs_map (k_fs k') = (if open_allowed proc flags cs a \<and> has_flag flags VFS_O_TRUNC \<and> fst a = VFS_NODE_FILE
       then (fs_map (k_fs k))(cs \<mapsto> emptied a) else fs_map (k_fs k))"
proof -
  have w: "has_flag flags VFS_O_TRUNC \<Longrightarrow> wants_write flags" by (simp add: wants_write_def)
  let ?no = "vn_type (k_nodes k ! n) = VFS_NODE_DEV \<and> \<not> is_root proc \<and> \<not> path_is_public_device (path_str cs) \<or>
      wants_write flags \<and> \<not> is_root proc \<and> path_requires_root_for_mutation (path_str cs) \<or>
      wants_read flags \<and> \<not> has_perm proc (k_nodes k ! n) 4 \<or> wants_write flags \<and> \<not> has_perm proc (k_nodes k ! n) 2 \<or>
      wants_write flags \<and> vn_type (k_nodes k ! n) = VFS_NODE_DIR"
  have no: "?no \<longleftrightarrow> \<not> open_allowed proc flags cs a"
    using locked_path [OF can, of proc] by (auto simp: open_allowed_def a_def public_device_path [OF can] has_perm_grants)
  have e: "open_node k p (path_str cs) flags (Some n) =
      (if ?no then (k, -1)
       else if has_flag flags VFS_O_TRUNC \<and> wants_write flags \<and> vn_type (k_nodes k ! n) = VFS_NODE_FILE then open_trunc k p n flags
       else take_fd k p n flags)"
    unfolding open_node_def Let_def proc_def option.case by auto
  show ?thesis
  proof (cases "open_allowed proc flags cs a")
    case False
    then show ?thesis unfolding e no using inv by simp
  next
    case True
    then show ?thesis
    proof (cases "has_flag flags VFS_O_TRUNC \<and> vn_type (k_nodes k ! n) = VFS_NODE_FILE")
      case t: True
      then show ?thesis unfolding e no using True w open_trunc_ok [OF inv c r, of flags] by (auto simp: a_def)
    next
      case t: False
      then show ?thesis unfolding e no using True take_fd_ok [OF c, of n flags] inv r by (auto simp: a_def)
    qed
  qed
qed

lemma open_create_ok:
  assumes inv: "fs_inv (k_fs k)" and can: "canonical cs"
  shows "\<exists>fs rc. open_create k p (path_str cs) mode = Some (set_fs k fs, if rc < 0 then Inl (-1) else Inr (resolve (fs_nodes fs) 0 cs)) \<and>
     fs_inv fs \<and> tracks (k_fs k) fs \<and>
     (fs_map fs, rc) = add_call (k_proc k p) VFS_NODE_FILE (VFS_S_IFREG OR (mode AND 0x1ff)) (Some cs) (room_for k) (fs_map (k_fs k))"
proof (cases "locked (k_proc k p) cs \<or> cs = [] \<or> \<not> may_change (k_proc k p) (fs_map (k_fs k)) (butlast cs)")
  case True
  then have "open_create k p (path_str cs) mode = Some (k, Inl (-1))"
    unfolding open_create_def Let_def can_create_may [OF inv can] locked_path [OF can] by auto
  then show ?thesis using inv True by (intro exI [of _ "k_fs k"] exI [of _ "-1"]) (simp add: add_call_def)
next
  case False
  obtain fs rc where fs: "vfs_create_file (k_fs k) (Some (path_str cs)) root_dir (VFS_S_IFREG OR (mode AND 0x1ff)) (p_uid (k_proc k p)) (p_gid (k_proc k p)) = Some (fs, rc)"
    "fs_inv fs"
    "(fs_map fs, rc) = add_spec VFS_NODE_FILE (VFS_S_IFREG OR (mode AND 0x1ff)) (p_uid (k_proc k p)) (p_gid (k_proc k p)) (Some cs) (room_for k) (fs_map (k_fs k))"
    "tracks (k_fs k) fs"
    using create_op.on_canonical [OF inv can] by blast
  have "open_create k p (path_str cs) mode = Some (set_fs k fs, if rc < 0 then Inl (-1) else Inr (resolve (fs_nodes fs) 0 cs))"
    unfolding open_create_def Let_def can_create_may [OF inv can] locked_path [OF can]
    using False by (simp add: fs(1) lookup_normal [OF fs(2) can])
  then show ?thesis using fs(2-4) False by (intro exI [of _ fs] exI [of _ rc]) (simp add: add_call_def)
qed

lemma add_call_exists: "add_call proc type mode (Some cs) room m = (m', rc) \<Longrightarrow> m cs = None \<Longrightarrow> m' cs \<noteq> None \<longleftrightarrow> \<not> rc < 0"
  by (auto simp: add_call_def add_spec_def split: if_splits)

definition open_result :: "kernel \<Rightarrow> nat \<Rightarrow> u32 \<Rightarrow> (kernel \<times> answer) option \<Rightarrow> vmap \<times> u8 list list option \<Rightarrow> bool" where
  "open_result k p flags r spec \<longleftrightarrow>
     (\<exists>k' rc. r = Some (k', Ret rc) \<and> fs_inv (k_fs k') \<and> tracks (k_fs k) (k_fs k') \<and> fs_map (k_fs k') = fst spec \<and>
        (case snd spec of
           None \<Rightarrow> rc = -1 \<and> k_procs k' = k_procs k
         | Some cs \<Rightarrow> \<exists>n. resolve (k_nodes k') 0 cs = Some n \<and> got_fd k p flags n k' rc))"

lemma open_resolved:
  assumes inv: "fs_inv fs" and tr: "tracks (k_fs k) fs" and c: "caller k p" and can: "canonical cs"
    and r: "r = Some (case open_node (set_fs k fs) p (path_str cs) flags (resolve (fs_nodes fs) 0 cs) of (k2, fd) \<Rightarrow> (k2, Ret fd))"
    and m: "fs_map fs = m1"
  shows "open_result k p flags r
     (open_existing (k_proc k p) flags cs m1)"
proof (cases "resolve (fs_nodes fs) 0 cs")
  case None
  then have "m1 cs = None" using m by (auto simp: fs_map_def)
  then show ?thesis using None r inv tr m by (simp add: open_result_def open_node_def open_existing_def)
next
  case (Some n)
  then have v: "m1 cs = Some (node_view (fs_nodes fs ! n))" using m by (auto simp: fs_map_def)
  obtain k' rc where k': "open_node (set_fs k fs) p (path_str cs) flags (Some n) = (k', rc)" "fs_inv (k_fs k')" "tracks fs (k_fs k')"
    "if open_allowed (k_proc k p) flags cs (node_view (fs_nodes fs ! n)) then resolve (k_nodes k') 0 cs = Some n \<and> got_fd (set_fs k fs) p flags n k' rc else rc = -1 \<and> k' = set_fs k fs"
    "fs_map (k_fs k') = (if open_allowed (k_proc k p) flags cs (node_view (fs_nodes fs ! n)) \<and> has_flag flags VFS_O_TRUNC \<and> vn_type (fs_nodes fs ! n) = VFS_NODE_FILE
       then (fs_map fs)(cs \<mapsto> emptied (node_view (fs_nodes fs ! n))) else fs_map fs)"
    using open_node_ok [of "set_fs k fs" p cs n flags] inv c can Some by auto
  have t: "tracks (k_fs k) (k_fs k')" using tracks_trans [OF tr k'(3)] .
  have rr: "r = Some (k', Ret rc)" using r k'(1) Some by simp
  show ?thesis
  proof (cases "open_allowed (k_proc k p) flags cs (node_view (fs_nodes fs ! n))")
    case False
    then show ?thesis using k' rr t v m by (simp add: open_result_def open_existing_def)
  next
    case True
    then show ?thesis using k' rr t v m True by (simp add: open_result_def open_existing_def got_fd_def)
  qed
qed

lemma sys_open_ok:
  assumes st: "path_state k p path" and c: "caller k p" and u: "ustr_ok (fst path)"
  shows "open_result k p flags (sys_open k path flags mode) (open_call (k_proc k p) flags mode (meant k p path) (room_for k) (fs_map (k_fs k)))"
  using st
proof (cases rule: meant_cases)
  case 1
  then show ?thesis using path_stateD(1,2) [OF st] u by (simp add: sys_open_def open_call_def open_result_def)
next
  case (2 cs)
  note st = path_stateD [OF st] and can = 2(3)
  let ?m = "fs_map (k_fs k)" and ?node = "resolve (k_nodes k) 0 cs"
  have node: "?node = None \<longleftrightarrow> ?m cs = None" by (simp add: fs_map_None)
  note e = sys_open_def st(2) option.case 2(1) lookup_normal [OF st(1) can]
  consider "?m cs \<noteq> None \<and> has_flag flags VFS_O_CREAT \<and> has_flag flags VFS_O_EXCL \<or> ?m cs = None \<and> \<not> has_flag flags VFS_O_CREAT"
    | "?m cs \<noteq> None" "\<not> (has_flag flags VFS_O_CREAT \<and> has_flag flags VFS_O_EXCL)"
    | "?m cs = None" "has_flag flags VFS_O_CREAT" by blast
  then show ?thesis
  proof cases
    case 1
    then have "sys_open k path flags mode = Some (k, Ret (-1))" using u node by (auto simp: e open_node_def)
    moreover have "open_call (k_proc k p) flags mode (meant k p path) (room_for k) ?m = (?m, None)" using 1 by (auto simp: 2(2) open_call_def)
    ultimately show ?thesis using st(1) by (simp add: open_result_def)
  next
    case r: 2
    then have "sys_open k path flags mode = Some (case open_node (set_fs k (k_fs k)) p (path_str cs) flags ?node of (k2, fd) \<Rightarrow> (k2, Ret fd))"
      using u node by (auto simp: e)
    from open_resolved [OF st(1) tracks_refl c can this refl] show ?thesis using r by (auto simp: 2(2) open_call_def)
  next
    case cr: 3
    obtain fs rc where fs: "open_create k p (path_str cs) mode = Some (set_fs k fs, if rc < 0 then Inl (-1) else Inr (resolve (fs_nodes fs) 0 cs))"
      "fs_inv fs" "tracks (k_fs k) fs"
      "(fs_map fs, rc) = add_call (k_proc k p) VFS_NODE_FILE (VFS_S_IFREG OR (mode AND 0x1ff)) (Some cs) (room_for k) ?m"
      using open_create_ok [OF st(1) can] by blast
    have ex: "fs_map fs cs \<noteq> None \<longleftrightarrow> \<not> rc < 0" using add_call_exists [OF fs(4) [symmetric]] cr by simp
    have spec: "open_call (k_proc k p) flags mode (meant k p path) (room_for k) ?m = open_existing (k_proc k p) flags cs (fs_map fs)"
      using cr by (simp add: 2(2) open_call_def flip: fs(4))
    show ?thesis
    proof (cases "rc < 0")
      case True
      then have "sys_open k path flags mode = Some (set_fs k fs, Ret (-1))" using cr u node by (simp add: e fs(1))
      moreover have "fs_map fs cs = None" using ex True by blast
      ultimately show ?thesis using fs(2,3) unfolding spec by (simp add: open_existing_def open_result_def)
    next
      case False
      then have "sys_open k path flags mode = Some (case open_node (set_fs k fs) p (path_str cs) flags (resolve (fs_nodes fs) 0 cs) of (k2, fd) \<Rightarrow> (k2, Ret fd))"
        using cr u node by (simp add: e fs(1))
      from open_resolved [OF fs(2,3) c can this refl] show ?thesis unfolding spec .
    qed
  qed
qed

section \<open>Properties\<close>

text \<open>
  C31: the calls that change a path act on the file system as a Unix file system with permissions.  For
  every well-formed state, every process and all strings, \<open>mkdir\<close>, \<open>unlink\<close>, \<open>chmod\<close> and \<open>chown\<close>
  return, keep the file system well formed, and give the result and the map of the specification:
  adding and removing need write and search permission on the parent directory, a system
  directory and what lies below it may be changed by uid 0 only, the mode by the owner or uid 0,
  the owner by uid 0; a refused call changes nothing.  \<open>access\<close> answers as the specification says.
\<close>

theorem path_calls_refine:
  assumes "path_state k p path"
  shows "fs_result k (sys_mkdir k path mode)
       (add_call (k_proc k p) VFS_NODE_DIR (VFS_S_IFDIR OR (mode AND 0x1ff)) (meant k p path) (room_for k) (fs_map (k_fs k)))
     \<and> fs_result k (sys_unlink k path) (unlink_call (k_proc k p) (meant k p path) (fs_map (k_fs k)))
     \<and> fs_result k (sys_chmod k path mode) (chmod_call (k_proc k p) mode (meant k p path) (fs_map (k_fs k)))
     \<and> fs_result k (sys_chown k path uid gid) (chown_call (k_proc k p) uid gid (meant k p path) (fs_map (k_fs k)))
     \<and> sys_access k path mode = Some (k, Ret (access_call (k_proc k p) mode (meant k p path) (fs_map (k_fs k))))"
  by (intro conjI) (rule sys_mkdir_ok sys_unlink_ok sys_chmod_ok sys_chown_ok sys_access_ok; rule assms)+

text \<open>A kernel with one process of the given uid, which has no descriptors but stdio, and a file system.\<close>

definition one_process :: "u32 \<Rightarrow> process" where
  "one_process uid = process_zero\<lparr>p_pid := 1, p_state := PROCESS_RUNNING, p_uid := uid, p_gid := uid, p_cwd := bytes_of ''/''\<rparr>"

definition one_kernel :: "u32 \<Rightarrow> fs_state \<Rightarrow> kernel" where
  "one_kernel uid fs =
     \<lparr>k_procs = \<lparr>pt_processes = [one_process uid], pt_next_pid = 2, pt_current = Some 0\<rparr>, k_users = boot_users\<lparr>us_fs := fs\<rparr>, k_tty = tty_boot,
      k_input = [], k_ctrl = False, k_ticks = [], k_events = [], k_screen = None, k_output = []\<rparr>"

lemma one_kernel_simps:
  "k_fs (one_kernel uid fs) = fs" "pt_current (k_procs (one_kernel uid fs)) = Some 0" "k_proc (one_kernel uid fs) 0 = one_process uid"
  "length (pt_processes (k_procs (one_kernel uid fs))) = 1"
  "p_uid (one_process uid) = uid" "p_gid (one_process uid) = uid" "p_cwd (one_process uid) = bytes_of ''/''"
  "p_state (one_process uid) = PROCESS_RUNNING" "p_fds (one_process uid) = replicate VFS_MAX_FDS fd_zero"
  by (simp_all add: one_kernel_def one_process_def process_zero_def)

lemma one_kernel_caller: "caller (one_kernel uid fs) 0"
  by (simp add: caller_def one_kernel_simps)

abbreviation x_path :: ustr where "x_path \<equiv> (0x1000, bytes_of ''/x'')"

lemma one_kernel_state: "path_state (one_kernel uid root_fs) 0 x_path" "meant (one_kernel uid root_fs) 0 x_path = Some [bytes_of ''x'']"
  "length (fs_nodes root_fs) < VFS_MAX_NODES"
  using root_path_comps
  by (simp_all add: path_state_def meant_def one_kernel_simps root_fs_inv str_ptr_def)
     (simp_all add: bytes_of_def root_fs_def VFS_MAX_NODES_def)

lemma one_kernel_locked: "\<not> locked proc [bytes_of ''x'']"
  by (simp add: locked_def protected_def protected_dirs_def bytes_of_def)

lemma root_may_change: "may_change (one_process uid) (fs_map root_fs) [] \<longleftrightarrow> uid = 0"
  by (simp add: may_change_def root_fs_map node_view_def dir_node_def grants_def one_kernel_simps VFS_S_IFDIR_def bit_simps)

theorem path_calls_refine_witness:
  "(\<exists>fs. sys_mkdir (one_kernel 0 root_fs) x_path 0x1ed = Some (set_fs (one_kernel 0 root_fs) fs, Ret 0) \<and>
      fs_map fs [bytes_of ''x''] = Some (VFS_NODE_DIR, VFS_S_IFDIR OR 0x1ed, 0, 0, [])) \<and>
   (\<exists>fs. sys_mkdir (one_kernel 7 root_fs) x_path 0x1ed = Some (set_fs (one_kernel 7 root_fs) fs, Ret (-1)) \<and> fs_map fs = fs_map root_fs)"
proof -
  have "add_call (one_process 0) VFS_NODE_DIR (VFS_S_IFDIR OR (0x1ed AND 0x1ff)) (Some [bytes_of ''x'']) True (fs_map root_fs) =
      ((fs_map root_fs)([bytes_of ''x''] \<mapsto> (VFS_NODE_DIR, VFS_S_IFDIR OR 0x1ed, 0, 0, [])), 0)"
    using one_kernel_locked root_may_change [of 0]
    by (simp add: add_call_def add_spec_def is_dir_def root_fs_map node_view_def dir_node_def one_kernel_simps)
  moreover have "add_call (one_process 7) VFS_NODE_DIR (VFS_S_IFDIR OR (0x1ed AND 0x1ff)) (Some [bytes_of ''x'']) True (fs_map root_fs) = (fs_map root_fs, -1)"
    using root_may_change [of 7] by (simp add: add_call_def)
  moreover note path_calls_refine [OF one_kernel_state(1), of 0 "0x1ed" 0 0, THEN conjunct1] path_calls_refine [OF one_kernel_state(1), of 7 "0x1ed" 0 0, THEN conjunct1]
  ultimately show ?thesis
    by (simp add: fs_result_def one_kernel_state one_kernel_simps) (metis fun_upd_same)
qed

text \<open>
  C32: \<open>open\<close> gives a descriptor exactly when the permissions allow it.  For a usable pointer, a
  well-formed state and a process in use, the call returns and the map afterwards is that of the
  specification: a missing file is created when \<open>O_CREAT\<close> asks for it and the parent allows it, an
  existing one is refused under \<open>O_CREAT\<close> with \<open>O_EXCL\<close>, and \<open>O_TRUNC\<close> empties a file.  Reading needs read
  permission, writing, appending and truncating need write permission, a path outside the system
  directories and no directory; devices other than the four public ones need uid 0.  Then the
  lowest free descriptor (-1 if there is none) refers to the node that the path names, at the end
  of the file under \<open>O_APPEND\<close>; otherwise the call returns -1 and the descriptors stay.
\<close>

theorem open_refines:
  assumes "path_state k p path" and "caller k p" and "ustr_ok (fst path)"
  shows "open_result k p flags (sys_open k path flags mode) (open_call (k_proc k p) flags mode (meant k p path) (room_for k) (fs_map (k_fs k)))"
  by (rule sys_open_ok [OF assms])

theorem open_refines_witness:
  "\<exists>k'. sys_open (one_kernel 0 root_fs) x_path (VFS_O_CREAT OR VFS_O_RDWR) 0x1a4 = Some (k', Ret 3) \<and>
     fs_map (k_fs k') [bytes_of ''x''] = Some (VFS_NODE_FILE, VFS_S_IFREG OR 0x1a4, 0, 0, [])"
proof -
  let ?flags = "VFS_O_CREAT OR VFS_O_RDWR"
  have f: "has_flag ?flags VFS_O_CREAT" "\<not> has_flag ?flags VFS_O_TRUNC" "\<not> has_flag ?flags VFS_O_APPEND"
    by (simp_all add: VFS_O_CREAT_def VFS_O_RDWR_def VFS_O_TRUNC_def VFS_O_APPEND_def)
  let ?a = "(VFS_NODE_FILE, VFS_S_IFREG OR 0x1a4, 0, 0, []) :: vattr"
  have add: "add_call (one_process 0) VFS_NODE_FILE (VFS_S_IFREG OR (0x1a4 AND 0x1ff)) (Some [bytes_of ''x'']) True (fs_map root_fs) =
      ((fs_map root_fs)([bytes_of ''x''] \<mapsto> ?a), 0)"
    using one_kernel_locked root_may_change [of 0]
    by (simp add: add_call_def add_spec_def is_dir_def root_fs_map node_view_def dir_node_def one_kernel_simps)
  have "open_allowed (one_process 0) ?flags [bytes_of ''x''] ?a"
    using one_kernel_locked by (simp add: open_allowed_def grants_def one_kernel_simps)
  then have spec: "open_call (one_process 0) ?flags 0x1a4 (Some [bytes_of ''x'']) True (fs_map root_fs) =
      ((fs_map root_fs)([bytes_of ''x''] \<mapsto> ?a), Some [bytes_of ''x''])"
    using f add by (simp add: open_call_def open_existing_def root_fs_map)
  have "lowest (fd_map (k_procs (one_kernel 0 root_fs)) 0) = Some 3"
    by (simp add: lowest_def fd_map_def Let_def one_kernel_simps VFS_MAX_FDS_def fd_zero_def upt_rec)
  moreover have "open_result (one_kernel 0 root_fs) 0 ?flags (sys_open (one_kernel 0 root_fs) x_path ?flags 0x1a4)
      ((fs_map root_fs)([bytes_of ''x''] \<mapsto> ?a), Some [bytes_of ''x''])"
    using open_refines [OF one_kernel_state(1) one_kernel_caller, of 0 ?flags "0x1a4"] spec
    by (simp add: one_kernel_simps one_kernel_state ustr_ok_def)
  ultimately show ?thesis by (auto simp: open_result_def got_fd_def put_spec_def)
qed

end
