(* ===== verification/Sys_Effects.thy ===== *)
theory Sys_Effects
  imports Sys_Access
begin

text \<open>
  What each handler of \<open>Sys_Calls\<close> can change, as equations for the state after it: the facts that the
  invariants of the system calls share.  The assumption is always that \<open>p\<close> is the current process.
\<close>

section \<open>Terminal, keyboard and console\<close>

text \<open>The state after a call that only moves the terminal, the keyboard or the console.\<close>

definition same_core :: "kernel \<Rightarrow> kernel \<Rightarrow> bool" where
  "same_core k k' \<longleftrightarrow> k_users k' = k_users k \<and> (k_procs k' = k_procs k \<or> (\<exists>code. k_procs k' = process_exit (k_procs k) (pt_current (k_procs k)) code))"

lemma same_core_refl [simp]: "same_core k k" by (simp add: same_core_def)

lemma terminal_core: "read_terminal k count = Some (k', a) \<Longrightarrow> same_core k k'"
  unfolding read_terminal_def same_core_def by (auto simp del: not_all split: if_splits)

lemma keyboard_core: "read_keyboard k count = (k', a) \<Longrightarrow> same_core k k'"
  by (auto simp: read_keyboard_def same_core_def Let_def split: if_splits prod.splits)

lemma device_core: "write_device k name buf data = Some (k', a) \<Longrightarrow> same_core k k'"
  by (auto simp: write_device_def emit_def same_core_def Let_def split: if_splits option.splits)

lemma emit_core: "emit k out rc = Some (k', a) \<Longrightarrow> same_core k k'"
  by (auto simp: emit_def same_core_def)

section \<open>Descriptors\<close>

text \<open>A call that moves the offset of one open descriptor of \<open>p\<close> at most.\<close>

definition moves_offset :: "kernel \<Rightarrow> nat \<Rightarrow> kernel \<Rightarrow> bool" where
  "moves_offset k p k' \<longleftrightarrow> k' = k \<or>
     (\<exists>fd i off. process_get_fd (k_procs k) (Some p) fd = Some i \<and> k' = set_fd k p i ((p_fds (k_proc k p) ! i)\<lparr>fd_offset := off\<rparr>))"

lemma moves_offset_refl [simp]: "moves_offset k p k" by (simp add: moves_offset_def)

lemma moves_offset_set: "process_get_fd (k_procs k) (Some p) fd = Some i \<Longrightarrow> moves_offset k p (set_fd k p i ((p_fds (k_proc k p) ! i)\<lparr>fd_offset := off\<rparr>))"
  unfolding moves_offset_def by blast

lemma read_file_moves:
  assumes "process_get_fd (k_procs k) (Some p) fd = Some i" "read_file k p i buf count = Some (k', a)"
  shows "moves_offset k p k'"
proof -
  let ?f = "p_fds (k_proc k p) ! i"
  have "k' = k \<or> (\<exists>off. k' = set_fd k p i (?f\<lparr>fd_offset := off\<rparr>))"
  proof (cases "buf = 0 \<or> (\<exists>e. vfs_read_node (k_fs k) (fd_node ?f) (fd_offset ?f) count = Some (Inl e))")
    case False
    then obtain out where "vfs_read_node (k_fs k) (fd_node ?f) (fd_offset ?f) count = Some (Inr out)"
      using assms(2) by (cases "vfs_read_node (k_fs k) (fd_node ?f) (fd_offset ?f) count"; cases "the (vfs_read_node (k_fs k) (fd_node ?f) (fd_offset ?f) count)")
        (simp_all add: read_file_def)
    then show ?thesis using assms(2) False by (auto simp: read_file_def Let_def split: if_splits)
  qed (use assms(2) in \<open>auto simp: read_file_def Let_def split: if_splits\<close>)
  then show ?thesis using moves_offset_set [OF assms(1)] by auto
qed

lemma sys_read_effect:
  assumes "pt_current (k_procs k) = Some p" "sys_read k fd buf count = Some (k', a)"
  shows "same_core k k' \<or> moves_offset k p k'"
  using assms terminal_core [of k count k' a] keyboard_core [of k count k' a] read_file_moves [of k p fd _ buf count k' a]
  unfolding sys_read_def by (auto simp: Let_def split: if_splits option.splits)

lemma offset_call_effect:
  assumes "pt_current (k_procs k) = Some p"
  shows "sys_lseek k fd off whence = Some (k', a) \<Longrightarrow> moves_offset k p k'" "sys_readdir k fd buf = Some (k', a) \<Longrightarrow> moves_offset k p k'"
  using assms moves_offset_set [of k p fd] unfolding sys_lseek_def sys_readdir_def
  by (auto simp: Let_def split: if_splits option.splits)

lemma sys_fstat_effect: "sys_fstat k fd buf = Some (k', a) \<Longrightarrow> k' = k"
  by (auto simp: sys_fstat_def Let_def split: if_splits option.splits)

text \<open>
  The end of the write is below \<open>2^63\<close>, as in the runs of the file system.
\<close>

definition write_fits :: "kernel \<Rightarrow> int \<Rightarrow> nat \<Rightarrow> bool" where
  "write_fits k fd len =
     (case (pt_current (k_procs k), process_get_fd (k_procs k) (pt_current (k_procs k)) fd) of
        (Some p, Some i) \<Rightarrow>
          (let f = p_fds (k_proc k p) ! i in
           unat (fd_offset f) + len < 2 ^ 63 \<and> (\<forall>n. fd_node f = Some n \<longrightarrow> unat (vn_size (k_nodes k ! n)) + len < 2 ^ 63))
      | _ \<Rightarrow> True)"

definition same_open :: "file_descriptor \<Rightarrow> file_descriptor \<Rightarrow> bool" where
  "same_open f f' \<longleftrightarrow> fd_used f' = fd_used f \<and> fd_flags f' = fd_flags f \<and> fd_node f' = fd_node f"

text \<open>A write to a file: the node may have been written, and the descriptor has a new offset.\<close>

definition wrote :: "kernel \<Rightarrow> nat \<Rightarrow> u8 list \<Rightarrow> nat \<Rightarrow> fs_state \<Rightarrow> bool" where
  "wrote k p data n fs \<longleftrightarrow> fs = k_fs k \<or>
     (\<exists>off rc. unat off + length data < 2 ^ 63 \<and> vfs_write_node (k_fs k) (Some n) off data = Some (fs, rc))"

lemma set_fd_twice: "p < length (pt_processes (k_procs k)) \<Longrightarrow> set_fd (set_fs (set_fd k p i f) fs) p i f' = set_fd (set_fs k fs) p i f'"
  by (simp add: set_fd_def set_fs_def set_fds_def)

lemma write_file_effect:
  assumes cur: "pt_current (k_procs k) = Some p" "p < length (pt_processes (k_procs k))"
    and i: "process_get_fd (k_procs k) (Some p) fd = Some i" and fit: "write_fits k fd (length data)" and s: "write_file k p i buf data = Some (k', a)"
  shows "\<exists>n fs f'. fd_node (p_fds (k_proc k p) ! i) = Some n \<and> same_open (p_fds (k_proc k p) ! i) f' \<and> wrote k p data n fs \<and>
     k' = set_fd (set_fs k fs) p i f'"
proof -
  let ?f = "p_fds (k_proc k p) ! i"
  obtain n where n: "fd_node ?f = Some n" using s by (auto simp: write_file_def Let_def split: option.splits)
  define f where "f = (if has_flag (fd_flags ?f) VFS_O_APPEND then ?f\<lparr>fd_offset := vn_size (k_nodes k ! n)\<rparr> else ?f)"
  have f: "same_open ?f f" by (simp add: f_def same_open_def)
  have fits: "unat (fd_offset f) + length data < 2 ^ 63" using fit i n cur by (auto simp: write_fits_def f_def)
  have k1: "k_fs (set_fd k p i f) = k_fs k" by (simp add: set_fd_def)
  have comm: "set_fs (set_fd k p i f) fs = set_fd (set_fs k fs) p i f" for fs by (simp add: set_fd_def set_fs_def set_fds_def)
  show ?thesis
  proof (cases "buf = 0")
    case True
    then have "k' = set_fd (set_fs k (k_fs k)) p i f" using s n by (simp add: write_file_def Let_def f_def)
    then show ?thesis using n f wrote_def by blast
  next
    case False
    then obtain fs rc where w: "vfs_write_node (k_fs k) (Some n) (fd_offset f) data = Some (fs, rc)"
      and k': "k' = (if rc > 0 then set_fd (set_fs (set_fd k p i f) fs) p i (f\<lparr>fd_offset := fd_offset f + word_of_int rc, fd_dirty := True\<rparr>)
                 else set_fs (set_fd k p i f) fs)"
      using s n k1 by (auto simp: write_file_def Let_def f_def)
    have "wrote k p data n fs" using w fits by (auto simp: wrote_def)
    moreover have "\<exists>f'. same_open ?f f' \<and> k' = set_fd (set_fs k fs) p i f'"
    proof (cases "rc > 0")
      case True
      then have "k' = set_fd (set_fs k fs) p i (f\<lparr>fd_offset := fd_offset f + word_of_int rc, fd_dirty := True\<rparr>)"
        using k' set_fd_twice [OF cur(2)] by simp
      moreover have "same_open ?f (f\<lparr>fd_offset := fd_offset f + word_of_int rc, fd_dirty := True\<rparr>)" using f by (simp add: same_open_def)
      ultimately show ?thesis by blast
    qed (use k' f comm in auto)
    ultimately show ?thesis using n by blast
  qed
qed

abbreviation writes :: "u32 \<Rightarrow> bool" where
  "writes flags \<equiv> has_flag flags VFS_O_WRONLY \<or> has_flag flags VFS_O_RDWR"

lemma sys_write_effect:
  assumes "pt_current (k_procs k) = Some p" "sys_write k fd buf data = Some (k', a)"
  shows "same_core k k' \<or> (\<exists>i. process_get_fd (k_procs k) (Some p) fd = Some i \<and> writes (fd_flags (p_fds (k_proc k p) ! i)) \<and>
    write_file k p i buf data = Some (k', a))"
  using assms device_core [of k _ buf data k' a] emit_core [of k _ _ k' a]
  unfolding sys_write_def by (auto simp: Let_def split: if_splits option.splits)

lemma dup_effect:
  assumes "process_dup_fd t (Some p) fd = (t', rc) \<or> process_dup2_fd t (Some p) fd fd' = (t', rc)"
  shows "t' = t \<or> (\<exists>i j. process_get_fd t (Some p) fd = Some i \<and> t' = set_fds t p ((p_fds (pt_processes t ! p))[j := p_fds (pt_processes t ! p) ! i]))"
  using assms by (auto simp: process_dup_fd_def process_dup2_fd_def Let_def split: option.splits if_splits)

lemma sys_close_effect:
  assumes cur: "pt_current (k_procs k) = Some p" and inv: "fs_inv (k_fs k)" and s: "sys_close k fd = Some (k', a)"
  shows "\<exists>fs. same_files (k_fs k) fs \<and> k' = (set_fs k fs)\<lparr>k_procs := process_close_fd (k_procs k) (Some p) fd\<rparr>"
proof -
  obtain fs rc where t: "tfs_sync_if_mounted (k_fs k) = Some (fs, rc)" "same_files (k_fs k) fs" using tfs_sync_if_mounted_same [OF inv] .
  have "same_files (k_fs k) (k_fs k)" by (simp add: same_files_def)
  then show ?thesis using s t cur by (auto simp: sys_close_def Let_def split: if_splits)
qed

section \<open>Paths and processes\<close>

lemma path_no_effect:
  assumes "pt_current (k_procs k) = Some p"
  shows "sys_getcwd k buf len = Some (k', a) \<Longrightarrow> k' = k" "sys_stat k path buf = Some (k', a) \<Longrightarrow> k' = k"
  using assms by (auto simp: sys_getcwd_def sys_stat_def split: if_splits)

lemma sys_chdir_effect:
  assumes cur: "pt_current (k_procs k) = Some p" and nf: "nul_free (str_ptr path)" "nul_free (Some (p_cwd (k_proc k p)))"
    and s: "sys_chdir k path = Some (k', a)"
  shows "k' = k \<or> (\<exists>normal. 0 \<notin> set normal \<and> k' = set_proc k p ((k_proc k p)\<lparr>p_cwd := normal\<rparr>))"
proof -
  have "k' = k \<or> (\<exists>normal. vfs_normalize (str_ptr path) (Some (p_cwd (k_proc k p))) VFS_PATH_MAX = Some normal \<and>
      k' = set_proc k p ((k_proc k p)\<lparr>p_cwd := normal\<rparr>))"
    using s cur by (auto simp: sys_chdir_def Let_def split: option.splits if_splits)
  then show ?thesis
  proof
    assume "\<exists>normal. vfs_normalize (str_ptr path) (Some (p_cwd (k_proc k p))) VFS_PATH_MAX = Some normal \<and>
      k' = set_proc k p ((k_proc k p)\<lparr>p_cwd := normal\<rparr>)"
    then obtain normal where n: "vfs_normalize (str_ptr path) (Some (p_cwd (k_proc k p))) VFS_PATH_MAX = Some normal"
      and k': "k' = set_proc k p ((k_proc k p)\<lparr>p_cwd := normal\<rparr>)" by blast
    obtain x where x: "str_ptr path = Some x" using n by (cases "str_ptr path") (simp_all add: vfs_normalize_def)
    obtain cs where "normal = path_str cs" "\<forall>c \<in> set cs. comp_ok c"
      using vfs_normalize_path_str [OF n [unfolded x]] nf x by metis
    then have "0 \<notin> set normal" by (auto simp: path_str_def comp_ok_def)
    then show ?thesis using k' by blast
  qed simp
qed

lemma sys_spawn_effect:
  assumes "sys_spawn k name = Some (k', a)"
  shows "k' = k \<or> (\<exists>nm ppid uid gid t child. process_create (k_users k) (k_procs k) nm ppid uid gid = Some (t, child) \<and> k' = k\<lparr>k_procs := t\<rparr>)"
  using assms by (auto simp: sys_spawn_def Let_def split: option.splits if_splits) blast+

lemma sys_sigaction_effect:
  assumes cur: "pt_current (k_procs k) = Some p" and s: "sys_sigaction k sig act handler oldact = Some (k', a)"
  shows "k' = k \<or> (\<exists>h d. k' = set_proc k p ((k_proc k p)\<lparr>p_signal_handler := h, p_signal_disposition := d\<rparr>))"
proof (cases "sig \<le> 0 \<or> sig \<ge> int PROCESS_SIGNAL_MAX")
  case True
  then show ?thesis using s cur by (auto simp: sys_sigaction_def)
next
  case False
  then show ?thesis using s cur by (cases "act = 0") (auto simp: sys_sigaction_def Let_def set_proc_def)
qed

section \<open>Disks and power\<close>

lemma handle_disk_effect:
  assumes inv: "fs_inv (k_fs k)" and s: "handle_disk k c = Some (k', a)"
  shows "\<exists>fs. same_files (k_fs k) fs \<and> k' = set_fs k fs"
proof -
  have same: "same_files (k_fs k) (k_fs k)" by (simp add: same_files_def)
  show ?thesis
  proof (cases c)
    case (Sys_block_write index lba buf data)
    then have "k' = k \<or> (\<exists>disks. k' = set_fs k ((k_fs k)\<lparr>fs_disks := disks\<rparr>))"
      using s by (auto simp: sys_block_write_def split: if_splits option.splits prod.splits)
    moreover have "same_files (k_fs k) ((k_fs k)\<lparr>fs_disks := disks\<rparr>)" for disks by (simp add: same_files_def)
    ultimately show ?thesis using same set_fs_same by metis
  next
    case Sys_sync
    obtain fs rc where "tfs_sync (k_fs k) = Some (fs, rc)" "same_files (k_fs k) fs" using tfs_sync_cases [OF inv] by blast
    then show ?thesis using Sys_sync s same set_fs_same [of k] by (auto simp: sys_sync_def on_fs_def split: if_splits)
  qed (use s same set_fs_same [of k] in \<open>auto simp: sys_block_read_def sys_block_sync_def split: if_splits option.splits\<close>)
qed

end
