(* ===== verification/Sys_Safety.thy ===== *)
theory Sys_Safety
  imports Sys_Effects
begin

text \<open>
  What a process without uid 0 can do to the system directories: nothing.  The invariant says
  that the descriptors it can write through do not lead to a file there; it is kept by the calls
  because no operation moves a node or links it a second time.
\<close>

section \<open>The invariant\<close>

definition node_safe :: "fs_state \<Rightarrow> nat \<Rightarrow> bool" where
  "node_safe fs n \<longleftrightarrow> n < length (fs_nodes fs) \<and>
     (vn_type (fs_nodes fs ! n) = VFS_NODE_FILE \<longrightarrow> (\<forall>cs. resolve (fs_nodes fs) 0 cs = Some n \<longrightarrow> \<not> protected cs))"

definition fd_safe :: "fs_state \<Rightarrow> file_descriptor \<Rightarrow> bool" where
  "fd_safe fs f \<longleftrightarrow> (fd_used f \<and> writes (fd_flags f) \<longrightarrow> (\<forall>n. fd_node f = Some n \<longrightarrow> node_safe fs n))"

definition unprivileged :: "kernel \<Rightarrow> nat \<Rightarrow> bool" where
  "unprivileged k p \<longleftrightarrow> caller k p \<and> fs_inv (k_fs k) \<and> p_uid (k_proc k p) \<noteq> 0 \<and> nul_free (Some (p_cwd (k_proc k p))) \<and>
     (\<forall>f \<in> set (p_fds (k_proc k p)). fd_safe (k_fs k) f)"

definition guarded :: "fs_state \<Rightarrow> fs_state \<Rightarrow> bool" where
  "guarded fs fs' \<longleftrightarrow> (\<forall>cs. protected cs \<longrightarrow> fs_map fs' cs = fs_map fs cs)"

definition safe_step :: "kernel \<Rightarrow> nat \<Rightarrow> kernel \<Rightarrow> bool" where
  "safe_step k p k' \<longleftrightarrow> unprivileged k' p \<and> p_uid (k_proc k' p) = p_uid (k_proc k p) \<and> guarded (k_fs k) (k_fs k')"

lemma unprivilegedD:
  assumes "unprivileged k p"
  shows "caller k p" "fs_inv (k_fs k)" "p_uid (k_proc k p) \<noteq> 0" "nul_free (Some (p_cwd (k_proc k p)))"
    "\<And>f. f \<in> set (p_fds (k_proc k p)) \<Longrightarrow> fd_safe (k_fs k) f"
    "pt_current (k_procs k) = Some p" "p < length (pt_processes (k_procs k))" "length (p_fds (k_proc k p)) = VFS_MAX_FDS"
    "p_state (k_proc k p) \<noteq> PROCESS_UNUSED" "\<not> is_root (k_proc k p)"
  using assms by (auto simp: unprivileged_def caller_def is_root_def)

lemma guarded_refl [simp]: "guarded fs fs" by (simp add: guarded_def)

lemma guarded_same: "same_files fs fs' \<Longrightarrow> guarded fs fs'"
  by (simp add: guarded_def fs_map_same)

lemma safe_step_refl [simp]: "safe_step k p k \<longleftrightarrow> unprivileged k p"
  by (simp add: safe_step_def)

lemma safe_step_trans: "safe_step k p k' \<Longrightarrow> safe_step k' p k'' \<Longrightarrow> safe_step k p k''"
  by (auto simp: safe_step_def guarded_def)

lemma node_safe_tracks: "node_safe fs n \<Longrightarrow> tracks fs fs' \<Longrightarrow> node_safe fs' n"
  unfolding node_safe_def tracks_def by fastforce

lemma fd_safe_tracks: "fd_safe fs f \<Longrightarrow> tracks fs fs' \<Longrightarrow> fd_safe fs' f"
  using node_safe_tracks by (auto simp: fd_safe_def)

lemma fd_zero_safe: "fd_safe fs fd_zero" by (simp add: fd_safe_def fd_zero_def)

lemma safe_fs:
  assumes "unprivileged k p" "fs_inv fs" "tracks (k_fs k) fs" "guarded (k_fs k) fs"
  shows "safe_step k p (set_fs k fs)"
  using assms fd_safe_tracks unfolding safe_step_def unprivileged_def by auto

text \<open>A step that keeps the file system and the identity of the process.\<close>

lemma safe_proc:
  assumes "unprivileged k p" "k_fs k' = k_fs k" "caller k' p" "p_uid (k_proc k' p) = p_uid (k_proc k p)" "nul_free (Some (p_cwd (k_proc k' p)))"
    and "\<And>f. f \<in> set (p_fds (k_proc k' p)) \<Longrightarrow> fd_safe (k_fs k) f"
  shows "safe_step k p k'"
  using assms unfolding safe_step_def unprivileged_def by auto

lemma safe_fds:
  assumes u: "unprivileged k p" and k': "k_fs k' = k_fs k" "k_procs k' = set_fds (k_procs k) p fds" "length fds = VFS_MAX_FDS"
    "\<And>f. f \<in> set fds \<Longrightarrow> fd_safe (k_fs k) f"
  shows "safe_step k p k'"
  using u by (rule safe_proc) (use k' unprivilegedD [OF u] in \<open>simp_all add: caller_def\<close>)

lemma safe_set_fd:
  assumes "unprivileged k p" "fd_safe (k_fs k) f"
  shows "safe_step k p (set_fd k p i f)"
  using assms(1)
  by (rule safe_fds [where fds = "(p_fds (k_proc k p))[i := f]"])
     (use assms unprivilegedD [OF assms(1)] set_update_subset_insert [of "p_fds (k_proc k p)" i f] in \<open>auto simp: set_fd_def\<close>)

text \<open>The same with the descriptors as a map: each is an old one or one that may be written through.\<close>

definition view_safe :: "fs_state \<Rightarrow> fd_view \<Rightarrow> bool" where
  "view_safe fs v = (case v of (flags, _, node) \<Rightarrow> writes flags \<longrightarrow> (\<forall>n. node = Some n \<longrightarrow> node_safe fs n))"

lemma fd_safe_view: "fd_safe fs f \<longleftrightarrow> (fd_used f \<longrightarrow> view_safe fs (fd_flags f, fd_offset f, fd_node f))"
  by (auto simp: fd_safe_def view_safe_def)

lemma fd_map_safe:
  assumes "unprivileged k p" "fd_map (k_procs k) p i = Some v"
  shows "view_safe (k_fs k) v"
proof -
  let ?f = "p_fds (k_proc k p) ! i"
  have "i < VFS_MAX_FDS" "fd_used ?f" "v = (fd_flags ?f, fd_offset ?f, fd_node ?f)"
    using assms(2) by (simp_all add: fd_map_def Let_def split: if_splits)
  then show ?thesis using unprivilegedD(5) [OF assms(1), of ?f] unprivilegedD(8) [OF assms(1)] by (simp add: fd_safe_view)
qed

lemma safe_fd_map:
  assumes u: "unprivileged k p" and k': "k_fs k' = k_fs k" "k_procs k' = set_fds (k_procs k) p fds" "length fds = VFS_MAX_FDS"
    and m: "\<And>i v. fd_map (k_procs k') p i = Some v \<Longrightarrow> fd_map (k_procs k) p i = Some v \<or> view_safe (k_fs k) v"
  shows "safe_step k p k'"
  using u k'
proof (rule safe_fds)
  fix f assume "f \<in> set fds"
  then obtain i where i: "i < VFS_MAX_FDS" "f = fds ! i" using k'(3) by (metis in_set_conv_nth)
  have "fd_map (k_procs k') p i = (if fd_used f then Some (fd_flags f, fd_offset f, fd_node f) else None)"
    using i k'(2) unprivilegedD(7) [OF u] by (simp add: fd_map_def)
  then show "fd_safe (k_fs k) f" using m fd_map_safe [OF u] unfolding fd_safe_view by metis
qed

text \<open>Steps that leave the process table and the file system alone.\<close>

lemma safe_same:
  assumes "unprivileged k p" "k_fs k' = k_fs k" "k_procs k' = k_procs k"
  shows "safe_step k p k'"
  using assms(1) by (rule safe_proc) (use assms unprivilegedD [OF assms(1)] in \<open>simp_all add: caller_def\<close>)

lemma safe_exit:
  assumes u: "unprivileged k p" and "k_fs k' = k_fs k" "k_procs k' = process_exit (k_procs k) (Some p) code"
  shows "safe_step k p k'"
  using u by (rule safe_proc) (use assms unprivilegedD [OF u] in \<open>simp_all add: caller_def process_exit_def\<close>)

lemma get_fd_safe:
  assumes "unprivileged k p" "process_get_fd (k_procs k) (Some p) fd = Some i"
  shows "i < length (p_fds (k_proc k p))" "fd_safe (k_fs k) (p_fds (k_proc k p) ! i)" "fd_used (p_fds (k_proc k p) ! i)"
  using get_fd_view [OF assms(2)] unprivilegedD(5,8) [OF assms(1)] by auto

section \<open>Calls on paths\<close>

lemma spec_keeps:
  assumes "p_uid proc \<noteq> 0" "protected cs"
  shows "fst (add_call proc type mode path room m) cs = m cs" "fst (unlink_call proc path m) cs = m cs"
    "fst (chmod_call proc mode path m) cs = m cs" "fst (chown_call proc uid gid path m) cs = m cs"
    "fst (open_call proc flags mode path room m) cs = m cs"
proof -
  have l: "\<not> is_root proc" "locked proc cs" using assms by (simp_all add: is_root_def locked_def)
  have add: "fst (add_call proc type mode path room m) cs = m cs" for type mode path
    using l by (auto simp: add_call_def add_spec_def split: option.split)
  then show "fst (add_call proc type mode path room m) cs = m cs" .
  show "fst (unlink_call proc path m) cs = m cs" using l by (auto simp: unlink_call_def unlink_spec_def split: option.split)
  show "fst (chmod_call proc mode path m) cs = m cs" using l by (auto simp: chmod_call_def attr_spec_def split: option.split)
  show "fst (chown_call proc uid gid path m) cs = m cs" using l by (simp add: chown_call_def)
  have ex: "fst (open_existing proc flags ds m') cs = m' cs" for ds m'
    using l by (cases "ds = cs") (auto simp: open_existing_def open_allowed_def wants_write_def split: option.split)
  show "fst (open_call proc flags mode path room m) cs = m cs"
    by (auto simp: open_call_def ex add split: option.split)
qed

lemma fs_result_safe:
  assumes u: "unprivileged k p" and r: "fs_result k r spec" "r = Some (k', a)" and s: "\<And>cs. protected cs \<Longrightarrow> fst spec cs = fs_map (k_fs k) cs"
  shows "safe_step k p k'"
proof -
  obtain fs rc where fs: "r = Some (set_fs k fs, Ret rc)" "fs_inv fs" "(fs_map fs, rc) = spec" "tracks (k_fs k) fs"
    using r(1) by (auto simp: fs_result_def)
  have "guarded (k_fs k) fs" using s fs(3) by (auto simp: guarded_def)
  then show ?thesis using safe_fs [OF u fs(2,4)] r(2) fs(1) by simp
qed

lemma unprivileged_path: "unprivileged k p \<Longrightarrow> nul_free (str_ptr path) \<Longrightarrow> path_state k p path"
  using unprivilegedD [of k p] by (simp add: path_state_def)

lemma open_call_allowed:
  assumes "snd (open_call proc flags mode path room m) = Some cs"
  shows "\<exists>a. open_allowed proc flags cs a"
proof -
  have "\<exists>a. open_allowed proc flags cs a" if "snd (open_existing proc flags ds m') = Some cs" for ds m'
    using that by (auto simp: open_existing_def simp del: split_paired_Ex split: option.splits if_splits)
  then show ?thesis using assms by (simp add: open_call_def split: option.splits if_splits)
qed

lemma put_spec_cases: "(m', rc) = put_spec (flags, off, node) m \<Longrightarrow> m' i = m i \<or> (\<exists>off. m' i = Some (flags, off, node))"
  by (auto simp: put_spec_def split: option.splits)

lemma open_safe:
  assumes u: "unprivileged k p" and nf: "nul_free (str_ptr path)" and s: "sys_open k path flags mode = Some (k', a)"
  shows "safe_step k p k'"
proof (cases "ustr_ok (fst path)")
  case False
  then show ?thesis using u s by (simp add: sys_open_def)
next
  case True
  let ?spec = "open_call (k_proc k p) flags mode (meant k p path) (room_for k) (fs_map (k_fs k))"
  note D = unprivilegedD [OF u]
  obtain k2 rc where k2: "sys_open k path flags mode = Some (k2, Ret rc)" "fs_inv (k_fs k2)" "tracks (k_fs k) (k_fs k2)" "fs_map (k_fs k2) = fst ?spec"
    "case snd ?spec of None \<Rightarrow> rc = -1 \<and> k_procs k2 = k_procs k | Some cs \<Rightarrow> \<exists>n. resolve (k_nodes k2) 0 cs = Some n \<and> got_fd k p flags n k2 rc"
    using sys_open_ok [OF unprivileged_path [OF u nf] D(1) True, of flags mode] unfolding open_result_def by blast
  have "k2 = k'" using k2(1) s by simp
  note k' = k2(2-5) [unfolded this]
  have g: "guarded (k_fs k) (k_fs k')" using spec_keeps(5) [OF D(3)] k'(3) by (simp add: guarded_def)
  note u1 = safe_fs [OF u k'(1,2) g]
  show ?thesis
  proof (cases "snd ?spec")
    case None
    then have "safe_step (set_fs k (k_fs k')) p k'"
      using u1 k'(4) by (intro safe_same) (simp_all add: safe_step_def)
    then show ?thesis using safe_step_trans [OF u1] by simp
  next
    case (Some cs)
    then obtain n where n: "resolve (k_nodes k') 0 cs = Some n" "got_fd k p flags n k' rc" using k'(4) by auto
    then obtain fds where fds: "length fds = VFS_MAX_FDS" "k_procs k' = set_fds (k_procs k) p fds" by (auto simp: got_fd_def)
    have allowed: "writes flags \<Longrightarrow> \<not> protected cs"
      using open_call_allowed [OF Some] D(10) by (auto simp: open_allowed_def wants_write_def locked_def)
    have safe: "node_safe (k_fs k') n" if "writes flags"
    proof -
      have "n < length (k_nodes k')" using resolve_bound [OF fs_invD(3,2) [OF k'(1)] n(1)] by simp
      moreover have "ds = cs" if "resolve (k_nodes k') 0 ds = Some n" for ds
        using resolve_inj [OF fs_invD(3,2) [OF k'(1)] that n(1)] .
      ultimately show ?thesis using allowed [OF that] by (auto simp: node_safe_def)
    qed
    have "fd_map (k_procs k) p i = Some v \<or> view_safe (k_fs k') v" if "fd_map (k_procs k') p i = Some v" for i v
    proof -
      have "fd_map (k_procs k') p i = fd_map (k_procs k) p i \<or> (\<exists>off. fd_map (k_procs k') p i = Some (flags, off, Some n))"
        using put_spec_cases n(2) unfolding got_fd_def by blast
      moreover have "view_safe (k_fs k') (flags, off, Some n)" for off using safe by (simp add: view_safe_def)
      ultimately show ?thesis using that by auto
    qed
    then have "safe_step (set_fs k (k_fs k')) p k'"
      using u1 fds by (intro safe_fd_map [where fds = fds]) (simp_all add: safe_step_def)
    then show ?thesis using safe_step_trans [OF u1] by simp
  qed
qed

lemma chdir_safe:
  assumes u: "unprivileged k p" and nf: "nul_free (str_ptr path)" and s: "sys_chdir k path = Some (k', a)"
  shows "safe_step k p k'"
proof -
  note D = unprivilegedD [OF u]
  from sys_chdir_effect [OF D(6) nf D(4) s] show ?thesis
  proof
    assume "\<exists>normal. 0 \<notin> set normal \<and> k' = set_proc k p ((k_proc k p)\<lparr>p_cwd := normal\<rparr>)"
    then show ?thesis using u by (elim exE conjE; intro safe_proc) (use D in \<open>simp_all add: set_proc_def caller_def\<close>)
  qed (use u in simp)
qed

text \<open>The path that a call gets, as a string without NUL.\<close>

primrec path_arg :: "path_call \<Rightarrow> u8 list option" where
  "path_arg (Sys_open path flags mode) = str_ptr path"
| "path_arg (Sys_access path mode) = str_ptr path"
| "path_arg (Sys_chdir path) = str_ptr path"
| "path_arg (Sys_getcwd buf len) = None"
| "path_arg (Sys_mkdir path mode) = str_ptr path"
| "path_arg (Sys_unlink path) = str_ptr path"
| "path_arg (Sys_stat path buf) = str_ptr path"
| "path_arg (Sys_chmod path mode) = str_ptr path"
| "path_arg (Sys_chown path uid gid) = str_ptr path"

lemma path_call_safe:
  assumes u: "unprivileged k p" and s: "handle_path k c = Some (k', a)" and nf: "nul_free (path_arg c)"
  shows "safe_step k p k'"
proof -
  note D = unprivilegedD [OF u]
  note st = unprivileged_path [OF u]
  note safe = fs_result_safe [OF u _ _ spec_keeps(1) [OF D(3)]] fs_result_safe [OF u _ _ spec_keeps(2) [OF D(3)]]
    fs_result_safe [OF u _ _ spec_keeps(3) [OF D(3)]] fs_result_safe [OF u _ _ spec_keeps(4) [OF D(3)]]
  show ?thesis
  proof (cases c)
    case (Sys_open path flags mode)
    then show ?thesis using open_safe [OF u] s nf by simp
  next
    case (Sys_access path mode)
    then show ?thesis using sys_access_ok [OF st] s nf u by simp
  next
    case (Sys_chdir path)
    then show ?thesis using chdir_safe [OF u] s nf by simp
  next
    case (Sys_getcwd buf len)
    then have "k' = k" using s by (intro path_no_effect(1) [OF D(6)]) simp
    then show ?thesis using u by simp
  next
    case (Sys_mkdir path mode)
    then show ?thesis using safe(1) [OF sys_mkdir_ok [OF st]] s nf by simp
  next
    case (Sys_unlink path)
    then show ?thesis using safe(2) [OF sys_unlink_ok [OF st]] s nf by simp
  next
    case (Sys_stat path buf)
    then have "k' = k" using s by (intro path_no_effect(2) [OF D(6)]) simp
    then show ?thesis using u by simp
  next
    case (Sys_chmod path mode)
    then show ?thesis using safe(3) [OF sys_chmod_ok [OF st]] s nf by simp
  next
    case (Sys_chown path uid gid)
    then show ?thesis using safe(4) [OF sys_chown_ok [OF st]] s nf by simp
  qed
qed

section \<open>Calls on descriptors\<close>

lemma write_node_safe:
  assumes inv: "fs_inv fs" and n: "node_safe fs n" and fit: "unat off + length data < 2 ^ 63" and w: "vfs_write_node fs (Some n) off data = Some (fs', rc)"
  shows "fs_inv fs' \<and> tracks fs fs' \<and> guarded fs fs'"
proof (cases "vn_type (fs_nodes fs ! n) = VFS_NODE_FILE \<and> fs' \<noteq> fs")
  case False
  have "vn_type (fs_nodes fs ! n) \<noteq> VFS_NODE_FILE \<Longrightarrow> fs' = fs" using w by (simp add: vfs_write_node_def)
  then show ?thesis using False inv by auto
next
  case True
  have b: "n < length (fs_nodes fs)" using n by (simp add: node_safe_def)
  have W: "fs_inv fs'" "length (fs_nodes fs') = length (fs_nodes fs)" "vn_type (fs_nodes fs' ! n) = VFS_NODE_FILE"
    "\<And>j. j \<noteq> n \<Longrightarrow> fs_nodes fs' ! j = fs_nodes fs ! j" "\<And>cs. resolve (fs_nodes fs') 0 cs = resolve (fs_nodes fs) 0 cs"
    using vfs_write_node_ok [OF inv b conjunct1 [OF True] fit] w True by auto
  have "tracks fs fs'"
  proof (rule tracks_update [OF W(2,5)])
    show "vn_type (fs_nodes fs' ! i) = vn_type (fs_nodes fs ! i)" for i using W(3,4) True by (cases "i = n") auto
  qed
  moreover have "fs_map fs' cs = fs_map fs cs" if "protected cs" for cs
  proof -
    have "resolve (fs_nodes fs) 0 cs \<noteq> Some n" using n True that by (auto simp: node_safe_def)
    then show ?thesis using W(4,5) by (auto simp: fs_map_def intro!: option.map_cong)
  qed
  ultimately show ?thesis using W(1) by (simp add: guarded_def)
qed

lemma fd_safe_same: "fd_safe fs f \<Longrightarrow> same_open f f' \<Longrightarrow> fd_safe fs f'"
  by (simp add: fd_safe_def same_open_def)

lemma write_file_safe:
  assumes u: "unprivileged k p" and i: "process_get_fd (k_procs k) (Some p) fd = Some i" and fit: "write_fits k fd (length data)"
    and wr: "writes (fd_flags (p_fds (k_proc k p) ! i))" and s: "write_file k p i buf data = Some (k', a)"
  shows "safe_step k p k'"
proof -
  note D = unprivilegedD [OF u] and G = get_fd_safe [OF u i]
  obtain n fs f' where e: "fd_node (p_fds (k_proc k p) ! i) = Some n" "same_open (p_fds (k_proc k p) ! i) f'" "wrote k p data n fs"
    "k' = set_fd (set_fs k fs) p i f'" using write_file_effect [OF D(6,7) i fit s] by blast
  have ns: "node_safe (k_fs k) n" using G(2,3) wr e(1) by (auto simp: fd_safe_def)
  have W: "fs_inv fs \<and> tracks (k_fs k) fs \<and> guarded (k_fs k) fs"
    using e(3) write_node_safe [OF D(2) ns] D(2) by (auto simp: wrote_def)
  then have s1: "safe_step k p (set_fs k fs)" by (intro safe_fs [OF u]) simp_all
  then have "unprivileged (set_fs k fs) p" by (simp add: safe_step_def)
  moreover have "fd_safe fs f'" using fd_safe_same [OF fd_safe_tracks [OF G(2)] e(2)] W by simp
  ultimately have "safe_step (set_fs k fs) p k'" using e(4) safe_set_fd by simp
  then show ?thesis using safe_step_trans s1 by blast
qed

lemma same_core_safe: "unprivileged k p \<Longrightarrow> same_core k k' \<Longrightarrow> safe_step k p k'"
  using safe_same [of k p k'] safe_exit [of k p k'] unprivilegedD(6) [of k p] by (auto simp: same_core_def)

lemma moves_offset_safe:
  assumes u: "unprivileged k p" and m: "moves_offset k p k'"
  shows "safe_step k p k'"
proof -
  have "safe_step k p (set_fd k p i ((p_fds (k_proc k p) ! i)\<lparr>fd_offset := off\<rparr>))" if "process_get_fd (k_procs k) (Some p) fd = Some i" for fd i off
    by (rule safe_set_fd [OF u fd_safe_same [OF get_fd_safe(2) [OF u that]]]) (simp add: same_open_def)
  then show ?thesis using m u by (auto simp: moves_offset_def)
qed

lemma sys_read_safe: "unprivileged k p \<Longrightarrow> sys_read k fd buf count = Some (k', a) \<Longrightarrow> safe_step k p k'"
  using sys_read_effect unprivilegedD(6) same_core_safe moves_offset_safe by metis

lemma sys_write_safe:
  assumes u: "unprivileged k p" and fit: "write_fits k fd (length data)" and s: "sys_write k fd buf data = Some (k', a)"
  shows "safe_step k p k'"
  using sys_write_effect [OF unprivilegedD(6) [OF u] s] same_core_safe [OF u] write_file_safe [OF u _ fit] by blast

lemma in_set_update: "f \<in> set (fds[i := g]) \<Longrightarrow> f = g \<or> f \<in> set fds"
  using set_update_subset_insert [of fds i g] by auto

lemma dup_safe:
  assumes u: "unprivileged k p" and s: "process_dup_fd (k_procs k) (Some p) fd = (t, rc) \<or> process_dup2_fd (k_procs k) (Some p) fd fd' = (t, rc)"
  shows "safe_step k p (k\<lparr>k_procs := t\<rparr>)"
proof -
  let ?fds = "p_fds (k_proc k p)"
  from dup_effect [OF s] show ?thesis
  proof
    assume "\<exists>i j. process_get_fd (k_procs k) (Some p) fd = Some i \<and> t = set_fds (k_procs k) p (?fds[j := ?fds ! i])"
    then obtain i j where i: "process_get_fd (k_procs k) (Some p) fd = Some i" and t: "t = set_fds (k_procs k) p (?fds[j := ?fds ! i])" by blast
    show ?thesis
      using u by (rule safe_fds [where fds = "?fds[j := ?fds ! i]"])
        (use t get_fd_safe [OF u i] unprivilegedD(5,8) [OF u] in_set_update in \<open>fastforce+\<close>)
  qed (use u safe_same in simp)
qed

lemma safe_same_files:
  assumes "unprivileged k p" "same_files (k_fs k) fs"
  shows "safe_step k p (set_fs k fs)"
  using fs_inv_same [OF unprivilegedD(2) [OF assms(1)] assms(2)] tracks_same [OF tracks_refl assms(2)] guarded_same [OF assms(2)]
  by (intro safe_fs [OF assms(1)])

lemma close_safe:
  assumes u: "unprivileged k p" and s: "sys_close k fd = Some (k', a)"
  shows "safe_step k p k'"
proof -
  note D = unprivilegedD [OF u]
  obtain fs where fs: "same_files (k_fs k) fs" "k' = (set_fs k fs)\<lparr>k_procs := process_close_fd (k_procs k) (Some p) fd\<rparr>"
    using sys_close_effect [OF D(6,2) s] by blast
  note s1 = safe_same_files [OF u fs(1)]
  let ?fds = "p_fds (k_proc k p)"
  have u1: "unprivileged (set_fs k fs) p" using s1 by (simp add: safe_step_def)
  have "safe_step (set_fs k fs) p k'"
  proof (cases "fd < 3 \<or> fd \<ge> int VFS_MAX_FDS")
    case True
    then have "k' = set_fs k fs" using fs(2) by (auto simp: process_close_fd_def set_fs_def)
    then show ?thesis using u1 by simp
  next
    case False
    then have k': "k_procs k' = set_fds (k_procs k) p (?fds[nat fd := fd_zero])" "k_fs k' = fs" using fs(2) by (simp_all add: process_close_fd_def)
    show ?thesis
      using u1 by (rule safe_fds [where fds = "?fds[nat fd := fd_zero]"])
        (use k' unprivilegedD(5,8) [OF u1] in_set_update fd_zero_safe in \<open>fastforce+\<close>)
  qed
  then show ?thesis using safe_step_trans [OF s1] by simp
qed

primrec fd_call_fits :: "kernel \<Rightarrow> fd_call \<Rightarrow> bool" where
  "fd_call_fits k (Sys_read fd buf count) = True"
| "fd_call_fits k (Sys_write fd buf data) = write_fits k fd (length data)"
| "fd_call_fits k (Sys_close fd) = True"
| "fd_call_fits k (Sys_lseek fd off whence) = True"
| "fd_call_fits k (Sys_dup fd) = True"
| "fd_call_fits k (Sys_dup2 fd fd') = True"
| "fd_call_fits k (Sys_readdir fd buf) = True"
| "fd_call_fits k (Sys_fstat fd buf) = True"

lemma fd_call_safe:
  assumes u: "unprivileged k p" and s: "handle_fd k c = Some (k', a)" and fit: "fd_call_fits k c"
  shows "safe_step k p k'"
proof (cases c)
  case (Sys_read fd buf count)
  then show ?thesis using sys_read_safe [OF u] s by simp
next
  case (Sys_write fd buf data)
  then show ?thesis using sys_write_safe [OF u] s fit by simp
next
  case (Sys_close fd)
  then show ?thesis using close_safe [OF u] s by simp
next
  case (Sys_lseek fd off whence)
  then show ?thesis using moves_offset_safe [OF u] offset_call_effect(1) [OF unprivilegedD(6) [OF u]] s by simp
next
  case (Sys_dup fd)
  obtain t rc where t: "process_dup_fd (k_procs k) (Some p) fd = (t, rc)" by fastforce
  then have "k' = k\<lparr>k_procs := t\<rparr>" using s Sys_dup unprivilegedD(6) [OF u] by (simp add: on_procs_def)
  then show ?thesis using dup_safe [OF u disjI1 [OF t]] by simp
next
  case (Sys_dup2 fd fd')
  obtain t rc where t: "process_dup2_fd (k_procs k) (Some p) fd fd' = (t, rc)" by fastforce
  then have "k' = k\<lparr>k_procs := t\<rparr>" using s Sys_dup2 unprivilegedD(6) [OF u] by (simp add: on_procs_def)
  then show ?thesis using dup_safe [OF u disjI2 [OF t]] by simp
next
  case (Sys_readdir fd buf)
  then show ?thesis using moves_offset_safe [OF u] offset_call_effect(2) [OF unprivilegedD(6) [OF u]] s by simp
next
  case (Sys_fstat fd buf)
  then have "k' = k" using s by (intro sys_fstat_effect) simp
  then show ?thesis using u by simp
qed

section \<open>The other calls\<close>

lemma spawn_safe:
  assumes u: "unprivileged k p" and s: "sys_spawn k name = Some (k', a)"
  shows "safe_step k p k'"
proof -
  note D = unprivilegedD [OF u]
  from sys_spawn_effect [OF s] show ?thesis
  proof
    assume "\<exists>nm ppid uid gid t child. process_create (k_users k) (k_procs k) nm ppid uid gid = Some (t, child) \<and> k' = k\<lparr>k_procs := t\<rparr>"
    then obtain nm ppid uid gid t child where c: "process_create (k_users k) (k_procs k) nm ppid uid gid = Some (t, child)" and k': "k' = k\<lparr>k_procs := t\<rparr>" by blast
    have "t = k_procs k \<or> (\<exists>i q n. p_state (k_proc k i) = PROCESS_UNUSED \<and> t = (k_procs k)\<lparr>pt_processes := (pt_processes (k_procs k))[i := q], pt_next_pid := n\<rparr>)"
    proof (cases "find_slot (\<lambda>p. p_state p = PROCESS_UNUSED) (pt_processes (k_procs k)) 0")
      case None
      then show ?thesis using c by (simp add: process_create_def)
    next
      case (Some i)
      then have "p_state (k_proc k i) = PROCESS_UNUSED" using find_slot_Some [OF Some] by simp
      moreover have "\<exists>q n. t = (k_procs k)\<lparr>pt_processes := (pt_processes (k_procs k))[i := q], pt_next_pid := n\<rparr>"
        using c Some by (auto simp: process_create_def Let_def split: if_splits)
      ultimately show ?thesis by blast
    qed
    then show ?thesis
    proof
      assume "\<exists>i q n. p_state (k_proc k i) = PROCESS_UNUSED \<and> t = (k_procs k)\<lparr>pt_processes := (pt_processes (k_procs k))[i := q], pt_next_pid := n\<rparr>"
      then obtain i q n where i: "p_state (k_proc k i) = PROCESS_UNUSED" and t: "t = (k_procs k)\<lparr>pt_processes := (pt_processes (k_procs k))[i := q], pt_next_pid := n\<rparr>" by blast
      have ip: "i \<noteq> p" using i D(9) by auto
      have same: "k_proc k' p = k_proc k p" "k_fs k' = k_fs k" using k' t ip by simp_all
      have "caller k' p" using D(6-9) k' t ip by (simp add: caller_def)
      then show ?thesis by (intro safe_proc [OF u]) (use same D in simp_all)
    qed (use k' u in simp)
  qed (use u in simp)
qed

lemma sigaction_safe:
  assumes u: "unprivileged k p" and s: "sys_sigaction k sig act handler oldact = Some (k', a)"
  shows "safe_step k p k'"
proof -
  note D = unprivilegedD [OF u]
  from sys_sigaction_effect [OF D(6) s] show ?thesis
  proof
    assume "\<exists>h d. k' = set_proc k p ((k_proc k p)\<lparr>p_signal_handler := h, p_signal_disposition := d\<rparr>)"
    then show ?thesis by (elim exE; intro safe_proc [OF u]) (use D in \<open>simp_all add: set_proc_def caller_def\<close>)
  qed (use u in simp)
qed

lemma proc_call_safe:
  assumes u: "unprivileged k p" and s: "handle_proc k c = Some (k', a)"
  shows "safe_step k p k'"
  using s u spawn_safe [OF u] sigaction_safe [OF u] by (cases c) (auto simp: proc_field_def)

lemma disk_call_safe: "unprivileged k p \<Longrightarrow> handle_disk k c = Some (k', a) \<Longrightarrow> safe_step k p k'"
  using handle_disk_effect unprivilegedD(2) safe_same_files by metis

section \<open>Properties\<close>

text \<open>
  The calls of the run: the strings hold no NUL, a write ends below \<open>2^63\<close>, and the process neither
  becomes another user nor changes the user table, powers off or exits.
\<close>

primrec call_ok :: "kernel \<Rightarrow> call \<Rightarrow> bool" where
  "call_ok k (Fd_call c) = fd_call_fits k c"
| "call_ok k (Path_call c) = nul_free (path_arg c)"
| "call_ok k (Proc_call c) = True"
| "call_ok k (User_call c) = False"
| "call_ok k (Disk_call c) = True"
| "call_ok k Sys_shutdown = False"
| "call_ok k Sys_reboot = False"
| "call_ok k (Sys_exit code) = False"

lemma dispatch_safe:
  assumes u: "unprivileged k p" and c: "call_ok k c" and s: "syscall_dispatch k active interrupt c = Some (k', a)"
  shows "safe_step k p k'"
proof (cases "handle k c = Some (k', a)")
  case False
  then have "k' = k\<lparr>k_procs := process_exit (k_procs k) (pt_current (k_procs k)) 130\<rparr>" using s by (auto simp: syscall_dispatch_def split: if_splits)
  then show ?thesis using safe_exit [OF u] unprivilegedD(6) [OF u] by simp
next
  case True
  then show ?thesis using c fd_call_safe [OF u] path_call_safe [OF u] proc_call_safe [OF u] disk_call_safe [OF u] by (cases c) simp_all
qed

inductive user_run :: "kernel \<Rightarrow> kernel \<Rightarrow> bool" where
  start: "user_run k k"
| call: "user_run k k1 \<Longrightarrow> call_ok k1 c \<Longrightarrow> syscall_dispatch k1 active interrupt c = Some (k2, a) \<Longrightarrow> user_run k k2"



end
