(* ===== verification/Sys_Files.thy ===== *)
theory Sys_Files
  imports Sys_Access
begin

text \<open>Reading back through a descriptor what was written through it.\<close>

text \<open>A descriptor from 3 on, open for reading and writing, of a regular file.\<close>

definition open_file :: "kernel \<Rightarrow> nat \<Rightarrow> int \<Rightarrow> nat \<Rightarrow> nat \<Rightarrow> bool" where
  "open_file k p fd i n \<longleftrightarrow> caller k p \<and> 3 \<le> fd \<and> process_get_fd (k_procs k) (Some p) fd = Some i \<and>
     fd_node (p_fds (k_proc k p) ! i) = Some n \<and> n < length (k_nodes k) \<and> vn_type (k_nodes k ! n) = VFS_NODE_FILE \<and>
     has_flag (fd_flags (p_fds (k_proc k p) ! i)) VFS_O_RDWR \<and> \<not> has_flag (fd_flags (p_fds (k_proc k p) ! i)) VFS_O_WRONLY"

lemma open_fileD:
  assumes "open_file k p fd i n"
  shows "pt_current (k_procs k) = Some p" "p < length (pt_processes (k_procs k))" "fd \<noteq> 0" "fd \<noteq> 1" "fd \<noteq> 2"
    "process_get_fd (k_procs k) (Some p) fd = Some i" "i < length (p_fds (k_proc k p))" "fd_node (p_fds (k_proc k p) ! i) = Some n"
    "n < length (k_nodes k)" "vn_type (k_nodes k ! n) = VFS_NODE_FILE" "has_flag (fd_flags (p_fds (k_proc k p) ! i)) VFS_O_RDWR"
    "\<not> has_flag (fd_flags (p_fds (k_proc k p) ! i)) VFS_O_WRONLY"
  using assms get_fd_view(2) [of "k_procs k" p fd i] by (auto simp: open_file_def caller_def)

lemma set_fd_simps:
  assumes "p < length (pt_processes (k_procs k))" "i < length (p_fds (k_proc k p))"
  shows "k_fs (set_fd k p i f) = k_fs k" "p_fds (k_proc (set_fd k p i f) p) ! i = f" "set_fd (set_fd k p i f) p i f' = set_fd k p i f'"
    "set_fd k p i (p_fds (k_proc k p) ! i) = k" "set_fs (set_fd k p i f) fs = set_fd (set_fs k fs) p i f"
  using assms by (simp_all add: set_fd_def set_fs_def)

text \<open>A later state: another offset in the descriptor, another state of the file system with the same node.\<close>

definition moved :: "kernel \<Rightarrow> nat \<Rightarrow> nat \<Rightarrow> fs_state \<Rightarrow> file_descriptor \<Rightarrow> kernel" where
  "moved k p i fs f = set_fd (set_fs k fs) p i f"

lemma moved_simps:
  assumes "open_file k p fd i n"
  shows "k_fs (moved k p i fs f) = fs" "p_fds (k_proc (moved k p i fs f) p) ! i = f"
    "set_fd (moved k p i fs f) p i f' = moved k p i fs f'" "set_fs (moved k p i fs f) fs' = moved k p i fs' f"
    "moved k p i (k_fs k) (p_fds (k_proc k p) ! i) = k"
  using open_fileD [OF assms] by (simp_all add: moved_def set_fd_def set_fs_def)

lemma moved_open:
  assumes o: "open_file k p fd i n" and f: "fd_used f" "fd_flags f = fd_flags (p_fds (k_proc k p) ! i)" "fd_node f = Some n"
    and fs: "length (fs_nodes fs) = length (k_nodes k)" "vn_type (fs_nodes fs ! n) = VFS_NODE_FILE"
  shows "open_file (moved k p i fs f) p fd i n"
proof -
  note D = open_fileD [OF o] and G = get_fd_view [OF open_fileD(6) [OF o]]
  have "process_get_fd (k_procs (moved k p i fs f)) (Some p) fd = Some i"
    using D(2,7) G f(1) by (simp add: process_get_fd_def moved_def set_fd_def set_fs_def VFS_MAX_FDS_def)
  then show ?thesis
    using o f fs D moved_simps(2) [OF o, of fs f] by (simp add: open_file_def moved_simps(1) [OF o] caller_def) (simp add: moved_def set_fd_def)
qed

definition write_start :: "kernel \<Rightarrow> nat \<Rightarrow> nat \<Rightarrow> nat \<Rightarrow> u64" where
  "write_start k p i n =
     (let f = p_fds (k_proc k p) ! i in if has_flag (fd_flags f) VFS_O_APPEND then vn_size (k_nodes k ! n) else fd_offset f)"

lemma sys_write_file:
  assumes o: "open_file k p fd i n" and inv: "fs_inv (k_fs k)" and buf: "uptr_ok buf (word_of_nat (length data))" and ne: "data \<noteq> []"
    and fit: "unat (write_start k p i n) + length data < 2 ^ 63"
  defines "f \<equiv> (p_fds (k_proc k p) ! i)\<lparr>fd_offset := write_start k p i n\<rparr>"
  shows "sys_write k fd buf data = Some (moved k p i (k_fs k) f, Ret (-1)) \<or>
    (\<exists>fs. sys_write k fd buf data = Some (moved k p i fs (f\<lparr>fd_offset := write_start k p i n + word_of_nat (length data), fd_dirty := True\<rparr>), Ret (int (length data))) \<and>
       fs_inv fs \<and> length (fs_nodes fs) = length (k_nodes k) \<and> vn_type (fs_nodes fs ! n) = VFS_NODE_FILE \<and>
       contents (fs_nodes fs ! n) = overwrite (contents (k_nodes k ! n)) (unat (write_start k p i n)) data)"
proof -
  note D = open_fileD [OF o] and M = moved_simps [OF o]
  have b: "buf \<noteq> 0" using buf by (auto simp: uptr_ok_def)
  have f: "(if has_flag (fd_flags (p_fds (k_proc k p) ! i)) VFS_O_APPEND then (p_fds (k_proc k p) ! i)\<lparr>fd_offset := vn_size (k_nodes k ! n)\<rparr> else p_fds (k_proc k p) ! i) = f"
    by (simp add: f_def write_start_def)
  have fo: "fd_offset f = write_start k p i n" by (simp add: f_def)
  have k1: "set_fd k p i f = moved k p i (k_fs k) f" using M(5) by (simp add: moved_def)
  have "sys_write k fd buf data = write_file k p i buf data"
    using D buf by (simp add: sys_write_def Let_def)
  also have "write_file k p i buf data = map_option (\<lambda>(fs, rc).
      (if rc > 0 then moved k p i fs (f\<lparr>fd_offset := write_start k p i n + word_of_int rc, fd_dirty := True\<rparr>) else moved k p i fs f, Ret rc))
      (vfs_write_node (k_fs k) (Some n) (write_start k p i n) data)"
    using b D(8) unfolding write_file_def Let_def f fo k1 by (simp add: f k1 M fo cong: if_cong)
  finally have w: "sys_write k fd buf data = \<dots>" .
  show ?thesis
    unfolding w using vfs_write_node_ok [OF inv D(9,10) fit] ne by auto
qed

lemma sys_lseek_set:
  assumes o: "open_file k p fd i n" and off: "0 \<le> off" "off < 2 ^ 63"
  shows "sys_lseek k fd off 0 = Some (set_fd k p i ((p_fds (k_proc k p) ! i)\<lparr>fd_offset := word_of_int off\<rparr>), Ret off)"
  using open_fileD [OF o] off by (simp add: sys_lseek_def Let_def)

lemma sys_read_file:
  assumes o: "open_file k p fd i n" and inv: "fs_inv (k_fs k)" and buf: "uptr_ok buf (word_of_nat count)"
  shows "\<exists>k'. sys_read k fd buf count = Some (k', Data (take count (drop (unat (fd_offset (p_fds (k_proc k p) ! i))) (contents (k_nodes k ! n))))) \<and>
    k_fs k' = k_fs k"
proof -
  note D = open_fileD [OF o]
  have b: "buf \<noteq> 0" using buf by (auto simp: uptr_ok_def)
  have "data_ok (k_nodes k ! n)" using fs_invD(3) [OF inv] D(9) node_okD(6) by (auto simp: tree_ok_def)
  from vfs_read_node_contents [OF this] D(10)
  have r: "vfs_read_node (k_fs k) (Some n) off count = Some (Inr (take count (drop (unat off) (contents (k_nodes k ! n)))))" for off by simp
  have "sys_read k fd buf count = read_file k p i buf count"
    using D buf by (simp add: sys_read_def Let_def)
  then show ?thesis using b r D(8) by (auto simp: read_file_def Let_def set_fd_def)
qed

section \<open>Properties\<close>


text \<open>The process of \<open>one_kernel\<close> with descriptor 3 on the file \<open>/f\<close>.\<close>

definition file_kernel :: kernel where
  "file_kernel = set_fd (one_kernel 0 file_fs) 0 3 (fd_zero\<lparr>fd_used := True, fd_flags := VFS_O_RDWR, fd_node := Some 1\<rparr>)"

lemma file_kernel_open: "open_file file_kernel 0 3 3 1"
  by (simp add: open_file_def caller_def file_kernel_def set_fd_def one_kernel_simps process_get_fd_def VFS_MAX_FDS_def)
     (simp add: file_fs_def VFS_O_RDWR_def VFS_O_WRONLY_def)


end
