(* ===== verification/Tsh_Words.thy ===== *)
theory Tsh_Words
  imports Sys_Calls "HOL-Library.Sublist"
begin

text \<open>
  The words of the shell, \<open>kernel/shell/tsh.c\<close>: operators, the splitting of a line, wildcards, tildes,
  the expansion of arguments, and the environment.

  A string is its bytes without the NUL.  The operators of a line are copied to the static array
  \<open>op_token_storage\<close>, to which the tokens point: a token is a word of the line or a slot of that
  array, and what a slot holds is read when the token is used.
\<close>

definition LINE_MAX :: nat where "LINE_MAX = 256"
definition ARGV_MAX :: nat where "ARGV_MAX = 48"
definition ENV_MAX :: nat where "ENV_MAX = 16"

abbreviation blank :: "u8 \<Rightarrow> bool" where "blank c \<equiv> c = 32 \<or> c = 9"
abbreviation star :: u8 where "star \<equiv> 42"

section \<open>Splitting\<close>

fun shell_operator_len :: "u8 list \<Rightarrow> nat" where
  "shell_operator_len [] = 0"
| "shell_operator_len (a # p) =
     (if a = chr CHR ''&'' \<and> p \<noteq> [] \<and> hd p = chr CHR ''&'' \<or> a = chr CHR ''='' \<and> p \<noteq> [] \<and> hd p = chr CHR ''='' \<or>
         a = chr CHR ''!'' \<and> p \<noteq> [] \<and> hd p = chr CHR ''='' then 2
      else if a = chr CHR ''|'' \<or> a = chr CHR ''<'' \<or> a = chr CHR ''>'' then 1
      else 0)"

datatype token = Word "u8 list" | Slot nat

text \<open>
  The inner loop of \<open>split_args\<close>, which removes quotes from the line in place: the word, the rest of
  the line, and whether the word ended at an operator.
\<close>

fun scan_word :: "u8 option \<Rightarrow> u8 list \<Rightarrow> u8 list \<Rightarrow> u8 list \<times> u8 list \<times> bool" where
  "scan_word quote [] w = (w, [], False)"
| "scan_word quote (c # p) w =
     (if quote = None \<and> (c = 39 \<or> c = 34) then scan_word (Some c) p w
      else if quote = Some c then scan_word None p w
      else if quote = None \<and> blank c then (w, p, False)
      else if quote = None \<and> shell_operator_len (c # p) \<noteq> 0 then (w, c # p, True)
      else scan_word quote p (w @ [c]))"

lemma operator_len_le: "shell_operator_len p \<le> length p"
  by (cases p rule: shell_operator_len.cases) (auto simp: Suc_le_eq length_greater_0_conv)

lemma scan_word_length:
  "scan_word quote p w = (w', rest, op) \<Longrightarrow> length rest \<le> length p"
  by (induction quote p w rule: scan_word.induct) (auto simp del: shell_operator_len.simps split: if_splits intro: le_SucI)

lemma scan_word_progress:
  assumes "scan_word None (c # p) w = (w', rest, op)" "\<not> blank c" "shell_operator_len (c # p) = 0"
  shows "length rest \<le> length p"
  using assms scan_word_length [of _ p] by (auto simp del: shell_operator_len.simps split: if_splits)

text \<open>The tokens so far, the number of operators seen, and the operator storage.\<close>

lemma scan_word_shorter:
  assumes "scan_word None (dropWhile blank line) w = (w', rest, op)" "dropWhile blank line \<noteq> []" "shell_operator_len (dropWhile blank line) = 0"
  shows "length rest < length line"
proof -
  obtain c q where p: "dropWhile blank line = c # q" using assms(2) by (cases "dropWhile blank line") auto
  have "\<not> blank c" using hd_dropWhile [of blank line] p by simp
  then have "length rest \<le> length q" using scan_word_progress [of c q w w' rest op] assms p by simp
  also have "\<dots> < length line" using length_dropWhile_le [of blank line] p by simp
  finally show ?thesis .
qed

function split_loop :: "u8 list \<Rightarrow> token list \<Rightarrow> nat \<Rightarrow> u8 list list \<Rightarrow> token list \<times> u8 list list" where
  "split_loop line argv op_slot ops =
     (if line = [] \<or> length argv \<ge> ARGV_MAX - 1 then (argv, ops)
      else
        let p = dropWhile blank line in
        if p = [] then (argv, ops)
        else
          let op_len = shell_operator_len p; slot = op_slot mod ARGV_MAX in
          if op_len \<noteq> 0 then split_loop (drop op_len p) (argv @ [Slot slot]) (op_slot + 1) (ops[slot := take op_len p])
          else
            case scan_word None p [] of
              (w, rest, op) \<Rightarrow>
                let argv1 = argv @ [Word w] in
                if op then
                  split_loop (drop (shell_operator_len rest) rest)
                    (if length argv1 < ARGV_MAX - 1 then argv1 @ [Slot slot] else argv1) (op_slot + 1) (ops[slot := take (shell_operator_len rest) rest])
                else split_loop rest argv1 op_slot ops)"
  by auto
termination
proof (relation "measure (\<lambda>(line, _). length line)", goal_cases)
  case (2 line argv op_slot ops p op_len slot)
  have "length (drop op_len p) < length p" using 2(3,4,6) by (cases p) auto
  also have "\<dots> \<le> length line" unfolding 2(2) by (rule length_dropWhile_le)
  finally show ?case by simp
qed (auto intro!: less_imp_diff_less scan_word_shorter [OF sym])

declare split_loop.simps [simp del]

definition split_args :: "u8 list \<Rightarrow> u8 list list \<Rightarrow> token list \<times> u8 list list" where
  "split_args line ops = split_loop line [] 0 ops"

definition token_text :: "u8 list list \<Rightarrow> token \<Rightarrow> u8 list" where
  "token_text ops t = (case t of Word w \<Rightarrow> w | Slot i \<Rightarrow> ops ! i)"

section \<open>Wildcards\<close>

function wildcard_match :: "u8 list \<Rightarrow> u8 list \<Rightarrow> bool" where
  "wildcard_match [] str = (str = [])"
| "wildcard_match (c # pattern) str =
     (if c = star then
        let rest = dropWhile (\<lambda>c. c = star) pattern in
        if rest = [] then True else list_ex (\<lambda>t. wildcard_match rest t) (rev (suffixes str))
      else if str \<noteq> [] \<and> c = hd str then wildcard_match pattern (tl str)
      else False)"
  by pat_completeness auto
termination
  by (relation "measure (\<lambda>(pattern, _). length pattern)") (auto simp: le_imp_less_Suc length_dropWhile_le)

text \<open>The language of a pattern: a star stands for any string.\<close>

inductive wildcard :: "u8 list \<Rightarrow> u8 list \<Rightarrow> bool" where
  nil: "wildcard [] []"
| star: "wildcard pattern str \<Longrightarrow> wildcard (star # pattern) (any @ str)"
| char: "c \<noteq> star \<Longrightarrow> wildcard pattern str \<Longrightarrow> wildcard (c # pattern) (c # str)"

inductive_simps wildcard_simps: "wildcard [] str" "wildcard (c # pattern) str"

lemma wildcard_stars: "wildcard (star # pattern) str \<longleftrightarrow> (\<exists>t. suffix t str \<and> wildcard (dropWhile (\<lambda>c. c = star) pattern) t)"
proof (induction pattern arbitrary: str)
  case Nil
  show ?case by (auto simp: wildcard_simps suffix_def)
next
  case (Cons c pattern)
  show ?case
  proof (cases "c = star")
    case True
    have "wildcard (star # star # pattern) str \<longleftrightarrow> (\<exists>t. suffix t str \<and> wildcard (star # pattern) t)"
      by (subst wildcard_simps(2)) (auto simp: suffix_def)
    also have "\<dots> \<longleftrightarrow> (\<exists>t. suffix t str \<and> wildcard (dropWhile (\<lambda>c. c = star) pattern) t)"
      unfolding Cons by (meson suffix_order.order_refl suffix_order.order_trans)
    finally show ?thesis using True by simp
  next
    case False
    then show ?thesis by (subst wildcard_simps(2)) (auto simp: suffix_def)
  qed
qed

lemma wildcard_match_wildcard: "wildcard_match pattern str \<longleftrightarrow> wildcard pattern str"
proof (induction pattern str rule: wildcard_match.induct)
  case (1 str)
  show ?case by (simp add: wildcard_simps)
next
  case (2 c pattern str)
  show ?case
  proof (cases "c = star")
    case True
    let ?rest = "dropWhile (\<lambda>c. c = star) pattern"
    have any: "suffix [] str \<and> wildcard [] []" by (simp add: wildcard.nil)
    have "wildcard_match (star # pattern) str \<longleftrightarrow> ?rest = [] \<or> (\<exists>t. suffix t str \<and> wildcard_match ?rest t)"
      by (auto simp: Let_def list_ex_iff in_set_suffixes)
    also have "\<dots> \<longleftrightarrow> (\<exists>t. suffix t str \<and> wildcard ?rest t)"
    proof (cases "?rest = []")
      case True
      then show ?thesis using any unfolding True by blast
    next
      case False
      then show ?thesis using 2(1) [OF True refl] by (auto simp: in_set_suffixes)
    qed
    also have "\<dots> \<longleftrightarrow> wildcard (star # pattern) str" by (rule wildcard_stars [symmetric])
    finally show ?thesis using True by simp
  next
    case False
    then show ?thesis using 2(2) by (cases str) (auto simp: wildcard_simps)
  qed
qed

section \<open>The environment\<close>

type_synonym envs = "(u8 list \<times> u8 list) list"

definition env_get_value :: "envs \<Rightarrow> u8 list \<Rightarrow> u8 list option" where
  "env_get_value envs key = map_of envs key"

definition letter :: "u8 \<Rightarrow> bool" where
  "letter c \<longleftrightarrow> chr CHR ''A'' \<le> c \<and> c \<le> chr CHR ''Z'' \<or> chr CHR ''a'' \<le> c \<and> c \<le> chr CHR ''z'' \<or> c = chr CHR ''_''"

definition digit :: "u8 \<Rightarrow> bool" where
  "digit c \<longleftrightarrow> chr CHR ''0'' \<le> c \<and> c \<le> chr CHR ''9''"

definition env_name :: "u8 list \<Rightarrow> bool" where
  "env_name key \<longleftrightarrow> key \<noteq> [] \<and> (\<forall>c \<in> set key. letter c \<or> digit c) \<and> \<not> digit (hd key)"

fun env_update :: "envs \<Rightarrow> u8 list \<Rightarrow> u8 list \<Rightarrow> envs option" where
  "env_update [] key val = None"
| "env_update ((k, v) # envs) key val =
     (if k = key then Some ((k, take 127 val) # envs) else map_option (\<lambda>e. (k, v) # e) (env_update envs key val))"

definition env_store :: "envs \<Rightarrow> u8 list \<Rightarrow> u8 list \<Rightarrow> envs \<times> int" where
  "env_store envs key val =
     (case env_update envs key val of
        Some e \<Rightarrow> (e, 0)
      | None \<Rightarrow> if length envs \<ge> ENV_MAX then (envs, 1) else (envs @ [(take 31 key, take 127 val)], 0))"

definition env_set_value :: "envs \<Rightarrow> u8 list \<Rightarrow> u8 list \<Rightarrow> envs \<times> int" where
  "env_set_value envs key val = (if \<not> env_name key then (envs, 1) else env_store envs key val)"

text \<open>\<open>set\<close> takes any key.\<close>

definition cmd_set :: "envs \<Rightarrow> u8 list list \<Rightarrow> (envs \<times> int) \<times> u8 list" where
  "cmd_set envs argv =
     (if length argv \<noteq> 3 then ((envs, 1), bytes_of ''usage: set KEY VALUE\<newline>'') else (env_store envs (argv ! 1) (argv ! 2), []))"

lemma env_update_None: "env_update envs key val = None \<longleftrightarrow> key \<notin> fst ` set envs"
  by (induction envs key val rule: env_update.induct) auto

lemma env_update_map: "env_update envs key val = Some e \<Longrightarrow> map_of e = (map_of envs)(key \<mapsto> take 127 val) \<and> map fst e = map fst envs"
  by (induction envs key val arbitrary: e rule: env_update.induct) (auto split: if_splits)

lemma map_of_snoc: "k \<notin> fst ` set xs \<Longrightarrow> map_of (xs @ [(k, v)]) = (map_of xs)(k \<mapsto> v)"
  by (induction xs) auto

lemma env_store_map:
  assumes "length key \<le> 31"
  shows "env_store envs key val = (envs, 1) \<and> key \<notin> fst ` set envs \<and> length envs \<ge> ENV_MAX \<or>
    (\<exists>e. env_store envs key val = (e, 0) \<and> map_of e = (map_of envs)(key \<mapsto> take 127 val) \<and> (length envs \<le> ENV_MAX \<longrightarrow> length e \<le> ENV_MAX))"
proof (cases "env_update envs key val")
  case None
  then have k: "key \<notin> fst ` set envs" by (simp only: env_update_None simp_thms)
  then have "map_of (envs @ [(key, take 127 val)]) = (map_of envs)(key \<mapsto> take 127 val)" by (rule map_of_snoc)
  then show ?thesis using None k assms by (auto simp: env_store_def)
next
  case (Some e)
  then have "length e = length envs" using arg_cong [where f = length, OF conjunct2 [OF env_update_map [OF Some]]] by simp
  then show ?thesis using Some env_update_map [OF Some] by (simp add: env_store_def)
qed

section \<open>Expansion\<close>

definition expand_tilde :: "users_state \<Rightarrow> u8 list \<Rightarrow> nat \<Rightarrow> u8 list" where
  "expand_tilde us arg out_size =
     (let rest = tl arg; joined = (\<lambda>home r. fmt_line out_size ''%s%s'' [Arg_str (Some home), Arg_str (Some r)]) in
      if arg = [] \<or> hd arg \<noteq> chr CHR ''~'' then take (out_size - 1) arg
      else if rest = [] \<or> hd rest = slash then joined (u_home (user_current us)) rest
      else
        let name = take USER_NAME_MAX (takeWhile (\<lambda>c. c \<noteq> slash) rest) in
        case user_find_name (us_users us) name of
          Some u \<Rightarrow> joined (u_home u) (drop (length name) rest)
        | None \<Rightarrow> take (out_size - 1) arg)"

definition append_expanded_arg :: "u8 list list \<Rightarrow> u8 list \<Rightarrow> u8 list list" where
  "append_expanded_arg argv val = (if length argv \<ge> ARGV_MAX - 1 then argv else argv @ [take (VFS_PATH_MAX - 1) val])"

definition glob_emit :: "u8 list \<Rightarrow> u8 list \<Rightarrow> bool \<Rightarrow> u8 list \<Rightarrow> u8 list list \<Rightarrow> u8 list list" where
  "glob_emit pattern pre bare name argv =
     (if length argv \<ge> ARGV_MAX - 1 \<or> \<not> wildcard_match pattern name then argv
      else argv @ [if bare then fmt_line VFS_PATH_MAX ''%s'' [Arg_str (Some name)]
                   else if pre = bytes_of ''/'' then fmt_line VFS_PATH_MAX ''/%s'' [Arg_str (Some name)]
                   else fmt_line VFS_PATH_MAX ''%s/%s'' [Arg_str (Some pre), Arg_str (Some name)]])"

text \<open>The directory, the prefix of the names and the pattern of an argument with a star.\<close>

definition glob_parts :: "u8 list \<Rightarrow> (u8 list \<times> u8 list \<times> u8 list \<times> bool) option" where
  "glob_parts arg =
     (let base = rev (takeWhile (\<lambda>c. c \<noteq> slash) (rev arg)); n = length arg - length base - 1; pattern = take VFS_NAME_MAX base in
      if slash \<notin> set arg then Some (bytes_of ''.'', [], pattern, True)
      else if n = 0 then Some (bytes_of ''/'', bytes_of ''/'', pattern, False)
      else if n \<ge> VFS_PATH_MAX then None
      else Some (take n arg, take n arg, pattern, False))"

definition expand_glob_arg :: "kernel \<Rightarrow> u8 list \<Rightarrow> u8 list list \<Rightarrow> u8 list list option" where
  "expand_glob_arg k arg argv =
     (if star \<notin> set arg then Some (append_expanded_arg argv arg)
      else case glob_parts arg of
        None \<Rightarrow> Some (append_expanded_arg argv arg)
      | Some (dir_path, pre, pattern, bare) \<Rightarrow>
          if pattern = [] \<or> star \<in> set dir_path then Some (append_expanded_arg argv arg)
          else case pt_current (k_procs k) of
            None \<Rightarrow> None
          | Some p \<Rightarrow>
              (case vfs_lookup (k_fs k) (Some dir_path) (Some (p_cwd (k_proc k p))) of
                 None \<Rightarrow> None
               | Some None \<Rightarrow> Some (append_expanded_arg argv arg)
               | Some (Some dir) \<Rightarrow>
                   if vn_type (k_nodes k ! dir) \<noteq> VFS_NODE_DIR then Some (append_expanded_arg argv arg)
                   else map_option (\<lambda>is.
                       let argv' = fold (\<lambda>i. glob_emit pattern pre bare (vn_name (k_nodes k ! i))) is argv
                       in if argv' = argv then append_expanded_arg argv arg else argv')
                     (vfs_list (k_fs k) (Some dir))))"

fun expand_list :: "kernel \<Rightarrow> u8 list list \<Rightarrow> u8 list list \<Rightarrow> u8 list list option" where
  "expand_list k [] out = Some out"
| "expand_list k (arg # args) out =
     (case expand_glob_arg k (expand_tilde (k_users k) arg VFS_PATH_MAX) out of
        None \<Rightarrow> None
      | Some out' \<Rightarrow> expand_list k args out')"

definition expand_args :: "kernel \<Rightarrow> u8 list list \<Rightarrow> u8 list list option" where
  "expand_args k argv = (case argv of [] \<Rightarrow> Some [] | a # args \<Rightarrow> expand_list k args [a])"

section \<open>What splitting does\<close>

text \<open>The parts of a line: words, words in quotes and operators.\<close>

datatype lexeme = Plain "u8 list" | Quoted "u8 list" | Operator "u8 list"

definition operators :: "u8 list list" where
  "operators = map bytes_of [''&&'', ''=='', ''!='', ''|'', ''<'', ''>'']"

definition word_char :: "u8 \<Rightarrow> bool" where
  "word_char c \<longleftrightarrow> \<not> blank c \<and> c \<notin> set (bytes_of [CHR 39, CHR 34]) \<and> c \<notin> set (bytes_of ''&=!|<>'')"

fun lexeme_ok :: "lexeme \<Rightarrow> bool" where
  "lexeme_ok (Plain w) \<longleftrightarrow> w \<noteq> [] \<and> (\<forall>c \<in> set w. word_char c)"
| "lexeme_ok (Quoted w) \<longleftrightarrow> 39 \<notin> set w"
| "lexeme_ok (Operator o') \<longleftrightarrow> o' \<in> set operators"

fun lexeme_text :: "lexeme \<Rightarrow> u8 list" where
  "lexeme_text (Plain w) = w"
| "lexeme_text (Quoted w) = 39 # w @ [39]"
| "lexeme_text (Operator o') = o'"

fun lexeme_string :: "lexeme \<Rightarrow> u8 list" where
  "lexeme_string (Plain w) = w"
| "lexeme_string (Quoted w) = w"
| "lexeme_string (Operator o') = o'"

definition line_text :: "lexeme list \<Rightarrow> u8 list" where
  "line_text ls = concat (map (\<lambda>l. lexeme_text l @ [32]) ls)"

lemma line_text_simps [simp]: "line_text [] = []" "line_text (l # ls) = lexeme_text l @ 32 # line_text ls"
  by (simp_all add: line_text_def)

lemma plain_no_operator: "word_char c \<Longrightarrow> shell_operator_len (c # p) = 0"
  by (auto simp: word_char_def bytes_of_def chr_def)

lemma scan_plain: "\<forall>c \<in> set w. word_char c \<Longrightarrow> scan_word None (w @ 32 # r) acc = (acc @ w, r, False)"
proof (induction w arbitrary: acc)
  case (Cons c w)
  then have c: "word_char c" by simp
  then have "c \<noteq> 39" "c \<noteq> 34" "\<not> blank c" by (auto simp: word_char_def bytes_of_def)
  then show ?case using Cons plain_no_operator [OF c] by (simp del: shell_operator_len.simps)
qed simp

lemma scan_quoted: "39 \<notin> set w \<Longrightarrow> scan_word (Some 39) (w @ 39 # 32 # r) acc = (acc @ w, r, False)"
  by (induction w arbitrary: acc) auto

lemma split_loop_blank: "split_loop (32 # line) argv s ops = split_loop line argv s ops"
  by (subst (1 2) split_loop.simps) simp

lemma operator_first:
  assumes "o' \<in> set operators"
  shows "shell_operator_len (o' @ 32 # r) = length o'" "o' \<noteq> []" "\<not> blank (hd o')" "length o' \<noteq> 0"
  using assms by (auto simp: operators_def bytes_of_def chr_def)

lemma split_word_step:
  assumes "scan_word None (t @ 32 # r) [] = (w, r, False)" "t \<noteq> []" "\<not> blank (hd t)" "shell_operator_len (t @ 32 # r) = 0" "length argv < ARGV_MAX - 1"
  shows "split_loop (t @ 32 # r) argv s ops = split_loop r (argv @ [Word w]) s ops"
proof -
  have d: "dropWhile blank (t @ 32 # r) = t @ 32 # r" using assms(2,3) by (cases t) auto
  show ?thesis using assms by (subst split_loop.simps) (simp add: d Let_def)
qed

lemma split_operator_step:
  assumes "o' \<in> set operators" "length argv < ARGV_MAX - 1"
  shows "split_loop (o' @ 32 # r) argv s ops = split_loop r (argv @ [Slot (s mod ARGV_MAX)]) (s + 1) (ops[s mod ARGV_MAX := o'])"
proof -
  note O = operator_first(1) [OF assms(1), of r] operator_first(2-) [OF assms(1)]
  have d: "dropWhile blank (o' @ 32 # r) = o' @ 32 # r" using O(2,3) by (cases o') auto
  have "split_loop (o' @ 32 # r) argv s ops = split_loop (32 # r) (argv @ [Slot (s mod ARGV_MAX)]) (s + 1) (ops[s mod ARGV_MAX := o'])"
    using O assms(2) by (subst split_loop.simps) (simp add: d Let_def)
  then show ?thesis by (simp add: split_loop_blank)
qed

lemma split_loop_lexemes:
  assumes "\<forall>l \<in> set ls. lexeme_ok l" "length argv + length ls \<le> ARGV_MAX - 1" "s \<le> length argv" "length ops = ARGV_MAX"
  shows "\<exists>toks ops'. split_loop (line_text ls) argv s ops = (argv @ toks, ops') \<and> length ops' = ARGV_MAX \<and> (\<forall>i < s. ops' ! i = ops ! i) \<and>
     list_all2 (\<lambda>t l. token_text ops' t = lexeme_string l \<and> ((\<exists>i. t = Slot i) \<longleftrightarrow> (\<exists>o'. l = Operator o'))) toks ls"
  using assms
proof (induction ls arbitrary: argv s ops)
  case Nil
  then show ?case by (intro exI [of _ "[]"] exI [of _ ops]) (simp add: split_loop.simps [of "[]"])
next
  case (Cons l ls)
  have room: "length argv < ARGV_MAX - 1" using Cons.prems(2) by simp
  let ?ok = "\<lambda>ops' t l. token_text ops' t = lexeme_string l \<and> ((\<exists>i. t = Slot i) \<longleftrightarrow> (\<exists>o'. l = Operator o'))"
  have word: ?case
    if s: "split_loop (line_text (l # ls)) argv s ops = split_loop (line_text ls) (argv @ [Word w]) s ops"
      and w: "lexeme_string l = w" "\<not> (\<exists>o'. l = Operator o')" for w
  proof -
    obtain toks ops' where t: "split_loop (line_text ls) (argv @ [Word w]) s ops = ((argv @ [Word w]) @ toks, ops')" "length ops' = ARGV_MAX"
      "\<forall>i < s. ops' ! i = ops ! i" "list_all2 (?ok ops') toks ls"
      using Cons.IH [of "argv @ [Word w]" s ops] Cons.prems by auto
    then show ?thesis using s w by (intro exI [of _ "Word w # toks"] exI [of _ ops']) (simp add: token_text_def)
  qed
  show ?case
  proof (cases l)
    case (Plain w)
    then have w: "w \<noteq> []" "\<forall>c \<in> set w. word_char c" using Cons.prems(1) by auto
    then obtain c w' where c: "w = c # w'" by (cases w) auto
    then have "word_char c" using w by simp
    then have h: "\<not> blank (hd w)" "shell_operator_len (w @ 32 # line_text ls) = 0"
      using plain_no_operator c by (auto simp: word_char_def simp del: shell_operator_len.simps)
    show ?thesis
      using word [where w = w] split_word_step [where t = w and w = w and argv = argv and s = s and ops = ops, OF _ w(1) h room] scan_plain [OF w(2), of "line_text ls" "[]"] Plain by simp
  next
    case (Quoted w)
    then have w: "39 \<notin> set w" using Cons.prems(1) by simp
    have "scan_word None ((39 # w @ [39]) @ 32 # line_text ls) [] = (w, line_text ls, False)" using scan_quoted [OF w, of "line_text ls" "[]"] by simp
    from split_word_step [where argv = argv and s = s and ops = ops, OF this] show ?thesis using word [where w = w] room Quoted by (simp add: chr_def)
  next
    case (Operator o')
    then have o: "o' \<in> set operators" using Cons.prems(1) by simp
    have sm: "s mod ARGV_MAX = s" "s < ARGV_MAX" using Cons.prems(2,3) by (simp_all add: ARGV_MAX_def)
    let ?ops = "ops[s := o']"
    obtain toks ops' where t: "split_loop (line_text ls) (argv @ [Slot s]) (s + 1) ?ops = ((argv @ [Slot s]) @ toks, ops')" "length ops' = ARGV_MAX"
      "\<forall>i < s + 1. ops' ! i = ?ops ! i" "list_all2 (?ok ops') toks ls"
      using Cons.IH [of "argv @ [Slot s]" "s + 1" ?ops] Cons.prems by auto
    have "ops' ! s = o'" "\<forall>i < s. ops' ! i = ops ! i" using t(3) sm(2) Cons.prems(4) by auto
    then show ?thesis using t split_operator_step [OF o room, of "line_text ls" s ops] sm Operator
      by (intro exI [of _ "Slot s # toks"] exI [of _ ops']) (simp add: token_text_def)
  qed
qed

text \<open>
  C35: \<open>wildcard_match\<close>, with its jump over stars and its search from every position, accepts exactly
  the strings of the language of the pattern.
\<close>

theorem wildcard_match_correct: "wildcard_match pattern str = wildcard pattern str"
  by (rule wildcard_match_wildcard)

text \<open>
  C36: \<open>split_args\<close> reads back a line that was written from words, quoted words and operators, in
  order and with nothing lost, when they fit: each token has the text of its lexeme, and a token
  lies in the operator storage exactly for an operator.
\<close>

theorem split_args_lexemes:
  assumes "\<forall>l \<in> set ls. lexeme_ok l" "length ls < ARGV_MAX" "length ops = ARGV_MAX"
  shows "\<exists>toks ops'. split_args (line_text ls) ops = (toks, ops') \<and> map (token_text ops') toks = map lexeme_string ls \<and>
    map (\<lambda>t. \<exists>i. t = Slot i) toks = map (\<lambda>l. \<exists>o'. l = Operator o') ls"
proof -
  obtain toks ops' where t: "split_args (line_text ls) ops = (toks, ops')"
    "list_all2 (\<lambda>t l. token_text ops' t = lexeme_string l \<and> ((\<exists>i. t = Slot i) \<longleftrightarrow> (\<exists>o'. l = Operator o'))) toks ls"
    using split_loop_lexemes [of ls "[]" 0 ops] assms by (auto simp: split_args_def ARGV_MAX_def)
  have "map (token_text ops') toks = map lexeme_string ls \<and> map (\<lambda>t. \<exists>i. t = Slot i) toks = map (\<lambda>l. \<exists>o'. l = Operator o') ls"
    using t(2) by (induction rule: list_all2_induct) auto
  then show ?thesis using t(1) by blast
qed

theorem split_args_lexemes_witness:
  "\<exists>toks ops'. split_args (bytes_of ''cat 'a b' | wc '' ) (replicate 48 []) = (toks, ops') \<and>
     map (token_text ops') toks = map bytes_of [''cat'', ''a b'', ''|'', ''wc'']"
proof -
  let ?ls = "[Plain (bytes_of ''cat''), Quoted (bytes_of ''a b''), Operator (bytes_of ''|''), Plain (bytes_of ''wc'')]"
  have "line_text ?ls = bytes_of ''cat 'a b' | wc ''" "\<forall>l \<in> set ?ls. lexeme_ok l"
    by (simp_all add: bytes_of_def line_text_def word_char_def operators_def)
  then show ?thesis using split_args_lexemes [of ?ls "replicate 48 []"] by (auto simp: ARGV_MAX_def bytes_of_def)
qed

end
