(* ===== verification/Tsh_Script.thy ===== *)
theory Tsh_Script
  imports Tsh_Words
begin

text \<open>
  The text of scripts, \<open>kernel/shell/tsh.c\<close>: expansion of \<open>$\<close>, trimming, lines, braced blocks,
  assignments, and which files are scripts.

  A buffer that is used as a string is the bytes before its NUL.  \<open>script_block_storage\<close> is read again
  while a block runs, so a block is written into the old bytes of its buffer.
\<close>

definition SCRIPT_MAX_DEPTH :: nat where "SCRIPT_MAX_DEPTH = 4"
definition SCRIPT_BLOCK_MAX :: nat where "SCRIPT_BLOCK_MAX = 4096"

abbreviation newline :: u8 where "newline \<equiv> 10"
abbreviation dollar :: u8 where "dollar \<equiv> 36"

section \<open>Expansion of parameters\<close>

definition script_append :: "nat \<Rightarrow> u8 list \<Rightarrow> u8 list \<Rightarrow> u8 list" where
  "script_append out_size out str = out @ take (out_size - 1 - length out) str"

definition status_text :: "int \<Rightarrow> u8 list" where
  "status_text status = fmt_line 16 ''%d'' [Arg_int (word_of_int status)]"

fun append_all :: "nat \<Rightarrow> u8 list \<Rightarrow> u8 list list \<Rightarrow> u8 list" where
  "append_all out_size out [] = out"
| "append_all out_size out [a] = script_append out_size out a"
| "append_all out_size out (a # args) = append_all out_size (script_append out_size (script_append out_size out a) [32]) args"

text \<open>
  The loop of \<open>script_expand_line\<close>.  \<open>var\<close> is what a name stands for.  \<open>None\<close> is the write of the NUL
  behind the buffer, after two bytes at once.
\<close>

function expand_loop :: "(u8 list \<Rightarrow> u8 list) \<Rightarrow> u8 list list \<Rightarrow> int \<Rightarrow> nat \<Rightarrow> u8 list \<Rightarrow> u8 list \<Rightarrow> u8 list option" where
  "expand_loop var argv status out_size [] out = Some out"
| "expand_loop var argv status out_size (c # inp) out =
     (if length out + 1 \<ge> out_size then Some out
      else if c \<noteq> dollar then expand_loop var argv status out_size inp (out @ [c])
      else
        case inp of
          [] \<Rightarrow> Some (out @ [dollar])
        | d # rest \<Rightarrow>
            if digit d then
              (let i = unat d - 48 in
               expand_loop var argv status out_size rest (if i < length argv then script_append out_size out (argv ! i) else out))
            else if d = chr CHR ''@'' then expand_loop var argv status out_size rest (append_all out_size out (tl argv))
            else if d = chr CHR ''?'' then expand_loop var argv status out_size rest (script_append out_size out (status_text status))
            else if letter d then
              (let name = d # take 30 (takeWhile (\<lambda>c. letter c \<or> digit c) rest) in
               expand_loop var argv status out_size (drop (length name - 1) rest) (script_append out_size out (var name)))
            else if length out + 2 \<ge> out_size then None
            else expand_loop var argv status out_size rest (out @ [dollar, d]))"
  by pat_completeness auto
termination
  by (relation "measure (\<lambda>(var, argv, status, out_size, inp, out). length inp)") auto

declare expand_loop.simps(2) [simp del]

definition script_var :: "users_state \<Rightarrow> envs \<Rightarrow> u8 list \<Rightarrow> u8 list" where
  "script_var us envs key =
     (case env_get_value envs key of
        Some v \<Rightarrow> v
      | None \<Rightarrow>
          if key = bytes_of ''USER'' then u_name (user_current us)
          else if key = bytes_of ''HOME'' then u_home (user_current us)
          else [])"

definition script_expand_line :: "users_state \<Rightarrow> envs \<Rightarrow> u8 list list \<Rightarrow> int \<Rightarrow> nat \<Rightarrow> u8 list \<Rightarrow> u8 list option" where
  "script_expand_line us envs argv status out_size inp = expand_loop (script_var us envs) argv status out_size inp []"

section \<open>Lines\<close>

definition rstrip :: "(u8 \<Rightarrow> bool) \<Rightarrow> u8 list \<Rightarrow> u8 list" where
  "rstrip P s = rev (dropWhile P (rev s))"

definition script_trim :: "u8 list \<Rightarrow> u8 list" where
  "script_trim line = rstrip (\<lambda>c. blank c \<or> c = 13) (dropWhile blank line)"

text \<open>What is left in the buffer of the line.\<close>

definition trimmed_line :: "u8 list \<Rightarrow> u8 list" where
  "trimmed_line line = takeWhile blank line @ script_trim line"

text \<open>The line, as a string, and the bytes after it.\<close>

definition script_read_line :: "u8 list \<Rightarrow> nat \<Rightarrow> nat \<Rightarrow> (u8 list \<times> nat) option" where
  "script_read_line bytes offset out_size =
     (if offset \<ge> length bytes then None
      else
        let raw = takeWhile (\<lambda>c. c \<noteq> newline) (drop offset bytes); after = offset + length raw in
        Some (takeWhile (\<lambda>c. c \<noteq> 0) (take (out_size - 1) raw), if after < length bytes then after + 1 else after))"

definition script_strip_open_brace :: "u8 list \<Rightarrow> u8 list option" where
  "script_strip_open_brace line =
     (let l = rstrip blank (trimmed_line line) in
      if l = [] \<or> last l \<noteq> chr CHR ''{'' then None else Some (trimmed_line (butlast l)))"

section \<open>Blocks\<close>

definition closes_block :: "u8 list \<Rightarrow> bool" where
  "closes_block line \<longleftrightarrow> script_trim line \<in> {bytes_of ''}'', bytes_of ''fi'', bytes_of ''done''}"

definition opens_block :: "u8 list \<Rightarrow> bool" where
  "opens_block line \<longleftrightarrow> script_trim line \<noteq> [] \<and> last (script_trim line) = chr CHR ''{''"

text \<open>The result, the offset, and the text that has been collected.\<close>

function collect_loop :: "u8 list \<Rightarrow> nat \<Rightarrow> nat \<Rightarrow> nat \<Rightarrow> u8 list \<Rightarrow> bool \<times> nat \<times> u8 list" where
  "collect_loop bytes out_size offset depth out =
     (case script_read_line bytes offset LINE_MAX of
        None \<Rightarrow> (False, offset, out)
      | Some (line, offset') \<Rightarrow>
          let depth' = if closes_block line then depth - 1 else depth in
          if closes_block line \<and> depth' = 0 then (True, offset', out)
          else if length out + length line + 2 \<ge> out_size then (False, offset', out)
          else collect_loop bytes out_size offset' (if opens_block line then depth' + 1 else depth')
                 (script_append out_size (script_append out_size out line) [newline]))"
  by auto
termination
  by (relation "measure (\<lambda>(bytes, out_size, offset, depth, out). length bytes - offset)")
    (auto simp: script_read_line_def Let_def split: if_splits)

declare collect_loop.simps [simp del]

lemma script_read_line_offset: "script_read_line bytes offset n = Some (line, offset') \<Longrightarrow> offset < offset' \<and> offset < length bytes"
  by (auto simp: script_read_line_def Let_def split: if_splits)

lemma collect_loop_offset: "collect_loop bytes n offset depth out = (ok, offset', str) \<Longrightarrow> offset \<le> offset'"
proof (induction bytes n offset depth out rule: collect_loop.induct)
  case (1 bytes n offset depth out)
  show ?case
  proof (cases "script_read_line bytes offset LINE_MAX")
    case None
    then show ?thesis using 1(2) by (subst (asm) collect_loop.simps) simp
  next
    case (Some r)
    obtain line o1 where r: "r = (line, o1)" by (cases r)
    have o1: "offset < o1" using script_read_line_offset [of bytes offset LINE_MAX line o1] Some r by simp
    show ?thesis using 1(2) 1(1) [OF Some [unfolded r] refl refl] Some r o1
      by (subst (asm) collect_loop.simps) (auto simp: Let_def split: if_splits)
  qed
qed

definition put_string :: "u8 list \<Rightarrow> u8 list \<Rightarrow> u8 list" where
  "put_string old str = str @ 0 # drop (length str + 1) old"

definition script_collect_block :: "u8 list \<Rightarrow> nat \<Rightarrow> u8 list \<Rightarrow> nat \<Rightarrow> bool \<times> nat \<times> u8 list" where
  "script_collect_block bytes offset old out_size =
     (case collect_loop bytes out_size offset 1 [] of (ok, offset', str) \<Rightarrow> (ok, offset', put_string old str))"

section \<open>Assignments\<close>

definition script_assignment :: "envs \<Rightarrow> u8 list \<Rightarrow> envs \<times> bool" where
  "script_assignment envs line =
     (let eq = chr CHR ''=''; name = takeWhile (\<lambda>c. c \<noteq> eq) line; rest = drop (length name + 1) line in
      if eq \<notin> set line \<or> name = [] \<or> rest \<noteq> [] \<and> hd rest = eq then (envs, False)
      else if \<not> env_name name then (envs, False)
      else case env_set_value envs name rest of (envs', rc) \<Rightarrow> (envs', rc = 0))"

section \<open>Which files are scripts\<close>

definition command_basename :: "u8 list \<Rightarrow> u8 list" where
  "command_basename path = rev (takeWhile (\<lambda>c. c \<noteq> slash) (rev path))"

definition has_suffix :: "u8 list \<Rightarrow> u8 list \<Rightarrow> bool" where
  "has_suffix s suf \<longleftrightarrow> length s \<ge> length suf \<and> drop (length s - length suf) s = suf"

definition shell_name_matches :: "u8 list \<Rightarrow> bool" where
  "shell_name_matches name \<longleftrightarrow> command_basename name \<in> {bytes_of ''sh'', bytes_of ''tsh''}"

text \<open>The first \<open>size\<close> bytes of the data of a node.\<close>

definition node_bytes :: "vfs_node \<Rightarrow> u8 list option" where
  "node_bytes v = map_option (take (unat (vn_size v))) (vn_data v)"

definition script_has_shebang :: "vfs_node \<Rightarrow> bool" where
  "script_has_shebang v = (case node_bytes v of Some (a # b # _) \<Rightarrow> a = chr CHR ''#'' \<and> b = chr CHR ''!'' | _ \<Rightarrow> False)"

text \<open>A word of the first line, up to 63 bytes of it, as a string, and the bytes after it.\<close>

definition shebang_word :: "u8 list \<Rightarrow> u8 list \<times> u8 list" where
  "shebang_word s =
     (let s1 = dropWhile blank s; w = take 63 (takeWhile (\<lambda>c. c \<noteq> newline \<and> \<not> blank c) s1) in
      (takeWhile (\<lambda>c. c \<noteq> 0) w, drop (length w) s1))"

definition script_shell_shebang :: "vfs_node \<Rightarrow> bool" where
  "script_shell_shebang v =
     (case node_bytes v of
        None \<Rightarrow> False
      | Some bytes \<Rightarrow>
          if length bytes < 2 \<or> take 2 bytes \<noteq> bytes_of ''#!'' then False
          else
            case shebang_word (drop 2 bytes) of (interp, s1) \<Rightarrow>
              (case shebang_word s1 of (arg, _) \<Rightarrow>
                 shell_name_matches interp \<or> command_basename interp = bytes_of ''env'' \<and> shell_name_matches arg))"

definition script_looks_textual :: "vfs_node \<Rightarrow> bool" where
  "script_looks_textual v =
     (if vn_type v \<noteq> VFS_NODE_FILE then False
      else case node_bytes v of
        None \<Rightarrow> False
      | Some bytes \<Rightarrow> \<not> list_ex (\<lambda>c. c = 0 \<or> c < 32 \<and> c \<noteq> newline \<and> c \<noteq> 13 \<and> c \<noteq> 9 \<and> c \<noteq> 8) (take 256 bytes))"

text \<open>Whether the file runs as a script, and whether its first line is left out.\<close>

definition script_should_run :: "vfs_node \<Rightarrow> u8 list \<Rightarrow> bool \<Rightarrow> bool \<times> bool" where
  "script_should_run v invoked force_script =
     (if force_script then (vn_type v = VFS_NODE_FILE, False)
      else if script_shell_shebang v then (True, True)
      else if script_has_shebang v then (False, False)
      else (has_suffix invoked (bytes_of ''.sh'') \<or> has_suffix invoked (bytes_of ''.tsh'') \<or>
            has_suffix (vn_name v) (bytes_of ''.sh'') \<or> has_suffix (vn_name v) (bytes_of ''.tsh''), False))"

section \<open>What collecting does\<close>

definition line_ok :: "u8 list \<Rightarrow> bool" where
  "line_ok line \<longleftrightarrow> length line < LINE_MAX \<and> newline \<notin> set line \<and> 0 \<notin> set line"

definition lines_text :: "u8 list list \<Rightarrow> u8 list" where
  "lines_text ls = concat (map (\<lambda>l. l @ [newline]) ls)"

lemma lines_text_simps [simp]:
  "lines_text [] = []" "lines_text (l # ls) = l @ newline # lines_text ls" "lines_text (ls @ ls') = lines_text ls @ lines_text ls'"
  by (simp_all add: lines_text_def)

text \<open>The lines of a block: lines that neither open nor close a block, and whole blocks.\<close>

inductive block_body :: "u8 list list \<Rightarrow> bool" where
  nil: "block_body []"
| plain: "line_ok l \<Longrightarrow> \<not> opens_block l \<Longrightarrow> \<not> closes_block l \<Longrightarrow> block_body ls \<Longrightarrow> block_body (l # ls)"
| block: "line_ok o' \<Longrightarrow> opens_block o' \<Longrightarrow> block_body ls \<Longrightarrow> line_ok c \<Longrightarrow> closes_block c \<Longrightarrow> block_body ls' \<Longrightarrow>
    block_body (o' # ls @ c # ls')"

lemma closes_not_opens: "closes_block l \<Longrightarrow> \<not> opens_block l"
  by (auto simp: closes_block_def opens_block_def bytes_of_def chr_def)

lemma read_line_ok:
  assumes "line_ok line"
  shows "script_read_line (pre @ line @ newline # rest) (length pre) LINE_MAX = Some (line, length pre + length line + 1)"
proof -
  have "takeWhile (\<lambda>c. c \<noteq> newline) (line @ newline # rest) = line" "takeWhile (\<lambda>c. c \<noteq> 0) line = line"
    using assms by (auto simp: line_ok_def takeWhile_tail intro: takeWhile_eq_all_conv [THEN iffD2])
  moreover have "take (LINE_MAX - 1) line = line" using assms by (auto simp: line_ok_def)
  ultimately show ?thesis by (simp add: script_read_line_def)
qed

lemma append_line: "length out + length line + 2 < n \<Longrightarrow> script_append n (script_append n out line) [newline] = out @ line @ [newline]"
  by (simp add: script_append_def)

lemma collect_step:
  assumes "line_ok line" "closes_block line \<Longrightarrow> depth > 1" "length out + length line + 2 < n"
  shows "collect_loop (pre @ line @ newline # rest) n (length pre) depth out =
    collect_loop (pre @ line @ newline # rest) n (length pre + length line + 1)
      ((if closes_block line then depth - 1 else depth) + (if opens_block line then 1 else 0)) (out @ line @ [newline])"
  using assms append_line [OF assms(3)] by (subst collect_loop.simps) (auto simp: read_line_ok [OF assms(1)] Let_def)

text \<open>The lines of a body leave the depth as it is.\<close>

lemma collect_body:
  assumes "block_body ls" "depth > 0" "length out + length (lines_text ls) + 1 < n"
  shows "collect_loop (pre @ lines_text ls @ rest) n (length pre) depth out =
    collect_loop (pre @ lines_text ls @ rest) n (length pre + length (lines_text ls)) depth (out @ lines_text ls)"
  using assms
proof (induction ls arbitrary: pre depth out rest rule: block_body.induct)
  case nil
  then show ?case by simp
next
  case (plain l ls)
  have "collect_loop (pre @ l @ newline # lines_text ls @ rest) n (length pre) depth out =
      collect_loop (pre @ l @ newline # lines_text ls @ rest) n (length pre + length l + 1) depth (out @ l @ [newline])"
    using plain.hyps plain.prems by (subst collect_step) simp_all
  also have "\<dots> = collect_loop ((pre @ l @ [newline]) @ lines_text ls @ rest) n (length (pre @ l @ [newline])) depth (out @ l @ [newline])" by simp
  also have "\<dots> = collect_loop ((pre @ l @ [newline]) @ lines_text ls @ rest) n (length (pre @ l @ [newline]) + length (lines_text ls)) depth
      ((out @ l @ [newline]) @ lines_text ls)"
    using plain.prems by (intro plain.IH) simp_all
  finally show ?case by (simp add: ac_simps)
next
  case (block o' ls c ls')
  note N = closes_not_opens [of o'] closes_not_opens [OF block.hyps(5)]
  let ?t = "pre @ o' @ newline # lines_text ls @ c @ newline # lines_text ls' @ rest"
  let ?p1 = "pre @ o' @ [newline]" and ?o1 = "out @ o' @ [newline]"
  let ?p2 = "?p1 @ lines_text ls" and ?o2 = "?o1 @ lines_text ls"
  let ?p3 = "?p2 @ c @ [newline]" and ?o3 = "?o2 @ c @ [newline]"
  have "collect_loop ?t n (length pre) depth out = collect_loop ?t n (length ?p1) (depth + 1) ?o1"
    using block.hyps(1,2) block.prems N(1) by (subst collect_step) auto
  also have "\<dots> = collect_loop ?t n (length ?p2) (depth + 1) ?o2"
    using block.IH(1) [of "depth + 1" ?o1 ?p1 "c @ newline # lines_text ls' @ rest"] block.prems by (simp add: add.assoc)
  also have "\<dots> = collect_loop ?t n (length ?p3) depth ?o3"
    using collect_step [of c "depth + 1" ?o2 n ?p2 "lines_text ls' @ rest"] block.hyps(4,5) block.prems N(2) by (simp add: add.assoc)
  also have "\<dots> = collect_loop ?t n (length ?p3 + length (lines_text ls')) depth (?o3 @ lines_text ls')"
    using block.IH(2) [of depth ?o3 ?p3 rest] block.prems by (simp add: add.assoc)
  finally show ?case by (simp add: ac_simps)
qed

lemma collect_close:
  assumes "line_ok c" "closes_block c"
  shows "collect_loop (pre @ c @ newline # rest) n (length pre) 1 out = (True, length pre + length c + 1, out)"
  using assms by (subst collect_loop.simps) (simp add: read_line_ok)

lemma script_collect_block_body:
  assumes "block_body ls" "line_ok c" "closes_block c" "length (lines_text ls) + 1 < n"
  shows "script_collect_block (pre @ lines_text ls @ c @ newline # rest) (length pre) old n =
    (True, length pre + length (lines_text ls) + length c + 1, put_string old (lines_text ls))"
proof -
  have "collect_loop (pre @ lines_text ls @ c @ newline # rest) n (length pre) 1 [] =
      collect_loop ((pre @ lines_text ls) @ c @ newline # rest) n (length (pre @ lines_text ls)) 1 (lines_text ls)"
    using collect_body [of ls 1 "[]" n pre "c @ newline # rest"] assms by simp
  also have "\<dots> = (True, length pre + length (lines_text ls) + length c + 1, lines_text ls)"
    by (subst collect_close) (use assms in simp_all)
  finally show ?thesis by (simp add: script_collect_block_def)
qed

end
