(* ===== verification/Tsh_Run.thy ===== *)
theory Tsh_Run
  imports Tsh_Script Elf
begin

text \<open>
  The commands of the shell, \<open>kernel/shell/tsh.c\<close>: stages, pipelines, lines, scripts and the built-in
  commands, over the kernel of \<open>Sys_Calls\<close>.

  The static buffers of the shell that outlive a command are fields of \<open>shell\<close>, and what is read
  through a pointer into them is read from the field at that time: a script that runs inside another
  shares them.  \<open>sh_capture\<close> is the length that \<open>k_output\<close> had when the console began to write into
  \<open>stage_capture_buf\<close>.  The applets, the programs behind \<open>SYS_EXEC\<close> and the built-in commands that
  are not modelled are arguments, in the record \<open>outside\<close>, with the addresses of two buffers.
\<close>

record shell =
  sh_k :: kernel
  sh_envs :: envs
  sh_ops :: "u8 list list"
  sh_blocks :: "u8 list list"
  sh_values :: "u8 list list list"
  sh_args :: "u8 list list"
  sh_pipes :: "u8 list list"
  sh_history :: "u8 list list"
  sh_clip :: "u8 list"
  sh_capture :: "nat option"

record outside =
  o_applet :: "u8 list \<Rightarrow> bool"
  o_run_applet :: "shell \<Rightarrow> u8 list list \<Rightarrow> u8 list option \<Rightarrow> (shell \<times> int) option"
  o_exec :: "shell \<Rightarrow> u8 list \<Rightarrow> u8 list list \<Rightarrow> (shell \<times> int) option"
  o_builtin :: "u8 list \<Rightarrow> shell \<Rightarrow> u8 list list \<Rightarrow> (shell \<times> int) option"
  o_path_at :: u64
  o_capture_at :: u64

type_synonym runner = "shell \<Rightarrow> u8 list list \<Rightarrow> u8 list option \<Rightarrow> (shell \<times> int) option"

abbreviation sh_users :: "shell \<Rightarrow> users_state" where "sh_users sh \<equiv> k_users (sh_k sh)"
abbreviation sh_cwd :: "shell \<Rightarrow> nat \<Rightarrow> u8 list" where "sh_cwd sh p \<equiv> p_cwd (k_proc (sh_k sh) p)"
abbreviation c_string :: "u8 list \<Rightarrow> u8 list" where "c_string \<equiv> takeWhile (\<lambda>c. c \<noteq> 0)"

definition say :: "shell \<Rightarrow> string \<Rightarrow> arg list \<Rightarrow> shell" where
  "say sh fmt args = sh\<lparr>sh_k := (sh_k sh)\<lparr>k_output := k_output (sh_k sh) @ [Console (fmt_line 1024 fmt args)]\<rparr>\<rparr>"

definition set_users :: "shell \<Rightarrow> users_state \<Rightarrow> shell" where
  "set_users sh us = sh\<lparr>sh_k := (sh_k sh)\<lparr>k_users := us\<rparr>\<rparr>"

definition shell_call :: "shell \<Rightarrow> call \<Rightarrow> (shell \<times> answer) option" where
  "shell_call sh c = map_option (\<lambda>(k, a). (sh\<lparr>sh_k := k\<rparr>, a)) (syscall_dispatch (sh_k sh) False False c)"

text \<open>\<open>vfs_lookup (path, process_current ()->cwd)\<close>.\<close>

definition shell_lookup :: "shell \<Rightarrow> u8 list \<Rightarrow> nat option option" where
  "shell_lookup sh path =
     (case pt_current (k_procs (sh_k sh)) of
        None \<Rightarrow> None
      | Some p \<Rightarrow> vfs_lookup (k_fs (sh_k sh)) (Some path) (Some (sh_cwd sh p)))"

section \<open>Capturing the console\<close>

fun console_bytes :: "shown list \<Rightarrow> u8 list" where
  "console_bytes [] = []"
| "console_bytes (Console b # out) = b @ console_bytes out"
| "console_bytes (Blit x n b # out) = console_bytes out"

fun blits :: "shown list \<Rightarrow> shown list" where
  "blits [] = []"
| "blits (Console b # out) = blits out"
| "blits (Blit x n b # out) = Blit x n b # blits out"

text \<open>What has been captured, and the output without it.\<close>

definition captured_text :: "shell \<Rightarrow> u8 list" where
  "captured_text sh = (case sh_capture sh of None \<Rightarrow> [] | Some m \<Rightarrow> take 4095 (console_bytes (drop m (k_output (sh_k sh)))))"

definition uncaptured :: "shell \<Rightarrow> shown list" where
  "uncaptured sh =
     (case sh_capture sh of None \<Rightarrow> k_output (sh_k sh) | Some m \<Rightarrow> take m (k_output (sh_k sh)) @ blits (drop m (k_output (sh_k sh))))"

definition console_capture_begin :: "shell \<Rightarrow> shell" where
  "console_capture_begin sh = sh\<lparr>sh_k := (sh_k sh)\<lparr>k_output := uncaptured sh\<rparr>, sh_capture := Some (length (uncaptured sh))\<rparr>"

definition console_capture_end :: "shell \<Rightarrow> shell \<times> u8 list" where
  "console_capture_end sh = (sh\<lparr>sh_k := (sh_k sh)\<lparr>k_output := uncaptured sh\<rparr>, sh_capture := None\<rparr>, captured_text sh)"

section \<open>Stages, pipelines and lines\<close>

text \<open>The loop over the tokens of a stage: arguments, input and output, or the token without a file name.\<close>

fun stage_loop :: "u8 list list \<Rightarrow> u8 list list \<Rightarrow> u8 list option \<Rightarrow> u8 list option \<Rightarrow>
    u8 list + u8 list list \<times> u8 list option \<times> u8 list option" where
  "stage_loop [] argv input_path output_path = Inr (argv, input_path, output_path)"
| "stage_loop (t # ts) argv input_path output_path =
     (if length argv \<ge> ARGV_MAX - 1 then Inr (argv, input_path, output_path)
      else if t = bytes_of ''<'' \<or> t = bytes_of ''>'' then
        (case ts of
           [] \<Rightarrow> Inl t
         | f # ts' \<Rightarrow> if t = bytes_of ''>'' then stage_loop ts' argv input_path (Some f) else stage_loop ts' argv (Some f) output_path)
      else stage_loop ts (argv @ [t]) input_path output_path)"

text \<open>\<open>Some None\<close> is the result -1.\<close>

definition read_node_text :: "shell \<Rightarrow> u8 list \<Rightarrow> nat \<Rightarrow> u8 list option option" where
  "read_node_text sh path n =
     map_option (\<lambda>r. case r of
         None \<Rightarrow> None
       | Some i \<Rightarrow>
           let v = k_nodes (sh_k sh) ! i in
           if vn_type v = VFS_NODE_DIR then None else Some (take (n - 1) (case node_bytes v of None \<Rightarrow> [] | Some b \<Rightarrow> b)))
       (shell_lookup sh path)"

definition answer_rc :: "answer \<Rightarrow> int" where
  "answer_rc a = (case a of Ret r \<Rightarrow> r | _ \<Rightarrow> 0)"

text \<open>The captured output written to a file; \<open>True\<close> when all of it was.\<close>

definition write_output :: "outside \<Rightarrow> shell \<Rightarrow> u8 list \<Rightarrow> u8 list \<Rightarrow> (shell \<times> bool) option" where
  "write_output E sh path bytes =
     (case shell_call sh (Path_call (Sys_open (o_path_at E, path) (VFS_O_CREAT OR VFS_O_RDWR OR VFS_O_TRUNC) 0x1a4)) of
        None \<Rightarrow> None
      | Some (sh1, a) \<Rightarrow>
          let fd = answer_rc a in
          if fd < 0 then Some (sh1, False)
          else
            (case (if bytes \<noteq> [] then shell_call sh1 (Fd_call (Sys_write fd (o_capture_at E) bytes)) else Some (sh1, Ret 0)) of
               None \<Rightarrow> None
             | Some (sh2, w) \<Rightarrow>
                 map_option (\<lambda>(sh3, _). (sh3, bytes = [] \<or> answer_rc w = int (length bytes))) (shell_call sh2 (Fd_call (Sys_close fd)))))"

text \<open>The result code, and what is copied to the buffer of the pipe.\<close>

definition stage_end :: "outside \<Rightarrow> shell \<Rightarrow> bool \<Rightarrow> u8 list option \<Rightarrow> int \<Rightarrow> (shell \<times> int \<times> u8 list option) option" where
  "stage_end E sh capture output_path rc =
     (if \<not> capture \<and> output_path = None then Some (sh, rc, None)
      else
        case console_capture_end sh of
          (sh1, text') \<Rightarrow>
            (case (case output_path of None \<Rightarrow> Some (sh1, True) | Some path \<Rightarrow> write_output E sh1 path text') of
               None \<Rightarrow> None
             | Some (sh2, False) \<Rightarrow> Some (say sh2 ''tsh: cannot write %s\<newline>'' [Arg_str output_path], 1, None)
             | Some (sh2, True) \<Rightarrow> Some (sh2, rc, if capture then Some text' else None)))"

definition run_stage :: "outside \<Rightarrow> runner \<Rightarrow> shell \<Rightarrow> u8 list list \<Rightarrow> u8 list option \<Rightarrow> bool \<Rightarrow> (shell \<times> int \<times> u8 list option) option" where
  "run_stage E run sh tokens stdin_data capture =
     (case stage_loop tokens [] None None of
        Inl t \<Rightarrow> Some (say sh ''tsh: missing filename after %s\<newline>'' [Arg_str (Some t)], 2, None)
      | Inr (argv, input_path, output_path) \<Rightarrow>
          (case expand_args (sh_k sh) argv of
             None \<Rightarrow> None
           | Some expanded \<Rightarrow>
               let tilde = map_option (\<lambda>p. expand_tilde (sh_users sh) p VFS_PATH_MAX) in
               (case (case tilde input_path of None \<Rightarrow> Some (Some stdin_data) | Some path \<Rightarrow> map_option (map_option (\<lambda>b. Some (c_string b))) (read_node_text sh path 4096)) of
                  None \<Rightarrow> None
                | Some None \<Rightarrow> Some (say sh ''tsh: cannot read %s\<newline>'' [Arg_str (tilde input_path)], 1, None)
                | Some (Some input) \<Rightarrow>
                    (case run (if capture \<or> output_path \<noteq> None then console_capture_begin sh else sh) expanded input of
                       None \<Rightarrow> None
                     | Some (sh1, rc) \<Rightarrow> stage_end E sh1 capture (tilde output_path) rc))))"

abbreviation live :: "shell \<Rightarrow> token \<Rightarrow> u8 list" where "live sh \<equiv> token_text (sh_ops sh)"

text \<open>
  The loop of \<open>run_pipeline\<close> over the tokens that are left; \<open>input\<close> and \<open>use\<close> are the buffer that is
  read and the one to write, of the two of \<open>sh_pipes\<close>.
\<close>

function pipeline_loop :: "outside \<Rightarrow> runner \<Rightarrow> shell \<Rightarrow> token list \<Rightarrow> nat option \<Rightarrow> nat \<Rightarrow> int \<Rightarrow> (shell \<times> int) option" where
  "pipeline_loop E run sh tokens input use rc =
     (if tokens = [] then Some (sh, rc)
      else
        let seg = takeWhile (\<lambda>t. live sh t \<noteq> bytes_of ''|'') tokens; last = (seg = tokens) in
        case run_stage E run sh (map (live sh) seg) (map_option (\<lambda>i. c_string (sh_pipes sh ! i)) input) (\<not> last) of
          None \<Rightarrow> None
        | Some (sh1, rc1, out) \<Rightarrow>
            let sh2 = (case out of None \<Rightarrow> sh1 | Some b \<Rightarrow> sh1\<lparr>sh_pipes := (sh_pipes sh1)[use := b]\<rparr>) in
            if last then Some (sh2, rc1)
            else pipeline_loop E run sh2 (drop (length seg + 1) tokens) (Some use) (1 - use) rc1)"
  by auto
termination
  by (relation "measure (\<lambda>(E, run, sh, tokens, input, use, rc). length tokens)") auto

declare pipeline_loop.simps [simp del]

definition run_pipeline :: "outside \<Rightarrow> runner \<Rightarrow> shell \<Rightarrow> token list \<Rightarrow> (shell \<times> int) option" where
  "run_pipeline E run sh tokens = pipeline_loop E run sh tokens None 0 0"

function run_tokens :: "outside \<Rightarrow> runner \<Rightarrow> shell \<Rightarrow> token list \<Rightarrow> (shell \<times> int) option" where
  "run_tokens E run sh argv =
     (let seg = takeWhile (\<lambda>t. live sh t \<noteq> bytes_of ''&&'') argv in
      if seg = [] then Some (sh, 2)
      else
        case run_pipeline E run sh seg of
          None \<Rightarrow> None
        | Some (sh1, rc) \<Rightarrow>
            if rc \<noteq> 0 \<or> seg = argv then Some (sh1, rc) else run_tokens E run sh1 (drop (length seg + 1) argv))"
  by auto
termination
proof (relation "measure (\<lambda>(E, run, sh, argv). length argv)", goal_cases)
  case (2 E run sh argv)
  then show ?case by (cases argv) auto
qed simp

declare run_tokens.simps [simp del]

text \<open>The shell splits a line of its own: the tokens, and the shell with the operators stored.\<close>

definition shell_split :: "shell \<Rightarrow> u8 list \<Rightarrow> shell \<times> token list" where
  "shell_split sh line = (case split_args line (sh_ops sh) of (toks, ops) \<Rightarrow> (sh\<lparr>sh_ops := ops\<rparr>, toks))"

definition run_line :: "outside \<Rightarrow> runner \<Rightarrow> shell \<Rightarrow> u8 list \<Rightarrow> (shell \<times> int) option" where
  "run_line E run sh line = (case shell_split sh line of (sh1, toks) \<Rightarrow> run_tokens E run sh1 toks)"

section \<open>Scripts\<close>

definition script_condition_status :: "outside \<Rightarrow> runner \<Rightarrow> shell \<Rightarrow> u8 list \<Rightarrow> (shell \<times> int) option" where
  "script_condition_status E run sh condition =
     (let t = script_trim condition in
      if take 7 t = bytes_of ''exists '' then
        map_option (\<lambda>r. (sh, if r \<noteq> None then 0 else 1)) (shell_lookup sh (expand_tilde (sh_users sh) (script_trim (drop 7 t)) VFS_PATH_MAX))
      else run_line E run sh t)"

text \<open>
  What a script runs on: a buffer of \<open>script_block_storage\<close>, read when the next line is needed, or
  the data of a node.  A script whose own file changes while it runs is not modelled.
\<close>

datatype script_source = Block nat | Node nat "u8 list"

definition source_bytes :: "shell \<Rightarrow> script_source \<Rightarrow> nat \<Rightarrow> u8 list option" where
  "source_bytes sh src n =
     (case src of
        Block d \<Rightarrow> Some (take n (sh_blocks sh ! d))
      | Node i b \<Rightarrow> if node_bytes (k_nodes (sh_k sh) ! i) = Some b then Some (take n b) else None)"

lemma source_bytes_length: "source_bytes sh src n = Some b \<Longrightarrow> length b \<le> n"
  by (auto simp: source_bytes_def split: script_source.splits if_splits)

text \<open>The arguments of the script, in \<open>script_arg_storage\<close>.\<close>

definition script_argv :: "shell \<Rightarrow> nat \<Rightarrow> u8 list list" where
  "script_argv sh argc = take argc (sh_args sh)"

definition expand_line :: "shell \<Rightarrow> nat \<Rightarrow> int \<Rightarrow> u8 list \<Rightarrow> u8 list option" where
  "expand_line sh argc status inp = script_expand_line (sh_users sh) (sh_envs sh) (script_argv sh argc) status LINE_MAX inp"

definition collect_block :: "shell \<Rightarrow> u8 list \<Rightarrow> nat \<Rightarrow> nat \<Rightarrow> shell \<times> bool \<times> nat" where
  "collect_block sh bytes offset depth =
     (case script_collect_block bytes offset (sh_blocks sh ! depth) SCRIPT_BLOCK_MAX of
        (ok, offset', block) \<Rightarrow> (sh\<lparr>sh_blocks := (sh_blocks sh)[depth := block]\<rparr>, ok, offset'))"

text \<open>The runner of a block of the given depth and size.\<close>

type_synonym block_runner = "shell \<Rightarrow> nat \<Rightarrow> nat \<Rightarrow> (shell \<times> int) option"

definition run_block :: "block_runner \<Rightarrow> shell \<Rightarrow> nat \<Rightarrow> (shell \<times> int) option" where
  "run_block sub sh depth = sub sh depth (length (c_string (sh_blocks sh ! depth)))"

definition exit_status :: "int \<Rightarrow> u8 list \<Rightarrow> int option" where
  "exit_status status p =
     (let arg = dropWhile blank (drop 4 p) in if arg = [] then Some status else atoi (\<lambda>a. (arg @ [0]) ! a) 0)"

definition run_if :: "outside \<Rightarrow> runner \<Rightarrow> block_runner \<Rightarrow> nat \<Rightarrow> nat \<Rightarrow> shell \<Rightarrow> int \<Rightarrow> u8 list \<Rightarrow> (shell \<times> int) option" where
  "run_if E run sub argc depth sh status control =
     (case expand_line sh argc status control of
        None \<Rightarrow> None
      | Some expanded \<Rightarrow>
          (case script_condition_status E run sh expanded of
             None \<Rightarrow> None
           | Some (sh1, rc) \<Rightarrow> if rc = 0 then run_block sub sh1 depth else Some (sh1, 0)))"

text \<open>The words of a \<open>for\<close>, expanded into \<open>script_value_storage\<close>.\<close>

fun for_values :: "kernel \<Rightarrow> u8 list list \<Rightarrow> u8 list list \<Rightarrow> u8 list list option" where
  "for_values k [] values = Some values"
| "for_values k (w # words) values =
     (case expand_glob_arg k (expand_tilde (k_users k) w VFS_PATH_MAX) values of
        None \<Rightarrow> None
      | Some values' \<Rightarrow> for_values k words values')"

definition store_values :: "shell \<Rightarrow> nat \<Rightarrow> u8 list list \<Rightarrow> shell" where
  "store_values sh depth values = sh\<lparr>sh_values := (sh_values sh)[depth := values @ drop (length values) (sh_values sh ! depth)]\<rparr>"

definition set_env :: "shell \<Rightarrow> u8 list \<Rightarrow> u8 list \<Rightarrow> shell" where
  "set_env sh key val = sh\<lparr>sh_envs := fst (env_set_value (sh_envs sh) key val)\<rparr>"

fun for_loop :: "block_runner \<Rightarrow> nat \<Rightarrow> token \<Rightarrow> shell \<Rightarrow> int \<Rightarrow> nat list \<Rightarrow> (shell \<times> int) option" where
  "for_loop sub depth name sh status [] = Some (sh, status)"
| "for_loop sub depth name sh status (i # is) =
     (case run_block sub (set_env sh (live sh name) (sh_values sh ! depth ! i)) depth of
        None \<Rightarrow> None
      | Some (sh1, status1) \<Rightarrow> for_loop sub depth name sh1 status1 is)"

text \<open>\<open>Inl\<close> is a return.\<close>

definition run_for :: "block_runner \<Rightarrow> nat \<Rightarrow> nat \<Rightarrow> shell \<Rightarrow> int \<Rightarrow> u8 list \<Rightarrow> (shell \<times> (int + int)) option" where
  "run_for sub argc depth sh status control =
     (case expand_line sh argc status control of
        None \<Rightarrow> None
      | Some expanded \<Rightarrow>
          (case shell_split sh expanded of
             (sh1, toks) \<Rightarrow>
               if length toks < 4 \<or> live sh1 (toks ! 0) \<noteq> bytes_of ''for'' \<or> live sh1 (toks ! 2) \<noteq> bytes_of ''in'' then
                 Some (say sh1 ''tsh: usage: for NAME in WORDS { ... }\<newline>'' [], Inl 2)
               else
                 case for_values (sh_k sh1) (map (live sh1) (drop 3 toks)) [] of
                   None \<Rightarrow> None
                 | Some values \<Rightarrow>
                     map_option (\<lambda>(sh2, st). (sh2, Inr st))
                       (for_loop sub depth (toks ! 1) (store_values sh1 depth values) status [0..<length values])))"

text \<open>A line of a script, after trimming: a return, or the status and the offset of the next line.\<close>

definition script_line :: "outside \<Rightarrow> runner \<Rightarrow> block_runner \<Rightarrow> nat \<Rightarrow> nat \<Rightarrow> u8 list \<Rightarrow> shell \<Rightarrow> int \<Rightarrow> nat \<Rightarrow> u8 list \<Rightarrow>
    (shell \<times> (int + int \<times> nat)) option" where
  "script_line E run sub argc depth bytes sh status offset p =
     (if p = [] \<or> hd p = chr CHR ''#'' then Some (sh, Inr (status, offset))
      else
        case script_assignment (sh_envs sh) p of
          (envs, True) \<Rightarrow> Some (sh\<lparr>sh_envs := envs\<rparr>, Inr (0, offset))
        | (envs, False) \<Rightarrow>
            if take 4 p = bytes_of ''exit'' \<and> (length p = 4 \<or> blank (p ! 4)) then map_option (\<lambda>rc. (sh, Inl rc)) (exit_status status p)
            else if take 3 p = bytes_of ''if '' then
              (case script_strip_open_brace (drop 3 p) of
                 None \<Rightarrow> Some (say sh ''tsh: if requires a braced block\<newline>'' [], Inl 2)
               | Some control \<Rightarrow>
                   (case collect_block sh bytes offset depth of
                      (sh1, False, offset') \<Rightarrow> Some (say sh1 ''tsh: unterminated if block\<newline>'' [], Inl 2)
                    | (sh1, True, offset') \<Rightarrow>
                        map_option (\<lambda>(sh2, st). (sh2, Inr (st, offset'))) (run_if E run sub argc depth sh1 status control)))
            else if take 4 p = bytes_of ''for '' then
              (case script_strip_open_brace p of
                 None \<Rightarrow> Some (say sh ''tsh: for requires a braced block\<newline>'' [], Inl 2)
               | Some control \<Rightarrow>
                   (case collect_block sh bytes offset depth of
                      (sh1, False, offset') \<Rightarrow> Some (say sh1 ''tsh: unterminated for block\<newline>'' [], Inl 2)
                    | (sh1, True, offset') \<Rightarrow>
                        map_option (\<lambda>(sh2, r). (sh2, case r of Inl rc \<Rightarrow> Inl rc | Inr st \<Rightarrow> Inr (st, offset')))
                          (run_for sub argc depth sh1 status control)))
            else
              case expand_line sh argc status p of
                None \<Rightarrow> None
              | Some expanded \<Rightarrow> map_option (\<lambda>(sh1, st). (sh1, Inr (st, offset))) (run_line E run sh expanded))"

lemma collect_block_offset: "collect_block sh bytes offset depth = (sh1, ok, offset') \<Longrightarrow> offset \<le> offset'"
  by (auto simp: collect_block_def script_collect_block_def split: prod.splits dest: collect_loop_offset)

lemma script_line_offset:
  assumes "script_line E run sub argc depth bytes sh status offset p = Some (sh', Inr (st, offset'))"
  shows "offset \<le> offset'"
  using assms by (auto simp: script_line_def Let_def split: if_splits option.splits prod.splits bool.splits sum.splits dest: collect_block_offset)
    (metis collect_block_offset old.sum.exhaust)+

text \<open>\<open>first\<close> is \<open>first_line\<close>; \<open>n\<close> is the size of the data.\<close>

function script_loop :: "outside \<Rightarrow> runner \<Rightarrow> block_runner \<Rightarrow> script_source \<Rightarrow> nat \<Rightarrow> nat \<Rightarrow> nat \<Rightarrow> nat \<Rightarrow> bool \<Rightarrow> int \<Rightarrow> shell \<Rightarrow> (shell \<times> int) option" where
  "script_loop E run sub src n argc depth offset first status sh =
     (case source_bytes sh src n of
        None \<Rightarrow> None
      | Some bytes \<Rightarrow>
          (case script_read_line bytes offset LINE_MAX of
             None \<Rightarrow> Some (sh, status)
           | Some (raw, offset1) \<Rightarrow>
               if first then script_loop E run sub src n argc depth offset1 False status sh
               else
                 case script_line E run sub argc depth bytes sh status offset1 (script_trim raw) of
                   None \<Rightarrow> None
                 | Some (sh1, Inl rc) \<Rightarrow> Some (sh1, rc)
                 | Some (sh1, Inr (status1, offset2)) \<Rightarrow> script_loop E run sub src n argc depth offset2 False status1 sh1))"
  by auto
termination
proof (relation "measure (\<lambda>(E, run, sub, src, n, argc, depth, offset, first, status, sh). n - offset)", goal_cases)
  case 2
  then show ?case by (auto dest!: script_read_line_offset source_bytes_length)
next
  case 3
  then show ?case by (auto dest!: script_read_line_offset source_bytes_length script_line_offset)
qed simp

declare script_loop.simps [simp del]

text \<open>\<open>run_shell_script_data\<close> with so many levels left below \<open>SCRIPT_MAX_DEPTH\<close>.\<close>

primrec script_levels :: "outside \<Rightarrow> runner \<Rightarrow> nat \<Rightarrow> script_source \<Rightarrow> nat \<Rightarrow> nat \<Rightarrow> bool \<Rightarrow> shell \<Rightarrow> (shell \<times> int) option" where
  "script_levels E run 0 src n argc skip sh = Some (say sh ''tsh: script nesting limit reached\<newline>'' [], 2)"
| "script_levels E run (Suc levels) src n argc skip sh =
     script_loop E run (\<lambda>sh d n. script_levels E run levels (Block d) n argc False sh) src n argc (SCRIPT_MAX_DEPTH - Suc levels) 0 skip 0 sh"

definition run_shell_script_data :: "outside \<Rightarrow> runner \<Rightarrow> shell \<Rightarrow> script_source \<Rightarrow> nat \<Rightarrow> nat \<Rightarrow> bool \<Rightarrow> nat \<Rightarrow> (shell \<times> int) option" where
  "run_shell_script_data E run sh src n argc skip depth = script_levels E run (SCRIPT_MAX_DEPTH - depth) src n argc skip sh"

section \<open>Commands\<close>

definition shell_can_execute_node :: "shell \<Rightarrow> vfs_node \<Rightarrow> bool" where
  "shell_can_execute_node sh v =
     (case pt_current (k_procs (sh_k sh)) of
        None \<Rightarrow> False
      | Some p \<Rightarrow>
          let proc = k_proc (sh_k sh) p in
          if vn_type v \<noteq> VFS_NODE_FILE then False
          else if p_uid proc = 0 then vn_mode v AND 0x49 \<noteq> 0
          else drop_bit (if p_uid proc = vn_uid v then 6 else if p_gid proc = vn_gid v then 3 else 0) (vn_mode v) AND 1 = 1)"

definition store_args :: "shell \<Rightarrow> u8 list list \<Rightarrow> shell" where
  "store_args sh argv = (let args = map (take (VFS_PATH_MAX - 1)) (take (ARGV_MAX - 1) argv) in sh\<lparr>sh_args := args @ drop (length args) (sh_args sh)\<rparr>)"

text \<open>The shell, the status -1 when the file is not a script.\<close>

definition run_shell_script :: "outside \<Rightarrow> runner \<Rightarrow> shell \<Rightarrow> nat \<Rightarrow> u8 list list \<Rightarrow> bool \<Rightarrow> bool \<Rightarrow> (shell \<times> int) option" where
  "run_shell_script E run sh node argv require_exec force_script =
     (let v = k_nodes (sh_k sh) ! node in
      case script_should_run v (hd argv) force_script of
        (False, skip) \<Rightarrow> Some (sh, -1)
      | (True, skip) \<Rightarrow>
          if require_exec \<and> \<not> shell_can_execute_node sh v then Some (say sh ''%s: permission denied\<newline>'' [Arg_str (Some (hd argv))], 126)
          else
            case node_bytes v of
              None \<Rightarrow> Some (sh, 0)
            | Some bytes \<Rightarrow>
                run_shell_script_data E run (store_args sh argv) (Node node bytes) (length bytes) (min (length argv) (ARGV_MAX - 1)) skip 0)"

definition cmd_sh :: "outside \<Rightarrow> runner \<Rightarrow> shell \<Rightarrow> u8 list list \<Rightarrow> (shell \<times> int) option" where
  "cmd_sh E run sh argv =
     (if length argv < 2 then Some (say sh ''usage: sh SCRIPT [ARG...]\<newline>'' [], 1)
      else
        let cannot = Some (say sh ''sh: cannot open %s\<newline>'' [Arg_str (Some (argv ! 1))], 1) in
        case shell_lookup sh (argv ! 1) of
          None \<Rightarrow> None
        | Some None \<Rightarrow> cannot
        | Some (Some node) \<Rightarrow>
            if vn_type (k_nodes (sh_k sh) ! node) \<noteq> VFS_NODE_FILE then cannot
            else map_option (\<lambda>(sh1, rc). (sh1, if rc < 0 then 126 else rc)) (run_shell_script E run sh node (tl argv) False True))"

function read_password_loop :: "input list \<Rightarrow> u8 list \<Rightarrow> nat \<Rightarrow> (u8 list \<times> input list) option" where
  "read_password_loop inp line n =
     (case console_getchar inp of
        None \<Rightarrow> None
      | Some (ch, rest) \<Rightarrow>
          if ch = 10 \<or> ch = 13 then Some (line, rest)
          else if ch = 8 \<or> ch = 127 then read_password_loop rest (butlast line) n
          else if ch \<ge> 32 \<and> ch \<le> 255 \<and> length line + 1 < n then read_password_loop rest (line @ [word_of_int ch]) n
          else read_password_loop rest line n)"
  by auto
termination
  by (relation "measure (\<lambda>(inp, line, n). length inp)") (auto dest: console_getchar_shorter)

declare read_password_loop.simps [simp del]

definition read_password :: "shell \<Rightarrow> nat \<Rightarrow> (shell \<times> u8 list) option" where
  "read_password sh n =
     map_option (\<lambda>(line, rest). (say (sh\<lparr>sh_k := (sh_k sh)\<lparr>k_input := rest\<rparr>\<rparr>) ''\<newline>'' [], line)) (read_password_loop (k_input (sh_k sh)) [] n)"

definition shell_apply_user_session :: "shell \<Rightarrow> u8 list \<Rightarrow> shell \<times> int" where
  "shell_apply_user_session sh name =
     (case user_login (sh_users sh) name of
        (us, rc) \<Rightarrow>
          let sh1 = set_users sh us in
          if rc < 0 then (sh1, -1)
          else case pt_current (k_procs (sh_k sh)) of
            None \<Rightarrow> (sh1, -1)
          | Some p \<Rightarrow>
              let u = user_current us in
              (sh1\<lparr>sh_k := set_proc (sh_k sh1) p ((k_proc (sh_k sh1) p)\<lparr>p_uid := u_uid u, p_gid := u_gid u, p_cwd := take (VFS_PATH_MAX - 1) (u_home u)\<rparr>)\<rparr>, 0))"

definition shell_authenticate_user :: "shell \<Rightarrow> u8 list \<Rightarrow> bool \<Rightarrow> (shell \<times> int) option" where
  "shell_authenticate_user sh name interactive =
     (let tell = \<lambda>sh fmt args. if interactive then say sh fmt args else sh in
      if name = [] then Some (sh, -1)
      else if user_find_name (us_users (sh_users sh)) name = None then Some (tell sh ''login: unknown user: %s\<newline>'' [Arg_str (Some name)], -1)
      else
        case read_password (say sh ''Password: '' []) LINE_MAX of
          None \<Rightarrow> None
        | Some (sh1, password) \<Rightarrow>
            if user_has_password (sh_users sh1) name then
              (case user_login_password (sh_users sh1) name password of
                 (us, rc) \<Rightarrow>
                   if rc < 0 then Some (tell (set_users sh1 us) ''login: authentication failed\<newline>'' [], -1) else Some (set_users sh1 us, 0))
            else if password \<noteq> [] then Some (tell sh1 ''login: account has no password; press Enter on an empty password prompt\<newline>'' [], -1)
            else Some (shell_apply_user_session sh1 name))"

definition cmd_login :: "shell \<Rightarrow> u8 list list \<Rightarrow> (shell \<times> int) option" where
  "cmd_login sh argv =
     (if length argv \<noteq> 2 then Some (say sh ''usage: login USER\<newline>'' [], 1)
      else
        map_option (\<lambda>(sh1, rc).
            if rc < 0 then (sh1, 1)
            else case shell_apply_user_session sh1 (argv ! 1) of
              (sh2, rc2) \<Rightarrow>
                if rc2 < 0 then (say sh2 ''login: cannot switch session to %s\<newline>'' [Arg_str (Some (argv ! 1))], 1)
                else (say sh2 ''logged in as %s\<newline>'' [Arg_str (Some (u_name (user_current (sh_users sh2))))], 0))
          (shell_authenticate_user sh (argv ! 1) True))"

text \<open>As root, or after the password of root, with the identity of the user restored at the end.\<close>

definition sudo_restore :: "shell \<Rightarrow> nat \<Rightarrow> u8 list \<Rightarrow> u32 \<Rightarrow> u32 \<Rightarrow> u8 list \<Rightarrow> shell" where
  "sudo_restore sh p saved_user uid gid cwd =
     (let sh1 = set_users sh (fst (user_login (sh_users sh) saved_user)) in
      sh1\<lparr>sh_k := set_proc (sh_k sh1) p ((k_proc (sh_k sh1) p)\<lparr>p_uid := uid, p_gid := gid, p_cwd := take (VFS_PATH_MAX - 1) cwd\<rparr>)\<rparr>)"

definition sudo_run :: "runner \<Rightarrow> shell \<Rightarrow> nat \<Rightarrow> u8 list list \<Rightarrow> (shell \<times> int) option" where
  "sudo_run run sh p argv =
     (let proc = k_proc (sh_k sh) p; saved_user = take USER_NAME_MAX (u_name (user_current (sh_users sh))); saved_cwd = take (VFS_PATH_MAX - 1) (p_cwd proc) in
      case user_login (sh_users sh) (bytes_of ''root'') of
        (us, rc) \<Rightarrow>
          if rc < 0 then Some (say (set_users sh us) ''sudo: cannot switch to root\<newline>'' [], 1)
          else
            let sh1 = set_users sh us; root = user_current us;
                sh2 = sh1\<lparr>sh_k := set_proc (sh_k sh1) p (proc\<lparr>p_uid := u_uid root, p_gid := u_gid root\<rparr>)\<rparr> in
            map_option (\<lambda>(sh3, rc). (sudo_restore sh3 p saved_user (p_uid proc) (p_gid proc) saved_cwd, rc)) (run sh2 (tl argv) None))"

definition cmd_sudo :: "runner \<Rightarrow> shell \<Rightarrow> u8 list list \<Rightarrow> (shell \<times> int) option" where
  "cmd_sudo run sh argv =
     (if length argv < 2 then Some (say sh ''usage: sudo COMMAND [ARG...]\<newline>'' [], 1)
      else
        case pt_current (k_procs (sh_k sh)) of
          None \<Rightarrow> Some (say sh ''sudo: user database unavailable\<newline>'' [], 1)
        | Some p \<Rightarrow>
            if user_find_name (us_users (sh_users sh)) (bytes_of ''root'') = None then Some (say sh ''sudo: user database unavailable\<newline>'' [], 1)
            else if p_uid (k_proc (sh_k sh) p) \<noteq> 0 then
              (case read_password (say sh ''[sudo] password for root: '' []) LINE_MAX of
                 None \<Rightarrow> None
               | Some (sh1, password) \<Rightarrow>
                   if \<not> user_check_password (sh_users sh1) (bytes_of ''root'') password then Some (say sh1 ''sudo: authentication failed\<newline>'' [], 1)
                   else sudo_run run sh1 p argv)
            else sudo_run run sh p argv)"

definition shell_can_search_dir :: "shell \<Rightarrow> vfs_node \<Rightarrow> bool" where
  "shell_can_search_dir sh v =
     (case pt_current (k_procs (sh_k sh)) of
        None \<Rightarrow> False
      | Some p \<Rightarrow>
          let proc = k_proc (sh_k sh) p in
          if p_uid proc = 0 then True
          else drop_bit (if p_uid proc = vn_uid v then 6 else if p_gid proc = vn_gid v then 3 else 0) (vn_mode v) AND 1 = 1)"

definition cmd_cd :: "outside \<Rightarrow> shell \<Rightarrow> u8 list list \<Rightarrow> (shell \<times> int) option" where
  "cmd_cd E sh argv =
     (let path = if length argv > 1 then argv ! 1 else u_home (user_current (sh_users sh));
          fail = \<lambda>sh fmt. Some (say sh fmt [Arg_str (Some path)], 1) in
      case shell_lookup sh path of
        None \<Rightarrow> None
      | Some None \<Rightarrow> fail sh ''cd: no such directory: %s\<newline>''
      | Some (Some node) \<Rightarrow>
          if vn_type (k_nodes (sh_k sh) ! node) \<noteq> VFS_NODE_DIR then fail sh ''cd: not a directory: %s\<newline>''
          else if \<not> shell_can_search_dir sh (k_nodes (sh_k sh) ! node) then fail sh ''cd: permission denied: %s\<newline>''
          else
            case shell_call sh (Path_call (Sys_chdir (o_path_at E, path))) of
              None \<Rightarrow> None
            | Some (sh1, a) \<Rightarrow> if answer_rc a < 0 then fail sh1 ''cd: failed: %s\<newline>'' else Some (sh1, 0))"

definition to_int :: "int \<Rightarrow> int" where
  "to_int rc = sint (word_of_int rc :: 32 word)"

definition cmd_exec :: "outside \<Rightarrow> shell \<Rightarrow> u8 list list \<Rightarrow> (shell \<times> int) option" where
  "cmd_exec E sh argv =
     (let not_elf = \<lambda>sh. Some (say sh ''exec: not a valid x86_64 TNU ELF: %s\<newline>'' [Arg_str (Some (argv ! 1))], 1) in
      if length argv < 2 then Some (say sh ''usage: exec PATH [ARG...]\<newline>'' [], 1)
      else
        case shell_lookup sh (argv ! 1) of
          None \<Rightarrow> None
        | Some None \<Rightarrow> not_elf sh
        | Some (Some node) \<Rightarrow>
            (case elf64_validate (node_bytes (k_nodes (sh_k sh) ! node)) of
               None \<Rightarrow> None
             | Some None \<Rightarrow> not_elf sh
             | Some (Some info) \<Rightarrow>
                 map_option (\<lambda>(sh1, rc). if rc < 0 then (say sh1 ''exec: failed: %s\<newline>'' [Arg_str (Some (argv ! 1))], 1) else (sh1, to_int rc))
                   (o_exec E sh (argv ! 1) (tl argv))))"

definition cmd_history :: "shell \<Rightarrow> shell" where
  "cmd_history sh =
     fold (\<lambda>(i, line) sh. say sh ''%2llu  %s\<newline>'' [Arg_int (word_of_nat i), Arg_str (Some line)]) (enumerate 1 (sh_history sh)) sh"

definition cmd_env :: "shell \<Rightarrow> shell" where
  "cmd_env sh = fold (\<lambda>(key, val) sh. say sh ''%s=%s\<newline>'' [Arg_str (Some key), Arg_str (Some val)]) (sh_envs sh) sh"

definition builtin_names :: "u8 list list" where
  "builtin_names = map bytes_of [''help'', ''cd'', ''login'', ''exec'', ''history'', ''env'', ''set'', ''sh'', ''sudo'', ''sysinstall'', ''linuxsh'']"

text \<open>An entry of \<open>commands\<close>; \<open>help\<close>, \<open>sysinstall\<close> and \<open>linuxsh\<close> are outside the model.\<close>

definition run_builtin :: "outside \<Rightarrow> runner \<Rightarrow> shell \<Rightarrow> u8 list list \<Rightarrow> (shell \<times> int) option" where
  "run_builtin E run sh argv =
     (let name = hd argv in
      if name = bytes_of ''cd'' then cmd_cd E sh argv
      else if name = bytes_of ''login'' then cmd_login sh argv
      else if name = bytes_of ''exec'' then cmd_exec E sh argv
      else if name = bytes_of ''history'' then Some (cmd_history sh, 0)
      else if name = bytes_of ''env'' then Some (cmd_env sh, 0)
      else if name = bytes_of ''set'' then
        (case cmd_set (sh_envs sh) argv of
           ((envs, rc), out) \<Rightarrow> let sh1 = sh\<lparr>sh_envs := envs\<rparr> in Some (if out = [] then sh1 else say sh1 ''usage: set KEY VALUE\<newline>'' [], rc))
      else if name = bytes_of ''sh'' then cmd_sh E run sh argv
      else if name = bytes_of ''sudo'' then cmd_sudo run sh argv
      else o_builtin E name sh argv)"

definition bin_entry_exists :: "shell \<Rightarrow> u8 list \<Rightarrow> bool option" where
  "bin_entry_exists sh name =
     (let find = (\<lambda>fmt. vfs_lookup (k_fs (sh_k sh)) (Some (fmt_line VFS_PATH_MAX fmt [Arg_str (Some name)])) (Some (bytes_of ''/''))) in
      case find ''/bin/%s'' of
        None \<Rightarrow> None
      | Some (Some n) \<Rightarrow> Some True
      | Some None \<Rightarrow> map_option (\<lambda>r. r \<noteq> None) (find ''/sbin/%s''))"

definition shell_path :: "envs \<Rightarrow> u8 list" where
  "shell_path envs =
     (case env_get_value envs (bytes_of ''PATH'') of
        Some path \<Rightarrow> if path \<noteq> [] then path else bytes_of ''/bin:/sbin:/usr/bin:/usr/games''
      | None \<Rightarrow> bytes_of ''/bin:/sbin:/usr/bin:/usr/games'')"

text \<open>The directories of the search path; the node that is found and its path.\<close>

function path_loop :: "shell \<Rightarrow> u8 list \<Rightarrow> u8 list \<Rightarrow> (u8 list \<times> nat) option option" where
  "path_loop sh path command =
     (if path = [] then Some None
      else
        let dir = take (VFS_PATH_MAX - 1) (takeWhile (\<lambda>c. c \<noteq> chr CHR '':'') path);
            resolved = if dir \<noteq> [] then fmt_line VFS_PATH_MAX ''%s/%s'' [Arg_str (Some dir), Arg_str (Some command)]
                       else fmt_line VFS_PATH_MAX ''%s'' [Arg_str (Some command)];
            rest = drop (length dir) path in
        case shell_lookup sh resolved of
          None \<Rightarrow> None
        | Some (Some node) \<Rightarrow> Some (Some (resolved, node))
        | Some None \<Rightarrow> path_loop sh (if rest \<noteq> [] \<and> hd rest = chr CHR '':'' then tl rest else rest) command)"
  by auto
termination
proof (relation "measure (\<lambda>(sh, path, command). length path)", goal_cases)
  case (2 sh path command dir resolved rest)
  then show ?case
    by (cases path) (auto simp: VFS_PATH_MAX_def Suc_le_eq less_Suc_eq_le intro: diff_le_self)
qed simp

declare path_loop.simps [simp del]

definition resolve_command_node :: "shell \<Rightarrow> u8 list \<Rightarrow> (u8 list \<times> nat) option option" where
  "resolve_command_node sh command =
     (if command = [] then Some None
      else if slash \<in> set command then
        (let resolved = expand_tilde (sh_users sh) command VFS_PATH_MAX in map_option (map_option (\<lambda>n. (resolved, n))) (shell_lookup sh resolved))
      else path_loop sh (shell_path (sh_envs sh)) command)"

text \<open>A file that is found: as a script, as a program, and as a script again when that fails and it looks like text.\<close>

definition run_file :: "outside \<Rightarrow> runner \<Rightarrow> shell \<Rightarrow> u8 list \<Rightarrow> nat \<Rightarrow> u8 list list \<Rightarrow> (shell \<times> int) option" where
  "run_file E run sh path node argv =
     (let v = \<lambda>sh. k_nodes (sh_k sh) ! node;
          failed = \<lambda>sh rc. Some (say sh ''tsh: exec failed: %s (returned %ld)\<newline>'' [Arg_str (Some path), Arg_int (word_of_int rc)], 126) in
      if \<not> shell_can_execute_node sh (v sh) then Some (say sh ''%s: permission denied\<newline>'' [Arg_str (Some (hd argv))], 126)
      else
        case run_shell_script E run sh node argv True False of
          None \<Rightarrow> None
        | Some (sh1, script_rc) \<Rightarrow>
            if script_rc \<ge> 0 then Some (sh1, script_rc)
            else
              case o_exec E sh1 path argv of
                None \<Rightarrow> None
              | Some (sh2, rc) \<Rightarrow>
                  if rc \<ge> 0 then Some (sh2, to_int rc)
                  else if script_looks_textual (v sh2) then
                    (case run_shell_script E run sh2 node argv True True of
                       None \<Rightarrow> None
                     | Some (sh3, fallback_rc) \<Rightarrow> if fallback_rc \<ge> 0 then Some (sh3, fallback_rc) else failed sh3 rc)
                  else failed sh2 rc)"

definition command_step :: "outside \<Rightarrow> runner \<Rightarrow> runner" where
  "command_step E run sh argv stdin_data =
     (if argv = [] then Some (sh, 0)
      else if length argv = 3 \<and> (argv ! 1 = bytes_of ''=='' \<or> argv ! 1 = bytes_of ''!='') then
        Some (sh, if (argv ! 0 = argv ! 2) = (argv ! 1 = bytes_of ''=='') then 0 else 1)
      else if hd argv \<in> set builtin_names then run_builtin E run sh argv
      else
        let cmd_name = command_basename (hd argv) in
        case (if o_applet E cmd_name then bin_entry_exists sh cmd_name else Some False) of
          None \<Rightarrow> None
        | Some bin \<Rightarrow>
            if o_applet E cmd_name \<and> (bin \<or> cmd_name = bytes_of ''layout'') then o_run_applet E sh argv stdin_data
            else
              case resolve_command_node sh (hd argv) of
                None \<Rightarrow> None
              | Some None \<Rightarrow> Some (say sh ''%s: command not found\<newline>'' [Arg_str (Some (hd argv))], 127)
              | Some (Some (path, node)) \<Rightarrow> run_file E run sh path node argv)"

text \<open>Commands start scripts and \<open>sudo\<close>, which start commands: \<open>levels\<close> bounds the nesting of the calls.\<close>

primrec run_command :: "outside \<Rightarrow> nat \<Rightarrow> runner" where
  "run_command E 0 = (\<lambda>sh argv stdin_data. None)"
| "run_command E (Suc levels) = command_step E (run_command E levels)"

end
