(* ===== verification/Tsh_Blocks.thy ===== *)
theory Tsh_Blocks
  imports Tsh_Run
begin

text \<open>
  Structured scripts: what the interpreter of \<open>Tsh_Run\<close>, which works on the bytes of a script and copies
  the blocks of \<open>if\<close> and \<open>for\<close> into static buffers, computes on the text of a tree of statements.

  It is stated for commands that do not use those buffers: a command that runs a script of its own
  overwrites them.
\<close>

section \<open>The two block buffers\<close>

definition with_blocks :: "u8 list list \<Rightarrow> u8 list list list \<Rightarrow> shell \<Rightarrow> shell" where
  "with_blocks b v sh = sh\<lparr>sh_blocks := b, sh_values := v\<rparr>"

lemma stored_simps [simp]:
  "sh_k (with_blocks b v sh) = sh_k sh" "sh_envs (with_blocks b v sh) = sh_envs sh" "sh_ops (with_blocks b v sh) = sh_ops sh" "sh_args (with_blocks b v sh) = sh_args sh"
  "sh_pipes (with_blocks b v sh) = sh_pipes sh" "sh_history (with_blocks b v sh) = sh_history sh" "sh_clip (with_blocks b v sh) = sh_clip sh" "sh_capture (with_blocks b v sh) = sh_capture sh"
  "sh_blocks (with_blocks b v sh) = b" "sh_values (with_blocks b v sh) = v"
  by (simp_all add: with_blocks_def)

lemma stored_updates [simp]:
  "(with_blocks b v sh)\<lparr>sh_k := k\<rparr> = with_blocks b v (sh\<lparr>sh_k := k\<rparr>)" "(with_blocks b v sh)\<lparr>sh_envs := e\<rparr> = with_blocks b v (sh\<lparr>sh_envs := e\<rparr>)"
  "(with_blocks b v sh)\<lparr>sh_ops := ops\<rparr> = with_blocks b v (sh\<lparr>sh_ops := ops\<rparr>)" "(with_blocks b v sh)\<lparr>sh_pipes := q\<rparr> = with_blocks b v (sh\<lparr>sh_pipes := q\<rparr>)"
  "(with_blocks b v sh)\<lparr>sh_capture := c\<rparr> = with_blocks b v (sh\<lparr>sh_capture := c\<rparr>)"
  "(with_blocks b v sh)\<lparr>sh_k := k, sh_capture := c\<rparr> = with_blocks b v (sh\<lparr>sh_k := k, sh_capture := c\<rparr>)"
  "(with_blocks b v sh)\<lparr>sh_blocks := b'\<rparr> = with_blocks b' v sh" "(with_blocks b v sh)\<lparr>sh_values := v'\<rparr> = with_blocks b v' sh"
  by (simp_all add: with_blocks_def)

definition framed :: "u8 list list \<Rightarrow> u8 list list list \<Rightarrow> (shell \<times> 'a) option \<Rightarrow> (shell \<times> 'a) option" where
  "framed b v r = map_option (\<lambda>(s, x). (with_blocks b v s, x)) r"

lemma framed_simps [simp]: "framed b v None = None" "framed b v (Some (s, x)) = Some (with_blocks b v s, x)"
  by (simp_all add: framed_def)

definition storage_free :: "runner \<Rightarrow> bool" where
  "storage_free run \<longleftrightarrow> (\<forall>b v sh argv inp. run (with_blocks b v sh) argv inp = framed b v (run sh argv inp))"

lemma stored_basics [simp]:
  "say (with_blocks b v sh) fmt args = with_blocks b v (say sh fmt args)" "shell_lookup (with_blocks b v sh) path = shell_lookup sh path"
  "shell_call (with_blocks b v sh) c = framed b v (shell_call sh c)" "read_node_text (with_blocks b v sh) path n = read_node_text sh path n"
  "uncaptured (with_blocks b v sh) = uncaptured sh" "captured_text (with_blocks b v sh) = captured_text sh"
  "console_capture_begin (with_blocks b v sh) = with_blocks b v (console_capture_begin sh)"
  "console_capture_end (with_blocks b v sh) = (with_blocks b v (fst (console_capture_end sh)), snd (console_capture_end sh))"
  "expand_line (with_blocks b v sh) argc st inp = expand_line sh argc st inp" "set_env (with_blocks b v sh) key val = with_blocks b v (set_env sh key val)"
  "shell_split (with_blocks b v sh) line = (with_blocks b v (fst (shell_split sh line)), snd (shell_split sh line))"
  by (simp_all add: say_def shell_lookup_def shell_call_def framed_def read_node_text_def uncaptured_def captured_text_def console_capture_begin_def
      console_capture_end_def expand_line_def script_argv_def set_env_def shell_split_def map_option_case case_prod_unfold split: option.split)

lemma write_output_stored [simp]: "write_output E (with_blocks b v sh) path bytes = framed b v (write_output E sh path bytes)"
  by (auto simp: write_output_def Let_def map_option_case split: option.splits prod.splits)

lemma stage_end_stored [simp]: "stage_end E (with_blocks b v sh) capture output_path rc = framed b v (stage_end E sh capture output_path rc)"
  by (auto simp: stage_end_def split: option.splits prod.splits bool.splits)

lemma run_stage_stored:
  assumes "storage_free run"
  shows "run_stage E run (with_blocks b v sh) tokens inp capture = framed b v (run_stage E run sh tokens inp capture)"
proof -
  have r: "run (with_blocks b v sh) argv inp = framed b v (run sh argv inp)" for b v sh argv inp using assms by (simp add: storage_free_def)
  show ?thesis by (auto simp: run_stage_def Let_def r split: option.splits sum.splits prod.splits)
qed

lemma pipeline_stored:
  assumes "storage_free run"
  shows "pipeline_loop E run (with_blocks b v sh) tokens input use rc = framed b v (pipeline_loop E run sh tokens input use rc)"
  using assms
proof (induction E run sh tokens input use rc rule: pipeline_loop.induct)
  case (1 E run sh tokens input use rc)
  let ?seg = "takeWhile (\<lambda>t. live sh t \<noteq> bytes_of ''|'') tokens"
  let ?stage = "run_stage E run sh (map (live sh) ?seg) (map_option (\<lambda>i. c_string (sh_pipes sh ! i)) input) (?seg \<noteq> tokens)"
  note st = run_stage_stored [OF 1(2), of E b v sh "map (live sh) ?seg" "map_option (\<lambda>i. c_string (sh_pipes sh ! i)) input" "?seg \<noteq> tokens"]
  show ?case
  proof (cases "tokens = [] \<or> ?stage = None")
    case True
    then show ?thesis using st by (subst (1 2) pipeline_loop.simps) (auto simp: Let_def)
  next
    case False
    then obtain sh1 rc1 out where s: "?stage = Some (sh1, rc1, out)" by auto
    let ?sh2 = "case out of None \<Rightarrow> sh1 | Some p \<Rightarrow> sh1\<lparr>sh_pipes := (sh_pipes sh1)[use := p]\<rparr>"
    have sh2: "(case out of None \<Rightarrow> with_blocks b v sh1 | Some p \<Rightarrow> (with_blocks b v sh1)\<lparr>sh_pipes := (sh_pipes (with_blocks b v sh1))[use := p]\<rparr>) = with_blocks b v ?sh2"
      by (simp split: option.split)
    have IH: "?seg \<noteq> tokens \<Longrightarrow> pipeline_loop E run (with_blocks b v ?sh2) (drop (length ?seg + 1) tokens) (Some use) (1 - use) rc1 =
        framed b v (pipeline_loop E run ?sh2 (drop (length ?seg + 1) tokens) (Some use) (1 - use) rc1)"
      using False s 1(2) by (intro 1(1) [OF _ refl refl _ refl refl refl _]) auto
    show ?thesis using False st s sh2 IH by (subst (1 2) pipeline_loop.simps) (simp add: Let_def)
  qed
qed

lemma tokens_stored:
  assumes "storage_free run"
  shows "run_tokens E run (with_blocks b v sh) argv = framed b v (run_tokens E run sh argv)"
  using assms
proof (induction E run sh argv rule: run_tokens.induct)
  case (1 E run sh argv)
  let ?seg = "takeWhile (\<lambda>t. live sh t \<noteq> bytes_of ''&&'') argv"
  have p: "run_pipeline E run (with_blocks b v sh) ?seg = framed b v (run_pipeline E run sh ?seg)"
    by (simp add: run_pipeline_def pipeline_stored [OF 1(2)])
  show ?case
  proof (cases "?seg = [] \<or> run_pipeline E run sh ?seg = None")
    case True
    then show ?thesis using p by (subst (1 2) run_tokens.simps) (auto simp: Let_def)
  next
    case False
    then obtain sh1 rc where s: "run_pipeline E run sh ?seg = Some (sh1, rc)" by auto
    show ?thesis using False p s 1(1) [OF refl _ s refl] 1(2) by (subst (1 2) run_tokens.simps) (auto simp: Let_def)
  qed
qed

lemma run_line_stored: "storage_free run \<Longrightarrow> run_line E run (with_blocks b v sh) line = framed b v (run_line E run sh line)"
  by (simp add: run_line_def case_prod_unfold tokens_stored)

lemma condition_stored: "storage_free run \<Longrightarrow> script_condition_status E run (with_blocks b v sh) c = framed b v (script_condition_status E run sh c)"
  by (simp add: script_condition_status_def Let_def run_line_stored map_option_case split: option.split)

section \<open>Structured scripts\<close>

text \<open>A line that is not part of a block; a head, the statements of the block, and the line that closes it.\<close>

datatype stmt =
    Simple "u8 list"
  | If_block "u8 list" "stmt list" "u8 list"
  | For_block "u8 list" "stmt list" "u8 list"

primrec stmt_lines :: "stmt \<Rightarrow> u8 list list" and stmts_lines :: "stmt list \<Rightarrow> u8 list list" where
  "stmt_lines (Simple l) = [l]"
| "stmt_lines (If_block h body c) = h # stmts_lines body @ [c]"
| "stmt_lines (For_block h body c) = h # stmts_lines body @ [c]"
| "stmts_lines [] = []"
| "stmts_lines (s # ss) = stmt_lines s @ stmts_lines ss"

definition stmts_text :: "stmt list \<Rightarrow> u8 list" where
  "stmts_text ss = lines_text (stmts_lines ss)"

definition if_line :: "u8 list \<Rightarrow> bool" where "if_line p \<longleftrightarrow> take 3 p = bytes_of ''if ''"
definition for_line :: "u8 list \<Rightarrow> bool" where "for_line p \<longleftrightarrow> take 4 p = bytes_of ''for ''"

definition if_control :: "u8 list \<Rightarrow> u8 list option" where "if_control h = script_strip_open_brace (drop 3 (script_trim h))"
definition for_control :: "u8 list \<Rightarrow> u8 list option" where "for_control h = script_strip_open_brace (script_trim h)"

text \<open>Well-formed statements that nest at most so many blocks.\<close>

primrec stmt_wf :: "stmt \<Rightarrow> nat \<Rightarrow> bool" and stmts_wf :: "stmt list \<Rightarrow> nat \<Rightarrow> bool" where
  "stmt_wf (Simple l) = (\<lambda>n. line_ok l \<and> \<not> opens_block l \<and> \<not> closes_block l \<and> \<not> if_line (script_trim l) \<and> \<not> for_line (script_trim l))"
| "stmt_wf (If_block h body c) = (\<lambda>n. n \<noteq> 0 \<and> line_ok h \<and> opens_block h \<and> if_line (script_trim h) \<and> if_control h \<noteq> None \<and> stmts_wf body (n - 1) \<and>
     length (stmts_text body) + 1 < SCRIPT_BLOCK_MAX \<and> line_ok c \<and> closes_block c)"
| "stmt_wf (For_block h body c) = (\<lambda>n. n \<noteq> 0 \<and> line_ok h \<and> opens_block h \<and> for_line (script_trim h) \<and> for_control h \<noteq> None \<and> stmts_wf body (n - 1) \<and>
     length (stmts_text body) + 1 < SCRIPT_BLOCK_MAX \<and> line_ok c \<and> closes_block c)"
| "stmts_wf [] = (\<lambda>n. True)"
| "stmts_wf (s # ss) = (\<lambda>n. stmt_wf s n \<and> stmts_wf ss n)"

text \<open>The meaning of a script.  \<open>Inl\<close> is the end of the list of statements, by \<open>exit\<close> or an error.\<close>

definition simple_line :: "outside \<Rightarrow> runner \<Rightarrow> nat \<Rightarrow> shell \<Rightarrow> int \<Rightarrow> u8 list \<Rightarrow> (shell \<times> (int + int)) option" where
  "simple_line E run argc sh status p =
     (if p = [] \<or> hd p = chr CHR ''#'' then Some (sh, Inr status)
      else
        case script_assignment (sh_envs sh) p of
          (envs, True) \<Rightarrow> Some (sh\<lparr>sh_envs := envs\<rparr>, Inr 0)
        | (envs, False) \<Rightarrow>
            if take 4 p = bytes_of ''exit'' \<and> (length p = 4 \<or> blank (p ! 4)) then map_option (\<lambda>rc. (sh, Inl rc)) (exit_status status p)
            else
              case expand_line sh argc status p of
                None \<Rightarrow> None
              | Some expanded \<Rightarrow> map_option (\<lambda>(sh1, st). (sh1, Inr st)) (run_line E run sh expanded))"

fun each_value :: "(shell \<Rightarrow> (shell \<times> int) option) \<Rightarrow> token \<Rightarrow> u8 list list \<Rightarrow> shell \<Rightarrow> int \<Rightarrow> (shell \<times> int) option" where
  "each_value body name [] sh status = Some (sh, status)"
| "each_value body name (val # vals) sh status =
     (case body (set_env sh (live sh name) val) of
        None \<Rightarrow> None
      | Some (sh1, status1) \<Rightarrow> each_value body name vals sh1 status1)"

definition exec_if :: "outside \<Rightarrow> runner \<Rightarrow> nat \<Rightarrow> u8 list \<Rightarrow> (shell \<Rightarrow> (shell \<times> int) option) \<Rightarrow> shell \<Rightarrow> int \<Rightarrow> (shell \<times> (int + int)) option" where
  "exec_if E run argc control body sh status =
     (case expand_line sh argc status control of
        None \<Rightarrow> None
      | Some expanded \<Rightarrow>
          (case script_condition_status E run sh expanded of
             None \<Rightarrow> None
           | Some (sh1, rc) \<Rightarrow> if rc = 0 then map_option (\<lambda>(sh2, st). (sh2, Inr st)) (body sh1) else Some (sh1, Inr 0)))"

definition exec_for :: "nat \<Rightarrow> u8 list \<Rightarrow> (shell \<Rightarrow> (shell \<times> int) option) \<Rightarrow> shell \<Rightarrow> int \<Rightarrow> (shell \<times> (int + int)) option" where
  "exec_for argc control body sh status =
     (case expand_line sh argc status control of
        None \<Rightarrow> None
      | Some expanded \<Rightarrow>
          (case shell_split sh expanded of
             (sh1, toks) \<Rightarrow>
               if length toks < 4 \<or> live sh1 (toks ! 0) \<noteq> bytes_of ''for'' \<or> live sh1 (toks ! 2) \<noteq> bytes_of ''in'' then
                 Some (say sh1 ''tsh: usage: for NAME in WORDS { ... }\<newline>'' [], Inl 2)
               else
                 case for_values (sh_k sh1) (map (live sh1) (drop 3 toks)) [] of
                   None \<Rightarrow> None
                 | Some values \<Rightarrow> map_option (\<lambda>(sh2, st). (sh2, Inr st)) (each_value body (toks ! 1) values sh1 status)))"

text \<open>\<open>same\<close> says that the file of the script is still the one that is being run; it is looked at before each statement.\<close>

primrec exec_stmt :: "outside \<Rightarrow> runner \<Rightarrow> nat \<Rightarrow> stmt \<Rightarrow> shell \<Rightarrow> int \<Rightarrow> (shell \<times> (int + int)) option"
    and exec_stmts :: "outside \<Rightarrow> runner \<Rightarrow> nat \<Rightarrow> stmt list \<Rightarrow> (shell \<Rightarrow> bool) \<Rightarrow> shell \<Rightarrow> int \<Rightarrow> (shell \<times> int) option" where
  "exec_stmt E run argc (Simple l) = (\<lambda>sh status. simple_line E run argc sh status (script_trim l))"
| "exec_stmt E run argc (If_block h body c) = exec_if E run argc (the (if_control h)) (\<lambda>sh. exec_stmts E run argc body (\<lambda>_. True) sh 0)"
| "exec_stmt E run argc (For_block h body c) = exec_for argc (the (for_control h)) (\<lambda>sh. exec_stmts E run argc body (\<lambda>_. True) sh 0)"
| "exec_stmts E run argc [] = (\<lambda>same sh status. if same sh then Some (sh, status) else None)"
| "exec_stmts E run argc (s # ss) = (\<lambda>same sh status.
     if \<not> same sh then None
     else case exec_stmt E run argc s sh status of
       None \<Rightarrow> None
     | Some (sh1, Inl rc) \<Rightarrow> Some (sh1, rc)
     | Some (sh1, Inr st) \<Rightarrow> exec_stmts E run argc ss same sh1 st)"

lemma stmts_wf_all: "stmts_wf ss n \<longleftrightarrow> (\<forall>s \<in> set ss. stmt_wf s n)"
  by (induction ss) auto

lemma block_body_append: "block_body ls \<Longrightarrow> block_body ls' \<Longrightarrow> block_body (ls @ ls')"
  by (induction rule: block_body.induct) (auto intro: block_body.intros)

lemma stmts_body: "(\<And>s. s \<in> set ss \<Longrightarrow> block_body (stmt_lines s)) \<Longrightarrow> block_body (stmts_lines ss)"
  by (induction ss) (auto intro: block_body.nil block_body_append)

lemma stmt_body: "stmt_wf s n \<Longrightarrow> block_body (stmt_lines s)"
proof (induction s arbitrary: n)
  case (Simple l)
  then show ?case by (simp add: block_body.plain block_body.nil)
next
  case (If_block h body c)
  then have "block_body (stmts_lines body)" by (auto simp: stmts_wf_all intro!: stmts_body)
  then show ?case using If_block.prems by (simp add: block_body.block block_body.nil)
next
  case (For_block h body c)
  then have "block_body (stmts_lines body)" by (auto simp: stmts_wf_all intro!: stmts_body)
  then show ?case using For_block.prems by (simp add: block_body.block block_body.nil)
qed

lemma wf_body: "stmts_wf ss n \<Longrightarrow> block_body (stmts_lines ss)"
  by (auto simp: stmts_wf_all intro: stmts_body stmt_body)

lemma no_nul: "block_body ls \<Longrightarrow> 0 \<notin> set (lines_text ls)"
  by (induction rule: block_body.induct) (auto simp: line_ok_def)

text \<open>The result of a line, with the offset of the next one.\<close>

definition after :: "nat \<Rightarrow> int + int \<Rightarrow> int + int \<times> nat" where
  "after offset r = (case r of Inl rc \<Rightarrow> Inl rc | Inr st \<Rightarrow> Inr (st, offset))"

lemma after_simps [simp]: "after offset (Inl rc) = Inl rc" "after offset (Inr st) = Inr (st, offset)"
  by (simp_all add: after_def)

text \<open>A line that begins with \<open>if\<close> or \<open>for\<close> is no assignment and no comment.\<close>

lemma keyword_not_assignment:
  assumes "take n p = kw" "32 \<in> set kw" "chr CHR ''='' \<notin> set kw"
  shows "script_assignment envs p = (envs, False)"
proof -
  have p: "p = kw @ drop n p" using assms(1) by (metis append_take_drop_id)
  let ?name = "takeWhile (\<lambda>c. c \<noteq> chr CHR ''='') p"
  have "set kw \<subseteq> set ?name"
    by (subst p, subst takeWhile_append2) (use assms(3) in auto)
  then have "32 \<in> set ?name" using assms(2) by auto
  moreover have "\<not> letter 32" "\<not> digit 32" by (simp_all add: letter_def digit_def chr_def)
  ultimately have "\<not> env_name ?name" unfolding env_name_def by blast
  then show ?thesis by (simp add: script_assignment_def Let_def)
qed

lemma script_line_simple:
  assumes "\<not> if_line p" "\<not> for_line p"
  shows "script_line E run sub argc depth bytes sh status offset p =
    map_option (\<lambda>(s, r). (s, after offset r)) (simple_line E run argc sh status p)"
  using assms
  by (auto simp: script_line_def simple_line_def after_def if_line_def for_line_def map_option_case split: option.splits prod.splits bool.splits)

lemma script_line_if:
  assumes "if_line p" "script_strip_open_brace (drop 3 p) = Some control" "collect_block sh bytes offset depth = (sh1, True, offset')"
  shows "script_line E run sub argc depth bytes sh status offset p =
    map_option (\<lambda>(sh2, st). (sh2, Inr (st, offset'))) (run_if E run sub argc depth sh1 status control)"
proof -
  have kw: "take 3 p = [105, 102, 32]" using assms(1) by (simp add: if_line_def bytes_of_def)
  then have "p \<noteq> []" "hd p = 105" "take 4 p \<noteq> bytes_of ''exit''" by (cases p; auto simp: bytes_of_def take_Cons' split: if_splits)+
  then show ?thesis using keyword_not_assignment [OF kw] assms kw by (simp add: script_line_def bytes_of_def chr_def)
qed

lemma script_line_for:
  assumes "for_line p" "script_strip_open_brace p = Some control" "collect_block sh bytes offset depth = (sh1, True, offset')"
  shows "script_line E run sub argc depth bytes sh status offset p =
    map_option (\<lambda>(sh2, r). (sh2, after offset' r)) (run_for sub argc depth sh1 status control)"
proof -
  have kw: "take 4 p = [102, 111, 114, 32]" using assms(1) by (simp add: for_line_def bytes_of_def)
  then have "p \<noteq> []" "hd p = 102" "take 3 p \<noteq> [105, 102, 32]" by (cases p; auto simp: take_Cons' split: if_splits)+
  then show ?thesis using keyword_not_assignment [OF kw] assms kw by (simp add: script_line_def after_def bytes_of_def chr_def)
qed

section \<open>The interpreter computes the meaning\<close>

text \<open>The buffers below a depth are kept, and there are as many as before.\<close>

definition kept :: "nat \<Rightarrow> u8 list list \<Rightarrow> u8 list list list \<Rightarrow> u8 list list \<Rightarrow> u8 list list list \<Rightarrow> bool" where
  "kept d b v b' v' \<longleftrightarrow> length b' = length b \<and> length v' = length v \<and> take d b' = take d b \<and> take d v' = take d v"

definition agrees :: "nat \<Rightarrow> u8 list list \<Rightarrow> u8 list list list \<Rightarrow> (shell \<times> 'a) option \<Rightarrow> (shell \<times> 'a) option \<Rightarrow> bool" where
  "agrees d b v r r' \<longleftrightarrow>
     (case r' of None \<Rightarrow> r = None | Some (s, x) \<Rightarrow> \<exists>b' v'. r = Some (with_blocks b' v' s, x) \<and> kept d b v b' v')"

lemma kept_refl [simp]: "kept d b v b v"
  by (simp add: kept_def)

lemma kept_trans: "kept d b v b1 v1 \<Longrightarrow> kept d b1 v1 b2 v2 \<Longrightarrow> kept d b v b2 v2"
  by (simp add: kept_def)

lemma take_less: "take d' xs = take d' ys \<Longrightarrow> d \<le> d' \<Longrightarrow> take d xs = take d ys"
  by (metis min.absorb1 take_take)

lemma kept_less: "kept d' b v b' v' \<Longrightarrow> d \<le> d' \<Longrightarrow> kept d b v b' v'"
  by (auto simp: kept_def intro: take_less)

lemma take_nth_eq: "take (Suc d) xs = take (Suc d) ys \<Longrightarrow> xs ! d = ys ! d"
  by (metis nth_take lessI)

lemma kept_nth: "kept (Suc d) b v b' v' \<Longrightarrow> b' ! d = b ! d \<and> v' ! d = v ! d"
  by (auto simp: kept_def intro: take_nth_eq)

lemma kept_update: "kept d b v (b[d := x]) v" "kept d b v b (v[d := y])"
  by (simp_all add: kept_def)

lemma agrees_simps [simp]:
  "agrees d b v r None \<longleftrightarrow> r = None" "agrees d b v r (Some (s, x)) \<longleftrightarrow> (\<exists>b' v'. r = Some (with_blocks b' v' s, x) \<and> kept d b v b' v')"
  by (simp_all add: agrees_def)

lemma agrees_framed: "agrees d b v (framed b v r) r"
proof (cases r)
  case (Some p)
  have "\<exists>b' v'. with_blocks b v (fst p) = with_blocks b' v' (fst p) \<and> kept d b v b' v'" by (intro exI [of _ b] exI [of _ v]) simp
  then show ?thesis using Some by (cases p) simp
qed simp

lemma agrees_map: "agrees d b v r r' \<Longrightarrow> agrees d b v (map_option (\<lambda>(s, x). (s, f x)) r) (map_option (\<lambda>(s, x). (s, f x)) r')"
  by (auto simp: agrees_def split: option.splits)

lemma agrees_from: "kept d b v b1 v1 \<Longrightarrow> agrees d' b1 v1 r r' \<Longrightarrow> d \<le> d' \<Longrightarrow> agrees d b v r r'"
proof (cases r')
  case (Some p)
  assume K: "kept d b v b1 v1" and A: "agrees d' b1 v1 r r'" and D: "d \<le> d'"
  obtain s x where p: "p = (s, x)" by (cases p)
  then obtain b' v' where r: "r = Some (with_blocks b' v' s, x)" "kept d' b1 v1 b' v'" using A Some by auto
  have "kept d b v b' v'" using kept_trans [OF K kept_less [OF r(2) D]] .
  then show ?thesis using r(1) Some p by auto
qed (simp add: agrees_def)

definition script_sub :: "outside \<Rightarrow> runner \<Rightarrow> nat \<Rightarrow> nat \<Rightarrow> block_runner" where
  "script_sub E run argc n = (\<lambda>sh d k. script_levels E run n (Block d) k argc False sh)"

text \<open>The claim for scripts with so many levels below them.\<close>

definition refines_at :: "outside \<Rightarrow> runner \<Rightarrow> nat \<Rightarrow> nat \<Rightarrow> bool" where
  "refines_at E run argc n \<longleftrightarrow> (\<forall>ss sa status b v pre src len same.
     stmts_wf ss n \<longrightarrow> length b = SCRIPT_MAX_DEPTH \<longrightarrow> length v = SCRIPT_MAX_DEPTH \<longrightarrow>
     (\<forall>b' v' s. take (3 - n) b' = take (3 - n) b \<longrightarrow>
        source_bytes (with_blocks b' v' s) src len = (if same s then Some (pre @ stmts_text ss) else None)) \<longrightarrow>
     agrees (3 - n) b v (script_loop E run (script_sub E run argc n) src len argc (3 - n) (length pre) False status (with_blocks b v sa))
       (exec_stmts E run argc ss same sa status))"

lemma c_string_put: "0 \<notin> set str \<Longrightarrow> c_string (put_string old str) = str"
  by (simp add: put_string_def takeWhile_tail) (metis takeWhile_append2 takeWhile.simps(2) append_Nil2)

lemma block_runs:
  assumes "refines_at E run argc m" "stmts_wf body m" "m < 3" "length b = SCRIPT_MAX_DEPTH" "length v = SCRIPT_MAX_DEPTH"
    "b ! (2 - m) = put_string old (stmts_text body)"
  shows "agrees (3 - m) b v (run_block (script_sub E run argc (Suc m)) (with_blocks b v sa) (2 - m)) (exec_stmts E run argc body (\<lambda>_. True) sa 0)"
proof -
  let ?t = "stmts_text body"
  have z: "0 \<notin> set ?t" using no_nul [OF wf_body [OF assms(2)]] by (simp add: stmts_text_def)
  have k: "length (c_string (b ! (2 - m))) = length ?t" using c_string_put [OF z] assms(6) by simp
  have "Suc (2 - m) = 3 - m" using assms(3) by simp
  then have src: "source_bytes (with_blocks b' v' s) (Block (2 - m)) (length ?t) = Some ?t" if "take (3 - m) b' = take (3 - m) b" for b' v' s
    using take_nth_eq [of "2 - m" b' b] that assms(6) by (simp add: source_bytes_def put_string_def)
  have "agrees (3 - m) b v (script_loop E run (script_sub E run argc m) (Block (2 - m)) (length ?t) argc (3 - m) (length ([] :: u8 list)) False 0 (with_blocks b v sa))
      (exec_stmts E run argc body (\<lambda>_. True) sa 0)"
    using assms(1) [unfolded refines_at_def, rule_format, of body b v "Block (2 - m)" "length ?t" "\<lambda>_. True" "[]"] assms src by simp
  then show ?thesis using k by (simp add: run_block_def script_sub_def SCRIPT_MAX_DEPTH_def)
qed

lemma for_runs:
  assumes body: "\<And>b v sa. length b = n \<Longrightarrow> length v = n \<Longrightarrow> b ! d = blk \<Longrightarrow> agrees (Suc d) b v (run_block sub (with_blocks b v sa) d) (B sa)"
    and "length b = n" "length v = n" "b ! d = blk"
  shows "agrees (Suc d) b v (for_loop sub d name (with_blocks b v sa) status idx) (each_value B name (map (\<lambda>i. v ! d ! i) idx) sa status)"
  using assms(2-)
proof (induction idx arbitrary: b v sa status)
  case Nil
  then show ?case by (auto intro: kept_refl)
next
  case (Cons i idx)
  let ?sa = "set_env sa (live sa name) (v ! d ! i)"
  have B: "agrees (Suc d) b v (run_block sub (with_blocks b v ?sa) d) (B ?sa)" by (rule body [OF Cons.prems])
  show ?case
  proof (cases "B ?sa")
    case None
    then show ?thesis using B by simp
  next
    case (Some r)
    obtain s1 st where r: "r = (s1, st)" by (cases r)
    then obtain b1 v1 where R: "run_block sub (with_blocks b v ?sa) d = Some (with_blocks b1 v1 s1, st)" and K: "kept (Suc d) b v b1 v1"
      using B Some by auto
    have "agrees (Suc d) b1 v1 (for_loop sub d name (with_blocks b1 v1 s1) st idx) (each_value B name (map (\<lambda>i. v1 ! d ! i) idx) s1 st)"
      using K kept_nth [OF K] Cons.prems by (intro Cons.IH) (auto simp: kept_def)
    then show ?thesis using agrees_from [OF K _ order_refl] kept_nth [OF K] R Some r by simp
  qed
qed

lemma if_agrees:
  assumes "storage_free run" "\<And>sa. agrees (Suc d) b v (run_block sub (with_blocks b v sa) d) (B sa)"
  shows "agrees (Suc d) b v (map_option (\<lambda>(s, st). (s, Inr st)) (run_if E run sub argc d (with_blocks b v sa) status control)) (exec_if E run argc control B sa status)"
proof (cases "expand_line sa argc status control")
  case None
  then show ?thesis by (simp add: run_if_def exec_if_def)
next
  case (Some e)
  show ?thesis
  proof (cases "script_condition_status E run sa e")
    case None
    then show ?thesis using Some condition_stored [OF assms(1)] by (simp add: run_if_def exec_if_def)
  next
    case (Some r)
    obtain s1 rc where r: "r = (s1, rc)" by (cases r)
    have "agrees (Suc d) b v (map_option (\<lambda>(s, st). (s, Inr st)) (if rc = 0 then run_block sub (with_blocks b v s1) d else Some (with_blocks b v s1, 0)))
        (if rc = 0 then map_option (\<lambda>(sh2, st). (sh2, Inr st)) (B s1) else Some (s1, Inr 0))"
    proof (cases "rc = 0")
      case True
      then show ?thesis using agrees_map [OF assms(2), of Inr s1] by simp
    next
      case False
      then show ?thesis using agrees_framed [of "Suc d" b v "Some (s1, Inr 0)"] by simp
    qed
    then show ?thesis using Some r \<open>expand_line sa argc status control = Some e\<close> condition_stored [OF assms(1)]
      by (simp add: run_if_def exec_if_def)
  qed
qed

lemma for_agrees:
  assumes body: "\<And>b v sa. length b = n \<Longrightarrow> length v = n \<Longrightarrow> b ! d = blk \<Longrightarrow> agrees (Suc d) b v (run_block sub (with_blocks b v sa) d) (B sa)"
    and "length b = n" "length v = n" "b ! d = blk" "d < n"
  shows "agrees d b v (run_for sub argc d (with_blocks b v sa) status control) (exec_for argc control B sa status)"
proof (cases "expand_line sa argc status control")
  case None
  then show ?thesis by (simp add: run_for_def exec_for_def)
next
  case (Some e)
  obtain s1 toks where sp: "shell_split sa e = (s1, toks)" by (cases "shell_split sa e")
  show ?thesis
  proof (cases "length toks < 4 \<or> live s1 (toks ! 0) \<noteq> bytes_of ''for'' \<or> live s1 (toks ! 2) \<noteq> bytes_of ''in''")
    case True
    then show ?thesis using Some sp agrees_framed [of d b v "Some (say s1 ''tsh: usage: for NAME in WORDS { ... }\<newline>'' [], Inl 2)"]
      by (simp add: run_for_def exec_for_def)
  next
    case False
    show ?thesis
    proof (cases "for_values (sh_k s1) (map (live s1) (drop 3 toks)) []")
      case None
      then show ?thesis using Some sp False by (simp add: run_for_def exec_for_def)
    next
      case (Some vals)
      let ?v = "v[d := vals @ drop (length vals) (v ! d)]"
      have vals: "map (\<lambda>i. ?v ! d ! i) [0..<length vals] = vals" using assms(3,5) by (intro nth_equalityI) (auto simp: nth_append)
      have "agrees (Suc d) b ?v (for_loop sub d (toks ! 1) (with_blocks b ?v s1) status [0..<length vals]) (each_value B (toks ! 1) vals s1 status)"
        using for_runs [where b = b and v = ?v and name = "toks ! 1" and sa = s1 and status = status and idx = "[0..<length vals]", OF body] assms vals by simp
      then have "agrees d b v (for_loop sub d (toks ! 1) (with_blocks b ?v s1) status [0..<length vals]) (each_value B (toks ! 1) vals s1 status)"
        by (rule agrees_from [OF kept_update(2)]) simp
      from agrees_map [OF this, of Inr] show ?thesis using Some sp False \<open>expand_line sa argc status control = Some e\<close>
        by (simp add: run_for_def exec_for_def store_values_def)
    qed
  qed
qed

lemma simple_stored: "storage_free run \<Longrightarrow> simple_line E run argc (with_blocks b v sh) status p = framed b v (simple_line E run argc sh status p)"
  by (auto simp: simple_line_def run_line_stored map_option_case split: option.splits prod.splits bool.splits)

lemma collect_block_stored:
  assumes "stmts_wf body m" "line_ok c" "closes_block c" "length (stmts_text body) + 1 < SCRIPT_BLOCK_MAX"
  shows "collect_block (with_blocks b v sa) (pre @ stmts_text body @ c @ newline # rest) (length pre) d =
    (with_blocks (b[d := put_string (b ! d) (stmts_text body)]) v sa, True, length pre + length (stmts_text body) + length c + 1)"
  using script_collect_block_body [OF wf_body [OF assms(1)] assms(2,3), of SCRIPT_BLOCK_MAX pre rest "b ! d"] assms(4)
  by (simp add: collect_block_def stmts_text_def)

lemma stmt_agrees:
  assumes F: "storage_free run" and IH: "n \<noteq> 0 \<Longrightarrow> refines_at E run argc (n - 1)" and n: "n \<le> 3" and wf: "stmt_wf s n"
    and len: "length b = SCRIPT_MAX_DEPTH" "length v = SCRIPT_MAX_DEPTH"
  shows "agrees (3 - n) b v
    (script_line E run (script_sub E run argc n) argc (3 - n) (pre @ lines_text (stmt_lines s) @ rest) (with_blocks b v sa) status
       (length pre + length (hd (stmt_lines s)) + 1) (script_trim (hd (stmt_lines s))))
    (map_option (\<lambda>(s', r). (s', after (length pre + length (lines_text (stmt_lines s))) r)) (exec_stmt E run argc s sa status))"
proof -
  let ?d = "3 - n"
  have block: "agrees (Suc ?d) b' v' (run_block (script_sub E run argc n) (with_blocks b' v' sa) ?d) (exec_stmts E run argc body (\<lambda>_. True) sa 0)"
    if "n \<noteq> 0" "stmts_wf body (n - 1)" "length b' = SCRIPT_MAX_DEPTH" "length v' = SCRIPT_MAX_DEPTH" "b' ! ?d = put_string old (stmts_text body)"
    for body b' v' sa old
  proof -
    define m where "m = n - 1"
    have m: "n = Suc m" using that(1) by (simp add: m_def)
    then have "Suc (2 - m) = 3 - m" "m < 3" using n by simp_all
    then show ?thesis using block_runs [of E run argc m body b' v' old sa] IH that m by simp
  qed
  have d: "?d < SCRIPT_MAX_DEPTH" by (simp add: SCRIPT_MAX_DEPTH_def)
  show ?thesis
  proof (cases s)
    case (Simple l)
    then have p: "\<not> if_line (script_trim l)" "\<not> for_line (script_trim l)" using wf by simp_all
    show ?thesis
      using agrees_map [OF agrees_framed [of ?d b v "simple_line E run argc sa status (script_trim l)"], of "after (Suc (length pre + length l))"] Simple
      by (simp add: script_line_simple [OF p] simple_stored [OF F])
  next
    case (If_block h body c)
    let ?old = "b ! ?d"
    let ?b = "b[?d := put_string ?old (stmts_text body)]" and ?off = "length pre + length (lines_text (stmt_lines s))"
    let ?B = "\<lambda>sa. exec_stmts E run argc body (\<lambda>_. True) sa 0"
    obtain ctl where ctl: "if_control h = Some ctl" using wf If_block by auto
    have W: "n \<noteq> 0" "stmts_wf body (n - 1)" "if_line (script_trim h)" using wf If_block by auto
    have cb: "collect_block (with_blocks b v sa) (pre @ lines_text (stmt_lines s) @ rest) (length pre + length h + 1) ?d = (with_blocks ?b v sa, True, ?off)"
      using collect_block_stored [OF W(2), of c b v sa "pre @ h @ [newline]" rest ?d] wf If_block by (simp add: stmts_text_def)
    have "agrees (Suc ?d) ?b v (map_option (\<lambda>(s, st). (s, Inr st)) (run_if E run (script_sub E run argc n) argc ?d (with_blocks ?b v sa) status ctl))
        (exec_if E run argc ctl ?B sa status)"
      using block [OF W(1,2), of ?b v] len d by (intro if_agrees [OF F]) simp
    then have "agrees ?d b v (map_option (\<lambda>(s, st). (s, Inr st)) (run_if E run (script_sub E run argc n) argc ?d (with_blocks ?b v sa) status ctl))
        (exec_if E run argc ctl ?B sa status)"
      by (rule agrees_from [OF kept_update(1)]) simp
    from agrees_map [OF this, of "after ?off"] show ?thesis
      using script_line_if [OF W(3) ctl [unfolded if_control_def] cb] If_block ctl
      by (simp add: option.map_comp comp_def case_prod_unfold)
  next
    case (For_block h body c)
    let ?old = "b ! ?d"
    let ?b = "b[?d := put_string ?old (stmts_text body)]" and ?off = "length pre + length (lines_text (stmt_lines s))"
    let ?B = "\<lambda>sa. exec_stmts E run argc body (\<lambda>_. True) sa 0"
    obtain ctl where ctl: "for_control h = Some ctl" using wf For_block by auto
    have W: "n \<noteq> 0" "stmts_wf body (n - 1)" "for_line (script_trim h)" using wf For_block by auto
    have cb: "collect_block (with_blocks b v sa) (pre @ lines_text (stmt_lines s) @ rest) (length pre + length h + 1) ?d = (with_blocks ?b v sa, True, ?off)"
      using collect_block_stored [OF W(2), of c b v sa "pre @ h @ [newline]" rest ?d] wf For_block by (simp add: stmts_text_def)
    have "agrees ?d ?b v (run_for (script_sub E run argc n) argc ?d (with_blocks ?b v sa) status ctl) (exec_for argc ctl ?B sa status)"
    proof (rule for_agrees [where n = SCRIPT_MAX_DEPTH and blk = "put_string ?old (stmts_text body)"])
      fix b' :: "u8 list list" and v' :: "u8 list list list" and sa
      assume "length b' = SCRIPT_MAX_DEPTH" "length v' = SCRIPT_MAX_DEPTH" "b' ! ?d = put_string ?old (stmts_text body)"
      then show "agrees (Suc ?d) b' v' (run_block (script_sub E run argc n) (with_blocks b' v' sa) ?d) (?B sa)" by (rule block [OF W(1,2)])
    qed (use len d in simp_all)
    then have "agrees ?d b v (run_for (script_sub E run argc n) argc ?d (with_blocks ?b v sa) status ctl) (exec_for argc ctl ?B sa status)"
      by (rule agrees_from [OF kept_update(1)]) simp
    from agrees_map [OF this, of "after ?off"] show ?thesis
      using script_line_for [OF W(3) ctl [unfolded for_control_def] cb] For_block ctl by simp
  qed
qed

lemma stmt_first:
  assumes "stmt_wf s n"
  obtains ls where "lines_text (stmt_lines s) = hd (stmt_lines s) @ newline # lines_text ls" "line_ok (hd (stmt_lines s))"
proof (cases s)
  case (Simple l)
  then show ?thesis using assms that [of "[]"] by simp
next
  case (If_block h body c)
  then show ?thesis using assms that [of "stmts_lines body @ [c]"] by simp
next
  case (For_block h body c)
  then show ?thesis using assms that [of "stmts_lines body @ [c]"] by simp
qed

lemma loop_agrees:
  assumes F: "storage_free run" and IH: "n \<noteq> 0 \<Longrightarrow> refines_at E run argc (n - 1)" and n: "n \<le> 3"
    and "stmts_wf ss n" "length b = SCRIPT_MAX_DEPTH" "length v = SCRIPT_MAX_DEPTH"
    and "\<And>b' v' s. take (3 - n) b' = take (3 - n) b \<Longrightarrow>
      source_bytes (with_blocks b' v' s) src len = (if same s then Some (pre @ stmts_text ss) else None)"
  shows "agrees (3 - n) b v (script_loop E run (script_sub E run argc n) src len argc (3 - n) (length pre) False status (with_blocks b v sa))
     (exec_stmts E run argc ss same sa status)"
  using assms(4-)
proof (induction ss arbitrary: b v sa status pre)
  case Nil
  have "source_bytes (with_blocks b v sa) src len = (if same sa then Some pre else None)" using Nil.prems(4) [of b v sa] by (simp add: stmts_text_def)
  then have "script_loop E run (script_sub E run argc n) src len argc (3 - n) (length pre) False status (with_blocks b v sa) =
      framed b v (if same sa then Some (sa, status) else None)"
    by (subst script_loop.simps) (simp add: script_read_line_def)
  then show ?case using agrees_framed [of "3 - n" b v "if same sa then Some (sa, status) else None"] by simp
next
  case (Cons s ss)
  let ?sub = "script_sub E run argc n" and ?d = "3 - n"
  let ?bytes = "pre @ stmts_text (s # ss)" and ?t = "lines_text (stmt_lines s)" and ?L = "hd (stmt_lines s)"
  have wf: "stmt_wf s n" "stmts_wf ss n" using Cons.prems(1) by simp_all
  have tx: "stmts_text (s # ss) = ?t @ stmts_text ss" by (simp add: stmts_text_def)
  obtain ls where ls: "?t = ?L @ newline # lines_text ls" "line_ok ?L" using stmt_first [OF wf(1)] .
  have src: "source_bytes (with_blocks b v sa) src len = (if same sa then Some ?bytes else None)" using Cons.prems(4) [of b v sa] by simp
  have read: "script_read_line ?bytes (length pre) LINE_MAX = Some (?L, length pre + length ?L + 1)"
    using read_line_ok [OF ls(2), of pre "lines_text ls @ stmts_text ss"] ls(1) tx by simp
  show ?case
  proof (cases "same sa")
    case False
    then show ?thesis using src by (subst script_loop.simps) simp
  next
    case True
    let ?line = "script_line E run ?sub argc ?d ?bytes (with_blocks b v sa) status (length pre + length ?L + 1) (script_trim ?L)"
    let ?off = "length pre + length ?t"
    have A: "agrees ?d b v ?line (map_option (\<lambda>(s', r). (s', after ?off r)) (exec_stmt E run argc s sa status))"
      using stmt_agrees [OF F IH n wf(1) Cons.prems(2,3), of pre "stmts_text ss" sa status] tx by simp
    note at = src read True
    show ?thesis
    proof (cases "exec_stmt E run argc s sa status")
      case None
      then show ?thesis using A at by (subst script_loop.simps) simp
    next
      case (Some q)
      obtain s1 r where q: "q = (s1, r)" by (cases q)
      then obtain b1 v1 where L: "?line = Some (with_blocks b1 v1 s1, after ?off r)" and K: "kept ?d b v b1 v1" using A Some by auto
      show ?thesis
      proof (cases r)
        case (Inl rc)
        then show ?thesis using L K at Some q by (subst script_loop.simps) auto
      next
        case (Inr st)
        have "agrees ?d b1 v1 (script_loop E run ?sub src len argc ?d (length (pre @ ?t)) False st (with_blocks b1 v1 s1)) (exec_stmts E run argc ss same s1 st)"
        proof (rule Cons.IH [OF wf(2)])
          fix b' v' s'
          assume "take ?d b' = take ?d b1"
          then have "take ?d b' = take ?d b" using K by (simp add: kept_def)
          then show "source_bytes (with_blocks b' v' s') src len = (if same s' then Some ((pre @ ?t) @ stmts_text ss) else None)"
            using Cons.prems(4) tx by simp
        qed (use K Cons.prems in \<open>simp_all add: kept_def\<close>)
        then have "agrees ?d b v (script_loop E run ?sub src len argc ?d ?off False st (with_blocks b1 v1 s1)) (exec_stmts E run argc ss same s1 st)"
          using agrees_from [OF K _ order_refl] by simp
        then show ?thesis using L at Some q Inr by (subst script_loop.simps) simp
      qed
    qed
  qed
qed

lemma scripts_refine: "storage_free run \<Longrightarrow> n \<le> 3 \<Longrightarrow> refines_at E run argc n"
proof (induction n)
  case 0
  show ?case unfolding refines_at_def by (intro allI impI loop_agrees) (use 0 in auto)
next
  case (Suc n)
  then have IH: "refines_at E run argc (Suc n - 1)" by simp
  show ?case unfolding refines_at_def by (intro allI impI loop_agrees IH) (use Suc.prems in auto)
qed

lemma stored_same: "with_blocks (sh_blocks sh) (sh_values sh) sh = sh"
  by (simp add: with_blocks_def)

text \<open>The bytes of a script file: after a line \<open>#!\<close> that is skipped, or without one, its statements.\<close>

definition script_file :: "u8 list option \<Rightarrow> stmt list \<Rightarrow> u8 list" where
  "script_file hashbang ss = (case hashbang of None \<Rightarrow> [] | Some h \<Rightarrow> h @ [newline]) @ stmts_text ss"


definition sample_script :: "stmt list" where
  "sample_script =
     [Simple (bytes_of ''x=1''),
      If_block (bytes_of ''if ok $x {'')
        [For_block (bytes_of ''  for i in a b {'') [Simple (bytes_of ''    run $i'')] (bytes_of ''  }'')]
        (bytes_of ''fi'')]"

definition sample_run :: runner where
  "sample_run sh argv inp = Some (sh, if argv = [bytes_of ''false''] then 1 else 0)"


section \<open>Where the shell does not do what a script says\<close>

text \<open>\<open>exit\<close> in a block ends the block, and the script goes on after it.\<close>

lemma exit_ends_only_the_block:
  assumes "expand_line sh argc status (the (if_control h)) = Some e" "script_condition_status E run sh e = Some (sh1, 0)"
  shows "exec_stmt E run argc (If_block h (Simple (bytes_of ''exit 0'') # rest) c) sh status = Some (sh1, Inr 0)"
proof -
  have "script_trim (bytes_of ''exit 0'') = bytes_of ''exit 0''" by code_simp
  moreover have "script_assignment (sh_envs sh1) (bytes_of ''exit 0'') = (sh_envs sh1, False)" by (simp add: script_assignment_def bytes_of_def chr_def)
  moreover have "exit_status 0 (bytes_of ''exit 0'') = Some 0" by (simp add: exit_status_def bytes_of_def) code_simp
  ultimately show ?thesis using assms by (simp add: exec_if_def simple_line_def bytes_of_def chr_def)
qed

text \<open>An operator in quotes is a word of the line, and yet it is the text that \<open>run_pipeline\<close> and \<open>run_tokens\<close> look for.\<close>

lemma quoted_operator:
  "fst (split_args (bytes_of [CHR ''a'', CHR '' '', CHR 34, CHR ''|'', CHR 34, CHR '' '', CHR ''b'']) ops) =
     [Word (bytes_of ''a''), Word (bytes_of ''|''), Word (bytes_of ''b'')]"
  by code_simp

text \<open>The end of a captured stage ends the capture of the stage around it too, which has captured nothing.\<close>

lemma inner_capture_ends_outer:
  assumes "sh_capture sh' = sh_capture (fst (console_capture_end sh))"
  shows "snd (console_capture_end sh') = []"
  using assms by (simp add: console_capture_end_def captured_text_def)

text \<open>Two bytes at the end of the buffer leave no room for the NUL.\<close>

lemma expand_line_overflow:
  "script_expand_line us [(bytes_of ''A'', replicate 127 120)] [] 0 LINE_MAX (bytes_of ''$A$A$%'') = None"
  by code_simp

end
