(* ===== verification/Tsh_Levels.thy ===== *)
theory Tsh_Levels
  imports Tsh_Run
begin

text \<open>
  The bound on the nesting of commands decides only whether there is a result: a command that
  returns within some bound has the same result under any larger one.
\<close>

definition below :: "'a option \<Rightarrow> 'a option \<Rightarrow> bool" where
  "below r r' \<longleftrightarrow> r = None \<or> r = r'"

definition runner_below :: "runner \<Rightarrow> runner \<Rightarrow> bool" where
  "runner_below run run' \<longleftrightarrow> (\<forall>sh argv inp. below (run sh argv inp) (run' sh argv inp))"

definition block_below :: "block_runner \<Rightarrow> block_runner \<Rightarrow> bool" where
  "block_below sub sub' \<longleftrightarrow> (\<forall>sh d n. below (sub sh d n) (sub' sh d n))"

named_theorems below_intros

lemma below_refl [below_intros, simp]: "below r r"
  by (simp add: below_def)

lemma below_None [simp]: "below None r"
  by (simp add: below_def)

lemma below_run: "runner_below run run' \<Longrightarrow> below (run sh argv inp) (run' sh argv inp)"
  by (simp add: runner_below_def)

lemma below_sub: "block_below sub sub' \<Longrightarrow> below (sub sh d n) (sub' sh d n)"
  by (simp add: block_below_def)

lemma below_bind [below_intros]:
  "below r r' \<Longrightarrow> (\<And>x. below (f x) (g x)) \<Longrightarrow> below (case r of None \<Rightarrow> None | Some x \<Rightarrow> f x) (case r' of None \<Rightarrow> None | Some x \<Rightarrow> g x)"
  by (auto simp: below_def split: option.splits)

lemma below_map [below_intros]: "below r r' \<Longrightarrow> below (map_option f r) (map_option f r')"
  by (auto simp: below_def)

lemma below_if [below_intros]: "below a b \<Longrightarrow> below a' b' \<Longrightarrow> below (if c then a else a') (if c then b else b')"
  by simp

lemma below_prod [below_intros]: "(\<And>x y. below (f x y) (g x y)) \<Longrightarrow> below (case p of (x, y) \<Rightarrow> f x y) (case p of (x, y) \<Rightarrow> g x y)"
  by (cases p) simp

lemma below_sum [below_intros]:
  "(\<And>x. below (f x) (f' x)) \<Longrightarrow> (\<And>y. below (g y) (g' y)) \<Longrightarrow> below (case s of Inl x \<Rightarrow> f x | Inr y \<Rightarrow> g y) (case s of Inl x \<Rightarrow> f' x | Inr y \<Rightarrow> g' y)"
  by (cases s) simp_all

lemma below_bool [below_intros]:
  "below a b \<Longrightarrow> below a' b' \<Longrightarrow> below (case c of True \<Rightarrow> a | False \<Rightarrow> a') (case c of True \<Rightarrow> b | False \<Rightarrow> b')"
  by (cases c) simp_all

lemma below_option [below_intros]:
  "below a b \<Longrightarrow> (\<And>x. below (f x) (g x)) \<Longrightarrow> below (case r of None \<Rightarrow> a | Some x \<Rightarrow> f x) (case r of None \<Rightarrow> b | Some x \<Rightarrow> g x)"
  by (cases r) simp_all

lemma run_stage_below:
  assumes "runner_below run run'"
  shows "below (run_stage E run sh tokens inp capture) (run_stage E run' sh tokens inp capture)"
  unfolding run_stage_def Let_def by (intro below_intros below_run [OF assms])

lemma pipeline_below:
  assumes "runner_below run run'"
  shows "below (pipeline_loop E run sh tokens input use rc) (pipeline_loop E run' sh tokens input use rc)"
proof (induction "length tokens" arbitrary: sh tokens input use rc rule: less_induct)
  case less
  show ?case
  proof (cases "tokens = []")
    case True
    then show ?thesis by (subst (1 2) pipeline_loop.simps) simp
  next
    case False
    then have IH: "below (pipeline_loop E run sh' (drop (k + 1) tokens) i u r) (pipeline_loop E run' sh' (drop (k + 1) tokens) i u r)" for sh' k i u r
      by (intro less) simp
    show ?thesis by (subst (1 2) pipeline_loop.simps) (simp only: Let_def, intro below_intros run_stage_below [OF assms] IH)
  qed
qed

lemma tokens_below:
  assumes "runner_below run run'"
  shows "below (run_tokens E run sh argv) (run_tokens E run' sh argv)"
proof (induction "length argv" arbitrary: sh argv rule: less_induct)
  case less
  show ?case
  proof (cases "argv = []")
    case True
    then show ?thesis by (subst (1 2) run_tokens.simps) simp
  next
    case False
    then have IH: "below (run_tokens E run sh' (drop (k + 1) argv)) (run_tokens E run' sh' (drop (k + 1) argv))" for sh' k
      by (intro less) simp
    show ?thesis by (subst (1 2) run_tokens.simps) (simp only: Let_def run_pipeline_def, intro below_intros pipeline_below [OF assms] IH)
  qed
qed

lemma run_line_below: "runner_below run run' \<Longrightarrow> below (run_line E run sh line) (run_line E run' sh line)"
  unfolding run_line_def by (intro below_intros tokens_below)

lemma condition_below: "runner_below run run' \<Longrightarrow> below (script_condition_status E run sh c) (script_condition_status E run' sh c)"
  unfolding script_condition_status_def Let_def by (intro below_intros run_line_below)

lemma run_if_below:
  assumes "runner_below run run'" "block_below sub sub'"
  shows "below (run_if E run sub argc d sh status control) (run_if E run' sub' argc d sh status control)"
  unfolding run_if_def run_block_def by (intro below_intros condition_below assms(1) below_sub [OF assms(2)])

lemma for_loop_below:
  assumes "block_below sub sub'"
  shows "below (for_loop sub d name sh status idx) (for_loop sub' d name sh status idx)"
proof (induction idx arbitrary: sh status)
  case (Cons i idx)
  show ?case unfolding for_loop.simps run_block_def by (intro below_intros below_sub [OF assms] Cons)
qed simp

lemma run_for_below: "block_below sub sub' \<Longrightarrow> below (run_for sub argc d sh status control) (run_for sub' argc d sh status control)"
  unfolding run_for_def by (intro below_intros for_loop_below)

lemma script_line_below:
  assumes "runner_below run run'" "block_below sub sub'"
  shows "below (script_line E run sub argc d bytes sh status offset p) (script_line E run' sub' argc d bytes sh status offset p)"
  unfolding script_line_def by (intro below_intros run_if_below run_for_below run_line_below assms)

lemma script_loop_below:
  assumes R: "runner_below run run'" and S: "block_below sub sub'"
  shows "below (script_loop E run sub src n argc d offset first status sh) (script_loop E run' sub' src n argc d offset first status sh)"
proof (induction "n - offset" arbitrary: offset first status sh rule: less_induct)
  case less
  show ?case
  proof (cases "source_bytes sh src n")
    case None
    then show ?thesis by (subst (1 2) script_loop.simps) simp
  next
    case (Some bytes)
    show ?thesis
    proof (cases "script_read_line bytes offset LINE_MAX")
      case None
      then show ?thesis using Some by (subst (1 2) script_loop.simps) simp
    next
      case (Some r)
      obtain raw o1 where r: "r = (raw, o1)" by (cases r)
      have o1: "offset < o1" "offset < n"
        using script_read_line_offset [of bytes offset LINE_MAX raw o1] Some r source_bytes_length [OF \<open>source_bytes sh src n = Some bytes\<close>] by auto
      have IH: "below (script_loop E run sub src n argc d o2 f st s) (script_loop E run' sub' src n argc d o2 f st s)" if "o1 \<le> o2" for o2 f st s
        using that o1 by (intro less) simp
      let ?line = "script_line E run sub argc d bytes sh status o1 (script_trim raw)"
      have L: "below ?line (script_line E run' sub' argc d bytes sh status o1 (script_trim raw))" by (rule script_line_below [OF R S])
      show ?thesis
      proof (cases "first \<or> ?line = None")
        case True
        then show ?thesis using IH [of o1] Some r \<open>source_bytes sh src n = Some bytes\<close> by (subst (1 2) script_loop.simps) auto
      next
        case False
        then obtain s1 q where q: "?line = Some (s1, q)" by auto
        have q': "script_line E run' sub' argc d bytes sh status o1 (script_trim raw) = Some (s1, q)" using L q by (simp add: below_def)
        have "o1 \<le> o2" if "q = Inr (st, o2)" for st o2 using script_line_offset q that by blast
        then show ?thesis using False q q' IH Some r \<open>source_bytes sh src n = Some bytes\<close>
          by (subst (1 2) script_loop.simps) (auto split: sum.split)
      qed
    qed
  qed
qed

lemma script_levels_below:
  assumes "runner_below run run'"
  shows "below (script_levels E run k src n argc skip sh) (script_levels E run' k src n argc skip sh)"
proof (induction k arbitrary: src n argc skip sh)
  case (Suc k)
  show ?case by (simp add: script_loop_below [OF assms] block_below_def Suc)
qed simp

lemma run_shell_script_below:
  "runner_below run run' \<Longrightarrow> below (run_shell_script E run sh node argv x f) (run_shell_script E run' sh node argv x f)"
  unfolding run_shell_script_def run_shell_script_data_def Let_def by (intro below_intros script_levels_below)

lemma command_step_below:
  assumes "runner_below run run'"
  shows "below (command_step E run sh argv inp) (command_step E run' sh argv inp)"
  unfolding command_step_def run_builtin_def run_file_def cmd_sh_def cmd_sudo_def sudo_run_def Let_def
  by (intro below_intros run_shell_script_below below_run [OF assms] assms)

lemma run_command_below: "runner_below (run_command E n) (run_command E (n + k))"
proof (induction n)
  case (Suc n)
  then show ?case by (simp add: runner_below_def command_step_below [unfolded runner_below_def])
qed (simp add: runner_below_def)



end
