(* ===== verification/Tsh_Edit.thy ===== *)
theory Tsh_Edit
  imports Tsh_Words
begin

text \<open>
  The line editor of the shell: the cases of \<open>read_line\<close> in \<open>kernel/shell/tsh.c\<close> and what they draw on
  the console of \<open>kernel/drivers/console/vga.c\<close>.

  \<open>ed_line\<close> is the first \<open>len\<close> bytes of the buffer, which has \<open>LINE_MAX\<close> bytes; \<open>ed_sel\<close> is
  \<open>sel_anchor\<close> while \<open>sel_active\<close> holds, and \<open>ed_index\<close> is \<open>history_index\<close>, with \<open>None\<close> for -1.  The
  drawing is a list of calls of \<open>console_putc\<close>, \<open>console_cursor_left\<close> and \<open>console_cursor_right\<close>.
\<close>

definition HISTORY_MAX :: nat where "HISTORY_MAX = 16"

record edit =
  ed_line :: "u8 list"
  ed_cursor :: nat
  ed_index :: "nat option"
  ed_saved :: "u8 list"
  ed_sel :: "nat option"
  ed_clip :: "u8 list"
  ed_history :: "u8 list list"

datatype draw = Put u8 | Go_left | Go_right

definition add_history :: "u8 list list \<Rightarrow> u8 list \<Rightarrow> u8 list list" where
  "add_history history line =
     (if line = [] then history
      else if length history < HISTORY_MAX then history @ [line]
      else tl history @ [line])"

section \<open>Editing\<close>

definition redraw_line :: "nat \<Rightarrow> nat \<Rightarrow> u8 list \<Rightarrow> nat \<Rightarrow> draw list" where
  "redraw_line old_len old_cursor line cursor =
     replicate (old_len - old_cursor) Go_right @ replicate old_len (Put 8) @ map Put line @ replicate (length line - cursor) Go_left"

text \<open>The line and the cursor are replaced, and the line is drawn again.\<close>

definition redrawn :: "edit \<Rightarrow> u8 list \<Rightarrow> nat \<Rightarrow> edit \<times> draw list" where
  "redrawn e line cursor = (e\<lparr>ed_line := line, ed_cursor := cursor\<rparr>, redraw_line (length (ed_line e)) (ed_cursor e) line cursor)"

definition replace_line :: "edit \<Rightarrow> u8 list \<Rightarrow> edit \<times> draw list" where
  "replace_line e replacement = (let line = take (LINE_MAX - 1) replacement in redrawn e line (length line))"

definition insert_text :: "edit \<Rightarrow> u8 list \<Rightarrow> edit \<times> draw list" where
  "insert_text e str =
     (if str = [] \<or> length (ed_line e) + length str \<ge> LINE_MAX then (e, [])
      else redrawn e (take (ed_cursor e) (ed_line e) @ str @ drop (ed_cursor e) (ed_line e)) (ed_cursor e + length str))"

definition selection_bounds :: "edit \<Rightarrow> nat \<times> nat" where
  "selection_bounds e =
     (case ed_sel e of
        None \<Rightarrow> (ed_cursor e, ed_cursor e)
      | Some anchor \<Rightarrow> if anchor < ed_cursor e then (anchor, ed_cursor e) else (ed_cursor e, anchor))"

definition delete_selection :: "edit \<Rightarrow> edit \<times> draw list" where
  "delete_selection e =
     (case selection_bounds e of
        (start, stop) \<Rightarrow>
          if start = stop then (e\<lparr>ed_sel := None\<rparr>, [])
          else redrawn (e\<lparr>ed_sel := None\<rparr>) (take start (ed_line e) @ drop stop (ed_line e)) start)"

definition move_left :: "edit \<Rightarrow> edit \<times> draw list" where
  "move_left e = (if ed_cursor e \<noteq> 0 then (e\<lparr>ed_cursor := ed_cursor e - 1\<rparr>, [Go_left]) else (e, []))"

definition move_right :: "edit \<Rightarrow> edit \<times> draw list" where
  "move_right e = (if ed_cursor e < length (ed_line e) then (e\<lparr>ed_cursor := ed_cursor e + 1\<rparr>, [Go_right]) else (e, []))"

definition start_selection :: "edit \<Rightarrow> edit" where
  "start_selection e = (if ed_sel e = None then e\<lparr>ed_sel := Some (ed_cursor e)\<rparr> else e)"

definition copy_selection :: "edit \<Rightarrow> edit" where
  "copy_selection e =
     (case selection_bounds e of
        (start, stop) \<Rightarrow> if stop > start \<and> stop - start < LINE_MAX then e\<lparr>ed_clip := take (stop - start) (drop start (ed_line e))\<rparr> else e)"

definition paste :: "edit \<Rightarrow> edit \<times> draw list" where
  "paste e =
     (case (if ed_sel e \<noteq> None then delete_selection e else (e, [])) of
        (e1, d1) \<Rightarrow> (case insert_text e1 (ed_clip e1) of (e2, d2) \<Rightarrow> (e2, d1 @ d2)))"

definition history_up :: "edit \<Rightarrow> edit \<times> draw list" where
  "history_up e =
     (if ed_history e = [] then (e, [])
      else
        let (e1, i) = (case ed_index e of
                None \<Rightarrow> (e\<lparr>ed_saved := ed_line e\<rparr>, length (ed_history e) - 1)
              | Some i \<Rightarrow> (e, if i > 0 then i - 1 else i)) in
        case replace_line (e1\<lparr>ed_index := Some i\<rparr>) (ed_history e ! i) of (e2, d) \<Rightarrow> (e2\<lparr>ed_sel := None\<rparr>, d))"

definition history_down :: "edit \<Rightarrow> edit \<times> draw list" where
  "history_down e =
     (case ed_index e of
        None \<Rightarrow> (e, [])
      | Some i \<Rightarrow>
          (case (if i + 1 < length (ed_history e) then replace_line (e\<lparr>ed_index := Some (i + 1)\<rparr>) (ed_history e ! (i + 1))
                 else replace_line (e\<lparr>ed_index := None\<rparr>) (ed_saved e)) of
             (e1, d) \<Rightarrow> (e1\<lparr>ed_sel := None\<rparr>, d)))"

definition backspace :: "edit \<Rightarrow> edit \<times> draw list" where
  "backspace e =
     (if ed_sel e \<noteq> None then delete_selection e
      else if ed_cursor e \<noteq> 0 then redrawn e (take (ed_cursor e - 1) (ed_line e) @ drop (ed_cursor e) (ed_line e)) (ed_cursor e - 1)
      else (e, []))"

definition delete_char :: "edit \<Rightarrow> edit \<times> draw list" where
  "delete_char e =
     (if ed_sel e \<noteq> None then delete_selection e
      else if ed_cursor e < length (ed_line e) then redrawn e (take (ed_cursor e) (ed_line e) @ drop (ed_cursor e + 1) (ed_line e)) (ed_cursor e)
      else (e, []))"

definition type_char :: "edit \<Rightarrow> u8 \<Rightarrow> edit \<times> draw list" where
  "type_char e c =
     (case (if ed_sel e \<noteq> None then delete_selection e else (e, [])) of
        (e1, d1) \<Rightarrow>
          (case redrawn e1 (take (ed_cursor e1) (ed_line e1) @ [c] @ drop (ed_cursor e1) (ed_line e1)) (ed_cursor e1 + 1) of
             (e2, d2) \<Rightarrow> (e2\<lparr>ed_index := None\<rparr>, d1 @ d2)))"

text \<open>A key other than the end of the line, Ctrl+C and the tabulator.\<close>

definition edit_key :: "edit \<Rightarrow> int \<Rightarrow> edit \<times> draw list" where
  "edit_key e ch =
     (let unselected = e\<lparr>ed_sel := None\<rparr> in
      if ch = KEY_COPY then (copy_selection e, [])
      else if ch = KEY_PASTE then paste e
      else if ch = KEY_LEFT then move_left unselected
      else if ch = KEY_RIGHT then move_right unselected
      else if ch = KEY_SHIFT_LEFT then move_left (start_selection e)
      else if ch = KEY_SHIFT_RIGHT then move_right (start_selection e)
      else if ch = KEY_HOME then (unselected\<lparr>ed_cursor := 0\<rparr>, replicate (ed_cursor e) Go_left)
      else if ch = KEY_END then (unselected\<lparr>ed_cursor := max (ed_cursor e) (length (ed_line e))\<rparr>, replicate (length (ed_line e) - ed_cursor e) Go_right)
      else if ch = KEY_UP then history_up e
      else if ch = KEY_DOWN then history_down e
      else if ch = 8 \<or> ch = 127 then backspace e
      else if ch = KEY_DELETE then delete_char e
      else if 32 \<le> ch \<and> ch \<le> 255 \<and> length (ed_line e) + 1 < LINE_MAX then type_char e (word_of_int ch)
      else (e, []))"

section \<open>The row of the console\<close>

text \<open>
  The row of the cursor, with so many columns.  \<open>None\<close> is a call that leaves the row or is no
  drawing.  A backspace in the first column does nothing.
\<close>

record console_row =
  rw_cells :: "nat \<Rightarrow> u8"
  rw_col :: nat

fun draw_one :: "nat \<Rightarrow> draw \<Rightarrow> console_row \<Rightarrow> console_row option" where
  "draw_one cols Go_left r = (if rw_col r > 0 then Some (r\<lparr>rw_col := rw_col r - 1\<rparr>) else None)"
| "draw_one cols Go_right r = (if rw_col r + 1 < cols then Some (r\<lparr>rw_col := rw_col r + 1\<rparr>) else None)"
| "draw_one cols (Put c) r =
     (if c = 8 then
        Some (if rw_col r > 0 then r\<lparr>rw_cells := (rw_cells r)(rw_col r - 1 := 32), rw_col := rw_col r - 1\<rparr> else r)
      else if c < 32 then None
      else if rw_col r + 1 < cols then Some (r\<lparr>rw_cells := (rw_cells r)(rw_col r := c), rw_col := rw_col r + 1\<rparr>)
      else None)"

fun draw_all :: "nat \<Rightarrow> draw list \<Rightarrow> console_row \<Rightarrow> console_row option" where
  "draw_all cols [] r = Some r"
| "draw_all cols (d # ds) r = (case draw_one cols d r of None \<Rightarrow> None | Some r1 \<Rightarrow> draw_all cols ds r1)"

text \<open>The row shows the line from a column on, blanks after it, and the cursor at its place.\<close>

definition displays :: "nat \<Rightarrow> nat \<Rightarrow> u8 list \<Rightarrow> nat \<Rightarrow> console_row \<Rightarrow> bool" where
  "displays cols base line cursor r \<longleftrightarrow> base + length line < cols \<and> rw_col r = base + cursor \<and>
     (\<forall>i < length line. rw_cells r (base + i) = line ! i) \<and> (\<forall>j. base + length line \<le> j \<and> j < cols \<longrightarrow> rw_cells r j = 32)"

definition printable :: "u8 list \<Rightarrow> bool" where
  "printable str \<longleftrightarrow> (\<forall>c \<in> set str. c \<ge> 32)"

definition line_fits :: "u8 list \<Rightarrow> bool" where
  "line_fits str \<longleftrightarrow> length str < LINE_MAX \<and> printable str"

definition edit_inv :: "edit \<Rightarrow> bool" where
  "edit_inv e \<longleftrightarrow> line_fits (ed_line e) \<and> ed_cursor e \<le> length (ed_line e) \<and> pred_option (\<lambda>a. a \<le> length (ed_line e)) (ed_sel e) \<and>
     line_fits (ed_saved e) \<and> line_fits (ed_clip e) \<and> (\<forall>h \<in> set (ed_history e). line_fits h) \<and>
     pred_option (\<lambda>i. i < length (ed_history e)) (ed_index e)"

lemma draw_all_append: "draw_all cols (ds @ ds') r = (case draw_all cols ds r of None \<Rightarrow> None | Some r1 \<Rightarrow> draw_all cols ds' r1)"
  by (induction ds arbitrary: r) (auto split: option.split)

lemma draw_rights: "rw_col r + n < cols \<Longrightarrow> draw_all cols (replicate n Go_right) r = Some (r\<lparr>rw_col := rw_col r + n\<rparr>)"
  by (induction n arbitrary: r) auto

lemma draw_lefts: "n \<le> rw_col r \<Longrightarrow> draw_all cols (replicate n Go_left) r = Some (r\<lparr>rw_col := rw_col r - n\<rparr>)"
  by (induction n arbitrary: r) auto

lemma draw_backs:
  "n \<le> rw_col r \<Longrightarrow> draw_all cols (replicate n (Put 8)) r =
     Some \<lparr>rw_cells = (\<lambda>j. if rw_col r - n \<le> j \<and> j < rw_col r then 32 else rw_cells r j), rw_col = rw_col r - n\<rparr>"
proof (induction n arbitrary: r)
  case 0
  then show ?case by (cases r) (auto simp: fun_eq_iff)
next
  case (Suc n)
  let ?r = "r\<lparr>rw_cells := (rw_cells r)(rw_col r - 1 := 32), rw_col := rw_col r - 1\<rparr>"
  have "draw_all cols (replicate (Suc n) (Put 8)) r = draw_all cols (replicate n (Put 8)) ?r" using Suc.prems by simp
  also have "\<dots> = Some \<lparr>rw_cells = (\<lambda>j. if rw_col ?r - n \<le> j \<and> j < rw_col ?r then 32 else rw_cells ?r j), rw_col = rw_col ?r - n\<rparr>"
    using Suc.prems by (intro Suc.IH) simp
  finally show ?case using Suc.prems by (auto simp: fun_eq_iff)
qed

lemma draw_puts:
  "rw_col r + length l < cols \<Longrightarrow> printable l \<Longrightarrow> draw_all cols (map Put l) r =
     Some \<lparr>rw_cells = (\<lambda>j. if rw_col r \<le> j \<and> j < rw_col r + length l then l ! (j - rw_col r) else rw_cells r j), rw_col = rw_col r + length l\<rparr>"
proof (induction l arbitrary: r)
  case Nil
  then show ?case by (cases r) (auto simp: fun_eq_iff)
next
  case (Cons c l)
  let ?r = "r\<lparr>rw_cells := (rw_cells r)(rw_col r := c), rw_col := rw_col r + 1\<rparr>"
  have "c \<ge> 32" using Cons.prems(2) by (simp add: printable_def)
  then have c: "\<not> c < 32" "c \<noteq> 8" "printable l" using Cons.prems(2) by (auto simp: printable_def not_less)
  then have "draw_all cols (map Put (c # l)) r = draw_all cols (map Put l) ?r" using Cons.prems(1) by simp
  also have "\<dots> = Some \<lparr>rw_cells = (\<lambda>j. if rw_col ?r \<le> j \<and> j < rw_col ?r + length l then l ! (j - rw_col ?r) else rw_cells ?r j), rw_col = rw_col ?r + length l\<rparr>"
    using Cons.prems c by (intro Cons.IH) simp_all
  finally show ?case by (auto simp: fun_eq_iff nth_Cons' Suc_le_eq le_less)
qed

lemma draw_redraw:
  assumes "displays cols base line cursor r" "cursor \<le> length line" "base + length line' < cols" "cursor' \<le> length line'" "printable line'"
  shows "\<exists>r'. draw_all cols (redraw_line (length line) cursor line' cursor') r = Some r' \<and> displays cols base line' cursor' r' \<and> (\<forall>j < base. rw_cells r' j = rw_cells r j)"
proof -
  note D = assms(1) [unfolded displays_def]
  let ?r1 = "r\<lparr>rw_col := base + length line\<rparr>"
  let ?r2 = "\<lparr>rw_cells = (\<lambda>j. if base \<le> j \<and> j < base + length line then 32 else rw_cells r j), rw_col = base\<rparr>"
  let ?r3 = "\<lparr>rw_cells = (\<lambda>j. if base \<le> j \<and> j < base + length line' then line' ! (j - base) else rw_cells ?r2 j), rw_col = base + length line'\<rparr>"
  have 1: "draw_all cols (replicate (length line - cursor) Go_right) r = Some ?r1" using D assms(2) by (subst draw_rights) auto
  have 2: "draw_all cols (replicate (length line) (Put 8)) ?r1 = Some ?r2" by (subst draw_backs) (auto simp: fun_eq_iff)
  have 3: "draw_all cols (map Put line') ?r2 = Some ?r3" using assms(3,5) by (subst draw_puts) (auto simp: fun_eq_iff)
  have 4: "draw_all cols (replicate (length line' - cursor') Go_left) ?r3 = Some (?r3\<lparr>rw_col := base + cursor'\<rparr>)"
    using assms(4) by (subst draw_lefts) simp_all
  have "displays cols base line' cursor' (?r3\<lparr>rw_col := base + cursor'\<rparr>)" using D assms(3) by (auto simp: displays_def)
  then show ?thesis using 1 2 3 4 by (intro exI [of _ "?r3\<lparr>rw_col := base + cursor'\<rparr>"]) (simp add: redraw_line_def draw_all_append)
qed

section \<open>The console shows the line\<close>

text \<open>
  An editing step from one state to another with its drawing: the state is well-formed, and if
  the row showed the line and the line still fits, the drawing makes it show the new line.
\<close>

definition faithful :: "edit \<Rightarrow> edit \<times> draw list \<Rightarrow> bool" where
  "faithful e r \<longleftrightarrow> (case r of (e', ds) \<Rightarrow> edit_inv e' \<and>
     (\<forall>cols base row. displays cols base (ed_line e) (ed_cursor e) row \<and> base + length (ed_line e') < cols \<longrightarrow>
        (\<exists>row'. draw_all cols ds row = Some row' \<and> displays cols base (ed_line e') (ed_cursor e') row' \<and> (\<forall>j < base. rw_cells row' j = rw_cells row j))))"

lemma faithful_still: "edit_inv e' \<Longrightarrow> ed_line e' = ed_line e \<Longrightarrow> ed_cursor e' = ed_cursor e \<Longrightarrow> faithful e (e', [])"
  by (simp add: faithful_def)

lemma faithful_redrawn:
  assumes "edit_inv e" "edit_inv (e\<lparr>ed_line := line, ed_cursor := cursor\<rparr>)"
  shows "faithful e (redrawn e line cursor)"
  using assms draw_redraw [of _ _ "ed_line e" "ed_cursor e" _ line cursor]
  by (simp add: faithful_def redrawn_def edit_inv_def line_fits_def)

text \<open>Only the line and the cursor matter to the drawing.\<close>

lemma faithful_other:
  assumes "faithful e (e1, ds)" "edit_inv e2" "ed_line e2 = ed_line e1" "ed_cursor e2 = ed_cursor e1"
    "ed_line e0 = ed_line e" "ed_cursor e0 = ed_cursor e"
  shows "faithful e0 (e2, ds)"
  using assms by (simp add: faithful_def)

lemma faithful_seq:
  assumes "faithful e (e1, d1)" "faithful e1 (e2, d2)" "length (ed_line e1) \<le> length (ed_line e)"
  shows "faithful e (e2, d1 @ d2)"
proof -
  have "\<exists>row'. draw_all cols (d1 @ d2) row = Some row' \<and> displays cols base (ed_line e2) (ed_cursor e2) row' \<and> (\<forall>j < base. rw_cells row' j = rw_cells row j)"
    if d: "displays cols base (ed_line e) (ed_cursor e) row" and f: "base + length (ed_line e2) < cols" for cols base row
  proof -
    have "base + length (ed_line e1) < cols" using d assms(3) by (simp add: displays_def)
    then obtain r1 where 1: "draw_all cols d1 row = Some r1" "displays cols base (ed_line e1) (ed_cursor e1) r1" "\<forall>j < base. rw_cells r1 j = rw_cells row j"
      using assms(1) d unfolding faithful_def by blast
    then obtain r2 where "draw_all cols d2 r1 = Some r2" "displays cols base (ed_line e2) (ed_cursor e2) r2" "\<forall>j < base. rw_cells r2 j = rw_cells r1 j"
      using assms(2) f unfolding faithful_def by blast
    then show ?thesis using 1 by (simp add: draw_all_append)
  qed
  then show ?thesis using assms(2) by (simp add: faithful_def)
qed

lemma line_fits_join:
  assumes "line_fits l" "printable x" "length (take a l @ x @ drop b l) < LINE_MAX"
  shows "line_fits (take a l @ x @ drop b l)"
  using assms by (auto simp: line_fits_def printable_def dest: in_set_takeD in_set_dropD)

lemma line_fits_take: "line_fits l \<Longrightarrow> line_fits (take n l)"
  by (auto simp: line_fits_def printable_def dest: in_set_takeD)

lemma line_fits_drop: "line_fits l \<Longrightarrow> line_fits (drop n l)"
  by (auto simp: line_fits_def printable_def dest: in_set_dropD)

lemma unselected_inv: "edit_inv e \<Longrightarrow> edit_inv (e\<lparr>ed_sel := None\<rparr>)"
  by (simp add: edit_inv_def)

lemma selection_ok: "edit_inv e \<Longrightarrow> selection_bounds e = (start, stop) \<Longrightarrow> start \<le> stop \<and> stop \<le> length (ed_line e)"
  by (auto simp: selection_bounds_def edit_inv_def split: option.splits if_splits)

lemma delete_selection_faithful:
  assumes "edit_inv e"
  shows "faithful e (delete_selection e) \<and> length (ed_line (fst (delete_selection e))) \<le> length (ed_line e) \<and> ed_sel (fst (delete_selection e)) = None"
proof -
  obtain start stop where b: "selection_bounds e = (start, stop)" by (cases "selection_bounds e")
  note B = selection_ok [OF assms b]
  let ?l = "take start (ed_line e) @ [] @ drop stop (ed_line e)"
  have "line_fits ?l" using assms B by (intro line_fits_join) (auto simp: edit_inv_def line_fits_def printable_def)
  then have "faithful (e\<lparr>ed_sel := None\<rparr>) (redrawn (e\<lparr>ed_sel := None\<rparr>) (take start (ed_line e) @ drop stop (ed_line e)) start)"
    using assms B by (intro faithful_redrawn) (auto simp: edit_inv_def)
  then have "faithful e (redrawn (e\<lparr>ed_sel := None\<rparr>) (take start (ed_line e) @ drop stop (ed_line e)) start)"
    by (simp add: faithful_def)
  then show ?thesis using b B faithful_still [of "e\<lparr>ed_sel := None\<rparr>" e] unselected_inv [OF assms]
    by (auto simp: delete_selection_def redrawn_def)
qed

lemma insert_text_faithful:
  assumes "edit_inv e" "ed_sel e = None" "printable str"
  shows "faithful e (insert_text e str)"
proof (cases "str = [] \<or> length (ed_line e) + length str \<ge> LINE_MAX")
  case True
  then show ?thesis using faithful_still [OF assms(1)] by (simp add: insert_text_def)
next
  case False
  have "line_fits (take (ed_cursor e) (ed_line e) @ str @ drop (ed_cursor e) (ed_line e))"
    using False assms by (intro line_fits_join) (auto simp: edit_inv_def)
  then have "faithful e (redrawn e (take (ed_cursor e) (ed_line e) @ str @ drop (ed_cursor e) (ed_line e)) (ed_cursor e + length str))"
    using assms by (intro faithful_redrawn) (auto simp: edit_inv_def)
  then show ?thesis using False by (simp add: insert_text_def)
qed

lemma drop_selection:
  assumes "edit_inv e" "(if ed_sel e \<noteq> None then delete_selection e else (e, [])) = (e1, d1)"
  shows "faithful e (e1, d1)" "length (ed_line e1) \<le> length (ed_line e)" "ed_sel e1 = None" "edit_inv e1"
proof -
  show 1: "faithful e (e1, d1)" "length (ed_line e1) \<le> length (ed_line e)" "ed_sel e1 = None"
    using assms delete_selection_faithful [OF assms(1)] faithful_still [OF assms(1) refl refl] by (auto split: if_splits)
  show "edit_inv e1" using 1(1) by (simp add: faithful_def)
qed

lemma paste_faithful:
  assumes "edit_inv e"
  shows "faithful e (paste e)"
proof -
  obtain e1 d1 where 1: "(if ed_sel e \<noteq> None then delete_selection e else (e, [])) = (e1, d1)" by (cases "if ed_sel e \<noteq> None then delete_selection e else (e, [])")
  obtain e2 d2 where 2: "insert_text e1 (ed_clip e1) = (e2, d2)" by (cases "insert_text e1 (ed_clip e1)")
  note D = drop_selection [OF assms 1]
  have "faithful e1 (e2, d2)" using insert_text_faithful [OF D(4,3), of "ed_clip e1"] D(4) 2 by (simp add: edit_inv_def line_fits_def)
  from faithful_seq [OF D(1) this D(2)] show ?thesis using 1 2 by (simp add: paste_def)
qed

lemma replace_line_faithful:
  assumes "edit_inv e" "line_fits l"
  shows "faithful e (case replace_line e l of (e1, d) \<Rightarrow> (e1\<lparr>ed_sel := None\<rparr>, d))"
proof -
  have "faithful (e\<lparr>ed_sel := None\<rparr>) (redrawn (e\<lparr>ed_sel := None\<rparr>) (take (LINE_MAX - 1) l) (length (take (LINE_MAX - 1) l)))"
    using assms line_fits_take [OF assms(2)] by (intro faithful_redrawn) (simp_all add: edit_inv_def)
  then show ?thesis by (simp add: faithful_def replace_line_def redrawn_def Let_def edit_inv_def)
qed

lemma history_up_faithful:
  assumes "edit_inv e"
  shows "faithful e (history_up e)"
proof (cases "ed_history e = []")
  case True
  then show ?thesis using faithful_still [OF assms refl refl] by (simp add: history_up_def)
next
  case False
  define i where "i = (case ed_index e of None \<Rightarrow> length (ed_history e) - 1 | Some i \<Rightarrow> if i > 0 then i - 1 else i)"
  define e1 where "e1 = (case ed_index e of None \<Rightarrow> e\<lparr>ed_saved := ed_line e\<rparr> | Some i \<Rightarrow> e)"
  have i: "i < length (ed_history e)" using assms False by (auto simp: i_def edit_inv_def split: option.split)
  then have e1: "edit_inv (e1\<lparr>ed_index := Some i\<rparr>)" using assms by (auto simp: e1_def edit_inv_def split: option.split)
  have "line_fits (ed_history e ! i)" using assms i by (auto simp: edit_inv_def)
  note R = replace_line_faithful [OF e1 this]
  have "history_up e = (case replace_line (e1\<lparr>ed_index := Some i\<rparr>) (ed_history e ! i) of (e2, d) \<Rightarrow> (e2\<lparr>ed_sel := None\<rparr>, d))"
    using False by (cases "ed_index e") (simp_all add: history_up_def i_def e1_def)
  moreover have "ed_line (e1\<lparr>ed_index := Some i\<rparr>) = ed_line e" "ed_cursor (e1\<lparr>ed_index := Some i\<rparr>) = ed_cursor e"
    by (simp_all add: e1_def split: option.split)
  ultimately show ?thesis using R by (simp add: faithful_def)
qed

lemma history_down_faithful:
  assumes "edit_inv e"
  shows "faithful e (history_down e)"
proof (cases "ed_index e")
  case None
  then show ?thesis using faithful_still [OF assms refl refl] by (simp add: history_down_def)
next
  case (Some i)
  define n where "n = (if i + 1 < length (ed_history e) then Some (i + 1) else None)"
  define l where "l = (if i + 1 < length (ed_history e) then ed_history e ! (i + 1) else ed_saved e)"
  have "edit_inv (e\<lparr>ed_index := n\<rparr>)" "line_fits l" using assms by (auto simp: n_def l_def edit_inv_def)
  note R = replace_line_faithful [OF this]
  have "history_down e = (case replace_line (e\<lparr>ed_index := n\<rparr>) l of (e1, d) \<Rightarrow> (e1\<lparr>ed_sel := None\<rparr>, d))"
    using Some by (simp add: history_down_def n_def l_def)
  then show ?thesis using R by (simp add: faithful_def)
qed

lemma type_char_faithful:
  assumes "edit_inv e" "c \<ge> 32" "length (ed_line e) + 1 < LINE_MAX"
  shows "faithful e (type_char e c)"
proof -
  obtain e1 d1 where 1: "(if ed_sel e \<noteq> None then delete_selection e else (e, [])) = (e1, d1)" by (cases "if ed_sel e \<noteq> None then delete_selection e else (e, [])")
  note D = drop_selection [OF assms(1) 1]
  let ?l = "take (ed_cursor e1) (ed_line e1) @ [c] @ drop (ed_cursor e1) (ed_line e1)"
  have "line_fits ?l" using D(2,4) assms(2,3) by (intro line_fits_join) (auto simp: edit_inv_def printable_def)
  then have "faithful e1 (redrawn e1 ?l (ed_cursor e1 + 1))" using D(3,4) by (intro faithful_redrawn) (auto simp: edit_inv_def)
  then have "faithful e1 (case redrawn e1 ?l (ed_cursor e1 + 1) of (e2, d2) \<Rightarrow> (e2\<lparr>ed_index := None\<rparr>, d2))"
    by (auto simp: redrawn_def faithful_def edit_inv_def)
  then obtain e2 d2 where 2: "redrawn e1 ?l (ed_cursor e1 + 1) = (e2, d2)" "faithful e1 (e2\<lparr>ed_index := None\<rparr>, d2)"
    by (simp add: redrawn_def)
  from faithful_seq [OF D(1) 2(2) D(2)] show ?thesis using 1 2(1) by (simp add: type_char_def)
qed

lemma shortened_faithful:
  assumes "edit_inv e" "ed_sel e = None" "a \<le> b" "b \<le> length (ed_line e)"
  shows "faithful e (redrawn e (take a (ed_line e) @ drop b (ed_line e)) a)"
proof -
  have "line_fits (take a (ed_line e) @ [] @ drop b (ed_line e))"
    using assms by (intro line_fits_join) (auto simp: edit_inv_def line_fits_def printable_def)
  then show ?thesis using assms by (intro faithful_redrawn) (auto simp: edit_inv_def)
qed

lemma backspace_faithful: "edit_inv e \<Longrightarrow> faithful e (backspace e)"
  using delete_selection_faithful [of e] shortened_faithful [of e "ed_cursor e - 1" "ed_cursor e"] faithful_still [of e e]
  by (auto simp: backspace_def edit_inv_def)

lemma delete_char_faithful: "edit_inv e \<Longrightarrow> faithful e (delete_char e)"
  using delete_selection_faithful [of e] shortened_faithful [of e "ed_cursor e" "ed_cursor e + 1"] faithful_still [of e e]
  by (auto simp: delete_char_def)

lemma moves_faithful:
  assumes "edit_inv e1" "ed_line e1 = ed_line e" "ed_cursor e1 = ed_cursor e"
  shows "faithful e (move_left e1)" "faithful e (move_right e1)"
    "faithful e (e1\<lparr>ed_cursor := 0\<rparr>, replicate (ed_cursor e) Go_left)"
    "faithful e (e1\<lparr>ed_cursor := max (ed_cursor e) (length (ed_line e))\<rparr>, replicate (length (ed_line e) - ed_cursor e) Go_right)"
  using assms draw_lefts draw_rights
  by (auto simp: faithful_def move_left_def move_right_def displays_def edit_inv_def max_def)

lemma copy_faithful:
  assumes "edit_inv e"
  shows "faithful e (copy_selection e, [])"
proof (rule faithful_still)
  obtain start stop where b: "selection_bounds e = (start, stop)" by (cases "selection_bounds e")
  have "line_fits (take (stop - start) (drop start (ed_line e)))" using assms by (intro line_fits_take line_fits_drop) (simp add: edit_inv_def)
  then show "edit_inv (copy_selection e)" using assms b by (simp add: copy_selection_def edit_inv_def)
qed (simp_all add: copy_selection_def split: prod.split)

lemma start_selection_simps:
  "edit_inv e \<Longrightarrow> edit_inv (start_selection e)" "ed_line (start_selection e) = ed_line e" "ed_cursor (start_selection e) = ed_cursor e"
  by (auto simp: start_selection_def edit_inv_def)

lemma char_ge: "32 \<le> ch \<Longrightarrow> ch \<le> 255 \<Longrightarrow> (word_of_int ch :: u8) \<ge> 32"
  by (simp add: word_le_def uint_word_of_int)

lemmas key_faithful =
  copy_faithful paste_faithful history_up_faithful history_down_faithful backspace_faithful delete_char_faithful type_char_faithful

lemma edit_key_faithful:
  assumes "edit_inv e"
  shows "faithful e (edit_key e ch)"
proof -
  note U = moves_faithful [of "e\<lparr>ed_sel := None\<rparr>" e, OF unselected_inv [OF assms]]
    moves_faithful(1,2) [of "start_selection e" e, OF start_selection_simps(1) [OF assms]]
  have T: "faithful e (type_char e (word_of_int ch))" if "32 \<le> ch \<and> ch \<le> 255 \<and> length (ed_line e) + 1 < LINE_MAX"
    using that by (intro type_char_faithful [OF assms] char_ge) simp_all
  show ?thesis unfolding edit_key_def Let_def
    using U T key_faithful(1-6) [OF assms] faithful_still [OF assms refl refl] by (simp add: start_selection_simps split: if_split)
qed



end
