(* ===== verification/Tsh_Loop.thy ===== *)
theory Tsh_Loop
  imports Tsh_Edit Tsh_Run Sys_Access
begin

text \<open>
  The interaction of the shell with its user, \<open>kernel/shell/tsh.c\<close>: the prompt, completion, \<open>read_line\<close>
  over the input, logging in, and one turn of the loop of \<open>tsh_run\<close>.

  What the editor draws is the second part of a result, beside \<open>k_output\<close>, which has what
  \<open>kprintf\<close> writes outside it.  Colours, and \<open>keyboard_ack_interrupt\<close>, are left out.
\<close>

section \<open>The prompt\<close>

definition read_file_text :: "shell \<Rightarrow> u8 list \<Rightarrow> nat \<Rightarrow> u8 list \<Rightarrow> u8 list option" where
  "read_file_text sh path out_size fallback =
     map_option (\<lambda>r. case Option.bind r (\<lambda>i. node_bytes (k_nodes (sh_k sh) ! i)) of
         None \<Rightarrow> take (out_size - 1) fallback
       | Some b \<Rightarrow> c_string (rstrip (\<lambda>c. c = 13 \<or> c = newline) (take (out_size - 1) b)))
       (shell_lookup sh path)"

definition strip_first_newline :: "u8 list \<Rightarrow> u8 list" where
  "strip_first_newline s = takeWhile (\<lambda>c. c \<noteq> 13 \<and> c \<noteq> newline) s"

definition display_cwd :: "shell \<Rightarrow> nat \<Rightarrow> u8 list" where
  "display_cwd sh out_size =
     (let home = u_home (user_current (sh_users sh)); n = length home;
          cwd = (case pt_current (k_procs (sh_k sh)) of Some p \<Rightarrow> sh_cwd sh p | None \<Rightarrow> bytes_of ''/'') in
      if cwd = home then bytes_of ''~''
      else if n > 1 \<and> take n cwd = home \<and> length cwd > n \<and> cwd ! n = slash then fmt_line out_size ''~%s'' [Arg_str (Some (drop n cwd))]
      else take (out_size - 1) cwd)"

definition prompt :: "shell \<Rightarrow> u8 list option" where
  "prompt sh =
     (let u = user_current (sh_users sh) in
      map_option (\<lambda>host.
          fmt_line 1024 ''%s@%s'' [Arg_str (Some (u_name u)), Arg_str (Some (strip_first_newline host))] @
          fmt_line 1024 '':%s%s '' [Arg_str (Some (display_cwd sh VFS_PATH_MAX)), Arg_str (Some (if u_uid u = 0 then bytes_of ''#'' else bytes_of ''$''))])
        (read_file_text sh (bytes_of ''/etc/hostname'') 64 (bytes_of ''tiramisu'')))"

section \<open>Completion\<close>

record completion =
  cp_prefix :: "u8 list"
  cp_common :: "u8 list"
  cp_display :: "u8 list list"
  cp_count :: nat

definition completion_consider :: "u8 list \<Rightarrow> completion \<Rightarrow> completion" where
  "completion_consider candidate c =
     (if take (length (cp_prefix c)) candidate \<noteq> cp_prefix c then c
      else c\<lparr>cp_common := (if cp_count c = 0 then take (VFS_PATH_MAX - 1) candidate else longest_common_prefix (cp_common c) candidate),
             cp_display := (if cp_count c < 16 then cp_display c @ [take (VFS_PATH_MAX - 1) candidate] else cp_display c),
             cp_count := cp_count c + 1\<rparr>)"

definition completion_word :: "u8 list \<Rightarrow> u8 list" where
  "completion_word before = rev (takeWhile (\<lambda>c. \<not> blank c \<and> c \<notin> set (bytes_of ''|&<>'')) (rev before))"

definition completion_is_command_position :: "u8 list \<Rightarrow> bool" where
  "completion_is_command_position before =
     (let s = rstrip blank before in
      s = [] \<or> last s = chr CHR ''|'' \<or> length s \<ge> 2 \<and> last s = chr CHR ''&'' \<and> last (butlast s) = chr CHR ''&'')"

text \<open>The directory of a path, and the candidate for one of its entries.\<close>

definition completion_dir :: "u8 list \<Rightarrow> u8 list option" where
  "completion_dir pre =
     (let n = length pre - length (command_basename pre) - 1 in
      if slash \<notin> set pre then Some (bytes_of ''.'')
      else if n = 0 then Some (bytes_of ''/'')
      else if n \<ge> VFS_PATH_MAX then None
      else Some (take n pre))"

definition path_candidate :: "u8 list \<Rightarrow> vfs_node \<Rightarrow> u8 list" where
  "path_candidate pre v =
     (let tail = Arg_str (Some (if vn_type v = VFS_NODE_DIR then bytes_of ''/'' else [])); name = Arg_str (Some (vn_name v));
          n = length pre - length (command_basename pre) - 1 in
      if slash \<notin> set pre then fmt_line VFS_PATH_MAX ''%s%s'' [name, tail]
      else if n = 0 then fmt_line VFS_PATH_MAX ''/%s%s'' [name, tail]
      else fmt_line VFS_PATH_MAX ''%s/%s%s'' [Arg_str (Some (take n pre)), name, tail])"

definition dir_entries :: "shell \<Rightarrow> u8 list \<Rightarrow> vfs_node list option" where
  "dir_entries sh path =
     (case shell_lookup sh path of
        None \<Rightarrow> None
      | Some None \<Rightarrow> Some []
      | Some (Some dir) \<Rightarrow>
          if vn_type (k_nodes (sh_k sh) ! dir) \<noteq> VFS_NODE_DIR then Some []
          else map_option (map (\<lambda>i. k_nodes (sh_k sh) ! i)) (vfs_list (k_fs (sh_k sh)) (Some dir)))"

definition complete_path :: "shell \<Rightarrow> u8 list \<Rightarrow> u8 list list option" where
  "complete_path sh pre =
     (case completion_dir pre of
        None \<Rightarrow> Some []
      | Some dir \<Rightarrow> map_option (map (path_candidate pre)) (dir_entries sh dir))"

function path_dirs :: "u8 list \<Rightarrow> u8 list list" where
  "path_dirs path =
     (if path = [] then []
      else
        let dir = take (VFS_PATH_MAX - 1) (takeWhile (\<lambda>c. c \<noteq> chr CHR '':'') path); rest = drop (length dir) path in
        dir # path_dirs (if rest \<noteq> [] \<and> hd rest = chr CHR '':'' then tl rest else rest))"
  by auto
termination
proof (relation "measure length", goal_cases)
  case (2 path dir rest)
  then show ?case by (cases path) (auto simp: VFS_PATH_MAX_def Suc_le_eq less_Suc_eq_le intro: diff_le_self)
qed simp

declare path_dirs.simps [simp del]

fun command_entries :: "shell \<Rightarrow> u8 list list \<Rightarrow> u8 list list option" where
  "command_entries sh [] = Some []"
| "command_entries sh (dir # dirs) =
     (case (dir_entries sh (if dir \<noteq> [] then dir else bytes_of ''.''), command_entries sh dirs) of
        (Some vs, Some names) \<Rightarrow> Some (map vn_name (filter (\<lambda>v. vn_type v = VFS_NODE_FILE \<and> shell_can_execute_node sh v) vs) @ names)
      | _ \<Rightarrow> None)"

definition complete_command :: "shell \<Rightarrow> u8 list list option" where
  "complete_command sh = map_option (\<lambda>names. builtin_names @ names) (command_entries sh (path_dirs (shell_path (sh_envs sh))))"

definition completion_of :: "u8 list \<Rightarrow> u8 list list \<Rightarrow> completion" where
  "completion_of pre candidates = fold completion_consider candidates \<lparr>cp_prefix = pre, cp_common = [], cp_display = [], cp_count = 0\<rparr>"

definition completion_listing :: "completion \<Rightarrow> u8 list" where
  "completion_listing c =
     [newline] @ concat (map (\<lambda>(i, s). s @ (if i mod 4 = 0 then [newline] else [32, 32])) (enumerate 1 (cp_display c))) @
     (if cp_count c > length (cp_display c) then bytes_of ''... '' else []) @ [newline]"

definition handle_tab :: "shell \<Rightarrow> edit \<Rightarrow> (edit \<times> draw list) option" where
  "handle_tab sh e =
     (let before = take (ed_cursor e) (ed_line e); pre = completion_word before in
      if length pre \<ge> VFS_PATH_MAX then Some (e, [])
      else
        case (if completion_is_command_position (take (length before - length pre) before) \<and> slash \<notin> set pre then complete_command sh else complete_path sh pre) of
          None \<Rightarrow> None
        | Some candidates \<Rightarrow>
            let c = completion_of pre candidates in
            if cp_count c = 0 then Some (e, [])
            else if length (cp_common c) > length pre then Some (insert_text e (drop (length pre) (cp_common c)))
            else map_option (\<lambda>p. (e, map Put (completion_listing c @ p) @ redraw_line 0 0 (ed_line e) (ed_cursor e))) (prompt sh))"

section \<open>What completion inserts\<close>

lemma common_insert:
  assumes "L \<noteq> {}"
  shows "Longest_common_prefix (insert x L) = longest_common_prefix (Longest_common_prefix L) x"
proof (rule prefix_order.antisym)
  let ?p = "Longest_common_prefix (insert x L)"
  have "prefix ?p (Longest_common_prefix L)" by (rule Longest_common_prefix_max_prefix [OF assms]) (auto intro: Longest_common_prefix_prefix)
  then show "prefix ?p (longest_common_prefix (Longest_common_prefix L) x)"
    by (rule longest_common_prefix_max_prefix) (auto intro: Longest_common_prefix_prefix)
  show "prefix (longest_common_prefix (Longest_common_prefix L) x) ?p"
  proof (rule Longest_common_prefix_max_prefix)
    show "\<forall>y \<in> insert x L. prefix (longest_common_prefix (Longest_common_prefix L) x) y"
      using longest_common_prefix_prefix1 [of "Longest_common_prefix L" x] longest_common_prefix_prefix2 [of "Longest_common_prefix L" x]
      by (auto intro: prefix_order.trans Longest_common_prefix_prefix)
  qed simp
qed

lemma common_single: "Longest_common_prefix {x} = x"
  by (rule Longest_common_prefix_eq) (auto dest: prefix_length_le)

lemma prefix_take: "prefix pre s \<longleftrightarrow> take (length pre) s = pre"
  by (auto simp: prefix_def) (metis append_take_drop_id)

lemma completion_of_matches:
  assumes "\<forall>c \<in> set cs. length c < VFS_PATH_MAX"
  shows "completion_of pre cs =
    \<lparr>cp_prefix = pre, cp_common = (if filter (prefix pre) cs = [] then [] else Longest_common_prefix (set (filter (prefix pre) cs))),
     cp_display = take 16 (filter (prefix pre) cs), cp_count = length (filter (prefix pre) cs)\<rparr>"
  using assms
proof (induction cs rule: rev_induct)
  case Nil
  show ?case by (simp add: completion_of_def)
next
  case (snoc x cs)
  let ?ms = "filter (prefix pre) cs"
  have l: "take (VFS_PATH_MAX - 1) x = x" using snoc.prems by (simp add: VFS_PATH_MAX_def)
  have IH: "completion_of pre cs = \<lparr>cp_prefix = pre, cp_common = (if ?ms = [] then [] else Longest_common_prefix (set ?ms)), cp_display = take 16 ?ms, cp_count = length ?ms\<rparr>"
    using snoc by simp
  have step: "completion_of pre (cs @ [x]) = completion_consider x (completion_of pre cs)" by (simp add: completion_of_def)
  show ?case
  proof (cases "prefix pre x")
    case False
    then have "take (length pre) x \<noteq> pre" by (simp add: prefix_take)
    then show ?thesis using False unfolding step IH by (simp add: completion_consider_def)
  next
    case True
    then have t: "take (length pre) x = pre" by (simp add: prefix_take)
    show ?thesis
    proof (cases "?ms = []")
      case empty: True
      then show ?thesis using True t l unfolding step IH by (simp add: completion_consider_def common_single)
    next
      case False
      have "Longest_common_prefix (insert x (set ?ms)) = longest_common_prefix (Longest_common_prefix (set ?ms)) x"
        by (rule common_insert) (metis False set_empty)
      then show ?thesis using False True t l unfolding step IH by (simp add: completion_consider_def)
    qed
  qed
qed

text \<open>
  C40: Completion inserts what all candidates agree on.  Of candidates that fit into their buffers,
  those that begin with the word at the cursor are counted, and what the completion has in common is
  their longest common prefix, which continues that word.
\<close>

theorem completion_correct:
  assumes "\<forall>c \<in> set cs. length c < VFS_PATH_MAX" "c \<in> set cs" "prefix pre c"
  shows "cp_count (completion_of pre cs) = length (filter (prefix pre) cs) \<and>
    cp_common (completion_of pre cs) = Longest_common_prefix {c \<in> set cs. prefix pre c} \<and>
    prefix pre (cp_common (completion_of pre cs))"
proof -
  have ne: "filter (prefix pre) cs \<noteq> []" using assms(2,3) by (auto simp: filter_empty_conv)
  then have "cp_common (completion_of pre cs) = Longest_common_prefix {c \<in> set cs. prefix pre c}"
    using completion_of_matches [OF assms(1), of pre] by simp
  moreover have "prefix pre (Longest_common_prefix {c \<in> set cs. prefix pre c})"
    using assms(2,3) by (intro Longest_common_prefix_max_prefix) auto
  ultimately show ?thesis using completion_of_matches [OF assms(1), of pre] by simp
qed

theorem completion_correct_witness:
  "cp_common (completion_of (bytes_of ''s'') builtin_names) = Longest_common_prefix {bytes_of ''set'', bytes_of ''sh'', bytes_of ''sudo'', bytes_of ''sysinstall''}"
proof -
  have "filter (prefix (bytes_of ''s'')) builtin_names = map bytes_of [''set'', ''sh'', ''sudo'', ''sysinstall'']" by code_simp
  then have m: "{c \<in> set builtin_names. prefix (bytes_of ''s'') c} = set (map bytes_of [''set'', ''sh'', ''sudo'', ''sysinstall''])"
    by (simp only: set_filter [symmetric])
  have "\<forall>c \<in> set builtin_names. length c < VFS_PATH_MAX" "bytes_of ''set'' \<in> set builtin_names" "prefix (bytes_of ''s'') (bytes_of ''set'')"
    by code_simp+
  from completion_correct [OF this] show ?thesis unfolding m by simp
qed

section \<open>Reading a line\<close>

text \<open>The line, the editor at the end, the input that is left, and what was drawn.\<close>

function read_line_loop :: "shell \<Rightarrow> input list \<Rightarrow> edit \<Rightarrow> draw list \<Rightarrow> (u8 list \<times> edit \<times> input list \<times> draw list) option" where
  "read_line_loop sh inp e ds =
     (case console_getchar inp of
        None \<Rightarrow> None
      | Some (ch, rest) \<Rightarrow>
          if ch = 10 \<or> ch = 13 then Some (ed_line e, e\<lparr>ed_history := add_history (ed_history e) (ed_line e)\<rparr>, rest, ds @ [Put newline])
          else if ch = KEY_CTRL_C then
            Some ([], e, rest, ds @ replicate (length (ed_line e) - ed_cursor e) Go_right @ map Put (bytes_of ''^C\<newline>''))
          else if ch = 9 then
            (case handle_tab sh (e\<lparr>ed_sel := None\<rparr>) of
               None \<Rightarrow> None
             | Some (e1, d) \<Rightarrow> read_line_loop sh rest e1 (ds @ d))
          else
            case edit_key e ch of (e1, d) \<Rightarrow> read_line_loop sh rest e1 (ds @ d))"
  by auto
termination
  by (relation "measure (\<lambda>(sh, inp, e, ds). length inp)") (auto dest: console_getchar_shorter)

declare read_line_loop.simps [simp del]

definition edit_start :: "shell \<Rightarrow> edit" where
  "edit_start sh = \<lparr>ed_line = [], ed_cursor = 0, ed_index = None, ed_saved = [], ed_sel = None, ed_clip = sh_clip sh, ed_history = sh_history sh\<rparr>"

definition set_input :: "shell \<Rightarrow> input list \<Rightarrow> shell" where
  "set_input sh inp = sh\<lparr>sh_k := (sh_k sh)\<lparr>k_input := inp\<rparr>\<rparr>"

definition read_line :: "shell \<Rightarrow> (shell \<times> u8 list \<times> draw list) option" where
  "read_line sh =
     map_option (\<lambda>(line, e, rest, ds). ((set_input sh rest)\<lparr>sh_history := ed_history e, sh_clip := ed_clip e\<rparr>, line, ds))
       (read_line_loop sh (k_input (sh_k sh)) (edit_start sh) [])"

section \<open>Logging in\<close>

function plain_line_loop :: "input list \<Rightarrow> u8 list \<Rightarrow> nat \<Rightarrow> u8 list \<Rightarrow> (u8 list \<times> input list \<times> u8 list) option" where
  "plain_line_loop inp line n out =
     (case console_getchar inp of
        None \<Rightarrow> None
      | Some (ch, rest) \<Rightarrow>
          if ch = 10 \<or> ch = 13 then Some (line, rest, out @ [newline])
          else if ch = KEY_CTRL_C then Some ([], rest, out @ bytes_of ''^C\<newline>'')
          else if ch = 8 \<or> ch = 127 then plain_line_loop rest (butlast line) n (if line \<noteq> [] then out @ [8] else out)
          else if ch \<ge> 32 \<and> ch \<le> 255 \<and> length line + 1 < n then plain_line_loop rest (line @ [word_of_int ch]) n (out @ [word_of_int ch])
          else plain_line_loop rest line n out)"
  by auto
termination
  by (relation "measure (\<lambda>(inp, line, n, out). length inp)") (auto dest: console_getchar_shorter)

declare plain_line_loop.simps [simp del]

definition read_plain_line :: "shell \<Rightarrow> nat \<Rightarrow> (shell \<times> u8 list) option" where
  "read_plain_line sh n =
     map_option (\<lambda>(line, rest, out). ((set_input sh rest)\<lparr>sh_k := (sh_k (set_input sh rest))\<lparr>k_output := k_output (sh_k sh) @ [Console out]\<rparr>\<rparr>, line))
       (plain_line_loop (k_input (sh_k sh)) [] n [])"

text \<open>A round of \<open>login_prompt\<close>: the shell and whether a session has started.\<close>

definition login_round :: "shell \<Rightarrow> (shell \<times> bool) option" where
  "login_round sh =
     (case read_plain_line (say sh ''\<newline>Tiramisu login: '' []) LINE_MAX of
        None \<Rightarrow> None
      | Some (sh1, user) \<Rightarrow>
          if user = [] then Some (sh1, False)
          else
            map_option (\<lambda>(sh2, rc).
                if rc < 0 then (sh2, False)
                else case shell_apply_user_session sh2 user of
                  (sh3, rc2) \<Rightarrow> if rc2 < 0 then (say sh3 ''login: cannot start session for %s\<newline>'' [Arg_str (Some user)], False) else (sh3, True))
              (shell_authenticate_user sh1 user True))"

partial_function (option) login_prompt :: "shell \<Rightarrow> shell option" where
  "login_prompt sh =
     (case login_round sh of
        None \<Rightarrow> None
      | Some (sh1, started) \<Rightarrow> if started then Some sh1 else login_prompt sh1)"

section \<open>The shell\<close>

definition init_env :: "shell \<Rightarrow> shell option" where
  "init_env sh =
     map_option (\<lambda>text'.
         let loc = (if strip_first_newline text' = [] then bytes_of ''en_US'' else strip_first_newline text');
             e0 = [(bytes_of ''PATH'', bytes_of ''/bin:/sbin:/usr/bin:/usr/games''), (bytes_of ''SHELL'', bytes_of ''/bin/tsh''), (bytes_of ''TERM'', bytes_of ''tnu-vga'')];
             e1 = fst (env_set_value e0 (bytes_of ''LANG'') loc) in
         sh\<lparr>sh_envs := fst (env_set_value e1 (bytes_of ''LC_ALL'') loc)\<rparr>)
       (read_file_text sh (bytes_of ''/etc/locale'') 32 (bytes_of ''en_US''))"

text \<open>A turn of the loop of \<open>tsh_run\<close>, which has no end: the prompt, a line, its commands.\<close>

definition shell_turn :: "outside \<Rightarrow> nat \<Rightarrow> shell \<Rightarrow> (shell \<times> int \<times> draw list) option" where
  "shell_turn E levels sh =
     (case prompt sh of
        None \<Rightarrow> None
      | Some p \<Rightarrow>
          (case read_line (sh\<lparr>sh_k := (sh_k sh)\<lparr>k_output := k_output (sh_k sh) @ [Console p]\<rparr>\<rparr>) of
             None \<Rightarrow> None
           | Some (sh1, line, ds) \<Rightarrow> map_option (\<lambda>(sh2, rc). (sh2, rc, ds)) (run_line E (run_command E levels) sh1 line)))"

section \<open>A session needs a password\<close>

text \<open>What stays as it is until a session starts; the input that is left is the end of the input.\<close>

definition same_table :: "shell \<Rightarrow> shell \<Rightarrow> bool" where
  "same_table sh sh' \<longleftrightarrow> us_users (sh_users sh') = us_users (sh_users sh) \<and> pt_current (k_procs (sh_k sh')) = pt_current (k_procs (sh_k sh)) \<and>
     suffix (k_input (sh_k sh')) (k_input (sh_k sh)) \<and> length (pt_processes (k_procs (sh_k sh'))) = length (pt_processes (k_procs (sh_k sh)))"

lemma same_table_trans: "same_table a b \<Longrightarrow> same_table b c \<Longrightarrow> same_table a c"
  by (auto simp: same_table_def intro: suffix_order.order_trans)

lemma say_simps [simp]:
  "sh_users (say sh f a) = sh_users sh" "k_input (sh_k (say sh f a)) = k_input (sh_k sh)" "k_procs (sh_k (say sh f a)) = k_procs (sh_k sh)"
  by (simp_all add: say_def)

lemma same_table_say [simp]: "same_table sh (say sh' f a) \<longleftrightarrow> same_table sh sh'" "same_table (say sh f a) sh' \<longleftrightarrow> same_table sh sh'"
  by (simp_all add: same_table_def)

lemma console_getchar_suffix: "console_getchar inp = Some (c, rest) \<Longrightarrow> suffix rest inp"
  by (induction inp rule: console_getchar.induct) (auto split: if_splits intro: suffix_ConsI)

lemma plain_line_suffix: "plain_line_loop inp line n out = Some (l, rest, out') \<Longrightarrow> suffix rest inp"
proof (induction "length inp" arbitrary: inp line out rule: less_induct)
  case less
  show ?case
  proof (cases "console_getchar inp")
    case None
    then show ?thesis using less.prems by (subst (asm) plain_line_loop.simps) simp
  next
    case (Some r)
    obtain ch rest1 where r: "r = (ch, rest1)" by (cases r)
    have s: "suffix rest1 inp" "length rest1 < length inp" using console_getchar_suffix console_getchar_shorter Some r by simp_all
    have "plain_line_loop rest1 line' n out1 = Some (l, rest, out') \<Longrightarrow> suffix rest inp" for line' out1
      using less.hyps [OF s(2)] s(1) suffix_order.order_trans by blast
    then show ?thesis using less.prems Some r s by (subst (asm) plain_line_loop.simps) (auto split: if_splits)
  qed
qed

lemma password_suffix: "read_password_loop inp line n = Some (l, rest) \<Longrightarrow> suffix rest inp"
proof (induction "length inp" arbitrary: inp line rule: less_induct)
  case less
  show ?case
  proof (cases "console_getchar inp")
    case None
    then show ?thesis using less.prems by (subst (asm) read_password_loop.simps) simp
  next
    case (Some r)
    obtain ch rest1 where r: "r = (ch, rest1)" by (cases r)
    have s: "suffix rest1 inp" "length rest1 < length inp" using console_getchar_suffix console_getchar_shorter Some r by simp_all
    have "read_password_loop rest1 line' n = Some (l, rest) \<Longrightarrow> suffix rest inp" for line'
      using less.hyps [OF s(2)] s(1) suffix_order.order_trans by blast
    then show ?thesis using less.prems Some r s by (subst (asm) read_password_loop.simps) (auto split: if_splits)
  qed
qed

text \<open>
  Somewhere in the input a password was typed that the user table accepts for the name; an account
  without a password takes only the empty line.
\<close>

definition typed_password :: "user_record list \<Rightarrow> input list \<Rightarrow> u8 list \<Rightarrow> bool" where
  "typed_password users inp name \<longleftrightarrow> (\<exists>inp1 password rest. suffix inp1 inp \<and> read_password_loop inp1 [] LINE_MAX = Some (password, rest) \<and>
     (\<exists>u. user_find_name users name = Some u \<and> (if u_password_set u then hash_password (u_salt u) password = u_hash u else password = [])))"

text \<open>The current user and the identity of the process are those of the name.\<close>

definition session_of :: "shell \<Rightarrow> u8 list \<Rightarrow> bool" where
  "session_of sh name \<longleftrightarrow> (\<exists>p u. pt_current (k_procs (sh_k sh)) = Some p \<and> user_find_name (us_users (sh_users sh)) name = Some u \<and>
     user_current (sh_users sh) = u \<and> (p < length (pt_processes (k_procs (sh_k sh))) \<longrightarrow> p_uid (k_proc (sh_k sh) p) = u_uid u \<and> p_gid (k_proc (sh_k sh) p) = u_gid u))"

lemma apply_session:
  assumes "shell_apply_user_session sh name = (sh', rc)"
  shows "same_table sh sh' \<and> (rc < 0 \<or> session_of sh' name)"
  using assms
  by (auto simp: shell_apply_user_session_def user_login_def Let_def same_table_def session_of_def set_users_def set_proc_def user_find_name_def user_current_def
      split: option.splits prod.splits)

lemma user_login_table: "us_users (fst (user_login us name)) = us_users us" "us_users (fst (user_login_password us name password)) = us_users us"
  by (auto simp: user_login_def user_login_password_def split: option.split)

lemma same_table_set_users: "us_users us = us_users (sh_users sh') \<Longrightarrow> same_table sh (set_users sh' us) \<longleftrightarrow> same_table sh sh'"
  by (simp add: same_table_def set_users_def)

lemma read_password_ok:
  assumes "read_password sh n = Some (sh1, password)"
  shows "same_table sh sh1 \<and> sh_users sh1 = sh_users sh \<and> (\<exists>rest. read_password_loop (k_input (sh_k sh)) [] n = Some (password, rest))"
proof -
  obtain rest where l: "read_password_loop (k_input (sh_k sh)) [] n = Some (password, rest)" and
    s: "sh1 = say (sh\<lparr>sh_k := (sh_k sh)\<lparr>k_input := rest\<rparr>\<rparr>) ''\<newline>'' []"
    using assms by (auto simp: read_password_def)
  show ?thesis using l s password_suffix [OF l] by (simp add: same_table_def)
qed

lemma authenticate_ok:
  assumes "shell_authenticate_user sh name i = Some (sh', rc)"
  shows "same_table sh sh' \<and> (rc < 0 \<or> typed_password (us_users (sh_users sh)) (k_input (sh_k sh)) name)"
proof -
  have refl: "same_table sh sh" by (simp add: same_table_def)
  show ?thesis
  proof (cases "name = [] \<or> user_find_name (us_users (sh_users sh)) name = None")
    case True
    then show ?thesis using assms refl by (auto simp: shell_authenticate_user_def Let_def split: if_splits)
  next
    case False
    then obtain u where u: "user_find_name (us_users (sh_users sh)) name = Some u" and nm: "name \<noteq> []" by auto
    show ?thesis
    proof (cases "read_password (say sh ''Password: '' []) LINE_MAX")
      case None
      then show ?thesis using assms nm u by (simp add: shell_authenticate_user_def Let_def)
    next
      case (Some r)
      obtain sh1 password where r: "r = (sh1, password)" by (cases r)
      obtain rest where P: "same_table sh sh1" "sh_users sh1 = sh_users sh" "read_password_loop (k_input (sh_k sh)) [] LINE_MAX = Some (password, rest)"
        using read_password_ok Some r by fastforce
      have typed: "typed_password (us_users (sh_users sh)) (k_input (sh_k sh)) name"
        if "if u_password_set u then hash_password (u_salt u) password = u_hash u else password = []"
        unfolding typed_password_def using P(3) u that by blast
      show ?thesis
      proof (cases "u_password_set u")
        case True
        obtain us rc1 where us: "user_login_password (sh_users sh1) name password = (us, rc1)" by (cases "user_login_password (sh_users sh1) name password")
        have t: "us_users us = us_users (sh_users sh1)" using user_login_table(2) [of "sh_users sh1" name password] us by simp
        have c: "rc1 < 0 \<or> hash_password (u_salt u) password = u_hash u"
          using us True u P(2) by (auto simp: user_login_password_def user_check_password_def split: if_splits)
        have "sh' = (if rc1 < 0 then if i then say (set_users sh1 us) ''login: authentication failed\<newline>'' [] else set_users sh1 us else set_users sh1 us) \<and>
            rc = (if rc1 < 0 then -1 else 0)"
          using assms nm Some r True u us P(2) by (auto simp: shell_authenticate_user_def Let_def user_has_password_def split: if_splits)
        then show ?thesis using typed True c P(1) same_table_set_users [OF t, of sh] by auto
      next
        case no: False
        show ?thesis
        proof (cases "password = []")
          case True
          then have "shell_apply_user_session sh1 name = (sh', rc)"
            using assms nm Some r no u P(2) by (simp add: shell_authenticate_user_def Let_def user_has_password_def)
          then show ?thesis using apply_session same_table_trans P(1) typed no True by auto
        next
          case False
          then show ?thesis using assms nm Some r no u P by (auto simp: shell_authenticate_user_def Let_def user_has_password_def split: if_splits)
        qed
      qed
    qed
  qed
qed

lemma typed_password_suffix: "typed_password users inp1 name \<Longrightarrow> suffix inp1 inp \<Longrightarrow> typed_password users inp name"
  unfolding typed_password_def using suffix_order.order_trans by blast

lemma login_round_ok:
  assumes "login_round sh = Some (sh', started)"
  shows "same_table sh sh' \<and> (\<not> started \<or> (\<exists>name. session_of sh' name \<and> typed_password (us_users (sh_users sh)) (k_input (sh_k sh)) name))"
proof -
  obtain sh1 user where r: "read_plain_line (say sh ''\<newline>Tiramisu login: '' []) LINE_MAX = Some (sh1, user)"
    using assms by (auto simp: login_round_def split: option.splits)
  then obtain rest out where p: "plain_line_loop (k_input (sh_k sh)) [] LINE_MAX [] = Some (user, rest, out)"
    and s1: "sh_users sh1 = sh_users sh" "k_procs (sh_k sh1) = k_procs (sh_k sh)" "k_input (sh_k sh1) = rest"
    by (auto simp: read_plain_line_def set_input_def)
  have S: "same_table sh sh1" using plain_line_suffix [OF p] s1 by (simp add: same_table_def)
  show ?thesis
  proof (cases "user = []")
    case True
    then show ?thesis using assms r S by (simp add: login_round_def)
  next
    case False
    obtain sh2 rc where a: "shell_authenticate_user sh1 user True = Some (sh2, rc)"
      using assms r False by (auto simp: login_round_def)
    note A = authenticate_ok [OF a]
    obtain sh3 rc2 where b: "shell_apply_user_session sh2 user = (sh3, rc2)" by (cases "shell_apply_user_session sh2 user")
    note B = apply_session [OF b]
    have "sh' = (if rc < 0 then sh2 else if rc2 < 0 then say sh3 ''login: cannot start session for %s\<newline>'' [Arg_str (Some user)] else sh3) \<and>
        started = (rc \<ge> 0 \<and> rc2 \<ge> 0)"
      using assms r False a b by (auto simp: login_round_def split: if_splits)
    moreover have "same_table sh sh2" "same_table sh sh3" using A B S same_table_trans by blast+
    moreover have "typed_password (us_users (sh_users sh)) (k_input (sh_k sh)) user" if "rc \<ge> 0"
      using A that S s1(1) typed_password_suffix by (auto simp: same_table_def)
    ultimately show ?thesis using B by auto
  qed
qed

lemma login_prompt_session:
  assumes "login_prompt sh = Some sh'"
  shows "\<exists>name. session_of sh' name \<and> typed_password (us_users (sh_users sh)) (k_input (sh_k sh)) name"
proof (rule login_prompt.raw_induct [where P = "\<lambda>sh sh'. \<exists>name. session_of sh' name \<and> typed_password (us_users (sh_users sh)) (k_input (sh_k sh)) name", OF _ assms])
  fix f sh sh'
  assume IH: "\<And>x y. f x = Some y \<Longrightarrow> \<exists>name. session_of y name \<and> typed_password (us_users (sh_users x)) (k_input (sh_k x)) name"
    and body: "(case login_round sh of None \<Rightarrow> None | Some (sh1, started) \<Rightarrow> if started then Some sh1 else f sh1) = Some sh'"
  obtain sh1 started where r: "login_round sh = Some (sh1, started)" using body by (auto split: option.splits)
  note R = login_round_ok [OF r]
  show "\<exists>name. session_of sh' name \<and> typed_password (us_users (sh_users sh)) (k_input (sh_k sh)) name"
  proof (cases started)
    case True
    then show ?thesis using R r body by simp
  next
    case False
    then have "f sh1 = Some sh'" using r body by simp
    from IH [OF this] show ?thesis using R typed_password_suffix by (auto simp: same_table_def)
  qed
qed


definition login_shell :: shell where
  "login_shell =
     \<lparr>sh_k = (one_kernel 7 root_fs)\<lparr>k_users := \<lparr>us_users = [\<lparr>u_name = bytes_of ''root'', u_uid = 0, u_gid = 0, u_home = bytes_of ''/root'', u_shell = bytes_of ''/bin/tsh'',
        u_salt = 0, u_hash = 0, u_password_set = False\<rparr>], us_current = 0, us_fs = root_fs\<rparr>,
        k_input := map Serial (bytes_of ''root\<newline>\<newline>'')\<rparr>,
      sh_envs = [], sh_ops = replicate ARGV_MAX [], sh_blocks = replicate SCRIPT_MAX_DEPTH [], sh_values = replicate SCRIPT_MAX_DEPTH [], sh_args = [],
      sh_pipes = [[], []], sh_history = [], sh_clip = [], sh_capture = None\<rparr>"

lemma login_returns: "\<exists>sh. login_prompt login_shell = Some sh"
proof -
  have p: "plain_line_loop (map Serial (bytes_of ''root\<newline>\<newline>'')) [] LINE_MAX [] = Some (bytes_of ''root'', [Serial 10], bytes_of ''root\<newline>'')"
    by code_simp
  have q: "read_password_loop [Serial 10] [] LINE_MAX = Some ([], [])" by code_simp
  have f: "find_name (us_users (sh_users login_shell)) (bytes_of ''root'') 0 = Some 0" by (simp add: login_shell_def bytes_of_def)
  have i: "k_input (sh_k login_shell) = map Serial (bytes_of ''root\<newline>\<newline>'')" by (simp add: login_shell_def)
  have c: "pt_current (k_procs (sh_k login_shell)) = Some 0" by (simp add: login_shell_def one_kernel_simps)
  have n: "\<not> u_password_set (us_users (sh_users login_shell) ! 0)" by (simp add: login_shell_def)
  obtain sh1 where 1: "read_plain_line (say login_shell ''\<newline>Tiramisu login: '' []) LINE_MAX = Some (sh1, bytes_of ''root'')"
    "sh_users sh1 = sh_users login_shell" "k_procs (sh_k sh1) = k_procs (sh_k login_shell)" "k_input (sh_k sh1) = [Serial 10]"
    using p i by (simp add: read_plain_line_def set_input_def)
  obtain sh2 where 2: "read_password (say sh1 ''Password: '' []) LINE_MAX = Some (sh2, [])" "sh_users sh2 = sh_users login_shell"
    "k_procs (sh_k sh2) = k_procs (sh_k login_shell)"
    using q 1 by (simp add: read_password_def)
  have ap: "\<exists>sh'. shell_apply_user_session s (bytes_of ''root'') = (sh', 0) \<and> us_users (sh_users sh') = us_users (sh_users login_shell) \<and>
      pt_current (k_procs (sh_k sh')) = Some 0"
    if "us_users (sh_users s) = us_users (sh_users login_shell)" "pt_current (k_procs (sh_k s)) = Some 0" for s
    using that f by (simp add: shell_apply_user_session_def user_login_def Let_def set_users_def set_proc_def)
  obtain sh3 where 3: "shell_apply_user_session sh2 (bytes_of ''root'') = (sh3, 0)" "us_users (sh_users sh3) = us_users (sh_users login_shell)"
    "pt_current (k_procs (sh_k sh3)) = Some 0"
    using ap [of sh2] 2 c by auto
  obtain sh4 where 4: "shell_apply_user_session sh3 (bytes_of ''root'') = (sh4, 0)" using ap [of sh3] 3 by auto
  have nonempty: "bytes_of ''root'' \<noteq> []" by (simp add: bytes_of_def)
  have a: "shell_authenticate_user sh1 (bytes_of ''root'') True = Some (sh3, 0)"
    using 1 2 3(1) f n nonempty by (simp add: shell_authenticate_user_def user_find_name_def user_has_password_def)
  have "login_round login_shell = Some (sh4, True)" using 1(1) a 4 nonempty by (simp add: login_round_def)
  then show ?thesis by (subst login_prompt.simps) simp
qed


end
